(* ===== verification/Prelude.thy ===== *)
theory Prelude imports Main "HOL-Library.Word" "HOL-Library.Signed_Division" begin

text \<open>
  Shared vocabulary of the development: the names of the C++ integer types, arrays that
  are indexed by a C++ \<open>int\<close>, the remainder operator of C++, and the generic lemmas on
  arrays and sorted lists that several components use.

  Conventions. A signed C++ integer (\<open>int\<close>, \<open>int32_t\<close>) is a HOL \<open>int\<close>: signed overflow
  is undefined in C++, so the components state the range their values stay in. Unsigned
  integers, whose wrap-around is defined, are words. A C++ array is a list; reading it
  outside its bounds is undefined in C++ and unspecified here, so the invariants of the
  components keep the indices in range.
\<close>

named_theorems arr_simps \<open>reading and writing arrays indexed by an int\<close>

type_synonym int32 = int
type_synonym uint32 = "32 word"
type_synonym uint64 = "64 word"

section \<open>Arrays\<close>

definition aget :: "'a list \<Rightarrow> int \<Rightarrow> 'a" where
  "aget xs i = xs ! nat i"

definition aset :: "'a list \<Rightarrow> int \<Rightarrow> 'a \<Rightarrow> 'a list" where
  "aset xs i v = xs[nat i := v]"

definition inb :: "'a list \<Rightarrow> int \<Rightarrow> bool" where
  "inb xs i \<longleftrightarrow> 0 \<le> i \<and> i < int (length xs)"

lemma length_aset [simp, arr_simps]: "length (aset xs i v) = length xs"
  by (simp add: aset_def)

lemma inb_aset [simp, arr_simps]: "inb (aset xs i v) j = inb xs j"
  by (simp add: inb_def)

lemma aget_aset_same [simp, arr_simps]: "inb xs i \<Longrightarrow> aget (aset xs i v) i = v"
  by (simp add: aget_def aset_def inb_def nat_less_iff)

lemma aget_aset_other [simp, arr_simps]:
  "i \<noteq> j \<Longrightarrow> 0 \<le> i \<Longrightarrow> 0 \<le> j \<Longrightarrow> aget (aset xs i v) j = aget xs j"
  by (simp add: aget_def aset_def nat_eq_iff)

lemma aget_aset:
  "inb xs i \<Longrightarrow> 0 \<le> j \<Longrightarrow> aget (aset xs i v) j = (if i = j then v else aget xs j)"
  by (auto simp: inb_def)

lemma aset_aset_same [simp, arr_simps]: "aset (aset xs i v) i w = aset xs i w"
  by (simp add: aset_def)

lemma aset_swap: "0 \<le> i \<Longrightarrow> 0 \<le> j \<Longrightarrow> i \<noteq> j \<Longrightarrow> aset (aset xs i v) j w = aset (aset xs j w) i v"
  by (simp add: aset_def list_update_swap nat_eq_iff)

lemma aget_replicate [simp]: "0 \<le> i \<Longrightarrow> i < int n \<Longrightarrow> aget (replicate n v) i = v"
  by (simp add: aget_def nat_less_iff)

lemma aget_in_set: "inb xs i \<Longrightarrow> aget xs i \<in> set xs"
  by (simp add: inb_def aget_def nat_less_iff)

section \<open>The remainder of C++\<close>

text \<open>\<open>a % b\<close> truncates towards zero: \<open>smod\<close> of the library. On the operands the ring
  buffers use it is the mathematical remainder.\<close>

lemma smod_nonneg [simp]: "0 \<le> (a::int) \<Longrightarrow> 0 < b \<Longrightarrow> a smod b = a mod b"
  by (cases "a = 0") (simp_all add: signed_modulo_int_def)

lemma sdiv_nonneg [simp]: "0 \<le> (a::int) \<Longrightarrow> 0 < b \<Longrightarrow> a sdiv b = a div b"
  by (cases "a = 0") (simp_all add: signed_divide_int_def)

lemma smod_ring:
  fixes a :: int
  assumes "- n \<le> a" and "0 < n"
  shows "(a + n) smod n = a mod n"
  using assms by simp

end
