(* ===== verification/SeqNo.thy ===== *)
theory SeqNo imports Prelude begin

text \<open>
  Serial numbers: the classes \<open>CSeqNo\<close>, \<open>CAckNo\<close> and \<open>CMsgNo\<close> of \<open>udtCommon.h\<close>, with the
  constants of \<open>core.cpp\<close>. Packet sequence numbers live on a circle of \<open>2 ^ 31\<close> values,
  message numbers on one of \<open>2 ^ 29\<close>. The locale \<open>serial_numbers\<close> states what the rest of
  the program relies on (inside a window narrower than the threshold the circle behaves
  like the integers) and is interpreted for both classes.
\<close>

section \<open>The operations\<close>

definition m_iSeqNoTH :: int32 where "m_iSeqNoTH = 0x3FFFFFFF"
definition m_iMaxSeqNo :: int32 where "m_iMaxSeqNo = 0x7FFFFFFF"
definition m_iMaxAckSeqNo :: int32 where "m_iMaxAckSeqNo = 0x7FFFFFFF"
definition m_iMsgNoTH :: int32 where "m_iMsgNoTH = 0xFFFFFFF"
definition m_iMaxMsgNo :: int32 where "m_iMaxMsgNo = 0x1FFFFFFF"

lemmas serial_consts =
  m_iSeqNoTH_def m_iMaxSeqNo_def m_iMaxAckSeqNo_def m_iMsgNoTH_def m_iMaxMsgNo_def

definition seqcmp :: "int32 \<Rightarrow> int32 \<Rightarrow> int" where
  "seqcmp seq1 seq2 = (if \<bar>seq1 - seq2\<bar> < m_iSeqNoTH then seq1 - seq2 else seq2 - seq1)"

definition seqlen :: "int32 \<Rightarrow> int32 \<Rightarrow> int" where
  "seqlen seq1 seq2 =
     (if seq1 \<le> seq2 then seq2 - seq1 + 1 else seq2 - seq1 + m_iMaxSeqNo + 2)"

definition seqoff :: "int32 \<Rightarrow> int32 \<Rightarrow> int" where
  "seqoff seq1 seq2 =
     (if \<bar>seq1 - seq2\<bar> < m_iSeqNoTH then seq2 - seq1
      else if seq1 < seq2 then seq2 - seq1 - m_iMaxSeqNo - 1
      else seq2 - seq1 + m_iMaxSeqNo + 1)"

definition incseq :: "int32 \<Rightarrow> int32" where
  "incseq seq = (if seq = m_iMaxSeqNo then 0 else seq + 1)"

definition decseq :: "int32 \<Rightarrow> int32" where
  "decseq seq = (if seq = 0 then m_iMaxSeqNo else seq - 1)"

definition incseq_by :: "int32 \<Rightarrow> int32 \<Rightarrow> int32" where
  "incseq_by seq inc =
     (if m_iMaxSeqNo - seq \<ge> inc then seq + inc else seq - m_iMaxSeqNo + inc - 1)"

definition incack :: "int32 \<Rightarrow> int32" where
  "incack ackno = (if ackno = m_iMaxAckSeqNo then 0 else ackno + 1)"

definition msgcmp :: "int32 \<Rightarrow> int32 \<Rightarrow> int" where
  "msgcmp msgno1 msgno2 =
     (if \<bar>msgno1 - msgno2\<bar> < m_iMsgNoTH then msgno1 - msgno2 else msgno2 - msgno1)"

definition msglen :: "int32 \<Rightarrow> int32 \<Rightarrow> int" where
  "msglen msgno1 msgno2 =
     (if msgno1 \<le> msgno2 then msgno2 - msgno1 + 1 else msgno2 - msgno1 + m_iMaxMsgNo + 2)"

definition msgoff :: "int32 \<Rightarrow> int32 \<Rightarrow> int" where
  "msgoff msgno1 msgno2 =
     (if \<bar>msgno1 - msgno2\<bar> < m_iMsgNoTH then msgno2 - msgno1
      else if msgno1 < msgno2 then msgno2 - msgno1 - m_iMaxMsgNo - 1
      else msgno2 - msgno1 + m_iMaxMsgNo + 1)"

definition incmsg :: "int32 \<Rightarrow> int32" where
  "incmsg msgno = (if msgno = m_iMaxMsgNo then 0 else msgno + 1)"

lemmas seq_defs = seqcmp_def seqlen_def seqoff_def incseq_def decseq_def incseq_by_def
lemmas msg_defs = msgcmp_def msglen_def msgoff_def incmsg_def

section \<open>What the clients rely on\<close>

text \<open>Moving \<open>k\<close> places along a circle of \<open>n\<close> values.\<close>

definition shift :: "int \<Rightarrow> int \<Rightarrow> int \<Rightarrow> int" where
  "shift n a k = (a + k) mod n"

lemma shift_0 [simp]: "0 \<le> a \<Longrightarrow> a < n \<Longrightarrow> shift n a 0 = a"
  by (simp add: shift_def)

lemma shift_shift [simp]: "shift n (shift n a j) k = shift n a (j + k)"
  by (simp add: shift_def mod_simps algebra_simps)

lemma shift_range: "0 < n \<Longrightarrow> 0 \<le> shift n a k \<and> shift n a k < n"
  by (simp add: shift_def)

text \<open>The value of a shift, without the remainder.\<close>

lemma shift_cases:
  assumes "0 \<le> a" "a < n" "- n \<le> k" "k \<le> n"
  shows "shift n a k = (if a + k < 0 then a + k + n else if a + k < n then a + k else a + k - n)"
proof -
  consider "a + k < 0" | "0 \<le> a + k" "a + k < n" | "n \<le> a + k" by linarith
  then show ?thesis
  proof cases
    case 1
    have "(a + k + n) mod n = (a + k) mod n" by simp
    moreover have "(a + k + n) mod n = a + k + n"
      using 1 assms by (intro mod_pos_pos_trivial) linarith+
    ultimately show ?thesis using 1 by (simp add: shift_def)
  next
    case 2
    then show ?thesis by (simp add: shift_def)
  next
    case 3
    have "(a + k - n) mod n = (a + k) mod n" by simp
    moreover have "(a + k - n) mod n = a + k - n"
      using 3 assms by (intro mod_pos_pos_trivial) linarith+
    ultimately show ?thesis using 3 assms by (simp add: shift_def)
  qed
qed

locale serial_numbers =
  fixes n th :: int
    and cmp off len :: "int \<Rightarrow> int \<Rightarrow> int"
    and inc :: "int \<Rightarrow> int"
  assumes th_pos: "1 < th"
    and window: "2 * th < n"
    and off_shift: "0 \<le> a \<Longrightarrow> a < n \<Longrightarrow> \<bar>k\<bar> < th \<Longrightarrow> off a (shift n a k) = k"
    and cmp_shift: "0 \<le> a \<Longrightarrow> a < n \<Longrightarrow> \<bar>k\<bar> < th \<Longrightarrow> sgn (cmp (shift n a k) a) = sgn k"
    and len_shift: "0 \<le> a \<Longrightarrow> a < n \<Longrightarrow> 0 \<le> k \<Longrightarrow> k < th \<Longrightarrow> len a (shift n a k) = k + 1"
    and inc_shift: "0 \<le> a \<Longrightarrow> a < n \<Longrightarrow> inc a = shift n a 1"
begin

lemma n_pos: "0 < n"
  using th_pos window by linarith

lemma shift_valid [simp]: "0 \<le> shift n a k" "shift n a k < n"
  using n_pos shift_range by blast+

lemma shift_as: "shift n a k = shift n (shift n a j) (k - j)"
  by simp

text \<open>Two points of one window compare, differ and span like their offsets.\<close>

lemma off_window: "\<bar>k - j\<bar> < th \<Longrightarrow> off (shift n a j) (shift n a k) = k - j"
  by (subst shift_as [of a k j]) (rule off_shift; simp)

lemma cmp_window: "\<bar>j - k\<bar> < th \<Longrightarrow> sgn (cmp (shift n a j) (shift n a k)) = sgn (j - k)"
  by (subst shift_as [of a j k]) (rule cmp_shift; simp)

lemma cmp_window_gt: "\<bar>j - k\<bar> < th \<Longrightarrow> 0 < cmp (shift n a j) (shift n a k) \<longleftrightarrow> k < j"
  using cmp_window [of j k a] by (auto simp: sgn_if split: if_splits)

lemma cmp_window_lt: "\<bar>j - k\<bar> < th \<Longrightarrow> cmp (shift n a j) (shift n a k) < 0 \<longleftrightarrow> j < k"
  using cmp_window [of j k a] by (auto simp: sgn_if split: if_splits)

lemma cmp_window_ge: "\<bar>j - k\<bar> < th \<Longrightarrow> 0 \<le> cmp (shift n a j) (shift n a k) \<longleftrightarrow> k \<le> j"
  using cmp_window_lt [of j k a] by linarith

lemma cmp_window_le: "\<bar>j - k\<bar> < th \<Longrightarrow> cmp (shift n a j) (shift n a k) \<le> 0 \<longleftrightarrow> j \<le> k"
  using cmp_window_gt [of j k a] by linarith

lemma len_window: "j \<le> k \<Longrightarrow> k - j < th \<Longrightarrow> len (shift n a j) (shift n a k) = k - j + 1"
  by (subst shift_as [of a k j]) (rule len_shift; simp)

lemma inc_window: "inc (shift n a k) = shift n a (k + 1)"
  by (subst inc_shift) simp_all

lemma shift_inj: "\<bar>k - j\<bar> < th \<Longrightarrow> shift n a j = shift n a k \<longleftrightarrow> j = k"
  using off_window [of k j a] off_window [of j j a] th_pos by auto

lemmas window_simps =
  off_window cmp_window_gt cmp_window_lt cmp_window_ge cmp_window_le len_window inc_window
  shift_inj

end

interpretation seq: serial_numbers "0x80000000" m_iSeqNoTH seqcmp seqoff seqlen incseq
proof unfold_locales
  fix a k :: int
  assume a: "0 \<le> a" "a < 0x80000000" and k: "\<bar>k\<bar> < m_iSeqNoTH"
  have s: "shift 0x80000000 a k =
      (if a + k < 0 then a + k + 0x80000000 else if a + k < 0x80000000 then a + k else a + k - 0x80000000)"
    using a k by (intro shift_cases) (auto simp: serial_consts)
  show "seqoff a (shift 0x80000000 a k) = k"
    using a k by (simp add: s seqoff_def serial_consts abs_if split: if_splits)
  show "sgn (seqcmp (shift 0x80000000 a k) a) = sgn k"
    using a k by (simp add: s seqcmp_def serial_consts abs_if sgn_if split: if_splits)
next
  fix a k :: int
  assume a: "0 \<le> a" "a < 0x80000000" and k: "0 \<le> k" "k < m_iSeqNoTH"
  have "shift 0x80000000 a k =
      (if a + k < 0 then a + k + 0x80000000 else if a + k < 0x80000000 then a + k else a + k - 0x80000000)"
    using a k by (intro shift_cases) (auto simp: serial_consts)
  then show "seqlen a (shift 0x80000000 a k) = k + 1"
    using a k by (simp add: seqlen_def serial_consts split: if_splits)
next
  fix a :: int
  assume "0 \<le> a" "a < 0x80000000"
  then show "incseq a = shift 0x80000000 a 1"
    by (simp add: incseq_def shift_cases serial_consts)
qed (simp_all add: serial_consts)

interpretation msg: serial_numbers "0x20000000" m_iMsgNoTH msgcmp msgoff msglen incmsg
proof unfold_locales
  fix a k :: int
  assume a: "0 \<le> a" "a < 0x20000000" and k: "\<bar>k\<bar> < m_iMsgNoTH"
  have s: "shift 0x20000000 a k =
      (if a + k < 0 then a + k + 0x20000000 else if a + k < 0x20000000 then a + k else a + k - 0x20000000)"
    using a k by (intro shift_cases) (auto simp: serial_consts)
  show "msgoff a (shift 0x20000000 a k) = k"
    using a k by (simp add: s msgoff_def serial_consts abs_if split: if_splits)
  show "sgn (msgcmp (shift 0x20000000 a k) a) = sgn k"
    using a k by (simp add: s msgcmp_def serial_consts abs_if sgn_if split: if_splits)
next
  fix a k :: int
  assume a: "0 \<le> a" "a < 0x20000000" and k: "0 \<le> k" "k < m_iMsgNoTH"
  have "shift 0x20000000 a k =
      (if a + k < 0 then a + k + 0x20000000 else if a + k < 0x20000000 then a + k else a + k - 0x20000000)"
    using a k by (intro shift_cases) (auto simp: serial_consts)
  then show "msglen a (shift 0x20000000 a k) = k + 1"
    using a k by (simp add: msglen_def serial_consts split: if_splits)
next
  fix a :: int
  assume "0 \<le> a" "a < 0x20000000"
  then show "incmsg a = shift 0x20000000 a 1"
    by (simp add: incmsg_def shift_cases serial_consts)
qed (simp_all add: serial_consts)

section \<open>Facts about all sequence numbers\<close>

definition valid_seq :: "int \<Rightarrow> bool" where
  "valid_seq s \<longleftrightarrow> 0 \<le> s \<and> s < 0x80000000"

definition fits_int32 :: "int \<Rightarrow> bool" where
  "fits_int32 x \<longleftrightarrow> - 0x80000000 \<le> x \<and> x < 0x80000000"

text \<open>A product of two \<open>int\<close>. One that does not fit the type is undefined behaviour: \<open>None\<close>.\<close>

definition mul_int :: "int \<Rightarrow> int \<Rightarrow> int option" where
  "mul_int x y = (if fits_int32 (x * y) then Some (x * y) else None)"

lemma mul_int_Some: "mul_int x y = Some z \<longleftrightarrow> z = x * y \<and> fits_int32 (x * y)"
  by (auto simp: mul_int_def)

lemma mul_int_le:
  assumes "mul_int x y = Some z" "0 \<le> y" "0 \<le> x'" "x' \<le> x"
  shows "mul_int x' y = Some (x' * y)"
proof -
  have "0 \<le> x' * y" "x' * y \<le> x * y" using assms by (simp_all add: mult_right_mono)
  moreover have "x * y < 0x80000000" using assms(1) by (simp add: mul_int_Some fits_int32_def)
  ultimately show ?thesis unfolding mul_int_Some fits_int32_def by linarith
qed

abbreviation seq_at :: "int \<Rightarrow> int \<Rightarrow> int" where
  "seq_at \<equiv> shift 0x80000000"

lemma valid_seq_at [simp]: "valid_seq (seq_at a k)"
  by (simp add: valid_seq_def)

lemma incseq_valid: "valid_seq s \<Longrightarrow> valid_seq (incseq s)"
  by (auto simp: valid_seq_def incseq_def serial_consts)

lemma decseq_valid: "valid_seq s \<Longrightarrow> valid_seq (decseq s)"
  by (auto simp: valid_seq_def decseq_def serial_consts)

lemma decseq_incseq [simp]: "valid_seq s \<Longrightarrow> decseq (incseq s) = s"
  by (auto simp: valid_seq_def decseq_def incseq_def serial_consts)

lemma incseq_decseq [simp]: "valid_seq s \<Longrightarrow> incseq (decseq s) = s"
  by (auto simp: valid_seq_def decseq_def incseq_def serial_consts)

lemma decseq_seq_at: "valid_seq s \<Longrightarrow> decseq s = seq_at s (- 1)"
  by (auto simp: valid_seq_def decseq_def shift_cases serial_consts)

lemma incseq_by_seq_at:
  "valid_seq s \<Longrightarrow> 0 \<le> k \<Longrightarrow> k < 0x80000000 \<Longrightarrow> incseq_by s k = seq_at s k"
  by (auto simp: valid_seq_def incseq_by_def shift_cases serial_consts)

lemma seqcmp_swap: "seqcmp a b = - seqcmp b a"
  by (simp add: seqcmp_def abs_minus_commute)

lemma seqcmp_self [simp]: "seqcmp a a = 0"
  by (simp add: seqcmp_def)

lemma seqoff_at:
  assumes "valid_seq a" "valid_seq b"
  shows "seq_at a (seqoff a b) = b \<and> fits_int32 (seqoff a b) \<and> \<bar>seqoff a b\<bar> \<le> m_iSeqNoTH + 2"
proof -
  have "\<bar>seqoff a b\<bar> \<le> m_iSeqNoTH + 2"
    using assms by (simp add: valid_seq_def seqoff_def serial_consts abs_if split: if_splits)
  then show ?thesis
    using assms by (simp add: valid_seq_def seqoff_def shift_cases serial_consts fits_int32_def)
qed

text \<open>The offset of two sequence numbers leads from the first to the second, over the
  whole circle and with no window condition, and every value computed fits the type.\<close>

theorem seqoff_leads:
  assumes "valid_seq a" "valid_seq b"
  shows "seq_at a (seqoff a b) = b \<and> fits_int32 (seqoff a b) \<and> \<bar>seqoff a b\<bar> \<le> m_iSeqNoTH + 2"
  by (rule seqoff_at [OF assms])

theorem seqoff_leads_witness:
  "seq_at 0x7FFFFFFE (seqoff 0x7FFFFFFE 5) = 5 \<and> seqoff 0x7FFFFFFE 5 = 7"
  using seqoff_leads [of "0x7FFFFFFE" 5]
  by (simp add: valid_seq_def seqoff_def serial_consts)

end
