(* ===== verification/SndLossList.thy ===== *)
theory SndLossList imports SeqNo begin

text \<open>
  The sender's loss list, class \<open>CSndLossList\<close> (\<open>list.h\<close>, \<open>list.cpp\<close>): a circular static
  array of nodes, linked in increasing order of sequence number. A node holds a first
  sequence number (\<open>m_piData1\<close>) and, when it covers more than one, a last one
  (\<open>m_piData2\<close>, else -1); its place in the array is its distance from the head node. The
  mutex serialises the operations, so each is one step here.

  The loops follow links; they carry a fuel, and \<open>None\<close> means the fuel ran out. The fuel
  given is one more than the number of array cells, and the lemmas of \<open>SndLossProofs\<close>
  show that it is never exhausted on a well-formed list.
\<close>

record CSndLossList =
  sl_Data1 :: "int32 list"
  sl_Data2 :: "int32 list"
  sl_Next :: "int list"
  sl_Head :: int
  sl_Length :: int
  sl_Size :: int
  sl_LastInsertPos :: int

definition CSndLossList_new :: "int \<Rightarrow> CSndLossList" where
  "CSndLossList_new sz =
     \<lparr>sl_Data1 = replicate (nat sz) (-1), sl_Data2 = replicate (nat sz) (-1),
      sl_Next = replicate (nat sz) 0, sl_Head = -1, sl_Length = 0, sl_Size = sz,
      sl_LastInsertPos = -1\<rparr>"

definition set_Data1 :: "int \<Rightarrow> int32 \<Rightarrow> CSndLossList \<Rightarrow> CSndLossList" where
  "set_Data1 i v l = l\<lparr>sl_Data1 := aset (sl_Data1 l) i v\<rparr>"

definition set_Data2 :: "int \<Rightarrow> int32 \<Rightarrow> CSndLossList \<Rightarrow> CSndLossList" where
  "set_Data2 i v l = l\<lparr>sl_Data2 := aset (sl_Data2 l) i v\<rparr>"

definition set_Next :: "int \<Rightarrow> int \<Rightarrow> CSndLossList \<Rightarrow> CSndLossList" where
  "set_Next i v l = l\<lparr>sl_Next := aset (sl_Next l) i v\<rparr>"

definition add_Length :: "int \<Rightarrow> CSndLossList \<Rightarrow> CSndLossList" where
  "add_Length n l = l\<lparr>sl_Length := sl_Length l + n\<rparr>"

abbreviation "data1 l i \<equiv> aget (sl_Data1 l) i"
abbreviation "data2 l i \<equiv> aget (sl_Data2 l) i"
abbreviation "nextp l i \<equiv> aget (sl_Next l) i"

definition sl_fuel :: "CSndLossList \<Rightarrow> nat" where
  "sl_fuel l = Suc (nat (sl_Size l))"

section \<open>insert\<close>

text \<open>The search for the node prior to \<open>seqno1\<close>.\<close>

fun find_prior :: "nat \<Rightarrow> CSndLossList \<Rightarrow> int32 \<Rightarrow> int \<Rightarrow> int option" where
  "find_prior 0 l seqno1 i = None"
| "find_prior (Suc f) l seqno1 i =
     (if - 1 \<noteq> nextp l i \<and> seqcmp (data1 l (nextp l i)) seqno1 < 0
      then find_prior f l seqno1 (nextp l i) else Some i)"

text \<open>The body and the loop that merge the node at \<open>loc\<close> with the nodes after it.\<close>

definition coalesce_step :: "CSndLossList \<Rightarrow> int \<Rightarrow> int \<Rightarrow> CSndLossList" where
  "coalesce_step l loc i =
    (let l = (if - 1 \<noteq> data2 l i then
                if seqcmp (data2 l i) (data2 l loc) > 0 then
                  let l = (if seqcmp (data2 l loc) (data1 l i) \<ge> 0
                           then add_Length (- seqlen (data1 l i) (data2 l loc)) l else l)
                  in set_Data2 loc (data2 l i) l
                else add_Length (- seqlen (data1 l i) (data2 l i)) l
              else if data1 l i = incseq (data2 l loc) then set_Data2 loc (data1 l i) l
              else add_Length (- 1) l);
         l = set_Data1 i (- 1) l;
         l = set_Data2 i (- 1) l
     in set_Next loc (nextp l i) l)"

fun coalesce :: "nat \<Rightarrow> CSndLossList \<Rightarrow> int \<Rightarrow> CSndLossList option" where
  "coalesce 0 l loc = None"
| "coalesce (Suc f) l loc =
     (if - 1 \<noteq> nextp l loc \<and> - 1 \<noteq> data2 l loc \<and>
         seqcmp (data1 l (nextp l loc)) (incseq (data2 l loc)) \<le> 0
      then coalesce f (coalesce_step l loc (nextp l loc)) loc else Some l)"

text \<open>What \<open>insert\<close> does before that loop: \<open>Inl\<close> is the early \<open>return 0\<close>, \<open>Inr\<close> carries the
  node to merge from.\<close>

definition put_node :: "int \<Rightarrow> int32 \<Rightarrow> int32 \<Rightarrow> CSndLossList \<Rightarrow> CSndLossList" where
  "put_node loc seqno1 seqno2 l =
    (let l = set_Data1 loc seqno1 l in if seqno2 \<noteq> seqno1 then set_Data2 loc seqno2 l else l)"

definition insert_before_head ::
    "int32 \<Rightarrow> int32 \<Rightarrow> int \<Rightarrow> CSndLossList \<Rightarrow> CSndLossList" where
  "insert_before_head seqno1 seqno2 loc l =
    (let l = put_node loc seqno1 seqno2 l;
         l = set_Next loc (sl_Head l) l;
         l = l\<lparr>sl_Head := loc, sl_LastInsertPos := loc\<rparr>
     in add_Length (seqlen seqno1 seqno2) l)"

definition insert_same_start ::
    "int32 \<Rightarrow> int32 \<Rightarrow> int \<Rightarrow> CSndLossList \<Rightarrow> CSndLossList + CSndLossList" where
  "insert_same_start seqno1 seqno2 loc l =
    (let l = l\<lparr>sl_LastInsertPos := loc\<rparr>
     in if - 1 = data2 l loc then
          Inr (if seqno2 \<noteq> seqno1
               then set_Data2 loc seqno2 (add_Length (seqlen seqno1 seqno2 - 1) l) else l)
        else if seqcmp seqno2 (data2 l loc) > 0 then
          Inr (set_Data2 loc seqno2 (add_Length (seqlen (data2 l loc) seqno2 - 1) l))
        else Inl l)"

definition insert_after ::
    "int32 \<Rightarrow> int32 \<Rightarrow> int \<Rightarrow> int \<Rightarrow> CSndLossList \<Rightarrow> CSndLossList + CSndLossList \<times> int" where
  "insert_after seqno1 seqno2 loc i l =
    (if - 1 = data2 l i \<or> seqcmp (data2 l i) seqno1 < 0 then
       let l = l\<lparr>sl_LastInsertPos := loc\<rparr>;
           l = put_node loc seqno1 seqno2 l;
           l = set_Next loc (nextp l i) l;
           l = set_Next i loc l
       in Inr (add_Length (seqlen seqno1 seqno2) l, loc)
     else
       let l = l\<lparr>sl_LastInsertPos := i\<rparr>
       in if seqcmp (data2 l i) seqno2 < 0
          then Inr (set_Data2 i seqno2 (add_Length (seqlen (data2 l i) seqno2 - 1) l), i)
          else Inl l)"

definition insert_at_head ::
    "int32 \<Rightarrow> int32 \<Rightarrow> int \<Rightarrow> CSndLossList \<Rightarrow> CSndLossList + CSndLossList" where
  "insert_at_head seqno1 seqno2 loc l =
    (let l = l\<lparr>sl_LastInsertPos := sl_Head l\<rparr>
     in if seqno2 \<noteq> seqno1 then
          if - 1 = data2 l loc
          then Inr (set_Data2 loc seqno2 (add_Length (seqlen seqno1 seqno2 - 1) l))
          else if seqcmp seqno2 (data2 l loc) > 0
          then Inr (set_Data2 loc seqno2 (add_Length (seqlen (data2 l loc) seqno2 - 1) l))
          else Inl l
        else Inl l)"

definition insert_empty :: "int32 \<Rightarrow> int32 \<Rightarrow> CSndLossList \<Rightarrow> CSndLossList" where
  "insert_empty seqno1 seqno2 l =
    (let l = l\<lparr>sl_Head := 0\<rparr>;
         l = put_node (sl_Head l) seqno1 seqno2 l;
         l = set_Next (sl_Head l) (- 1) l;
         l = l\<lparr>sl_LastInsertPos := sl_Head l\<rparr>
     in add_Length (seqlen seqno1 seqno2) l)"

definition search_start :: "int32 \<Rightarrow> CSndLossList \<Rightarrow> int" where
  "search_start seqno1 l =
    (if - 1 \<noteq> sl_LastInsertPos l \<and> seqcmp (data1 l (sl_LastInsertPos l)) seqno1 < 0
     then sl_LastInsertPos l else sl_Head l)"

definition finish_insert ::
    "int \<Rightarrow> CSndLossList + CSndLossList \<times> int \<Rightarrow> (int \<times> CSndLossList) option" where
  "finish_insert origlen r =
    (case r of Inl l \<Rightarrow> Some (0, l)
     | Inr (l, loc) \<Rightarrow> map_option (\<lambda>l. (sl_Length l - origlen, l)) (coalesce (sl_fuel l) l loc))"

definition CSndLossList_insert ::
    "int32 \<Rightarrow> int32 \<Rightarrow> CSndLossList \<Rightarrow> (int \<times> CSndLossList) option" where
  "CSndLossList_insert seqno1 seqno2 l =
    (if 0 = sl_Length l then
       let l = insert_empty seqno1 seqno2 l in Some (sl_Length l, l)
     else
       let origlen = sl_Length l;
           offset = seqoff (data1 l (sl_Head l)) seqno1;
           loc = (sl_Head l + offset + sl_Size l) smod sl_Size l
       in if offset < 0 then
            finish_insert origlen (Inr (insert_before_head seqno1 seqno2 loc l, loc))
          else if offset > 0 then
            if seqno1 = data1 l loc then
              finish_insert origlen (map_sum id (\<lambda>l. (l, loc)) (insert_same_start seqno1 seqno2 loc l))
            else
              Option.bind (find_prior (sl_fuel l) l seqno1 (search_start seqno1 l))
                (\<lambda>i. finish_insert origlen (insert_after seqno1 seqno2 loc i l))
          else
            finish_insert origlen (map_sum id (\<lambda>l. (l, loc)) (insert_at_head seqno1 seqno2 loc l)))"

section \<open>remove\<close>

text \<open>The loop that frees every node before the new head; \<open>h\<close> is the old one.\<close>

fun drop_nodes :: "nat \<Rightarrow> int \<Rightarrow> CSndLossList \<Rightarrow> CSndLossList option" where
  "drop_nodes 0 h l = None"
| "drop_nodes (Suc f) h l =
     (if h \<noteq> sl_Head l then
        let l = (if data2 l h \<noteq> - 1
                 then set_Data2 h (- 1) (add_Length (- seqlen (data1 l h) (data2 l h)) l)
                 else add_Length (- 1) l);
            l = set_Data1 h (- 1) l;
            l = (if sl_LastInsertPos l = h then l\<lparr>sl_LastInsertPos := - 1\<rparr> else l)
        in drop_nodes f (nextp l h) l
      else Some l)"

definition remove_head :: "int32 \<Rightarrow> int \<Rightarrow> CSndLossList \<Rightarrow> CSndLossList" where
  "remove_head seqno loc0 l =
    (let loc = (loc0 + 1) smod sl_Size l;
         (l, loc) =
           (if - 1 = data2 l (sl_Head l) then (l, nextp l (sl_Head l))
            else
              let l = set_Data1 loc (incseq seqno) l;
                  l = (if seqcmp (data2 l (sl_Head l)) (incseq seqno) > 0
                       then set_Data2 loc (data2 l (sl_Head l)) l else l);
                  l = set_Data2 (sl_Head l) (- 1) l
              in (set_Next loc (nextp l (sl_Head l)) l, loc));
         l = set_Data1 (sl_Head l) (- 1) l;
         l = (if sl_LastInsertPos l = sl_Head l then l\<lparr>sl_LastInsertPos := - 1\<rparr> else l)
     in add_Length (- 1) (l\<lparr>sl_Head := loc\<rparr>))"

definition remove_at_node :: "int32 \<Rightarrow> int \<Rightarrow> CSndLossList \<Rightarrow> CSndLossList" where
  "remove_at_node seqno temp l =
    (let loc = (temp + 1) smod sl_Size l
     in if - 1 = data2 l temp then l\<lparr>sl_Head := nextp l temp\<rparr>
        else
          let l = set_Data1 loc (incseq seqno) l;
              l = (if seqcmp (data2 l temp) (data1 l loc) > 0 then set_Data2 loc (data2 l temp) l else l);
              l = l\<lparr>sl_Head := loc\<rparr>;
              l = set_Next loc (nextp l temp) l;
              l = set_Next temp loc l
          in set_Data2 temp (- 1) l)"

definition remove_in_gap :: "int32 \<Rightarrow> int \<Rightarrow> int \<Rightarrow> CSndLossList \<Rightarrow> CSndLossList" where
  "remove_in_gap seqno loc0 i l =
    (let loc = (loc0 + 1) smod sl_Size l
     in if - 1 = data2 l i then l\<lparr>sl_Head := nextp l i\<rparr>
        else if seqcmp (data2 l i) seqno > 0 then
          let l = set_Data1 loc (incseq seqno) l;
              l = (if seqcmp (data2 l i) (data1 l loc) > 0 then set_Data2 loc (data2 l i) l else l);
              l = set_Data2 i seqno l;
              l = set_Next loc (nextp l i) l;
              l = set_Next i loc l
          in l\<lparr>sl_Head := loc\<rparr>
        else l\<lparr>sl_Head := nextp l i\<rparr>)"

definition CSndLossList_remove :: "int32 \<Rightarrow> CSndLossList \<Rightarrow> CSndLossList option" where
  "CSndLossList_remove seqno l =
    (if 0 = sl_Length l then Some l
     else
       let offset = seqoff (data1 l (sl_Head l)) seqno;
           loc = (sl_Head l + offset + sl_Size l) smod sl_Size l
       in if 0 = offset then Some (remove_head seqno loc l)
          else if offset > 0 then
            let h = sl_Head l
            in if seqno = data1 l loc
               then drop_nodes (sl_fuel l) h (remove_at_node seqno loc l)
               else Option.bind (find_prior (sl_fuel l) l seqno h)
                      (\<lambda>i. drop_nodes (sl_fuel l) h (remove_in_gap seqno loc i l))
          else Some l)"

section \<open>getLossLength, getLostSeq\<close>

definition CSndLossList_getLossLength :: "CSndLossList \<Rightarrow> int" where
  "CSndLossList_getLossLength l = sl_Length l"

definition CSndLossList_getLostSeq :: "CSndLossList \<Rightarrow> int32 \<times> CSndLossList" where
  "CSndLossList_getLostSeq l =
    (if 0 = sl_Length l then (- 1, l)
     else
       let l = (if sl_LastInsertPos l = sl_Head l then l\<lparr>sl_LastInsertPos := - 1\<rparr> else l);
           seqno = data1 l (sl_Head l);
           l = (if - 1 = data2 l (sl_Head l) then
                  let l = set_Data1 (sl_Head l) (- 1) l
                  in l\<lparr>sl_Head := nextp l (sl_Head l)\<rparr>
                else
                  let loc = (sl_Head l + 1) smod sl_Size l;
                      l = set_Data1 loc (incseq seqno) l;
                      l = (if seqcmp (data2 l (sl_Head l)) (data1 l loc) > 0
                           then set_Data2 loc (data2 l (sl_Head l)) l else l);
                      l = set_Data1 (sl_Head l) (- 1) l;
                      l = set_Data2 (sl_Head l) (- 1) l;
                      l = set_Next loc (nextp l (sl_Head l)) l
                  in l\<lparr>sl_Head := loc\<rparr>)
       in (seqno, add_Length (- 1) l))"

end
