(* ===== verification/LossNodes.thy ===== *)
theory LossNodes imports SeqNo begin

text \<open>
  The mathematics of the two loss lists. Both keep the nodes of a list of intervals in a
  circular array of \<open>n\<close> cells, the node that starts at offset \<open>x\<close> from a base in the cell
  \<open>place n h x\<close>. The offsets of all nodes lie in one window \<open>lo \<le> x < lo + n\<close>, on which
  \<open>place\<close> is a bijection onto the cells; sequence numbers are \<open>seq_at b x\<close>.
\<close>

section \<open>Places\<close>

definition place :: "int \<Rightarrow> int \<Rightarrow> int \<Rightarrow> int" where
  "place n h x = (h + x) mod n"

definition win :: "int \<Rightarrow> int \<Rightarrow> int \<Rightarrow> bool" where
  "win n lo x \<longleftrightarrow> lo \<le> x \<and> x < lo + n"

lemma place_range: "0 < n \<Longrightarrow> 0 \<le> place n h x \<and> place n h x < n"
  by (simp add: place_def)

lemma place_neq [simp]: "0 < n \<Longrightarrow> place n h x \<noteq> - 1" "0 < n \<Longrightarrow> - 1 \<noteq> place n h x"
  using place_range [of n h x] by auto

lemma place_eq_iff:
  assumes "\<bar>x - y\<bar> < n"
  shows "place n h x = place n h y \<longleftrightarrow> x = y"
proof
  assume "place n h x = place n h y"
  then have "n dvd x - y"
    by (simp add: place_def mod_eq_dvd_iff)
  with assms show "x = y"
    by (metis abs_ge_zero dvd_imp_le_int eq_iff_diff_eq_0 abs_of_nonneg leD order.trans abs_le_self_iff abs_ge_self linorder_not_le)
qed simp

lemma place_inj: "win n lo x \<Longrightarrow> win n lo y \<Longrightarrow> place n h x = place n h y \<longleftrightarrow> x = y"
  by (rule place_eq_iff) (auto simp: win_def)

lemma place_add: "0 < n \<Longrightarrow> - n \<le> d \<Longrightarrow> (place n h x + d + n) smod n = place n h (x + d)"
proof -
  assume n: "0 < n" and d: "- n \<le> d"
  have "0 \<le> place n h x + d + n" using place_range [OF n, of h x] d by linarith
  then have "(place n h x + d + n) smod n = (place n h x + d + n) mod n"
    using n by simp
  also have "\<dots> = (place n h x + d) mod n" by simp
  also have "\<dots> = (h + x + d) mod n" by (simp add: place_def mod_simps)
  finally show ?thesis by (simp add: place_def add.assoc)
qed

lemma place_add_nonneg: "0 < n \<Longrightarrow> 0 \<le> d \<Longrightarrow> (place n h x + d) smod n = place n h (x + d)"
proof -
  assume n: "0 < n" and d: "0 \<le> d"
  then have "0 \<le> place n h x + d" using place_range [OF n, of h x] by linarith
  then show ?thesis using n by (simp add: place_def mod_simps algebra_simps)
qed

lemma place_surj:
  assumes "0 < n" "0 \<le> i" "i < n"
  obtains x where "win n lo x" "place n h x = i"
proof
  let ?x = "lo + (i - h - lo) mod n"
  show "win n lo ?x" using assms(1) by (simp add: win_def)
  have "place n h ?x = (h + lo + (i - h - lo)) mod n"
    unfolding place_def by (simp add: mod_add_right_eq flip: add.assoc)
  then show "place n h ?x = i" using assms by simp
qed

lemma inb_place: "0 < n \<Longrightarrow> length xs = nat n \<Longrightarrow> inb xs (place n h x)"
  using place_range [of n h x] by (simp add: inb_def)

lemma aget_aset_place:
  assumes "0 < n" "length xs = nat n" "win n lo x" "win n lo y"
  shows "aget (aset xs (place n h x) v) (place n h y) =
    (if y = x then v else aget xs (place n h y))"
  using assms place_range [of n h x] place_range [of n h y]
  by (auto simp: aget_aset inb_place place_inj)

section \<open>Lists of intervals\<close>

type_synonym node = "int \<times> int"

text \<open>Starts increase strictly and every interval lies in the window: the shape of the list at
  all times, also while an insertion has not yet merged what overlaps.\<close>

fun nodes_ok :: "int \<Rightarrow> int \<Rightarrow> node list \<Rightarrow> bool" where
  "nodes_ok lo hi [] \<longleftrightarrow> True"
| "nodes_ok lo hi ((k, e) # ns) \<longleftrightarrow> lo \<le> k \<and> k \<le> e \<and> e < hi \<and> nodes_ok (k + 1) hi ns"

text \<open>The intervals are disjoint and in order: the shape between operations.\<close>

fun sep :: "int \<Rightarrow> int \<Rightarrow> node list \<Rightarrow> bool" where
  "sep lo hi [] \<longleftrightarrow> True"
| "sep lo hi ((k, e) # ns) \<longleftrightarrow> lo \<le> k \<and> k \<le> e \<and> e < hi \<and> sep (e + 1) hi ns"

definition total :: "node list \<Rightarrow> int" where
  "total ns = (\<Sum>(k, e)\<leftarrow>ns. e - k + 1)"

definition covered :: "node list \<Rightarrow> int set" where
  "covered ns = (\<Union>(k, e)\<in>set ns. {k..e})"

abbreviation starts :: "node list \<Rightarrow> int set" where
  "starts ns \<equiv> fst ` set ns"

lemma total_simps [simp]:
  "total [] = 0" "total ((k, e) # ns) = e - k + 1 + total ns"
  "total (xs @ ys) = total xs + total ys"
  by (simp_all add: total_def)

lemma covered_simps [simp]:
  "covered [] = {}" "covered ((k, e) # ns) = {k..e} \<union> covered ns"
  "covered (xs @ ys) = covered xs \<union> covered ys"
  by (auto simp: covered_def)

lemma nodes_ok_mono: "nodes_ok lo hi ns \<Longrightarrow> lo' \<le> lo \<Longrightarrow> hi \<le> hi' \<Longrightarrow> nodes_ok lo' hi' ns"
  by (induction lo hi ns arbitrary: lo' rule: nodes_ok.induct) (simp, fastforce)

lemma sep_mono: "sep lo hi ns \<Longrightarrow> lo' \<le> lo \<Longrightarrow> hi \<le> hi' \<Longrightarrow> sep lo' hi' ns"
  by (induction lo hi ns arbitrary: lo' rule: sep.induct) auto

lemma sep_nodes_ok: "sep lo hi ns \<Longrightarrow> nodes_ok lo hi ns"
proof (induction lo hi ns rule: sep.induct)
  case (2 lo hi k e ns)
  then show ?case using nodes_ok_mono [of "e + 1" hi ns "k + 1" hi] by simp
qed simp

lemma nodes_ok_bounds: "nodes_ok lo hi ns \<Longrightarrow> (k, e) \<in> set ns \<Longrightarrow> lo \<le> k \<and> k \<le> e \<and> e < hi"
  by (induction lo hi ns rule: nodes_ok.induct) fastforce+

lemma nodes_ok_starts: "nodes_ok lo hi ns \<Longrightarrow> k \<in> starts ns \<Longrightarrow> lo \<le> k \<and> k < hi"
  using nodes_ok_bounds by fastforce

lemma nodes_ok_append:
  "nodes_ok lo hi (xs @ (k, e) # ys) \<longleftrightarrow>
     nodes_ok lo hi xs \<and> (\<forall>s\<in>starts xs. s < k) \<and> lo \<le> k \<and> k \<le> e \<and> e < hi \<and> nodes_ok (k + 1) hi ys"
proof (induction xs arbitrary: lo)
  case (Cons x xs)
  obtain k0 e0 where x: "x = (k0, e0)" by fastforce
  show ?case
    using Cons [of "k0 + 1"] nodes_ok_starts [of "k0 + 1" hi "xs"] by (fastforce simp: x)
qed simp

lemma sep_append:
  "sep lo hi (xs @ (k, e) # ys) \<longleftrightarrow>
     sep lo hi xs \<and> (\<forall>(k', e')\<in>set xs. e' < k) \<and> lo \<le> k \<and> k \<le> e \<and> e < hi \<and> sep (e + 1) hi ys"
proof (induction xs arbitrary: lo)
  case (Cons x xs)
  obtain k0 e0 where x: "x = (k0, e0)" by fastforce
  show ?case
    using Cons [of "e0 + 1"] by (auto simp: x)
qed simp

lemma nodes_ok_distinct: "nodes_ok lo hi ns \<Longrightarrow> distinct (map fst ns)"
  by (induction lo hi ns rule: nodes_ok.induct) (auto dest: nodes_ok_bounds)

lemma nodes_ok_length: "nodes_ok lo hi ns \<Longrightarrow> lo \<le> hi \<Longrightarrow> int (length ns) \<le> hi - lo"
  by (induction lo hi ns rule: nodes_ok.induct) auto

lemma covered_bounds: "nodes_ok lo hi ns \<Longrightarrow> x \<in> covered ns \<Longrightarrow> lo \<le> x \<and> x < hi"
  by (auto simp: covered_def dest!: nodes_ok_bounds)

lemma finite_covered [simp]: "finite (covered ns)"
  by (auto simp: covered_def)

lemma sep_card: "sep lo hi ns \<Longrightarrow> int (card (covered ns)) = total ns"
proof (induction lo hi ns rule: sep.induct)
  case (2 lo hi k e ns)
  then have "{k..e} \<inter> covered ns = {}"
    using covered_bounds [OF sep_nodes_ok, of "e + 1" hi ns] by fastforce
  with 2 show ?case by (simp add: card_Un_disjoint)
qed simp

lemma total_pos: "nodes_ok lo hi ns \<Longrightarrow> 0 \<le> total ns \<and> (total ns = 0 \<longleftrightarrow> ns = [])"
proof (induction lo hi ns rule: nodes_ok.induct)
  case (2 lo hi k e ns)
  then show ?case by auto
qed simp

text \<open>Merging a node with the nodes after it.\<close>

fun merge_right :: "node \<Rightarrow> node list \<Rightarrow> node list" where
  "merge_right (k, e) [] = [(k, e)]"
| "merge_right (k, e) ((k', e') # ns) =
     (if k < e \<and> k' \<le> e + 1 then merge_right (k, max e e') ns else (k, e) # (k', e') # ns)"

lemma covered_merge_right:
  "k \<le> e \<Longrightarrow> nodes_ok (k + 1) hi ns \<Longrightarrow> covered (merge_right (k, e) ns) = {k..e} \<union> covered ns"
proof (induction "(k, e)" ns arbitrary: e rule: merge_right.induct)
  case (2 e k' e' ns)
  have ns: "nodes_ok (k + 1) hi ns" "k + 1 \<le> k'" "k' \<le> e'"
    using "2.prems" nodes_ok_mono [of "k' + 1" hi ns "k + 1" hi] by auto
  show ?case
  proof (cases "k < e \<and> k' \<le> e + 1")
    case True
    then have "{k..max e e'} = {k..e} \<union> {k'..e'}" using ns by auto
    with True 2 ns show ?thesis by auto
  qed auto
qed simp

lemma sep_merge_right:
  "lo \<le> k \<Longrightarrow> k \<le> e \<Longrightarrow> e < hi \<Longrightarrow> sep (k + 1) hi ns \<Longrightarrow> sep lo hi (merge_right (k, e) ns)"
proof (induction "(k, e)" ns arbitrary: e rule: merge_right.induct)
  case (2 e k' e' ns)
  have ns: "sep (k + 1) hi ns" using "2.prems" sep_mono [of "e' + 1" hi ns "k + 1" hi] by auto
  show ?case
  proof (cases "k < e \<and> k' \<le> e + 1")
    case True
    with 2 ns show ?thesis by auto
  next
    case False
    with "2.prems" show ?thesis by auto
  qed
qed simp

lemma merge_right_start: "\<exists>e' zs. merge_right (k, e) ns = (k, e') # zs"
  by (induction "(k, e)" ns arbitrary: e rule: merge_right.induct) auto

lemma sep_append_merge:
  assumes "sep lo hi xs" "\<forall>(k', e')\<in>set xs. e' < k" "lo \<le> k" "k \<le> e" "e < hi" "sep (k + 1) hi ys"
  shows "sep lo hi (xs @ merge_right (k, e) ys)"
proof -
  obtain e' zs where m: "merge_right (k, e) ys = (k, e') # zs"
    using merge_right_start by blast
  then show ?thesis
    using assms sep_merge_right [of lo k e hi ys] by (simp add: sep_append)
qed

lemma sep_covered_mono:
  assumes "sep lo hi ns" "\<And>x. x \<in> covered ns \<Longrightarrow> lo' \<le> x \<and> x < hi'"
  shows "sep lo' hi' ns"
  using assms
proof (induction lo hi ns arbitrary: lo' rule: sep.induct)
  case (2 lo hi k e ns)
  have "lo' \<le> k \<and> e < hi'" using 2(3) [of k] 2(3) [of e] 2(2) by auto
  moreover have "sep (e + 1) hi' ns"
  proof (rule "2.IH")
    show "sep (e + 1) hi ns" using 2(2) by simp
    show "e + 1 \<le> x \<and> x < hi'" if "x \<in> covered ns" for x
      using that 2(3) [of x] covered_bounds [OF sep_nodes_ok, of "e + 1" hi ns x] 2(2) by auto
  qed
  ultimately show ?case using 2(2) by simp
qed simp

section \<open>Intervals of sequence numbers\<close>

definition seq_range :: "int32 \<Rightarrow> int32 \<Rightarrow> int32 set" where
  "seq_range a c = seq_at a ` {0..seqoff a c}"

lemma seq_range_at:
  assumes "k \<le> e" "e - k < m_iSeqNoTH"
  shows "seq_range (seq_at b k) (seq_at b e) = seq_at b ` {k..e}"
proof -
  have "seq_range (seq_at b k) (seq_at b e) = (\<lambda>x. seq_at b (k + x)) ` {0..e - k}"
    using assms seq.off_window [of e k b] by (simp add: seq_range_def)
  also have "\<dots> = seq_at b ` (\<lambda>x. x + k) ` {0..e - k}"
    by (simp only: image_image add.commute)
  also have "(\<lambda>x. x + k) ` {0..e - k} = {k..e}" by simp
  finally show ?thesis .
qed

lemma inj_on_seq_at:
  assumes "\<And>x. x \<in> A \<Longrightarrow> win n lo x" "n \<le> m_iSeqNoTH"
  shows "inj_on (seq_at b) A"
  using assms by (auto intro!: inj_onI simp: win_def seq.shift_inj dest!: assms(1))

text \<open>A window of sequence numbers that holds the members of an interval list is a window of offsets.\<close>

lemma window_at:
  assumes ns: "sep lo (lo + n) ns" "ns \<noteq> []" and n: "2 * n < m_iSeqNoTH" and w: "valid_seq w"
    and inw: "\<And>x. x \<in> covered ns \<Longrightarrow> 0 \<le> seqoff w (seq_at b x) \<and> seqoff w (seq_at b x) < n"
  shows "\<exists>p. w = seq_at b p \<and> sep p (p + n) ns"
proof -
  obtain k0 e0 rest where m: "ns = (k0, e0) # rest" using ns(2) by (cases ns) auto
  define q where "q = seqoff w (seq_at b k0)"
  have k0: "lo \<le> k0" "k0 \<le> e0" "e0 < lo + n" using ns(1) m by simp_all
  then have q: "0 \<le> q" "q < n" using inw [of k0] m by (simp_all add: q_def)
  have "seq_at w q = seq_at b k0" using seqoff_at [OF w] by (simp add: q_def)
  then have "seq_at (seq_at w q) (- q) = seq_at b (k0 - q)" by simp
  then have wq: "w = seq_at b (k0 - q)" using w by (simp add: valid_seq_def)
  have "k0 - q \<le> x \<and> x < k0 - q + n" if x: "x \<in> covered ns" for x
  proof -
    have "sep k0 (lo + n) ns" using ns(1) m by simp
    then have "k0 \<le> x" "x < lo + n" using covered_bounds [OF sep_nodes_ok x] by auto
    moreover from this have "\<bar>x - (k0 - q)\<bar> < m_iSeqNoTH" using q k0(1) n by linarith
    then have "seqoff w (seq_at b x) = x - (k0 - q)" unfolding wq by (rule seq.off_window)
    ultimately show ?thesis using q inw [OF x] by linarith
  qed
  then have "sep (k0 - q) (k0 - q + n) ns" by (rule sep_covered_mono [OF ns(1)])
  with wq show ?thesis by blast
qed

end
