(* ===== verification/SndLossProofs.thy ===== *)
theory SndLossProofs imports SndLossList LossNodes begin

text \<open>
  Correctness of the sender's loss list. \<open>rep b h lo ns l\<close> says that the arrays of \<open>l\<close> hold
  the interval list \<open>ns\<close> at base \<open>b\<close>; each operation is shown to act on \<open>ns\<close>, and the
  properties are stated over \<open>lost_set\<close>, the set of sequence numbers the arrays hold, which
  is defined from the arrays alone.
\<close>

definition cell1 :: "int \<Rightarrow> node list \<Rightarrow> int \<Rightarrow> int" where
  "cell1 b ns x = (case map_of ns x of None \<Rightarrow> - 1 | Some e \<Rightarrow> seq_at b x)"

definition cell2 :: "int \<Rightarrow> node list \<Rightarrow> int \<Rightarrow> int" where
  "cell2 b ns x = (case map_of ns x of None \<Rightarrow> - 1 | Some e \<Rightarrow> if e = x then - 1 else seq_at b e)"

text \<open>\<open>start\<close> is the cell of a list's first node, or \<open>q\<close> for the empty list; \<open>linked\<close> says
  that the links lead through the nodes and then to \<open>q\<close>.\<close>

fun start :: "int \<Rightarrow> int \<Rightarrow> node list \<Rightarrow> int \<Rightarrow> int" where
  "start n h [] q = q"
| "start n h ((k, e) # ns) q = place n h k"

fun linked :: "int \<Rightarrow> int \<Rightarrow> int list \<Rightarrow> node list \<Rightarrow> int \<Rightarrow> bool" where
  "linked n h N [] q \<longleftrightarrow> True"
| "linked n h N ((k, e) # ns) q \<longleftrightarrow> aget N (place n h k) = start n h ns q \<and> linked n h N ns q"

definition cells :: "int \<Rightarrow> int \<Rightarrow> int \<Rightarrow> node list \<Rightarrow> CSndLossList \<Rightarrow> bool" where
  "cells b h lo ns l \<longleftrightarrow>
     0 < sl_Size l \<and> 2 * sl_Size l < m_iSeqNoTH \<and>
     length (sl_Data1 l) = nat (sl_Size l) \<and> length (sl_Data2 l) = nat (sl_Size l) \<and>
     length (sl_Next l) = nat (sl_Size l) \<and> nodes_ok lo (lo + sl_Size l) ns \<and>
     (\<forall>x. win (sl_Size l) lo x \<longrightarrow> data1 l (place (sl_Size l) h x) = cell1 b ns x \<and>
        data2 l (place (sl_Size l) h x) = cell2 b ns x) \<and>
     linked (sl_Size l) h (sl_Next l) ns (- 1) \<and> sl_Length l = total ns"

definition rep :: "int \<Rightarrow> int \<Rightarrow> int \<Rightarrow> node list \<Rightarrow> CSndLossList \<Rightarrow> bool" where
  "rep b h lo ns l \<longleftrightarrow> cells b h lo ns l \<and> sl_Head l = start (sl_Size l) h ns (- 1)"

text \<open>The remembered insert position is a node.\<close>

definition hint_ok :: "int \<Rightarrow> node list \<Rightarrow> CSndLossList \<Rightarrow> bool" where
  "hint_ok h ns l \<longleftrightarrow> sl_LastInsertPos l = - 1 \<or>
     (\<exists>k\<in>starts ns. sl_LastInsertPos l = place (sl_Size l) h k)"

section \<open>Cells and links under updates\<close>

lemma seq_at_neq [simp]: "seq_at b x \<noteq> - 1" "- 1 \<noteq> seq_at b x"
  using seq.shift_valid(1) [of b x] by linarith+

lemma map_of_notin: "x \<notin> starts ns \<Longrightarrow> map_of ns x = None"
  by (simp add: map_of_eq_None_iff)

lemma cell_notin: "x \<notin> starts ns \<Longrightarrow> cell1 b ns x = - 1 \<and> cell2 b ns x = - 1"
  by (simp add: cell1_def cell2_def map_of_notin)

lemma cell_node:
  "k \<notin> starts xs \<Longrightarrow> cell1 b (xs @ (k, e) # ys) k = seq_at b k \<and>
     cell2 b (xs @ (k, e) # ys) k = (if e = k then - 1 else seq_at b e)"
  by (simp add: cell1_def cell2_def map_add_def map_of_notin)

lemma cell_other:
  "x \<noteq> k \<Longrightarrow> cell1 b (xs @ (k, e) # ys) x = cell1 b (xs @ ys) x \<and>
     cell2 b (xs @ (k, e) # ys) x = cell2 b (xs @ ys) x"
  by (simp add: cell1_def cell2_def map_add_def split: option.split)

lemma start_append: "start n h (xs @ ys) q = start n h xs (start n h ys q)"
  by (cases xs) auto

lemma linked_append:
  "linked n h N (xs @ ys) q \<longleftrightarrow> linked n h N xs (start n h ys q) \<and> linked n h N ys q"
  by (induction xs) (auto simp: start_append)

lemma linked_aset:
  assumes "0 < n" "length N = nat n" "win n lo y" "\<And>k. k \<in> starts ns \<Longrightarrow> win n lo k \<and> k \<noteq> y"
  shows "linked n h (aset N (place n h y) v) ns q = linked n h N ns q"
  using assms(4)
proof (induction ns)
  case (Cons m ns)
  obtain k e where m: "m = (k, e)" by fastforce
  with Cons.prems have "win n lo k" "k \<noteq> y" by auto
  then have "aget (aset N (place n h y) v) (place n h k) = aget N (place n h k)"
    using assms(1-3) by (simp add: aget_aset_place)
  with Cons m show ?case by simp
qed simp

lemma start_last: "start n h (xs @ [(k, e)]) q = start n h (xs @ [(k, e')]) q'"
  by (simp add: start_append)

text \<open>The end of the last interval of a prefix does not matter to its links.\<close>

lemma linked_end: "linked n h N (xs @ (k, e) # ys) q = linked n h N (xs @ (k, e') # ys) q"
  by (simp add: linked_append)

section \<open>Reading a represented list\<close>

lemma repD:
  assumes "rep b h lo ns l"
  shows "0 < sl_Size l" "2 * sl_Size l < m_iSeqNoTH" "length (sl_Data1 l) = nat (sl_Size l)"
    "length (sl_Data2 l) = nat (sl_Size l)" "length (sl_Next l) = nat (sl_Size l)"
    "nodes_ok lo (lo + sl_Size l) ns" "linked (sl_Size l) h (sl_Next l) ns (- 1)"
    "sl_Head l = start (sl_Size l) h ns (- 1)" "sl_Length l = total ns"
    "\<And>x. win (sl_Size l) lo x \<Longrightarrow> data1 l (place (sl_Size l) h x) = cell1 b ns x"
    "\<And>x. win (sl_Size l) lo x \<Longrightarrow> data2 l (place (sl_Size l) h x) = cell2 b ns x"
  using assms by (auto simp: rep_def cells_def)

lemma rep_node:
  assumes "rep b h lo (xs @ (k, e) # ys) l"
  shows "win (sl_Size l) lo k" "win (sl_Size l) lo e" "k \<le> e"
    "data1 l (place (sl_Size l) h k) = seq_at b k"
    "data2 l (place (sl_Size l) h k) = (if e = k then - 1 else seq_at b e)"
    "nextp l (place (sl_Size l) h k) = start (sl_Size l) h ys (- 1)"
proof -
  have ok: "nodes_ok lo (lo + sl_Size l) xs \<and> (\<forall>s\<in>starts xs. s < k) \<and> lo \<le> k \<and> k \<le> e \<and>
      e < lo + sl_Size l \<and> nodes_ok (k + 1) (lo + sl_Size l) ys"
    using repD(6) [OF assms] by (simp add: nodes_ok_append)
  then show w: "win (sl_Size l) lo k" "win (sl_Size l) lo e" "k \<le> e" by (auto simp: win_def)
  have "k \<notin> starts xs" using ok by auto
  then show "data1 l (place (sl_Size l) h k) = seq_at b k"
    "data2 l (place (sl_Size l) h k) = (if e = k then - 1 else seq_at b e)"
    using repD(10,11) [OF assms w(1)] by (simp_all add: cell_node)
  show "nextp l (place (sl_Size l) h k) = start (sl_Size l) h ys (- 1)"
    using repD(7) [OF assms] by (simp add: linked_append)
qed

lemma window_cmp:
  assumes "rep b h lo ns l" "lo \<le> x" "x \<le> lo + sl_Size l" "lo \<le> y" "y \<le> lo + sl_Size l"
  shows "\<bar>x - y\<bar> < m_iSeqNoTH"
  using assms repD(2) [OF assms(1)] by linarith

lemma find_prior_spec:
  assumes "rep b h lo (xs @ (k, e) # ys) l" "k < j" "win (sl_Size l) lo j" "length ys < f"
  shows "\<exists>us k' e' ws. xs @ (k, e) # ys = us @ (k', e') # ws \<and> k' < j \<and> (\<forall>s\<in>starts ws. j \<le> s) \<and>
    find_prior f l (seq_at b j) (place (sl_Size l) h k) = Some (place (sl_Size l) h k')"
  using assms
proof (induction ys arbitrary: xs k e f)
  case Nil
  then obtain f' where "f = Suc f'" by (cases f) auto
  with Nil rep_node [OF Nil(1)] show ?case
    by (intro exI [of _ xs] exI [of _ k] exI [of _ e] exI [of _ "[]"]) simp
next
  case (Cons y ys)
  obtain k' e' where y: "y = (k', e')" by fastforce
  obtain f' where f: "f = Suc f'" using Cons.prems(4) by (cases f) auto
  note n1 = rep_node [OF Cons.prems(1)]
  have r2: "rep b h lo ((xs @ [(k, e)]) @ (k', e') # ys) l" using Cons.prems(1) y by simp
  note n2 = rep_node [OF r2]
  have "seqcmp (seq_at b k') (seq_at b j) < 0 \<longleftrightarrow> k' < j"
    using window_cmp [OF r2, of k' j] n2(1) Cons.prems(3) by (simp add: win_def seq.cmp_window_lt)
  moreover have "nodes_ok (k' + 1) (lo + sl_Size l) ys" "0 < sl_Size l"
    using repD(1,6) [OF r2] by (simp_all only: nodes_ok_append)
  ultimately show ?case
  proof (cases "k' < j")
    case True
    then obtain us k2 e2 ws where
      "(xs @ [(k, e)]) @ (k', e') # ys = us @ (k2, e2) # ws" "k2 < j" "\<forall>s\<in>starts ws. j \<le> s"
      "find_prior f' l (seq_at b j) (place (sl_Size l) h k') = Some (place (sl_Size l) h k2)"
      using Cons.IH [OF r2 True Cons.prems(3), of f'] Cons.prems(4) f by auto
    moreover have "find_prior f l (seq_at b j) (place (sl_Size l) h k) =
        find_prior f' l (seq_at b j) (place (sl_Size l) h k')"
      using True n1 n2 y f \<open>seqcmp _ _ < 0 \<longleftrightarrow> _\<close> \<open>0 < sl_Size l\<close> by simp
    ultimately show ?thesis using y by (intro exI [of _ us] exI [of _ k2] exI [of _ e2] exI [of _ ws]) simp
  next
    case False
    have "\<forall>s\<in>starts (y # ys). j \<le> s"
      using False y nodes_ok_starts [OF \<open>nodes_ok (k' + 1) _ ys\<close>] by fastforce
    moreover have "find_prior f l (seq_at b j) (place (sl_Size l) h k) = Some (place (sl_Size l) h k)"
      using False n1 n2 y f \<open>seqcmp _ _ < 0 \<longleftrightarrow> _\<close> \<open>0 < sl_Size l\<close> by simp
    ultimately show ?thesis using Cons.prems(2)
      by (intro exI [of _ xs] exI [of _ k] exI [of _ e] exI [of _ "y # ys"]) simp
  qed
qed

section \<open>Coalescing\<close>

lemmas setter_defs = set_Data1_def set_Data2_def set_Next_def add_Length_def

lemma max_len: "(k::int) \<le> e \<Longrightarrow> k' \<le> e + 1 \<Longrightarrow> k' \<le> e' \<Longrightarrow>
    max e e' - k + 1 = (e - k + 1) + (e' - k' + 1) - (if e < e' then e - k' + 1 else e' - k' + 1)"
  by auto

text \<open>The step's effect on the fields.\<close>

lemma coalesce_step_fields:
  assumes r: "rep b h lo (xs @ (k, e) # (k', e') # ys) l" and ke: "k < e" and k': "k' \<le> e + 1"
  defines "loc \<equiv> place (sl_Size l) h k" and "i \<equiv> place (sl_Size l) h k'"
  shows "coalesce_step l loc i =
    l\<lparr>sl_Data1 := aset (sl_Data1 l) i (- 1),
      sl_Data2 := aset (if e < e' then aset (sl_Data2 l) loc (seq_at b e') else sl_Data2 l) i (- 1),
      sl_Next := aset (sl_Next l) loc (nextp l i),
      sl_Length := sl_Length l - (if e < e' then e - k' + 1 else e' - k' + 1)\<rparr>"
proof -
  have r2: "rep b h lo ((xs @ [(k, e)]) @ (k', e') # ys) l" using r by simp
  note n1 = rep_node [OF r] and n2 = rep_node [OF r2]
  have loc: "data1 l loc = seq_at b k" "data2 l loc = seq_at b e"
    using n1 ke by (simp_all add: loc_def)
  have i: "data1 l i = seq_at b k'" "data2 l i = (if e' = k' then - 1 else seq_at b e')"
    using n2 by (simp_all add: i_def)
  have w: "\<bar>x - y\<bar> < m_iSeqNoTH" if "x \<in> {k, e, k', e'}" "y \<in> {k, e, k', e'}" for x y
    using that window_cmp [OF r, of x y] n1(1-3) n2(1-3) by (auto simp: win_def)
  have w1: "\<bar>k' - (e + 1)\<bar> < m_iSeqNoTH"
    using window_cmp [OF r, of k' "e + 1"] n1(1-3) n2(1-3) by (auto simp: win_def)
  have single: "seq_at b k' = seq_at b (e + 1) \<longleftrightarrow> k' = e + 1"
    using w1 seq.shift_inj [of "e + 1" k' b] by (auto simp: abs_minus_commute)
  have cmp: "seqcmp (seq_at b e') (seq_at b e) > 0 \<longleftrightarrow> e < e'"
    "seqcmp (seq_at b e) (seq_at b k') \<ge> 0 \<longleftrightarrow> k' \<le> e"
    using w by (simp_all add: seq.cmp_window_gt seq.cmp_window_ge)
  have len: "seqlen (seq_at b k') (seq_at b e') = e' - k' + 1"
    "k' \<le> e \<Longrightarrow> seqlen (seq_at b k') (seq_at b e) = e - k' + 1"
    using n2(3) w [of e' k'] w [of e k'] by (simp_all add: seq.len_window)
  show ?thesis
  proof (cases "e' = k'")
    case True
    then show ?thesis
      using k' by (cases "k' = e + 1")
        (simp_all add: coalesce_step_def loc i single seq.inc_window setter_defs Let_def)
  next
    case False
    then show ?thesis
      using n2(3) k' by (cases "e < e'"; cases "k' \<le> e")
        (simp_all add: coalesce_step_def loc i cmp len setter_defs Let_def)
  qed
qed

lemma coalesce_step_rep:
  assumes r: "rep b h lo (xs @ (k, e) # (k', e') # ys) l" and ke: "k < e" and k': "k' \<le> e + 1"
  shows "rep b h lo (xs @ (k, max e e') # ys)
    (coalesce_step l (place (sl_Size l) h k) (place (sl_Size l) h k'))"
proof -
  let ?n = "sl_Size l" and ?loc = "place (sl_Size l) h k" and ?i = "place (sl_Size l) h k'"
  have r2: "rep b h lo ((xs @ [(k, e)]) @ (k', e') # ys) l" using r by simp
  note n1 = rep_node [OF r] and n2 = rep_node [OF r2] and d = repD [OF r]
  have ok: "nodes_ok lo (lo + ?n) xs" "\<forall>s\<in>starts xs. s < k" "lo \<le> k" "k < k'" "k' \<le> e'"
    "e' < lo + ?n" "nodes_ok (k' + 1) (lo + ?n) ys"
    using d(6) by (auto simp: nodes_ok_append)
  have keys: "k \<notin> starts xs" "k' \<notin> starts xs" "k \<notin> starts ys" "k' \<notin> starts ys" "k \<noteq> k'"
    using ok nodes_ok_starts [OF ok(7)] by (auto, force+)
  have wins: "win ?n lo s" if "s \<in> starts xs \<union> starts ys" for s
    using that ok nodes_ok_starts [OF ok(1)] nodes_ok_starts [OF ok(7)] by (fastforce simp: win_def)
  note arr = aget_aset_place [OF d(1)]
  have len: "total (xs @ (k, max e e') # ys) = sl_Length l - (if e < e' then e - k' + 1 else e' - k' + 1)"
    using d(9) ok ke k' by (simp add: max_def)
  have "nodes_ok lo (lo + ?n) (xs @ (k, max e e') # ys)"
    using ok ke n1(2,3) nodes_ok_mono [OF ok(7), of "k + 1"]
    by (auto simp: nodes_ok_append win_def)
  moreover have "linked ?n h (aset (sl_Next l) ?loc (nextp l ?i)) (xs @ (k, max e e') # ys) (- 1)"
  proof -
    have "linked ?n h (aset (sl_Next l) ?loc v) zs q = linked ?n h (sl_Next l) zs q"
      if "zs = xs \<or> zs = ys" for zs q v
      by (rule linked_aset [OF d(1,5) n1(1)]) (use that wins keys in auto)
    then show ?thesis
      using d(7) n2(6) d(1,5) by (simp add: linked_append inb_place)
  qed
  moreover have "aget (aset (sl_Data1 l) ?i (- 1)) (place ?n h x) = cell1 b (xs @ (k, max e e') # ys) x \<and>
      aget (aset (if e < e' then aset (sl_Data2 l) ?loc (seq_at b e') else sl_Data2 l) ?i (- 1))
        (place ?n h x) = cell2 b (xs @ (k, max e e') # ys) x" if x: "win ?n lo x" for x
  proof -
    have "aget (aset (sl_Data1 l) ?i (- 1)) (place ?n h x) = (if x = k' then - 1 else cell1 b (xs @ (k, e) # (k', e') # ys) x)"
      using arr [OF d(3) n2(1) x] d(10) [OF x] by simp
    moreover have "aget (aset (if e < e' then aset (sl_Data2 l) ?loc (seq_at b e') else sl_Data2 l) ?i (- 1))
        (place ?n h x) = (if x = k' then - 1 else if e < e' \<and> x = k then seq_at b e'
          else cell2 b (xs @ (k, e) # (k', e') # ys) x)"
      using d(4) d(11) [OF x] by (simp add: arr [OF _ n2(1) x] arr [OF d(4) n1(1) x] arr [OF d(4) n1(1) n1(1)])
    moreover consider "x = k'" | "x = k" "x \<noteq> k'" | "x \<noteq> k" "x \<noteq> k'" by blast
    then have "cell1 b (xs @ (k, max e e') # ys) x = (if x = k' then - 1 else cell1 b (xs @ (k, e) # (k', e') # ys) x)
      \<and> cell2 b (xs @ (k, max e e') # ys) x = (if x = k' then - 1 else if e < e' \<and> x = k then seq_at b e'
          else cell2 b (xs @ (k, e) # (k', e') # ys) x)"
    proof cases
      case 1
      then show ?thesis using keys cell_notin [of k' "xs @ (k, max e e') # ys" b] by auto
    next
      case 2
      then show ?thesis using keys ke by (simp add: cell_node max_def)
    next
      case 3
      then show ?thesis using cell_other [of x k b xs] cell_other [of x k' b xs] by simp
    qed
    ultimately show ?thesis by simp
  qed
  moreover have "sl_Head l = start ?n h (xs @ (k, max e e') # ys) (- 1)"
    using d(8) by (simp add: start_append)
  ultimately show ?thesis
    unfolding coalesce_step_fields [OF r ke k'] rep_def cells_def using d(1-5) len by simp
qed

lemma coalesce_spec:
  assumes "rep b h lo (xs @ (k, e) # ys) l" "length ys < f"
  shows "\<exists>l'. coalesce f l (place (sl_Size l) h k) = Some l' \<and>
    rep b h lo (xs @ merge_right (k, e) ys) l' \<and> sl_Size l' = sl_Size l \<and>
    sl_LastInsertPos l' = sl_LastInsertPos l"
  using assms
proof (induction ys arbitrary: e l f)
  case Nil
  then obtain f' where "f = Suc f'" by (cases f) auto
  with Nil rep_node [OF Nil(1)] show ?case by simp
next
  case (Cons y ys)
  obtain k' e' where y: "y = (k', e')" by fastforce
  obtain f' where f: "f = Suc f'" using Cons.prems(2) by (cases f) auto
  note r = Cons.prems(1) [unfolded y]
  note n1 = rep_node [OF r] and n = repD(1) [OF r]
  have n2: "win (sl_Size l) lo k'" "data1 l (place (sl_Size l) h k') = seq_at b k'"
    using rep_node [of b h lo "xs @ [(k, e)]" k' e' ys l] r by auto
  have c: "seqcmp (seq_at b k') (incseq (seq_at b e)) \<le> 0 \<longleftrightarrow> k' \<le> e + 1"
    using window_cmp [OF r, of k' "e + 1"] n1(2) n2(1) by (simp add: win_def seq.window_simps)
  show ?case
  proof (cases "k < e \<and> k' \<le> e + 1")
    case True
    let ?l = "coalesce_step l (place (sl_Size l) h k) (place (sl_Size l) h k')"
    have s: "sl_Size ?l = sl_Size l" "sl_LastInsertPos ?l = sl_LastInsertPos l"
      using coalesce_step_fields [OF r] True by simp_all
    have "rep b h lo (xs @ (k, max e e') # ys) ?l" using coalesce_step_rep [OF r] True by simp
    from Cons.IH [OF this, of f'] Cons.prems(2) f s
    show ?thesis using True n1 n2 c n y by (simp add: f)
  next
    case False
    then have "e = k \<or> \<not> k' \<le> e + 1" using n1(3) by auto
    then have "coalesce f l (place (sl_Size l) h k) = Some l" using n1 n2 c n by (auto simp: f)
    then show ?thesis using False r y by auto
  qed
qed

section \<open>Adding, resizing and dropping a node\<close>

lemma cellsD:
  assumes "cells b h lo ns l"
  shows "0 < sl_Size l" "2 * sl_Size l < m_iSeqNoTH" "length (sl_Data1 l) = nat (sl_Size l)"
    "length (sl_Data2 l) = nat (sl_Size l)" "length (sl_Next l) = nat (sl_Size l)"
    "nodes_ok lo (lo + sl_Size l) ns" "linked (sl_Size l) h (sl_Next l) ns (- 1)"
    "sl_Length l = total ns"
    "\<And>x. win (sl_Size l) lo x \<Longrightarrow> data1 l (place (sl_Size l) h x) = cell1 b ns x"
    "\<And>x. win (sl_Size l) lo x \<Longrightarrow> data2 l (place (sl_Size l) h x) = cell2 b ns x"
  using assms by (auto simp: cells_def)

lemma cell_mid:
  "k \<notin> starts xs \<Longrightarrow> cell1 b (xs @ (k, e) # ys) x = (if x = k then seq_at b k else cell1 b (xs @ ys) x)"
  "k \<notin> starts xs \<Longrightarrow> cell2 b (xs @ (k, e) # ys) x =
     (if x = k then if e = k then - 1 else seq_at b e else cell2 b (xs @ ys) x)"
  by (simp_all add: cell_node cell_other)

lemma nodes_ok_keys:
  assumes "nodes_ok lo hi (xs @ (k, e) # ys)"
  shows "k \<notin> starts xs" "k \<notin> starts ys" "nodes_ok lo hi (xs @ ys)" "lo \<le> k" "k \<le> e" "e < hi"
    "\<And>s. s \<in> starts xs \<Longrightarrow> lo \<le> s \<and> s < hi" "\<And>s. s \<in> starts ys \<Longrightarrow> lo \<le> s \<and> s < hi"
proof -
  have a: "nodes_ok lo hi xs" "\<forall>s\<in>starts xs. s < k" "lo \<le> k" "k \<le> e" "e < hi" "nodes_ok (k + 1) hi ys"
    using assms by (simp_all add: nodes_ok_append)
  then show "k \<notin> starts xs" "lo \<le> k" "k \<le> e" "e < hi" by auto
  show "k \<notin> starts ys" using nodes_ok_starts [OF a(6), of k] by auto
  show "lo \<le> s \<and> s < hi" if "s \<in> starts xs" for s
    using that nodes_ok_starts [OF a(1)] by blast
  show "lo \<le> s \<and> s < hi" if "s \<in> starts ys" for s
    using nodes_ok_starts [OF a(6) that] a(3) by simp
  show "nodes_ok lo hi (xs @ ys)"
  proof (cases ys)
    case (Cons y zs)
    obtain k' e' where "y = (k', e')" by fastforce
    with a Cons show ?thesis by (auto simp: nodes_ok_append)
  qed (use a in simp)
qed

definition link_after :: "int \<Rightarrow> int \<Rightarrow> node list \<Rightarrow> int \<Rightarrow> int list \<Rightarrow> int list" where
  "link_after n h xs q N = (if xs = [] then N else aset N (place n h (fst (last xs))) q)"

lemma linked_link_after:
  assumes "0 < n" "length N = nat n" "nodes_ok lo (lo + n) (xs @ (k, e) # ys)" "linked n h N (xs @ ys) q"
  shows "linked n h (link_after n h xs (place n h k) (aset N (place n h k) (start n h ys q))) (xs @ (k, e) # ys) q"
proof -
  note keys = nodes_ok_keys [OF assms(3)]
  have wk: "win n lo k" using keys by (simp add: win_def)
  let ?N = "aset N (place n h k) (start n h ys q)"
  have N: "linked n h ?N zs q' = linked n h N zs q'" if "starts zs \<subseteq> starts xs \<union> starts ys" for zs q'
    by (rule linked_aset [OF assms(1,2) wk]) (use that keys(1,2,7,8) in \<open>unfold win_def, blast\<close>)
  show ?thesis
  proof (cases xs rule: rev_cases)
    case Nil
    then show ?thesis using assms N [of ys] by (simp add: link_after_def inb_place)
  next
    case (snoc us p)
    obtain k0 e0 where p: "p = (k0, e0)" by fastforce
    have "nodes_ok lo (lo + n) (us @ (k0, e0) # (k, e) # ys)" using assms(3) snoc p by simp
    note keys0 = nodes_ok_keys [OF this]
    have w0: "win n lo k0" using keys0 by (simp add: win_def)
    have wz: "win n lo s \<and> s \<noteq> k0" if "s \<in> starts us \<union> starts ((k, e) # ys)" for s
      using that keys0(1,2,7,8) unfolding win_def by blast
    have M: "linked n h (aset ?N (place n h k0) (place n h k)) zs q' = linked n h ?N zs q'"
      if "zs = us \<or> zs = (k, e) # ys" for zs q'
      by (rule linked_aset [OF assms(1) _ w0]) (use that assms(2) wz in \<open>simp, blast\<close>)
    have "linked n h ?N us (place n h k0)" "linked n h ?N ((k, e) # ys) q"
      using assms(2,4) N [of us] N [of ys] snoc p inb_place [OF assms(1,2)] by (auto simp: linked_append)
    then have "linked n h (aset ?N (place n h k0) (place n h k)) us (place n h k0)"
      "linked n h (aset ?N (place n h k0) (place n h k)) ((k, e) # ys) q"
      using M by blast+
    then show ?thesis
      using assms(1,2) snoc p
      by (simp add: link_after_def linked_append inb_place start_append del: linked.simps(2))
         (simp add: inb_place)
  qed
qed

lemma cells_new:
  assumes c: "cells b h lo (xs @ ys) l" and ok: "nodes_ok lo (lo + sl_Size l) (xs @ (k, e) # ys)"
    and l': "sl_Size l' = sl_Size l" "sl_Length l' = sl_Length l + (e - k + 1)"
      "sl_Data1 l' = aset (sl_Data1 l) (place (sl_Size l) h k) (seq_at b k)"
      "sl_Data2 l' = (if e = k then sl_Data2 l else aset (sl_Data2 l) (place (sl_Size l) h k) (seq_at b e))"
      "sl_Next l' = link_after (sl_Size l) h xs (place (sl_Size l) h k)
         (aset (sl_Next l) (place (sl_Size l) h k) (start (sl_Size l) h ys (- 1)))"
  shows "cells b h lo (xs @ (k, e) # ys) l'"
proof -
  note d = cellsD [OF c] and keys = nodes_ok_keys [OF ok]
  have wk: "win (sl_Size l) lo k" using keys by (simp add: win_def)
  have "aget (sl_Data1 l') (place (sl_Size l) h x) = cell1 b (xs @ (k, e) # ys) x \<and>
    aget (sl_Data2 l') (place (sl_Size l) h x) = cell2 b (xs @ (k, e) # ys) x"
    if x: "win (sl_Size l) lo x" for x
    using keys(1,2) cell_notin [of k "xs @ ys" b] d(9,10) [OF x]
    by (auto simp: image_Un cell_mid l' aget_aset_place [OF d(1) d(3) wk x] aget_aset_place [OF d(1) d(4) wk x]
        aget_aset_place [OF d(1) d(3) wk wk] aget_aset_place [OF d(1) d(4) wk wk])
  moreover have "linked (sl_Size l) h (sl_Next l') (xs @ (k, e) # ys) (- 1)"
    unfolding l' by (rule linked_link_after [OF d(1,5) ok d(7)])
  moreover have "length (sl_Next l') = nat (sl_Size l)"
    using d(5) by (simp add: l' link_after_def)
  ultimately show ?thesis using d ok by (simp add: cells_def l')
qed

lemma cells_resize:
  assumes c: "cells b h lo (xs @ (k, e) # ys) l" and e': "k \<le> e'" "e' < lo + sl_Size l"
    and l': "sl_Size l' = sl_Size l" "sl_Length l' = sl_Length l + (e' - e)"
      "sl_Data1 l' = sl_Data1 l" "sl_Next l' = sl_Next l"
      "sl_Data2 l' = aset (sl_Data2 l) (place (sl_Size l) h k) (if e' = k then - 1 else seq_at b e')"
  shows "cells b h lo (xs @ (k, e') # ys) l'"
proof -
  note d = cellsD [OF c]
  note keys = nodes_ok_keys [OF d(6)]
  have wk: "win (sl_Size l) lo k" using keys by (simp add: win_def)
  have "aget (sl_Data1 l') (place (sl_Size l) h x) = cell1 b (xs @ (k, e') # ys) x \<and>
    aget (sl_Data2 l') (place (sl_Size l) h x) = cell2 b (xs @ (k, e') # ys) x"
    if x: "win (sl_Size l) lo x" for x
    using keys(1,2) d(9,10) [OF x]
    by (auto simp: cell_mid l' aget_aset_place [OF d(1) d(4) wk x] aget_aset_place [OF d(1) d(4) wk wk])
  moreover have "linked (sl_Size l) h (sl_Next l') (xs @ (k, e') # ys) (- 1)"
    unfolding l' by (rule linked_end [THEN iffD1, OF d(7)])
  moreover have "nodes_ok lo (lo + sl_Size l) (xs @ (k, e') # ys)"
    using d(6) e' by (simp add: nodes_ok_append)
  ultimately show ?thesis using d by (simp add: cells_def l')
qed

lemma cells_drop:
  assumes c: "cells b h lo ((k, e) # ys) l"
    and l': "sl_Size l' = sl_Size l" "sl_Length l' = sl_Length l - (e - k + 1)"
      "sl_Data1 l' = aset (sl_Data1 l) (place (sl_Size l) h k) (- 1)"
      "sl_Data2 l' = (if e = k then sl_Data2 l else aset (sl_Data2 l) (place (sl_Size l) h k) (- 1))"
      "sl_Next l' = sl_Next l"
  shows "cells b h lo ys l'"
proof -
  note d = cellsD [OF c]
  have "nodes_ok lo (lo + sl_Size l) ([] @ (k, e) # ys)" using d(6) by simp
  note keys = nodes_ok_keys [OF this]
  have wk: "win (sl_Size l) lo k" using keys by (simp add: win_def)
  have "aget (sl_Data1 l') (place (sl_Size l) h x) = cell1 b ys x \<and>
    aget (sl_Data2 l') (place (sl_Size l) h x) = cell2 b ys x"
    if x: "win (sl_Size l) lo x" for x
    using keys(1,2) cell_notin [of k ys b] d(9,10) [OF x] cell_mid [of k "[]" b e ys x]
    by (auto simp: l' aget_aset_place [OF d(1) d(3) wk x] aget_aset_place [OF d(1) d(4) wk x]
        aget_aset_place [OF d(1) d(3) wk wk] aget_aset_place [OF d(1) d(4) wk wk])
  then show ?thesis using d keys(3) by (simp add: cells_def l')
qed

text \<open>Only the cells and the links of the nodes count.\<close>

lemma cells_cong:
  assumes "cells b h lo ns l" "sl_Size l' = sl_Size l" "sl_Length l' = sl_Length l"
    "sl_Data1 l' = sl_Data1 l" "sl_Data2 l' = sl_Data2 l" "length (sl_Next l') = length (sl_Next l)"
    "linked (sl_Size l) h (sl_Next l') ns (- 1)"
  shows "cells b h lo ns l'"
  using assms by (simp add: cells_def)

lemma rep_rewindow:
  assumes c: "cells b h lo ns l" and ok: "nodes_ok lo' (lo' + sl_Size l) ns"
  shows "cells b h lo' ns l"
proof -
  note d = cellsD [OF c]
  have "data1 l (place (sl_Size l) h x) = cell1 b ns x \<and> data2 l (place (sl_Size l) h x) = cell2 b ns x"
    if x: "win (sl_Size l) lo' x" for x
  proof -
    obtain y where y: "win (sl_Size l) lo y" "place (sl_Size l) h y = place (sl_Size l) h x"
      using place_surj [OF d(1), of "place (sl_Size l) h x" lo h] place_range [OF d(1), of h x] by auto
    show ?thesis
    proof (cases "y = x")
      case True
      with y d(9,10) [of y] show ?thesis by simp
    next
      case False
      have "\<not> win (sl_Size l) lo x" using False y place_inj [of "sl_Size l" lo y x h] by auto
      then have "x \<notin> starts ns" using nodes_ok_starts [OF d(6)] by (auto simp: win_def)
      moreover have "\<not> win (sl_Size l) lo' y" using False y x place_inj [of "sl_Size l" lo' y x h] by auto
      then have "y \<notin> starts ns" using nodes_ok_starts [OF ok] by (auto simp: win_def)
      ultimately show ?thesis using d(9,10) [OF y(1)] y(2) by (simp add: cell_notin)
    qed
  qed
  then show ?thesis using d ok by (simp add: cells_def)
qed

lemma cells_empty_any:
  assumes "cells b h lo [] l"
  shows "cells b' h' lo' [] l"
proof -
  note d = cellsD [OF assms]
  have "data1 l (place (sl_Size l) h' x) = - 1 \<and> data2 l (place (sl_Size l) h' x) = - 1" for x
    using place_surj [OF d(1), of "place (sl_Size l) h' x" lo h] place_range [OF d(1), of h' x] d(9,10)
    by (metis cell_notin empty_iff image_empty list.set(1))
  then show ?thesis using d by (simp add: cells_def cell_notin)
qed

end
