(* ===== verification/SndLossInsert.thy ===== *)
theory SndLossInsert imports SndLossProofs begin

text \<open>
  \<open>CSndLossList::insert\<close> on the interval list: each branch of the source is shown to add the
  interval \<open>[j, j2]\<close>, and \<open>insert_good\<close> puts the branches together.
\<close>

definition good :: "int \<Rightarrow> int \<Rightarrow> int \<Rightarrow> node list \<Rightarrow> CSndLossList \<Rightarrow> bool" where
  "good b h lo ns l \<longleftrightarrow> rep b h lo ns l \<and> sep lo (lo + sl_Size l) ns \<and> hint_ok h ns l"

text \<open>The outcome of inserting \<open>[j, j2]\<close>.\<close>

definition inserted ::
    "int \<Rightarrow> int \<Rightarrow> int \<Rightarrow> node list \<Rightarrow> int \<Rightarrow> int \<Rightarrow> CSndLossList \<Rightarrow> (int \<times> CSndLossList) option \<Rightarrow> bool" where
  "inserted b h lo ns j j2 l res \<longleftrightarrow>
     (\<exists>r l' ns'. res = Some (r, l') \<and> good b h lo ns' l' \<and> covered ns' = covered ns \<union> {j..j2} \<and>
        r = total ns' - total ns \<and> sl_Size l' = sl_Size l)"

lemma goodD:
  assumes "good b h lo ns l"
  shows "rep b h lo ns l" "cells b h lo ns l" "sep lo (lo + sl_Size l) ns" "hint_ok h ns l"
    "sl_Head l = start (sl_Size l) h ns (- 1)" "sl_Length l = total ns"
  using assms by (auto simp: good_def rep_def cells_def)

lemma finish_good:
  assumes r: "rep b h lo (xs @ (k, e) # ys) l1" and x: "sep lo (lo + sl_Size l1) xs" "\<forall>(k', e')\<in>set xs. e' < k"
    and y: "sep (k + 1) (lo + sl_Size l1) ys" and hint: "sl_LastInsertPos l1 = place (sl_Size l1) h k"
    and cov: "covered (xs @ (k, e) # ys) = covered ns \<union> {j..j2}"
    and o: "origlen = total ns" and sz: "sl_Size l1 = sl_Size l"
  shows "inserted b h lo ns j j2 l (finish_insert origlen (Inr (l1, place (sl_Size l1) h k)))"
proof -
  note d = repD [OF r] and n = rep_node [OF r]
  have "int (length (xs @ (k, e) # ys)) \<le> sl_Size l1" using nodes_ok_length [OF d(6)] d(1) by simp
  then have "length ys < sl_fuel l1" by (simp add: sl_fuel_def)
  from coalesce_spec [OF r this] obtain l' where l': "coalesce (sl_fuel l1) l1 (place (sl_Size l1) h k) = Some l'"
    "rep b h lo (xs @ merge_right (k, e) ys) l'" "sl_Size l' = sl_Size l1"
    "sl_LastInsertPos l' = sl_LastInsertPos l1" by blast
  have "sep lo (lo + sl_Size l1) (xs @ merge_right (k, e) ys)"
    using x y n by (intro sep_append_merge) (auto simp: win_def)
  moreover have "hint_ok h (xs @ merge_right (k, e) ys) l'"
    using merge_right_start [of k e ys] l' hint by (auto simp: hint_ok_def)
  moreover have "covered (merge_right (k, e) ys) = {k..e} \<union> covered ys"
    using covered_merge_right [of k e "lo + sl_Size l1" ys] n(3) sep_nodes_ok [OF y] by simp
  ultimately show ?thesis
    using l' cov o sz repD(9) [OF l'(2)] unfolding inserted_def finish_insert_def good_def
    by (intro exI [of _ "sl_Length l' - origlen"] exI [of _ l'] exI [of _ "xs @ merge_right (k, e) ys"])
      (simp add: Un_assoc)
qed

lemma early_return:
  assumes g: "good b h lo ns l" and k: "k \<in> starts ns" "{j..j2} \<subseteq> covered ns"
  shows "inserted b h lo ns j j2 l
    (finish_insert origlen (Inl (l\<lparr>sl_LastInsertPos := place (sl_Size l) h k\<rparr>)))"
  using assms unfolding inserted_def finish_insert_def good_def rep_def cells_def hint_ok_def
  by (intro exI [of _ 0] exI [of _ "l\<lparr>sl_LastInsertPos := place (sl_Size l) h k\<rparr>"] exI [of _ ns])
    (auto simp: Un_absorb2)

text \<open>The interval to insert lies in the window.\<close>

definition in_window :: "int \<Rightarrow> int \<Rightarrow> int \<Rightarrow> CSndLossList \<Rightarrow> bool" where
  "in_window lo j j2 l \<longleftrightarrow> lo \<le> j \<and> j \<le> j2 \<and> j2 < lo + sl_Size l"

lemma window_facts:
  assumes g: "good b h lo ns l" and w: "in_window lo j j2 l"
  shows "\<And>x y. win (sl_Size l) lo x \<Longrightarrow> win (sl_Size l) lo y \<Longrightarrow> \<bar>x - y\<bar> < m_iSeqNoTH"
    "win (sl_Size l) lo j" "win (sl_Size l) lo j2" "seq_at b j2 = seq_at b j \<longleftrightarrow> j2 = j"
    "seqlen (seq_at b j) (seq_at b j2) = j2 - j + 1"
proof -
  show d: "\<bar>x - y\<bar> < m_iSeqNoTH" if "win (sl_Size l) lo x" "win (sl_Size l) lo y" for x y
    using cellsD(1,2) [OF goodD(2) [OF g]] that by (auto simp: win_def)
  show j: "win (sl_Size l) lo j" "win (sl_Size l) lo j2"
    using w by (auto simp: in_window_def win_def)
  show "seq_at b j2 = seq_at b j \<longleftrightarrow> j2 = j" "seqlen (seq_at b j) (seq_at b j2) = j2 - j + 1"
    using d [OF j] d [OF j(2,1)] w by (simp_all add: seq.shift_inj seq.len_window in_window_def)
qed

lemma sep_split:
  assumes "sep lo hi (xs @ (k, e) # ys)"
  shows "sep lo hi xs" "\<forall>(k', e')\<in>set xs. e' < k" "lo \<le> k" "k \<le> e" "e < hi" "sep (e + 1) hi ys"
  using assms by (auto simp: sep_append)

lemma insert_before_head_ok:
  assumes g: "good b h lo ((k0, e0) # rest) l" and w: "in_window lo j j2 l" and j: "j < k0"
  shows "inserted b h lo ((k0, e0) # rest) j j2 l (finish_insert (sl_Length l)
    (Inr (insert_before_head (seq_at b j) (seq_at b j2) (place (sl_Size l) h j) l, place (sl_Size l) h j)))"
proof -
  let ?ns = "(k0, e0) # rest"
  let ?l = "insert_before_head (seq_at b j) (seq_at b j2) (place (sl_Size l) h j) l"
  note f = window_facts [OF g w] and d = goodD [OF g]
  have l: "sl_Size ?l = sl_Size l" "sl_LastInsertPos ?l = place (sl_Size l) h j"
    "sl_Head ?l = place (sl_Size l) h j" "sl_Length ?l = sl_Length l + (j2 - j + 1)"
    "sl_Data1 ?l = aset (sl_Data1 l) (place (sl_Size l) h j) (seq_at b j)"
    "sl_Data2 ?l = (if j2 = j then sl_Data2 l else aset (sl_Data2 l) (place (sl_Size l) h j) (seq_at b j2))"
    "sl_Next ?l = aset (sl_Next l) (place (sl_Size l) h j) (start (sl_Size l) h ?ns (- 1))"
    using f(4,5) d(5) by (auto simp: insert_before_head_def put_node_def setter_defs Let_def)
  have s: "sep (j + 1) (lo + sl_Size l) ?ns"
    using d(3) j by simp
  have "cells b h lo ([] @ (j, j2) # ?ns) ?l"
    using w sep_nodes_ok [OF s] d(2) by (intro cells_new [of b h lo "[]" ?ns l])
      (auto simp: l link_after_def in_window_def)
  then have r: "rep b h lo ([] @ (j, j2) # ?ns) ?l"
    by (simp add: rep_def l)
  show ?thesis
    using finish_good [OF r, of ?ns j j2 "sl_Length l" l] s d(6) by (simp add: l Un_commute)
qed

text \<open>Making the node at \<open>k\<close> reach further.\<close>

lemma extend_ok:
  assumes g: "good b h lo (xs @ (k, e) # ys) l" and w: "in_window lo j j2 l"
    and j: "k \<le> j" "j \<le> e" "e < j2"
    and l1: "l1 = set_Data2 (place (sl_Size l) h k) (seq_at b j2)
      (add_Length (j2 - e) (l\<lparr>sl_LastInsertPos := place (sl_Size l) h k\<rparr>))"
  shows "inserted b h lo (xs @ (k, e) # ys) j j2 l (finish_insert (sl_Length l) (Inr (l1, place (sl_Size l) h k)))"
proof -
  note d = goodD [OF g]
  note s = sep_split [OF d(3)]
  have l: "sl_Size l1 = sl_Size l" "sl_LastInsertPos l1 = place (sl_Size l) h k"
    using l1 by (simp_all add: setter_defs)
  have "cells b h lo (xs @ (k, j2) # ys) l1"
    using w j s by (intro cells_resize [OF d(2), of j2]) (auto simp: l1 setter_defs in_window_def)
  then have r: "rep b h lo (xs @ (k, j2) # ys) l1"
    using d(5) by (simp add: rep_def l1 setter_defs start_append)
  have y: "sep (k + 1) (lo + sl_Size l) ys" using sep_mono [OF s(6), of "k + 1"] s(4) by simp
  have "{k..j2} = {k..e} \<union> {j..j2}" using j w by (auto simp: in_window_def)
  then show ?thesis
    using finish_good [OF r, of "xs @ (k, e) # ys" j j2 "sl_Length l" l] s y d(6) by (auto simp: l)
qed

text \<open>The node that starts at \<open>j\<close> already: in the middle of the list, and at its head.\<close>

lemma insert_same_start_ok:
  assumes g: "good b h lo (xs @ (j, e) # ys) l" and w: "in_window lo j j2 l"
  shows "inserted b h lo (xs @ (j, e) # ys) j j2 l (finish_insert (sl_Length l)
    (map_sum id (\<lambda>l1. (l1, place (sl_Size l) h j))
      (insert_same_start (seq_at b j) (seq_at b j2) (place (sl_Size l) h j) l)))"
proof -
  note f = window_facts [OF g w] and d = goodD [OF g]
  note s = sep_split [OF d(3)] and n = rep_node [OF d(1)]
  have c: "0 < seqcmp (seq_at b j2) (seq_at b e) \<longleftrightarrow> e < j2"
    "e < j2 \<Longrightarrow> seqlen (seq_at b e) (seq_at b j2) = j2 - e + 1"
    using f(1) [OF f(3) n(2)] f(1) [OF n(2) f(3)] by (simp_all add: seq.cmp_window_gt seq.len_window)
  let ?l = "l\<lparr>sl_LastInsertPos := place (sl_Size l) h j\<rparr>"
  show ?thesis
  proof (cases "e < j2")
    case True
    have "insert_same_start (seq_at b j) (seq_at b j2) (place (sl_Size l) h j) l =
      Inr (set_Data2 (place (sl_Size l) h j) (seq_at b j2) (add_Length (j2 - e) ?l))"
      using True n f c by (simp add: insert_same_start_def)
    then show ?thesis using extend_ok [OF g w order.refl n(3) True refl] by simp
  next
    case F: False
    show ?thesis
    proof (cases "e = j")
      case True
      then have jj: "j2 = j" using F w by (simp add: in_window_def)
      have st: "insert_same_start (seq_at b j) (seq_at b j2) (place (sl_Size l) h j) l = Inr ?l"
        using True n jj by (simp add: insert_same_start_def)
      have r: "rep b h lo (xs @ (j, e) # ys) ?l" using d(1) by (simp add: rep_def cells_def)
      show ?thesis
        using finish_good [OF r, of "xs @ (j, e) # ys" j j2 "sl_Length l" l] s d(6) st jj True
        by (auto simp: insert_absorb)
    next
      case False
      then have "insert_same_start (seq_at b j) (seq_at b j2) (place (sl_Size l) h j) l = Inl ?l"
        using n c F by (simp add: insert_same_start_def)
      moreover have "{j..j2} \<subseteq> covered (xs @ (j, e) # ys)" using F by auto
      ultimately show ?thesis using early_return [OF g, of j j j2 "sl_Length l"] by simp
    qed
  qed
qed

lemma insert_at_head_ok:
  assumes g: "good b h lo ((j, e) # ys) l" and w: "in_window lo j j2 l"
  shows "inserted b h lo ((j, e) # ys) j j2 l (finish_insert (sl_Length l)
    (map_sum id (\<lambda>l1. (l1, place (sl_Size l) h j))
      (insert_at_head (seq_at b j) (seq_at b j2) (place (sl_Size l) h j) l)))"
proof -
  have g': "good b h lo ([] @ (j, e) # ys) l" using g by simp
  note f = window_facts [OF g w] and d = goodD [OF g]
  note n = rep_node [OF goodD(1) [OF g']]
  have c: "0 < seqcmp (seq_at b j2) (seq_at b e) \<longleftrightarrow> e < j2"
    "e < j2 \<Longrightarrow> seqlen (seq_at b e) (seq_at b j2) = j2 - e + 1"
    using f(1) [OF f(3) n(2)] f(1) [OF n(2) f(3)] by (simp_all add: seq.cmp_window_gt seq.len_window)
  let ?l = "l\<lparr>sl_LastInsertPos := place (sl_Size l) h j\<rparr>"
  show ?thesis
  proof (cases "e < j2")
    case True
    have "insert_at_head (seq_at b j) (seq_at b j2) (place (sl_Size l) h j) l =
      Inr (set_Data2 (place (sl_Size l) h j) (seq_at b j2) (add_Length (j2 - e) ?l))"
      using True n f c d(5) by (simp add: insert_at_head_def)
    then show ?thesis using extend_ok [OF g' w order.refl n(3) True refl] by simp
  next
    case False
    then have "insert_at_head (seq_at b j) (seq_at b j2) (place (sl_Size l) h j) l = Inl ?l"
      using n f c w d(5) by (auto simp: insert_at_head_def in_window_def)
    moreover have "{j..j2} \<subseteq> covered ((j, e) # ys)" using False by auto
    ultimately show ?thesis using early_return [OF g, of j j j2 "sl_Length l"] by simp
  qed
qed

lemma insert_after_ok:
  assumes g: "good b h lo (us @ (k, e) # ws) l" and w: "in_window lo j j2 l"
    and k: "k < j" and ws: "\<forall>s\<in>starts ws. j < s"
  shows "inserted b h lo (us @ (k, e) # ws) j j2 l (finish_insert (sl_Length l)
    (insert_after (seq_at b j) (seq_at b j2) (place (sl_Size l) h j) (place (sl_Size l) h k) l))"
proof -
  let ?n = "sl_Size l" and ?ns = "us @ (k, e) # ws" and ?loc = "place (sl_Size l) h j"
  note f = window_facts [OF g w] and d = goodD [OF g]
  note s = sep_split [OF d(3)] and n = rep_node [OF d(1)]
  have c: "seqcmp (seq_at b e) (seq_at b j) < 0 \<longleftrightarrow> e < j" "seqcmp (seq_at b e) (seq_at b j2) < 0 \<longleftrightarrow> e < j2"
    "e < j2 \<Longrightarrow> seqlen (seq_at b e) (seq_at b j2) = j2 - e + 1"
    using f(1) [OF n(2) f(3)] f(1) [OF n(2) f(2)] f(1) [OF f(3) n(2)]
    by (simp_all add: seq.cmp_window_lt seq.len_window)
  have y: "sep (j + 1) (lo + ?n) ws"
  proof (cases ws)
    case (Cons x zs)
    then show ?thesis using s(6) ws by (cases x) simp
  qed simp
  have test: "- 1 = data2 l (place ?n h k) \<or> seqcmp (data2 l (place ?n h k)) (seq_at b j) < 0 \<longleftrightarrow> e < j"
    using n(5) k c(1) by (cases "e = k") auto
  show ?thesis
  proof (cases "e < j")
    case True
    let ?l = "add_Length (j2 - j + 1) (set_Next (place ?n h k) ?loc (set_Next ?loc (nextp l (place ?n h k))
      (put_node ?loc (seq_at b j) (seq_at b j2) (l\<lparr>sl_LastInsertPos := ?loc\<rparr>))))"
    have st: "insert_after (seq_at b j) (seq_at b j2) ?loc (place ?n h k) l = Inr (?l, ?loc)"
      using True f(4,5) unfolding insert_after_def test
      by (simp add: put_node_def setter_defs Let_def)
    have l: "sl_Size ?l = ?n" "sl_LastInsertPos ?l = ?loc" "sl_Head ?l = sl_Head l"
      "sl_Length ?l = sl_Length l + (j2 - j + 1)"
      "sl_Data1 ?l = aset (sl_Data1 l) ?loc (seq_at b j)"
      "sl_Data2 ?l = (if j2 = j then sl_Data2 l else aset (sl_Data2 l) ?loc (seq_at b j2))"
      "sl_Next ?l = aset (aset (sl_Next l) ?loc (start ?n h ws (- 1))) (place ?n h k) ?loc"
      using f(4) n(6) by (auto simp: put_node_def setter_defs Let_def)
    have ok: "nodes_ok lo (lo + ?n) ((us @ [(k, e)]) @ (j, j2) # ws)"
      using sep_nodes_ok [OF y] sep_nodes_ok [OF d(3)] w True s(3,4,5) k
      by (auto simp: nodes_ok_append in_window_def)
    have "cells b h lo ((us @ [(k, e)]) @ (j, j2) # ws) ?l"
      using d(2) ok by (intro cells_new [of b h lo "us @ [(k, e)]" ws l]) (simp_all add: l link_after_def)
    then have r: "rep b h lo ((us @ [(k, e)]) @ (j, j2) # ws) ?l"
      using d(5) by (simp add: rep_def l start_append)
    have e: "\<forall>(k', e')\<in>set (us @ [(k, e)]). e' < j" using s(2,4) True by fastforce
    have "covered ((us @ [(k, e)]) @ (j, j2) # ws) = covered ?ns \<union> {j..j2}" by auto
    then show ?thesis
      unfolding st using finish_good [OF r, of ?ns j j2 "sl_Length l" l] s(1-5) e y d(6)
      by (simp add: l sep_append)
  next
    case F: False
    show ?thesis
    proof (cases "e < j2")
      case True
      have "insert_after (seq_at b j) (seq_at b j2) ?loc (place ?n h k) l =
        Inr (set_Data2 (place ?n h k) (seq_at b j2) (add_Length (j2 - e) (l\<lparr>sl_LastInsertPos := place ?n h k\<rparr>)),
          place ?n h k)"
        using F True n(5) k c unfolding insert_after_def test by (auto simp: Let_def)
      then show ?thesis using extend_ok [OF g w _ _ True refl] k F by simp
    next
      case False
      have "insert_after (seq_at b j) (seq_at b j2) ?loc (place ?n h k) l =
        Inl (l\<lparr>sl_LastInsertPos := place ?n h k\<rparr>)"
        using F False n(5) k c unfolding insert_after_def test by (auto simp: Let_def)
      moreover have "{j..j2} \<subseteq> covered ?ns" using False k by auto
      ultimately show ?thesis using early_return [OF g, of k j j2 "sl_Length l"] by simp
    qed
  qed
qed

lemma start_split: "k \<in> starts ns \<Longrightarrow> \<exists>xs e ys. ns = xs @ (k, e) # ys"
  by (force dest: split_list)

text \<open>The search starts at a node that starts before \<open>j\<close>.\<close>

lemma search_start_ok:
  assumes g: "good b h lo ((k0, e0) # rest) l" and w: "in_window lo j j2 l" and j: "k0 < j"
  shows "\<exists>k\<in>starts ((k0, e0) # rest). k < j \<and> search_start (seq_at b j) l = place (sl_Size l) h k"
proof (cases "search_start (seq_at b j) l = sl_Head l")
  case True
  then show ?thesis using goodD(5) [OF g] j by auto
next
  case False
  then have s: "sl_LastInsertPos l \<noteq> - 1" "seqcmp (data1 l (sl_LastInsertPos l)) (seq_at b j) < 0"
    "search_start (seq_at b j) l = sl_LastInsertPos l"
    by (auto simp: search_start_def split: if_splits)
  then obtain k where k: "k \<in> starts ((k0, e0) # rest)" "sl_LastInsertPos l = place (sl_Size l) h k"
    using goodD(4) [OF g] by (auto simp: hint_ok_def)
  from start_split [OF k(1)] obtain xs e ys where "(k0, e0) # rest = xs @ (k, e) # ys" by auto
  then have r: "rep b h lo (xs @ (k, e) # ys) l" using goodD(1) [OF g] by simp
  have "k < j"
    using s(2) k(2) rep_node(4) [OF r] window_facts(1,2) [OF g w] rep_node(1) [OF r]
    by (simp add: seq.cmp_window_lt)
  with k s(3) show ?thesis by auto
qed

lemma insert_good:
  assumes g: "good b h lo ns l" and w: "in_window lo j j2 l" and ns: "ns \<noteq> []"
  shows "inserted b h lo ns j j2 l (CSndLossList_insert (seq_at b j) (seq_at b j2) l)"
proof -
  obtain k0 e0 rest where n: "ns = (k0, e0) # rest" using ns by (cases ns) auto
  let ?n = "sl_Size l"
  note d = goodD [OF g] and f = window_facts [OF g w]
  have g': "good b h lo ((k0, e0) # rest) l" and r0: "rep b h lo ([] @ (k0, e0) # rest) l"
    using g d(1) n by simp_all
  note n0 = rep_node [OF r0] and pos = cellsD(1) [OF d(2)]
  have len: "sl_Length l \<noteq> 0" using total_pos [OF repD(6) [OF d(1)]] d(6) ns by simp
  have off: "seqoff (seq_at b k0) (seq_at b j) = j - k0"
    using f(1) [OF f(2) n0(1)] by (rule seq.off_window)
  have hd: "data1 l (sl_Head l) = seq_at b k0" "sl_Head l = place ?n h k0" using n0(4) d(5) n by simp_all
  have loc: "(sl_Head l + (j - k0) + ?n) smod ?n = place ?n h j"
    using place_add [OF pos, of "j - k0" h k0] f(2) n0(1) hd by (simp add: win_def)
  have at: "seq_at b j = data1 l (place ?n h j) \<longleftrightarrow> j \<in> starts ns"
    using repD(10) [OF d(1) f(2)] map_of_eq_None_iff [of ns j] by (auto simp: cell1_def split: option.split)
  consider "j < k0" | "j = k0" | "k0 < j" "j \<in> starts ns" | "k0 < j" "j \<notin> starts ns" by linarith
  then show ?thesis
  proof cases
    case 1
    then show ?thesis using insert_before_head_ok [OF g' w] len hd(1) off loc n
      by (simp add: CSndLossList_insert_def Let_def)
  next
    case 2
    then show ?thesis using insert_at_head_ok [of b h lo j e0 rest l j2] g' w len hd(1) off loc n
      by (simp add: CSndLossList_insert_def Let_def)
  next
    case 3
    then obtain xs e ys where "ns = xs @ (j, e) # ys" using start_split by blast
    then show ?thesis
      using insert_same_start_ok [of b h lo xs j e ys l j2] g w len hd(1) off loc 3 at
      by (simp add: CSndLossList_insert_def Let_def)
  next
    case 4
    from search_start_ok [OF g' w 4(1)] obtain k where k: "k \<in> starts ns" "k < j"
      "search_start (seq_at b j) l = place ?n h k" using n by auto
    obtain xs e ys where sp: "ns = xs @ (k, e) # ys" using start_split [OF k(1)] by blast
    have "length ys < sl_fuel l"
      using nodes_ok_length [OF repD(6) [OF d(1)]] pos sp by (simp add: sl_fuel_def)
    from find_prior_spec [OF d(1) [unfolded sp] k(2) f(2) this] obtain us k' e' ws where
      u: "ns = us @ (k', e') # ws" "k' < j" "\<forall>s\<in>starts ws. j \<le> s"
        "find_prior (sl_fuel l) l (seq_at b j) (place ?n h k) = Some (place ?n h k')"
      using sp by auto
    have "j \<notin> starts ws" using u(1) 4(2) by (simp add: image_Un)
    with u(3) have "\<forall>s\<in>starts ws. j < s" by (metis order.not_eq_order_implies_strict)
    then show ?thesis
      using insert_after_ok [of b h lo us k' e' ws l j j2] g w len hd(1) off loc 4 at u k(3)
      by (simp add: CSndLossList_insert_def Let_def)
  qed
qed

lemma insert_empty_good:
  assumes g: "good b h lo [] l" and w: "in_window lo j j2 l"
  shows "inserted b (- j) lo [] j j2 l (CSndLossList_insert (seq_at b j) (seq_at b j2) l)"
proof -
  let ?l = "insert_empty (seq_at b j) (seq_at b j2) l"
  note d = goodD [OF g] and f = window_facts [OF g w]
  have p: "place (sl_Size l) (- j) j = 0" by (simp add: place_def)
  have l: "sl_Size ?l = sl_Size l" "sl_LastInsertPos ?l = 0" "sl_Head ?l = 0"
    "sl_Length ?l = sl_Length l + (j2 - j + 1)" "sl_Data1 ?l = aset (sl_Data1 l) 0 (seq_at b j)"
    "sl_Data2 ?l = (if j2 = j then sl_Data2 l else aset (sl_Data2 l) 0 (seq_at b j2))"
    "sl_Next ?l = aset (sl_Next l) 0 (- 1)"
    using f(4,5) by (auto simp: insert_empty_def put_node_def setter_defs Let_def)
  have "cells b (- j) lo ([] @ (j, j2) # []) ?l"
    using w cells_empty_any [OF d(2)]
    by (intro cells_new [of b "- j" lo "[]" "[]" l]) (auto simp: l link_after_def in_window_def p)
  then have "good b (- j) lo [(j, j2)] ?l"
    using w by (simp add: good_def rep_def hint_ok_def l p in_window_def)
  then show ?thesis
    using d(6) unfolding inserted_def
    by (intro exI [of _ "sl_Length ?l"] exI [of _ ?l] exI [of _ "[(j, j2)]"])
      (simp add: CSndLossList_insert_def l Let_def)
qed

end
