(* ===== verification/SndLossRemove.thy ===== *)
theory SndLossRemove imports SndLossInsert begin

text \<open>
  \<open>CSndLossList::remove\<close> and \<open>getLostSeq\<close> on the interval list: the node that contains the
  bound is split, and every node up to it is dropped.
\<close>

section \<open>Splitting a node\<close>

lemma cells_split:
  assumes c: "cells b h lo (xs @ (k, e) # ys) l" and j: "k \<le> j" "j < e"
    and l': "sl_Size l' = sl_Size l" "sl_Length l' = sl_Length l"
      "sl_Data1 l' = aset (sl_Data1 l) (place (sl_Size l) h (j + 1)) (seq_at b (j + 1))"
      "sl_Data2 l' = aset (if e = j + 1 then sl_Data2 l
          else aset (sl_Data2 l) (place (sl_Size l) h (j + 1)) (seq_at b e))
        (place (sl_Size l) h k) (if j = k then - 1 else seq_at b j)"
      "sl_Next l' = aset (aset (sl_Next l) (place (sl_Size l) h (j + 1)) (start (sl_Size l) h ys (- 1)))
        (place (sl_Size l) h k) (place (sl_Size l) h (j + 1))"
    and sep: "sep lo (lo + sl_Size l) (xs @ (k, e) # ys)"
  shows "cells b h lo (xs @ (k, j) # (j + 1, e) # ys) l'"
proof -
  let ?l1 = "set_Data2 (place (sl_Size l) h k) (if j = k then - 1 else seq_at b j) (add_Length (j - e) l)"
  note d = cellsD [OF c] and s = sep_split [OF sep]
  have "cells b h lo (xs @ (k, j) # ys) ?l1"
    using j s by (intro cells_resize [OF c, of j]) (auto simp: setter_defs)
  then have c1: "cells b h lo ((xs @ [(k, j)]) @ ys) ?l1" by simp
  have "place (sl_Size l) h k \<noteq> place (sl_Size l) h (j + 1)"
    using j s(3-5) d(1) place_eq_iff [of k "j + 1" "sl_Size l" h] by simp
  then have sw: "aset (aset D (place (sl_Size l) h (j + 1)) v) (place (sl_Size l) h k) w =
      aset (aset D (place (sl_Size l) h k) w) (place (sl_Size l) h (j + 1)) v" for D :: "int list" and v w
    using place_range [OF d(1)] by (intro aset_swap) auto
  have "nodes_ok (j + 1 + 1) (lo + sl_Size l) ys" "\<forall>s\<in>starts xs. s < k"
    using nodes_ok_mono [OF sep_nodes_ok [OF s(6)], of "j + 1 + 1" "lo + sl_Size l"] j
      sep_nodes_ok [OF sep] by (simp_all add: nodes_ok_append)
  then have ok: "nodes_ok lo (lo + sl_Size ?l1) ((xs @ [(k, j)]) @ (j + 1, e) # ys)"
    using j s(3-5) sep_nodes_ok [OF s(1)] by (simp add: nodes_ok_append setter_defs image_Un ball_Un)
  have "cells b h lo ((xs @ [(k, j)]) @ (j + 1, e) # ys) l'"
    by (rule cells_new [OF c1 ok]) (use l' sw in \<open>auto simp: setter_defs link_after_def\<close>)
  then show ?thesis by simp
qed

section \<open>Dropping nodes from the front\<close>

lemma drop_nodes_spec:
  assumes "cells b h lo (zs @ ns) l" "sl_Head l = start (sl_Size l) h ns (- 1)" "length zs < f"
  shows "\<exists>l'. drop_nodes f (start (sl_Size l) h (zs @ ns) (- 1)) l = Some l' \<and> cells b h lo ns l' \<and>
    sl_Size l' = sl_Size l \<and> sl_Head l' = sl_Head l \<and>
    sl_LastInsertPos l' = (if \<exists>k\<in>starts zs. sl_LastInsertPos l = place (sl_Size l) h k
      then - 1 else sl_LastInsertPos l)"
  using assms
proof (induction zs arbitrary: l f)
  case Nil
  then obtain f' where "f = Suc f'" by (cases f) auto
  with Nil show ?case by simp
next
  case (Cons z zs)
  obtain k e where z: "z = (k, e)" by fastforce
  obtain f' where f: "f = Suc f'" using Cons.prems(3) by (cases f) auto
  have c: "cells b h lo ([] @ (k, e) # (zs @ ns)) l" using Cons.prems(1) z by simp
  then have r: "rep b h lo ([] @ (k, e) # (zs @ ns)) (l\<lparr>sl_Head := place (sl_Size l) h k\<rparr>)"
    by (simp add: rep_def cells_def)
  note d = cellsD [OF c] and n = rep_node [OF r]
  note keys = nodes_ok_keys [OF d(6)]
  have hd: "place (sl_Size l) h k \<noteq> sl_Head l"
  proof (cases ns)
    case Nil
    then show ?thesis using Cons.prems(2) d(1) by simp
  next
    case (Cons m ms)
    then have "fst m \<noteq> k" "win (sl_Size l) lo (fst m)"
      using keys(2) keys(8) [of "fst m"] by (auto simp: win_def)
    then have "place (sl_Size l) h k \<noteq> place (sl_Size l) h (fst m)"
      using n(1) place_inj [of "sl_Size l" lo k "fst m" h] by auto
    then show ?thesis using Cons.prems(2) Cons by (cases m) simp
  qed
  have ln: "e \<noteq> k \<Longrightarrow> seqlen (seq_at b k) (seq_at b e) = e - k + 1"
    using d(1,2) n(1-3) by (intro seq.len_window) (auto simp: win_def)
  let ?h = "place (sl_Size l) h k"
  let ?l = "let l = (if data2 l ?h \<noteq> - 1
                 then set_Data2 ?h (- 1) (add_Length (- seqlen (data1 l ?h) (data2 l ?h)) l)
                 else add_Length (- 1) l);
            l = set_Data1 ?h (- 1) l
        in if sl_LastInsertPos l = ?h then l\<lparr>sl_LastInsertPos := - 1\<rparr> else l"
  have l: "sl_Size ?l = sl_Size l" "sl_Head ?l = sl_Head l"
    "sl_LastInsertPos ?l = (if sl_LastInsertPos l = ?h then - 1 else sl_LastInsertPos l)"
    "sl_Next ?l = sl_Next l" "sl_Data1 ?l = aset (sl_Data1 l) ?h (- 1)"
    "sl_Data2 ?l = (if e = k then sl_Data2 l else aset (sl_Data2 l) ?h (- 1))"
    "sl_Length ?l = sl_Length l - (e - k + 1)"
    using n(4,5) ln by (auto simp: setter_defs Let_def)
  have step: "drop_nodes f ?h l = drop_nodes f' (start (sl_Size ?l) h (zs @ ns) (- 1)) ?l"
    using hd n(6) f l(1,4) by (simp add: Let_def)
  have cells: "cells b h lo (zs @ ns) ?l"
    by (rule cells_drop [of b h lo k e "zs @ ns" l]) (use c l in simp_all)
  have hd': "sl_Head ?l = start (sl_Size ?l) h ns (- 1)" using Cons.prems(2) l(1,2) by simp
  have len': "length zs < f'" using Cons.prems(3) f by simp
  have lip: "(if \<exists>k\<in>starts zs. sl_LastInsertPos ?l = place (sl_Size ?l) h k then - 1 else sl_LastInsertPos ?l) =
    (if \<exists>k\<in>starts (z # zs). sl_LastInsertPos l = place (sl_Size l) h k then - 1 else sl_LastInsertPos l)"
    using d(1) unfolding l(1,3) z by auto
  have goal: "\<exists>l'. drop_nodes f ?h l = Some l' \<and> cells b h lo ns l' \<and> sl_Size l' = sl_Size l \<and>
      sl_Head l' = sl_Head l \<and> sl_LastInsertPos l' =
    (if \<exists>k\<in>starts (z # zs). sl_LastInsertPos l = place (sl_Size l) h k then - 1 else sl_LastInsertPos l)"
    using Cons.IH [OF cells hd' len', unfolded lip, unfolded l(1,2)] unfolding step l(1) .
  then show ?case by (simp only: z append_Cons start.simps)
qed

lemma drop_good:
  assumes c: "cells b h lo (zs @ ns) l" and hd: "sl_Head l = start (sl_Size l) h ns (- 1)"
    and hint: "hint_ok h (zs @ ns) l" and s: "sep lo (lo + sl_Size l) ns"
    and st: "h0 = start (sl_Size l) h (zs @ ns) (- 1)" and sz: "sl_Size l0 = sl_Size l"
  shows "\<exists>l'. drop_nodes (sl_fuel l0) h0 l = Some l' \<and> good b h lo ns l' \<and> sl_Size l' = sl_Size l"
proof -
  note d = cellsD [OF c]
  have "length zs < sl_fuel l0"
    using nodes_ok_length [OF d(6)] d(1) sz by (simp add: sl_fuel_def)
  from drop_nodes_spec [OF c hd this] obtain l' where l':
    "drop_nodes (sl_fuel l0) h0 l = Some l'" "cells b h lo ns l'" "sl_Size l' = sl_Size l"
    "sl_Head l' = sl_Head l" "sl_LastInsertPos l' =
      (if \<exists>k\<in>starts zs. sl_LastInsertPos l = place (sl_Size l) h k then - 1 else sl_LastInsertPos l)"
    unfolding st by auto
  have "hint_ok h ns l'" using hint l'(3,5) by (auto simp: hint_ok_def split: if_splits)
  with l' hd s show ?thesis by (auto simp: good_def rep_def)
qed

section \<open>The head node\<close>

text \<open>The first sequence number leaves the head node.\<close>

lemma remove_head_good:
  assumes g: "good b h lo ((k, e) # ys) l"
  shows "good b h lo (if e = k then ys else (k + 1, e) # ys)
      (remove_head (seq_at b k) (place (sl_Size l) h k) l) \<and>
    sl_Size (remove_head (seq_at b k) (place (sl_Size l) h k) l) = sl_Size l"
proof -
  note d = goodD [OF g]
  note c = cellsD [OF d(2)]
  have r: "rep b h lo ([] @ (k, e) # ys) l" using d(1) by simp
  note n = rep_node [OF r]
  have s: "lo \<le> k" "k \<le> e" "e < lo + sl_Size l" "sep (e + 1) (lo + sl_Size l) ys"
    using d(3) by simp_all
  let ?h = "place (sl_Size l) h k" and ?loc = "place (sl_Size l) h (k + 1)"
  let ?l = "remove_head (seq_at b k) ?h l"
  have loc: "(?h + 1) smod sl_Size l = ?loc" using place_add_nonneg [OF c(1), of 1 h k] by simp
  have hd: "sl_Head l = ?h" using d(5) by simp
  have hint: "hint_ok h ns' ?l" if "starts ys \<subseteq> starts ns'" "sl_Size ?l = sl_Size l"
    "sl_LastInsertPos ?l = (if sl_LastInsertPos l = ?h then - 1 else sl_LastInsertPos l)" for ns'
  proof -
    consider "sl_LastInsertPos l = - 1" | "sl_LastInsertPos l = ?h"
      | k' where "k' \<in> starts ys" "sl_LastInsertPos l = place (sl_Size l) h k'"
      using d(4) by (auto simp: hint_ok_def)
    then show ?thesis
    proof cases
      case (3 k')
      then have "k' \<in> starts ns'" using that(1) by blast
      then show ?thesis unfolding hint_ok_def that(2,3) 3(2) by metis
    qed (use that in \<open>simp_all add: hint_ok_def\<close>)
  qed
  show ?thesis
  proof (cases "e = k")
    case True
    have l: "sl_Size ?l = sl_Size l" "sl_Head ?l = start (sl_Size l) h ys (- 1)" "sl_Next ?l = sl_Next l"
      "sl_LastInsertPos ?l = (if sl_LastInsertPos l = ?h then - 1 else sl_LastInsertPos l)"
      "sl_Data1 ?l = aset (sl_Data1 l) ?h (- 1)" "sl_Data2 ?l = sl_Data2 l" "sl_Length ?l = sl_Length l - 1"
      using True n hd by (auto simp: remove_head_def setter_defs Let_def)
    have "cells b h lo ys ?l" by (rule cells_drop [OF d(2)]) (simp_all add: l True)
    then show ?thesis
      using True l hint [of ys] sep_mono [OF s(4), of lo] s(1,2) by (simp add: good_def rep_def)
  next
    case False
    then have ke: "k < e" using s(2) by simp
    have neq: "?h \<noteq> ?loc" using place_eq_iff [of k "k + 1" "sl_Size l" h] s ke by simp
    have cmp: "seqcmp (seq_at b e) (seq_at b (k + 1)) > 0 \<longleftrightarrow> k + 1 < e"
      using c(2) s ke by (simp add: seq.cmp_window_gt)
    have "0 \<le> ?h" "0 \<le> ?loc" using place_range [OF c(1)] by auto
    note other = aget_aset_other [OF neq [symmetric] this(2,1)]
    have l: "sl_Size ?l = sl_Size l" "sl_Head ?l = ?loc"
      "sl_Next ?l = aset (sl_Next l) ?loc (start (sl_Size l) h ys (- 1))"
      "sl_LastInsertPos ?l = (if sl_LastInsertPos l = ?h then - 1 else sl_LastInsertPos l)"
      "sl_Data1 ?l = aset (aset (sl_Data1 l) ?loc (seq_at b (k + 1))) ?h (- 1)"
      "sl_Data2 ?l = aset (if e = k + 1 then sl_Data2 l else aset (sl_Data2 l) ?loc (seq_at b e)) ?h (- 1)"
      "sl_Length ?l = sl_Length l - 1"
      using False n hd loc ke cmp other
      by (auto simp: remove_head_def setter_defs Let_def seq.inc_window)
    let ?l1 = "add_Length (- (e - k + 1)) (set_Data2 ?h (- 1) (set_Data1 ?h (- 1) l))"
    have c1: "cells b h lo ([] @ ys) ?l1"
      using cells_drop [OF d(2), of ?l1] False by (simp add: setter_defs)
    have "nodes_ok (k + 1 + 1) (lo + sl_Size l) ys"
      using nodes_ok_mono [OF sep_nodes_ok [OF s(4)], of "k + 1 + 1"] ke by simp
    then have ok: "nodes_ok lo (lo + sl_Size ?l1) ([] @ (k + 1, e) # ys)"
      using s(1-3) ke by (simp add: setter_defs)
    have sw: "aset (aset D ?loc v) ?h w = aset (aset D ?h w) ?loc v" for D :: "int list" and v w
      using neq place_range [OF c(1)] by (intro aset_swap) auto
    have "cells b h lo ([] @ (k + 1, e) # ys) ?l"
      by (rule cells_new [OF c1 ok]) (use l sw in \<open>auto simp: setter_defs link_after_def\<close>)
    then show ?thesis
      using False l(1,2,4) hint [of "(k + 1, e) # ys"] s ke by (auto simp: good_def rep_def)
  qed
qed

text \<open>\<open>getLostSeq\<close> is \<open>remove\<close> of the head's first sequence number.\<close>

lemma getLostSeq_head:
  assumes g: "good b h lo ((k, e) # ys) l"
  shows "CSndLossList_getLostSeq l = (seq_at b k, remove_head (seq_at b k) (place (sl_Size l) h k) l)"
proof -
  note d = goodD [OF g]
  note c = cellsD [OF d(2)]
  have r: "rep b h lo ([] @ (k, e) # ys) l" using d(1) by simp
  note n = rep_node [OF r]
  have s: "lo \<le> k" "k \<le> e" "e < lo + sl_Size l" using d(3) by simp_all
  let ?h = "place (sl_Size l) h k" and ?loc = "place (sl_Size l) h (k + 1)"
  have loc: "(?h + 1) smod sl_Size l = ?loc" using place_add_nonneg [OF c(1), of 1 h k] by simp
  have len: "sl_Length l \<noteq> 0" using total_pos [OF c(6)] c(8) by simp
  have in1: "inb (sl_Data1 l) ?loc" using inb_place [OF c(1,3)] .
  show ?thesis
  proof (cases "e = k")
    case True
    then show ?thesis using n d(5) len
      by (simp add: CSndLossList_getLostSeq_def remove_head_def setter_defs Let_def)
  next
    case False
    have "?h \<noteq> ?loc" using place_eq_iff [of k "k + 1" "sl_Size l" h] s False by simp
    moreover have "0 \<le> ?h" "0 \<le> ?loc" using place_range [OF c(1)] by auto
    ultimately show ?thesis using n d(5) len loc False in1
      by (simp add: CSndLossList_getLostSeq_def remove_head_def setter_defs Let_def)
  qed
qed

section \<open>remove\<close>

definition removed :: "int \<Rightarrow> int \<Rightarrow> int \<Rightarrow> node list \<Rightarrow> int \<Rightarrow> CSndLossList \<Rightarrow> CSndLossList option \<Rightarrow> bool" where
  "removed b h lo ns j l res \<longleftrightarrow>
     (\<exists>l' ns'. res = Some l' \<and> good b h lo ns' l' \<and> covered ns' = {x \<in> covered ns. j < x} \<and>
        sl_Size l' = sl_Size l)"

lemma sep_covered_above:
  assumes "sep lo hi (xs @ (k, e) # ys)" "k \<le> j" "\<forall>s\<in>starts ys. j < s"
  shows "{x \<in> covered (xs @ (k, e) # ys). j < x} = {j + 1..e} \<union> covered ys"
proof -
  note s = sep_split [OF assms(1)]
  have "x < k" if "x \<in> covered xs" for x using that s(2) by (fastforce simp: covered_def)
  moreover have "j < x" if "x \<in> covered ys" for x
    using that assms(3) nodes_ok_bounds [OF sep_nodes_ok [OF s(6)]] by (fastforce simp: covered_def)
  ultimately show ?thesis using assms(2) s(4) by fastforce
qed

text \<open>Everything up to the node \<open>(k, e)\<close>, where \<open>k \<le> j\<close>, goes; what lies above \<open>j\<close> stays.\<close>

lemma drop_through:
  assumes g: "good b h lo (xs @ (k, e) # ys) l" and j: "k \<le> j" "e \<le> j" and ys: "\<forall>s\<in>starts ys. j < s"
  shows "removed b h lo (xs @ (k, e) # ys) j l
    (drop_nodes (sl_fuel l) (sl_Head l) (l\<lparr>sl_Head := nextp l (place (sl_Size l) h k)\<rparr>))"
proof -
  note d = goodD [OF g]
  note s = sep_split [OF d(3)] and n = rep_node [OF d(1)]
  let ?l = "l\<lparr>sl_Head := nextp l (place (sl_Size l) h k)\<rparr>"
  have "cells b h lo ((xs @ [(k, e)]) @ ys) ?l" using d(2) by (simp add: cells_def)
  moreover have "hint_ok h ((xs @ [(k, e)]) @ ys) ?l" using d(4) by (simp add: hint_ok_def)
  moreover have "sep lo (lo + sl_Size ?l) ys" using sep_mono [OF s(6), of lo] s(3,4) by simp
  ultimately have "\<exists>l'. drop_nodes (sl_fuel l) (sl_Head l) ?l = Some l' \<and> good b h lo ys l' \<and> sl_Size l' = sl_Size ?l"
    using n(6) d(5) by (intro drop_good [of b h lo "xs @ [(k, e)]"]) simp_all
  then show ?thesis
    using sep_covered_above [OF d(3) j(1) ys] j(2) by (auto simp: removed_def)
qed

lemma drop_split:
  assumes g: "good b h lo (xs @ (k, e) # ys) l" and j: "k \<le> j" "j < e"
    and l1: "sl_Size l1 = sl_Size l" "sl_Length l1 = sl_Length l" "sl_LastInsertPos l1 = sl_LastInsertPos l"
      "sl_Head l1 = place (sl_Size l) h (j + 1)"
      "sl_Data1 l1 = aset (sl_Data1 l) (place (sl_Size l) h (j + 1)) (seq_at b (j + 1))"
      "sl_Data2 l1 = aset (if e = j + 1 then sl_Data2 l
          else aset (sl_Data2 l) (place (sl_Size l) h (j + 1)) (seq_at b e))
        (place (sl_Size l) h k) (if j = k then - 1 else seq_at b j)"
      "sl_Next l1 = aset (aset (sl_Next l) (place (sl_Size l) h (j + 1)) (start (sl_Size l) h ys (- 1)))
        (place (sl_Size l) h k) (place (sl_Size l) h (j + 1))"
  shows "removed b h lo (xs @ (k, e) # ys) j l (drop_nodes (sl_fuel l) (sl_Head l) l1)"
proof -
  note d = goodD [OF g]
  note s = sep_split [OF d(3)]
  have "cells b h lo ((xs @ [(k, j)]) @ (j + 1, e) # ys) l1"
    using cells_split [OF d(2) j l1(1,2,5,6,7) d(3)] by simp
  moreover have "hint_ok h ((xs @ [(k, j)]) @ (j + 1, e) # ys) l1"
    using d(4) l1 by (auto simp: hint_ok_def)
  moreover have "sep lo (lo + sl_Size l1) ((j + 1, e) # ys)" using s j l1(1) by simp
  ultimately have "\<exists>l'. drop_nodes (sl_fuel l) (sl_Head l) l1 = Some l' \<and>
      good b h lo ((j + 1, e) # ys) l' \<and> sl_Size l' = sl_Size l1"
    using d(5) l1 by (intro drop_good [of b h lo "xs @ [(k, j)]"]) (simp_all add: start_append)
  moreover have "\<forall>s\<in>starts ys. j < s"
    using nodes_ok_starts [OF sep_nodes_ok [OF s(6)]] j by fastforce
  then have "covered ((j + 1, e) # ys) = {x \<in> covered (xs @ (k, e) # ys). j < x}"
    using sep_covered_above [OF d(3) j(1)] by simp
  ultimately show ?thesis unfolding removed_def l1(1) by blast
qed

lemma remove_good:
  assumes g: "good b h lo ns l" and w: "win (sl_Size l) lo j"
  shows "removed b h lo ns j l (CSndLossList_remove (seq_at b j) l)"
proof (cases ns)
  case Nil
  then have "CSndLossList_remove (seq_at b j) l = Some l"
    using goodD(6) [OF g] by (simp add: CSndLossList_remove_def)
  then show ?thesis
    unfolding removed_def using g Nil by (intro exI [of _ l] exI [of _ ns]) simp
next
  case (Cons m rest)
  obtain k0 e0 where n: "ns = (k0, e0) # rest" using Cons by (cases m) auto
  let ?n = "sl_Size l"
  note d = goodD [OF g]
  have iw: "in_window lo j j l" using w by (simp add: in_window_def win_def)
  note f = window_facts [OF g iw]
  have r0: "rep b h lo ([] @ (k0, e0) # rest) l" using d(1) n by simp
  note n0 = rep_node [OF r0] and pos = cellsD(1) [OF d(2)]
  have len: "sl_Length l \<noteq> 0" using total_pos [OF repD(6) [OF d(1)]] d(6) n by simp
  have off: "seqoff (seq_at b k0) (seq_at b j) = j - k0"
    using f(1) [OF f(2) n0(1)] by (rule seq.off_window)
  have hd: "data1 l (sl_Head l) = seq_at b k0" "sl_Head l = place ?n h k0" using n0(4) d(5) n by simp_all
  have loc: "(sl_Head l + (j - k0) + ?n) smod ?n = place ?n h j"
    using place_add [OF pos, of "j - k0" h k0] f(2) n0(1) hd by (simp add: win_def)
  have loc1: "(place ?n h j + 1) smod ?n = place ?n h (j + 1)"
    using place_add_nonneg [OF pos, of 1 h j] by simp
  have at: "seq_at b j = data1 l (place ?n h j) \<longleftrightarrow> j \<in> starts ns"
    using repD(10) [OF d(1) f(2)] map_of_eq_None_iff [of ns j] by (auto simp: cell1_def split: option.split)
  have cmp: "seqcmp (seq_at b e) (seq_at b (j + 1)) > 0 \<longleftrightarrow> j + 1 < e" if "win ?n lo e" for e
  proof -
    have "\<bar>e - (j + 1)\<bar> < m_iSeqNoTH" using f(2) that cellsD(1,2) [OF d(2)] unfolding win_def by linarith
    then show ?thesis by (rule seq.cmp_window_gt)
  qed
  consider "j < k0" | "j = k0" | "k0 < j" "j \<in> starts ns" | "k0 < j" "j \<notin> starts ns" by linarith
  then show ?thesis
  proof cases
    case 1
    then have "CSndLossList_remove (seq_at b j) l = Some l"
      using len hd(1) off by (simp add: CSndLossList_remove_def Let_def)
    moreover have "sep k0 (lo + ?n) ns" using d(3) n by simp
    then have "\<forall>x\<in>covered ns. j < x" using covered_bounds [OF sep_nodes_ok] 1 by (meson less_le_trans)
    ultimately show ?thesis unfolding removed_def using g by (intro exI [of _ l] exI [of _ ns]) auto
  next
    case 2
    have rm: "CSndLossList_remove (seq_at b j) l = Some (remove_head (seq_at b k0) (place ?n h k0) l)"
      using 2 len hd(1) off loc by (simp add: CSndLossList_remove_def Let_def)
    have rest: "\<forall>s\<in>starts rest. j < s"
    proof -
      have "sep (e0 + 1) (lo + ?n) rest" "j \<le> e0" using d(3) n 2 by simp_all
      then show ?thesis using nodes_ok_starts [OF sep_nodes_ok] by (metis zless_add1_eq order.strict_trans2 not_less)
    qed
    have "{x \<in> covered ns. j < x} = {j + 1..e0} \<union> covered rest"
      using sep_covered_above [of lo "lo + ?n" "[]" k0 e0 rest j] d(3) n 2 rest by simp
    then show ?thesis
      unfolding removed_def rm using remove_head_good [of b h lo k0 e0 rest l] g n 2
      by (intro exI [of _ "remove_head (seq_at b k0) (place ?n h k0) l"]
          exI [of _ "if e0 = k0 then rest else (k0 + 1, e0) # rest"]) auto
  next
    case 3
    then obtain xs e ys where sp: "ns = xs @ (j, e) # ys" using start_split by blast
    have g': "good b h lo (xs @ (j, e) # ys) l" using g sp by simp
    note nd = rep_node [OF goodD(1) [OF g']] and s = sep_split [OF goodD(3) [OF g']]
    have ys: "\<forall>s\<in>starts ys. j < s" using nodes_ok_starts [OF sep_nodes_ok [OF s(6)]] s(4) by fastforce
    have rm: "CSndLossList_remove (seq_at b j) l =
      drop_nodes (sl_fuel l) (sl_Head l) (remove_at_node (seq_at b j) (place ?n h j) l)"
      using 3 len hd(1) off loc at by (simp add: CSndLossList_remove_def Let_def)
    show ?thesis
    proof (cases "e = j")
      case True
      have "remove_at_node (seq_at b j) (place ?n h j) l = l\<lparr>sl_Head := nextp l (place ?n h j)\<rparr>"
        using True nd by (simp add: remove_at_node_def Let_def)
      then show ?thesis unfolding rm sp using drop_through [OF g' order.refl _ ys] True by simp
    next
      case False
      then have je: "j < e" using s(4) by simp
      have "place ?n h j \<noteq> place ?n h (j + 1)" using place_eq_iff [of j "j + 1" ?n h] s je by simp
      moreover have "0 \<le> place ?n h j" "0 \<le> place ?n h (j + 1)" using place_range [OF pos] by auto
      moreover have "inb (sl_Data1 l) (place ?n h (j + 1))" using inb_place [OF pos repD(3) [OF d(1)]] .
      ultimately show ?thesis
        unfolding rm sp using nd je loc1 cmp [OF nd(2)] False
        by (intro drop_split [OF g' order.refl je])
          (auto simp: remove_at_node_def setter_defs Let_def seq.inc_window)
    qed
  next
    case 4
    have "length rest < sl_fuel l"
      using nodes_ok_length [OF repD(6) [OF d(1)]] pos n by (simp add: sl_fuel_def)
    from find_prior_spec [OF r0 4(1) f(2) this] obtain xs k e ys where
      u: "ns = xs @ (k, e) # ys" "k < j" "\<forall>s\<in>starts ys. j \<le> s"
        "find_prior (sl_fuel l) l (seq_at b j) (sl_Head l) = Some (place ?n h k)"
      using n hd(2) by auto
    have "j \<notin> starts ys" using u(1) 4(2) by (simp add: image_Un)
    with u(3) have ys: "\<forall>s\<in>starts ys. j < s" by (metis order.not_eq_order_implies_strict)
    have g': "good b h lo (xs @ (k, e) # ys) l" using g u by simp
    note nd = rep_node [OF goodD(1) [OF g']] and s = sep_split [OF goodD(3) [OF g']]
    have rm: "CSndLossList_remove (seq_at b j) l =
      drop_nodes (sl_fuel l) (sl_Head l) (remove_in_gap (seq_at b j) (place ?n h j) (place ?n h k) l)"
      using 4 len hd(1) off loc at u(4) by (simp add: CSndLossList_remove_def Let_def)
    have ce: "seqcmp (seq_at b e) (seq_at b j) > 0 \<longleftrightarrow> j < e"
      using f(1) [OF nd(2) f(2)] by (simp add: seq.cmp_window_gt)
    show ?thesis
    proof (cases "e \<le> j")
      case True
      have "remove_in_gap (seq_at b j) (place ?n h j) (place ?n h k) l = l\<lparr>sl_Head := nextp l (place ?n h k)\<rparr>"
        using True nd ce by (simp add: remove_in_gap_def Let_def)
      then show ?thesis unfolding rm u(1) using drop_through [OF g' _ True ys] u(2) by simp
    next
      case False
      then have je: "k \<le> j" "j < e" using u(2) by simp_all
      have "place ?n h k \<noteq> place ?n h (j + 1)" using place_eq_iff [of k "j + 1" ?n h] s je by simp
      moreover have "0 \<le> place ?n h k" "0 \<le> place ?n h (j + 1)" using place_range [OF pos] by auto
      moreover have "inb (sl_Data1 l) (place ?n h (j + 1))" using inb_place [OF pos repD(3) [OF d(1)]] .
      ultimately show ?thesis
        unfolding rm u(1) using nd je loc1 cmp [OF nd(2)] ce u(2)
        by (intro drop_split [OF g' je])
          (auto simp: remove_in_gap_def setter_defs Let_def seq.inc_window)
    qed
  qed
qed

end
