(* ===== verification/SndLossSpec.thy ===== *)
theory SndLossSpec imports SndLossRemove begin

text \<open>
  What the sender's loss list promises to its client, stated over the set of sequence numbers
  its arrays hold. \<open>lost_set\<close> reads the arrays; the interval lists of \<open>SndLossProofs\<close> only
  occur in the proofs. The locale \<open>loss_set\<close> is the interface the connection uses, and it is
  interpreted on the operations of \<open>SndLossList\<close>.
\<close>

section \<open>The set a list holds\<close>

definition node_last :: "CSndLossList \<Rightarrow> int \<Rightarrow> int32" where
  "node_last l i = (if data2 l i = - 1 then data1 l i else data2 l i)"

definition lost_set :: "CSndLossList \<Rightarrow> int32 set" where
  "lost_set l = (\<Union>i\<in>{i\<in>{0..<sl_Size l}. data1 l i \<noteq> - 1}. seq_range (data1 l i) (node_last l i))"

definition CSndLossList_inv :: "CSndLossList \<Rightarrow> bool" where
  "CSndLossList_inv l \<longleftrightarrow> (\<exists>b h lo ns. good b h lo ns l)"

text \<open>All sequence numbers of \<open>S\<close> lie in one window of \<open>n\<close> consecutive ones: what flow control
  guarantees of the packets in flight.\<close>

definition fits_window :: "int \<Rightarrow> int32 set \<Rightarrow> bool" where
  "fits_window n S \<longleftrightarrow> (\<exists>w. valid_seq w \<and> (\<forall>s\<in>S. valid_seq s \<and> 0 \<le> seqoff w s \<and> seqoff w s < n))"

lemma window_fits:
  assumes "X \<subseteq> {p..<p + n}" "n < m_iSeqNoTH"
  shows "fits_window n (seq_at a ` X)"
proof -
  have "0 \<le> seqoff (seq_at a p) (seq_at a x) \<and> seqoff (seq_at a p) (seq_at a x) < n" if "x \<in> X" for x
    using that assms seq.off_window [of x p a] by auto
  then show ?thesis unfolding fits_window_def by (intro exI [of _ "seq_at a p"]) auto
qed

lemma in_window_near: "X \<subseteq> {p..<q} \<Longrightarrow> x \<in> X \<Longrightarrow> p \<le> i \<Longrightarrow> i < q \<Longrightarrow> q - p < n \<Longrightarrow> \<bar>i - x\<bar> < (n::int)"
proof -
  assume "X \<subseteq> {p..<q}" "x \<in> X" "p \<le> i" "i < q" "q - p < n"
  moreover from this have "p \<le> x" "x < q" by auto
  ultimately show ?thesis by linarith
qed

lemma lost_set_good:
  assumes g: "good b h lo ns l"
  shows "lost_set l = seq_at b ` covered ns"
proof -
  note d = goodD [OF g]
  note c = cellsD [OF d(2)]
  have node: "data1 l (place (sl_Size l) h k) = seq_at b k"
      "seq_range (data1 l (place (sl_Size l) h k)) (node_last l (place (sl_Size l) h k)) = seq_at b ` {k..e}"
    if ke: "(k, e) \<in> set ns" for k e
  proof -
    obtain xs ys where "ns = xs @ (k, e) # ys" using split_list [OF ke] by blast
    then have r: "rep b h lo (xs @ (k, e) # ys) l" using d(1) by simp
    note n = rep_node [OF r]
    have "node_last l (place (sl_Size l) h k) = seq_at b e"
      using n(4,5) by (simp add: node_last_def)
    moreover have "e - k < m_iSeqNoTH"
      using n(1,2) c(1,2) unfolding win_def by linarith
    ultimately show "data1 l (place (sl_Size l) h k) = seq_at b k"
      "seq_range (data1 l (place (sl_Size l) h k)) (node_last l (place (sl_Size l) h k)) = seq_at b ` {k..e}"
      using n(3,4) seq_range_at by simp_all
  qed
  have "\<exists>(k, e)\<in>set ns. i = place (sl_Size l) h k" if i: "0 \<le> i" "i < sl_Size l" "data1 l i \<noteq> - 1" for i
  proof -
    obtain x where x: "win (sl_Size l) lo x" "place (sl_Size l) h x = i"
      using place_surj [OF c(1) i(1,2), where lo = lo and h = h] by blast
    then have "map_of ns x \<noteq> None" using c(9) [OF x(1)] i(3) x(2)
      by (cases "map_of ns x") (auto simp: cell1_def)
    then show ?thesis using x(2) by (auto dest: map_of_SomeD)
  qed
  moreover have "place (sl_Size l) h k \<in> {i\<in>{0..<sl_Size l}. data1 l i \<noteq> - 1}" if "(k, e) \<in> set ns" for k e
    using node(1) [OF that] place_range [OF c(1)] by simp
  ultimately have "lost_set l = (\<Union>(k, e)\<in>set ns. seq_at b ` {k..e})"
    using node unfolding lost_set_def by fastforce
  also have "\<dots> = seq_at b ` covered ns" unfolding covered_def by auto
  finally show ?thesis .
qed

lemma good_inj: "good b h lo ns l \<Longrightarrow> inj_on (seq_at b) (covered ns)"
proof (rule inj_on_seq_at)
  assume g: "good b h lo ns l"
  note c = cellsD [OF goodD(2) [OF g]]
  show "win (sl_Size l) lo x" if "x \<in> covered ns" for x
    using covered_bounds [OF c(6) that] by (simp add: win_def)
  show "sl_Size l \<le> m_iSeqNoTH" using c(1,2) by linarith
qed

lemma good_card: "good b h lo ns l \<Longrightarrow> sl_Length l = int (card (lost_set l))"
  using sep_card [OF goodD(3)] goodD(6) by (simp add: lost_set_good card_image good_inj)

lemma lost_set_finite: "finite (lost_set l)"
  unfolding lost_set_def seq_range_def
  by (intro finite_UN_I finite_imageI finite_atLeastAtMost_int
      finite_subset [OF _ finite_atLeastLessThan_int [of 0 "sl_Size l"]]) auto

text \<open>A window of sequence numbers is a window of offsets.\<close>

lemma window_offsets:
  assumes g: "good b h lo ns l" and w: "valid_seq w" "\<forall>s\<in>lost_set l. 0 \<le> seqoff w s \<and> seqoff w s < sl_Size l"
  shows "\<exists>b' h' p. w = seq_at b' p \<and> good b' h' p ns l"
proof (cases ns)
  case Nil
  have "good w h 0 [] l"
    using g Nil cells_empty_any by (auto simp: good_def rep_def hint_ok_def)
  moreover have "w = seq_at w 0" using w(1) by (simp add: valid_seq_def)
  ultimately show ?thesis using Nil by blast
next
  case Cons
  note d = goodD [OF g]
  note c = cellsD [OF d(2)]
  obtain p where p: "w = seq_at b p" "sep p (p + sl_Size l) ns"
    using window_at [OF d(3) _ c(2) w(1), of b] w(2) Cons by (auto simp: lost_set_good [OF g])
  have "good b h p ns l"
    using rep_rewindow [OF d(2) sep_nodes_ok [OF p(2)]] p(2) d(4,5) by (simp add: good_def rep_def)
  with p(1) show ?thesis by blast
qed

text \<open>The offset of a member of the window.\<close>

lemma in_window_offset:
  assumes "good b h p ns l" "w = seq_at b p" "valid_seq s" "0 \<le> seqoff w s" "seqoff w s < sl_Size l"
  shows "s = seq_at b (p + seqoff w s)" "win (sl_Size l) p (p + seqoff w s)"
  using assms seqoff_at [of w s] by (auto simp: win_def)

lemma new_list_inv:
  assumes "0 < sz" "2 * sz < m_iSeqNoTH"
  shows "CSndLossList_inv (CSndLossList_new sz)" "lost_set (CSndLossList_new sz) = {}"
proof -
  have "aget (replicate (nat sz) (- 1 :: int)) (place sz 0 x) = - 1" for x
    using place_range [OF assms(1), of 0 x] by simp
  then have g: "good 0 0 0 [] (CSndLossList_new sz)"
    using assms by (simp add: good_def rep_def cells_def hint_ok_def CSndLossList_new_def cell1_def cell2_def)
  then show "CSndLossList_inv (CSndLossList_new sz)" by (auto simp: CSndLossList_inv_def)
  show "lost_set (CSndLossList_new sz) = {}" using lost_set_good [OF g] by simp
qed

text \<open>A list that holds 5 to 9, for the examples.\<close>

lemma example_list:
  "\<exists>r l. CSndLossList_insert 5 9 (CSndLossList_new 8) = Some (r, l) \<and> CSndLossList_inv l \<and>
     lost_set l = {5..9} \<and> sl_Size l = 8"
proof -
  have g: "good 0 0 5 [] (CSndLossList_new 8)"
  proof -
    have "aget (replicate 8 (- 1 :: int)) (place 8 0 x) = - 1" for x
      using place_range [of 8 0 x] by simp
    then show ?thesis
      by (simp add: good_def rep_def cells_def hint_ok_def CSndLossList_new_def cell1_def cell2_def serial_consts)
  qed
  have "in_window 5 5 9 (CSndLossList_new 8)" by (simp add: in_window_def CSndLossList_new_def)
  from insert_empty_good [OF g this] obtain r l ns where l:
    "CSndLossList_insert 5 9 (CSndLossList_new 8) = Some (r, l)" "good 0 (- 5) 5 ns l" "covered ns = {5..9}"
    "sl_Size l = 8"
    by (auto simp: inserted_def shift_def CSndLossList_new_def)
  have "seq_at 0 ` {5..9} = (\<lambda>x. x) ` {5..9}" by (intro image_cong) (simp_all add: shift_def)
  then show ?thesis using l lost_set_good [OF l(2)] by (auto simp: CSndLossList_inv_def)
qed

lemma example_window:
  "fits_window 8 {5..9}"
  unfolding fits_window_def
  by (rule exI [of _ 5]) (auto simp: valid_seq_def seqoff_def serial_consts)

section \<open>insert\<close>

lemma insert_range:
  assumes "CSndLossList_inv l" "0 \<le> seqoff s1 s2" "fits_window (sl_Size l) (lost_set l \<union> {s1, s2})"
  shows "\<exists>r l'. CSndLossList_insert s1 s2 l = Some (r, l') \<and> CSndLossList_inv l' \<and>
    lost_set l' = lost_set l \<union> seq_range s1 s2 \<and> r = int (card (lost_set l' - lost_set l)) \<and>
    CSndLossList_getLossLength l' = int (card (lost_set l')) \<and> sl_Size l' = sl_Size l"
proof -
  obtain b0 h0 lo0 ns where g0: "good b0 h0 lo0 ns l" using assms(1) by (auto simp: CSndLossList_inv_def)
  obtain w where w: "valid_seq w" "\<forall>s\<in>lost_set l \<union> {s1, s2}. valid_seq s \<and> 0 \<le> seqoff w s \<and> seqoff w s < sl_Size l"
    using assms(3) by (auto simp: fits_window_def)
  obtain b h p where b: "w = seq_at b p" and g: "good b h p ns l"
    using window_offsets [OF g0 w(1)] w(2) by blast
  note c = cellsD [OF goodD(2) [OF g]]
  define j j2 where "j = p + seqoff w s1" and "j2 = p + seqoff w s2"
  have s: "s1 = seq_at b j" "win (sl_Size l) p j" "s2 = seq_at b j2" "win (sl_Size l) p j2"
    using in_window_offset [OF g b] w(2) by (simp_all add: j_def j2_def)
  have lt: "\<bar>j2 - j\<bar> < m_iSeqNoTH" using s(2,4) c(1,2) unfolding win_def by linarith
  then have le: "j \<le> j2" using assms(2) seq.off_window [OF lt, of b] by (simp add: s)
  have iw: "in_window p j j2 l" using s(2,4) le by (simp add: in_window_def win_def)
  have "\<exists>h'. inserted b h' p ns j j2 l (CSndLossList_insert s1 s2 l)"
    using insert_good [OF g iw] insert_empty_good [of b h p l j j2] g iw s by (cases "ns = []") auto
  then obtain h' r l' ns' where r: "CSndLossList_insert s1 s2 l = Some (r, l')" "good b h' p ns' l'"
    "covered ns' = covered ns \<union> {j..j2}" "r = total ns' - total ns" "sl_Size l' = sl_Size l"
    by (auto simp: inserted_def)
  have "seq_range s1 s2 = seq_at b ` {j..j2}"
    using le lt by (simp add: s seq_range_at)
  then have ls: "lost_set l' = lost_set l \<union> seq_range s1 s2"
    by (simp add: lost_set_good [OF r(2)] lost_set_good [OF g] r(3) image_Un)
  then have "int (card (lost_set l' - lost_set l)) = int (card (lost_set l')) - int (card (lost_set l))"
    using card_mono [OF lost_set_finite, of "lost_set l" l'] by (simp add: card_Diff_subset lost_set_finite)
  also have "\<dots> = r" using good_card [OF g] good_card [OF r(2)] goodD(6) [OF g] goodD(6) [OF r(2)] r(4) by simp
  finally show ?thesis
    using r(1,2,5) ls good_card [OF r(2)] unfolding CSndLossList_inv_def CSndLossList_getLossLength_def by blast
qed

text \<open>C6: inserting a range never loops, adds exactly the range, keeps the invariant, and
  returns the number of sequence numbers that were not yet in the list.\<close>

theorem insert_adds_range:
  assumes "CSndLossList_inv l" "0 \<le> seqoff s1 s2" "fits_window (sl_Size l) (lost_set l \<union> {s1, s2})"
  shows "\<exists>r l'. CSndLossList_insert s1 s2 l = Some (r, l') \<and> CSndLossList_inv l' \<and>
    lost_set l' = lost_set l \<union> seq_range s1 s2 \<and> r = int (card (lost_set l' - lost_set l)) \<and>
    CSndLossList_getLossLength l' = int (card (lost_set l')) \<and> sl_Size l' = sl_Size l"
  by (rule insert_range [OF assms])

theorem insert_adds_range_witness:
  "\<exists>r l'. CSndLossList_insert 0x7FFFFFFE 2 (CSndLossList_new 8) = Some (r, l') \<and>
    lost_set l' = seq_range 0x7FFFFFFE 2"
proof -
  have "CSndLossList_inv (CSndLossList_new 8)" "lost_set (CSndLossList_new 8) = {}"
    using new_list_inv [of 8] by (simp_all add: serial_consts)
  moreover have "fits_window 8 {0x7FFFFFFE, 2}"
    unfolding fits_window_def by (rule exI [of _ "0x7FFFFFFE"]) (simp add: valid_seq_def seqoff_def serial_consts)
  moreover have "0 \<le> seqoff 0x7FFFFFFE 2" by (simp add: seqoff_def serial_consts)
  moreover have "sl_Size (CSndLossList_new 8) = 8" by (simp add: CSndLossList_new_def)
  ultimately show ?thesis
    using insert_adds_range [of "CSndLossList_new 8" "0x7FFFFFFE" 2] by auto
qed

section \<open>remove\<close>

lemma remove_upto:
  assumes "CSndLossList_inv l" "fits_window (sl_Size l) (lost_set l \<union> {s})"
  shows "\<exists>l'. CSndLossList_remove s l = Some l' \<and> CSndLossList_inv l' \<and>
    lost_set l' = {x \<in> lost_set l. seqcmp s x < 0} \<and>
    CSndLossList_getLossLength l' = int (card (lost_set l')) \<and> sl_Size l' = sl_Size l"
proof -
  obtain b0 h0 lo0 ns where g0: "good b0 h0 lo0 ns l" using assms(1) by (auto simp: CSndLossList_inv_def)
  obtain w where w: "valid_seq w" "\<forall>x\<in>lost_set l \<union> {s}. valid_seq x \<and> 0 \<le> seqoff w x \<and> seqoff w x < sl_Size l"
    using assms(2) by (auto simp: fits_window_def)
  obtain b h p where b: "w = seq_at b p" and g: "good b h p ns l"
    using window_offsets [OF g0 w(1)] w(2) by blast
  note c = cellsD [OF goodD(2) [OF g]]
  define j where "j = p + seqoff w s"
  have s: "s = seq_at b j" "win (sl_Size l) p j"
    using in_window_offset [OF g b] w(2) by (simp_all add: j_def)
  from remove_good [OF g s(2)] obtain l' ns' where r: "CSndLossList_remove s l = Some l'"
    "good b h p ns' l'" "covered ns' = {x \<in> covered ns. j < x}" "sl_Size l' = sl_Size l"
    by (auto simp: removed_def s(1))
  have "seqcmp s (seq_at b x) < 0 \<longleftrightarrow> j < x" if "x \<in> covered ns" for x
  proof -
    have "\<bar>j - x\<bar> < m_iSeqNoTH"
      using covered_bounds [OF c(6) that] s(2) c(1,2) unfolding win_def by linarith
    then show ?thesis unfolding s(1) by (rule seq.cmp_window_lt)
  qed
  then have "lost_set l' = {x \<in> lost_set l. seqcmp s x < 0}"
    using lost_set_good [OF r(2)] lost_set_good [OF g] r(3) by auto
  then show ?thesis
    using r(1,2,4) good_card [OF r(2)] unfolding CSndLossList_inv_def CSndLossList_getLossLength_def by blast
qed

text \<open>C10: removing up to a sequence number never loops and drops exactly the members that do not
  come after it.\<close>

theorem remove_drops_acknowledged:
  assumes "CSndLossList_inv l" "fits_window (sl_Size l) (lost_set l \<union> {s})"
  shows "\<exists>l'. CSndLossList_remove s l = Some l' \<and> CSndLossList_inv l' \<and>
    lost_set l' = {x \<in> lost_set l. seqcmp s x < 0} \<and>
    CSndLossList_getLossLength l' = int (card (lost_set l')) \<and> sl_Size l' = sl_Size l"
  by (rule remove_upto [OF assms])

theorem remove_drops_acknowledged_witness:
  "\<exists>l l'. lost_set l = {5..9} \<and> CSndLossList_remove 6 l = Some l' \<and> lost_set l' = {7..9}"
proof -
  obtain l where l: "CSndLossList_inv l" "lost_set l = {5..9}" "sl_Size l = 8" using example_list by blast
  have "fits_window (sl_Size l) (lost_set l \<union> {6})" using example_window l by (simp add: insert_absorb)
  from remove_drops_acknowledged [OF l(1) this] obtain l' where
    "CSndLossList_remove 6 l = Some l'" "lost_set l' = {x \<in> {5..9}. seqcmp 6 x < 0}" using l(2) by auto
  moreover have "{x \<in> {5..9}. seqcmp 6 x < 0} = {7..9}" by (auto simp: seqcmp_def serial_consts)
  ultimately show ?thesis using l(2) by auto
qed

section \<open>getLostSeq\<close>

text \<open>\<open>getLostSeq\<close> returns the first lost sequence number and removes it alone; -1 means that
  nothing is lost.\<close>

lemma getLostSeq_take:
  assumes "CSndLossList_inv l" "CSndLossList_getLostSeq l = (s, l')"
  shows "CSndLossList_inv l' \<and> sl_Size l' = sl_Size l \<and>
    (if lost_set l = {} then s = - 1 \<and> l' = l
     else s \<in> lost_set l \<and> (\<forall>x\<in>lost_set l. seqcmp s x \<le> 0) \<and> lost_set l' = lost_set l - {s} \<and>
       CSndLossList_getLossLength l' = CSndLossList_getLossLength l - 1)"
proof -
  obtain b h lo ns where g: "good b h lo ns l" using assms(1) by (auto simp: CSndLossList_inv_def)
  note c = cellsD [OF goodD(2) [OF g]] and ls = lost_set_good [OF g]
  show ?thesis
  proof (cases ns)
    case Nil
    then show ?thesis using assms g ls goodD(6) [OF g] by (simp add: CSndLossList_getLostSeq_def)
  next
    case (Cons m rest)
    obtain k e where m: "m = (k, e)" by fastforce
    have g': "good b h lo ((k, e) # rest) l" using g Cons m by simp
    let ?ns' = "if e = k then rest else (k + 1, e) # rest"
    have sl: "s = seq_at b k" "good b h lo ?ns' l'" "sl_Size l' = sl_Size l"
      using getLostSeq_head [OF g'] remove_head_good [OF g'] assms(2) by simp_all
    have sp: "sep k (lo + sl_Size l) ns" "k \<le> e" using goodD(3) [OF g'] Cons m by simp_all
    have ge: "k \<le> x \<and> x < lo + sl_Size l" if "x \<in> covered ns" for x
      using covered_bounds [OF sep_nodes_ok [OF sp(1)] that] .
    have kin: "k \<in> covered ns" using sp(2) Cons m by simp
    have "covered ?ns' = covered ns - {k}"
    proof -
      have "k \<notin> covered rest"
        using covered_bounds [OF sep_nodes_ok, of "e + 1" "lo + sl_Size l" rest k] goodD(3) [OF g'] sp(2) by auto
      then show ?thesis using Cons m sp(2) by auto
    qed
    then have ls': "lost_set l' = lost_set l - {s}"
      using kin by (simp add: lost_set_good [OF sl(2)] ls sl(1)
          inj_on_image_set_diff [OF good_inj [OF g]])
    have "seqcmp s x \<le> 0" if x: "x \<in> lost_set l" for x
    proof -
      obtain y where y: "x = seq_at b y" "y \<in> covered ns" using x by (auto simp: ls)
      have "\<bar>k - y\<bar> < m_iSeqNoTH" using ge [OF y(2)] ge [OF kin] covered_bounds [OF c(6) kin] c(1,2) by linarith
      then show ?thesis unfolding sl(1) y(1) using ge [OF y(2)] seq.cmp_window_le by blast
    qed
    moreover have "s \<in> lost_set l" using kin by (simp add: ls sl(1))
    moreover from this have "CSndLossList_getLossLength l' = CSndLossList_getLossLength l - 1"
      using good_card [OF g] good_card [OF sl(2)] ls' card_gt_0_iff [of "lost_set l"] lost_set_finite [of l]
      unfolding CSndLossList_getLossLength_def by (auto simp: int_ops of_nat_diff)
    ultimately show ?thesis using sl(2,3) ls' unfolding CSndLossList_inv_def by auto
  qed
qed

section \<open>The interface of the retransmission loop\<close>

text \<open>The connection takes lost sequence numbers one by one. \<open>drain\<close> is \<open>n\<close> such calls.\<close>

fun drain :: "('s \<Rightarrow> int32 \<times> 's) \<Rightarrow> nat \<Rightarrow> 's \<Rightarrow> int32 list \<times> 's" where
  "drain take_one 0 l = ([], l)"
| "drain take_one (Suc n) l =
     (let (s, l1) = take_one l; (ss, l2) = drain take_one n l1 in (s # ss, l2))"

locale loss_source =
  fixes ok :: "'s \<Rightarrow> bool"
    and contents :: "'s \<Rightarrow> int32 set"
    and count :: "'s \<Rightarrow> int"
    and take_one :: "'s \<Rightarrow> int32 \<times> 's"
  assumes count: "ok l \<Longrightarrow> count l = int (card (contents l))"
    and finite_contents: "ok l \<Longrightarrow> finite (contents l)"
    and take_empty: "ok l \<Longrightarrow> contents l = {} \<Longrightarrow> take_one l = (- 1, l)"
    and take_first: "ok l \<Longrightarrow> contents l \<noteq> {} \<Longrightarrow> take_one l = (s, l') \<Longrightarrow>
      ok l' \<and> s \<in> contents l \<and> (\<forall>x\<in>contents l. seqcmp s x \<le> 0) \<and> contents l' = contents l - {s}"
begin

lemma drain_all:
  "ok l \<Longrightarrow> card (contents l) = n \<Longrightarrow> drain take_one n l = (ss, l') \<Longrightarrow>
     ok l' \<and> contents l' = {} \<and> set ss = contents l \<and> distinct ss \<and> sorted_wrt (\<lambda>a b. seqcmp a b \<le> 0) ss"
proof (induction n arbitrary: l ss)
  case 0
  then show ?case using finite_contents [of l] by auto
next
  case (Suc n)
  obtain s l1 where t: "take_one l = (s, l1)" by fastforce
  obtain ss' where d: "drain take_one n l1 = (ss', l')" "ss = s # ss'"
    using Suc.prems(3) t by (auto split: prod.splits)
  have "contents l \<noteq> {}" using Suc.prems(2) by auto
  note f = take_first [OF Suc.prems(1) this t]
  then have "card (contents l1) = n"
    using Suc.prems(2) finite_contents [OF Suc.prems(1)] by (simp add: card_Diff_singleton)
  from Suc.IH [OF _ this d(1)] f d(2) show ?case by auto
qed

lemma drain_count:
  assumes "ok l" "drain take_one (nat (count l)) l = (ss, l')"
  shows "set ss = contents l \<and> distinct ss \<and> sorted_wrt (\<lambda>a b. seqcmp a b \<le> 0) ss \<and>
    take_one l' = (- 1, l')"
  using assms drain_all [OF assms(1) refl, of ss l'] count take_empty by auto

end

interpretation snd_take: loss_source CSndLossList_inv lost_set CSndLossList_getLossLength CSndLossList_getLostSeq
proof
  fix l :: CSndLossList
  assume l: "CSndLossList_inv l"
  then obtain b h lo ns where g: "good b h lo ns l" by (auto simp: CSndLossList_inv_def)
  show "CSndLossList_getLossLength l = int (card (lost_set l))"
    using good_card [OF g] by (simp add: CSndLossList_getLossLength_def)
  show "finite (lost_set l)" by (rule lost_set_finite)
  show "CSndLossList_getLostSeq l = (- 1, l)" if "lost_set l = {}"
    using getLostSeq_take [OF l, of "fst (CSndLossList_getLostSeq l)" "snd (CSndLossList_getLostSeq l)"] that
    by (metis prod.collapse)
  show "CSndLossList_inv l' \<and> s \<in> lost_set l \<and> (\<forall>x\<in>lost_set l. seqcmp s x \<le> 0) \<and> lost_set l' = lost_set l - {s}"
    if "lost_set l \<noteq> {}" "CSndLossList_getLostSeq l = (s, l')" for s l'
    using getLostSeq_take [OF l that(2)] that(1) by simp
qed

section \<open>The interface of the connection\<close>

text \<open>The connection adds what the peer misses and drops what the peer has. Its own view of the list is a set \<open>X\<close>
  of positions, counted from the position of \<open>a\<close>, in the window of those that are in flight.\<close>

locale loss_set = loss_source +
  fixes cap :: "'s \<Rightarrow> int"
    and ins :: "int32 \<Rightarrow> int32 \<Rightarrow> 's \<Rightarrow> (int \<times> 's) option"
    and rem :: "int32 \<Rightarrow> 's \<Rightarrow> 's option"
  assumes cap_bound: "ok l \<Longrightarrow> 0 < cap l \<and> 2 * cap l < m_iSeqNoTH"
    and take_cap: "ok l \<Longrightarrow> take_one l = (s, l') \<Longrightarrow> cap l' = cap l"
    and insert_law: "ok l \<Longrightarrow> 0 \<le> seqoff s1 s2 \<Longrightarrow> fits_window (cap l) (contents l \<union> {s1, s2}) \<Longrightarrow>
      \<exists>r l'. ins s1 s2 l = Some (r, l') \<and> ok l' \<and> contents l' = contents l \<union> seq_range s1 s2 \<and> cap l' = cap l"
    and remove_law: "ok l \<Longrightarrow> fits_window (cap l) (contents l \<union> {s}) \<Longrightarrow>
      \<exists>l'. rem s l = Some l' \<and> ok l' \<and> contents l' = {x \<in> contents l. seqcmp s x < 0} \<and> cap l' = cap l"
begin

lemma insert_at:
  assumes "ok l" "contents l = seq_at a ` X" "X \<subseteq> {p..<q}" "q - p \<le> cap l" "p \<le> i" "i \<le> j" "j < q"
  shows "\<exists>r l'. ins (seq_at a i) (seq_at a j) l = Some (r, l') \<and> ok l' \<and> contents l' = seq_at a ` (X \<union> {i..j}) \<and> cap l' = cap l"
proof -
  have c: "cap l < m_iSeqNoTH" using cap_bound [OF assms(1)] by linarith
  have lt: "j - i < m_iSeqNoTH" using assms c by linarith
  have "0 \<le> seqoff (seq_at a i) (seq_at a j)" using seq.off_window [of j i a] lt assms(6) by simp
  moreover have "fits_window (cap l) (contents l \<union> {seq_at a i, seq_at a j})"
    using window_fits [of "insert i (insert j X)" p "cap l" a] assms c by (force simp: assms(2))
  moreover have "seq_range (seq_at a i) (seq_at a j) = seq_at a ` {i..j}" using seq_range_at assms(6) lt by simp
  ultimately show ?thesis using insert_law [OF assms(1), of "seq_at a i" "seq_at a j"] by (simp add: assms(2) image_Un)
qed

lemma remove_at:
  assumes "ok l" "contents l = seq_at a ` X" "X \<subseteq> {p..<q}" "q - p \<le> cap l" "p \<le> i" "i < q"
  shows "\<exists>l'. rem (seq_at a i) l = Some l' \<and> ok l' \<and> contents l' = seq_at a ` (X - {..i}) \<and> cap l' = cap l"
proof -
  have c: "cap l < m_iSeqNoTH" using cap_bound [OF assms(1)] by linarith
  have "seqcmp (seq_at a i) (seq_at a x) < 0 \<longleftrightarrow> i < x" if "x \<in> X" for x
    by (intro seq.cmp_window_lt in_window_near [OF assms(3) that assms(5,6)]) (use assms(4) c in linarith)
  then have "{x \<in> contents l. seqcmp (seq_at a i) x < 0} = seq_at a ` (X - {..i})" by (auto simp: assms(2))
  moreover have "fits_window (cap l) (contents l \<union> {seq_at a i})"
    using window_fits [of "insert i X" p "cap l" a] assms c by (force simp: assms(2))
  ultimately show ?thesis using remove_law [OF assms(1), of "seq_at a i"] by simp
qed

lemma take_at:
  assumes "ok l" "contents l = seq_at a ` X" "X \<subseteq> {p..<q}" "q - p \<le> cap l" "take_one l = (s, l')"
  shows "ok l' \<and> cap l' = cap l \<and>
    (if X = {} then s = - 1 \<and> l' = l
     else \<exists>i\<in>X. s = seq_at a i \<and> (\<forall>x\<in>X. i \<le> x) \<and> contents l' = seq_at a ` (X - {i}))"
proof (cases "X = {}")
  case True
  then show ?thesis using assms take_empty [OF assms(1)] by simp
next
  case False
  have c: "cap l < m_iSeqNoTH" using cap_bound [OF assms(1)] by linarith
  have near: "\<bar>x - y\<bar> < m_iSeqNoTH" if "x \<in> X" "y \<in> X" for x y using in_window_near [OF assms(3) that(2), of x] that assms(3,4) c by force
  have t: "ok l'" "s \<in> contents l" "\<forall>x\<in>contents l. seqcmp s x \<le> 0" "contents l' = contents l - {s}"
    using take_first [OF assms(1) _ assms(5)] False assms(2) by auto
  obtain i where i: "i \<in> X" "s = seq_at a i" using t(2) assms(2) by auto
  have "i \<le> x" if "x \<in> X" for x using t(3) that i near [of i x] seq.cmp_window_le [of i x a] by (auto simp: assms(2))
  moreover have "seq_at a x = s \<longleftrightarrow> x = i" if "x \<in> X" for x
    unfolding i(2) by (rule seq.shift_inj [OF near [OF i(1) that]])
  then have "contents l' = seq_at a ` (X - {i})" using t(4) by (auto simp: assms(2))
  ultimately show ?thesis using False i t(1) take_cap [OF assms(1,5)] by auto
qed

end

interpretation snd_loss: loss_set CSndLossList_inv lost_set CSndLossList_getLossLength CSndLossList_getLostSeq
  sl_Size CSndLossList_insert CSndLossList_remove
proof
  fix l :: CSndLossList
  assume l: "CSndLossList_inv l"
  then obtain b h lo ns where "good b h lo ns l" by (auto simp: CSndLossList_inv_def)
  note c = cellsD [OF goodD(2) [OF this]]
  show "0 < sl_Size l \<and> 2 * sl_Size l < m_iSeqNoTH" using c(1,2) by blast
  show "sl_Size l' = sl_Size l" if "CSndLossList_getLostSeq l = (s, l')" for s l'
    using getLostSeq_take [OF l that] by simp
  show "\<exists>r l'. CSndLossList_insert s1 s2 l = Some (r, l') \<and> CSndLossList_inv l' \<and>
      lost_set l' = lost_set l \<union> seq_range s1 s2 \<and> sl_Size l' = sl_Size l"
    if "0 \<le> seqoff s1 s2" "fits_window (sl_Size l) (lost_set l \<union> {s1, s2})" for s1 s2
    using insert_range [OF l that] by blast
  show "\<exists>l'. CSndLossList_remove s l = Some l' \<and> CSndLossList_inv l' \<and>
      lost_set l' = {x \<in> lost_set l. seqcmp s x < 0} \<and> sl_Size l' = sl_Size l"
    if "fits_window (sl_Size l) (lost_set l \<union> {s})" for s
    using remove_upto [OF l that] by blast
qed

text \<open>As many calls of \<open>getLostSeq\<close> as the list is long return every lost sequence number once,
  in sequence order, and the next call says that nothing is lost.\<close>

theorem getLostSeq_returns_all_in_order:
  assumes "CSndLossList_inv l"
    and "drain CSndLossList_getLostSeq (nat (CSndLossList_getLossLength l)) l = (ss, l')"
  shows "set ss = lost_set l \<and> distinct ss \<and> sorted_wrt (\<lambda>a b. seqcmp a b \<le> 0) ss \<and>
    CSndLossList_getLostSeq l' = (- 1, l')"
  by (rule snd_take.drain_count [OF assms])

theorem getLostSeq_returns_all_in_order_witness:
  "\<exists>l ss l'. CSndLossList_inv l \<and> lost_set l = {5..9} \<and>
     drain CSndLossList_getLostSeq (nat (CSndLossList_getLossLength l)) l = (ss, l') \<and> set ss = {5..9}"
proof -
  obtain l where l: "CSndLossList_inv l" "lost_set l = {5..9}" using example_list by blast
  obtain ss l' where d: "drain CSndLossList_getLostSeq (nat (CSndLossList_getLossLength l)) l = (ss, l')"
    by fastforce
  show ?thesis using getLostSeq_returns_all_in_order [OF l(1) d] l d by blast
qed

end
