(* ===== verification/RcvLossList.thy ===== *)
theory RcvLossList imports LossNodes begin

text \<open>
  The receiver's loss list, class \<open>CRcvLossList\<close> (\<open>list.h\<close>, \<open>list.cpp\<close>): the same circular array
  of nodes as the sender's list, linked in both directions. The receiver inserts in
  sequence order and removes single sequence numbers. Loops carry a fuel of one more than
  the number of cells.
\<close>

record CRcvLossList =
  rl_Data1 :: "int32 list"
  rl_Data2 :: "int32 list"
  rl_Next :: "int list"
  rl_Prior :: "int list"
  rl_Head :: int
  rl_Tail :: int
  rl_Length :: int
  rl_Size :: int

definition CRcvLossList_new :: "int \<Rightarrow> CRcvLossList" where
  "CRcvLossList_new sz =
     \<lparr>rl_Data1 = replicate (nat sz) (-1), rl_Data2 = replicate (nat sz) (-1),
      rl_Next = replicate (nat sz) 0, rl_Prior = replicate (nat sz) 0, rl_Head = -1, rl_Tail = -1,
      rl_Length = 0, rl_Size = sz\<rparr>"

definition r_Data1 :: "int \<Rightarrow> int32 \<Rightarrow> CRcvLossList \<Rightarrow> CRcvLossList" where
  "r_Data1 i v l = l\<lparr>rl_Data1 := aset (rl_Data1 l) i v\<rparr>"

definition r_Data2 :: "int \<Rightarrow> int32 \<Rightarrow> CRcvLossList \<Rightarrow> CRcvLossList" where
  "r_Data2 i v l = l\<lparr>rl_Data2 := aset (rl_Data2 l) i v\<rparr>"

definition r_Next :: "int \<Rightarrow> int \<Rightarrow> CRcvLossList \<Rightarrow> CRcvLossList" where
  "r_Next i v l = l\<lparr>rl_Next := aset (rl_Next l) i v\<rparr>"

definition r_Prior :: "int \<Rightarrow> int \<Rightarrow> CRcvLossList \<Rightarrow> CRcvLossList" where
  "r_Prior i v l = l\<lparr>rl_Prior := aset (rl_Prior l) i v\<rparr>"

lemmas r_setters = r_Data1_def r_Data2_def r_Next_def r_Prior_def

abbreviation "rdata1 l i \<equiv> aget (rl_Data1 l) i"
abbreviation "rdata2 l i \<equiv> aget (rl_Data2 l) i"
abbreviation "rnext l i \<equiv> aget (rl_Next l) i"
abbreviation "rprior l i \<equiv> aget (rl_Prior l) i"

definition rl_fuel :: "CRcvLossList \<Rightarrow> nat" where
  "rl_fuel l = Suc (nat (rl_Size l))"

section \<open>insert\<close>

definition CRcvLossList_insert :: "int32 \<Rightarrow> int32 \<Rightarrow> CRcvLossList \<Rightarrow> CRcvLossList" where
  "CRcvLossList_insert seqno1 seqno2 l =
    (if 0 = rl_Length l then
       let l = l\<lparr>rl_Head := 0, rl_Tail := 0\<rparr>;
           l = r_Data1 (rl_Head l) seqno1 l;
           l = (if seqno2 \<noteq> seqno1 then r_Data2 (rl_Head l) seqno2 l else l);
           l = r_Next (rl_Head l) (-1) l;
           l = r_Prior (rl_Head l) (-1) l
       in l\<lparr>rl_Length := rl_Length l + seqlen seqno1 seqno2\<rparr>
     else
       let offset = seqoff (rdata1 l (rl_Head l)) seqno1;
           loc = (rl_Head l + offset) smod rl_Size l;
           l = (if -1 \<noteq> rdata2 l (rl_Tail l) \<and> incseq (rdata2 l (rl_Tail l)) = seqno1 then
                  let loc = rl_Tail l in r_Data2 loc seqno2 l
                else
                  let l = r_Data1 loc seqno1 l;
                      l = (if seqno2 \<noteq> seqno1 then r_Data2 loc seqno2 l else l);
                      l = r_Next (rl_Tail l) loc l;
                      l = r_Prior loc (rl_Tail l) l;
                      l = r_Next loc (-1) l
                  in l\<lparr>rl_Tail := loc\<rparr>)
       in l\<lparr>rl_Length := rl_Length l + seqlen seqno1 seqno2\<rparr>)"

section \<open>remove\<close>

text \<open>The node at \<open>loc\<close> holds one sequence number only: it is unlinked.\<close>

definition rl_unlink :: "int \<Rightarrow> CRcvLossList \<Rightarrow> CRcvLossList" where
  "rl_unlink loc l =
    (let l = (if rl_Head l = loc then
                let l = l\<lparr>rl_Head := rnext l (rl_Head l)\<rparr>
                in if -1 \<noteq> rl_Head l then r_Prior (rl_Head l) (-1) l else l
              else
                let l = r_Next (rprior l loc) (rnext l loc) l
                in if -1 \<noteq> rnext l loc then r_Prior (rnext l loc) (rprior l loc) l
                   else l\<lparr>rl_Tail := rprior l loc\<rparr>)
     in r_Data1 loc (-1) l)"

text \<open>The node at \<open>loc\<close> loses its first sequence number and moves one cell on.\<close>

definition rl_move_data :: "int \<Rightarrow> int \<Rightarrow> CRcvLossList \<Rightarrow> CRcvLossList" where
  "rl_move_data loc i l =
    (let l = r_Data1 i (incseq (rdata1 l loc)) l;
         l = (if seqcmp (rdata2 l loc) (incseq (rdata1 l loc)) > 0 then r_Data2 i (rdata2 l loc) l else l);
         l = r_Data1 loc (-1) l
     in r_Data2 loc (-1) l)"

definition rl_move_links :: "int \<Rightarrow> int \<Rightarrow> CRcvLossList \<Rightarrow> CRcvLossList" where
  "rl_move_links loc i l =
    (let l = r_Next i (rnext l loc) l;
         l = r_Prior i (rprior l loc) l;
         l = (if rl_Head l = loc then l\<lparr>rl_Head := i\<rparr> else r_Next (rprior l i) i l)
     in if rl_Tail l = loc then l\<lparr>rl_Tail := i\<rparr> else r_Prior (rnext l i) i l)"

definition rl_advance :: "int \<Rightarrow> CRcvLossList \<Rightarrow> CRcvLossList" where
  "rl_advance loc l =
    (let i = (loc + 1) smod rl_Size l
     in rl_move_links loc i (rl_move_data loc i l))"

text \<open>Walking back to the node that may contain the number.\<close>

fun rl_find_node :: "nat \<Rightarrow> CRcvLossList \<Rightarrow> int \<Rightarrow> int option" where
  "rl_find_node 0 l i = None"
| "rl_find_node (Suc f) l i =
     (if -1 = rdata1 l i then rl_find_node f l ((i - 1 + rl_Size l) smod rl_Size l) else Some i)"

text \<open>\<open>seqno\<close> lies in the node at \<open>i\<close>, after its start: it is cut off or the node is split.\<close>

definition rl_split_data :: "int32 \<Rightarrow> int \<Rightarrow> int \<Rightarrow> CRcvLossList \<Rightarrow> CRcvLossList" where
  "rl_split_data seqno loc i l =
    (let l = r_Data1 loc (incseq seqno) l;
         l = (if seqcmp (rdata2 l i) (rdata1 l loc) > 0 then r_Data2 loc (rdata2 l i) l else l)
     in if seqno = incseq (rdata1 l i) then r_Data2 i (-1) l else r_Data2 i (decseq seqno) l)"

definition rl_split_links :: "int \<Rightarrow> int \<Rightarrow> CRcvLossList \<Rightarrow> CRcvLossList" where
  "rl_split_links loc i l =
    (let l = r_Next loc (rnext l i) l;
         l = r_Next i loc l;
         l = r_Prior loc i l
     in if rl_Tail l = i then l\<lparr>rl_Tail := loc\<rparr> else r_Prior (rnext l loc) loc l)"

definition rl_cut :: "int32 \<Rightarrow> int \<Rightarrow> int \<Rightarrow> CRcvLossList \<Rightarrow> CRcvLossList" where
  "rl_cut seqno loc0 i l =
    (if seqno = rdata2 l i then
       if seqno = incseq (rdata1 l i) then r_Data2 i (-1) l else r_Data2 i (decseq seqno) l
     else
       let loc = (loc0 + 1) smod rl_Size l
       in rl_split_links loc i (rl_split_data seqno loc i l))"

definition rl_shorten :: "CRcvLossList \<Rightarrow> CRcvLossList" where
  "rl_shorten l = l\<lparr>rl_Length := rl_Length l - 1\<rparr>"

definition CRcvLossList_remove :: "int32 \<Rightarrow> CRcvLossList \<Rightarrow> (bool \<times> CRcvLossList) option" where
  "CRcvLossList_remove seqno l =
    (if 0 = rl_Length l then Some (False, l)
     else
       let offset = seqoff (rdata1 l (rl_Head l)) seqno
       in if offset < 0 then Some (False, l)
          else
            let loc = (rl_Head l + offset) smod rl_Size l
            in if seqno = rdata1 l loc then
                 Some (True, rl_shorten (if -1 = rdata2 l loc then rl_unlink loc l else rl_advance loc l))
               else
                 map_option (\<lambda>i.
                   if -1 = rdata2 l i \<or> seqcmp seqno (rdata2 l i) > 0 then (False, l)
                   else (True, rl_shorten (rl_cut seqno loc i l)))
                 (rl_find_node (rl_fuel l) l ((loc - 1 + rl_Size l) smod rl_Size l)))"

text \<open>The loop \<open>for (int32_t i = from; i <= last; ++ i) remove(i)\<close>. Its counter overflows after
  \<open>0x7FFFFFFF\<close>, which C++ leaves undefined: \<open>None\<close>.\<close>

function rl_remove_from :: "int32 \<Rightarrow> int32 \<Rightarrow> CRcvLossList \<Rightarrow> CRcvLossList option" where
  "rl_remove_from i hi l =
    (if i \<le> hi then
       case CRcvLossList_remove i l of
         None \<Rightarrow> None
       | Some (_, l) \<Rightarrow> if i = 0x7FFFFFFF then None else rl_remove_from (i + 1) hi l
     else Some l)"
  by auto
termination by (relation "measure (\<lambda>(i, hi, l). nat (hi + 1 - i))") auto

declare rl_remove_from.simps [simp del]

definition CRcvLossList_remove2 :: "int32 \<Rightarrow> int32 \<Rightarrow> CRcvLossList \<Rightarrow> (bool \<times> CRcvLossList) option" where
  "CRcvLossList_remove2 seqno1 seqno2 l =
    map_option (\<lambda>l. (True, l))
      (if seqno1 \<le> seqno2 then rl_remove_from seqno1 seqno2 l
       else Option.bind (rl_remove_from seqno1 (m_iMaxSeqNo - 1) l) (rl_remove_from 0 seqno2))"

section \<open>Queries\<close>

fun rl_find_from :: "nat \<Rightarrow> CRcvLossList \<Rightarrow> int32 \<Rightarrow> int32 \<Rightarrow> int \<Rightarrow> bool option" where
  "rl_find_from 0 l seqno1 seqno2 p = None"
| "rl_find_from (Suc f) l seqno1 seqno2 p =
     (if -1 \<noteq> p then
        if seqcmp (rdata1 l p) seqno1 = 0 \<or>
           (seqcmp (rdata1 l p) seqno1 > 0 \<and> seqcmp (rdata1 l p) seqno2 \<le> 0) \<or>
           (seqcmp (rdata1 l p) seqno1 < 0 \<and> rdata2 l p \<noteq> -1 \<and> seqcmp (rdata2 l p) seqno1 \<ge> 0)
        then Some True
        else rl_find_from f l seqno1 seqno2 (rnext l p)
      else Some False)"

definition CRcvLossList_find :: "int32 \<Rightarrow> int32 \<Rightarrow> CRcvLossList \<Rightarrow> bool option" where
  "CRcvLossList_find seqno1 seqno2 l =
    (if 0 = rl_Length l then Some False else rl_find_from (rl_fuel l) l seqno1 seqno2 (rl_Head l))"

definition CRcvLossList_getLossLength :: "CRcvLossList \<Rightarrow> int" where
  "CRcvLossList_getLossLength l = rl_Length l"

definition CRcvLossList_getFirstLostSeq :: "CRcvLossList \<Rightarrow> int" where
  "CRcvLossList_getFirstLostSeq l = (if 0 = rl_Length l then -1 else rdata1 l (rl_Head l))"

text \<open>The NAK payload: a range is its first number with the high bit set (as an \<open>int32_t\<close>, a
  negative number), then its last.\<close>

fun rl_loss_from :: "nat \<Rightarrow> CRcvLossList \<Rightarrow> int \<Rightarrow> int \<Rightarrow> int \<Rightarrow> int32 list option" where
  "rl_loss_from 0 l limit len i = None"
| "rl_loss_from (Suc f) l limit len i =
     (if len < limit - 1 \<and> -1 \<noteq> i then
        if -1 \<noteq> rdata2 l i
        then map_option (\<lambda>r. (rdata1 l i - 0x80000000) # rdata2 l i # r)
               (rl_loss_from f l limit (len + 2) (rnext l i))
        else map_option (\<lambda>r. rdata1 l i # r) (rl_loss_from f l limit (len + 1) (rnext l i))
      else Some [])"

definition CRcvLossList_getLossArray :: "int \<Rightarrow> CRcvLossList \<Rightarrow> int32 list option" where
  "CRcvLossList_getLossArray limit l = rl_loss_from (rl_fuel l) l limit 0 (rl_Head l)"

end
