(* ===== verification/RcvLossProofs.thy ===== *)
theory RcvLossProofs imports RcvLossList SndLossProofs begin

text \<open>
  Correctness of the receiver's loss list (\<open>list.cpp\<close>). As for the sender's list, \<open>rrep b h lo ns l\<close> says
  that the arrays of \<open>l\<close> hold the interval list \<open>ns\<close>; here the nodes are linked in both directions. Every
  operation is shown to act on \<open>ns\<close>.
\<close>

section \<open>Double links\<close>

text \<open>\<open>vw\<close> reads an array by offsets. \<open>dl\<close> says that \<open>N\<close> and \<open>P\<close> link the nodes, the first back to \<open>p\<close> and the
  last on to \<open>q\<close>; \<open>lastp\<close> is the cell of the last node.\<close>

definition vw :: "int \<Rightarrow> int \<Rightarrow> int list \<Rightarrow> int \<Rightarrow> int" where
  "vw n h A x = aget A (place n h x)"

lemma vw_aset:
  "0 < n \<Longrightarrow> length A = nat n \<Longrightarrow> win n lo y \<Longrightarrow> win n lo x \<Longrightarrow>
     vw n h (aset A (place n h y) v) x = (if x = y then v else vw n h A x)"
  by (simp add: vw_def aget_aset_place)

fun dl :: "(int \<Rightarrow> int) \<Rightarrow> (int \<Rightarrow> int) \<Rightarrow> (int \<Rightarrow> int) \<Rightarrow> node list \<Rightarrow> int \<Rightarrow> int \<Rightarrow> bool" where
  "dl c N P [] p q \<longleftrightarrow> True"
| "dl c N P ((k, e) # ns) p q \<longleftrightarrow> N k = (case ns of [] \<Rightarrow> q | (k', e') # ns' \<Rightarrow> c k') \<and> P k = p \<and> dl c N P ns (c k) q"

definition firstc :: "(int \<Rightarrow> int) \<Rightarrow> node list \<Rightarrow> int \<Rightarrow> int" where
  "firstc c ns q = (case ns of [] \<Rightarrow> q | (k, e) # ns' \<Rightarrow> c k)"

definition lastc :: "(int \<Rightarrow> int) \<Rightarrow> node list \<Rightarrow> int \<Rightarrow> int" where
  "lastc c ns p = (if ns = [] then p else c (fst (last ns)))"

lemma firstc_simps [simp]: "firstc c [] q = q" "firstc c ((k, e) # ns) q = c k"
  by (simp_all add: firstc_def)

lemma lastc_simps [simp]: "lastc c [] p = p" "lastc c (xs @ [(k, e)]) p = c k" "lastc c [(k, e)] p = c k"
  "lastc c (xs @ x # ys) p = lastc c (x # ys) p" "lastc c ((k, e) # (k', e') # ys) p = lastc c ((k', e') # ys) p"
  by (simp_all add: lastc_def)

lemma dl_Cons: "dl c N P ((k, e) # ns) p q \<longleftrightarrow> N k = firstc c ns q \<and> P k = p \<and> dl c N P ns (c k) q"
  by (simp add: firstc_def)

declare dl.simps(2) [simp del]

lemmas [simp] = dl_Cons

lemma firstc_append: "firstc c (xs @ ys) q = firstc c xs (firstc c ys q)"
  by (cases xs) (auto simp: firstc_def split: list.splits)

lemma lastc_Cons: "lastc c ((k, e) # ns) p = lastc c ns (c k)"
  by (simp add: lastc_def)

lemma dl_append: "dl c N P (xs @ ys) p q \<longleftrightarrow> dl c N P xs p (firstc c ys q) \<and> dl c N P ys (lastc c xs p) q"
  by (induction xs arbitrary: p) (auto simp: firstc_append lastc_Cons)

lemma dl_cong: "(\<And>k. k \<in> starts ns \<Longrightarrow> N' k = N k \<and> P' k = P k) \<Longrightarrow> dl c N' P' ns p q = dl c N P ns p q"
  by (induction ns arbitrary: p) auto

text \<open>Two lists are joined by changing one link in each direction.\<close>

lemma dl_relink_first:
  assumes "dl c N P ys p q" "distinct (map fst ys)"
  shows "dl c N (\<lambda>x. if ys \<noteq> [] \<and> x = fst (hd ys) then p' else P x) ys p' q"
proof (cases ys)
  case (Cons y zs)
  obtain k e where y: "y = (k, e)" by fastforce
  have "dl c N (\<lambda>x. if x = k then p' else P x) zs (c k) q = dl c N P zs (c k) q"
    using assms(2) by (intro dl_cong) (auto simp: Cons y)
  then show ?thesis using assms(1) by (simp add: Cons y)
qed simp

lemma dl_relink_last:
  assumes "dl c N P xs p q" "distinct (map fst xs)"
  shows "dl c (\<lambda>x. if xs \<noteq> [] \<and> x = fst (last xs) then q' else N x) P xs p q'"
proof (cases xs rule: rev_cases)
  case (snoc zs y)
  obtain k e where y: "y = (k, e)" by fastforce
  have "dl c (\<lambda>x. if x = k then q' else N x) P zs p (c k) = dl c N P zs p (c k)"
    using assms(2) by (intro dl_cong) (auto simp: snoc y)
  then show ?thesis using assms(1) by (simp add: snoc y dl_append)
qed simp

lemma dl_join:
  assumes xs: "dl c N P xs p q" and ys: "dl c N P ys p' q'" and d: "distinct (map fst (xs @ ys))"
    and N': "\<And>k. k \<in> starts (xs @ ys) \<Longrightarrow> N' k = (if xs \<noteq> [] \<and> k = fst (last xs) then firstc c ys q' else N k)"
    and P': "\<And>k. k \<in> starts (xs @ ys) \<Longrightarrow> P' k = (if ys \<noteq> [] \<and> k = fst (hd ys) then lastc c xs p else P k)"
  shows "dl c N' P' (xs @ ys) p q'"
proof -
  have apart: "fst x \<noteq> fst y" if "x \<in> set xs" "y \<in> set ys" for x y using d that by auto
  have "dl c N' P' xs p (firstc c ys q') = dl c (\<lambda>x. if xs \<noteq> [] \<and> x = fst (last xs) then firstc c ys q' else N x) P xs p (firstc c ys q')"
  proof (rule dl_cong)
    fix k assume k: "k \<in> starts xs"
    then have kin: "k \<in> starts (xs @ ys)" by (simp add: image_Un)
    from k have "ys \<noteq> [] \<longrightarrow> k \<noteq> fst (hd ys)" using apart by (metis hd_in_set imageE)
    then show "N' k = (if xs \<noteq> [] \<and> k = fst (last xs) then firstc c ys q' else N k) \<and> P' k = P k"
      using N' [OF kin] P' [OF kin] by auto
  qed
  moreover have "dl c N' P' ys (lastc c xs p) q' = dl c N (\<lambda>x. if ys \<noteq> [] \<and> x = fst (hd ys) then lastc c xs p else P x) ys (lastc c xs p) q'"
  proof (rule dl_cong)
    fix k assume k: "k \<in> starts ys"
    then have kin: "k \<in> starts (xs @ ys)" by (simp add: image_Un)
    from k have "xs \<noteq> [] \<longrightarrow> k \<noteq> fst (last xs)" using apart by (metis last_in_set imageE)
    then show "N' k = N k \<and> P' k = (if ys \<noteq> [] \<and> k = fst (hd ys) then lastc c xs p else P k)"
      using N' [OF kin] P' [OF kin] by auto
  qed
  ultimately show ?thesis
    using dl_relink_last [OF xs, of "firstc c ys q'"] dl_relink_first [OF ys, of "lastc c xs p"] d by (simp add: dl_append)
qed

text \<open>A node is put between two lists.\<close>

lemma dl_mid:
  assumes xs: "dl c N P xs p q" and ys: "dl c N P ys p' q'" and d: "distinct (map fst xs)" "distinct (map fst ys)"
    and xs': "\<And>k. k \<in> starts xs \<Longrightarrow> N' k = (if k = fst (last xs) then c j else N k) \<and> P' k = P k"
    and ys': "\<And>k. k \<in> starts ys \<Longrightarrow> P' k = (if k = fst (hd ys) then c j else P k) \<and> N' k = N k"
    and j: "N' j = firstc c ys q'" "P' j = lastc c xs p"
  shows "dl c N' P' (xs @ (j, e) # ys) p q'"
proof -
  have "dl c N' P' xs p (c j) = dl c (\<lambda>x. if xs \<noteq> [] \<and> x = fst (last xs) then c j else N x) P xs p (c j)"
    by (rule dl_cong) (use xs' in \<open>auto split: if_splits\<close>)
  moreover have "dl c N' P' ys (c j) q' = dl c N (\<lambda>x. if ys \<noteq> [] \<and> x = fst (hd ys) then c j else P x) ys (c j) q'"
    by (rule dl_cong) (use ys' in \<open>auto split: if_splits\<close>)
  ultimately show ?thesis
    using dl_relink_last [OF xs d(1), of "c j"] dl_relink_first [OF ys d(2), of "c j"] j by (simp add: dl_append)
qed

section \<open>Representation\<close>

definition rrep :: "int \<Rightarrow> int \<Rightarrow> int \<Rightarrow> node list \<Rightarrow> CRcvLossList \<Rightarrow> bool" where
  "rrep b h lo ns l \<longleftrightarrow>
     0 < rl_Size l \<and> 2 * rl_Size l < m_iSeqNoTH \<and>
     length (rl_Data1 l) = nat (rl_Size l) \<and> length (rl_Data2 l) = nat (rl_Size l) \<and>
     length (rl_Next l) = nat (rl_Size l) \<and> length (rl_Prior l) = nat (rl_Size l) \<and>
     sep lo (lo + rl_Size l) ns \<and>
     (\<forall>x. win (rl_Size l) lo x \<longrightarrow> vw (rl_Size l) h (rl_Data1 l) x = cell1 b ns x \<and> vw (rl_Size l) h (rl_Data2 l) x = cell2 b ns x) \<and>
     dl (place (rl_Size l) h) (vw (rl_Size l) h (rl_Next l)) (vw (rl_Size l) h (rl_Prior l)) ns (- 1) (- 1) \<and>
     rl_Head l = firstc (place (rl_Size l) h) ns (- 1) \<and>
     (ns \<noteq> [] \<longrightarrow> rl_Tail l = lastc (place (rl_Size l) h) ns (- 1)) \<and> rl_Length l = total ns"

lemma rrepD:
  assumes "rrep b h lo ns l"
  shows "0 < rl_Size l" "2 * rl_Size l < m_iSeqNoTH" "length (rl_Data1 l) = nat (rl_Size l)"
    "length (rl_Data2 l) = nat (rl_Size l)" "length (rl_Next l) = nat (rl_Size l)" "length (rl_Prior l) = nat (rl_Size l)"
    "sep lo (lo + rl_Size l) ns"
    "\<And>x. win (rl_Size l) lo x \<Longrightarrow> vw (rl_Size l) h (rl_Data1 l) x = cell1 b ns x"
    "\<And>x. win (rl_Size l) lo x \<Longrightarrow> vw (rl_Size l) h (rl_Data2 l) x = cell2 b ns x"
    "dl (place (rl_Size l) h) (vw (rl_Size l) h (rl_Next l)) (vw (rl_Size l) h (rl_Prior l)) ns (- 1) (- 1)"
    "rl_Head l = firstc (place (rl_Size l) h) ns (- 1)" "ns \<noteq> [] \<Longrightarrow> rl_Tail l = lastc (place (rl_Size l) h) ns (- 1)"
    "rl_Length l = total ns"
  using assms by (auto simp: rrep_def)

lemma sep_win: "sep lo (lo + n) ns \<Longrightarrow> k \<in> starts ns \<Longrightarrow> win n lo k"
  using nodes_ok_starts [OF sep_nodes_ok] by (auto simp: win_def)

lemma sep_keys: "sep lo hi ns \<Longrightarrow> distinct (map fst ns)"
  using nodes_ok_distinct [OF sep_nodes_ok] .

text \<open>The arrays after a change, seen through \<open>vw\<close>.\<close>

lemma rrep_change:
  assumes r: "rrep b h lo ns l" and l': "rl_Size l' = rl_Size l" "length (rl_Data1 l') = length (rl_Data1 l)"
      "length (rl_Data2 l') = length (rl_Data2 l)" "length (rl_Next l') = length (rl_Next l)" "length (rl_Prior l') = length (rl_Prior l)"
    and s: "sep lo (lo + rl_Size l) ns'"
    and d: "\<And>x. win (rl_Size l) lo x \<Longrightarrow> vw (rl_Size l) h (rl_Data1 l') x = cell1 b ns' x \<and> vw (rl_Size l) h (rl_Data2 l') x = cell2 b ns' x"
    and k: "dl (place (rl_Size l) h) (vw (rl_Size l) h (rl_Next l')) (vw (rl_Size l) h (rl_Prior l')) ns' (- 1) (- 1)"
    and e: "rl_Head l' = firstc (place (rl_Size l) h) ns' (- 1)" "ns' \<noteq> [] \<Longrightarrow> rl_Tail l' = lastc (place (rl_Size l) h) ns' (- 1)"
      "rl_Length l' = total ns'"
  shows "rrep b h lo ns' l'"
  using rrepD(1-6) [OF r] l' s d k e by (simp add: rrep_def)

lemma win_neq_place: "rrep b h lo ns l \<Longrightarrow> win (rl_Size l) lo x \<Longrightarrow> win (rl_Size l) lo y \<Longrightarrow>
    place (rl_Size l) h x = place (rl_Size l) h y \<longleftrightarrow> x = y"
  by (rule place_inj)

lemma link_places:
  assumes r: "rrep b h lo (xs @ (k, e) # ys) l"
  shows "win (rl_Size l) lo k" "k \<notin> starts xs" "k \<notin> starts ys"
    "rnext l (place (rl_Size l) h k) = firstc (place (rl_Size l) h) ys (- 1)"
    "rprior l (place (rl_Size l) h k) = lastc (place (rl_Size l) h) xs (- 1)"
    "rl_Head l = place (rl_Size l) h k \<longleftrightarrow> xs = []" "rl_Tail l = place (rl_Size l) h k \<longleftrightarrow> ys = []"
    "rdata1 l (place (rl_Size l) h k) = seq_at b k" "rdata2 l (place (rl_Size l) h k) = (if e = k then - 1 else seq_at b e)"
    "k \<le> e" "win (rl_Size l) lo e"
proof -
  note d = rrepD [OF r]
  note ok = nodes_ok_keys [OF sep_nodes_ok [OF d(7)]]
  show w: "win (rl_Size l) lo k" by (rule sep_win [OF d(7)]) simp
  show "k \<notin> starts xs" "k \<notin> starts ys" by (rule ok)+
  show "k \<le> e" "win (rl_Size l) lo e" using ok(4-6) by (auto simp: win_def)
  show "rnext l (place (rl_Size l) h k) = firstc (place (rl_Size l) h) ys (- 1)"
    "rprior l (place (rl_Size l) h k) = lastc (place (rl_Size l) h) xs (- 1)"
    using d(10) by (simp_all add: dl_append vw_def)
  have inj: "place (rl_Size l) h x = place (rl_Size l) h k \<longleftrightarrow> x = k" if "x \<in> starts (xs @ (k, e) # ys)" for x
    using place_inj [OF sep_win [OF d(7) that] w] .
  show "rl_Head l = place (rl_Size l) h k \<longleftrightarrow> xs = []"
  proof (cases xs)
    case (Cons x zs)
    obtain k' e' where x: "x = (k', e')" by fastforce
    have "k' \<noteq> k" using ok(1) Cons x by auto
    then show ?thesis using d(11) inj [of k'] Cons x by simp
  qed (use d(11) in simp)
  show "rl_Tail l = place (rl_Size l) h k \<longleftrightarrow> ys = []"
  proof (cases ys rule: rev_cases)
    case (snoc zs x)
    obtain k' e' where x: "x = (k', e')" by fastforce
    have "k' \<noteq> k" using ok(2) snoc x by auto
    then show ?thesis using d(12) inj [of k'] snoc x by (simp add: lastc_def)
  qed (use d(12) in simp)
  show "rdata1 l (place (rl_Size l) h k) = seq_at b k" "rdata2 l (place (rl_Size l) h k) = (if e = k then - 1 else seq_at b e)"
    using d(8,9) [OF w] cell_node [OF ok(1), of b e ys] by (simp_all add: vw_def)
qed

section \<open>remove\<close>

lemma sep_drop: "sep lo hi (xs @ (k, e) # ys) \<Longrightarrow> sep lo hi (xs @ ys)"
  by (induction xs arbitrary: lo) (auto intro: sep_mono)

lemma unlink_rep:
  assumes r: "rrep b h lo (xs @ (k, k) # ys) l"
  shows "rrep b h lo (xs @ ys) (rl_shorten (rl_unlink (place (rl_Size l) h k) l))"
proof -
  let ?n = "rl_Size l" and ?c = "place (rl_Size l) h"
  note d = rrepD [OF r] and p = link_places [OF r]
  have s: "sep lo (lo + ?n) (xs @ ys)" by (rule sep_drop [OF d(7)])
  note keys = sep_keys [OF s] and win = sep_win [OF s]
  have nk: "k \<notin> starts (xs @ ys)" using p(2,3) by (simp add: image_Un)
  have dls: "dl ?c (vw ?n h (rl_Next l)) (vw ?n h (rl_Prior l)) xs (- 1) (?c k)" "dl ?c (vw ?n h (rl_Next l)) (vw ?n h (rl_Prior l)) ys (?c k) (- 1)"
    using d(10) by (simp_all add: dl_append)
  have hd: "ys \<noteq> [] \<Longrightarrow> firstc ?c ys (- 1) = ?c (fst (hd ys)) \<and> fst (hd ys) \<in> starts (xs @ ys)" by (cases ys) auto
  have la: "xs \<noteq> [] \<Longrightarrow> lastc ?c xs (- 1) = ?c (fst (last xs)) \<and> fst (last xs) \<in> starts (xs @ ys)" by (auto simp: lastc_def)
  let ?N = "if xs \<noteq> [] then aset (rl_Next l) (?c (fst (last xs))) (firstc ?c ys (- 1)) else rl_Next l"
  let ?P = "if ys \<noteq> [] then aset (rl_Prior l) (?c (fst (hd ys))) (lastc ?c xs (- 1)) else rl_Prior l"
  let ?l = "rl_shorten (rl_unlink (?c k) l)"
  have neq: "?c (fst (last xs)) \<noteq> ?c k" if "xs \<noteq> []"
  proof -
    have "fst (last xs) \<in> starts xs" using that by simp
    then have "fst (last xs) \<noteq> k" using p(2) by metis
    then show ?thesis using place_inj [OF win p(1)] la [OF that] by blast
  qed
  have f: "rl_Size ?l = ?n" "rl_Data1 ?l = aset (rl_Data1 l) (?c k) (- 1)" "rl_Data2 ?l = rl_Data2 l" "rl_Next ?l = ?N" "rl_Prior ?l = ?P"
      "rl_Head ?l = firstc ?c (xs @ ys) (- 1)" "rl_Tail ?l = (if xs \<noteq> [] \<and> ys = [] then lastc ?c xs (- 1) else rl_Tail l)"
      "rl_Length ?l = rl_Length l - 1"
  proof -
    have a: "rl_Size ?l = ?n \<and> rl_Data1 ?l = aset (rl_Data1 l) (?c k) (- 1) \<and> rl_Data2 ?l = rl_Data2 l \<and> rl_Next ?l = ?N \<and> rl_Prior ?l = ?P \<and>
      rl_Head ?l = firstc ?c (xs @ ys) (- 1) \<and> rl_Tail ?l = (if xs \<noteq> [] \<and> ys = [] then lastc ?c xs (- 1) else rl_Tail l) \<and>
      rl_Length ?l = rl_Length l - 1"
    proof (cases "xs = []")
      case True
      then show ?thesis using p(4-6) hd d(1) by (cases "ys = []") (simp_all add: rl_shorten_def rl_unlink_def r_setters Let_def)
    next
      case False
      then have "aget (aset (rl_Next l) (?c (fst (last xs))) v) (?c k) = rnext l (?c k)" for v
        using neq [OF False] d(1,5) place_range [OF d(1), of h] by (simp add: aget_aset inb_place)
      moreover have "firstc ?c (xs @ ys) (- 1) = rl_Head l" using d(11) False by (cases xs) auto
      ultimately show ?thesis
        using p(4-6) hd la [OF False] d(1) False by (cases "ys = []") (simp_all add: rl_shorten_def rl_unlink_def r_setters Let_def)
    qed
    then show "rl_Size ?l = ?n" "rl_Data1 ?l = aset (rl_Data1 l) (?c k) (- 1)" "rl_Data2 ?l = rl_Data2 l" "rl_Next ?l = ?N" "rl_Prior ?l = ?P"
      "rl_Head ?l = firstc ?c (xs @ ys) (- 1)" "rl_Tail ?l = (if xs \<noteq> [] \<and> ys = [] then lastc ?c xs (- 1) else rl_Tail l)"
      "rl_Length ?l = rl_Length l - 1" by blast+
  qed
  show ?thesis
  proof (rule rrep_change [OF r f(1)])
    show "vw ?n h (rl_Data1 ?l) x = cell1 b (xs @ ys) x \<and> vw ?n h (rl_Data2 ?l) x = cell2 b (xs @ ys) x" if x: "win ?n lo x" for x
      using d(8,9) [OF x] cell_mid [OF p(2), of b k ys x] cell_notin [OF nk, of b] p(1) x
      by (auto simp: f vw_aset [OF d(1,3), where lo = lo])
    show "dl ?c (vw ?n h (rl_Next ?l)) (vw ?n h (rl_Prior ?l)) (xs @ ys) (- 1) (- 1)"
    proof (rule dl_join [OF dls keys])
      fix j assume j: "j \<in> starts (xs @ ys)"
      show "vw ?n h (rl_Next ?l) j = (if xs \<noteq> [] \<and> j = fst (last xs) then firstc ?c ys (- 1) else vw ?n h (rl_Next l) j)"
        using win [OF j] la win by (auto simp: f(4) vw_aset [OF d(1,5), where lo = lo])
      show "vw ?n h (rl_Prior ?l) j = (if ys \<noteq> [] \<and> j = fst (hd ys) then lastc ?c xs (- 1) else vw ?n h (rl_Prior l) j)"
        using win [OF j] hd win by (auto simp: f(5) vw_aset [OF d(1,6), where lo = lo])
    qed
    show "rl_Tail ?l = lastc ?c (xs @ ys) (- 1)" if "xs @ ys \<noteq> []"
      using that d(12) by (cases ys) (auto simp: f(7) lastc_def)
    show "rl_Length ?l = total (xs @ ys)" using d(13) by (simp add: f(8))
  qed (use s f in auto)
qed

lemma smod_next: "rrep b h lo ns l \<Longrightarrow> (place (rl_Size l) h x + 1) smod rl_Size l = place (rl_Size l) h (x + 1)"
  using place_add_nonneg [OF rrepD(1), of b h lo ns l 1 h x] by simp

lemma first_cell: "ns \<noteq> [] \<Longrightarrow> firstc c ns q = c (fst (hd ns)) \<and> fst (hd ns) \<in> starts ns"
  by (cases ns) auto

lemma last_cell: "ns \<noteq> [] \<Longrightarrow> lastc c ns p = c (fst (last ns)) \<and> fst (last ns) \<in> starts ns"
  by (simp add: lastc_def)

lemma sep_next: "sep lo hi (xs @ (k, e) # ys) \<Longrightarrow> k < e \<Longrightarrow> sep lo hi (xs @ (k + 1, e) # ys)"
  by (fastforce simp: sep_append)

text \<open>The links after a new node: the arrays may be given by what they hold inside the window.\<close>

lemma mid_links:
  assumes dls: "dl c N P xs p q" "dl c N P ys p' q'" and keys: "distinct (map fst (xs @ (j, e) # ys))"
    and N': "\<And>x. x \<in> starts (xs @ (j, e) # ys) \<Longrightarrow> N' x = (if x = j then firstc c ys q' else if xs \<noteq> [] \<and> x = fst (last xs) then c j else N x)"
    and P': "\<And>x. x \<in> starts (xs @ (j, e) # ys) \<Longrightarrow> P' x = (if x = j then lastc c xs p else if ys \<noteq> [] \<and> x = fst (hd ys) then c j else P x)"
  shows "dl c N' P' (xs @ (j, e) # ys) p q'"
proof (rule dl_mid [OF dls])
  show "distinct (map fst xs)" "distinct (map fst ys)" using keys by simp_all
  have apart: "j \<notin> starts xs" "j \<notin> starts ys" "starts xs \<inter> starts ys = {}" using keys by auto
  have h: "ys \<noteq> [] \<Longrightarrow> fst (hd ys) \<in> starts ys" and l: "xs \<noteq> [] \<Longrightarrow> fst (last xs) \<in> starts xs" by simp_all
  show "N' k = (if k = fst (last xs) then c j else N k) \<and> P' k = P k" if k: "k \<in> starts xs" for k
  proof -
    have "k \<noteq> j" "ys \<noteq> [] \<longrightarrow> k \<noteq> fst (hd ys)" "xs \<noteq> []" using k apart h by auto
    then show ?thesis using N' [of k] P' [of k] k by (auto simp: image_Un)
  qed
  show "P' k = (if k = fst (hd ys) then c j else P k) \<and> N' k = N k" if k: "k \<in> starts ys" for k
  proof -
    have "k \<noteq> j" "xs \<noteq> [] \<longrightarrow> k \<noteq> fst (last xs)" using k apart l by blast+
    moreover have "ys \<noteq> []" using k by auto
    ultimately show ?thesis using N' [of k] P' [of k] k by (auto simp: image_Un)
  qed
  show "N' j = firstc c ys q'" "P' j = lastc c xs p" using N' [of j] P' [of j] by simp_all
qed

lemma move_data_fields:
  assumes "length (rl_Data1 l) = nat n" "length (rl_Data2 l) = nat n" "0 \<le> i" "i < n" "0 \<le> loc" "loc < n" "i \<noteq> loc"
  shows "rl_move_data loc i l = l
    \<lparr>rl_Data1 := aset (aset (rl_Data1 l) i (incseq (rdata1 l loc))) loc (- 1),
     rl_Data2 := aset (if seqcmp (rdata2 l loc) (incseq (rdata1 l loc)) > 0 then aset (rl_Data2 l) i (rdata2 l loc) else rl_Data2 l) loc (- 1)\<rparr>"
proof -
  have "aget (aset (rl_Data1 l) i v) loc = rdata1 l loc" for v using assms by (simp add: aget_aset inb_def)
  then show ?thesis by (simp add: rl_move_data_def r_setters Let_def)
qed

lemma move_links_fields:
  assumes "length (rl_Next l) = nat n" "length (rl_Prior l) = nat n" "0 \<le> i" "i < n" "0 \<le> loc" "loc < n" "i \<noteq> loc"
    "rl_Head l \<noteq> loc \<longrightarrow> rprior l loc \<noteq> i \<and> 0 \<le> rprior l loc"
  shows "rl_move_links loc i l = l
    \<lparr>rl_Next := (let N = aset (rl_Next l) i (rnext l loc) in if rl_Head l = loc then N else aset N (rprior l loc) i),
     rl_Prior := (let P = aset (rl_Prior l) i (rprior l loc) in if rl_Tail l = loc then P else aset P (rnext l loc) i),
     rl_Head := (if rl_Head l = loc then i else rl_Head l), rl_Tail := (if rl_Tail l = loc then i else rl_Tail l)\<rparr>"
proof -
  have "aget (aset A i v) i = v" "aget (aset A i v) loc = aget A loc" if "length A = nat n" for A :: "int list" and v
    using assms that by (simp_all add: aget_aset inb_def)
  moreover have "aget (aset (aset (rl_Next l) i v) (rprior l loc) w) i = v" if "rl_Head l \<noteq> loc" for v w
    using assms that by (simp add: inb_def)
  ultimately show ?thesis using assms(1,2) unfolding rl_move_links_def r_setters Let_def
    by (cases "rl_Head l = loc"; cases "rl_Tail l = loc") simp_all
qed

lemma advance_rep:
  assumes r: "rrep b h lo (xs @ (k, e) # ys) l" and ke: "k < e"
  shows "rrep b h lo (xs @ (k + 1, e) # ys) (rl_shorten (rl_advance (place (rl_Size l) h k) l))"
proof -
  let ?n = "rl_Size l" and ?c = "place (rl_Size l) h"
  note d = rrepD [OF r] and p = link_places [OF r]
  have s: "sep lo (lo + ?n) (xs @ (k + 1, e) # ys)" by (rule sep_next [OF d(7) ke])
  note win = sep_win [OF d(7)] and win' = sep_win [OF s]
  note ok = nodes_ok_keys [OF sep_nodes_ok [OF s]]
  have w1: "win ?n lo (k + 1)" by (rule win') simp
  have dls: "dl ?c (vw ?n h (rl_Next l)) (vw ?n h (rl_Prior l)) xs (- 1) (?c k)" "dl ?c (vw ?n h (rl_Next l)) (vw ?n h (rl_Prior l)) ys (?c k) (- 1)"
    using d(10) by (simp_all add: dl_append)
  have wx: "win ?n lo x" if "x \<in> starts xs \<or> x \<in> starts ys" for x using win [of x] that by (auto simp: image_Un)
  have ge: "aget (aset A (?c y) v) (?c x) = (if x = y then v else aget A (?c x))" if "length A = nat ?n" "win ?n lo x" "win ?n lo y" for A x y v
    by (rule aget_aset_place [OF d(1) that(1,3,2)])
  let ?N1 = "aset (rl_Next l) (?c (k + 1)) (firstc ?c ys (- 1))" and ?P1 = "aset (rl_Prior l) (?c (k + 1)) (lastc ?c xs (- 1))"
  let ?l = "rl_shorten (rl_advance (?c k) l)"
  have inc: "incseq (seq_at b k) = seq_at b (k + 1)" by (rule seq.inc_window)
  have "\<bar>e - (k + 1)\<bar> < m_iSeqNoTH" using p(1,11) ke d(2) by (auto simp: win_def)
  then have cmp: "seqcmp (seq_at b e) (seq_at b (k + 1)) > 0 \<longleftrightarrow> k + 1 < e" by (rule seq.cmp_window_gt)
  have ik: "?c (k + 1) \<noteq> ?c k" using place_inj [OF w1 p(1)] by simp
  have h: "ys \<noteq> [] \<Longrightarrow> firstc ?c ys (- 1) = ?c (fst (hd ys)) \<and> fst (hd ys) \<in> starts ys" by (rule first_cell)
  have la: "xs \<noteq> [] \<Longrightarrow> lastc ?c xs (- 1) = ?c (fst (last xs)) \<and> fst (last xs) \<in> starts xs" by (rule last_cell)
  have a: "rl_Size ?l = ?n \<and> rl_Data1 ?l = aset (aset (rl_Data1 l) (?c (k + 1)) (seq_at b (k + 1))) (?c k) (- 1) \<and>
      rl_Data2 ?l = aset (if k + 1 < e then aset (rl_Data2 l) (?c (k + 1)) (seq_at b e) else rl_Data2 l) (?c k) (- 1) \<and>
      rl_Next ?l = (if xs \<noteq> [] then aset ?N1 (?c (fst (last xs))) (?c (k + 1)) else ?N1) \<and>
      rl_Prior ?l = (if ys \<noteq> [] then aset ?P1 (?c (fst (hd ys))) (?c (k + 1)) else ?P1) \<and>
      rl_Head ?l = (if xs = [] then ?c (k + 1) else rl_Head l) \<and> rl_Tail ?l = (if ys = [] then ?c (k + 1) else rl_Tail l) \<and>
      rl_Length ?l = rl_Length l - 1"
  proof -
    note range = place_range [OF d(1), of h k] place_range [OF d(1), of h "k + 1"]
    have md: "rl_move_data (?c k) (?c (k + 1)) l = l
      \<lparr>rl_Data1 := aset (aset (rl_Data1 l) (?c (k + 1)) (seq_at b (k + 1))) (?c k) (- 1),
       rl_Data2 := aset (if k + 1 < e then aset (rl_Data2 l) (?c (k + 1)) (seq_at b e) else rl_Data2 l) (?c k) (- 1)\<rparr>"
      using move_data_fields [of l ?n "?c (k + 1)" "?c k"] range ik d(3,4) p(8,9) ke inc cmp by simp
    have pr: "xs \<noteq> [] \<longrightarrow> lastc ?c xs (- 1) \<noteq> ?c (k + 1) \<and> 0 \<le> lastc ?c xs (- 1)"
      using la place_range [OF d(1), of h] place_inj [OF wx w1] ok(1) by metis
    show ?thesis
      unfolding rl_shorten_def rl_advance_def Let_def smod_next [OF r] md
      using h la pr d(1) range ik p(4-7) d(5,6)
      by (cases "xs = []"; cases "ys = []") (simp_all add: move_links_fields [where n = ?n])
  qed
  then have f: "rl_Size ?l = ?n" "rl_Data1 ?l = aset (aset (rl_Data1 l) (?c (k + 1)) (seq_at b (k + 1))) (?c k) (- 1)"
      "rl_Data2 ?l = aset (if k + 1 < e then aset (rl_Data2 l) (?c (k + 1)) (seq_at b e) else rl_Data2 l) (?c k) (- 1)"
      "rl_Next ?l = (if xs \<noteq> [] then aset ?N1 (?c (fst (last xs))) (?c (k + 1)) else ?N1)"
      "rl_Prior ?l = (if ys \<noteq> [] then aset ?P1 (?c (fst (hd ys))) (?c (k + 1)) else ?P1)"
      "rl_Head ?l = (if xs = [] then ?c (k + 1) else rl_Head l)" "rl_Tail ?l = (if ys = [] then ?c (k + 1) else rl_Tail l)"
      "rl_Length ?l = rl_Length l - 1" by blast+
  show ?thesis
  proof (rule rrep_change [OF r f(1)])
    show "vw ?n h (rl_Data1 ?l) x = cell1 b (xs @ (k + 1, e) # ys) x \<and> vw ?n h (rl_Data2 ?l) x = cell2 b (xs @ (k + 1, e) # ys) x" if x: "win ?n lo x" for x
    proof -
      have nk: "k \<notin> starts (xs @ ys)" using p(2,3) by (simp add: image_Un)
      have "k + 1 \<notin> starts (xs @ ys)" using ok(1,2) by (simp add: image_Un)
      then show ?thesis
        using d(8,9) [OF x] cell_mid [OF p(2), of b e ys x] cell_mid [OF ok(1), of b e ys x] cell_notin [OF nk, of b] cell_notin [of "k + 1" "xs @ ys" b] p(1) w1 x ke
        by (auto simp: f(2,3) vw_aset [OF d(1), where lo = lo] d(3,4))
    qed
    show "dl ?c (vw ?n h (rl_Next ?l)) (vw ?n h (rl_Prior ?l)) (xs @ (k + 1, e) # ys) (- 1) (- 1)"
    proof (rule mid_links [OF dls sep_keys [OF s]])
      fix x assume x: "x \<in> starts (xs @ (k + 1, e) # ys)"
      have wl: "xs \<noteq> [] \<Longrightarrow> win ?n lo (fst (last xs)) \<and> fst (last xs) \<noteq> k + 1" and wh: "ys \<noteq> [] \<Longrightarrow> win ?n lo (fst (hd ys)) \<and> fst (hd ys) \<noteq> k + 1"
        using la h wx ok(1,2) by metis+
      show "vw ?n h (rl_Next ?l) x = (if x = k + 1 then firstc ?c ys (- 1) else if xs \<noteq> [] \<and> x = fst (last xs) then ?c (k + 1) else vw ?n h (rl_Next l) x)"
        using wl win' [OF x] by (cases "xs = []") (simp_all add: f(4) vw_aset [OF d(1), where lo = lo] d(5) w1)
      show "vw ?n h (rl_Prior ?l) x = (if x = k + 1 then lastc ?c xs (- 1) else if ys \<noteq> [] \<and> x = fst (hd ys) then ?c (k + 1) else vw ?n h (rl_Prior l) x)"
        using wh win' [OF x] by (cases "ys = []") (simp_all add: f(5) vw_aset [OF d(1), where lo = lo] d(6) w1)
    qed
    show "rl_Head ?l = firstc ?c (xs @ (k + 1, e) # ys) (- 1)" using d(11) by (cases xs) (auto simp: f(6))
    show "rl_Tail ?l = lastc ?c (xs @ (k + 1, e) # ys) (- 1)"
      using d(12) by (cases ys rule: rev_cases) (auto simp: f(7) lastc_def)
    show "rl_Length ?l = total (xs @ (k + 1, e) # ys)" using d(13) by (simp add: f(8))
  qed (use s f in auto)
qed

text \<open>A node that loses its last number.\<close>

lemma sep_cut: "sep lo hi (xs @ (k, e) # ys) \<Longrightarrow> k \<le> e' \<Longrightarrow> e' \<le> e \<Longrightarrow> sep lo hi (xs @ (k, e') # ys)"
  using sep_mono [of "e + 1" hi ys "e' + 1" hi] by (fastforce simp: sep_append)

lemma dl_end: "dl c N P (xs @ (k, e) # ys) p q = dl c N P (xs @ (k, e') # ys) p q"
  by (simp add: dl_append)

lemma lastc_end: "lastc c (xs @ (k, e) # ys) p = lastc c (xs @ (k, e') # ys) p"
  by (simp add: lastc_Cons)

lemma firstc_end: "firstc c (xs @ (k, e) # ys) p = firstc c (xs @ (k, e') # ys) p"
  by (simp add: firstc_append)

lemma resize_rep:
  assumes r: "rrep b h lo (xs @ (k, e) # ys) l" and s: "sep lo (lo + rl_Size l) (xs @ (k, e') # ys)"
    and l': "l' = l\<lparr>rl_Data2 := aset (rl_Data2 l) (place (rl_Size l) h k) (if e' = k then - 1 else seq_at b e'), rl_Length := rl_Length l + (e' - e)\<rparr>"
  shows "rrep b h lo (xs @ (k, e') # ys) l'"
proof -
  note d = rrepD [OF r] and p = link_places [OF r]
  show ?thesis
  proof (rule rrep_change [OF r])
    show "sep lo (lo + rl_Size l) (xs @ (k, e') # ys)" by (rule s)
    show "vw (rl_Size l) h (rl_Data1 l') x = cell1 b (xs @ (k, e') # ys) x \<and> vw (rl_Size l) h (rl_Data2 l') x = cell2 b (xs @ (k, e') # ys) x"
      if x: "win (rl_Size l) lo x" for x
      using d(8,9) [OF x] p(1) x cell_mid [OF p(2), of b e ys x] cell_mid [OF p(2), of b e' ys x] by (auto simp: l' vw_aset [OF d(1,4), where lo = lo])
    show "rl_Tail l' = lastc (place (rl_Size l) h) (xs @ (k, e') # ys) (- 1)" using d(12) lastc_end [of _ xs k e ys] by (simp add: l')
    show "rl_Head l' = firstc (place (rl_Size l) h) (xs @ (k, e') # ys) (- 1)" using d(11) firstc_end [of _ xs k e ys] by (simp add: l')
    show "dl (place (rl_Size l) h) (vw (rl_Size l) h (rl_Next l')) (vw (rl_Size l) h (rl_Prior l')) (xs @ (k, e') # ys) (- 1) (- 1)"
      using dl_end [THEN iffD1, OF d(10), of e'] by (simp add: l')
    show "rl_Length l' = total (xs @ (k, e') # ys)" using d(13) by (simp add: l')
  qed (simp_all add: l')
qed

lemma decseq_window: "decseq (seq_at b k) = seq_at b (k - 1)"
  using decseq_incseq [OF valid_seq_at, of b "k - 1"] by (simp add: seq.inc_window)

lemma cut_end_rep:
  assumes r: "rrep b h lo (xs @ (k, e) # ys) l" and ke: "k < e"
  shows "rrep b h lo (xs @ (k, e - 1) # ys) (rl_shorten (rl_cut (seq_at b e) loc (place (rl_Size l) h k) l))"
proof (rule resize_rep [OF r])
  note p = link_places [OF r]
  show "sep lo (lo + rl_Size l) (xs @ (k, e - 1) # ys)" by (rule sep_cut [OF rrepD(7) [OF r]]) (use ke in auto)
  have w: "win (rl_Size l) lo k" "win (rl_Size l) lo e" using p(1,11) .
  have "seq_at b e = seq_at b (k + 1) \<longleftrightarrow> e = k + 1"
    using w rrepD(2) [OF r] by (intro seq.shift_inj) (auto simp: win_def)
  then show "rl_shorten (rl_cut (seq_at b e) loc (place (rl_Size l) h k) l) = l
      \<lparr>rl_Data2 := aset (rl_Data2 l) (place (rl_Size l) h k) (if e - 1 = k then - 1 else seq_at b (e - 1)), rl_Length := rl_Length l + (e - 1 - e)\<rparr>"
    using p(8,9) ke by (auto simp: rl_cut_def rl_shorten_def r_setters Let_def seq.inc_window decseq_window)
qed

text \<open>A node that loses a number in its middle becomes two.\<close>

lemma split_data_fields:
  assumes "length (rl_Data1 l) = nat n" "length (rl_Data2 l) = nat n" "0 \<le> i" "i < n" "0 \<le> loc" "loc < n" "i \<noteq> loc"
  shows "rl_split_data seqno loc i l = l
    \<lparr>rl_Data1 := aset (rl_Data1 l) loc (incseq seqno),
     rl_Data2 := aset (if seqcmp (rdata2 l i) (incseq seqno) > 0 then aset (rl_Data2 l) loc (rdata2 l i) else rl_Data2 l) i
       (if seqno = incseq (rdata1 l i) then - 1 else decseq seqno)\<rparr>"
proof -
  have "aget (aset (rl_Data1 l) loc v) i = rdata1 l i" "aget (aset (rl_Data1 l) loc v) loc = v" for v
    using assms by (simp_all add: aget_aset inb_def)
  then show ?thesis by (simp add: rl_split_data_def r_setters Let_def)
qed

lemma split_links_fields:
  assumes "length (rl_Next l) = nat n" "length (rl_Prior l) = nat n" "0 \<le> i" "i < n" "0 \<le> loc" "loc < n" "i \<noteq> loc"
  shows "rl_split_links loc i l = l
    \<lparr>rl_Next := aset (aset (rl_Next l) loc (rnext l i)) i loc,
     rl_Prior := (let P = aset (rl_Prior l) loc i in if rl_Tail l = i then P else aset P (rnext l i) loc),
     rl_Tail := (if rl_Tail l = i then loc else rl_Tail l)\<rparr>"
proof -
  have "aget (aset (aset (rl_Next l) loc v) i w) loc = v" for v w
    using assms by (simp add: inb_def)
  then show ?thesis unfolding rl_split_links_def r_setters Let_def by (cases "rl_Tail l = i") simp_all
qed

lemma sep_halves: "sep lo hi (xs @ (k, e) # ys) \<Longrightarrow> k < j \<Longrightarrow> j < e \<Longrightarrow> sep lo hi (xs @ (k, j - 1) # (j + 1, e) # ys)"
  by (fastforce simp: sep_append)

lemma split_rep:
  assumes r: "rrep b h lo (xs @ (k, e) # ys) l" and j: "k < j" "j < e"
  shows "rrep b h lo (xs @ (k, j - 1) # (j + 1, e) # ys)
    (rl_shorten (rl_cut (seq_at b j) (place (rl_Size l) h j) (place (rl_Size l) h k) l))"
proof -
  let ?n = "rl_Size l" and ?c = "place (rl_Size l) h" and ?ns = "xs @ (k, j - 1) # (j + 1, e) # ys"
  note d = rrepD [OF r] and p = link_places [OF r]
  have s: "sep lo (lo + ?n) ?ns" by (rule sep_halves [OF d(7) j])
  note win = sep_win [OF d(7)] and win' = sep_win [OF s]
  have keys: "distinct (map fst ?ns)" by (rule sep_keys [OF s])
  have w1: "win ?n lo (j + 1)" by (rule win') simp
  have close: "\<bar>x - y\<bar> < m_iSeqNoTH" if "win ?n lo x" "win ?n lo y" for x y using that d(2) by (auto simp: win_def)
  have wj: "win ?n lo j" using p(1) w1 j by (auto simp: win_def)
  have wk1: "win ?n lo (k + 1)" using p(1) w1 j by (auto simp: win_def)
  have eqs: "seq_at b j = seq_at b e \<longleftrightarrow> j = e" "seq_at b j = seq_at b (k + 1) \<longleftrightarrow> j = k + 1"
      "seqcmp (seq_at b e) (seq_at b (j + 1)) > 0 \<longleftrightarrow> j + 1 < e"
    using close [OF p(11) wj] close [OF wk1 wj] close [OF p(11) w1] by (auto simp: seq.shift_inj seq.cmp_window_gt)
  have ik: "?c k \<noteq> ?c (j + 1)" using place_inj [OF p(1) w1] j by simp
  note range = place_range [OF d(1), of h k] place_range [OF d(1), of h "j + 1"]
  have h: "ys \<noteq> [] \<Longrightarrow> firstc ?c ys (- 1) = ?c (fst (hd ys)) \<and> win ?n lo (fst (hd ys))"
    using first_cell win by (fastforce simp: image_Un)
  let ?l = "rl_shorten (rl_cut (seq_at b j) (?c j) (?c k) l)"
  have sd: "rl_split_data (seq_at b j) (?c (j + 1)) (?c k) l = l
      \<lparr>rl_Data1 := aset (rl_Data1 l) (?c (j + 1)) (seq_at b (j + 1)),
       rl_Data2 := aset (if j + 1 < e then aset (rl_Data2 l) (?c (j + 1)) (seq_at b e) else rl_Data2 l) (?c k)
         (if j - 1 = k then - 1 else seq_at b (j - 1))\<rparr>"
    using split_data_fields [of l ?n "?c k" "?c (j + 1)"] range ik d(3,4) p(8,9) j eqs by (auto simp: seq.inc_window decseq_window)
  have f: "rl_Size ?l = ?n" "rl_Data1 ?l = aset (rl_Data1 l) (?c (j + 1)) (seq_at b (j + 1))"
      "rl_Data2 ?l = aset (if j + 1 < e then aset (rl_Data2 l) (?c (j + 1)) (seq_at b e) else rl_Data2 l) (?c k)
         (if j - 1 = k then - 1 else seq_at b (j - 1))"
      "rl_Next ?l = aset (aset (rl_Next l) (?c (j + 1)) (firstc ?c ys (- 1))) (?c k) (?c (j + 1))"
      "rl_Prior ?l = (let P = aset (rl_Prior l) (?c (j + 1)) (?c k) in if ys = [] then P else aset P (?c (fst (hd ys))) (?c (j + 1)))"
      "rl_Head ?l = rl_Head l" "rl_Tail ?l = (if ys = [] then ?c (j + 1) else rl_Tail l)" "rl_Length ?l = rl_Length l - 1"
    using h d(1) range ik p(4,5,7,9) j d(5,6) eqs(1) smod_next [OF r, of j]
    by (simp_all add: rl_shorten_def rl_cut_def Let_def sd split_links_fields [where n = ?n])
  have dls: "dl ?c (vw ?n h (rl_Next l)) (vw ?n h (rl_Prior l)) (xs @ [(k, j - 1)]) (- 1) (firstc ?c ys (- 1))"
      "dl ?c (vw ?n h (rl_Next l)) (vw ?n h (rl_Prior l)) ys (?c k) (- 1)"
    using d(10) by (simp_all add: dl_append firstc_append)
  show ?thesis
  proof (rule rrep_change [OF r f(1)])
    show "vw ?n h (rl_Data1 ?l) x = cell1 b ?ns x \<and> vw ?n h (rl_Data2 ?l) x = cell2 b ?ns x" if x: "win ?n lo x" for x
    proof -
      have "j + 1 \<notin> starts (xs @ [(k, j - 1)])" "j + 1 \<notin> starts (xs @ (k, j - 1) # ys)" using keys by (auto simp: image_Un)
      then show ?thesis
        using d(8,9) [OF x] cell_mid [OF p(2), of b e ys x] cell_mid [OF p(2), of b "j - 1" ys x] cell_notin [of "j + 1" "xs @ (k, j - 1) # ys" b]
          cell_mid [of "j + 1" "xs @ [(k, j - 1)]" b e ys x] p(1) w1 x j
        by (auto simp: f(2,3) vw_aset [OF d(1), where lo = lo] d(3,4))
    qed
    have "dl ?c (vw ?n h (rl_Next ?l)) (vw ?n h (rl_Prior ?l)) ((xs @ [(k, j - 1)]) @ (j + 1, e) # ys) (- 1) (- 1)"
    proof (rule mid_links [OF dls])
      show "distinct (map fst ((xs @ [(k, j - 1)]) @ (j + 1, e) # ys))" using keys by simp
      fix x assume "x \<in> starts ((xs @ [(k, j - 1)]) @ (j + 1, e) # ys)"
      then have x: "win ?n lo x" using win' by simp
      show "vw ?n h (rl_Next ?l) x = (if x = j + 1 then firstc ?c ys (- 1)
          else if xs @ [(k, j - 1)] \<noteq> [] \<and> x = fst (last (xs @ [(k, j - 1)])) then ?c (j + 1) else vw ?n h (rl_Next l) x)"
        using x p(1) w1 j d(5) by (simp add: f(4) vw_aset [OF d(1), where lo = lo])
      have "ys \<noteq> [] \<longrightarrow> fst (hd ys) \<noteq> j + 1" using keys by (cases ys) auto
      then show "vw ?n h (rl_Prior ?l) x = (if x = j + 1 then lastc ?c (xs @ [(k, j - 1)]) (- 1)
          else if ys \<noteq> [] \<and> x = fst (hd ys) then ?c (j + 1) else vw ?n h (rl_Prior l) x)"
        using x p(1) w1 h d(6) by (cases "ys = []") (simp_all add: f(5) vw_aset [OF d(1), where lo = lo])
    qed
    then show "dl ?c (vw ?n h (rl_Next ?l)) (vw ?n h (rl_Prior ?l)) ?ns (- 1) (- 1)" by simp
    show "rl_Head ?l = firstc ?c ?ns (- 1)" using d(11) by (cases xs) (auto simp: f(6))
    show "rl_Tail ?l = lastc ?c ?ns (- 1)" using d(12) by (cases ys rule: rev_cases) (auto simp: f(7) lastc_def)
    show "rl_Length ?l = total ?ns" using d(13) by (simp add: f(8))
  qed (use s f in \<open>auto simp: Let_def\<close>)
qed

text \<open>The walk back from \<open>x\<close> stops at the last node that starts no later.\<close>

lemma find_node_spec:
  assumes r: "rrep b h lo (xs @ (k, e) # ys) l" and ys: "\<forall>s\<in>starts ys. x < s"
  shows "k \<le> x \<Longrightarrow> x < lo + rl_Size l \<Longrightarrow> nat (x - k) < f \<Longrightarrow>
    rl_find_node f l (place (rl_Size l) h x) = Some (place (rl_Size l) h k)"
  using ys
proof (induction f arbitrary: x)
  case (Suc f)
  note d = rrepD [OF r] and p = link_places [OF r]
  have w: "win (rl_Size l) lo x" using Suc.prems p(1) by (auto simp: win_def)
  show ?case
  proof (cases "x = k")
    case True
    then show ?thesis using p(8) by simp
  next
    case False
    have "s < k" if "s \<in> starts xs" for s
      using d(7) that by (fastforce simp: sep_append dest: nodes_ok_bounds [OF sep_nodes_ok])
    then have "x \<notin> starts (xs @ (k, e) # ys)" using False Suc.prems(1,4) by (force simp: image_Un)
    then have "rdata1 l (place (rl_Size l) h x) = - 1" using d(8) [OF w] cell_notin by (simp add: vw_def)
    moreover have "rl_find_node f l (place (rl_Size l) h (x - 1)) = Some (place (rl_Size l) h k)"
      using Suc.prems False by (intro Suc.IH) auto
    moreover have "(place (rl_Size l) h x - 1 + rl_Size l) smod rl_Size l = place (rl_Size l) h (x - 1)"
      using place_add [OF d(1), of "- 1" h x] d(1) by simp
    ultimately show ?thesis by simp
  qed
qed simp

lemma split_before:
  "ns \<noteq> [] \<Longrightarrow> fst (hd ns) < j \<Longrightarrow> sep lo hi ns \<Longrightarrow>
     \<exists>xs k e ys. ns = xs @ (k, e) # ys \<and> k < j \<and> (\<forall>s\<in>starts ys. j \<le> s)"
proof (induction ns arbitrary: lo)
  case (Cons m ns)
  obtain k e where m: "m = (k, e)" by fastforce
  show ?case
  proof (cases "ns \<noteq> [] \<and> fst (hd ns) < j")
    case True
    then obtain xs k' e' ys where "ns = xs @ (k', e') # ys" "k' < j" "\<forall>s\<in>starts ys. j \<le> s"
      using Cons.IH [of "e + 1"] Cons.prems m by auto
    then show ?thesis by (intro exI [of _ "m # xs"] exI [of _ k'] exI [of _ e'] exI [of _ ys]) simp
  next
    case False
    have "\<forall>s\<in>starts ns. j \<le> s"
    proof (cases ns)
      case (Cons m' ns')
      obtain k' e' where "m' = (k', e')" by fastforce
      then show ?thesis using False Cons.prems(3) m Cons nodes_ok_starts [OF sep_nodes_ok, of "e' + 1" hi ns'] by fastforce
    qed simp
    then show ?thesis using m Cons.prems(2) by (intro exI [of _ "[]"] exI [of _ k] exI [of _ e] exI [of _ ns]) simp
  qed
qed simp

lemma rl_sizes [simp]:
  "rl_Size (rl_unlink loc l) = rl_Size l" "rl_Size (rl_advance loc l) = rl_Size l" "rl_Size (rl_cut s loc i l) = rl_Size l"
  "rl_Size (rl_shorten l) = rl_Size l"
  by (simp_all add: rl_unlink_def rl_advance_def rl_cut_def rl_shorten_def rl_move_data_def rl_move_links_def
      rl_split_data_def rl_split_links_def r_setters Let_def)

lemma covered_outside: "sep lo hi (xs @ (k, e) # ys) \<Longrightarrow> k \<le> x \<Longrightarrow> x \<le> e \<Longrightarrow> x \<notin> covered xs \<and> x \<notin> covered ys"
  using covered_bounds [OF sep_nodes_ok, of "e + 1" hi ys x] by (fastforce simp: sep_append covered_def)

text \<open>The outcome of removing \<open>j\<close>.\<close>

definition rremoved :: "int \<Rightarrow> int \<Rightarrow> int \<Rightarrow> node list \<Rightarrow> int \<Rightarrow> CRcvLossList \<Rightarrow> (bool \<times> CRcvLossList) option \<Rightarrow> bool" where
  "rremoved b h lo ns j l res \<longleftrightarrow> (\<exists>l' ns'. res = Some (j \<in> covered ns, l') \<and> rrep b h lo ns' l' \<and>
     covered ns' = covered ns - {j} \<and> rl_Size l' = rl_Size l)"

lemma remove_start:
  assumes r: "rrep b h lo (xs @ (j, e) # ys) l"
  shows "rremoved b h lo (xs @ (j, e) # ys) j l
    (Some (True, rl_shorten (if - 1 = rdata2 l (place (rl_Size l) h j) then rl_unlink (place (rl_Size l) h j) l
       else rl_advance (place (rl_Size l) h j) l)))"
proof -
  note p = link_places [OF r] and o = covered_outside [OF rrepD(7) [OF r]]
  have c: "- 1 = rdata2 l (place (rl_Size l) h j) \<longleftrightarrow> e = j" using p(9) by simp
  show ?thesis
  proof (cases "e = j")
    case True
    then have "rrep b h lo (xs @ ys) (rl_shorten (rl_unlink (place (rl_Size l) h j) l))" using unlink_rep r by blast
    then show ?thesis using True c o [of j] unfolding rremoved_def
      by (intro exI [of _ "rl_shorten (rl_unlink (place (rl_Size l) h j) l)"] exI [of _ "xs @ ys"]) auto
  next
    case False
    then have "rrep b h lo (xs @ (j + 1, e) # ys) (rl_shorten (rl_advance (place (rl_Size l) h j) l))"
      using advance_rep [OF r] p(10) by simp
    then show ?thesis using False c o [of j] p(10) unfolding rremoved_def
      by (intro exI [of _ "rl_shorten (rl_advance (place (rl_Size l) h j) l)"] exI [of _ "xs @ (j + 1, e) # ys"]) auto
  qed
qed

lemma remove_inner:
  assumes r: "rrep b h lo (xs @ (k, e) # ys) l" and k: "k < j" and ys: "\<forall>s\<in>starts ys. j < s" and w: "win (rl_Size l) lo j"
  defines "i \<equiv> place (rl_Size l) h k"
  shows "rremoved b h lo (xs @ (k, e) # ys) j l
    (Some (if - 1 = rdata2 l i \<or> seqcmp (seq_at b j) (rdata2 l i) > 0 then (False, l)
      else (True, rl_shorten (rl_cut (seq_at b j) (place (rl_Size l) h j) i l))))"
proof -
  note d = rrepD [OF r] and p = link_places [OF r] and o = covered_outside [OF rrepD(7) [OF r]]
  have "\<bar>j - e\<bar> < m_iSeqNoTH" using w p(11) d(2) by (auto simp: win_def)
  then have c: "(- 1 = rdata2 l i \<or> seqcmp (seq_at b j) (rdata2 l i) > 0) \<longleftrightarrow> e < j"
    using p(9,10) k by (auto simp: i_def seq.cmp_window_gt)
  consider "e < j" | "j = e" | "j < e" by linarith
  then show ?thesis
  proof cases
    case 1
    have "j \<notin> covered xs" using d(7) k by (fastforce simp: sep_append covered_def)
    moreover have "j \<notin> covered ys"
    proof
      assume "j \<in> covered ys"
      then obtain k' e' where "(k', e') \<in> set ys" "k' \<le> j" by (auto simp: covered_def)
      then show False using ys by force
    qed
    ultimately have "j \<notin> covered (xs @ (k, e) # ys)" using 1 by simp
    then show ?thesis using 1 c r unfolding rremoved_def by (intro exI [of _ l] exI [of _ "xs @ (k, e) # ys"]) simp
  next
    case 2
    then have "rrep b h lo (xs @ (k, e - 1) # ys) (rl_shorten (rl_cut (seq_at b j) (place (rl_Size l) h j) i l))"
      using cut_end_rep [OF r, of "place (rl_Size l) h j"] k by (simp add: i_def)
    moreover have "covered (xs @ (k, e - 1) # ys) = covered (xs @ (k, e) # ys) - {j}" using o [of j] 2 k by auto
    ultimately show ?thesis using 2 c k unfolding rremoved_def by auto
  next
    case 3
    then have "rrep b h lo (xs @ (k, j - 1) # (j + 1, e) # ys) (rl_shorten (rl_cut (seq_at b j) (place (rl_Size l) h j) i l))"
      using split_rep [OF r k] by (simp add: i_def)
    moreover have "covered (xs @ (k, j - 1) # (j + 1, e) # ys) = covered (xs @ (k, e) # ys) - {j}" using o [of j] 3 k by auto
    ultimately show ?thesis using 3 c k unfolding rremoved_def by auto
  qed
qed

lemma remove_rep:
  assumes r: "rrep b h lo ns l" and w: "win (rl_Size l) lo j"
  shows "rremoved b h lo ns j l (CRcvLossList_remove (seq_at b j) l)"
proof (cases ns)
  case Nil
  then show ?thesis using r rrepD(13) [OF r] by (auto simp: rremoved_def CRcvLossList_remove_def)
next
  case (Cons m rest)
  obtain k0 e0 where m: "m = (k0, e0)" by fastforce
  note d = rrepD [OF r]
  let ?c = "place (rl_Size l) h"
  have w0: "win (rl_Size l) lo k0" using sep_win [OF d(7), of k0] Cons m by simp
  have close: "\<bar>x - y\<bar> < m_iSeqNoTH" if "win (rl_Size l) lo x" "win (rl_Size l) lo y" for x y using that d(2) by (auto simp: win_def)
  have h: "rl_Head l = ?c k0" "rdata1 l (rl_Head l) = seq_at b k0"
    using d(11) link_places(8) [of b h lo "[]" k0 e0 rest l] r by (simp_all add: Cons m)
  have len: "rl_Length l \<noteq> 0" using d(13) total_pos [OF sep_nodes_ok [OF d(7)]] Cons by simp
  have off: "seqoff (rdata1 l (rl_Head l)) (seq_at b j) = j - k0" using seq.off_window [OF close [OF w w0]] h by simp
  show ?thesis
  proof (cases "j < k0")
    case True
    have "sep k0 (lo + rl_Size l) ns" using d(7) Cons m by simp
    then have "j \<notin> covered ns" using True covered_bounds [OF sep_nodes_ok] by fastforce
    then show ?thesis using True len off r by (auto simp: rremoved_def CRcvLossList_remove_def)
  next
    case False
    have loc: "(rl_Head l + (j - k0)) smod rl_Size l = ?c j" using place_add_nonneg [OF d(1), of "j - k0" h k0] False h by simp
    have at: "seq_at b j = rdata1 l (?c j) \<longleftrightarrow> j \<in> starts ns"
      using d(8) [OF w] map_of_eq_None_iff [of ns j] by (cases "map_of ns j") (auto simp: vw_def cell1_def)
    show ?thesis
    proof (cases "j \<in> starts ns")
      case True
      then obtain e where "(j, e) \<in> set ns" by auto
      then obtain xs ys where ns: "ns = xs @ (j, e) # ys" by (metis split_list)
      show ?thesis using remove_start [of b h lo xs j e ys l] r at True False len off loc
        by (simp add: CRcvLossList_remove_def Let_def ns)
    next
      case nst: False
      then have "k0 < j" using False Cons m by force
      then obtain xs k e ys where ns: "ns = xs @ (k, e) # ys" "k < j" "\<forall>s\<in>starts ys. j \<le> s"
        using split_before [OF _ _ d(7), of j] Cons m by auto
      have ys: "\<forall>s\<in>starts ys. j < s" using ns(1,3) nst by (force simp: le_less)
      have r': "rrep b h lo (xs @ (k, e) # ys) l" using r ns(1) by simp
      have "rl_find_node (rl_fuel l) l (?c (j - 1)) = Some (?c k)"
      proof (rule find_node_spec [OF r'])
        show "k \<le> j - 1" "j - 1 < lo + rl_Size l" using ns(2) w by (auto simp: win_def)
        show "nat (j - 1 - k) < rl_fuel l" using w link_places(1) [OF r'] by (auto simp: rl_fuel_def win_def)
      qed (use ys in force)
      moreover have "(?c j - 1 + rl_Size l) smod rl_Size l = ?c (j - 1)"
        using place_add [OF d(1), of "- 1" h j] d(1) by simp
      ultimately show ?thesis
        using remove_inner [OF r' ns(2) ys w] at nst False len off loc by (simp add: CRcvLossList_remove_def Let_def ns(1))
    qed
  qed
qed

section \<open>insert\<close>

lemma insert_extend:
  assumes r: "rrep b h lo (xs @ [(k, e)]) l" and ke: "k < e" and w: "win (rl_Size l) lo j" "e < j"
  shows "rrep b h lo (xs @ [(k, j)]) (CRcvLossList_insert (seq_at b (e + 1)) (seq_at b j) l)"
proof (rule resize_rep [OF r])
  note d = rrepD [OF r] and p = link_places [OF r]
  show "sep lo (lo + rl_Size l) (xs @ [(k, j)])" using d(7) w ke by (auto simp: sep_append win_def)
  have "rl_Tail l = place (rl_Size l) h k" using d(12) by simp
  moreover have "j - (e + 1) < m_iSeqNoTH" using w p(11) d(2) by (auto simp: win_def)
  then have "seqlen (seq_at b (e + 1)) (seq_at b j) = j - e" using seq.len_window [of "e + 1" j b] w by simp
  moreover have "rl_Length l \<noteq> 0" using d(13) total_pos [OF sep_nodes_ok [OF d(7)]] by simp
  ultimately show "CRcvLossList_insert (seq_at b (e + 1)) (seq_at b j) l = l
    \<lparr>rl_Data2 := aset (rl_Data2 l) (place (rl_Size l) h k) (if j = k then - 1 else seq_at b j), rl_Length := rl_Length l + (j - e)\<rparr>"
    using p(9) ke w(2) by (simp add: CRcvLossList_insert_def Let_def r_setters seq.inc_window)
qed

lemma insert_fresh:
  assumes r: "rrep b h lo ns l" and ns: "ns \<noteq> []" and ij: "i \<le> j" "win (rl_Size l) lo i" "win (rl_Size l) lo j"
    and after: "\<forall>(k, e)\<in>set ns. e < i" and split: "\<not> (fst (last ns) < snd (last ns) \<and> snd (last ns) + 1 = i)"
  shows "rrep b h lo (ns @ [(i, j)]) (CRcvLossList_insert (seq_at b i) (seq_at b j) l)"
proof -
  let ?n = "rl_Size l" and ?c = "place (rl_Size l) h"
  let ?l = "CRcvLossList_insert (seq_at b i) (seq_at b j) l"
  note d = rrepD [OF r]
  obtain xs k e where lst: "ns = xs @ [(k, e)]" using ns by (metis rev_exhaust surj_pair)
  obtain k0 e0 rest where hd: "ns = (k0, e0) # rest" using ns by (cases ns) auto
  have "rrep b h lo (xs @ (k, e) # []) l" "rrep b h lo ([] @ (k0, e0) # rest) l" using r by (simp_all flip: lst hd)
  note p = link_places [OF this(1)] and p0 = link_places [OF this(2)]
  have s: "sep lo (lo + ?n) (ns @ [(i, j)])" using d(7) after ij by (auto simp: sep_append win_def)
  note win = sep_win [OF s]
  have fr: "i \<notin> starts ns" using sep_keys [OF s] by auto
  have close: "\<bar>x - y\<bar> < m_iSeqNoTH" if "win ?n lo x" "win ?n lo y" for x y using that d(2) by (auto simp: win_def)
  have k0: "k0 \<le> i" using after p0(10) hd by auto
  have tail: "rl_Tail l = ?c k" "rl_Length l \<noteq> 0" "rl_Head l = ?c k0"
    using d(11,12,13) ns total_pos [OF sep_nodes_ok [OF d(7)]] by (auto simp: lst) (simp_all flip: lst add: hd)
  have off: "seqoff (rdata1 l (rl_Head l)) (seq_at b i) = i - k0" using seq.off_window [OF close [OF ij(2) p0(1)]] p0(8) tail(3) by simp
  have loc: "(rl_Head l + (i - k0)) smod ?n = ?c i" using place_add_nonneg [OF d(1), of "i - k0" h k0] k0 tail(3) by simp
  have nocoal: "\<not> (- 1 \<noteq> rdata2 l (rl_Tail l) \<and> incseq (rdata2 l (rl_Tail l)) = seq_at b i)"
  proof -
    have "\<bar>i - (e + 1)\<bar> < m_iSeqNoTH" using ij(2) p(11) d(2) after lst by (auto simp: win_def)
    then show ?thesis using split p(9,10) by (auto simp: lst tail(1) seq.inc_window seq.shift_inj)
  qed
  have eq: "seq_at b j \<noteq> seq_at b i \<longleftrightarrow> j \<noteq> i" using seq.shift_inj [OF close [OF ij(2,3)]] by simp
  have len: "seqlen (seq_at b i) (seq_at b j) = j - i + 1" using close [OF ij(3,2)] by (intro seq.len_window [OF ij(1)]) simp
  have f: "rl_Size ?l = ?n" "rl_Data1 ?l = aset (rl_Data1 l) (?c i) (seq_at b i)"
      "rl_Data2 ?l = (if j \<noteq> i then aset (rl_Data2 l) (?c i) (seq_at b j) else rl_Data2 l)"
      "rl_Next ?l = aset (aset (rl_Next l) (?c k) (?c i)) (?c i) (- 1)" "rl_Prior ?l = aset (rl_Prior l) (?c i) (?c k)"
      "rl_Head ?l = rl_Head l" "rl_Tail ?l = ?c i" "rl_Length ?l = rl_Length l + (j - i + 1)"
    using tail(2) nocoal eq by (auto simp: CRcvLossList_insert_def Let_def off loc len r_setters tail(1))
  show ?thesis
  proof (rule rrep_change [OF r f(1)])
    show "vw ?n h (rl_Data1 ?l) x = cell1 b (ns @ [(i, j)]) x \<and> vw ?n h (rl_Data2 ?l) x = cell2 b (ns @ [(i, j)]) x" if x: "win ?n lo x" for x
      using d(8,9) [OF x] cell_mid [OF fr, of b j "[]" x] cell_notin [OF fr, of b] ij x
      by (auto simp: f(2,3) vw_aset [OF d(1), where lo = lo] d(3,4))
    have dls: "dl ?c (vw ?n h (rl_Next l)) (vw ?n h (rl_Prior l)) ns (- 1) (- 1)" "dl ?c (vw ?n h (rl_Next l)) (vw ?n h (rl_Prior l)) [] 0 (- 1)"
      using d(10) by simp_all
    show "dl ?c (vw ?n h (rl_Next ?l)) (vw ?n h (rl_Prior ?l)) (ns @ [(i, j)]) (- 1) (- 1)"
    proof (rule mid_links [OF dls sep_keys [OF s]])
      fix x assume "x \<in> starts (ns @ [(i, j)])"
      then have x: "win ?n lo x" by (rule win)
      have "k \<noteq> i" using fr lst by auto
      then show "vw ?n h (rl_Next ?l) x = (if x = i then firstc ?c [] (- 1) else if ns \<noteq> [] \<and> x = fst (last ns) then ?c i else vw ?n h (rl_Next l) x)"
        using x ij p(1) ns d(5) by (simp add: f(4) vw_aset [OF d(1), where lo = lo] lst)
      show "vw ?n h (rl_Prior ?l) x = (if x = i then lastc ?c ns (- 1) else if [] \<noteq> [] \<and> x = fst (hd []) then ?c i else vw ?n h (rl_Prior l) x)"
        using x ij ns d(6) by (simp add: f(5) vw_aset [OF d(1), where lo = lo] lst)
    qed
    show "rl_Head ?l = firstc ?c (ns @ [(i, j)]) (- 1)" using d(11) by (simp add: f(6) hd)
    show "rl_Tail ?l = lastc ?c (ns @ [(i, j)]) (- 1)" by (simp add: f(7))
    show "rl_Length ?l = total (ns @ [(i, j)])" using d(13) by (simp add: f(8))
  qed (use s f in auto)
qed

lemma insert_rep:
  assumes r: "rrep b h lo ns l" and ns: "ns \<noteq> []" and ij: "i \<le> j" "win (rl_Size l) lo i" "win (rl_Size l) lo j"
    and after: "\<forall>x\<in>covered ns. x < i"
  shows "\<exists>ns'. rrep b h lo ns' (CRcvLossList_insert (seq_at b i) (seq_at b j) l) \<and> covered ns' = covered ns \<union> {i..j}"
proof (cases "fst (last ns) < snd (last ns) \<and> snd (last ns) + 1 = i")
  case True
  obtain xs k e where lst: "ns = xs @ [(k, e)]" using ns by (metis rev_exhaust surj_pair)
  have "rrep b h lo (xs @ [(k, j)]) (CRcvLossList_insert (seq_at b i) (seq_at b j) l)"
    using insert_extend [of b h lo xs k e l j] r True ij by (simp add: lst)
  moreover have "covered (xs @ [(k, j)]) = covered ns \<union> {i..j}" using True ij(1) by (auto simp: lst)
  ultimately show ?thesis by blast
next
  case False
  have "\<forall>(k, e)\<in>set ns. e < i"
    using after nodes_ok_bounds [OF sep_nodes_ok [OF rrepD(7) [OF r]]] by (fastforce simp: covered_def)
  from insert_fresh [OF r ns ij this False] show ?thesis by (intro exI [of _ "ns @ [(i, j)]"]) simp
qed

text \<open>The first node of an empty list goes into cell 0.\<close>

lemma insert_empty_rep:
  assumes r: "rrep b h lo [] l" and ij: "i \<le> j" "j - i < rl_Size l"
  shows "rrep b (- i) i [(i, j)] (CRcvLossList_insert (seq_at b i) (seq_at b j) l)"
proof -
  let ?l = "CRcvLossList_insert (seq_at b i) (seq_at b j) l" and ?n = "rl_Size l"
  note d = rrepD [OF r]
  have c0: "place ?n (- i) i = 0" by (simp add: place_def)
  have lt: "j - i < m_iSeqNoTH" using ij d(1,2) by linarith
  have eq: "seq_at b j \<noteq> seq_at b i \<longleftrightarrow> j \<noteq> i" using seq.shift_inj [of i j b] ij lt by auto
  have f: "rl_Size ?l = ?n" "rl_Data1 ?l = aset (rl_Data1 l) 0 (seq_at b i)"
      "rl_Data2 ?l = (if j \<noteq> i then aset (rl_Data2 l) 0 (seq_at b j) else rl_Data2 l)"
      "rl_Next ?l = aset (rl_Next l) 0 (- 1)" "rl_Prior ?l = aset (rl_Prior l) 0 (- 1)"
      "rl_Head ?l = 0" "rl_Tail ?l = 0" "rl_Length ?l = j - i + 1"
    using d(13) eq seq.len_window [OF ij(1) lt, of b] by (simp_all add: CRcvLossList_insert_def Let_def r_setters)
  have empty: "vw ?n (- i) (rl_Data1 l) x = - 1 \<and> vw ?n (- i) (rl_Data2 l) x = - 1" for x
    using place_surj [OF d(1), of "place ?n (- i) x" lo h] place_range [OF d(1), of "- i" x] d(8,9)
    by (metis cell_notin empty_iff image_empty list.set(1) vw_def)
  have wi: "win ?n i i" using d(1) by (simp add: win_def)
  have v: "vw ?n (- i) (aset A 0 y) x = (if x = i then y else vw ?n (- i) A x)" if "length A = nat ?n" "win ?n i x" for A y x
    using vw_aset [OF d(1) that(1) wi that(2), of "- i" y] by (simp add: c0)
  have cells: "cell1 b [(i, j)] x = (if x = i then seq_at b i else - 1)" "cell2 b [(i, j)] x = (if x = i \<and> j \<noteq> i then seq_at b j else - 1)" for x
    by (auto simp: cell1_def cell2_def)
  have "vw ?n (- i) (rl_Data1 ?l) x = cell1 b [(i, j)] x \<and> vw ?n (- i) (rl_Data2 ?l) x = cell2 b [(i, j)] x" if x: "win ?n i x" for x
    using empty x wi d(3,4) by (simp add: f(2,3) v cells)
  moreover have "vw ?n (- i) (rl_Next ?l) i = - 1" "vw ?n (- i) (rl_Prior ?l) i = - 1"
    using d(5,6) wi by (simp_all add: f(4,5) v)
  ultimately show ?thesis using d(1-6) ij unfolding rrep_def f(1) by (simp add: f(2-8) c0)
qed

end
