(* ===== verification/RcvLossSpec.thy ===== *)
theory RcvLossSpec imports RcvLossProofs SndLossSpec begin

text \<open>
  What the receiver's loss list promises, stated over the set \<open>rlost_set\<close> of sequence numbers its arrays hold: a
  range above all others is added, single numbers are removed, the first one is the least, and the words of
  a loss report are the set. The locale \<open>gap_set\<close> is the interface the connection uses.
\<close>

section \<open>The set a list holds\<close>

definition rnode_last :: "CRcvLossList \<Rightarrow> int \<Rightarrow> int32" where
  "rnode_last l i = (if rdata2 l i = - 1 then rdata1 l i else rdata2 l i)"

definition rlost_set :: "CRcvLossList \<Rightarrow> int32 set" where
  "rlost_set l = (\<Union>i\<in>{i\<in>{0..<rl_Size l}. rdata1 l i \<noteq> - 1}. seq_range (rdata1 l i) (rnode_last l i))"

definition CRcvLossList_inv :: "CRcvLossList \<Rightarrow> bool" where
  "CRcvLossList_inv l \<longleftrightarrow> (\<exists>b h lo ns. rrep b h lo ns l)"

lemma rlost_set_rrep:
  assumes r: "rrep b h lo ns l"
  shows "rlost_set l = seq_at b ` covered ns"
proof -
  note d = rrepD [OF r]
  let ?c = "place (rl_Size l) h"
  have node: "rdata1 l (?c k) = seq_at b k" "seq_range (rdata1 l (?c k)) (rnode_last l (?c k)) = seq_at b ` {k..e}"
    if ke: "(k, e) \<in> set ns" for k e
  proof -
    obtain xs ys where "ns = xs @ (k, e) # ys" using split_list [OF ke] by blast
    then have r': "rrep b h lo (xs @ (k, e) # ys) l" using r by simp
    note p = link_places [OF r']
    have "rnode_last l (?c k) = seq_at b e" using p(8,9) by (simp add: rnode_last_def)
    moreover have "e - k < m_iSeqNoTH" using p(1,11) d(1,2) unfolding win_def by linarith
    ultimately show "rdata1 l (?c k) = seq_at b k" "seq_range (rdata1 l (?c k)) (rnode_last l (?c k)) = seq_at b ` {k..e}"
      using p(8,10) seq_range_at by simp_all
  qed
  have "\<exists>(k, e)\<in>set ns. i = ?c k" if i: "0 \<le> i" "i < rl_Size l" "rdata1 l i \<noteq> - 1" for i
  proof -
    obtain x where x: "win (rl_Size l) lo x" "?c x = i" using place_surj [OF d(1) i(1,2), where lo = lo and h = h] by blast
    then have "map_of ns x \<noteq> None" using d(8) [OF x(1)] i(3) by (cases "map_of ns x") (auto simp: cell1_def vw_def)
    then show ?thesis using x(2) by (auto dest: map_of_SomeD)
  qed
  moreover have "?c k \<in> {i\<in>{0..<rl_Size l}. rdata1 l i \<noteq> - 1}" if "(k, e) \<in> set ns" for k e
    using node(1) [OF that] place_range [OF d(1)] by simp
  ultimately have "rlost_set l = (\<Union>(k, e)\<in>set ns. seq_at b ` {k..e})"
    using node unfolding rlost_set_def by fastforce
  also have "\<dots> = seq_at b ` covered ns" unfolding covered_def by auto
  finally show ?thesis .
qed

lemma rlost_set_finite: "finite (rlost_set l)"
  unfolding rlost_set_def seq_range_def
  by (intro finite_UN_I finite_imageI finite_atLeastAtMost_int
      finite_subset [OF _ finite_atLeastLessThan_int [of 0 "rl_Size l"]]) auto

lemma rrep_inj: "rrep b h lo ns l \<Longrightarrow> inj_on (seq_at b) (covered ns)"
proof (rule inj_on_seq_at)
  assume r: "rrep b h lo ns l"
  note d = rrepD [OF r]
  show "win (rl_Size l) lo x" if "x \<in> covered ns" for x
    using covered_bounds [OF sep_nodes_ok [OF d(7)] that] by (simp add: win_def)
  show "rl_Size l \<le> m_iSeqNoTH" using d(1,2) by linarith
qed

lemma rrep_card: "rrep b h lo ns l \<Longrightarrow> rl_Length l = int (card (rlost_set l))"
  using sep_card [OF rrepD(7)] rrepD(13) by (simp add: rlost_set_rrep card_image rrep_inj)

section \<open>Windows\<close>

text \<open>The window of offsets may be any that holds the nodes.\<close>

lemma rrep_rewindow:
  assumes r: "rrep b h lo ns l" and s: "sep lo' (lo' + rl_Size l) ns"
  shows "rrep b h lo' ns l"
proof -
  note d = rrepD [OF r]
  have "vw (rl_Size l) h (rl_Data1 l) x = cell1 b ns x \<and> vw (rl_Size l) h (rl_Data2 l) x = cell2 b ns x"
    if x: "win (rl_Size l) lo' x" for x
  proof -
    obtain y where y: "win (rl_Size l) lo y" "place (rl_Size l) h y = place (rl_Size l) h x"
      using place_surj [OF d(1), of "place (rl_Size l) h x" lo h] place_range [OF d(1), of h x] by auto
    show ?thesis
    proof (cases "y = x")
      case True
      with y d(8,9) [of y] show ?thesis by simp
    next
      case False
      have "\<not> win (rl_Size l) lo x" using False y place_inj [of "rl_Size l" lo y x h] by auto
      then have "x \<notin> starts ns" using sep_win [OF d(7)] by blast
      moreover have "\<not> win (rl_Size l) lo' y" using False y x place_inj [of "rl_Size l" lo' y x h] by auto
      then have "y \<notin> starts ns" using sep_win [OF s] by blast
      ultimately show ?thesis using d(8,9) [OF y(1)] y(2) by (simp add: cell_notin vw_def)
    qed
  qed
  then show ?thesis using r s by (simp add: rrep_def)
qed

lemma rrep_empty_any:
  assumes r: "rrep b h lo [] l"
  shows "rrep b' h' lo' [] l"
proof -
  note d = rrepD [OF r]
  have "vw (rl_Size l) h' (rl_Data1 l) x = - 1 \<and> vw (rl_Size l) h' (rl_Data2 l) x = - 1" for x
    using place_surj [OF d(1), of "place (rl_Size l) h' x" lo h] place_range [OF d(1), of h' x] d(8,9)
    by (metis cell_notin empty_iff image_empty list.set(1) vw_def)
  then show ?thesis using r by (simp add: rrep_def cell_notin)
qed

lemma rwindow_offsets:
  assumes r: "rrep b h lo ns l" and w: "valid_seq w" "\<forall>s\<in>rlost_set l. 0 \<le> seqoff w s \<and> seqoff w s < rl_Size l"
  shows "\<exists>b' h' p. w = seq_at b' p \<and> rrep b' h' p ns l"
proof (cases ns)
  case Nil
  have "w = seq_at w 0" using w(1) by (simp add: valid_seq_def)
  then show ?thesis using rrep_empty_any r Nil by blast
next
  case Cons
  note d = rrepD [OF r]
  obtain p where p: "w = seq_at b p" "sep p (p + rl_Size l) ns"
    using window_at [OF d(7) _ d(2) w(1), of b] w(2) Cons by (auto simp: rlost_set_rrep [OF r])
  then show ?thesis using rrep_rewindow [OF r] by blast
qed

text \<open>A window for the list and the numbers an operation is about, with their offsets.\<close>

lemma in_rwindow:
  assumes "CRcvLossList_inv l" "fits_window (rl_Size l) (rlost_set l \<union> S)"
  shows "\<exists>b h p ns f. rrep b h p ns l \<and> (\<forall>s\<in>S. s = seq_at b (f s) \<and> win (rl_Size l) p (f s))"
proof -
  obtain b0 h0 lo0 ns where r0: "rrep b0 h0 lo0 ns l" using assms(1) by (auto simp: CRcvLossList_inv_def)
  obtain w where w: "valid_seq w" "\<forall>s\<in>rlost_set l \<union> S. valid_seq s \<and> 0 \<le> seqoff w s \<and> seqoff w s < rl_Size l"
    using assms(2) by (auto simp: fits_window_def)
  obtain b h p where b: "w = seq_at b p" "rrep b h p ns l" using rwindow_offsets [OF r0 w(1)] w(2) by blast
  have "s = seq_at b (p + seqoff w s) \<and> win (rl_Size l) p (p + seqoff w s)" if "s \<in> S" for s
    using w(2) that seqoff_at [OF w(1), of s] by (auto simp: b(1) win_def)
  then show ?thesis using b(2) by (intro exI [of _ b] exI [of _ h] exI [of _ p] exI [of _ ns] exI [of _ "\<lambda>s. p + seqoff w s"]) simp
qed

lemma new_rcv_list:
  assumes "0 < sz" "2 * sz < m_iSeqNoTH"
  shows "CRcvLossList_inv (CRcvLossList_new sz)" "rlost_set (CRcvLossList_new sz) = {}" "rl_Size (CRcvLossList_new sz) = sz"
proof -
  have "aget (replicate (nat sz) (- 1 :: int)) (place sz 0 x) = - 1" for x
    using place_range [OF assms(1), of 0 x] by simp
  then have r: "rrep 0 0 0 [] (CRcvLossList_new sz)"
    using assms by (simp add: rrep_def CRcvLossList_new_def cell1_def cell2_def vw_def)
  then show "CRcvLossList_inv (CRcvLossList_new sz)" by (auto simp: CRcvLossList_inv_def)
  show "rlost_set (CRcvLossList_new sz) = {}" using rlost_set_rrep [OF r] by simp
  show "rl_Size (CRcvLossList_new sz) = sz" by (simp add: CRcvLossList_new_def)
qed

section \<open>insert\<close>

lemma rl_Size_insert [simp]: "rl_Size (CRcvLossList_insert s1 s2 l) = rl_Size l"
  by (simp add: CRcvLossList_insert_def Let_def r_setters)

lemma rcv_insert:
  assumes inv: "CRcvLossList_inv l" and le: "0 \<le> seqoff s1 s2" and fits: "fits_window (rl_Size l) (rlost_set l \<union> {s1, s2})"
    and after: "\<forall>x\<in>rlost_set l. seqcmp x s1 < 0"
  shows "CRcvLossList_inv (CRcvLossList_insert s1 s2 l) \<and> rlost_set (CRcvLossList_insert s1 s2 l) = rlost_set l \<union> seq_range s1 s2 \<and>
    rl_Size (CRcvLossList_insert s1 s2 l) = rl_Size l"
proof -
  obtain b h p ns f where r: "rrep b h p ns l" and f: "\<forall>s\<in>{s1, s2}. s = seq_at b (f s) \<and> win (rl_Size l) p (f s)"
    using in_rwindow [OF inv fits] by blast
  define i j where "i = f s1" and "j = f s2"
  have s: "s1 = seq_at b i" "win (rl_Size l) p i" "s2 = seq_at b j" "win (rl_Size l) p j" using f by (simp_all add: i_def j_def)
  note d = rrepD [OF r]
  have lt: "\<bar>j - i\<bar> < m_iSeqNoTH" using s(2,4) d(1,2) unfolding win_def by linarith
  then have ij: "i \<le> j" using le seq.off_window [OF lt, of b] by (simp add: s)
  have below: "x < i" if x: "x \<in> covered ns" for x
  proof -
    have "\<bar>x - i\<bar> < m_iSeqNoTH" using covered_bounds [OF sep_nodes_ok [OF d(7)] x] s(2) d(1,2) unfolding win_def by linarith
    moreover have "seqcmp (seq_at b x) (seq_at b i) < 0" using after x by (simp add: rlost_set_rrep [OF r] s(1))
    ultimately show ?thesis by (simp add: seq.cmp_window_lt)
  qed
  have range: "seq_range s1 s2 = seq_at b ` {i..j}" using ij lt by (simp add: s seq_range_at)
  have "\<exists>h' p' ns'. rrep b h' p' ns' (CRcvLossList_insert s1 s2 l) \<and> covered ns' = covered ns \<union> {i..j}"
  proof (cases "ns = []")
    case True
    have "rrep b (- i) i [(i, j)] (CRcvLossList_insert s1 s2 l)"
      unfolding s(1,3) by (rule insert_empty_rep) (use True r ij s(2,4) in \<open>auto simp: win_def\<close>)
    moreover have "covered [(i, j)] = covered ns \<union> {i..j}" using True by simp
    ultimately show ?thesis by blast
  next
    case False
    then show ?thesis using insert_rep [OF r False ij s(2,4)] below by (auto simp: s(1,3))
  qed
  then obtain h' p' ns' where r': "rrep b h' p' ns' (CRcvLossList_insert s1 s2 l)" "covered ns' = covered ns \<union> {i..j}" by blast
  then show ?thesis
    unfolding rlost_set_rrep [OF r'(1)] rlost_set_rrep [OF r] range
    by (auto simp: CRcvLossList_inv_def)
qed

section \<open>remove\<close>

lemma rcv_remove:
  assumes inv: "CRcvLossList_inv l" and fits: "fits_window (rl_Size l) (rlost_set l \<union> {s})"
  shows "\<exists>l'. CRcvLossList_remove s l = Some (s \<in> rlost_set l, l') \<and> CRcvLossList_inv l' \<and>
    rlost_set l' = rlost_set l - {s} \<and> rl_Size l' = rl_Size l"
proof -
  obtain b h p ns f where r: "rrep b h p ns l" and f: "\<forall>x\<in>{s}. x = seq_at b (f x) \<and> win (rl_Size l) p (f x)"
    using in_rwindow [OF inv fits] by blast
  define j where "j = f s"
  have s: "s = seq_at b j" "win (rl_Size l) p j" using f by (simp_all add: j_def)
  note d = rrepD [OF r]
  obtain l' ns' where l': "CRcvLossList_remove s l = Some (j \<in> covered ns, l')" "rrep b h p ns' l'"
      "covered ns' = covered ns - {j}" "rl_Size l' = rl_Size l"
    using remove_rep [OF r s(2)] by (auto simp: rremoved_def s(1))
  have eq: "seq_at b x = seq_at b j \<longleftrightarrow> x = j" if x: "x \<in> covered ns" for x
  proof -
    have "\<bar>j - x\<bar> < m_iSeqNoTH" using covered_bounds [OF sep_nodes_ok [OF d(7)] x] s(2) d(1,2) unfolding win_def by linarith
    then show ?thesis by (rule seq.shift_inj)
  qed
  have "s \<in> rlost_set l \<longleftrightarrow> j \<in> covered ns" unfolding rlost_set_rrep [OF r] s(1)
  proof
    assume "seq_at b j \<in> seq_at b ` covered ns"
    then obtain x where "x \<in> covered ns" "seq_at b j = seq_at b x" by blast
    then show "j \<in> covered ns" using eq [of x] by simp
  qed simp
  moreover have "rlost_set l' = rlost_set l - {s}"
    unfolding rlost_set_rrep [OF r] rlost_set_rrep [OF l'(2)] l'(3) s(1) using eq by auto
  ultimately show ?thesis using l' by (auto simp: CRcvLossList_inv_def)
qed

section \<open>The first number\<close>

lemma rcv_first:
  assumes inv: "CRcvLossList_inv l"
  shows "CRcvLossList_getFirstLostSeq l = - 1 \<and> rlost_set l = {} \<or>
    CRcvLossList_getFirstLostSeq l \<in> rlost_set l \<and> (\<forall>x\<in>rlost_set l. seqcmp (CRcvLossList_getFirstLostSeq l) x \<le> 0)"
proof -
  obtain b h lo ns where r: "rrep b h lo ns l" using inv by (auto simp: CRcvLossList_inv_def)
  note d = rrepD [OF r]
  show ?thesis
  proof (cases ns)
    case Nil
    then show ?thesis using d(13) by (simp add: CRcvLossList_getFirstLostSeq_def rlost_set_rrep [OF r])
  next
    case (Cons m rest)
    obtain k e where m: "m = (k, e)" by fastforce
    have r': "rrep b h lo ([] @ (k, e) # rest) l" using r Cons m by simp
    note p = link_places [OF r']
    have "rl_Length l \<noteq> 0" using d(13) total_pos [OF sep_nodes_ok [OF d(7)]] Cons by simp
    then have first: "CRcvLossList_getFirstLostSeq l = seq_at b k"
      using p(6,8) by (simp add: CRcvLossList_getFirstLostSeq_def)
    have s: "sep k (lo + rl_Size l) ns" "lo \<le> k" using d(7) Cons m by simp_all
    have "seqcmp (seq_at b k) (seq_at b x) \<le> 0" if x: "x \<in> covered ns" for x
    proof -
      have "k \<le> x" "x < lo + rl_Size l" using covered_bounds [OF sep_nodes_ok [OF s(1)] x] by auto
      moreover from this have "\<bar>k - x\<bar> < m_iSeqNoTH" using s(2) d(1,2) by linarith
      ultimately show ?thesis by (simp add: seq.cmp_window_le)
    qed
    moreover have "k \<in> covered ns" using Cons m p(10) by simp
    ultimately show ?thesis by (auto simp: first rlost_set_rrep [OF r])
  qed
qed

section \<open>The words of a loss report\<close>

fun nak_words :: "int \<Rightarrow> int \<Rightarrow> int \<Rightarrow> node list \<Rightarrow> int32 list" where
  "nak_words b limit len [] = []"
| "nak_words b limit len ((k, e) # ns) =
     (if len < limit - 1 then
        if k < e then (seq_at b k - 0x80000000) # seq_at b e # nak_words b limit (len + 2) ns
        else seq_at b k # nak_words b limit (len + 1) ns
      else [])"

text \<open>The numbers a report names: a negative word opens a range.\<close>

fun reported :: "int32 list \<Rightarrow> int32 set" where
  "reported [] = {}"
| "reported [w] = (if w < 0 then {} else {w})"
| "reported (w # v # ws) = (if w < 0 then seq_range (w + 0x80000000) v \<union> reported ws else {w} \<union> reported (v # ws))"

lemma reported_single: "0 \<le> w \<Longrightarrow> reported (w # ws) = {w} \<union> reported ws"
  by (cases ws) auto

lemma reported_nak:
  assumes "sep lo (lo + n) ns" "n < m_iSeqNoTH"
  shows "reported (nak_words b limit len ns) \<subseteq> seq_at b ` covered ns \<and>
    (len + int (length (nak_words b limit len ns)) < limit - 1 \<longrightarrow> reported (nak_words b limit len ns) = seq_at b ` covered ns)"
  using assms(1)
proof (induction ns arbitrary: lo len)
  case (Cons m ns)
  obtain k e where m: "m = (k, e)" by fastforce
  have s: "sep (e + 1) (lo + n) ns" "lo \<le> k" "k \<le> e" "e < lo + n" using Cons.prems m by simp_all
  have range: "seq_range (seq_at b k) (seq_at b e) = seq_at b ` {k..e}" using s assms(2) by (intro seq_range_at) auto
  have neg: "seq_at b k - 0x80000000 < 0" "0 \<le> seq_at b k" by (simp_all add: shift_def)
  have mono: "sep lo (lo + n) ns" using sep_mono [OF s(1)] s(2,3) by simp
  show ?case
    using Cons.IH [OF mono, of "len + 2"] Cons.IH [OF mono, of "len + 1"] neg range s(3)
    by (auto simp: m reported_single)
qed simp

lemma loss_from_words:
  assumes "rrep b h lo ns l" "ns = xs @ ys" "length ys < f"
  shows "rl_loss_from f l limit len (firstc (place (rl_Size l) h) ys (- 1)) = Some (nak_words b limit len ys)"
  using assms
proof (induction ys arbitrary: xs f len)
  case Nil
  then show ?case by (cases f) simp_all
next
  case (Cons m ys)
  obtain k e where m: "m = (k, e)" by fastforce
  obtain f' where f: "f = Suc f'" using Cons.prems(3) by (cases f) auto
  have r: "rrep b h lo (xs @ (k, e) # ys) l" using Cons.prems m by simp
  note p = link_places [OF r] and d = rrepD [OF r]
  have ih: "rl_loss_from f' l limit len' (firstc (place (rl_Size l) h) ys (- 1)) = Some (nak_words b limit len' ys)" for len'
    using Cons.IH [of "xs @ [m]" f' len'] Cons.prems f by simp
  show ?case using p(4,8,9,10) d(1) ih by (auto simp: m f)
qed

lemma rcv_report:
  assumes inv: "CRcvLossList_inv l"
  shows "\<exists>ws. CRcvLossList_getLossArray limit l = Some ws \<and> reported ws \<subseteq> rlost_set l \<and>
    (int (length ws) < limit - 1 \<longrightarrow> reported ws = rlost_set l)"
proof -
  obtain b h lo ns where r: "rrep b h lo ns l" using inv by (auto simp: CRcvLossList_inv_def)
  note d = rrepD [OF r]
  have "int (length ns) \<le> rl_Size l" using nodes_ok_length [OF sep_nodes_ok [OF d(7)]] d(1) by simp
  then have "length ns < rl_fuel l" by (simp add: rl_fuel_def)
  then have "CRcvLossList_getLossArray limit l = Some (nak_words b limit 0 ns)"
    using loss_from_words [OF r, of "[]" ns "rl_fuel l" limit 0] d(11) by (simp add: CRcvLossList_getLossArray_def)
  moreover have "rl_Size l < m_iSeqNoTH" using d(1,2) by linarith
  ultimately show ?thesis using reported_nak [OF d(7), of b limit 0] rlost_set_rrep [OF r] by auto
qed

section \<open>find\<close>

lemma find_from_spec:
  assumes "rrep b h lo ns l" "ns = xs @ ys" "length ys < f" "win (rl_Size l) lo i" "win (rl_Size l) lo j" "i \<le> j"
  shows "rl_find_from f l (seq_at b i) (seq_at b j) (firstc (place (rl_Size l) h) ys (- 1)) = Some (covered ys \<inter> {i..j} \<noteq> {})"
  using assms(1-3)
proof (induction ys arbitrary: xs f)
  case Nil
  then show ?case by (cases f) simp_all
next
  case (Cons m ys)
  obtain k e where m: "m = (k, e)" by fastforce
  obtain f' where f: "f = Suc f'" using Cons.prems(3) by (cases f) auto
  have r: "rrep b h lo (xs @ (k, e) # ys) l" using Cons.prems m by simp
  note p = link_places [OF r] and d = rrepD [OF r]
  have close: "\<bar>x - y\<bar> < m_iSeqNoTH" if "win (rl_Size l) lo x" "win (rl_Size l) lo y" for x y using that d(2) by (auto simp: win_def)
  have cmp: "seqcmp (seq_at b k) (seq_at b i) = 0 \<longleftrightarrow> k = i"
    using seq.cmp_window [OF close [OF p(1) assms(4)], of b] by (simp add: sgn_if split: if_splits)
  have hit: "(seqcmp (seq_at b k) (seq_at b i) = 0 \<or>
           seqcmp (seq_at b k) (seq_at b i) > 0 \<and> seqcmp (seq_at b k) (seq_at b j) \<le> 0 \<or>
           seqcmp (seq_at b k) (seq_at b i) < 0 \<and> rdata2 l (place (rl_Size l) h k) \<noteq> - 1 \<and> seqcmp (rdata2 l (place (rl_Size l) h k)) (seq_at b i) \<ge> 0)
      \<longleftrightarrow> {k..e} \<inter> {i..j} \<noteq> {}"
    using p(9,10) cmp assms(6) close [OF p(1) assms(4)] close [OF p(1) assms(5)] close [OF p(11) assms(4)]
    by (auto simp: seq.cmp_window_gt seq.cmp_window_le seq.cmp_window_lt seq.cmp_window_ge)
  have ih: "rl_find_from f' l (seq_at b i) (seq_at b j) (firstc (place (rl_Size l) h) ys (- 1)) = Some (covered ys \<inter> {i..j} \<noteq> {})"
    using Cons.IH [of "xs @ [m]" f'] Cons.prems f by simp
  have "rl_find_from f l (seq_at b i) (seq_at b j) (firstc (place (rl_Size l) h) (m # ys) (- 1)) =
      (if {k..e} \<inter> {i..j} \<noteq> {} then Some True else Some (covered ys \<inter> {i..j} \<noteq> {}))"
    unfolding m f firstc_simps rl_find_from.simps p(8) hit p(4) ih using d(1) by simp
  then show ?case unfolding m covered_simps Int_Un_distrib2 Un_empty
    by (cases "{k..e} \<inter> {i..j} = {}") (simp_all only: if_True if_False simp_thms not_True_eq_False not_False_eq_True)
qed

lemma rcv_find:
  assumes inv: "CRcvLossList_inv l" and le: "0 \<le> seqoff s1 s2" and fits: "fits_window (rl_Size l) (rlost_set l \<union> {s1, s2})"
  shows "CRcvLossList_find s1 s2 l = Some (rlost_set l \<inter> seq_range s1 s2 \<noteq> {})"
proof -
  obtain b h p ns f where r: "rrep b h p ns l" and f: "\<forall>s\<in>{s1, s2}. s = seq_at b (f s) \<and> win (rl_Size l) p (f s)"
    using in_rwindow [OF inv fits] by blast
  define i j where "i = f s1" and "j = f s2"
  have s: "s1 = seq_at b i" "win (rl_Size l) p i" "s2 = seq_at b j" "win (rl_Size l) p j" using f by (simp_all add: i_def j_def)
  note d = rrepD [OF r]
  have lt: "\<bar>j - i\<bar> < m_iSeqNoTH" using s(2,4) d(1,2) unfolding win_def by linarith
  then have ij: "i \<le> j" using le seq.off_window [OF lt, of b] by (simp add: s)
  have range: "seq_range s1 s2 = seq_at b ` {i..j}" using ij lt by (simp add: s seq_range_at)
  have "inj_on (seq_at b) (covered ns \<union> {i..j})"
  proof (rule inj_on_seq_at)
    show "win (rl_Size l) p x" if "x \<in> covered ns \<union> {i..j}" for x
      using that covered_bounds [OF sep_nodes_ok [OF d(7)]] s(2,4) by (auto simp: win_def)
    show "rl_Size l \<le> m_iSeqNoTH" using d(1,2) by linarith
  qed
  then have inter: "rlost_set l \<inter> seq_range s1 s2 = seq_at b ` (covered ns \<inter> {i..j})"
    unfolding rlost_set_rrep [OF r] range by (simp add: inj_on_image_Int [of _ "covered ns \<union> {i..j}"])
  have "int (length ns) \<le> rl_Size l" using nodes_ok_length [OF sep_nodes_ok [OF d(7)]] d(1) by simp
  then have "length ns < rl_fuel l" by (simp add: rl_fuel_def)
  then have "rl_find_from (rl_fuel l) l s1 s2 (rl_Head l) = Some (covered ns \<inter> {i..j} \<noteq> {})"
    using find_from_spec [OF r, of "[]" ns "rl_fuel l" i j] s(2,4) ij d(11) by (simp add: s(1,3))
  moreover have "rl_Length l = 0 \<longleftrightarrow> ns = []" using d(13) total_pos [OF sep_nodes_ok [OF d(7)]] by simp
  ultimately show ?thesis by (auto simp: CRcvLossList_find_def inter)
qed

section \<open>The interface of the connection\<close>

text \<open>What the receiver needs of its list of gaps, with the lemmas it uses: the members are the positions \<open>X\<close>, counted
  from \<open>a\<close>, in a window that starts at \<open>p\<close>.\<close>

locale gap_set =
  fixes ok :: "'s \<Rightarrow> bool"
    and contents :: "'s \<Rightarrow> int32 set"
    and count :: "'s \<Rightarrow> int"
    and cap :: "'s \<Rightarrow> int"
    and least :: "'s \<Rightarrow> int32"
    and add :: "int32 \<Rightarrow> int32 \<Rightarrow> 's \<Rightarrow> 's"
    and del :: "int32 \<Rightarrow> 's \<Rightarrow> (bool \<times> 's) option"
  assumes count: "ok l \<Longrightarrow> count l = int (card (contents l))"
    and finite_contents: "ok l \<Longrightarrow> finite (contents l)"
    and cap_bound: "ok l \<Longrightarrow> 0 < cap l \<and> 2 * cap l < m_iSeqNoTH"
    and least_law: "ok l \<Longrightarrow> contents l \<noteq> {} \<Longrightarrow> least l \<in> contents l \<and> (\<forall>x\<in>contents l. seqcmp (least l) x \<le> 0)"
    and add_law: "ok l \<Longrightarrow> 0 \<le> seqoff s1 s2 \<Longrightarrow> fits_window (cap l) (contents l \<union> {s1, s2}) \<Longrightarrow> \<forall>x\<in>contents l. seqcmp x s1 < 0 \<Longrightarrow>
      ok (add s1 s2 l) \<and> contents (add s1 s2 l) = contents l \<union> seq_range s1 s2 \<and> cap (add s1 s2 l) = cap l"
    and del_law: "ok l \<Longrightarrow> fits_window (cap l) (contents l \<union> {s}) \<Longrightarrow>
      \<exists>l'. del s l = Some (s \<in> contents l, l') \<and> ok l' \<and> contents l' = contents l - {s} \<and> cap l' = cap l"
begin

lemma count_zero: "ok l \<Longrightarrow> contents l = seq_at a ` X \<Longrightarrow> count l = 0 \<longleftrightarrow> X = {}"
  using count [of l] finite_contents [of l] by auto

lemma near_window: "ok l \<Longrightarrow> X \<subseteq> {p..<q} \<Longrightarrow> q - p \<le> cap l \<Longrightarrow> x \<in> X \<Longrightarrow> p \<le> i \<Longrightarrow> i < q \<Longrightarrow> \<bar>i - x\<bar> < m_iSeqNoTH"
  using cap_bound [of l] by (intro in_window_near [of X p q]) auto

lemma add_at:
  assumes l: "ok l" "contents l = seq_at a ` X" and w: "X \<subseteq> {p..<i}" "p \<le> i" "i \<le> j" "j - p < cap l"
  shows "ok (add (seq_at a i) (seq_at a j) l) \<and> contents (add (seq_at a i) (seq_at a j) l) = seq_at a ` (X \<union> {i..j}) \<and>
    cap (add (seq_at a i) (seq_at a j) l) = cap l"
proof -
  have c: "cap l < m_iSeqNoTH" using cap_bound [OF l(1)] by linarith
  have lt: "j - i < m_iSeqNoTH" using w c by linarith
  have "0 \<le> seqoff (seq_at a i) (seq_at a j)" using seq.off_window [of j i a] lt w(3) by simp
  moreover have "fits_window (cap l) (contents l \<union> {seq_at a i, seq_at a j})"
    using window_fits [of "insert i (insert j X)" p "cap l" a] w c by (force simp: l(2))
  moreover have "seqcmp (seq_at a x) (seq_at a i) < 0" if "x \<in> X" for x
  proof -
    have "p \<le> x" "x < i" using that w(1) by auto
    moreover from this have "\<bar>x - i\<bar> < m_iSeqNoTH" using w c by linarith
    ultimately show ?thesis by (simp add: seq.cmp_window_lt)
  qed
  moreover have "seq_range (seq_at a i) (seq_at a j) = seq_at a ` {i..j}" using seq_range_at w(3) lt by simp
  ultimately show ?thesis using add_law [OF l(1), of "seq_at a i" "seq_at a j"] by (auto simp: l(2) image_Un)
qed

lemma del_at:
  assumes l: "ok l" "contents l = seq_at a ` X" and w: "X \<subseteq> {p..<q}" "q - p \<le> cap l" "p \<le> i" "i < q"
  shows "\<exists>l'. del (seq_at a i) l = Some (i \<in> X, l') \<and> ok l' \<and> contents l' = seq_at a ` (X - {i}) \<and> cap l' = cap l"
proof -
  have eq: "seq_at a i = seq_at a x \<longleftrightarrow> i = x" if "x \<in> X" for x
    using near_window [OF l(1) w(1,2) that w(3,4)] by (intro seq.shift_inj) (simp add: abs_minus_commute)
  then have eq': "seq_at a x = seq_at a i \<longleftrightarrow> x = i" if "x \<in> X" for x using that by metis
  have "fits_window (cap l) (contents l \<union> {seq_at a i})"
    using window_fits [of "insert i X" p "cap l" a] w cap_bound [OF l(1)] by (force simp: l(2))
  moreover have "seq_at a i \<in> contents l \<longleftrightarrow> i \<in> X" unfolding l(2) using eq by blast
  moreover have "contents l - {seq_at a i} = seq_at a ` (X - {i})" unfolding l(2) using eq' by auto
  ultimately show ?thesis using del_law [OF l(1), of "seq_at a i"] by simp
qed

lemma least_at:
  assumes l: "ok l" "contents l = seq_at a ` X" and w: "X \<subseteq> {p..<q}" "q - p \<le> cap l" "X \<noteq> {}"
  shows "\<exists>i\<in>X. least l = seq_at a i \<and> (\<forall>x\<in>X. i \<le> x)"
proof -
  have m: "least l \<in> seq_at a ` X" "\<forall>x\<in>X. seqcmp (least l) (seq_at a x) \<le> 0" using least_law [OF l(1)] w(3) by (auto simp: l(2))
  then obtain i where i: "i \<in> X" "least l = seq_at a i" by blast
  have "i \<le> x" if x: "x \<in> X" for x
  proof -
    have "\<bar>i - x\<bar> < m_iSeqNoTH" using near_window [OF l(1) w(1,2) x, of i] i(1) w(1) by auto
    then show ?thesis using m(2) x i(2) seq.cmp_window_le [of i x a] by simp
  qed
  with i show ?thesis by blast
qed

end

interpretation rcv_gaps: gap_set CRcvLossList_inv rlost_set CRcvLossList_getLossLength rl_Size CRcvLossList_getFirstLostSeq
  CRcvLossList_insert CRcvLossList_remove
proof
  fix l :: CRcvLossList
  assume l: "CRcvLossList_inv l"
  then obtain b h lo ns where r: "rrep b h lo ns l" by (auto simp: CRcvLossList_inv_def)
  show "CRcvLossList_getLossLength l = int (card (rlost_set l))" using rrep_card [OF r] by (simp add: CRcvLossList_getLossLength_def)
  show "finite (rlost_set l)" by (rule rlost_set_finite)
  show "0 < rl_Size l \<and> 2 * rl_Size l < m_iSeqNoTH" using rrepD(1,2) [OF r] by blast
  show "CRcvLossList_getFirstLostSeq l \<in> rlost_set l \<and> (\<forall>x\<in>rlost_set l. seqcmp (CRcvLossList_getFirstLostSeq l) x \<le> 0)"
    if "rlost_set l \<noteq> {}" using rcv_first [OF l] that by blast
  show "CRcvLossList_inv (CRcvLossList_insert s1 s2 l) \<and> rlost_set (CRcvLossList_insert s1 s2 l) = rlost_set l \<union> seq_range s1 s2 \<and>
      rl_Size (CRcvLossList_insert s1 s2 l) = rl_Size l"
    if "0 \<le> seqoff s1 s2" "fits_window (rl_Size l) (rlost_set l \<union> {s1, s2})" "\<forall>x\<in>rlost_set l. seqcmp x s1 < 0" for s1 s2
    by (rule rcv_insert [OF l that])
  show "\<exists>l'. CRcvLossList_remove s l = Some (s \<in> rlost_set l, l') \<and> CRcvLossList_inv l' \<and> rlost_set l' = rlost_set l - {s} \<and> rl_Size l' = rl_Size l"
    if "fits_window (rl_Size l) (rlost_set l \<union> {s})" for s
    by (rule rcv_remove [OF l that])
qed

section \<open>The operations as set operations\<close>

text \<open>C9: inserting a range above all members of the receiver's loss list adds exactly that range; the list stays well formed.\<close>

theorem rcv_insert_adds_range:
  assumes "CRcvLossList_inv l" "0 \<le> seqoff s1 s2" "fits_window (rl_Size l) (rlost_set l \<union> {s1, s2})"
    and "\<forall>x\<in>rlost_set l. seqcmp x s1 < 0"
  shows "CRcvLossList_inv (CRcvLossList_insert s1 s2 l) \<and> rlost_set (CRcvLossList_insert s1 s2 l) = rlost_set l \<union> seq_range s1 s2 \<and>
    CRcvLossList_getLossLength (CRcvLossList_insert s1 s2 l) = int (card (rlost_set l \<union> seq_range s1 s2))"
  using rcv_insert [OF assms] rcv_gaps.count [of "CRcvLossList_insert s1 s2 l"] by simp

text \<open>A list that holds 5 to 9, for the examples.\<close>

lemma example_gaps:
  "CRcvLossList_inv (CRcvLossList_insert 5 9 (CRcvLossList_new 8)) \<and> rlost_set (CRcvLossList_insert 5 9 (CRcvLossList_new 8)) = {5..9} \<and>
     rl_Size (CRcvLossList_insert 5 9 (CRcvLossList_new 8)) = 8"
proof -
  have n: "CRcvLossList_inv (CRcvLossList_new 8)" "rlost_set (CRcvLossList_new 8) = {}" "rl_Size (CRcvLossList_new 8) = 8"
    using new_rcv_list [of 8] by (simp_all add: serial_consts)
  have "fits_window 8 {5, 9}"
    unfolding fits_window_def by (rule exI [of _ 5]) (auto simp: valid_seq_def seqoff_def serial_consts)
  moreover have "seq_range 5 9 = {5..9}"
    using seq_range_at [of 5 9 0] by (simp add: shift_def serial_consts image_def)
  moreover have "0 \<le> seqoff 5 9" by (simp add: seqoff_def serial_consts)
  ultimately show ?thesis using rcv_insert [OF n(1), of 5 9] by (simp add: n(2,3))
qed

theorem rcv_insert_adds_range_witness:
  "\<exists>l. rlost_set l = {5..9} \<and> rlost_set (CRcvLossList_insert 11 12 l) = {5..9} \<union> {11..12}"
proof -
  let ?l = "CRcvLossList_insert 5 9 (CRcvLossList_new 8)"
  note e = example_gaps
  have "fits_window 8 ({5..9} \<union> {11, 12})"
    unfolding fits_window_def by (rule exI [of _ 5]) (auto simp: valid_seq_def seqoff_def serial_consts)
  moreover have "seq_range 11 12 = {11..12}" using seq_range_at [of 11 12 0] by (simp add: shift_def serial_consts image_def)
  moreover have "0 \<le> seqoff 11 12" "\<forall>x\<in>{5..9}. seqcmp x 11 < 0" by (auto simp: seqoff_def seqcmp_def serial_consts)
  ultimately show ?thesis using rcv_insert_adds_range [of ?l 11 12] e by (intro exI [of _ ?l]) simp
qed

text \<open>C8: removing a number from the receiver's loss list returns, says whether the number was a member, and takes out
  exactly that number, wherever in a range it lies.\<close>

theorem rcv_remove_takes_out:
  assumes "CRcvLossList_inv l" "fits_window (rl_Size l) (rlost_set l \<union> {s})"
  shows "\<exists>l'. CRcvLossList_remove s l = Some (s \<in> rlost_set l, l') \<and> CRcvLossList_inv l' \<and> rlost_set l' = rlost_set l - {s} \<and>
    CRcvLossList_getLossLength l' = int (card (rlost_set l - {s}))"
  using rcv_remove [OF assms] rcv_gaps.count by fastforce

theorem rcv_remove_takes_out_witness:
  "\<exists>l l'. rlost_set l = {5..9} \<and> CRcvLossList_remove 7 l = Some (True, l') \<and> rlost_set l' = {5..9} - {7}"
proof -
  let ?l = "CRcvLossList_insert 5 9 (CRcvLossList_new 8)"
  note e = example_gaps
  have "fits_window 8 ({5..9} \<union> {7})"
    unfolding fits_window_def by (rule exI [of _ 5]) (auto simp: valid_seq_def seqoff_def serial_consts)
  then obtain l' where "CRcvLossList_remove 7 ?l = Some (True, l')" "rlost_set l' = {5..9} - {7}"
    using rcv_remove_takes_out [of ?l 7] e by auto
  then show ?thesis using e by blast
qed

text \<open>C13: the words of a loss report name only lost numbers, and all of them when the report does not fill the packet.\<close>

theorem report_names_lost:
  assumes "CRcvLossList_inv l"
  shows "\<exists>ws. CRcvLossList_getLossArray limit l = Some ws \<and> reported ws \<subseteq> rlost_set l \<and>
    (int (length ws) < limit - 1 \<longrightarrow> reported ws = rlost_set l)"
  by (rule rcv_report [OF assms])

theorem report_names_lost_witness:
  "\<exists>l ws. rlost_set l = {5..9} \<and> CRcvLossList_getLossArray 365 l = Some ws \<and> reported ws \<subseteq> {5..9}"
  using report_names_lost [of "CRcvLossList_insert 5 9 (CRcvLossList_new 8)" 365] example_gaps by fastforce

end
