(* ===== verification/Memory.thy ===== *)
theory Memory imports Prelude begin

unbundle bit_operations_syntax

text \<open>
  Bytes in memory. The code reads and writes packet payloads as arrays of 32-bit words
  through \<open>*((int32_t *)p + i)\<close>; here a buffer is a list of bytes and \<open>peek32\<close> and \<open>poke32\<close>
  are that read and that write on a little-endian host (the AMD64 and I386 targets of the
  build). \<open>htonl\<close> of the C library is, on such a host, the reversal of the four bytes.
\<close>

type_synonym byte = "8 word"

definition bytes_of :: "uint32 \<Rightarrow> byte list" where
  "bytes_of w = [ucast w, ucast (drop_bit 8 w), ucast (drop_bit 16 w), ucast (drop_bit 24 w)]"

fun word_of_bytes :: "byte list \<Rightarrow> uint32" where
  "word_of_bytes [a, b, c, d] =
     ucast a OR push_bit 8 (ucast b) OR push_bit 16 (ucast c) OR push_bit 24 (ucast d)"
| "word_of_bytes _ = 0"

lemma length_bytes_of [simp]: "length (bytes_of w) = 4"
  by (simp add: bytes_of_def)

lemma bit_word_of_bytes:
  "bit (word_of_bytes [a, b, c, d]) n =
    (if n < 8 then bit a n else if n < 16 then bit b (n - 8)
     else if n < 24 then bit c (n - 16) else n < 32 \<and> bit d (n - 24))"
  by (auto simp: bit_simps not_less dest: bit_imp_le_length)

lemma word_of_bytes_of [simp]: "word_of_bytes (bytes_of w) = w"
  unfolding bytes_of_def
  by (rule bit_word_eqI)
    (auto simp only: bit_word_of_bytes bit_ucast_iff bit_drop_bit_eq o_def split: if_splits,
      auto)

lemma bytes_of_word [simp]: "length bs = 4 \<Longrightarrow> bytes_of (word_of_bytes bs) = bs"
proof -
  assume "length bs = 4"
  then obtain a b c d where bs: "bs = [a, b, c, d]"
    by (auto simp: numeral_eq_Suc length_Suc_conv)
  let ?w = "word_of_bytes [a, b, c, d]"
  have bits: "bit (ucast (drop_bit k ?w) :: byte) n = (n < 8 \<and> bit ?w (k + n))" for k n
    by (simp add: bit_simps)
  have "ucast ?w = a"
    using bits [of 0] by (intro bit_word_eqI) (simp add: bit_word_of_bytes del: word_of_bytes.simps)
  moreover have "ucast (drop_bit 8 ?w) = b" "ucast (drop_bit 16 ?w) = c" "ucast (drop_bit 24 ?w) = d"
    by (intro bit_word_eqI, simp add: bits bit_word_of_bytes del: word_of_bytes.simps)+
  ultimately show ?thesis by (simp add: bs bytes_of_def del: word_of_bytes.simps)
qed

definition htonl :: "uint32 \<Rightarrow> uint32" where
  "htonl w = word_of_bytes (rev (bytes_of w))"

definition ntohl :: "uint32 \<Rightarrow> uint32" where
  "ntohl w = word_of_bytes (rev (bytes_of w))"

lemma bytes_of_htonl: "bytes_of (htonl w) = rev (bytes_of w)"
  by (simp add: htonl_def)

lemma ntohl_htonl [simp]: "ntohl (htonl w) = w"
  by (simp add: ntohl_def bytes_of_htonl)

lemma htonl_ntohl [simp]: "htonl (ntohl w) = w"
  by (simp add: ntohl_def htonl_def)

section \<open>Words inside a buffer\<close>

definition peek32 :: "byte list \<Rightarrow> nat \<Rightarrow> uint32" where
  "peek32 bs i = word_of_bytes (take 4 (drop (4 * i) bs))"

definition poke32 :: "byte list \<Rightarrow> nat \<Rightarrow> uint32 \<Rightarrow> byte list" where
  "poke32 bs i w = take (4 * i) bs @ bytes_of w @ drop (4 * i + 4) bs"

lemma length_poke32 [simp]: "4 * i + 4 \<le> length bs \<Longrightarrow> length (poke32 bs i w) = length bs"
  by (simp add: poke32_def)

lemma peek32_poke32_same [simp]: "4 * i + 4 \<le> length bs \<Longrightarrow> peek32 (poke32 bs i w) i = w"
  by (simp add: peek32_def poke32_def)

lemma peek32_poke32_before:
  "j < i \<Longrightarrow> 4 * i + 4 \<le> length bs \<Longrightarrow> peek32 (poke32 bs i w) j = peek32 bs j"
  by (simp add: peek32_def poke32_def take_drop min_def)

lemma peek32_poke32_after:
  assumes "i < j" "4 * i + 4 \<le> length bs"
  shows "peek32 (poke32 bs i w) j = peek32 bs j"
proof -
  have "drop (4 * j) (poke32 bs i w) = drop (4 * j - (4 * i + 4)) (drop (4 * i + 4) bs)"
    using assms by (simp add: poke32_def)
  also have "\<dots> = drop (4 * j) bs"
    using assms by simp
  finally show ?thesis by (simp add: peek32_def)
qed

lemma peek32_poke32 [simp]:
  "4 * i + 4 \<le> length bs \<Longrightarrow> peek32 (poke32 bs i w) j = (if i = j then w else peek32 bs j)"
  by (cases i j rule: linorder_cases) (simp_all add: peek32_poke32_before peek32_poke32_after)

text \<open>Writing consecutive words (\<open>*p++ = x\<close>), and reading a buffer's words.\<close>

primrec poke_words :: "byte list \<Rightarrow> nat \<Rightarrow> uint32 list \<Rightarrow> byte list" where
  "poke_words bs i [] = bs"
| "poke_words bs i (w # ws) = poke_words (poke32 bs i w) (Suc i) ws"

lemma length_poke_words [simp]:
  "4 * (i + length ws) \<le> length bs \<Longrightarrow> length (poke_words bs i ws) = length bs"
  by (induction ws arbitrary: bs i) auto

lemma peek32_poke_words:
  "4 * (i + length ws) \<le> length bs \<Longrightarrow>
     peek32 (poke_words bs i ws) j =
       (if i \<le> j \<and> j < i + length ws then ws ! (j - i) else peek32 bs j)"
proof (induction ws arbitrary: bs i)
  case (Cons w ws)
  then have IH: "peek32 (poke_words bs i (w # ws)) j =
      (if Suc i \<le> j \<and> j < Suc i + length ws then ws ! (j - Suc i)
       else if i = j then w else peek32 bs j)"
    by simp
  show ?case
  proof (cases "i < j")
    case True
    then have "(w # ws) ! (j - i) = ws ! (j - Suc i)"
      by (simp add: nth_Cons')
    with IH True show ?thesis by auto
  next
    case False
    with IH show ?thesis by (auto simp: nth_Cons')
  qed
qed auto

text \<open>Applying a function to the words \<open>0 .. n - 1\<close> of a buffer, as the loops of
  \<open>CChannel\<close> do, and its effect on the bytes.\<close>

primrec map_words :: "(uint32 \<Rightarrow> uint32) \<Rightarrow> byte list \<Rightarrow> nat \<Rightarrow> byte list" where
  "map_words f bs 0 = bs"
| "map_words f bs (Suc n) = poke32 (map_words f bs n) n (f (peek32 (map_words f bs n) n))"

lemma length_map_words [simp]: "4 * n \<le> length bs \<Longrightarrow> length (map_words f bs n) = length bs"
  by (induction n) auto

lemma peek32_map_words:
  "4 * n \<le> length bs \<Longrightarrow>
     peek32 (map_words f bs n) j = (if j < n then f (peek32 bs j) else peek32 bs j)"
  by (induction n) (auto simp: less_Suc_eq)

lemma poke32_peek32 [simp]: "4 * i + 4 \<le> length bs \<Longrightarrow> poke32 bs i (peek32 bs i) = bs"
proof -
  assume l: "4 * i + 4 \<le> length bs"
  have "poke32 bs i (peek32 bs i) = take (4 * i) bs @ take 4 (drop (4 * i) bs) @ drop 4 (drop (4 * i) bs)"
    using l by (simp add: poke32_def peek32_def add.commute)
  then show ?thesis by (simp only: append_take_drop_id)
qed

text \<open>A buffer is determined by its words and the bytes past them.\<close>

lemma map_words_id: "4 * n \<le> length bs \<Longrightarrow> (\<And>j. j < n \<Longrightarrow> f (peek32 bs j) = peek32 bs j) \<Longrightarrow> map_words f bs n = bs"
  by (induction n) auto

lemma drop_map_words: "4 * n \<le> length bs \<Longrightarrow> drop (4 * n) (map_words f bs n) = drop (4 * n) bs"
proof (induction n)
  case (Suc n)
  have "drop (4 * Suc n) (map_words f bs (Suc n)) = drop (4 + 4 * n) (map_words f bs n)"
    using Suc.prems by (simp add: poke32_def add.commute)
  also have "\<dots> = drop 4 (drop (4 * n) (map_words f bs n))" by simp
  also have "\<dots> = drop 4 (drop (4 * n) bs)" using Suc by simp
  finally show ?case by simp
qed simp

lemma buffer_eqI:
  assumes "length as = length bs" "4 * n \<le> length as"
    and "\<And>j. j < n \<Longrightarrow> peek32 as j = peek32 bs j" "drop (4 * n) as = drop (4 * n) bs"
  shows "as = bs"
  using assms
proof (induction n)
  case (Suc n)
  have "take 4 (drop (4 * n) xs) = bytes_of (peek32 xs n)" if "4 * Suc n \<le> length xs" for xs
    using that by (simp add: peek32_def)
  then have "take 4 (drop (4 * n) as) = take 4 (drop (4 * n) bs)"
    using Suc.prems(1,2) Suc.prems(3) [of n] by simp
  moreover have "drop 4 (drop (4 * n) as) = drop 4 (drop (4 * n) bs)"
    using Suc.prems(4) by (simp add: add.commute)
  ultimately have "drop (4 * n) as = drop (4 * n) bs"
    by (metis append_take_drop_id)
  then show ?case using Suc by simp
qed simp

lemma map_words_inverse:
  assumes "4 * n \<le> length bs" "\<And>w. g (f w) = w"
  shows "map_words g (map_words f bs n) n = bs"
proof (rule buffer_eqI [where n = n])
  show "drop (4 * n) (map_words g (map_words f bs n) n) = drop (4 * n) bs"
    using assms(1) by (simp add: drop_map_words)
qed (use assms in \<open>simp_all add: peek32_map_words\<close>)

text \<open>The words of a prefix.\<close>

lemma peek32_append: "4 * i + 4 \<le> length as \<Longrightarrow> peek32 (as @ bs) i = peek32 as i"
  by (simp add: peek32_def)

lemma poke32_append: "4 * i + 4 \<le> length as \<Longrightarrow> poke32 (as @ bs) i w = poke32 as i w @ bs"
  by (simp add: poke32_def)

lemma map_words_append:
  "4 * n \<le> length as \<Longrightarrow> map_words f (as @ bs) n = map_words f as n @ bs"
  by (induction n) (auto simp: peek32_append poke32_append)

lemma take_map_words:
  assumes "4 * n \<le> k" "k \<le> length bs"
  shows "take k (map_words f bs n) = map_words f (take k bs) n"
proof -
  have "map_words f bs n = map_words f (take k bs) n @ drop k bs"
    using assms by (subst append_take_drop_id [of k bs, symmetric], subst map_words_append) auto
  then show ?thesis using assms by simp
qed

section \<open>Fields of a word\<close>

text \<open>Joining a low field below \<open>2 ^ n\<close> to a shifted high field is addition, so that the
  shifts and masks that read the fields back are division and remainder.\<close>

lemma or_shift_add:
  fixes x y :: int
  assumes "0 \<le> x" "x < 2 ^ n"
  shows "push_bit n y OR x = y * 2 ^ n + x"
proof -
  have x: "take_bit n x = x" using assms by (simp add: take_bit_int_eq_self)
  have "push_bit n y + x = push_bit n y OR x"
  proof (rule disjunctive_add)
    fix k
    show "\<not> bit (push_bit n y) k \<or> \<not> bit x k"
      by (subst x [symmetric]) (auto simp: bit_simps)
  qed
  then show ?thesis by (simp add: push_bit_eq_mult)
qed

lemma uint_of_int32: "0 \<le> x \<Longrightarrow> x < 0x100000000 \<Longrightarrow> uint (word_of_int x :: uint32) = x"
  by (simp add: uint_word_of_int)

lemma uint_drop_bit32: "uint (drop_bit n (w :: uint32)) = uint w div 2 ^ n"
proof -
  have "uint w < 2 ^ 32" using uint_lt2p [of w] by simp
  then have "take_bit 32 (uint w) = uint w"
    by (simp add: take_bit_int_eq_self)
  then show ?thesis
    by (subst unsigned_drop_bit_eq) (simp add: drop_bit_eq_div)
qed

lemma uint_and_mask32: "uint ((w :: uint32) AND mask n) = uint w mod 2 ^ n"
  by (subst take_bit_eq_mask [symmetric], subst unsigned_take_bit_eq) (simp add: take_bit_eq_mod)

end
