(* ===== verification/Packet.thy ===== *)
theory Packet imports Memory SeqNo begin

text \<open>
  UDT packets and handshakes: the classes \<open>CPacket\<close> and \<open>CHandShake\<close> of \<open>packet.h\<close> and
  \<open>packet.cpp\<close>. A packet is its four header words and the buffer its second I/O vector
  points to, which may be longer than the vector's length \<open>iov_len\<close>. The references
  \<open>m_iSeqNo\<close>, \<open>m_iMsgNo\<close>, \<open>m_iTimeStamp\<close> and \<open>m_iID\<close> of the class are aliases of the header
  words, so they are accessors here.
\<close>

section \<open>Packets\<close>

record CPacket =
  m_nHeader :: "uint32 list"
  m_pcData :: "byte list"
  iov_len :: int

definition m_iPktHdrSize :: int where "m_iPktHdrSize = 16"

definition CPacket_new :: CPacket where
  "CPacket_new = \<lparr>m_nHeader = [0, 0, 0, 0], m_pcData = [], iov_len = 0\<rparr>"

definition hdr :: "CPacket \<Rightarrow> nat \<Rightarrow> uint32" where
  "hdr p i = m_nHeader p ! i"

definition set_hdr :: "nat \<Rightarrow> uint32 \<Rightarrow> CPacket \<Rightarrow> CPacket" where
  "set_hdr i w p = p\<lparr>m_nHeader := (m_nHeader p)[i := w]\<rparr>"

definition m_iSeqNo :: "CPacket \<Rightarrow> int32" where "m_iSeqNo p = sint (hdr p 0)"
definition m_iMsgNo :: "CPacket \<Rightarrow> int32" where "m_iMsgNo p = sint (hdr p 1)"
definition m_iTimeStamp :: "CPacket \<Rightarrow> int32" where "m_iTimeStamp p = sint (hdr p 2)"
definition m_iID :: "CPacket \<Rightarrow> int32" where "m_iID p = sint (hdr p 3)"

definition set_m_iID :: "int32 \<Rightarrow> CPacket \<Rightarrow> CPacket" where
  "set_m_iID i p = set_hdr 3 (word_of_int i) p"

definition getLength :: "CPacket \<Rightarrow> int" where "getLength p = iov_len p"

definition setLength :: "int \<Rightarrow> CPacket \<Rightarrow> CPacket" where
  "setLength len p = p\<lparr>iov_len := len\<rparr>"

text \<open>\<open>pack\<close> fills the header of a control packet. The pointer \<open>lparam\<close> is the value it
  points to, or \<open>None\<close> for NULL; \<open>rparam\<close> is the buffer, or \<open>None\<close>. The result is \<open>None\<close> where
  the code dereferences a null \<open>lparam\<close>. The four zero bytes are the member \<open>__pad\<close>.\<close>

definition pad4 :: "byte list" where "pad4 = [0, 0, 0, 0]"

definition set_vector :: "byte list option \<Rightarrow> int \<Rightarrow> CPacket \<Rightarrow> CPacket" where
  "set_vector buf len p = p\<lparr>m_pcData := (case buf of None \<Rightarrow> [] | Some b \<Rightarrow> b), iov_len := len\<rparr>"

definition pack :: "int \<Rightarrow> int32 option \<Rightarrow> byte list option \<Rightarrow> int \<Rightarrow> CPacket \<Rightarrow> CPacket option" where
  "pack pkttype lparam rparam sz p =
    (let p = set_hdr 0 (0x80000000 OR push_bit 16 (word_of_int pkttype)) p in
     if pkttype = 2 then
       let p = (case lparam of None \<Rightarrow> p | Some v \<Rightarrow> set_hdr 1 (word_of_int v) p)
       in Some (set_vector rparam sz p)
     else if pkttype = 6 then
       map_option (\<lambda>v. set_vector (Some pad4) 4 (set_hdr 1 (word_of_int v) p)) lparam
     else if pkttype = 3 then Some (set_vector rparam sz p)
     else if pkttype = 4 then Some (set_vector (Some pad4) 4 p)
     else if pkttype = 1 then Some (set_vector (Some pad4) 4 p)
     else if pkttype = 0 then Some (set_vector rparam sz p)
     else if pkttype = 5 then Some (set_vector (Some pad4) 4 p)
     else if pkttype = 7 then
       map_option (\<lambda>v. set_vector rparam sz (set_hdr 1 (word_of_int v) p)) lparam
     else if pkttype = 8 then
       map_option (\<lambda>v. set_vector (Some pad4) 4 (set_hdr 1 (word_of_int v) p)) lparam
     else if pkttype = 32767 then
       map_option (\<lambda>v.
         let p = set_hdr 0 (hdr p 0 OR word_of_int v) p
         in if rparam \<noteq> None then set_vector rparam sz p else set_vector (Some pad4) 4 p) lparam
     else Some p)"

definition getFlag :: "CPacket \<Rightarrow> int" where "getFlag p = uint (drop_bit 31 (hdr p 0))"

definition getType :: "CPacket \<Rightarrow> int" where
  "getType p = uint (drop_bit 16 (hdr p 0) AND 0x00007FFF)"

definition getExtendedType :: "CPacket \<Rightarrow> int" where
  "getExtendedType p = uint (hdr p 0 AND 0x0000FFFF)"

definition getAckSeqNo :: "CPacket \<Rightarrow> int32" where "getAckSeqNo p = sint (hdr p 1)"

definition getMsgBoundary :: "CPacket \<Rightarrow> int" where
  "getMsgBoundary p = uint (drop_bit 30 (hdr p 1))"

definition getMsgOrderFlag :: "CPacket \<Rightarrow> bool" where
  "getMsgOrderFlag p \<longleftrightarrow> 1 = drop_bit 29 (hdr p 1) AND 1"

definition getMsgSeq :: "CPacket \<Rightarrow> int32" where
  "getMsgSeq p = sint (hdr p 1 AND 0x1FFFFFFF)"

definition CPacket_clone :: "CPacket \<Rightarrow> CPacket" where
  "CPacket_clone p = \<lparr>m_nHeader = m_nHeader p, m_pcData = take (nat (iov_len p)) (m_pcData p),
                      iov_len = iov_len p\<rparr>"

lemmas packet_defs = m_iSeqNo_def m_iMsgNo_def m_iTimeStamp_def m_iID_def getLength_def
  setLength_def hdr_def set_hdr_def set_vector_def set_m_iID_def

definition packet_ok :: "CPacket \<Rightarrow> bool" where
  "packet_ok p \<longleftrightarrow> length (m_nHeader p) = 4 \<and> 0 \<le> iov_len p \<and> iov_len p \<le> int (length (m_pcData p))"

section \<open>Handshakes\<close>

record CHandShake =
  m_iVersion :: int32
  m_iType :: int32
  m_iISN :: int32
  m_iMSS :: int32
  m_iFlightFlagSize :: int32
  m_iReqType :: int32
  m_iHsID :: int32
  m_iCookie :: int32
  m_piPeerIP :: "uint32 list"

definition m_iContentSize :: int where "m_iContentSize = 48"

definition CHandShake_new :: CHandShake where
  "CHandShake_new = \<lparr>m_iVersion = 0, m_iType = 0, m_iISN = 0, m_iMSS = 0, m_iFlightFlagSize = 0,
     m_iReqType = 0, m_iHsID = 0, m_iCookie = 0, m_piPeerIP = [0, 0, 0, 0]\<rparr>"

text \<open>\<open>serialize\<close> returns the code's return value, the buffer and the updated \<open>size\<close>.\<close>

definition serialize :: "CHandShake \<Rightarrow> byte list \<Rightarrow> int \<Rightarrow> int \<times> byte list \<times> int" where
  "serialize h buf sz =
    (if sz < m_iContentSize then (-1, buf, sz)
     else (0, poke_words buf 0
       (map word_of_int [m_iVersion h, m_iType h, m_iISN h, m_iMSS h, m_iFlightFlagSize h,
                         m_iReqType h, m_iHsID h, m_iCookie h]
        @ [m_piPeerIP h ! 0, m_piPeerIP h ! 1, m_piPeerIP h ! 2, m_piPeerIP h ! 3]),
       m_iContentSize))"

definition deserialize :: "byte list \<Rightarrow> int \<Rightarrow> CHandShake \<Rightarrow> int \<times> CHandShake" where
  "deserialize buf sz h =
    (if sz < m_iContentSize then (-1, h)
     else (0, \<lparr>m_iVersion = sint (peek32 buf 0), m_iType = sint (peek32 buf 1),
       m_iISN = sint (peek32 buf 2), m_iMSS = sint (peek32 buf 3),
       m_iFlightFlagSize = sint (peek32 buf 4), m_iReqType = sint (peek32 buf 5),
       m_iHsID = sint (peek32 buf 6), m_iCookie = sint (peek32 buf 7),
       m_piPeerIP = [peek32 buf 8, peek32 buf 9, peek32 buf 10, peek32 buf 11]\<rparr>))"

text \<open>A handshake whose members have values of their C++ types.\<close>

definition handshake_ok :: "CHandShake \<Rightarrow> bool" where
  "handshake_ok h \<longleftrightarrow>
     list_all fits_int32 [m_iVersion h, m_iType h, m_iISN h, m_iMSS h, m_iFlightFlagSize h,
       m_iReqType h, m_iHsID h, m_iCookie h] \<and> length (m_piPeerIP h) = 4"

lemma sint_word_of_int32: "fits_int32 x \<Longrightarrow> sint (word_of_int x :: 32 word) = x"
  by (simp add: fits_int32_def sint_sbintrunc' signed_take_bit_int_eq_self)

lemma list4_nths: "length xs = 4 \<Longrightarrow> [xs ! 0, xs ! Suc 0, xs ! 2, xs ! 3] = xs"
  by (auto simp: numeral_eq_Suc length_Suc_conv)

lemma serialize_small: "sz < m_iContentSize \<Longrightarrow> serialize h buf sz = (-1, buf, sz)"
  by (simp add: serialize_def)

lemma deserialize_serialize:
  assumes "handshake_ok h" "m_iContentSize \<le> sz" "48 \<le> length buf"
    and "serialize h buf sz = (r, buf', sz')"
  shows "r = 0 \<and> sz' = m_iContentSize \<and> length buf' = length buf \<and>
    deserialize buf' sz' h0 = (0, h)"
proof -
  let ?ws = "map word_of_int [m_iVersion h, m_iType h, m_iISN h, m_iMSS h, m_iFlightFlagSize h,
      m_iReqType h, m_iHsID h, m_iCookie h]
      @ [m_piPeerIP h ! 0, m_piPeerIP h ! 1, m_piPeerIP h ! 2, m_piPeerIP h ! 3]"
  have buf': "buf' = poke_words buf 0 ?ws" and r: "r = 0" "sz' = m_iContentSize"
    using assms by (auto simp: serialize_def)
  have peek: "peek32 buf' j = ?ws ! j" if "j < 12" for j
    using that assms(3) unfolding buf' by (subst peek32_poke_words) auto
  have "deserialize buf' sz' h0 = (0, h)"
    using assms(1) by (simp add: deserialize_def r peek handshake_ok_def sint_word_of_int32 list4_nths)
  then show ?thesis
    using r assms(3) by (simp add: buf')
qed

text \<open>C30: a handshake that is serialized into a buffer of at least 48 bytes is read back unchanged
  by \<open>deserialize\<close>, whatever the receiving structure held.\<close>

theorem handshake_roundtrip:
  assumes "handshake_ok h" "m_iContentSize \<le> sz" "48 \<le> length buf"
    and "serialize h buf sz = (r, buf', sz')"
  shows "r = 0 \<and> sz' = m_iContentSize \<and> length buf' = length buf \<and>
    deserialize buf' sz' h0 = (0, h)"
  by (rule deserialize_serialize [OF assms])

theorem handshake_roundtrip_witness:
  "\<exists>r buf' sz'. serialize (CHandShake_new\<lparr>m_iVersion := 4, m_iReqType := -1, m_iISN := 77\<rparr>)
      (replicate 64 0) 64 = (r, buf', sz') \<and>
    deserialize buf' sz' CHandShake_new
      = (0, CHandShake_new\<lparr>m_iVersion := 4, m_iReqType := -1, m_iISN := 77\<rparr>)"
proof -
  let ?h = "CHandShake_new\<lparr>m_iVersion := 4, m_iReqType := -1, m_iISN := 77\<rparr>"
  obtain r buf' sz' where s: "serialize ?h (replicate 64 0) 64 = (r, buf', sz')"
    by (cases "serialize ?h (replicate 64 0) 64") auto
  have "handshake_ok ?h" "m_iContentSize \<le> 64" "48 \<le> length (replicate 64 (0::byte))"
    by (simp_all add: handshake_ok_def CHandShake_new_def fits_int32_def m_iContentSize_def)
  from handshake_roundtrip [OF this s] s show ?thesis by blast
qed

section \<open>Reading back what \<open>pack\<close> wrote\<close>

lemma hdr_set_hdr [simp]:
  "i < length (m_nHeader p) \<Longrightarrow> hdr (set_hdr i w p) j = (if i = j then w else hdr p j)"
  by (simp add: hdr_def set_hdr_def)

lemma length_set_hdr [simp]: "length (m_nHeader (set_hdr i w p)) = length (m_nHeader p)"
  by (simp add: set_hdr_def)

lemma hdr_set_vector [simp]: "hdr (set_vector b n p) i = hdr p i"
  by (simp add: hdr_def set_vector_def)

lemma length_set_vector [simp]: "length (m_nHeader (set_vector b n p)) = length (m_nHeader p)"
  by (simp add: set_vector_def)

text \<open>The header word of a control packet, with or without an extended type.\<close>

definition ctrl_word :: "int \<Rightarrow> int \<Rightarrow> uint32" where
  "ctrl_word t x = (0x80000000 OR push_bit 16 (word_of_int t)) OR word_of_int x"

lemma uint_ctrl_word:
  assumes "0 \<le> t" "t < 32768" "0 \<le> x" "x < 65536"
  shows "uint (ctrl_word t x) = 0x80000000 + t * 65536 + x"
proof -
  have "ctrl_word t x = word_of_int ((push_bit 31 1 OR push_bit 16 t) OR x)"
    by (simp add: ctrl_word_def of_int_or_eq of_int_push_bit)
  also have "(push_bit 31 1 OR push_bit 16 t) OR x = push_bit 16 (push_bit 15 1 OR t) OR x"
    by (simp add: push_bit_or)
  also have "\<dots> = (32768 + t) * 65536 + x"
    using or_shift_add [of x 16 "32768 + t"] or_shift_add [of t 15 1] assms by simp
  finally show ?thesis
    using assms by (simp only: uint_word_of_int) simp
qed

lemma mask_consts:
  "(0x00007FFF :: uint32) = mask 15" "(0x0000FFFF :: uint32) = mask 16"
  "(0x1FFFFFFF :: uint32) = mask 29"
  by (simp_all add: mask_eq_exp_minus_1)

lemma read_ctrl_word:
  assumes "hdr q 0 = ctrl_word t x" "0 \<le> t" "t < 32768" "0 \<le> x" "x < 65536"
  shows "getFlag q = 1" "getType q = t" "getExtendedType q = x"
proof -
  have v: "uint (hdr q 0) = x + (32768 + t) * 65536"
    using assms by (simp add: uint_ctrl_word)
  have "(x + (32768 + t) * 65536) div 65536 = 32768 + t" "(x + (32768 + t) * 65536) mod 65536 = x"
    using assms by (simp_all only: div_mult_self1 mod_mult_self1) simp_all
  moreover have "(x + (32768 + t) * 65536) div 0x80000000 = 1"
    using assms by simp
  ultimately show "getFlag q = 1" "getType q = t" "getExtendedType q = x"
    using assms(2-) by (simp_all add: getFlag_def getType_def getExtendedType_def mask_consts
        uint_drop_bit32 uint_and_mask32 v)
qed

lemma pack_accessors:
  assumes "packet_ok p" "0 \<le> t" "t < 32768" "t = 32767 \<longrightarrow> (\<exists>x. l = Some x \<and> 0 \<le> x \<and> x < 65536)"
    and "pack t l r sz p = Some q"
  shows "getFlag q = 1 \<and> getType q = t \<and> getExtendedType q = (if t = 32767 then the l else 0) \<and>
    (t \<in> {2, 6, 7, 8} \<longrightarrow> (\<forall>v. l = Some v \<longrightarrow> fits_int32 v \<longrightarrow> getAckSeqNo q = v))"
proof -
  let ?x = "if t = 32767 then the l else 0"
  have len: "length (m_nHeader p) = 4" using assms(1) by (simp add: packet_ok_def)
  have "hdr q 0 = ctrl_word t ?x"
    using assms(4,5) len by (auto simp: pack_def ctrl_word_def Let_def split: if_splits option.splits)
  moreover have "0 \<le> ?x" "?x < 65536" using assms(4) by auto
  moreover have "getAckSeqNo q = v" if "t \<in> {2, 6, 7, 8}" "l = Some v" "fits_int32 v" for v
    using that assms(5) len by (auto simp: pack_def getAckSeqNo_def Let_def sint_word_of_int32)
  ultimately show ?thesis
    using read_ctrl_word [of q t ?x] assms(2,3) by blast
qed

text \<open>C32: whatever type and extended type a control packet is packed with, the accessors of
  the receiving side read them back.\<close>

theorem pack_read_back:
  assumes "packet_ok p" "0 \<le> t" "t < 32768" "t = 32767 \<longrightarrow> (\<exists>x. l = Some x \<and> 0 \<le> x \<and> x < 65536)"
    and "pack t l r sz p = Some q"
  shows "getFlag q = 1 \<and> getType q = t \<and> getExtendedType q = (if t = 32767 then the l else 0) \<and>
    (t \<in> {2, 6, 7, 8} \<longrightarrow> (\<forall>v. l = Some v \<longrightarrow> fits_int32 v \<longrightarrow> getAckSeqNo q = v))"
  by (rule pack_accessors [OF assms])

theorem pack_read_back_witness:
  "\<exists>q. pack 6 (Some 12345) None 0 CPacket_new = Some q \<and> getFlag q = 1 \<and> getType q = 6 \<and>
    getAckSeqNo q = 12345"
proof -
  obtain q where q: "pack 6 (Some 12345) None 0 CPacket_new = Some q"
    by (simp add: pack_def)
  have "packet_ok CPacket_new" by (simp add: packet_ok_def CPacket_new_def)
  from pack_read_back [OF this _ _ _ q] q show ?thesis by (simp add: fits_int32_def)
qed

text \<open>The fields of a data packet's message word.\<close>

lemma read_msg_word:
  assumes "hdr q 1 = word_of_int (b * 0x40000000 + ord * 0x20000000 + n)"
    and "0 \<le> b" "b < 4" "0 \<le> ord" "ord < 2" "0 \<le> n" "n < 0x20000000"
  shows "getMsgBoundary q = b" "getMsgOrderFlag q \<longleftrightarrow> ord = 1" "getMsgSeq q = n"
proof -
  let ?v = "b * 0x40000000 + ord * 0x20000000 + n"
  have u: "uint (hdr q 1) = ?v"
    using assms by (simp only: uint_word_of_int) simp
  note u = u u [unfolded One_nat_def]
  show "getMsgBoundary q = b"
    using assms(2-) by (simp add: getMsgBoundary_def uint_drop_bit32 u)
  have "?v = n + (ord + b * 2) * 0x20000000" by simp
  then have "?v div 0x20000000 = ord + b * 2"
    using assms(2-) by simp
  then have "?v div 0x20000000 mod 2 = ord"
    using assms(2-) by simp
  then have "uint (drop_bit 29 (hdr q 1) AND 1) = ord"
    using assms(2-) uint_and_mask32 [of "drop_bit 29 (hdr q 1)" 1]
    by (simp add: uint_drop_bit32 u mask_eq_exp_minus_1)
  then show "getMsgOrderFlag q \<longleftrightarrow> ord = 1"
    by (metis getMsgOrderFlag_def uint_1_eq word_uint_eq_iff)
  have "?v = n + (ord + b * 2) * 0x20000000" by simp
  then have "?v mod 0x20000000 = n"
    using assms(2-) by (metis mod_mult_self1 mod_pos_pos_trivial)
  then have "uint (hdr q 1 AND 0x1FFFFFFF) = n"
    by (simp add: mask_consts uint_and_mask32 u)
  then show "getMsgSeq q = n"
    using assms(2-) by (simp add: getMsgSeq_def sint_uint signed_take_bit_int_eq_self)
qed

end
