(* ===== verification/Channel.thy ===== *)
theory Channel imports Packet begin

text \<open>
  The byte-order work of \<open>CChannel\<close> (\<open>channel.cpp\<close>): \<open>sendto\<close> turns the header, and for a
  control packet the payload words, into network order, hands the two vectors to the
  socket and turns them back; \<open>recvfrom\<close> fills a packet from a datagram. The socket is not
  modelled: \<open>sendto\<close> yields the datagram it passes to \<open>sendmsg\<close>, and \<open>recvfrom\<close> takes the
  datagram \<open>recvmsg\<close> delivered, \<open>None\<close> when that call failed or delivered nothing.
\<close>

definition swap_payload :: "(uint32 \<Rightarrow> uint32) \<Rightarrow> CPacket \<Rightarrow> CPacket" where
  "swap_payload f p =
    (if getFlag p \<noteq> 0 then p\<lparr>m_pcData := map_words f (m_pcData p) (nat (getLength p sdiv 4))\<rparr> else p)"

definition swap_header :: "(uint32 \<Rightarrow> uint32) \<Rightarrow> CPacket \<Rightarrow> CPacket" where
  "swap_header f p = p\<lparr>m_nHeader := map f (m_nHeader p)\<rparr>"

text \<open>The bytes of the two vectors, as the socket reads them from memory.\<close>

definition vectors :: "CPacket \<Rightarrow> byte list" where
  "vectors p = concat (map bytes_of (m_nHeader p)) @ take (nat (iov_len p)) (m_pcData p)"

definition CChannel_sendto :: "CPacket \<Rightarrow> byte list \<times> CPacket" where
  "CChannel_sendto packet =
    (let p = swap_header htonl (swap_payload htonl packet);
         datagram = vectors p;
         p = swap_payload ntohl (swap_header ntohl p)
     in (datagram, p))"

text \<open>A datagram is scattered over the four header words and the payload buffer; what does
  not fit in the payload vector is cut off by the socket. A datagram of at most 16 bytes
  leaves the buffer as it was.\<close>

definition scatter :: "byte list \<Rightarrow> CPacket \<Rightarrow> CPacket" where
  "scatter d p =
    (let body = take (nat (iov_len p)) (drop 16 d)
     in p\<lparr>m_nHeader := map (peek32 (take 16 d @ drop (length d) (concat (map bytes_of (m_nHeader p))))) [0, 1, 2, 3],
          m_pcData := body @ drop (length body) (m_pcData p)\<rparr>)"

definition CChannel_recvfrom :: "byte list option \<Rightarrow> CPacket \<Rightarrow> int \<times> CPacket" where
  "CChannel_recvfrom datagram packet =
    (case datagram of
       None \<Rightarrow> (-1, setLength (-1) packet)
     | Some d \<Rightarrow>
         let res = min (int (length d)) (16 + iov_len packet)
         in if res \<le> 0 then (-1, setLength (-1) packet)
            else let p = setLength (res - m_iPktHdrSize) (scatter d packet);
                     p = swap_payload ntohl (swap_header ntohl p)
                 in (getLength p, p))"

section \<open>Sending leaves the packet as it was\<close>

lemma getFlag_update [simp]: "getFlag (p\<lparr>m_pcData := d\<rparr>) = getFlag p"
  "getFlag (p\<lparr>iov_len := l\<rparr>) = getFlag p"
  by (simp_all add: getFlag_def hdr_def)

lemma map_inverse: "(\<And>w. g (f w) = w) \<Longrightarrow> map (g \<circ> f) xs = xs"
  by (simp add: map_idI)

lemma words_fit: "packet_ok p \<Longrightarrow> 4 * nat (getLength p sdiv 4) \<le> length (m_pcData p)"
proof -
  assume ok: "packet_ok p"
  then have "getLength p sdiv 4 = iov_len p div 4"
    by (simp add: packet_ok_def getLength_def)
  moreover have "4 * (iov_len p div 4) \<le> iov_len p" by simp
  ultimately show ?thesis using ok by (simp add: packet_ok_def nat_le_iff zle_int [symmetric])
qed

lemma swap_payload_inverse:
  assumes "packet_ok p" "\<And>w. g (f w) = w"
  shows "swap_payload g (swap_payload f p) = p"
  using assms words_fit [OF assms(1)]
  by (simp add: swap_payload_def getLength_def map_words_inverse)

lemma swap_header_inverse: "(\<And>w. g (f w) = w) \<Longrightarrow> swap_header g (swap_header f p) = p"
  by (simp add: swap_header_def map_inverse)

lemma sendto_restores: "packet_ok p \<Longrightarrow> snd (CChannel_sendto p) = p"
  by (simp add: CChannel_sendto_def Let_def swap_header_inverse swap_payload_inverse)

text \<open>The header leaves in network order, whatever the kind of packet.\<close>

lemma sendto_header: "take 16 (fst (CChannel_sendto p)) =
    concat (map (\<lambda>w. rev (bytes_of w)) (m_nHeader p))" if "length (m_nHeader p) = 4"
proof -
  have "m_nHeader (swap_payload htonl p) = m_nHeader p"
    by (simp add: swap_payload_def)
  then show ?thesis
    using that by (auto simp: CChannel_sendto_def Let_def vectors_def swap_header_def
        bytes_of_htonl numeral_eq_Suc length_Suc_conv)
qed

section \<open>Receiving what was sent\<close>

lemma peek_header:
  assumes "length hs = 4" "i < 4"
  shows "peek32 (concat (map bytes_of hs) @ rest) i = hs ! i"
proof -
  obtain a b c d where hs: "hs = [a, b, c, d]"
    using assms by (auto simp: numeral_eq_Suc length_Suc_conv)
  show ?thesis
    using assms(2) by (auto simp: hs peek32_def less_Suc_eq numeral_eq_Suc)
qed

lemma header_words:
  "length hs = 4 \<Longrightarrow> map (peek32 (concat (map bytes_of hs) @ rest)) [0, 1, 2, 3] = hs"
  using list4_nths [of hs] by (simp add: peek_header)

text \<open>The datagram, and what scattering one makes of a packet.\<close>

lemma sendto_bytes:
  assumes "packet_ok p"
  defines "t \<equiv> take (nat (iov_len p)) (m_pcData p)"
  shows "fst (CChannel_sendto p) = concat (map bytes_of (map htonl (m_nHeader p))) @
    (if getFlag p \<noteq> 0 then map_words htonl t (nat (iov_len p div 4)) else t)"
proof -
  have p: "0 \<le> iov_len p" "nat (iov_len p) \<le> length (m_pcData p)" "length (m_nHeader p) = 4" using assms(1) by (auto simp: packet_ok_def)
  have k: "nat (iov_len p sdiv 4) = nat (iov_len p div 4)" "4 * nat (iov_len p div 4) \<le> nat (iov_len p)" using p(1) by simp_all
  show ?thesis
    using p k by (simp add: CChannel_sendto_def Let_def vectors_def swap_header_def swap_payload_def getLength_def take_map_words t_def)
qed

lemma scatter_bytes:
  assumes "length hs = 4" "length (m_nHeader q) = 4" "int (length w) \<le> iov_len q"
  shows "m_nHeader (scatter (concat (map bytes_of hs) @ w) q) = hs"
    and "m_pcData (scatter (concat (map bytes_of hs) @ w) q) = w @ drop (length w) (m_pcData q)"
proof -
  let ?h = "concat (map bytes_of hs)"
  have l: "length ?h = 16" using assms(1) by (simp add: length_concat o_def sum_list_triv)
  then have "take 16 (?h @ w) = ?h" by simp
  then have "m_nHeader (scatter (?h @ w) q) = map (peek32 (?h @ drop (length (?h @ w)) (concat (map bytes_of (m_nHeader q))))) [0, 1, 2, 3]"
    unfolding scatter_def Let_def by simp
  then show "m_nHeader (scatter (?h @ w) q) = hs" using header_words [of hs] assms(1) by simp
  show "m_pcData (scatter (?h @ w) q) = w @ drop (length w) (m_pcData q)" using l assms(3) by (simp add: scatter_def Let_def)
qed

text \<open>C35: what is sent through the channel arrives with the same header and payload, whatever
  the buffer of the receiver held.\<close>

theorem channel_roundtrip:
  assumes p: "packet_ok p" and q: "packet_ok q" and fits: "iov_len p \<le> iov_len q"
    and recv: "CChannel_recvfrom (Some (fst (CChannel_sendto p))) q = (n, q')"
  shows "n = iov_len p \<and> iov_len q' = iov_len p \<and> m_nHeader q' = m_nHeader p \<and>
    take (nat (iov_len p)) (m_pcData q') = take (nat (iov_len p)) (m_pcData p)"
proof -
  define L k where "L = nat (iov_len p)" and "k = nat (iov_len p div 4)"
  have L: "iov_len p = int L" "L \<le> length (m_pcData p)" "int L \<le> iov_len q" "length (m_nHeader p) = 4" "length (m_nHeader q) = 4"
    using p q fits by (auto simp: packet_ok_def L_def)
  have k: "nat (int L sdiv 4) = k" "4 * k \<le> L" by (auto simp: k_def L_def nat_div_distrib)
  define w where "w = (if getFlag p \<noteq> 0 then map_words htonl (take L (m_pcData p)) k else take L (m_pcData p))"
  have lw: "length w = L" using L k by (simp add: w_def)
  let ?hs = "map htonl (m_nHeader p)"
  have d: "fst (CChannel_sendto p) = concat (map bytes_of ?hs) @ w" using sendto_bytes [OF p] by (simp add: w_def L_def k_def)
  let ?s = "scatter (concat (map bytes_of ?hs) @ w) q"
  have "length ?hs = 4" "int (length w) \<le> iov_len q" using L(3,4) lw by simp_all
  note s = scatter_bytes [OF this(1) L(5) this(2)]
  have flag: "getFlag (swap_header ntohl (setLength (int L) ?s)) = getFlag p"
    using s(1) L(4) by (simp add: getFlag_def hdr_def swap_header_def setLength_def)
  have "length (concat (map bytes_of ?hs)) = 16" using L(4) by (simp add: length_concat o_def sum_list_triv)
  then have q': "(n, q') = (let p = swap_payload ntohl (swap_header ntohl (setLength (int L) ?s)) in (getLength p, p))"
    using recv lw L by (auto simp: CChannel_recvfrom_def d Let_def m_iPktHdrSize_def min_def)
  have "m_nHeader q' = m_nHeader p" "n = int L" "iov_len q' = int L"
    using q' s(1) by (auto simp: Let_def swap_payload_def swap_header_def setLength_def getLength_def map_inverse)
  moreover have "take L (m_pcData q') = take L (m_pcData p)"
  proof (cases "getFlag p = 0")
    case True
    then show ?thesis using q' flag s(2) lw by (simp add: w_def Let_def swap_payload_def swap_header_def setLength_def)
  next
    case False
    then have "m_pcData q' = map_words ntohl (w @ drop (length w) (m_pcData q)) k"
      using q' flag s(2) k by (simp add: Let_def swap_payload_def swap_header_def setLength_def getLength_def)
    then show ?thesis using False L k lw by (simp add: map_words_append w_def map_words_inverse)
  qed
  ultimately show ?thesis by (simp add: L_def [symmetric] L(1))
qed

theorem channel_roundtrip_witness:
  "\<exists>n q'. CChannel_recvfrom (Some (fst (CChannel_sendto
      \<lparr>m_nHeader = [0x80020000, 7, 9, 11], m_pcData = [1, 2, 3, 4, 5], iov_len = 5\<rparr>)))
      \<lparr>m_nHeader = [0, 0, 0, 0], m_pcData = replicate 8 0, iov_len = 8\<rparr> = (n, q') \<and> n = 5 \<and>
    m_nHeader q' = [0x80020000, 7, 9, 11] \<and> take 5 (m_pcData q') = [1, 2, 3, 4, 5]"
proof -
  let ?p = "\<lparr>m_nHeader = [0x80020000, 7, 9, 11], m_pcData = [1, 2, 3, 4, 5], iov_len = 5\<rparr> :: CPacket"
  let ?q = "\<lparr>m_nHeader = [0, 0, 0, 0], m_pcData = replicate 8 0, iov_len = 8\<rparr> :: CPacket"
  obtain n q' where r: "CChannel_recvfrom (Some (fst (CChannel_sendto ?p))) ?q = (n, q')"
    by (cases "CChannel_recvfrom (Some (fst (CChannel_sendto ?p))) ?q") auto
  have "packet_ok ?p" "packet_ok ?q" "iov_len ?p \<le> iov_len ?q" by (simp_all add: packet_ok_def)
  from channel_roundtrip [OF this r] r show ?thesis by simp
qed

end
