(* ===== verification/UnitQueue.thy ===== *)
theory UnitQueue imports Packet begin

text \<open>
  The pool of receive units, class \<open>CUnitQueue\<close> (\<open>queue.h\<close>, \<open>queue.cpp\<close>). The entries form a ring;
  here they are a list in ring order that begins with \<open>m_pQEntry\<close> and ends with
  \<open>m_pLastQueue\<close>. A pointer to a unit is the pair of its entry and its index. Allocation is a
  parameter: \<open>mem n\<close> says whether the memory for an entry is there when the pool holds \<open>n\<close>
  units.
\<close>

section \<open>State\<close>

record CUnit =
  m_Packet :: CPacket
  m_iFlag :: int

record CUnitQueue =
  uq_Entries :: "CUnit list list"
  uq_Curr :: nat
  uq_Avail :: nat
  uq_Size :: int
  uq_Count :: int
  uq_MSS :: int
  uq_IPversion :: int

type_synonym unit_ref = "nat \<times> nat"

definition unit_at :: "CUnitQueue \<Rightarrow> unit_ref \<Rightarrow> CUnit" where
  "unit_at q u = uq_Entries q ! fst u ! snd u"

definition is_unit :: "CUnitQueue \<Rightarrow> unit_ref \<Rightarrow> bool" where
  "is_unit q u \<longleftrightarrow> fst u < length (uq_Entries q) \<and> snd u < length (uq_Entries q ! fst u)"

definition CUnitQueue_new :: CUnitQueue where
  "CUnitQueue_new = \<lparr>uq_Entries = [], uq_Curr = 0, uq_Avail = 0, uq_Size = 0, uq_Count = 0,
     uq_MSS = 0, uq_IPversion = 0\<rparr>"

text \<open>A fresh unit points into the entry's buffer, \<open>mss\<close> bytes of it.\<close>

definition fresh_unit :: "int \<Rightarrow> CUnit" where
  "fresh_unit mss = \<lparr>m_Packet = CPacket_new\<lparr>m_pcData := replicate (nat mss) 0\<rparr>, m_iFlag = 0\<rparr>"

definition CUnitQueue_init :: "(int \<Rightarrow> bool) \<Rightarrow> int \<Rightarrow> int \<Rightarrow> int \<Rightarrow> CUnitQueue \<Rightarrow> int \<times> CUnitQueue" where
  "CUnitQueue_init mem sz mss version q =
    (if \<not> mem 0 then (-1, q)
     else (0, q\<lparr>uq_Entries := [replicate (nat sz) (fresh_unit mss)], uq_Curr := 0, uq_Avail := 0,
                uq_Size := sz, uq_MSS := mss, uq_IPversion := version\<rparr>))"

section \<open>Operations\<close>

definition busy_units :: "CUnitQueue \<Rightarrow> int" where
  "busy_units q = (\<Sum>e\<leftarrow>uq_Entries q. int (length (filter (\<lambda>u. m_iFlag u \<noteq> 0) e)))"

text \<open>The quotient of the doubles is below \<open>0.9\<close> just when \<open>10 * count < 9 * size\<close>: both are
  \<open>int\<close>s, so the quotient is further from \<open>0.9\<close> than a rounding error.\<close>

definition CUnitQueue_increase :: "(int \<Rightarrow> bool) \<Rightarrow> CUnitQueue \<Rightarrow> int \<times> CUnitQueue" where
  "CUnitQueue_increase mem q =
    (let q = q\<lparr>uq_Count := busy_units q\<rparr>
     in if uq_Count q * 10 < uq_Size q * 9 then (-1, q)
        else
          let sz = length (hd (uq_Entries q))
          in if \<not> mem (uq_Size q) then (-1, q)
             else (0, q\<lparr>uq_Entries := uq_Entries q @ [replicate sz (fresh_unit (uq_MSS q))],
                        uq_Size := uq_Size q + int sz\<rparr>))"

definition CUnitQueue_shrink :: "CUnitQueue \<Rightarrow> int" where "CUnitQueue_shrink q = -1"

text \<open>The search in one entry stops at a free unit or at the last unit, which is not tested.\<close>

function scan_entry :: "CUnit list \<Rightarrow> nat \<Rightarrow> nat" where
  "scan_entry e i = (if i + 1 < length e \<and> m_iFlag (e ! i) \<noteq> 0 then scan_entry e (i + 1) else i)"
  by auto
termination by (relation "measure (\<lambda>(e, i). length e - i)") auto

declare scan_entry.simps [simp del]

text \<open>The loop over the ring of entries; the fuel is the number of entries.\<close>

fun scan_ring :: "nat \<Rightarrow> nat \<Rightarrow> CUnitQueue \<Rightarrow> unit_ref option \<times> CUnitQueue" where
  "scan_ring 0 entrance q = (None, q)"
| "scan_ring (Suc f) entrance q =
     (let e = uq_Entries q ! uq_Curr q;
          q = q\<lparr>uq_Avail := scan_entry e (uq_Avail q)\<rparr>
      in if uq_Avail q + 1 < length e then (Some (uq_Curr q, uq_Avail q), q)
         else if m_iFlag (e ! 0) = 0 then (Some (uq_Curr q, 0), q\<lparr>uq_Avail := 0\<rparr>)
         else
           let q = q\<lparr>uq_Curr := Suc (uq_Curr q) mod length (uq_Entries q), uq_Avail := 0\<rparr>
           in if uq_Curr q \<noteq> entrance then scan_ring f entrance q else (None, q))"

definition CUnitQueue_getNextAvailUnit ::
    "(int \<Rightarrow> bool) \<Rightarrow> CUnitQueue \<Rightarrow> unit_ref option \<times> CUnitQueue" where
  "CUnitQueue_getNextAvailUnit mem q =
    (let q = (if uq_Count q * 10 > uq_Size q * 9 then snd (CUnitQueue_increase mem q) else q)
     in if uq_Count q \<ge> uq_Size q then (None, q)
        else case scan_ring (length (uq_Entries q)) (uq_Curr q) q of
               (Some u, q) \<Rightarrow> (Some u, q)
             | (None, q) \<Rightarrow> (None, snd (CUnitQueue_increase mem q)))"

text \<open>The receive buffer marks and frees units through its pointer to the pool.\<close>

definition set_flag :: "unit_ref \<Rightarrow> int \<Rightarrow> CUnitQueue \<Rightarrow> CUnitQueue" where
  "set_flag u f q = q\<lparr>uq_Entries := (uq_Entries q)[fst u := (uq_Entries q ! fst u)
     [snd u := (unit_at q u)\<lparr>m_iFlag := f\<rparr>]]\<rparr>"

definition set_packet :: "unit_ref \<Rightarrow> CPacket \<Rightarrow> CUnitQueue \<Rightarrow> CUnitQueue" where
  "set_packet u p q = q\<lparr>uq_Entries := (uq_Entries q)[fst u := (uq_Entries q ! fst u)
     [snd u := (unit_at q u)\<lparr>m_Packet := p\<rparr>]]\<rparr>"

definition add_Count :: "int \<Rightarrow> CUnitQueue \<Rightarrow> CUnitQueue" where
  "add_Count n q = q\<lparr>uq_Count := uq_Count q + n\<rparr>"

section \<open>Well-formed pools\<close>

definition uq_inv :: "CUnitQueue \<Rightarrow> bool" where
  "uq_inv q \<longleftrightarrow> uq_Entries q \<noteq> [] \<and>
     (\<exists>n>0. (\<forall>e\<in>set (uq_Entries q). length e = n) \<and> uq_Avail q < n) \<and>
     uq_Curr q < length (uq_Entries q) \<and>
     uq_Size q = (\<Sum>e\<leftarrow>uq_Entries q. int (length e))"

lemma init_inv:
  "0 < sz \<Longrightarrow> mem 0 \<Longrightarrow> uq_inv (snd (CUnitQueue_init mem sz mss v CUnitQueue_new))"
  by (simp add: CUnitQueue_init_def uq_inv_def)

lemma increase_inv:
  assumes "uq_inv q"
  shows "uq_inv (snd (CUnitQueue_increase mem q))"
proof -
  obtain n where n: "0 < n" "\<forall>e\<in>set (uq_Entries q). length e = n" "uq_Avail q < n"
    using assms by (auto simp: uq_inv_def)
  then show ?thesis
    using assms by (auto simp: uq_inv_def CUnitQueue_increase_def Let_def hd_in_set)
qed

lemma increase_keeps_units:
  "is_unit q u \<Longrightarrow> is_unit (snd (CUnitQueue_increase mem q)) u \<and>
     unit_at (snd (CUnitQueue_increase mem q)) u = unit_at q u"
  by (auto simp: CUnitQueue_increase_def Let_def is_unit_def unit_at_def nth_append)

lemma scan_entry_bounds: "i < length e \<Longrightarrow> i \<le> scan_entry e i \<and> scan_entry e i < length e"
  by (induction e i rule: scan_entry.induct) (subst (1 2) scan_entry.simps, auto)

lemma scan_entry_free: "scan_entry e i + 1 < length e \<Longrightarrow> m_iFlag (e ! scan_entry e i) = 0"
  by (induction e i rule: scan_entry.induct) (subst scan_entry.simps, subst (asm) (2) scan_entry.simps, auto)

lemma scan_entry_first: "i \<le> j \<Longrightarrow> j < scan_entry e i \<Longrightarrow> m_iFlag (e ! j) \<noteq> 0"
proof (induction e i rule: scan_entry.induct)
  case (1 e i)
  moreover have "scan_entry e i = (if i + 1 < length e \<and> m_iFlag (e ! i) \<noteq> 0 then scan_entry e (i + 1) else i)"
    by (rule scan_entry.simps)
  ultimately show ?case by (cases "i = j") (auto split: if_splits)
qed

text \<open>The search changes the two cursors only.\<close>

lemma scan_ring_frame:
  "scan_ring f entrance q = (r, q') \<Longrightarrow>
     uq_Entries q' = uq_Entries q \<and> uq_Size q' = uq_Size q \<and> uq_Count q' = uq_Count q \<and> uq_MSS q' = uq_MSS q"
proof (induction f entrance q rule: scan_ring.induct)
  case (2 f entrance q)
  then show ?case by (auto simp: Let_def split: if_splits)
qed auto

lemma scan_ring_inv: "scan_ring f entrance q = (r, q') \<Longrightarrow> uq_inv q \<Longrightarrow> uq_inv q'"
proof (induction f entrance q rule: scan_ring.induct)
  case (2 f entrance q)
  obtain n where n: "0 < n" "\<forall>e\<in>set (uq_Entries q). length e = n" "uq_Avail q < n"
      "uq_Curr q < length (uq_Entries q)"
    using "2.prems"(2) by (auto simp: uq_inv_def)
  then have "length (uq_Entries q ! uq_Curr q) = n" by simp
  then have "scan_entry (uq_Entries q ! uq_Curr q) (uq_Avail q) < n"
    using scan_entry_bounds [of "uq_Avail q" "uq_Entries q ! uq_Curr q"] n(3) by simp
  moreover have "uq_inv (q\<lparr>uq_Curr := c, uq_Avail := a\<rparr>)" "uq_inv (q\<lparr>uq_Avail := a\<rparr>)"
    if "c < length (uq_Entries q)" "a < n" for c a
    using "2.prems"(2) that n(1,2) unfolding uq_inv_def by auto
  moreover have "Suc (uq_Curr q) mod length (uq_Entries q) < length (uq_Entries q)"
    using n(4) by (intro mod_less_divisor) auto
  ultimately show ?case
    using 2 n(1) by (auto simp: Let_def split: if_splits)
qed auto

lemma scan_ring_free:
  "scan_ring f entrance q = (Some u, q') \<Longrightarrow> uq_inv q \<Longrightarrow> is_unit q u \<and> m_iFlag (unit_at q u) = 0"
proof (induction f entrance q rule: scan_ring.induct)
  case (2 f entrance q)
  let ?e = "uq_Entries q ! uq_Curr q"
  let ?q = "q\<lparr>uq_Curr := Suc (uq_Curr q) mod length (uq_Entries q), uq_Avail := 0\<rparr>"
  obtain n where n: "0 < n" "\<forall>e\<in>set (uq_Entries q). length e = n" "uq_Avail q < n"
      "uq_Curr q < length (uq_Entries q)"
    using "2.prems"(2) by (auto simp: uq_inv_def)
  then have len: "length ?e = n" by simp
  consider "scan_entry ?e (uq_Avail q) + 1 < n" | "\<not> scan_entry ?e (uq_Avail q) + 1 < n" "m_iFlag (?e ! 0) = 0"
    | "\<not> scan_entry ?e (uq_Avail q) + 1 < n" "m_iFlag (?e ! 0) \<noteq> 0" by blast
  then show ?case
  proof cases
    case 1
    then show ?thesis
      using "2.prems"(1) n len scan_entry_free [of ?e "uq_Avail q"]
      by (auto simp: Let_def is_unit_def unit_at_def)
  next
    case 2
    then show ?thesis
      using "2.prems"(1) n len by (auto simp: Let_def is_unit_def unit_at_def)
  next
    case 3
    then have "scan_ring f entrance ?q = (Some u, q')"
      using "2.prems"(1) len by (auto simp: Let_def split: if_splits)
    moreover have "uq_inv ?q"
      using "2.prems"(2) n by (auto simp: uq_inv_def intro!: exI [of _ n] mod_less_divisor)
    moreover have "Suc (uq_Curr q) mod length (uq_Entries q) \<noteq> entrance"
      using "2.prems"(1) 3 len by (auto simp: Let_def split: if_splits)
    ultimately have "is_unit ?q u \<and> m_iFlag (unit_at ?q u) = 0"
      using "2.IH" [of ?e _ ?q] 3 len by simp
    then show ?thesis by (simp add: is_unit_def unit_at_def)
  qed
qed auto

text \<open>C27: a unit the pool hands out is a free unit of the pool; handing it out changes no unit and
  keeps the pool well formed.\<close>

theorem available_unit_is_free:
  assumes "uq_inv q" "CUnitQueue_getNextAvailUnit mem q = (r, q')"
  shows "uq_inv q' \<and> (\<forall>u. is_unit q u \<longrightarrow> is_unit q' u \<and> unit_at q' u = unit_at q u) \<and>
    (\<forall>u. r = Some u \<longrightarrow> is_unit q' u \<and> m_iFlag (unit_at q' u) = 0)"
proof -
  define q1 where "q1 = (if uq_Count q * 10 > uq_Size q * 9 then snd (CUnitQueue_increase mem q) else q)"
  have i1: "uq_inv q1" using assms(1) increase_inv by (simp add: q1_def)
  have k1: "is_unit q1 u \<and> unit_at q1 u = unit_at q u" if "is_unit q u" for u
    using that increase_keeps_units by (simp add: q1_def)
  obtain r2 q2 where s: "scan_ring (length (uq_Entries q1)) (uq_Curr q1) q1 = (r2, q2)" by fastforce
  have same: "is_unit q2 u = is_unit q1 u" "unit_at q2 u = unit_at q1 u" for u
    using scan_ring_frame [OF s] by (simp_all add: is_unit_def unit_at_def)
  have res: "(r, q') = (if uq_Count q1 \<ge> uq_Size q1 then (None, q1)
      else case r2 of Some u \<Rightarrow> (Some u, q2) | None \<Rightarrow> (None, snd (CUnitQueue_increase mem q2)))"
    using assms(2) unfolding CUnitQueue_getNextAvailUnit_def Let_def q1_def [symmetric] s
    by (auto split: option.splits if_splits)
  have i2: "uq_inv q2" using scan_ring_inv [OF s i1] .
  show ?thesis
  proof (cases "uq_Count q1 \<ge> uq_Size q1 \<or> r2 = None")
    case True
    then have "r = None" "q' = q1 \<or> q' = snd (CUnitQueue_increase mem q2)"
      using res by (auto split: if_splits)
    moreover have "is_unit (snd (CUnitQueue_increase mem q2)) u \<and>
        unit_at (snd (CUnitQueue_increase mem q2)) u = unit_at q u" if "is_unit q u" for u
      using k1 [OF that] same increase_keeps_units [of q2 u mem] by simp
    ultimately show ?thesis using i1 increase_inv [OF i2, of mem] k1 by auto
  next
    case False
    then obtain u where u: "r2 = Some u" "r = Some u" "q' = q2" using res by auto
    then show ?thesis using scan_ring_free [OF s [unfolded u(1)] i1] i2 k1 same by simp
  qed
qed

theorem available_unit_is_free_witness:
  "\<exists>q'. CUnitQueue_getNextAvailUnit (\<lambda>_. True) (snd (CUnitQueue_init (\<lambda>_. True) 3 100 4 CUnitQueue_new))
      = (Some (0, 0), q') \<and> m_iFlag (unit_at q' (0, 0)) = 0"
proof -
  let ?q = "snd (CUnitQueue_init (\<lambda>_. True) 3 100 4 CUnitQueue_new)"
  have e: "CUnitQueue_getNextAvailUnit (\<lambda>_. True) ?q = (Some (0, 0), ?q)"
    by (simp add: CUnitQueue_getNextAvailUnit_def CUnitQueue_init_def CUnitQueue_new_def Let_def
        scan_entry.simps fresh_unit_def numeral_eq_Suc)
  have "uq_inv ?q" by (rule init_inv) simp_all
  from available_unit_is_free [OF this e] e show ?thesis by simp
qed

text \<open>The search tests the first unit of an entry and those before the last one: the last unit
  of an entry of two or more is never handed out.\<close>

lemma scan_ring_not_last:
  "scan_ring f entrance q = (Some u, q') \<Longrightarrow> uq_inv q \<Longrightarrow> 1 < length (uq_Entries q ! fst u) \<Longrightarrow>
     snd u + 1 \<noteq> length (uq_Entries q ! fst u)"
proof (induction f entrance q rule: scan_ring.induct)
  case (2 f entrance q)
  let ?e = "uq_Entries q ! uq_Curr q"
  let ?q = "q\<lparr>uq_Curr := Suc (uq_Curr q) mod length (uq_Entries q), uq_Avail := 0\<rparr>"
  have "uq_inv ?q"
    using "2.prems"(2) by (auto simp: uq_inv_def intro!: mod_less_divisor)
  then show ?case
    using 2 by (auto simp: Let_def split: if_splits)
qed auto

text \<open>The pool never hands out the last unit of an entry of more than one unit, free or not.\<close>

theorem last_unit_never_available:
  assumes "uq_inv q" "CUnitQueue_getNextAvailUnit mem q = (Some u, q')"
    and "1 < length (uq_Entries q' ! fst u)"
  shows "snd u + 1 \<noteq> length (uq_Entries q' ! fst u)"
proof -
  define q1 where "q1 = (if uq_Count q * 10 > uq_Size q * 9 then snd (CUnitQueue_increase mem q) else q)"
  have i1: "uq_inv q1" using assms(1) increase_inv by (simp add: q1_def)
  have s: "scan_ring (length (uq_Entries q1)) (uq_Curr q1) q1 = (Some u, q')"
    using assms(2) unfolding CUnitQueue_getNextAvailUnit_def Let_def q1_def [symmetric]
    by (auto split: option.splits if_splits prod.splits)
  then show ?thesis
    using scan_ring_not_last [OF s i1] scan_ring_frame [OF s] assms(3) by simp
qed

theorem last_unit_never_available_witness:
  "\<exists>u q'. CUnitQueue_getNextAvailUnit (\<lambda>_. True) (set_flag (0, 0) 1 (snd (CUnitQueue_init (\<lambda>_. True) 3 100 4 CUnitQueue_new)))
      = (Some u, q') \<and> snd u \<noteq> 2"
proof -
  let ?q = "set_flag (0, 0) 1 (snd (CUnitQueue_init (\<lambda>_. True) 3 100 4 CUnitQueue_new))"
  have e: "CUnitQueue_getNextAvailUnit (\<lambda>_. True) ?q = (Some (0, 1), ?q\<lparr>uq_Avail := 1\<rparr>)"
    by (simp add: CUnitQueue_getNextAvailUnit_def CUnitQueue_init_def CUnitQueue_new_def Let_def
        scan_entry.simps fresh_unit_def set_flag_def unit_at_def numeral_eq_Suc)
  have "uq_inv ?q"
    by (auto simp: uq_inv_def set_flag_def CUnitQueue_init_def)
  moreover have "length (uq_Entries (?q\<lparr>uq_Avail := 1\<rparr>) ! 0) = 3"
    by (simp add: set_flag_def CUnitQueue_init_def)
  ultimately show ?thesis
    using last_unit_never_available [OF _ e] e by simp
qed

end
