(* ===== verification/SndUList.thy ===== *)
theory SndUList imports Prelude begin

text \<open>
  The list of sockets with something to send, class \<open>CSndUList\<close> (\<open>queue.h\<close>, \<open>queue.cpp\<close>): an array
  heap ordered by the time at which a socket is to be served. A socket is named by an
  \<open>int\<close>; its \<open>CSNode\<close> is found through \<open>su_Node\<close>. What the operations signal (the timer's
  interrupt, the condition the worker waits for) is recorded in \<open>su_Signals\<close>, newest first.
\<close>

section \<open>State\<close>

type_synonym sock = int

record CSNode =
  m_llTimeStamp :: uint64
  m_iHeapLoc :: int

datatype signal = TimerInterrupt | WindowNotify

record CSndUList =
  su_Heap :: "sock list"
  su_Node :: "sock \<Rightarrow> CSNode"
  su_ArrayLength :: int
  su_LastEntry :: int
  su_Signals :: "signal list"

text \<open>A new socket's node carries time 1 and is not on the heap (\<open>CUDT::open\<close>).\<close>

definition CSndUList_new :: CSndUList where
  "CSndUList_new = \<lparr>su_Heap = replicate 4096 0, su_Node = (\<lambda>_. \<lparr>m_llTimeStamp = 1, m_iHeapLoc = -1\<rparr>),
     su_ArrayLength = 4096, su_LastEntry = -1, su_Signals = []\<rparr>"

abbreviation heap_at :: "CSndUList \<Rightarrow> int \<Rightarrow> sock" where
  "heap_at l i \<equiv> aget (su_Heap l) i"

definition key :: "CSndUList \<Rightarrow> int \<Rightarrow> uint64" where
  "key l i = m_llTimeStamp (su_Node l (heap_at l i))"

definition heap_loc :: "CSndUList \<Rightarrow> sock \<Rightarrow> int" where
  "heap_loc l u = m_iHeapLoc (su_Node l u)"

definition put_heap :: "int \<Rightarrow> sock \<Rightarrow> CSndUList \<Rightarrow> CSndUList" where
  "put_heap i u l = l\<lparr>su_Heap := aset (su_Heap l) i u\<rparr>"

definition set_loc :: "sock \<Rightarrow> int \<Rightarrow> CSndUList \<Rightarrow> CSndUList" where
  "set_loc u i l = l\<lparr>su_Node := (su_Node l)(u := (su_Node l u)\<lparr>m_iHeapLoc := i\<rparr>)\<rparr>"

definition set_time :: "sock \<Rightarrow> uint64 \<Rightarrow> CSndUList \<Rightarrow> CSndUList" where
  "set_time u t l = l\<lparr>su_Node := (su_Node l)(u := (su_Node l u)\<lparr>m_llTimeStamp := t\<rparr>)\<rparr>"

definition su_signal :: "signal \<Rightarrow> CSndUList \<Rightarrow> CSndUList" where
  "su_signal s l = l\<lparr>su_Signals := s # su_Signals l\<rparr>"

section \<open>Operations\<close>

definition swap_up :: "int \<Rightarrow> int \<Rightarrow> CSndUList \<Rightarrow> CSndUList" where
  "swap_up p q l =
    (let t = heap_at l p;
         l = put_heap p (heap_at l q) l;
         l = put_heap q t l
     in set_loc t q l)"

text \<open>The loop of \<open>insert_\<close>; \<open>q\<close> is never negative.\<close>

function sift_up :: "int \<Rightarrow> CSndUList \<Rightarrow> CSndUList \<times> int" where
  "sift_up q l =
    (if q \<le> 0 then (l, q)
     else let p = (q - 1) div 2
          in if key l p > key l q then sift_up p (swap_up p q l) else (l, q))"
  by auto
termination by (relation "measure (\<lambda>(q, l). nat q)") auto

declare sift_up.simps [simp del]

definition insert_' :: "uint64 \<Rightarrow> sock \<Rightarrow> CSndUList \<Rightarrow> CSndUList" where
  "insert_' ts u l =
    (if heap_loc l u \<ge> 0 then l
     else
       let l = l\<lparr>su_LastEntry := su_LastEntry l + 1\<rparr>;
           l = put_heap (su_LastEntry l) u l;
           l = set_time u ts l;
           (l, q) = sift_up (su_LastEntry l) l;
           l = set_loc u q l;
           l = (if heap_loc l u = 0 then su_signal TimerInterrupt l else l)
       in if 0 = su_LastEntry l then su_signal WindowNotify l else l)"

definition swap_down :: "int \<Rightarrow> int \<Rightarrow> CSndUList \<Rightarrow> CSndUList" where
  "swap_down p q l =
    (let t = heap_at l p;
         l = put_heap p (heap_at l q) l;
         l = set_loc (heap_at l p) p l;
         l = put_heap q t l
     in set_loc (heap_at l q) q l)"

text \<open>The child that \<open>remove_\<close> compares with, and its loop.\<close>

definition lesser_child :: "int \<Rightarrow> CSndUList \<Rightarrow> int" where
  "lesser_child q l =
    (let p = q * 2 + 1
     in if p + 1 \<le> su_LastEntry l \<and> key l p > key l (p + 1) then p + 1 else p)"

function sift_down :: "int \<Rightarrow> CSndUList \<Rightarrow> CSndUList" where
  "sift_down q l =
    (if 0 \<le> q \<and> q * 2 + 1 \<le> su_LastEntry l then
       let p = lesser_child q l
       in if key l q > key l p then sift_down p (swap_down p q l) else l
     else l)"
  by auto
termination
  by (relation "measure (\<lambda>(q, l). nat (su_LastEntry l - q))")
    (auto simp: swap_down_def put_heap_def set_loc_def lesser_child_def Let_def)

declare sift_down.simps [simp del]

definition remove_' :: "sock \<Rightarrow> CSndUList \<Rightarrow> CSndUList" where
  "remove_' u l =
    (let l = (if heap_loc l u \<ge> 0 then
                let l = put_heap (heap_loc l u) (heap_at l (su_LastEntry l)) l;
                    l = l\<lparr>su_LastEntry := su_LastEntry l - 1\<rparr>;
                    l = set_loc (heap_at l (heap_loc l u)) (heap_loc l u) l;
                    l = sift_down (heap_loc l u) l
                in set_loc u (-1) l
              else l)
     in if 0 = su_LastEntry l then su_signal TimerInterrupt l else l)"

text \<open>\<open>mem\<close> says whether the larger array can be allocated; \<open>filler\<close> is the content of its
  uninitialised half.\<close>

definition CSndUList_insert :: "bool \<Rightarrow> sock list \<Rightarrow> uint64 \<Rightarrow> sock \<Rightarrow> CSndUList \<Rightarrow> CSndUList" where
  "CSndUList_insert mem filler ts u l =
    (if su_LastEntry l = su_ArrayLength l - 1 then
       if \<not> mem then l
       else insert_' ts u (l\<lparr>su_Heap := su_Heap l @ filler, su_ArrayLength := su_ArrayLength l * 2\<rparr>)
     else insert_' ts u l)"

definition CSndUList_update :: "sock \<Rightarrow> bool \<Rightarrow> CSndUList \<Rightarrow> CSndUList" where
  "CSndUList_update u reschedule l =
    (if heap_loc l u \<ge> 0 then
       if \<not> reschedule then l
       else if heap_loc l u = 0 then su_signal TimerInterrupt (set_time u 1 l)
       else insert_' 1 u (remove_' u l)
     else insert_' 1 u l)"

text \<open>\<open>pop\<close> at time \<open>now\<close>: \<open>sendable\<close> is \<open>m_bConnected && !m_bBroken\<close> and \<open>packData\<close> the socket's
  method, which returns its result, the packet and the next processing time and may change
  the socket's state. The result is the socket whose peer the packet goes to.\<close>

definition CSndUList_pop ::
    "uint64 \<Rightarrow> ('c \<Rightarrow> sock \<Rightarrow> bool) \<Rightarrow> ('c \<Rightarrow> sock \<Rightarrow> uint64 \<Rightarrow> (int \<times> 'pkt \<times> uint64) \<times> 'c) \<Rightarrow> 'c \<Rightarrow>
     CSndUList \<Rightarrow> (sock \<times> 'pkt) option \<times> 'c \<times> CSndUList" where
  "CSndUList_pop now sendable packData c l =
    (if -1 = su_LastEntry l then (None, c, l)
     else if now < key l 0 then (None, c, l)
     else
       let u = heap_at l 0;
           l = remove_' u l
       in if \<not> sendable c u then (None, c, l)
          else
            let ((r, pkt, ts), c) = packData c u now
            in if r \<le> 0 then (None, c, l)
               else (Some (u, pkt), c, if ts > 0 then insert_' ts u l else l))"

definition CSndUList_remove :: "sock \<Rightarrow> CSndUList \<Rightarrow> CSndUList" where
  "CSndUList_remove = remove_'"

definition CSndUList_getNextProcTime :: "CSndUList \<Rightarrow> uint64" where
  "CSndUList_getNextProcTime l = (if -1 = su_LastEntry l then 0 else key l 0)"

section \<open>Well-formed heaps\<close>

definition members :: "CSndUList \<Rightarrow> sock set" where
  "members l = {u. 0 \<le> heap_loc l u}"

definition su_wf :: "CSndUList \<Rightarrow> bool" where
  "su_wf l \<longleftrightarrow> -1 \<le> su_LastEntry l \<and> su_LastEntry l < su_ArrayLength l \<and>
     int (length (su_Heap l)) = su_ArrayLength l \<and>
     (\<forall>i. 0 \<le> i \<and> i \<le> su_LastEntry l \<longrightarrow> heap_loc l (heap_at l i) = i) \<and>
     (\<forall>u. heap_loc l u = -1 \<or>
        0 \<le> heap_loc l u \<and> heap_loc l u \<le> su_LastEntry l \<and> heap_at l (heap_loc l u) = u)"

definition su_ordered :: "CSndUList \<Rightarrow> bool" where
  "su_ordered l \<longleftrightarrow> (\<forall>i. 0 < i \<and> i \<le> su_LastEntry l \<longrightarrow> key l ((i - 1) div 2) \<le> key l i)"

definition su_inv :: "CSndUList \<Rightarrow> bool" where
  "su_inv l \<longleftrightarrow> su_wf l \<and> su_ordered l"

definition time_of :: "CSndUList \<Rightarrow> sock \<Rightarrow> uint64" where
  "time_of l u = m_llTimeStamp (su_Node l u)"

lemmas su_defs = put_heap_def set_loc_def set_time_def su_signal_def key_def heap_loc_def

lemma root_least:
  assumes "su_ordered l" "0 \<le> i" "i \<le> su_LastEntry l"
  shows "key l 0 \<le> key l i"
  using assms(2,3)
proof (induction "nat i" arbitrary: i rule: less_induct)
  case less
  show ?case
  proof (cases "i = 0")
    case False
    let ?p = "(i - 1) div 2"
    have "0 \<le> ?p" "?p < i" using False less.prems by auto
    then have "key l 0 \<le> key l ?p" using less by simp
    moreover have "key l ?p \<le> key l i" using assms(1) less.prems False by (simp add: su_ordered_def)
    ultimately show ?thesis by simp
  qed simp
qed

section \<open>Sifting up\<close>

text \<open>The state in the loop of \<open>insert_\<close>: the node of \<open>n\<close> sits at \<open>q\<close>, its \<open>m_iHeapLoc\<close> is not yet
  written; on an ordered heap only the order between \<open>q\<close> and its parent may be wrong.\<close>

definition up_wf :: "sock \<Rightarrow> int \<Rightarrow> CSndUList \<Rightarrow> bool" where
  "up_wf n q l \<longleftrightarrow> su_wf (set_loc n q l) \<and> heap_at l q = n \<and> 0 \<le> q \<and> q \<le> su_LastEntry l"

definition up_ok :: "sock \<Rightarrow> int \<Rightarrow> CSndUList \<Rightarrow> bool" where
  "up_ok n q l \<longleftrightarrow> up_wf n q l \<and>
     (\<forall>i. 0 < i \<and> i \<le> su_LastEntry l \<and> i \<noteq> q \<longrightarrow> key l ((i - 1) div 2) \<le> key l i) \<and>
     (\<forall>i. 0 < i \<and> i \<le> su_LastEntry l \<and> (i - 1) div 2 = q \<and> 0 < q \<longrightarrow> key l ((q - 1) div 2) \<le> key l i)"

lemma swap_up_reads:
  assumes "su_wf l" "0 \<le> p" "p \<le> su_LastEntry l" "0 \<le> q" "q \<le> su_LastEntry l" "0 \<le> i" "p \<noteq> q"
  shows "heap_at (swap_up p q l) i = (if i = p then heap_at l q else if i = q then heap_at l p else heap_at l i)"
  using assms by (auto simp: swap_up_def put_heap_def set_loc_def Let_def aget_aset inb_def su_wf_def)

lemma wf_swap:
  assumes w: "su_wf l" and p: "0 \<le> p" "p \<le> su_LastEntry l" and q: "0 \<le> q" "q \<le> su_LastEntry l" and pq: "p \<noteq> q"
    and l': "su_LastEntry l' = su_LastEntry l" "su_ArrayLength l' = su_ArrayLength l"
      "su_Heap l' = aset (aset (su_Heap l) p (heap_at l q)) q (heap_at l p)"
      "\<And>u. heap_loc l' u = (if u = heap_at l p then q else if u = heap_at l q then p else heap_loc l u)"
  shows "su_wf l'"
proof -
  have in_range: "inb (su_Heap l) i" if "0 \<le> i" "i \<le> su_LastEntry l" for i
    using w that by (simp add: inb_def su_wf_def)
  have h: "heap_at l' i = (if i = p then heap_at l q else if i = q then heap_at l p else heap_at l i)"
    if "0 \<le> i" for i
    using that pq p q in_range by (auto simp: l' aget_aset)
  have loc: "heap_loc l (heap_at l i) = i" if "0 \<le> i" "i \<le> su_LastEntry l" for i
    using w that by (simp add: su_wf_def)
  have "heap_loc l' (heap_at l' i) = i" if "0 \<le> i" "i \<le> su_LastEntry l" for i
    using that h [OF that(1)] loc [OF that] loc [OF p] loc [OF q] pq by (auto simp: l'(4))
  moreover have "heap_loc l' u = -1 \<or>
      0 \<le> heap_loc l' u \<and> heap_loc l' u \<le> su_LastEntry l \<and> heap_at l' (heap_loc l' u) = u" for u
  proof (cases "u = heap_at l p \<or> u = heap_at l q")
    case True
    then show ?thesis using h [OF p(1)] h [OF q(1)] p q pq by (auto simp: l'(4))
  next
    case False
    have "heap_loc l u = -1 \<or> 0 \<le> heap_loc l u \<and> heap_loc l u \<le> su_LastEntry l \<and> heap_at l (heap_loc l u) = u"
      using w by (simp add: su_wf_def)
    then show ?thesis using False h [of "heap_loc l u"] by (auto simp: l'(4))
  qed
  ultimately show ?thesis using w by (auto simp: su_wf_def l')
qed

lemma swap_up_simps [simp]:
  "su_LastEntry (swap_up p q l) = su_LastEntry l" "su_ArrayLength (swap_up p q l) = su_ArrayLength l"
  "time_of (swap_up p q l) = time_of l" "su_Signals (swap_up p q l) = su_Signals l"
  by (auto simp: swap_up_def su_defs Let_def time_of_def)

lemma key_time_of: "key l i = time_of l (heap_at l i)"
  by (simp add: key_def time_of_def)

lemma set_loc_simps [simp]:
  "key (set_loc n q l) = key l" "su_LastEntry (set_loc n q l) = su_LastEntry l"
  "su_ArrayLength (set_loc n q l) = su_ArrayLength l" "su_Heap (set_loc n q l) = su_Heap l"
  "time_of (set_loc n q l) = time_of l" "heap_loc (set_loc n q l) u = (if u = n then q else heap_loc l u)"
  by (auto simp: key_def set_loc_def time_of_def heap_loc_def fun_eq_iff)

lemma last_entry_simps [simp]:
  "su_LastEntry (set_time u t l) = su_LastEntry l" "su_LastEntry (put_heap i v l) = su_LastEntry l"
  by (simp_all add: set_time_def put_heap_def)

lemma up_wf_step:
  assumes u: "up_wf n q l" and q: "0 < q"
  defines "p \<equiv> (q - 1) div 2"
  shows "up_wf n p (swap_up p q l)"
    "\<And>i. 0 \<le> i \<Longrightarrow> heap_at (swap_up p q l) i = (if i = p then n else if i = q then heap_at l p else heap_at l i)"
    "\<And>u. u \<noteq> n \<Longrightarrow> 0 \<le> heap_loc (swap_up p q l) u \<longleftrightarrow> 0 \<le> heap_loc l u"
proof -
  let ?L = "set_loc n q l" and ?l = "swap_up p q l"
  have p: "0 \<le> p" "p < q" using q by (auto simp: p_def)
  have d: "su_wf ?L" "heap_at l q = n" "q \<le> su_LastEntry l" using u by (simp_all add: up_wf_def)
  have len: "int (length (su_Heap l)) = su_ArrayLength l" "su_LastEntry l < su_ArrayLength l"
    using d(1) by (simp_all add: su_wf_def set_loc_def)
  have inr: "inb (su_Heap l) p" "inb (su_Heap l) q" using p d(3) len by (auto simp: inb_def)
  show h: "heap_at ?l i = (if i = p then n else if i = q then heap_at l p else heap_at l i)" if "0 \<le> i" for i
    using that p inr d(2) by (auto simp: swap_up_def put_heap_def set_loc_def Let_def aget_aset)
  have at: "heap_loc ?L (heap_at ?L p) = p" using d(1,3) p by (simp add: su_wf_def set_loc_def)
  then have neq: "heap_at l p \<noteq> n" using p by (auto simp: heap_loc_def set_loc_def split: if_splits)
  have "su_wf (set_loc n p ?l)"
  proof (rule wf_swap [OF d(1), of p q])
    show "heap_loc (set_loc n p ?l) u =
        (if u = heap_at ?L p then q else if u = heap_at ?L q then p else heap_loc ?L u)" for u
      using d(2) neq by (auto simp: heap_loc_def set_loc_def swap_up_def put_heap_def Let_def)
  qed (use p d(3) in \<open>auto simp: set_loc_def swap_up_def put_heap_def Let_def\<close>)
  then show "up_wf n p ?l" unfolding up_wf_def using h [OF p(1)] p d(3) by simp
  show "0 \<le> heap_loc ?l u \<longleftrightarrow> 0 \<le> heap_loc l u" if "u \<noteq> n" for u
    using at q p neq that by (auto simp: swap_up_def put_heap_def set_loc_def heap_loc_def Let_def split: if_splits)
qed

lemma up_ok_step:
  assumes u: "up_ok n q l" and q: "0 < q" and less: "key l q < key l ((q - 1) div 2)"
  shows "up_ok n ((q - 1) div 2) (swap_up ((q - 1) div 2) q l)"
proof -
  let ?p = "(q - 1) div 2"
  let ?l = "swap_up ?p q l"
  have p: "0 \<le> ?p" "?p < q" using q by auto
  have d: "up_wf n q l" "heap_at l q = n" "q \<le> su_LastEntry l" using u by (simp_all add: up_ok_def up_wf_def)
  have ord: "key l ((i - 1) div 2) \<le> key l i" if "0 < i" "i \<le> su_LastEntry l" "i \<noteq> q" for i
    using u that by (simp add: up_ok_def)
  have gp: "key l ?p \<le> key l i" if "0 < i" "i \<le> su_LastEntry l" "(i - 1) div 2 = q" for i
    using u that q by (simp add: up_ok_def)
  note h = up_wf_step(2) [OF d(1) q]
  have k: "key ?l i = (if i = ?p then key l q else if i = q then key l ?p else key l i)" if "0 \<le> i" for i
    using h [OF that] d(2) by (auto simp: key_time_of)
  have o1: "key ?l ((i - 1) div 2) \<le> key ?l i" if i: "0 < i" "i \<le> su_LastEntry l" "i \<noteq> ?p" for i
  proof -
    have nn: "0 \<le> (i - 1) div 2" "(i - 1) div 2 < i" using i by auto
    consider "i = q" | "i \<noteq> q" "(i - 1) div 2 = ?p" | "i \<noteq> q" "(i - 1) div 2 = q"
      | "i \<noteq> q" "(i - 1) div 2 \<noteq> ?p" "(i - 1) div 2 \<noteq> q" by blast
    then show ?thesis
    proof cases
      case 1 then show ?thesis using k [OF p(1)] k [of q] q p less by simp
    next
      case 2 then show ?thesis using k [OF p(1)] k [of i] i less ord [of i] by auto
    next
      case 3 then show ?thesis using k [of q] k [of i] i q p gp [of i] by simp
    next
      case 4 then show ?thesis using k [OF nn(1)] k [of i] i ord [of i] by simp
    qed
  qed
  have o2: "key ?l ((?p - 1) div 2) \<le> key ?l i"
    if i: "0 < i" "i \<le> su_LastEntry l" "(i - 1) div 2 = ?p" "0 < ?p" for i
  proof -
    have "0 \<le> (?p - 1) div 2" "(?p - 1) div 2 < ?p" using i(4) by auto
    then have "key ?l ((?p - 1) div 2) = key l ((?p - 1) div 2)" using k p by simp
    moreover have "key l ((?p - 1) div 2) \<le> key l ?p" using ord [of ?p] i(4) p d(3) by simp
    moreover have "key l ?p \<le> key ?l i" using k [of i] i p ord [of i] by (cases "i = q") auto
    ultimately show ?thesis by simp
  qed
  show ?thesis
    unfolding up_ok_def using up_wf_step(1) [OF d(1) q] o1 o2 by simp
qed

lemma sift_up_unfold:
  "sift_up q l = (if q \<le> 0 then (l, q)
     else if key l q < key l ((q - 1) div 2) then sift_up ((q - 1) div 2) (swap_up ((q - 1) div 2) q l) else (l, q))"
  by (subst sift_up.simps) (simp add: Let_def)

lemma sift_up_wf:
  assumes "up_wf n q l" "sift_up q l = (l', q')"
  shows "su_wf (set_loc n q' l') \<and> heap_at l' q' = n \<and> 0 \<le> q' \<and> q' \<le> su_LastEntry l' \<and>
    su_LastEntry l' = su_LastEntry l \<and> time_of l' = time_of l \<and> su_ArrayLength l' = su_ArrayLength l \<and>
    (\<forall>u. u \<noteq> n \<longrightarrow> (0 \<le> heap_loc l' u \<longleftrightarrow> 0 \<le> heap_loc l u))"
  using assms
proof (induction q l rule: sift_up.induct)
  case (1 q l)
  show ?case
  proof (cases "0 < q \<and> key l q < key l ((q - 1) div 2)")
    case True
    then have "sift_up ((q - 1) div 2) (swap_up ((q - 1) div 2) q l) = (l', q')"
      using "1.prems"(2) by (simp add: sift_up_unfold [of q l])
    then show ?thesis
      using "1.IH" [OF _ refl] True up_wf_step [OF "1.prems"(1)] by simp
  next
    case False
    then have "l' = l" "q' = q" using "1.prems"(2) by (auto simp: sift_up_unfold [of q l] split: if_splits)
    then show ?thesis using "1.prems"(1) by (simp add: up_wf_def)
  qed
qed

lemma sift_up_ordered:
  assumes "up_ok n q l" "sift_up q l = (l', q')"
  shows "su_ordered l'"
  using assms
proof (induction q l rule: sift_up.induct)
  case (1 q l)
  show ?case
  proof (cases "0 < q \<and> key l q < key l ((q - 1) div 2)")
    case True
    then have "sift_up ((q - 1) div 2) (swap_up ((q - 1) div 2) q l) = (l', q')"
      using "1.prems"(2) by (simp add: sift_up_unfold [of q l])
    then show ?thesis using "1.IH" [OF _ refl] True up_ok_step [OF "1.prems"(1)] by simp
  next
    case False
    then have e: "l' = l" using "1.prems"(2) by (auto simp: sift_up_unfold [of q l] split: if_splits)
    have "key l ((i - 1) div 2) \<le> key l i" if "0 < i" "i \<le> su_LastEntry l" for i
      using "1.prems"(1) False that by (cases "i = q") (auto simp: up_ok_def)
    then show ?thesis unfolding e by (simp add: su_ordered_def)
  qed
qed

lemma su_signal_simps [simp]:
  "su_inv (su_signal s l) = su_inv l" "su_wf (su_signal s l) = su_wf l" "heap_loc (su_signal s l) = heap_loc l"
  "time_of (su_signal s l) = time_of l" "su_LastEntry (su_signal s l) = su_LastEntry l"
  "su_ArrayLength (su_signal s l) = su_ArrayLength l" "members (su_signal s l) = members l"
  "su_ordered (su_signal s l) = su_ordered l"
  by (auto simp: su_inv_def su_wf_def su_ordered_def su_defs time_of_def members_def fun_eq_iff)

lemma wf_members:
  assumes "su_wf l"
  shows "members l = heap_at l ` {0..su_LastEntry l}"
proof -
  have "heap_at l i \<in> members l" if "0 \<le> i" "i \<le> su_LastEntry l" for i
    using assms that by (auto simp: members_def su_wf_def)
  moreover have "u \<in> heap_at l ` {0..su_LastEntry l}" if "u \<in> members l" for u
  proof -
    have "heap_loc l u = -1 \<or> 0 \<le> heap_loc l u \<and> heap_loc l u \<le> su_LastEntry l \<and> heap_at l (heap_loc l u) = u"
      using assms by (simp add: su_wf_def)
    then show ?thesis using that by (intro image_eqI [of u _ "heap_loc l u"]) (auto simp: members_def)
  qed
  ultimately show ?thesis by auto
qed

lemma insert_'_present: "u \<in> members l \<Longrightarrow> insert_' ts u l = l"
  by (simp add: insert_'_def members_def)

lemma insert_'_wf:
  assumes w: "su_wf l" and u: "u \<notin> members l" and room: "su_LastEntry l + 1 < su_ArrayLength l"
  shows "su_wf (insert_' ts u l) \<and> (su_ordered l \<longrightarrow> su_ordered (insert_' ts u l)) \<and> members (insert_' ts u l) = insert u (members l) \<and>
    time_of (insert_' ts u l) = (time_of l)(u := ts) \<and> su_LastEntry (insert_' ts u l) = su_LastEntry l + 1 \<and>
    su_ArrayLength (insert_' ts u l) = su_ArrayLength l"
proof -
  let ?n = "su_LastEntry l + 1"
  let ?l1 = "set_time u ts (put_heap ?n u (l\<lparr>su_LastEntry := ?n\<rparr>))"
  have n: "0 \<le> ?n" "inb (su_Heap l) ?n" using w room by (auto simp: su_wf_def inb_def)
  have u1: "heap_loc l u = -1" using w u by (auto simp: su_wf_def members_def)
  have h: "heap_at ?l1 i = (if i = ?n then u else heap_at l i)" if "0 \<le> i" for i
    using that n by (auto simp: put_heap_def set_time_def aget_aset)
  have loc: "heap_loc ?l1 = heap_loc l" "su_LastEntry ?l1 = ?n" "su_ArrayLength ?l1 = su_ArrayLength l"
    by (auto simp: heap_loc_def set_time_def put_heap_def fun_eq_iff)
  have tm: "time_of ?l1 = (time_of l)(u := ts)"
    by (auto simp: time_of_def set_time_def put_heap_def fun_eq_iff)
  have nu: "heap_at l i \<noteq> u" if "0 \<le> i" "i \<le> su_LastEntry l" for i
    using w u1 that by (auto simp: su_wf_def)
  have k: "key ?l1 i = key l i" if "0 \<le> i" "i \<le> su_LastEntry l" for i
    using that h [of i] nu [OF that] tm by (simp add: key_time_of)
  have hh: "heap_at (set_loc u ?n ?l1) i = (if i = ?n then u else heap_at l i)" if "0 \<le> i" for i
    using h [OF that] by simp
  have lw: "\<And>i. 0 \<le> i \<Longrightarrow> i \<le> su_LastEntry l \<Longrightarrow> heap_loc l (heap_at l i) = i"
    "\<And>x. heap_loc l x = -1 \<or> 0 \<le> heap_loc l x \<and> heap_loc l x \<le> su_LastEntry l \<and> heap_at l (heap_loc l x) = x"
    using w by (auto simp: su_wf_def)
  have "su_wf (set_loc u ?n ?l1)"
    unfolding su_wf_def
  proof (intro conjI allI impI)
    show "heap_loc (set_loc u ?n ?l1) (heap_at (set_loc u ?n ?l1) i) = i"
      if "0 \<le> i \<and> i \<le> su_LastEntry (set_loc u ?n ?l1)" for i
      using that hh [of i] nu [of i] lw [of i] loc by auto
    show "heap_loc (set_loc u ?n ?l1) x = -1 \<or> 0 \<le> heap_loc (set_loc u ?n ?l1) x \<and>
        heap_loc (set_loc u ?n ?l1) x \<le> su_LastEntry (set_loc u ?n ?l1) \<and>
        heap_at (set_loc u ?n ?l1) (heap_loc (set_loc u ?n ?l1) x) = x" for x
      using lw(2) [of x] hh [of "heap_loc l x"] hh [of ?n] n(1) loc by auto
  qed (use w room in \<open>auto simp: su_wf_def loc put_heap_def set_time_def\<close>)
  then have up: "up_wf u ?n ?l1" using n(1) h [OF n(1)] loc unfolding up_wf_def by auto
  have "key ?l1 ((i - 1) div 2) \<le> key ?l1 i" if "0 < i" "i \<le> su_LastEntry l" "su_ordered l" for i
  proof -
    have "0 \<le> (i - 1) div 2" "(i - 1) div 2 \<le> su_LastEntry l" using that by auto
    then show ?thesis using k that by (simp add: su_ordered_def)
  qed
  then have ok: "up_ok u ?n ?l1" if "su_ordered l"
    using that up loc unfolding up_ok_def by auto
  obtain l' q' where s: "sift_up ?n ?l1 = (l', q')" by fastforce
  note r = sift_up_wf [OF up s]
  have ins: "insert_' ts u l = (let l2 = set_loc u q' l';
      l2 = (if heap_loc l2 u = 0 then su_signal TimerInterrupt l2 else l2)
      in if 0 = su_LastEntry l2 then su_signal WindowNotify l2 else l2)"
    using u1 s by (simp add: insert_'_def Let_def)
  have inv: "su_wf (insert_' ts u l)" using r unfolding ins Let_def by auto
  have "su_ordered (set_loc u q' l')" if "su_ordered l"
    using sift_up_ordered [OF ok [OF that] s] by (simp add: su_ordered_def)
  then have ord: "su_ordered l \<longrightarrow> su_ordered (insert_' ts u l)" unfolding ins Let_def by auto
  have loc': "members (insert_' ts u l) = members (set_loc u q' l')"
    unfolding ins Let_def by simp
  have "members (set_loc u q' l') = insert u (members l)"
  proof -
    have "heap_loc l' x = heap_loc (set_loc u q' l') x" if "x \<noteq> u" for x using that by simp
    moreover have "0 \<le> heap_loc (set_loc u q' l') x \<longleftrightarrow> 0 \<le> heap_loc l x" if "x \<noteq> u" for x
      using that r loc by simp
    ultimately show ?thesis using r by (auto simp: members_def)
  qed
  then show ?thesis using inv ord loc' r tm loc unfolding ins Let_def by simp
qed

lemma insert_'_absent:
  assumes "su_inv l" "u \<notin> members l" "su_LastEntry l + 1 < su_ArrayLength l"
  shows "su_inv (insert_' ts u l) \<and> members (insert_' ts u l) = insert u (members l) \<and>
    time_of (insert_' ts u l) = (time_of l)(u := ts) \<and> su_LastEntry (insert_' ts u l) = su_LastEntry l + 1 \<and>
    su_ArrayLength (insert_' ts u l) = su_ArrayLength l"
  using insert_'_wf [OF _ assms(2,3), of ts] assms(1) by (simp add: su_inv_def)

section \<open>Sifting down\<close>

text \<open>The state in the loop of \<open>remove_\<close>: \<open>u\<close> has left the heap but its \<open>m_iHeapLoc\<close> is not yet
  reset, and only the order between \<open>q\<close> and its children may be wrong.\<close>

definition down_order :: "int \<Rightarrow> CSndUList \<Rightarrow> bool" where
  "down_order q l \<longleftrightarrow>
     (\<forall>i. 0 < i \<and> i \<le> su_LastEntry l \<and> (i - 1) div 2 \<noteq> q \<longrightarrow> key l ((i - 1) div 2) \<le> key l i) \<and>
     (\<forall>i. 0 < i \<and> i \<le> su_LastEntry l \<and> (i - 1) div 2 = q \<and> 0 < q \<longrightarrow> key l ((q - 1) div 2) \<le> key l i)"

definition down_wf :: "sock \<Rightarrow> CSndUList \<Rightarrow> bool" where
  "down_wf u l \<longleftrightarrow> su_wf (set_loc u (-1) l) \<and> (\<forall>i. 0 \<le> i \<and> i \<le> su_LastEntry l \<longrightarrow> heap_at l i \<noteq> u)"

lemma swap_down_simps [simp]:
  "su_LastEntry (swap_down p q l) = su_LastEntry l" "su_ArrayLength (swap_down p q l) = su_ArrayLength l"
  "time_of (swap_down p q l) = time_of l"
  by (auto simp: swap_down_def su_defs Let_def time_of_def)

lemma swap_down_reads:
  assumes w: "down_wf u l" and p: "0 \<le> p" "p \<le> su_LastEntry l" and q: "0 \<le> q" "q \<le> su_LastEntry l" and pq: "p \<noteq> q"
  shows "\<And>i. 0 \<le> i \<Longrightarrow> heap_at (swap_down p q l) i =
      (if i = p then heap_at l q else if i = q then heap_at l p else heap_at l i)"
    "\<And>i. 0 \<le> i \<Longrightarrow> key (swap_down p q l) i = (if i = p then key l q else if i = q then key l p else key l i)"
    "down_wf u (swap_down p q l)" "members (swap_down p q l) - {u} = members l - {u}"
    "heap_loc (swap_down p q l) u = heap_loc l u"
proof -
  let ?l = "swap_down p q l" and ?L = "set_loc u (-1) l"
  have W: "su_wf ?L" "heap_at l p \<noteq> u" "heap_at l q \<noteq> u" using w p q by (auto simp: down_wf_def)
  have inr: "inb (su_Heap l) p" "inb (su_Heap l) q" using W(1) p q by (auto simp: su_wf_def inb_def)
  have heap: "su_Heap ?l = aset (aset (su_Heap l) p (heap_at l q)) q (heap_at l p)"
    by (simp add: swap_down_def put_heap_def set_loc_def Let_def)
  show h: "heap_at ?l i = (if i = p then heap_at l q else if i = q then heap_at l p else heap_at l i)" if "0 \<le> i" for i
    unfolding heap using that pq p q inr by (auto simp: aget_aset)
  show "key ?l i = (if i = p then key l q else if i = q then key l p else key l i)" if "0 \<le> i" for i
    using h [OF that] by (simp add: key_time_of)
  have lw: "heap_loc ?L (heap_at l p) = p" "heap_loc ?L (heap_at l q) = q"
    using W(1) p q unfolding su_wf_def by (metis set_loc_simps(2,4))+
  then have ne: "heap_at l p \<noteq> heap_at l q" using pq by metis
  have loc: "heap_loc ?l x = (if x = heap_at l p then q else if x = heap_at l q then p else heap_loc l x)" for x
    using inr ne pq p q by (auto simp: swap_down_def put_heap_def set_loc_def heap_loc_def Let_def aget_aset)
  have "su_wf (set_loc u (-1) ?l)"
    by (rule wf_swap [OF W(1), of p q]) (use p q pq heap loc W(2,3) in auto)
  moreover have "heap_at ?l i \<noteq> u" if "0 \<le> i \<and> i \<le> su_LastEntry l" for i
    using that h [of i] w W(2,3) by (auto simp: down_wf_def)
  ultimately show "down_wf u ?l" by (simp add: down_wf_def)
  show "members ?l - {u} = members l - {u}"
    using loc lw p q W(2,3) by (auto simp: members_def)
  show "heap_loc ?l u = heap_loc l u" using loc W(2,3) by auto
qed

lemma lesser_child_cases:
  assumes "0 \<le> q" "q * 2 + 1 \<le> su_LastEntry l"
  shows "q < lesser_child q l" "lesser_child q l \<le> su_LastEntry l" "(lesser_child q l - 1) div 2 = q"
    "\<And>i. 0 < i \<Longrightarrow> i \<le> su_LastEntry l \<Longrightarrow> (i - 1) div 2 = q \<Longrightarrow> key l (lesser_child q l) \<le> key l i"
proof -
  show "q < lesser_child q l" "lesser_child q l \<le> su_LastEntry l" "(lesser_child q l - 1) div 2 = q"
    using assms by (auto simp: lesser_child_def Let_def)
  fix i assume i: "0 < i" "i \<le> su_LastEntry l" "(i - 1) div 2 = q"
  then have "i = q * 2 + 1 \<or> i = q * 2 + 1 + 1" by presburger
  with i show "key l (lesser_child q l) \<le> key l i"
    by (auto simp: lesser_child_def Let_def)
qed

lemma sift_down_wf:
  "down_wf u l \<Longrightarrow> down_wf u (sift_down q l) \<and> members (sift_down q l) - {u} = members l - {u} \<and>
     time_of (sift_down q l) = time_of l \<and> su_LastEntry (sift_down q l) = su_LastEntry l \<and>
     su_ArrayLength (sift_down q l) = su_ArrayLength l"
proof (induction q l rule: sift_down.induct)
  case (1 q l)
  let ?p = "lesser_child q l"
  have unf: "sift_down q l = (if 0 \<le> q \<and> q * 2 + 1 \<le> su_LastEntry l \<and> key l ?p < key l q
      then sift_down ?p (swap_down ?p q l) else l)"
    by (subst sift_down.simps) (simp add: Let_def)
  show ?case
  proof (cases "0 \<le> q \<and> q * 2 + 1 \<le> su_LastEntry l \<and> key l ?p < key l q")
    case True
    note c = lesser_child_cases [of q l]
    have "down_wf u (swap_down ?p q l)" "members (swap_down ?p q l) - {u} = members l - {u}"
      using swap_down_reads [OF "1.prems", of ?p q] c True by auto
    then show ?thesis using "1.IH" [OF _ refl] True unf by simp
  next
    case False
    have "sift_down q l = l" by (rule trans [OF unf if_not_P [OF False]])
    then show ?thesis using "1.prems" by simp
  qed
qed

lemma sift_down_order:
  "down_wf u l \<Longrightarrow> 0 \<le> q \<Longrightarrow> down_order q l \<Longrightarrow> su_ordered (sift_down q l)"
proof (induction q l rule: sift_down.induct)
  case (1 q l)
  let ?p = "lesser_child q l"
  have unf: "sift_down q l = (if 0 \<le> q \<and> q * 2 + 1 \<le> su_LastEntry l \<and> key l ?p < key l q
      then sift_down ?p (swap_down ?p q l) else l)"
    by (subst sift_down.simps) (simp add: Let_def)
  show ?case
  proof (cases "0 \<le> q \<and> q * 2 + 1 \<le> su_LastEntry l \<and> key l ?p < key l q")
    case True
    let ?l = "swap_down ?p q l"
    have c: "q < ?p" "?p \<le> su_LastEntry l" "(?p - 1) div 2 = q"
      "\<And>i. 0 < i \<Longrightarrow> i \<le> su_LastEntry l \<Longrightarrow> (i - 1) div 2 = q \<Longrightarrow> key l ?p \<le> key l i"
      using lesser_child_cases [of q l] True by auto
    have r: "down_wf u ?l" "\<And>i. 0 \<le> i \<Longrightarrow> key ?l i = (if i = ?p then key l q else if i = q then key l ?p else key l i)"
      using swap_down_reads [OF "1.prems"(1), of ?p q] c True by auto
    have o: "\<And>i. 0 < i \<Longrightarrow> i \<le> su_LastEntry l \<Longrightarrow> (i - 1) div 2 \<noteq> q \<Longrightarrow> key l ((i - 1) div 2) \<le> key l i"
      "\<And>i. 0 < i \<Longrightarrow> i \<le> su_LastEntry l \<Longrightarrow> (i - 1) div 2 = q \<Longrightarrow> 0 < q \<Longrightarrow> key l ((q - 1) div 2) \<le> key l i"
      using "1.prems"(3) by (auto simp: down_order_def)
    have "key ?l ((i - 1) div 2) \<le> key ?l i" if i: "0 < i" "i \<le> su_LastEntry l" "(i - 1) div 2 \<noteq> ?p" for i
    proof -
      have nn: "0 \<le> (i - 1) div 2" "(i - 1) div 2 < i" using i by auto
      consider "(i - 1) div 2 = q" | "(i - 1) div 2 \<noteq> q" "i = q" | "(i - 1) div 2 \<noteq> q" "i \<noteq> q" by blast
      then show ?thesis
      proof cases
        case 1
        then show ?thesis using r(2) [OF nn(1)] r(2) [of i] i c True by auto
      next
        case 2
        then have "key l ((q - 1) div 2) \<le> key l ?p" using o(2) [of ?p] c i by simp
        then show ?thesis using 2 r(2) [OF nn(1)] r(2) [of i] i c by auto
      next
        case 3
        moreover have "i \<noteq> ?p" using 3(1) c(3) by auto
        ultimately show ?thesis using r(2) [OF nn(1)] r(2) [of i] i o(1) [of i] by auto
      qed
    qed
    moreover have "key ?l ((?p - 1) div 2) \<le> key ?l i" if i: "0 < i" "i \<le> su_LastEntry l" "(i - 1) div 2 = ?p" for i
    proof -
      have "?p < i" using i c(1) True by auto
      moreover have "key l ?p \<le> key l i" using o(1) [of i] i c(1) by simp
      ultimately show ?thesis using r(2) [of i] r(2) [of q] c True by simp
    qed
    ultimately have "down_order ?p ?l" by (simp add: down_order_def)
    then show ?thesis using "1.IH" [OF _ refl] True r(1) c(1) unf by simp
  next
    case False
    have "key l ((i - 1) div 2) \<le> key l i" if i: "0 < i" "i \<le> su_LastEntry l" for i
    proof (cases "(i - 1) div 2 = q")
      case True
      then have "q * 2 + 1 \<le> su_LastEntry l" using i by presburger
      then show ?thesis using True False "1.prems"(2) lesser_child_cases(4) [of q l i] i by (auto intro: order.trans)
    next
      case F: False
      then show ?thesis using "1.prems"(3) i by (auto simp: down_order_def)
    qed
    then show ?thesis using unf False by (simp add: su_ordered_def)
  qed
qed

text \<open>\<open>remove_\<close> takes the socket off the heap; when it was the root, the order is kept.\<close>

lemma remove_'_ok:
  assumes w: "su_wf l" and u: "u \<in> members l"
  shows "su_wf (remove_' u l) \<and> members (remove_' u l) = members l - {u} \<and> time_of (remove_' u l) = time_of l \<and>
    su_LastEntry (remove_' u l) = su_LastEntry l - 1 \<and> su_ArrayLength (remove_' u l) = su_ArrayLength l \<and>
    (su_ordered l \<and> heap_loc l u = 0 \<longrightarrow> su_ordered (remove_' u l))"
proof -
  define r where "r = heap_loc l u"
  define v where "v = heap_at l (su_LastEntry l)"
  have lw: "\<And>i. 0 \<le> i \<Longrightarrow> i \<le> su_LastEntry l \<Longrightarrow> heap_loc l (heap_at l i) = i"
    "\<And>x. heap_loc l x = -1 \<or> 0 \<le> heap_loc l x \<and> heap_loc l x \<le> su_LastEntry l \<and> heap_at l (heap_loc l x) = x"
    using w by (auto simp: su_wf_def)
  have r: "0 \<le> r" "r \<le> su_LastEntry l" "heap_at l r = u"
    using lw(2) [of u] u by (auto simp: members_def r_def)
  have inr: "inb (su_Heap l) r" using w r by (auto simp: su_wf_def inb_def)
  let ?l1 = "set_loc v r ((put_heap r v l)\<lparr>su_LastEntry := su_LastEntry l - 1\<rparr>)"
  have h: "heap_at ?l1 i = (if i = r then v else heap_at l i)" if "0 \<le> i" for i
    using that r inr by (auto simp: put_heap_def aget_aset)
  have loc: "heap_loc ?l1 x = (if x = v then r else heap_loc l x)" for x
    by (simp add: heap_loc_def put_heap_def set_loc_def)
  have vl: "heap_loc l v = su_LastEntry l" using lw(1) r by (simp add: v_def)
  have uv: "u = v \<longleftrightarrow> r = su_LastEntry l" using lw(1) r vl r_def v_def by metis
  have tm: "time_of ?l1 = time_of l" by (simp add: time_of_def put_heap_def fun_eq_iff)
  have bound: "heap_loc l x \<noteq> su_LastEntry l" if "x \<noteq> v" for x
    using that lw(2) [of x] v_def r by auto
  have dw: "down_wf u ?l1"
    unfolding down_wf_def
  proof
    show "su_wf (set_loc u (-1) ?l1)"
      unfolding su_wf_def
    proof (intro conjI allI impI)
      show "heap_loc (set_loc u (-1) ?l1) (heap_at (set_loc u (-1) ?l1) i) = i"
        if "0 \<le> i \<and> i \<le> su_LastEntry (set_loc u (-1) ?l1)" for i
        using that h [of i] loc lw(1) [of i] uv r_def vl by auto
      show "heap_loc (set_loc u (-1) ?l1) x = -1 \<or> 0 \<le> heap_loc (set_loc u (-1) ?l1) x \<and>
          heap_loc (set_loc u (-1) ?l1) x \<le> su_LastEntry (set_loc u (-1) ?l1) \<and>
          heap_at (set_loc u (-1) ?l1) (heap_loc (set_loc u (-1) ?l1) x) = x" for x
        using h [of r] h [of "heap_loc l x"] loc [of x] lw(2) [of x] bound [of x] r uv by (auto simp: r_def)
    qed (use w r in \<open>auto simp: su_wf_def put_heap_def\<close>)
    show "\<forall>i. 0 \<le> i \<and> i \<le> su_LastEntry ?l1 \<longrightarrow> heap_at ?l1 i \<noteq> u"
      using h lw(1) uv r_def by auto
  qed
  have hl: "heap_loc (put_heap i x k) = heap_loc k" "heap_loc (k\<lparr>su_LastEntry := m\<rparr>) = heap_loc k"
    "su_LastEntry (put_heap i x k) = su_LastEntry k" for i x k m
    by (auto simp: heap_loc_def put_heap_def fun_eq_iff)
  have hr: "heap_at ((put_heap r v l)\<lparr>su_LastEntry := su_LastEntry l - 1\<rparr>) r = v"
    using inr by (simp add: put_heap_def)
  have rm: "remove_' u l = (let l2 = set_loc u (-1) (sift_down r ?l1)
      in if 0 = su_LastEntry l2 then su_signal TimerInterrupt l2 else l2)"
    unfolding remove_'_def Let_def hl r_def [symmetric] v_def [symmetric] hr using r(1)
    by (simp add: hl r_def [symmetric])
  note sd = sift_down_wf [OF dw, of r]
  have mem: "members (set_loc u (-1) (sift_down r ?l1)) = members l - {u}"
  proof -
    have "members (set_loc u (-1) (sift_down r ?l1)) = members (sift_down r ?l1) - {u}" by (auto simp: members_def)
    also have "\<dots> = members ?l1 - {u}" using sd by simp
    also have "\<dots> = members l - {u}" using loc r vl by (auto simp: members_def)
    finally show ?thesis .
  qed
  have "su_ordered (sift_down r ?l1)" if "su_ordered l" "r = 0"
  proof (rule sift_down_order [OF dw r(1)])
    have k: "key ?l1 i = key l i" if "0 < i" for i
      using that h [of i] \<open>r = 0\<close> tm by (simp add: key_time_of)
    show "down_order r ?l1"
      using that k unfolding down_order_def su_ordered_def by auto
  qed
  then have ord: "su_ordered l \<and> heap_loc l u = 0 \<longrightarrow> su_ordered (set_loc u (-1) (sift_down r ?l1))"
    by (simp add: su_ordered_def r_def)
  let ?l2 = "set_loc u (-1) (sift_down r ?l1)"
  have "su_wf ?l2" "time_of ?l2 = time_of l" "su_LastEntry ?l2 = su_LastEntry l - 1"
    "su_ArrayLength ?l2 = su_ArrayLength l"
    using sd tm by (simp_all add: down_wf_def) (simp_all add: put_heap_def)
  then show ?thesis
    using mem ord unfolding rm Let_def by (cases "0 = su_LastEntry ?l2") (simp_all only: if_True if_False su_signal_simps, simp_all)
qed

section \<open>The priority queue the sending queue relies on\<close>

text \<open>The worker serves the socket that is due first: it needs the least time, the removal of
  the socket that has it, and the insertion of a socket at its next time.\<close>

locale event_queue =
  fixes ok :: "'q \<Rightarrow> bool"
    and content :: "'q \<Rightarrow> sock set"
    and due :: "'q \<Rightarrow> sock \<Rightarrow> uint64"
    and first :: "'q \<Rightarrow> sock"
    and take_first :: "'q \<Rightarrow> 'q"
    and schedule :: "uint64 \<Rightarrow> sock \<Rightarrow> 'q \<Rightarrow> 'q"
  assumes first_in: "ok q \<Longrightarrow> content q \<noteq> {} \<Longrightarrow> first q \<in> content q"
    and first_least: "ok q \<Longrightarrow> u \<in> content q \<Longrightarrow> due q (first q) \<le> due q u"
    and take_ok: "ok q \<Longrightarrow> content q \<noteq> {} \<Longrightarrow> ok (take_first q) \<and>
      content (take_first q) = content q - {first q} \<and> due (take_first q) = due q"
    and schedule_ok: "ok q \<Longrightarrow> content q \<noteq> {} \<Longrightarrow> u \<notin> content (take_first q) \<Longrightarrow>
      ok (schedule t u (take_first q)) \<and>
      content (schedule t u (take_first q)) = insert u (content (take_first q)) \<and>
      due (schedule t u (take_first q)) = (due q)(u := t)"
begin

text \<open>Serving the first socket and scheduling it again: nobody is lost, and the times of the
  others stay.\<close>

lemma serve:
  assumes "ok q" "content q \<noteq> {}"
  shows "ok (schedule t (first q) (take_first q)) \<and>
    content (schedule t (first q) (take_first q)) = content q \<and>
    (\<forall>u\<in>content q. due q (first q) \<le> due q u) \<and>
    (\<forall>u. u \<noteq> first q \<longrightarrow> due (schedule t (first q) (take_first q)) u = due q u)"
  using schedule_ok [OF assms, of "first q" t] take_ok [OF assms] first_in [OF assms]
    first_least [OF assms(1)] by auto

end

lemma members_root:
  assumes "su_wf l" "members l \<noteq> {}"
  shows "0 \<le> su_LastEntry l" "heap_at l 0 \<in> members l" "heap_loc l (heap_at l 0) = 0"
proof -
  show 0: "0 \<le> su_LastEntry l" using assms wf_members [OF assms(1)] by (cases "0 \<le> su_LastEntry l") auto
  show "heap_at l 0 \<in> members l" using 0 wf_members [OF assms(1)] by auto
  show "heap_loc l (heap_at l 0) = 0" using 0 assms(1) by (simp add: su_wf_def)
qed

lemma remove_root_inv:
  assumes "su_inv l" "members l \<noteq> {}"
  shows "su_inv (remove_' (heap_at l 0) l) \<and> members (remove_' (heap_at l 0) l) = members l - {heap_at l 0} \<and>
    time_of (remove_' (heap_at l 0) l) = time_of l"
  using assms members_root [of l] remove_'_ok [of l "heap_at l 0"] by (simp add: su_inv_def)

interpretation snd_heap: event_queue su_inv members time_of "\<lambda>l. heap_at l 0" "\<lambda>l. remove_' (heap_at l 0) l" insert_'
proof
  fix l u t
  assume l: "su_inv l"
  show "members l \<noteq> {} \<Longrightarrow> heap_at l 0 \<in> members l" using l members_root by (simp add: su_inv_def)
  show "time_of l (heap_at l 0) \<le> time_of l u" if "u \<in> members l"
    using that wf_members [of l] root_least [of l] l by (auto simp: su_inv_def key_time_of)
  assume ne: "members l \<noteq> {}"
  show "su_inv (remove_' (heap_at l 0) l) \<and> members (remove_' (heap_at l 0) l) = members l - {heap_at l 0} \<and>
      time_of (remove_' (heap_at l 0) l) = time_of l"
    by (rule remove_root_inv [OF l ne])
  assume u: "u \<notin> members (remove_' (heap_at l 0) l)"
  have "su_LastEntry (remove_' (heap_at l 0) l) + 1 < su_ArrayLength (remove_' (heap_at l 0) l)"
    using l ne members_root [of l] remove_'_ok [of l "heap_at l 0"] by (simp add: su_inv_def su_wf_def)
  then show "su_inv (insert_' t u (remove_' (heap_at l 0) l)) \<and>
      members (insert_' t u (remove_' (heap_at l 0) l)) = insert u (members (remove_' (heap_at l 0) l)) \<and>
      time_of (insert_' t u (remove_' (heap_at l 0) l)) = (time_of l)(u := t)"
    using insert_'_absent [OF _ u] remove_root_inv [OF l ne] by simp
qed

section \<open>What the sending queue gets\<close>

text \<open>C26: inserting a socket keeps the heap, grows the array when it is full, puts the socket on the
  list and gives it the time, unless it is on the list already.\<close>

theorem insert_schedules:
  assumes "su_inv l" "int (length filler) = su_ArrayLength l" "0 < su_ArrayLength l"
  shows "su_inv (CSndUList_insert True filler ts u l) \<and>
    members (CSndUList_insert True filler ts u l) = insert u (members l) \<and>
    time_of (CSndUList_insert True filler ts u l) = (if u \<in> members l then time_of l else (time_of l)(u := ts))"
proof -
  define l1 where "l1 = (if su_LastEntry l = su_ArrayLength l - 1
    then l\<lparr>su_Heap := su_Heap l @ filler, su_ArrayLength := su_ArrayLength l * 2\<rparr> else l)"
  have eq: "CSndUList_insert True filler ts u l = insert_' ts u l1"
    by (simp add: CSndUList_insert_def l1_def)
  have w: "su_wf l" "su_ordered l" using assms(1) by (simp_all add: su_inv_def)
  have h: "heap_at l1 i = heap_at l i" if "0 \<le> i" "i \<le> su_LastEntry l" for i
    using that w(1) by (auto simp: l1_def su_wf_def aget_def nth_append)
  have same: "heap_loc l1 = heap_loc l" "su_LastEntry l1 = su_LastEntry l" "time_of l1 = time_of l"
    by (auto simp: l1_def heap_loc_def time_of_def fun_eq_iff)
  have room: "su_LastEntry l1 + 1 < su_ArrayLength l1"
    using w(1) assms(3) by (auto simp: l1_def su_wf_def)
  have loc: "heap_loc l x = -1 \<or> 0 \<le> heap_loc l x \<and> heap_loc l x \<le> su_LastEntry l \<and> heap_at l (heap_loc l x) = x" for x
    using w(1) by (simp add: su_wf_def)
  have "su_wf l1"
    unfolding su_wf_def
  proof (intro conjI allI impI)
    show "int (length (su_Heap l1)) = su_ArrayLength l1"
      using w(1) assms(2) by (auto simp: l1_def su_wf_def)
    show "heap_loc l1 (heap_at l1 i) = i" if "0 \<le> i \<and> i \<le> su_LastEntry l1" for i
      using that h [of i] same w(1) by (simp add: su_wf_def)
    show "heap_loc l1 x = -1 \<or> 0 \<le> heap_loc l1 x \<and> heap_loc l1 x \<le> su_LastEntry l1 \<and> heap_at l1 (heap_loc l1 x) = x" for x
      using loc [of x] h [of "heap_loc l x"] same by auto
  qed (use w(1) room same in \<open>auto simp: su_wf_def\<close>)
  moreover have "su_ordered l1"
    unfolding su_ordered_def
  proof (intro allI impI)
    fix i assume i: "0 < i \<and> i \<le> su_LastEntry l1"
    then have "0 \<le> (i - 1) div 2" "(i - 1) div 2 \<le> su_LastEntry l" using same by auto
    then show "key l1 ((i - 1) div 2) \<le> key l1 i"
      using i same h w(2) by (simp add: key_time_of su_ordered_def)
  qed
  moreover have "members l1 = members l" using same by (simp add: members_def)
  ultimately show ?thesis
    using insert_'_present [of u l1 ts] insert_'_absent [of l1 u ts] room same(3) unfolding eq su_inv_def
    by (cases "u \<in> members l") (simp_all add: insert_absorb)
qed

lemma new_heap_inv: "su_inv CSndUList_new" "members CSndUList_new = {}"
  by (auto simp: su_inv_def su_wf_def su_ordered_def CSndUList_new_def heap_loc_def members_def)

theorem insert_schedules_witness:
  "su_inv (CSndUList_insert True (replicate 4096 0) 70 9 CSndUList_new) \<and>
   members (CSndUList_insert True (replicate 4096 0) 70 9 CSndUList_new) = {9}"
  using insert_schedules [of CSndUList_new "replicate 4096 0" 70 9] new_heap_inv
  by (simp add: CSndUList_new_def)

text \<open>A first socket that is served, and put back when its packet asks for a next time.\<close>

lemma serve_root:
  assumes w: "su_wf l" and ne: "members l \<noteq> {}"
  defines "u \<equiv> heap_at l 0"
  shows "u \<in> members l" "su_wf (remove_' u l)" "su_ordered l \<Longrightarrow> su_ordered (remove_' u l)"
    "members (remove_' u l) = members l - {u}" "time_of (remove_' u l) = time_of l"
    "su_wf (insert_' ts u (remove_' u l))" "su_ordered l \<Longrightarrow> su_ordered (insert_' ts u (remove_' u l))"
    "members (insert_' ts u (remove_' u l)) = members l" "time_of (insert_' ts u (remove_' u l)) = (time_of l)(u := ts)"
    "su_ordered l \<Longrightarrow> v \<in> members l \<Longrightarrow> time_of l u \<le> time_of l v"
proof -
  show u: "u \<in> members l" using members_root [OF w ne] by (simp add: u_def)
  note r = remove_'_ok [OF w u]
  show 1: "su_wf (remove_' u l)" "members (remove_' u l) = members l - {u}" "time_of (remove_' u l) = time_of l"
    using r by simp_all
  show 2: "su_ordered (remove_' u l)" if "su_ordered l" using r that members_root(3) [OF w ne] by (simp add: u_def)
  have "su_LastEntry (remove_' u l) + 1 < su_ArrayLength (remove_' u l)" using r w by (simp add: su_wf_def)
  from insert_'_wf [OF 1(1) _ this, of u ts] 1 2 u
  show "su_wf (insert_' ts u (remove_' u l))" "su_ordered l \<Longrightarrow> su_ordered (insert_' ts u (remove_' u l))"
    "members (insert_' ts u (remove_' u l)) = members l" "time_of (insert_' ts u (remove_' u l)) = (time_of l)(u := ts)"
    by auto
  show "time_of l u \<le> time_of l v" if "su_ordered l" "v \<in> members l"
    using snd_heap.first_least [of l v] that w by (simp add: u_def su_inv_def)
qed

text \<open>C25: \<open>pop\<close> looks at the first socket of the heap, whose time on an ordered heap is least of all. When the list
  is empty or that time has not come it does nothing. Otherwise it takes the socket off the list; if the socket is
  connected and has a packet, that packet is the result, and the socket is put back at the time its packet asks for,
  if it asks for one, and else stays off the list. The times of all others are unchanged and the list stays well-formed, and ordered
  if it was. (Order is not kept by every operation: \<open>removal_can_break_order\<close> below.)\<close>

theorem pop_serves_earliest:
  assumes "su_wf l" "CSndUList_pop now sendable packData c l = (r, c', l')"
  shows "su_wf l' \<and> (su_ordered l \<longrightarrow> su_ordered l') \<and>
    (if members l = {} \<or> now < time_of l (heap_at l 0) then r = None \<and> c' = c \<and> l' = l
     else let u = heap_at l 0; ((n, pkt, ts), c2) = packData c u now in
       u \<in> members l \<and> (su_ordered l \<longrightarrow> (\<forall>v\<in>members l. time_of l u \<le> time_of l v)) \<and>
       (\<forall>v. v \<noteq> u \<longrightarrow> time_of l' v = time_of l v) \<and>
       (if \<not> sendable c u then r = None \<and> c' = c \<and> members l' = members l - {u}
        else c' = c2 \<and>
          (if n \<le> 0 then r = None \<and> members l' = members l - {u}
           else r = Some (u, pkt) \<and>
             (if ts = 0 then members l' = members l - {u} else members l' = members l \<and> time_of l' u = ts))))"
proof -
  have empty: "members l = {} \<longleftrightarrow> - 1 = su_LastEntry l"
    using assms(1) wf_members [OF assms(1)] by (auto simp: su_wf_def)
  show ?thesis
  proof (cases "members l = {} \<or> now < time_of l (heap_at l 0)")
    case True
    then have "(r, c', l') = (None, c, l)" using assms(2) empty by (auto simp: CSndUList_pop_def key_time_of)
    then show ?thesis using True assms(1) by simp
  next
    case False
    let ?u = "heap_at l 0" and ?l1 = "remove_' (heap_at l 0) l"
    obtain n pkt ts c2 where p: "packData c ?u now = ((n, pkt, ts), c2)" by (metis prod_cases3 surj_pair)
    have ne: "members l \<noteq> {}" "- 1 \<noteq> su_LastEntry l" "\<not> now < key l 0"
      using False empty by (simp_all add: key_time_of)
    note s = serve_root(1-5,10) [OF assms(1) ne(1)] serve_root(6-9) [OF assms(1) ne(1), where ts = ts]
    have "CSndUList_pop now sendable packData c l = (if \<not> sendable c ?u then (None, c, ?l1) else if n \<le> 0 then (None, c2, ?l1)
        else (Some (?u, pkt), c2, if ts > 0 then insert_' ts ?u ?l1 else ?l1))"
      using ne(2,3) by (simp add: CSndUList_pop_def p Let_def)
    then have "(r, c', l') = (if \<not> sendable c ?u then (None, c, ?l1) else if n \<le> 0 then (None, c2, ?l1)
        else (Some (?u, pkt), c2, if ts > 0 then insert_' ts ?u ?l1 else ?l1))"
      unfolding assms(2) .
    then show ?thesis
      using False s by (simp add: p Let_def word_gt_0 split: if_splits)
  qed
qed

text \<open>Socket 5 is due before socket 9; its packet asks for time 130.\<close>

theorem pop_serves_earliest_witness:
  "\<exists>l'. CSndUList_pop 100 (\<lambda>_ _. True) (\<lambda>c u t. ((1, u, 130), c)) (0::nat)
      (insert_' 40 5 (insert_' 70 9 CSndUList_new)) = (Some (5, 5), 0, l') \<and>
     members l' = {5, 9} \<and> time_of l' 5 = 130 \<and> time_of l' 9 = 70"
proof -
  let ?l1 = "insert_' 70 9 CSndUList_new" and ?l = "insert_' 40 5 (insert_' 70 9 CSndUList_new)"
  have e: "su_LastEntry CSndUList_new = - 1" "su_ArrayLength CSndUList_new = 4096" by (simp_all add: CSndUList_new_def)
  have 1: "su_inv ?l1" "members ?l1 = {9}" "time_of ?l1 9 = 70" "su_LastEntry ?l1 = 0" "su_ArrayLength ?l1 = 4096"
    using insert_'_absent [of CSndUList_new 9 70] new_heap_inv e by simp_all
  have 2: "su_inv ?l" "members ?l = {5, 9}" "time_of ?l 5 = 40" "time_of ?l 9 = 70"
    using insert_'_absent [of ?l1 5 40] 1 by simp_all
  then have w: "su_wf ?l" "su_ordered ?l" by (simp_all add: su_inv_def)
  have root: "heap_at ?l 0 = 5"
    using snd_heap.first_in [OF 2(1)] snd_heap.first_least [OF 2(1), of 5] 2 by auto
  obtain r c' l' where p: "CSndUList_pop 100 (\<lambda>_ _. True) (\<lambda>c u t. ((1, u, 130), c)) (0::nat) ?l = (r, c', l')"
    by (metis prod_cases3)
  show ?thesis using pop_serves_earliest [OF w(1) p] p w(2) 2 root by (simp add: Let_def)
qed

section \<open>Removing a socket that is not first\<close>

text \<open>\<open>remove_\<close> sifts the last node down from the freed place but never up. Here node 3 leaves and
  the last node, due at 4, takes its place below node 1, which is due at 10.\<close>

definition example_heap :: CSndUList where
  "example_heap = \<lparr>su_Heap = [0, 1, 2, 3, 4, 5, 6],
     su_Node = (\<lambda>u. \<lparr>m_llTimeStamp = [1, 10, 2, 11, 12, 3, 4] ! nat u,
                     m_iHeapLoc = (if 0 \<le> u \<and> u \<le> 6 then u else -1)\<rparr>),
     su_ArrayLength = 7, su_LastEntry = 6, su_Signals = []\<rparr>"

lemma upto_6: "0 \<le> i \<Longrightarrow> i \<le> 6 \<Longrightarrow> i = 0 \<or> i = 1 \<or> i = 2 \<or> i = 3 \<or> i = 4 \<or> i = 5 \<or> i = (6::int)"
  by auto

lemma example_heap_inv: "su_inv example_heap"
proof -
  have at: "heap_at example_heap i = i" if "0 \<le> i" "i \<le> 6" for i
    using upto_6 [OF that] by (auto simp: example_heap_def aget_def)
  have loc: "heap_loc example_heap i = (if 0 \<le> i \<and> i \<le> 6 then i else -1)" for i
    by (simp add: heap_loc_def example_heap_def)
  have "su_wf example_heap"
    using at loc by (auto simp: su_wf_def) (auto simp: example_heap_def)
  moreover have "key example_heap ((i - 1) div 2) \<le> key example_heap i" if "0 < i" "i \<le> 6" for i
    using upto_6 [of i] that by (auto simp: key_def example_heap_def aget_def)
  ultimately show ?thesis by (simp add: su_inv_def su_ordered_def) (simp add: example_heap_def)
qed

text \<open>Removing a socket that is not first can leave a heap whose order is broken, so that a later
  \<open>pop\<close> need not serve the socket that is due first.\<close>

theorem removal_can_break_order:
  "su_inv example_heap \<and> 3 \<in> members example_heap \<and> \<not> su_ordered (CSndUList_remove 3 example_heap)"
proof -
  have "3 \<in> members example_heap" by (simp add: members_def heap_loc_def example_heap_def)
  moreover have "key (CSndUList_remove 3 example_heap) 3 < key (CSndUList_remove 3 example_heap) 1 \<and>
      su_LastEntry (CSndUList_remove 3 example_heap) = 5"
    by (simp add: CSndUList_remove_def remove_'_def example_heap_def su_defs Let_def aget_def aset_def
        sift_down.simps)
  moreover from this have "\<not> su_ordered (CSndUList_remove 3 example_heap)"
    by (auto simp: su_ordered_def not_le intro!: exI [of _ 3])
  ultimately show ?thesis using example_heap_inv by simp
qed

end
