(* ===== verification/Address.thy ===== *)
theory Address imports Memory begin

text \<open>
  Peer addresses: class \<open>CIPAddress\<close> (\<open>udtCommon.cpp\<close>) and \<open>CInfoBlock::convert\<close> (\<open>cache.cpp\<close>).
  The memory behind a \<open>sockaddr*\<close> is read as a \<open>sockaddr_in\<close> or a \<open>sockaddr_in6\<close> by the version
  that is passed along; both have the port at the same place. \<open>sin_addr.s_addr\<close> is the word
  as the code sees it.
\<close>

type_synonym port = "16 word"

record sockaddr =
  sin_port :: port
  sin_addr :: uint32
  s6_addr :: "byte list"

definition AF_INET :: int where "AF_INET = 2"
definition AF_INET6 :: int where "AF_INET6 = 10"

definition ipcmp :: "sockaddr \<Rightarrow> sockaddr \<Rightarrow> int \<Rightarrow> bool" where
  "ipcmp a1 a2 ver =
    (if AF_INET = ver then sin_port a1 = sin_port a2 \<and> sin_addr a1 = sin_addr a2
     else sin_port a1 = sin_port a2 \<and> list_all (\<lambda>i. s6_addr a1 ! i = s6_addr a2 ! i) [0..<16])"

definition addr_word :: "byte list \<Rightarrow> nat \<Rightarrow> uint32" where
  "addr_word b i = push_bit 24 (ucast (b ! (4 * i + 3))) + push_bit 16 (ucast (b ! (4 * i + 2)))
     + push_bit 8 (ucast (b ! (4 * i + 1))) + ucast (b ! (4 * i))"

definition ntop :: "sockaddr \<Rightarrow> uint32 list \<Rightarrow> int \<Rightarrow> uint32 list" where
  "ntop a ip ver =
    (if AF_INET = ver then ip[0 := sin_addr a]
     else ip[3 := addr_word (s6_addr a) 3, 2 := addr_word (s6_addr a) 2,
             1 := addr_word (s6_addr a) 1, 0 := addr_word (s6_addr a) 0])"

definition put_word :: "byte list \<Rightarrow> nat \<Rightarrow> uint32 \<Rightarrow> byte list" where
  "put_word b i w = b[i * 4 := ucast (w AND 0xFF), i * 4 + 1 := ucast (drop_bit 8 (w AND 0xFF00)),
     i * 4 + 2 := ucast (drop_bit 16 (w AND 0xFF0000)), i * 4 + 3 := ucast (drop_bit 24 (w AND 0xFF000000))]"

definition pton :: "sockaddr \<Rightarrow> uint32 list \<Rightarrow> int \<Rightarrow> sockaddr" where
  "pton a ip ver =
    (if AF_INET = ver then a\<lparr>sin_addr := ip ! 0\<rparr>
     else a\<lparr>s6_addr := fold (\<lambda>i b. put_word b i (ip ! i)) [0, 1, 2, 3] (s6_addr a)\<rparr>)"

text \<open>\<open>convert\<close> copies the 16 bytes of an IPv6 address as they are.\<close>

definition CInfoBlock_convert :: "sockaddr \<Rightarrow> int \<Rightarrow> uint32 list" where
  "CInfoBlock_convert a ver =
    (if ver = AF_INET then [sin_addr a, 0, 0, 0]
     else map (\<lambda>i. word_of_bytes (take 4 (drop (4 * i) (s6_addr a)))) [0, 1, 2, 3])"

section \<open>Conversions\<close>

definition sockaddr_ok :: "sockaddr \<Rightarrow> bool" where
  "sockaddr_ok a \<longleftrightarrow> length (s6_addr a) = 16"

lemma byte_masks:
  "(0xFF :: uint32) = mask 8" "(0xFF00 :: uint32) = push_bit 8 (mask 8)"
  "(0xFF0000 :: uint32) = push_bit 16 (mask 8)" "(0xFF000000 :: uint32) = push_bit 24 (mask 8)"
  by (simp_all add: mask_eq_exp_minus_1 push_bit_eq_mult)

lemma put_word_bytes:
  "ucast (w AND 0xFF) = (ucast w :: byte)" "ucast (drop_bit 8 (w AND 0xFF00)) = (ucast (drop_bit 8 w) :: byte)"
  "ucast (drop_bit 16 (w AND 0xFF0000)) = (ucast (drop_bit 16 w) :: byte)"
  "ucast (drop_bit 24 (w AND 0xFF000000)) = (ucast (drop_bit 24 w) :: byte)" for w :: uint32
  unfolding byte_masks by (rule bit_word_eqI; auto simp: bit_simps)+

lemma addr_word_bytes:
  assumes "4 * i + 4 \<le> length b"
  shows "addr_word b i = word_of_bytes (take 4 (drop (4 * i) b))"
proof -
  have t: "take 4 (drop (4 * i) b) = [b ! (4 * i), b ! (4 * i + 1), b ! (4 * i + 2), b ! (4 * i + 3)]"
    using assms by (intro nth_equalityI) (auto simp: less_Suc_eq numeral_eq_Suc)
  let ?a = "ucast (b ! (4 * i)) :: uint32" and ?b = "push_bit 8 (ucast (b ! (4 * i + 1))) :: uint32"
  let ?c = "push_bit 16 (ucast (b ! (4 * i + 2))) :: uint32" and ?d = "push_bit 24 (ucast (b ! (4 * i + 3))) :: uint32"
  have 1: "?d + ?c = ?d OR ?c"
    by (rule disjunctive_add_eq_or) (rule bit_word_eqI, auto simp: bit_simps dest: bit_imp_le_length)
  have 2: "(?d OR ?c) + ?b = ?d OR ?c OR ?b"
    by (subst disjunctive_add_eq_or) (rule bit_word_eqI, auto simp: bit_simps or.assoc dest: bit_imp_le_length)
  have 3: "(?d OR ?c OR ?b) + ?a = ?d OR ?c OR ?b OR ?a"
    by (subst disjunctive_add_eq_or) (rule bit_word_eqI, auto simp: bit_simps or.assoc dest: bit_imp_le_length)
  show ?thesis unfolding addr_word_def t word_of_bytes.simps 1 2 3 by (simp add: or.assoc or.commute or.left_commute)
qed

text \<open>The four bytes \<open>put_word\<close> writes, and the rest.\<close>

lemma put_word_eq:
  assumes "i * 4 + 4 \<le> length b"
  shows "put_word b i w = take (i * 4) b @ bytes_of w @ drop (i * 4 + 4) b"
  using assms unfolding put_word_def put_word_bytes bytes_of_def
  by (intro nth_equalityI) (auto simp: nth_append nth_list_update nth_Cons')

lemma put_word_poke: "i * 4 + 4 \<le> length b \<Longrightarrow> put_word b i w = poke32 b i w"
  by (simp add: put_word_eq poke32_def mult.commute add.commute)

lemma addr_word_peek: "4 * i + 4 \<le> length b \<Longrightarrow> addr_word b i = peek32 b i"
  by (simp add: addr_word_bytes peek32_def)

text \<open>\<open>pton\<close> writes into any socket address the IP address that \<open>ntop\<close> read from another, for both
  versions of IP, and leaves the port.\<close>

theorem pton_ntop:
  assumes "sockaddr_ok a" "sockaddr_ok b" "length ip = 4" "sin_port b = sin_port a"
  shows "ipcmp (pton b (ntop a ip ver) ver) a ver"
proof (cases "AF_INET = ver")
  case True
  then show ?thesis using assms by (cases ip) (simp_all add: ipcmp_def pton_def ntop_def)
next
  case False
  let ?ip = "ntop a ip ver"
  have ip: "?ip ! 0 = peek32 (s6_addr a) 0" "?ip ! 1 = peek32 (s6_addr a) 1"
      "?ip ! 2 = peek32 (s6_addr a) 2" "?ip ! 3 = peek32 (s6_addr a) 3"
    using False assms(1,3) by (simp_all add: ntop_def addr_word_peek sockaddr_ok_def)
  have "s6_addr (pton b ?ip ver) = s6_addr a"
  proof (rule buffer_eqI [where n = 4])
    fix j :: nat assume "j < 4"
    then have "j = 0 \<or> j = 1 \<or> j = 2 \<or> j = 3" by auto
    then show "peek32 (s6_addr (pton b ?ip ver)) j = peek32 (s6_addr a) j"
      using False assms(2) ip by (auto simp: pton_def put_word_poke sockaddr_ok_def)
  qed (use False assms(1,2) in \<open>simp_all add: pton_def put_word_poke sockaddr_ok_def\<close>)
  moreover have "sin_port (pton b ?ip ver) = sin_port a" using assms(4) False by (simp add: pton_def)
  ultimately show ?thesis using False by (simp add: ipcmp_def list_all_iff)
qed

theorem pton_ntop_witness:
  "ipcmp (pton \<lparr>sin_port = 9, sin_addr = 0, s6_addr = replicate 16 0\<rparr>
     (ntop \<lparr>sin_port = 9, sin_addr = 7, s6_addr = replicate 16 1\<rparr> [0, 0, 0, 0] 10) 10)
     \<lparr>sin_port = 9, sin_addr = 7, s6_addr = replicate 16 1\<rparr> 10"
  by (rule pton_ntop) (simp_all add: sockaddr_ok_def)

end
