(* ===== verification/InfoCache.thy ===== *)
theory InfoCache imports Address Complex_Main begin

text \<open>
  The cache of connection parameters of earlier connections: \<open>CInfoBlock\<close> (\<open>cache.cpp\<close>) and the
  template \<open>CCache\<close> (\<open>cache.h\<close>) at \<open>CInfoBlock\<close>. An item on the heap is named by a number;
  \<open>cc_Items\<close> is undefined where the item has been deleted, and an operation that reads a deleted
  item yields \<open>None\<close>. A bucket holds iterators of the storage list, which are these numbers.
\<close>

section \<open>CInfoBlock\<close>

record CInfoBlock =
  ib_IP :: "uint32 list"
  ib_IPversion :: int
  ib_TimeStamp :: uint64
  ib_RTT :: int
  ib_Bandwidth :: int
  ib_LossRate :: int
  ib_ReorderDistance :: int
  ib_Interval :: real
  ib_CWnd :: real

text \<open>\<open>operator=\<close> and \<open>clone\<close> copy three of the four address words; the fourth is that of the
  target, for a clone what the fresh memory holds.\<close>

definition CInfoBlock_assign :: "CInfoBlock \<Rightarrow> CInfoBlock \<Rightarrow> CInfoBlock" where
  "CInfoBlock_assign this obj = obj\<lparr>ib_IP := take 3 (ib_IP obj) @ drop 3 (ib_IP this)\<rparr>"

definition CInfoBlock_eq :: "CInfoBlock \<Rightarrow> CInfoBlock \<Rightarrow> bool" where
  "CInfoBlock_eq this obj =
    (if ib_IPversion this \<noteq> ib_IPversion obj then False
     else if ib_IPversion this = AF_INET then ib_IP this ! 0 = ib_IP obj ! 0
     else list_all (\<lambda>i. ib_IP this ! i = ib_IP obj ! i) [0, 1, 2, 3])"

definition CInfoBlock_clone :: "uint32 \<Rightarrow> CInfoBlock \<Rightarrow> CInfoBlock" where
  "CInfoBlock_clone garbage this = this\<lparr>ib_IP := take 3 (ib_IP this) @ [garbage]\<rparr>"

definition CInfoBlock_getKey :: "CInfoBlock \<Rightarrow> int" where
  "CInfoBlock_getKey this =
    (if ib_IPversion this = AF_INET then sint (ib_IP this ! 0)
     else sint (ib_IP this ! 0 + ib_IP this ! 1 + ib_IP this ! 2 + ib_IP this ! 3))"

section \<open>CCache\<close>

record CCache =
  cc_Items :: "nat \<Rightarrow> CInfoBlock option"
  cc_Fresh :: nat
  cc_Storage :: "nat list"
  cc_Hash :: "nat list list"
  cc_MaxSize :: int
  cc_HashSize :: int
  cc_CurrSize :: int

definition CCache_new :: "int \<Rightarrow> CCache" where
  "CCache_new sz = \<lparr>cc_Items = (\<lambda>_. None), cc_Fresh = 0, cc_Storage = [],
     cc_Hash = replicate (nat (sz * 3)) [], cc_MaxSize = sz, cc_HashSize = sz * 3, cc_CurrSize = 0\<rparr>"

definition cache_slot :: "CCache \<Rightarrow> int \<Rightarrow> int" where
  "cache_slot c k = (if k \<ge> cc_MaxSize c then k smod cc_HashSize c else k)"

text \<open>The first iterator of a bucket whose item equals \<open>d\<close>: \<open>None\<close> when a deleted item is read.\<close>

fun find_item :: "(nat \<Rightarrow> CInfoBlock option) \<Rightarrow> CInfoBlock \<Rightarrow> nat list \<Rightarrow> nat option option" where
  "find_item items d [] = Some None"
| "find_item items d (i # is) =
     (case items i of None \<Rightarrow> None
      | Some b \<Rightarrow> if CInfoBlock_eq d b then Some (Some i) else find_item items d is)"

definition CCache_lookup :: "CInfoBlock \<Rightarrow> CCache \<Rightarrow> (int \<times> CInfoBlock) option" where
  "CCache_lookup d c =
    (let k = CInfoBlock_getKey d in
     if k < 0 then Some (-1, d)
     else
       case find_item (cc_Items c) d (aget (cc_Hash c) (cache_slot c k)) of
         None \<Rightarrow> None
       | Some None \<Rightarrow> Some (-1, d)
       | Some (Some i) \<Rightarrow> Some (0, CInfoBlock_assign d (the (cc_Items c i))))"

text \<open>Overflow: the oldest item is deleted. \<open>item_list\<close> is a reference to the bucket \<open>slot\<close> of the
  new item, so the assignment \<open>item_list = m_vHashPtr[last_key]\<close> overwrites that bucket.\<close>

definition cache_evict :: "int \<Rightarrow> CCache \<Rightarrow> CCache option" where
  "cache_evict slot c =
    (let last_id = last (cc_Storage c)
     in case cc_Items c last_id of None \<Rightarrow> None
        | Some last_data \<Rightarrow>
            let last_key = CInfoBlock_getKey last_data smod cc_HashSize c;
                c = c\<lparr>cc_Hash := aset (cc_Hash c) slot (aget (cc_Hash c) last_key)\<rparr>
            in case find_item (cc_Items c) last_data (aget (cc_Hash c) slot) of
                 None \<Rightarrow> None
               | Some r \<Rightarrow>
                   let c = (case r of None \<Rightarrow> c
                            | Some i \<Rightarrow> c\<lparr>cc_Hash := aset (cc_Hash c) slot (remove1 i (aget (cc_Hash c) slot))\<rparr>)
                   in Some (c\<lparr>cc_Items := (cc_Items c)(last_id := None), cc_Storage := butlast (cc_Storage c),
                              cc_CurrSize := cc_CurrSize c - 1\<rparr>))"

definition CCache_update :: "uint32 \<Rightarrow> CInfoBlock \<Rightarrow> CCache \<Rightarrow> (int \<times> CCache) option" where
  "CCache_update garbage d c =
    (let k = CInfoBlock_getKey d in
     if k < 0 then Some (-1, c)
     else
       let slot = cache_slot c k;
           bucket = aget (cc_Hash c) slot
       in case find_item (cc_Items c) d bucket of
            None \<Rightarrow> None
          | Some (Some i) \<Rightarrow>
              Some (0, c\<lparr>cc_Items := (cc_Items c)(i \<mapsto> CInfoBlock_assign (the (cc_Items c i)) d),
                         cc_Storage := i # remove1 i (cc_Storage c),
                         cc_Hash := aset (cc_Hash c) slot (i # remove1 i bucket)\<rparr>)
          | Some None \<Rightarrow>
              let i = cc_Fresh c;
                  c = c\<lparr>cc_Items := (cc_Items c)(i \<mapsto> CInfoBlock_clone garbage d), cc_Fresh := Suc i,
                        cc_Storage := i # cc_Storage c, cc_Hash := aset (cc_Hash c) slot (i # bucket),
                        cc_CurrSize := cc_CurrSize c + 1\<rparr>
              in if cc_CurrSize c \<ge> cc_MaxSize c
                 then map_option (Pair 0) (cache_evict slot c) else Some (0, c))"

text \<open>\<open>resize\<close> keeps the buckets that still fit.\<close>

definition CCache_setSizeLimit :: "int \<Rightarrow> CCache \<Rightarrow> CCache" where
  "CCache_setSizeLimit sz c = c\<lparr>cc_MaxSize := sz, cc_HashSize := sz * 3,
     cc_Hash := take (nat (sz * 3)) (cc_Hash c) @ replicate (nat (sz * 3) - length (cc_Hash c)) []\<rparr>"

definition CCache_clear :: "CCache \<Rightarrow> CCache" where
  "CCache_clear c = c\<lparr>cc_Items := (\<lambda>i. if i \<in> set (cc_Storage c) then None else cc_Items c i),
     cc_Storage := [], cc_Hash := map (\<lambda>_. []) (cc_Hash c), cc_CurrSize := 0\<rparr>"

section \<open>Below the size limit the cache remembers\<close>

text \<open>Every iterator leads to an item.\<close>

definition cache_ok :: "CCache \<Rightarrow> bool" where
  "cache_ok c \<longleftrightarrow> 0 < cc_MaxSize c \<and> cc_HashSize c = cc_MaxSize c * 3 \<and>
     length (cc_Hash c) = nat (cc_HashSize c) \<and>
     (\<forall>b\<in>set (cc_Hash c). \<forall>i\<in>set b. cc_Items c i \<noteq> None \<and> i < cc_Fresh c)"

lemma find_item_some:
  "\<forall>i\<in>set is. items i \<noteq> None \<Longrightarrow> \<exists>r. find_item items d is = Some r \<and>
     (\<forall>i. r = Some i \<longrightarrow> i \<in> set is \<and> CInfoBlock_eq d (the (items i)))"
  by (induction "is") auto

lemma cache_slot_inb:
  assumes "cache_ok c" "0 \<le> k"
  shows "inb (cc_Hash c) (cache_slot c k)"
proof -
  have "k mod cc_HashSize c < cc_HashSize c" "0 \<le> k mod cc_HashSize c"
    using assms by (auto simp: cache_ok_def)
  then show ?thesis
    using assms by (auto simp: cache_slot_def inb_def cache_ok_def)
qed

text \<open>In a cache that is not full, updating an IPv4 entry and looking its address up finds the
  entry, with the values just stored, and every iterator still leads to an item.\<close>

theorem cache_remembers:
  assumes ok: "cache_ok c" and room: "cc_CurrSize c + 1 < cc_MaxSize c"
    and d: "ib_IPversion d = AF_INET" "length (ib_IP d) = 4" "0 \<le> CInfoBlock_getKey d"
    and q: "ib_IPversion q = AF_INET" "length (ib_IP q) = 4" "ib_IP q ! 0 = ib_IP d ! 0"
  shows "\<exists>c'. CCache_update g d c = Some (0, c') \<and> cache_ok c' \<and>
    (\<exists>q'. CCache_lookup q c' = Some (0, q') \<and> ib_RTT q' = ib_RTT d \<and> ib_Bandwidth q' = ib_Bandwidth d \<and>
       ib_TimeStamp q' = ib_TimeStamp d \<and> ib_LossRate q' = ib_LossRate d \<and>
       ib_ReorderDistance q' = ib_ReorderDistance d \<and> ib_Interval q' = ib_Interval d \<and> ib_CWnd q' = ib_CWnd d)"
proof -
  let ?k = "CInfoBlock_getKey d"
  let ?s = "cache_slot c ?k"
  let ?b = "aget (cc_Hash c) ?s"
  have key: "CInfoBlock_getKey q = ?k" using d q by (simp add: CInfoBlock_getKey_def)
  have inr: "inb (cc_Hash c) ?s" using cache_slot_inb [OF ok d(3)] .
  have bin: "?b \<in> set (cc_Hash c)" using inr by (rule aget_in_set)
  then have live: "\<forall>i\<in>set ?b. cc_Items c i \<noteq> None \<and> i < cc_Fresh c" using ok by (simp add: cache_ok_def)
  obtain r where r: "find_item (cc_Items c) d ?b = Some r"
      "\<forall>i. r = Some i \<longrightarrow> i \<in> set ?b \<and> CInfoBlock_eq d (the (cc_Items c i))"
    using find_item_some [of ?b "cc_Items c" d] live by auto
  define i where "i = (case r of None \<Rightarrow> cc_Fresh c | Some i \<Rightarrow> i)"
  define b where "b = (case r of None \<Rightarrow> CInfoBlock_clone g d | Some i \<Rightarrow> CInfoBlock_assign (the (cc_Items c i)) d)"
  obtain c' where c': "CCache_update g d c = Some (0, c')" "cc_Items c' = (cc_Items c)(i \<mapsto> b)"
    "cc_Hash c' = aset (cc_Hash c) ?s (i # (case r of None \<Rightarrow> ?b | Some i \<Rightarrow> remove1 i ?b))"
    "cc_MaxSize c' = cc_MaxSize c" "cc_HashSize c' = cc_HashSize c" "cc_Fresh c \<le> cc_Fresh c'" "i < cc_Fresh c'"
  proof (cases r)
    case None
    then show ?thesis
      using that [of "snd (the (CCache_update g d c))"] r(1) d(3) room
      by (simp add: CCache_update_def Let_def i_def b_def)
  next
    case (Some j)
    then show ?thesis
      using that [of "snd (the (CCache_update g d c))"] r d(3) live
      by (simp add: CCache_update_def Let_def i_def b_def)
  qed
  have slot': "cache_slot c' ?k = ?s" using c' by (simp add: cache_slot_def)
  have eq: "CInfoBlock_eq q b"
    using d q by (auto simp: CInfoBlock_eq_def b_def CInfoBlock_clone_def CInfoBlock_assign_def nth_append split: option.splits)
  have "CCache_lookup q c' = Some (0, CInfoBlock_assign q b)"
    using d(3) key inr eq by (simp add: CCache_lookup_def Let_def slot' c'(2,3))
  moreover have "ib_RTT b = ib_RTT d \<and> ib_Bandwidth b = ib_Bandwidth d \<and> ib_TimeStamp b = ib_TimeStamp d \<and>
      ib_LossRate b = ib_LossRate d \<and> ib_ReorderDistance b = ib_ReorderDistance d \<and>
      ib_Interval b = ib_Interval d \<and> ib_CWnd b = ib_CWnd d"
    by (simp add: b_def CInfoBlock_clone_def CInfoBlock_assign_def split: option.splits)
  moreover have "cache_ok c'"
  proof -
    have "cc_Items c' j \<noteq> None \<and> j < cc_Fresh c'" if "bb \<in> set (cc_Hash c')" "j \<in> set bb" for bb j
    proof -
      have "bb \<in> set (cc_Hash c) \<or> bb = i # (case r of None \<Rightarrow> ?b | Some i \<Rightarrow> remove1 i ?b)"
        using that(1) set_update_subset_insert [of "cc_Hash c" "nat ?s"] unfolding c'(3) aset_def by blast
      then have "j = i \<or> (\<exists>b'\<in>set (cc_Hash c). j \<in> set b')"
        using that(2) bin by (auto split: option.splits dest: notin_set_remove1 [rotated])
      then show ?thesis
        using ok c'(2,6,7) unfolding cache_ok_def by fastforce
    qed
    then show ?thesis using ok c' by (auto simp: cache_ok_def)
  qed
  ultimately show ?thesis using c'(1) by (auto simp: CInfoBlock_assign_def)
qed

definition example_block :: "uint32 \<Rightarrow> int \<Rightarrow> CInfoBlock" where
  "example_block ip rtt = \<lparr>ib_IP = [ip, 0, 0, 0], ib_IPversion = AF_INET, ib_TimeStamp = 0, ib_RTT = rtt,
     ib_Bandwidth = 1, ib_LossRate = 0, ib_ReorderDistance = 0, ib_Interval = 1, ib_CWnd = 16\<rparr>"

lemmas cache_simps = CCache_update_def CCache_lookup_def CCache_new_def cache_slot_def cache_evict_def
  CInfoBlock_getKey_def CInfoBlock_eq_def CInfoBlock_clone_def CInfoBlock_assign_def example_block_def
  Let_def aget_def aset_def AF_INET_def

theorem cache_remembers_witness:
  "\<exists>c' q'. CCache_update 0 (example_block 1 77) (CCache_new 8) = Some (0, c') \<and>
     CCache_lookup (example_block 1 0) c' = Some (0, q') \<and> ib_RTT q' = 77"
proof -
  have "cache_ok (CCache_new 8)" by (auto simp: cache_ok_def CCache_new_def)
  from cache_remembers [OF this, of "example_block 1 77" "example_block 1 0" 0] show ?thesis
    by (simp add: CCache_new_def CInfoBlock_getKey_def example_block_def) blast
qed

text \<open>When the cache overflows, the bucket of the new entry is overwritten by the bucket of the
  oldest one: the entry just stored is lost, and the oldest entry's bucket keeps an iterator to
  the deleted item, which the next lookup of that address reads.\<close>

theorem overflow_loses_the_new_entry:
  "\<exists>c1 c2. CCache_update 0 (example_block 0 5) (CCache_new 2) = Some (0, c1) \<and>
     CCache_update 0 (example_block 1 6) c1 = Some (0, c2) \<and>
     CCache_lookup (example_block 1 0) c2 = Some (-1, example_block 1 0) \<and>
     CCache_lookup (example_block 0 0) c2 = None"
  by (simp add: cache_simps numeral_eq_Suc)

end
