(* ===== verification/RcvUList.thy ===== *)
theory RcvUList imports Prelude begin

text \<open>
  The list of connected sockets of a receiving queue, class \<open>CRcvUList\<close> (\<open>queue.h\<close>, \<open>queue.cpp\<close>):
  a doubly linked list, the socket heard of longest ago first. A socket is an \<open>int\<close>, its
  \<open>CRNode\<close> is found through \<open>ru_Node\<close>, and a null pointer is \<open>None\<close>. \<open>now\<close> is what \<open>rdtsc\<close>
  reads.
\<close>

type_synonym rsock = int

record CRNode =
  rn_TimeStamp :: uint64
  rn_Prev :: "rsock option"
  rn_Next :: "rsock option"
  rn_OnList :: bool

record CRcvUList =
  ru_Node :: "rsock \<Rightarrow> CRNode"
  ru_First :: "rsock option"
  ru_Last :: "rsock option"

definition CRcvUList_new :: CRcvUList where
  "CRcvUList_new = \<lparr>ru_Node = (\<lambda>_. \<lparr>rn_TimeStamp = 1, rn_Prev = None, rn_Next = None, rn_OnList = False\<rparr>),
     ru_First = None, ru_Last = None\<rparr>"

definition upd_node :: "rsock \<Rightarrow> (CRNode \<Rightarrow> CRNode) \<Rightarrow> CRcvUList \<Rightarrow> CRcvUList" where
  "upd_node u f l = l\<lparr>ru_Node := (ru_Node l)(u := f (ru_Node l u))\<rparr>"

definition set_rnext :: "rsock \<Rightarrow> rsock option \<Rightarrow> CRcvUList \<Rightarrow> CRcvUList" where
  "set_rnext u v = upd_node u (\<lambda>n. n\<lparr>rn_Next := v\<rparr>)"

definition set_rprev :: "rsock \<Rightarrow> rsock option \<Rightarrow> CRcvUList \<Rightarrow> CRcvUList" where
  "set_rprev u v = upd_node u (\<lambda>n. n\<lparr>rn_Prev := v\<rparr>)"

definition set_rtime :: "rsock \<Rightarrow> uint64 \<Rightarrow> CRcvUList \<Rightarrow> CRcvUList" where
  "set_rtime u t = upd_node u (\<lambda>n. n\<lparr>rn_TimeStamp := t\<rparr>)"

definition set_on_list :: "rsock \<Rightarrow> bool \<Rightarrow> CRcvUList \<Rightarrow> CRcvUList" where
  "set_on_list u b = upd_node u (\<lambda>n. n\<lparr>rn_OnList := b\<rparr>)"

text \<open>\<open>m_pLast\<close> is not null when \<open>m_pUList\<close> is not: the pointer is followed by \<open>the\<close>.\<close>

definition append_node :: "rsock \<Rightarrow> CRcvUList \<Rightarrow> CRcvUList" where
  "append_node u l =
    (let l = set_rprev u (ru_Last l) l;
         l = set_rnext u None l;
         l = set_rnext (the (ru_Last l)) (Some u) l
     in l\<lparr>ru_Last := Some u\<rparr>)"

definition CRcvUList_insert :: "uint64 \<Rightarrow> rsock \<Rightarrow> CRcvUList \<Rightarrow> CRcvUList" where
  "CRcvUList_insert now u l =
    (let l = set_rtime u now l
     in if None = ru_First l then
          let l = set_rnext u None l;
              l = set_rprev u None l
          in l\<lparr>ru_First := Some u, ru_Last := Some u\<rparr>
        else append_node u l)"

definition CRcvUList_remove :: "rsock \<Rightarrow> CRcvUList \<Rightarrow> CRcvUList" where
  "CRcvUList_remove u l =
    (let n = ru_Node l u in
     if \<not> rn_OnList n then l
     else
       let l = (case rn_Prev n of
                  None \<Rightarrow>
                    let l = l\<lparr>ru_First := rn_Next n\<rparr>
                    in (case ru_First l of None \<Rightarrow> l\<lparr>ru_Last := None\<rparr> | Some f \<Rightarrow> set_rprev f None l)
                | Some p \<Rightarrow>
                    let l = set_rnext p (rn_Next n) l
                    in (case rn_Next n of None \<Rightarrow> l\<lparr>ru_Last := rn_Prev n\<rparr> | Some x \<Rightarrow> set_rprev x (rn_Prev n) l))
       in set_rprev u None (set_rnext u None l))"

definition CRcvUList_update :: "uint64 \<Rightarrow> rsock \<Rightarrow> CRcvUList \<Rightarrow> CRcvUList" where
  "CRcvUList_update now u l =
    (if \<not> rn_OnList (ru_Node l u) then l
     else
       let l = set_rtime u now l;
           n = ru_Node l u
       in case rn_Next n of
            None \<Rightarrow> l
          | Some x \<Rightarrow>
              let l = (case rn_Prev n of
                         None \<Rightarrow> set_rprev x None (l\<lparr>ru_First := Some x\<rparr>)
                       | Some p \<Rightarrow> set_rprev x (rn_Prev n) (set_rnext p (rn_Next n) l))
              in append_node u l)"

section \<open>The list in the nodes\<close>

definition first_or :: "rsock list \<Rightarrow> rsock option \<Rightarrow> rsock option" where
  "first_or xs q = (case xs of [] \<Rightarrow> q | x # _ \<Rightarrow> Some x)"

definition last_or :: "rsock list \<Rightarrow> rsock option \<Rightarrow> rsock option" where
  "last_or xs p = (if xs = [] then p else Some (last xs))"

text \<open>\<open>dll N p xs q\<close>: the nodes \<open>xs\<close> are linked both ways, with \<open>p\<close> before and \<open>q\<close> behind them.\<close>

fun dll :: "(rsock \<Rightarrow> CRNode) \<Rightarrow> rsock option \<Rightarrow> rsock list \<Rightarrow> rsock option \<Rightarrow> bool" where
  "dll N p [] q \<longleftrightarrow> True"
| "dll N p (x # xs) q \<longleftrightarrow>
     rn_Prev (N x) = p \<and> rn_Next (N x) = first_or xs q \<and> dll N (Some x) xs q"

definition ru_list :: "CRcvUList \<Rightarrow> rsock list \<Rightarrow> bool" where
  "ru_list l xs \<longleftrightarrow> distinct xs \<and> dll (ru_Node l) None xs None \<and>
     ru_First l = first_or xs None \<and> ru_Last l = last_or xs None"

lemma first_or_simps [simp]:
  "first_or [] q = q" "first_or (x # xs) q = Some x"
  "first_or (xs @ ys) q = first_or xs (first_or ys q)"
  by (auto simp: first_or_def split: list.splits)

lemma last_or_simps [simp]:
  "last_or [] p = p" "last_or (x # xs) p = last_or xs (Some x)"
  "last_or (xs @ ys) p = last_or ys (last_or xs p)"
  by (auto simp: last_or_def)

lemma first_or_nonempty: "xs \<noteq> [] \<Longrightarrow> first_or xs p = first_or xs q"
  by (cases xs) auto

lemma dll_append: "dll N p (xs @ ys) q \<longleftrightarrow> dll N p xs (first_or ys q) \<and> dll N (last_or xs p) ys q"
  by (induction xs arbitrary: p) auto

lemma dll_cong: "(\<And>x. x \<in> set xs \<Longrightarrow> rn_Prev (N' x) = rn_Prev (N x) \<and> rn_Next (N' x) = rn_Next (N x)) \<Longrightarrow>
    dll N' p xs q = dll N p xs q"
  by (induction xs arbitrary: p) auto

lemma dll_other [simp]: "u \<notin> set xs \<Longrightarrow> dll (N(u := n)) p xs q = dll N p xs q"
  by (rule dll_cong) auto

lemma dll_time [simp]: "dll (N(u := (N u)\<lparr>rn_TimeStamp := t\<rparr>)) p xs q = dll N p xs q"
  by (rule dll_cong) auto

text \<open>Changing what lies behind a list or before it is one write.\<close>

lemma dll_snoc_link:
  "distinct xs \<Longrightarrow> dll N p xs q \<Longrightarrow> last_or xs None = Some z \<Longrightarrow>
     dll (N(z := (N z)\<lparr>rn_Next := q'\<rparr>)) p xs q'"
proof (cases xs rule: rev_cases)
  case (snoc ys y)
  then show "distinct xs \<Longrightarrow> dll N p xs q \<Longrightarrow> last_or xs None = Some z \<Longrightarrow> ?thesis"
    by (auto simp: dll_append)
qed simp

lemma dll_cons_link:
  "distinct xs \<Longrightarrow> dll N p xs q \<Longrightarrow> first_or xs None = Some z \<Longrightarrow>
     dll (N(z := (N z)\<lparr>rn_Prev := p'\<rparr>)) p' xs q"
  by (cases xs) auto

lemmas ru_setters = upd_node_def set_rnext_def set_rprev_def set_rtime_def set_on_list_def

lemma append_node_list:
  assumes l: "distinct xs" "u \<notin> set xs" "xs \<noteq> []" "dll (ru_Node l) None xs q" "ru_First l = first_or xs None"
    "ru_Last l = last_or xs None"
  shows "ru_list (append_node u l) (xs @ [u])"
proof -
  obtain z where z: "last_or xs None = Some z" "z \<in> set xs" using l(3) by (auto simp: last_or_def)
  let ?N = "(ru_Node l)(u := (ru_Node l u)\<lparr>rn_Next := None, rn_Prev := Some z\<rparr>)"
  have "dll ?N None xs q" using l by simp
  then have "dll (?N(z := (?N z)\<lparr>rn_Next := Some u\<rparr>)) None xs (Some u)"
    using dll_snoc_link [OF l(1) _ z(1)] by blast
  moreover have "ru_Node (append_node u l) = ?N(z := (?N z)\<lparr>rn_Next := Some u\<rparr>)"
    using l z by (auto simp: append_node_def ru_setters Let_def fun_eq_iff)
  ultimately show ?thesis
    using l z first_or_nonempty [OF l(3), of None "Some u"] unfolding ru_list_def
    by (auto simp: dll_append append_node_def ru_setters Let_def last_or_def split: if_splits)
qed

section \<open>The operations on the list\<close>

lemma insert_list: "ru_list l xs \<Longrightarrow> u \<notin> set xs \<Longrightarrow> ru_list (CRcvUList_insert now u l) (xs @ [u])"
proof (cases "xs = []")
  case True
  then show "ru_list l xs \<Longrightarrow> ?thesis"
    by (auto simp: ru_list_def CRcvUList_insert_def ru_setters Let_def last_or_def)
next
  case False
  assume l: "ru_list l xs" "u \<notin> set xs"
  then obtain f where "ru_First (set_rtime u now l) = Some f"
    using False by (auto simp: ru_list_def first_or_def ru_setters split: list.splits)
  then have "CRcvUList_insert now u l = append_node u (set_rtime u now l)"
    by (simp add: CRcvUList_insert_def Let_def)
  then show ?thesis
    using l False append_node_list [of xs u "set_rtime u now l" None]
    by (simp add: ru_list_def ru_setters)
qed

text \<open>A node in the middle, seen from both sides.\<close>

lemma ru_list_split:
  assumes "ru_list l (as @ u # bs)"
  shows "distinct (as @ bs)" "u \<notin> set as" "u \<notin> set bs" "rn_Prev (ru_Node l u) = last_or as None"
    "rn_Next (ru_Node l u) = first_or bs None" "dll (ru_Node l) None as (Some u)"
    "dll (ru_Node l) (Some u) bs None" "ru_First l = first_or as (Some u)" "ru_Last l = last_or bs (Some u)"
  using assms by (auto simp: ru_list_def dll_append)

lemma last_or_in: "last_or as None = Some z \<Longrightarrow> z \<in> set as"
  by (auto simp: last_or_def split: if_splits)

lemma first_or_in: "first_or as None = Some z \<Longrightarrow> z \<in> set as"
  by (auto simp: first_or_def split: list.splits)

text \<open>Unlinking \<open>u\<close>: the neighbours point past it.\<close>

lemma unlink_dll:
  assumes l: "ru_list l (as @ u # bs)"
    and N1: "N1 = (case last_or as None of None \<Rightarrow> ru_Node l
        | Some p \<Rightarrow> (ru_Node l)(p := (ru_Node l p)\<lparr>rn_Next := first_or bs None\<rparr>))"
    and N2: "N2 = (case first_or bs None of None \<Rightarrow> N1
        | Some x \<Rightarrow> N1(x := (N1 x)\<lparr>rn_Prev := last_or as None\<rparr>))"
  shows "dll N2 None (as @ bs) None"
proof -
  note s = ru_list_split [OF l]
  have a: "dll N1 None as (first_or bs None)"
  proof (cases "as = []")
    case False
    then obtain p where p: "last_or as None = Some p" by (auto simp: last_or_def)
    show ?thesis using dll_snoc_link [OF _ s(6) p] s(1) p by (simp add: N1)
  qed simp
  have b: "dll N1 (Some u) bs None"
  proof (cases "last_or as None")
    case (Some p)
    then have "p \<notin> set bs" using last_or_in s(1) by auto
    then show ?thesis using s(7) Some by (simp add: N1)
  qed (use s(7) N1 in simp)
  show ?thesis
  proof (cases "first_or bs None")
    case None
    then have "bs = []" by (cases bs) auto
    then show ?thesis using a None by (simp add: N2)
  next
    case (Some x)
    then have "x \<notin> set as" using first_or_in s(1) by auto
    then show ?thesis
      using a dll_cons_link [OF _ b Some] s(1) Some by (simp add: N2 dll_append)
  qed
qed

lemma remove_list:
  assumes l: "ru_list l (as @ u # bs)" and on: "rn_OnList (ru_Node l u)"
  shows "ru_list (CRcvUList_remove u l) (as @ bs)"
proof -
  note s = ru_list_split [OF l]
  define N1 where "N1 = (case last_or as None of None \<Rightarrow> ru_Node l
        | Some p \<Rightarrow> (ru_Node l)(p := (ru_Node l p)\<lparr>rn_Next := first_or bs None\<rparr>))"
  define N2 where "N2 = (case first_or bs None of None \<Rightarrow> N1
        | Some x \<Rightarrow> N1(x := (N1 x)\<lparr>rn_Prev := last_or as None\<rparr>))"
  have dll: "dll N2 None (as @ bs) None" using unlink_dll [OF l N1_def N2_def] .
  have "ru_Node (CRcvUList_remove u l) = N2(u := (N2 u)\<lparr>rn_Next := None, rn_Prev := None\<rparr>)"
    using on s(4,5) by (auto simp: CRcvUList_remove_def Let_def ru_setters N1_def N2_def split: option.splits)
  moreover have "ru_First (CRcvUList_remove u l) = first_or as (first_or bs None)"
    using on s(4,5,8)
    by (cases as) (auto simp: CRcvUList_remove_def Let_def ru_setters last_or_def split: option.splits)
  moreover have "ru_Last (CRcvUList_remove u l) = last_or bs (last_or as None)"
    using on s(4,5,9)
    by (cases bs) (auto simp: CRcvUList_remove_def Let_def ru_setters last_or_def split: option.splits)
  ultimately show ?thesis using dll s(1,2,3) by (simp add: ru_list_def)
qed

lemma update_list:
  assumes l: "ru_list l (as @ u # bs)" and on: "rn_OnList (ru_Node l u)"
  shows "ru_list (CRcvUList_update now u l) (as @ bs @ [u])"
proof -
  have l': "ru_list (set_rtime u now l) (as @ u # bs)" using l by (simp add: ru_list_def ru_setters)
  let ?l = "set_rtime u now l"
  note s = ru_list_split [OF l']
  show ?thesis
  proof (cases "first_or bs None")
    case None
    then have "bs = []" by (cases bs) auto
    moreover have "CRcvUList_update now u l = ?l"
      using on s(5) None by (simp add: CRcvUList_update_def Let_def)
    ultimately show ?thesis using l' by simp
  next
    case (Some x)
    define N1 where "N1 = (case last_or as None of None \<Rightarrow> ru_Node ?l
          | Some p \<Rightarrow> (ru_Node ?l)(p := (ru_Node ?l p)\<lparr>rn_Next := first_or bs None\<rparr>))"
    define N2 where "N2 = (case first_or bs None of None \<Rightarrow> N1
          | Some x \<Rightarrow> N1(x := (N1 x)\<lparr>rn_Prev := last_or as None\<rparr>))"
    have dll: "dll N2 None (as @ bs) None" using unlink_dll [OF l' N1_def N2_def] .
    define l2 where "l2 = (case rn_Prev (ru_Node ?l u) of
        None \<Rightarrow> set_rprev x None (?l\<lparr>ru_First := Some x\<rparr>)
      | Some p \<Rightarrow> set_rprev x (rn_Prev (ru_Node ?l u)) (set_rnext p (rn_Next (ru_Node ?l u)) ?l))"
    have up: "CRcvUList_update now u l = append_node u l2"
      using on s(5) Some by (simp add: CRcvUList_update_def Let_def l2_def)
    have n2: "ru_Node l2 = N2"
      using s(4,5) Some by (auto simp: l2_def ru_setters N1_def N2_def split: option.splits)
    have f2: "ru_First l2 = first_or (as @ bs) None"
      using s(4,5,8) Some by (cases as) (auto simp: l2_def ru_setters last_or_def split: option.splits)
    have ne: "bs \<noteq> []" using Some by auto
    have "ru_Last ?l = last_or (as @ bs) None" using s(9) ne by (simp add: last_or_def)
    then have "ru_Last l2 = last_or (as @ bs) None"
      by (simp add: l2_def ru_setters split: option.splits)
    then show ?thesis
      using append_node_list [of "as @ bs" u l2 None] s(1,2,3) ne dll n2 f2 unfolding up by simp
  qed
qed

section \<open>The order of the list\<close>

text \<open>The worker stops at the first socket it has heard of recently. That is right because the
  list is sorted by time, which \<open>insert\<close> and \<open>update\<close> keep as long as the clock does not run
  backwards.\<close>

definition ru_sorted :: "CRcvUList \<Rightarrow> rsock list \<Rightarrow> bool" where
  "ru_sorted l xs \<longleftrightarrow> sorted (map (\<lambda>u. rn_TimeStamp (ru_Node l u)) xs)"

lemma time_after:
  "rn_TimeStamp (ru_Node (CRcvUList_insert now u l) v) = (if v = u then now else rn_TimeStamp (ru_Node l v))"
  "rn_OnList (ru_Node l u) \<Longrightarrow>
     rn_TimeStamp (ru_Node (CRcvUList_update now u l) v) = (if v = u then now else rn_TimeStamp (ru_Node l v))"
  "rn_TimeStamp (ru_Node (CRcvUList_remove u l) v) = rn_TimeStamp (ru_Node l v)"
  by (auto simp: CRcvUList_insert_def CRcvUList_update_def CRcvUList_remove_def append_node_def ru_setters
      Let_def split: option.splits)

text \<open>Hearing from a socket moves it to the end of the list with the current time; the list stays
  doubly linked and sorted by time, the others keep their order.\<close>

theorem update_moves_to_end:
  assumes "ru_list l (as @ u # bs)" "ru_sorted l (as @ u # bs)" "rn_OnList (ru_Node l u)"
    and "\<forall>v\<in>set (as @ bs). rn_TimeStamp (ru_Node l v) \<le> now"
  shows "ru_list (CRcvUList_update now u l) (as @ bs @ [u]) \<and> ru_sorted (CRcvUList_update now u l) (as @ bs @ [u])"
proof -
  note s = ru_list_split [OF assms(1)]
  have "map (\<lambda>v. rn_TimeStamp (ru_Node (CRcvUList_update now u l) v)) (as @ bs @ [u]) =
      map (\<lambda>v. rn_TimeStamp (ru_Node l v)) (as @ bs) @ [now]"
    using s(2,3) time_after(2) [OF assms(3)] by auto
  moreover have "sorted (map (\<lambda>v. rn_TimeStamp (ru_Node l v)) (as @ bs) @ [now])"
    using assms(2,4) by (auto simp: ru_sorted_def sorted_append)
  ultimately have "ru_sorted (CRcvUList_update now u l) (as @ bs @ [u])"
    unfolding ru_sorted_def by (simp only:)
  then show ?thesis using update_list [OF assms(1,3), of now] by simp
qed

theorem update_moves_to_end_witness:
  "\<exists>l. ru_list l [3, 4] \<and> ru_list (CRcvUList_update 9 3 l) [4, 3]"
proof -
  let ?l = "set_on_list 3 True (CRcvUList_insert 6 4 (CRcvUList_insert 5 3 CRcvUList_new))"
  have "ru_list ?l ([] @ 3 # [4])" "ru_sorted ?l ([] @ 3 # [4])" "rn_OnList (ru_Node ?l 3)"
    "\<forall>v\<in>set ([] @ [4]). rn_TimeStamp (ru_Node ?l v) \<le> 9"
    by (simp_all add: ru_list_def ru_sorted_def CRcvUList_insert_def CRcvUList_new_def append_node_def
        ru_setters Let_def last_or_def)
  from update_moves_to_end [OF this] this(1) show ?thesis by auto
qed

end
