(* ===== verification/RcvTables.thy ===== *)
theory RcvTables imports Address Packet begin

text \<open>
  Where the receiving queue finds the socket of a packet: the hash table \<open>CHash\<close> of connected
  sockets and the list \<open>CRendezvousQueue\<close> of sockets that are still connecting (\<open>queue.h\<close>,
  \<open>queue.cpp\<close>). A \<open>CUDT*\<close> is an \<open>int\<close>. The locale \<open>socket_table\<close> is what the worker relies on.
\<close>

section \<open>CHash\<close>

record CHash =
  h_Bucket :: "(int32 \<times> int) list list"
  h_HashSize :: int

definition CHash_init :: "int \<Rightarrow> CHash" where
  "CHash_init sz = \<lparr>h_Bucket = replicate (nat sz) [], h_HashSize = sz\<rparr>"

definition h_slot :: "int32 \<Rightarrow> CHash \<Rightarrow> int" where
  "h_slot i h = i smod h_HashSize h"

fun bucket_lookup :: "int32 \<Rightarrow> (int32 \<times> int) list \<Rightarrow> int option" where
  "bucket_lookup i [] = None"
| "bucket_lookup i ((j, u) # b) = (if i = j then Some u else bucket_lookup i b)"

definition CHash_lookup :: "int32 \<Rightarrow> CHash \<Rightarrow> int option" where
  "CHash_lookup i h = bucket_lookup i (aget (h_Bucket h) (h_slot i h))"

definition CHash_insert :: "int32 \<Rightarrow> int \<Rightarrow> CHash \<Rightarrow> CHash" where
  "CHash_insert i u h =
    h\<lparr>h_Bucket := aset (h_Bucket h) (h_slot i h) ((i, u) # aget (h_Bucket h) (h_slot i h))\<rparr>"

fun bucket_remove :: "int32 \<Rightarrow> (int32 \<times> int) list \<Rightarrow> (int32 \<times> int) list" where
  "bucket_remove i [] = []"
| "bucket_remove i ((j, u) # b) = (if i = j then b else (j, u) # bucket_remove i b)"

definition CHash_remove :: "int32 \<Rightarrow> CHash \<Rightarrow> CHash" where
  "CHash_remove i h =
    h\<lparr>h_Bucket := aset (h_Bucket h) (h_slot i h) (bucket_remove i (aget (h_Bucket h) (h_slot i h)))\<rparr>"

section \<open>CRendezvousQueue\<close>

record CRL =
  r_ID :: int32
  r_UDT :: int
  r_IPversion :: int
  r_Peer :: sockaddr
  r_TTL :: uint64

definition CRendezvousQueue_insert ::
    "int32 \<Rightarrow> int \<Rightarrow> int \<Rightarrow> sockaddr \<Rightarrow> uint64 \<Rightarrow> CRL list \<Rightarrow> CRL list" where
  "CRendezvousQueue_insert i u ipv addr ttl rs =
    rs @ [\<lparr>r_ID = i, r_UDT = u, r_IPversion = ipv, r_Peer = addr, r_TTL = ttl\<rparr>]"

fun CRendezvousQueue_remove :: "int32 \<Rightarrow> CRL list \<Rightarrow> CRL list" where
  "CRendezvousQueue_remove i [] = []"
| "CRendezvousQueue_remove i (r # rs) = (if r_ID r = i then rs else r # CRendezvousQueue_remove i rs)"

text \<open>\<open>id\<close> is read and written; the result is the socket and the id.\<close>

fun CRendezvousQueue_retrieve :: "sockaddr \<Rightarrow> int32 \<Rightarrow> CRL list \<Rightarrow> int option \<times> int32" where
  "CRendezvousQueue_retrieve addr i [] = (None, i)"
| "CRendezvousQueue_retrieve addr i (r # rs) =
     (if ipcmp addr (r_Peer r) (r_IPversion r) \<and> (0 = i \<or> i = r_ID r) then (Some (r_UDT r), r_ID r)
      else CRendezvousQueue_retrieve addr i rs)"

text \<open>What \<open>updateConnStatus\<close> reads and writes of a connecting socket, what it sends and which
  sockets it reports to the epoll.\<close>

record connecting =
  cv_LastReqTime :: uint64
  cv_Connecting :: bool
  cv_PayloadSize :: int
  cv_Rendezvous :: bool
  cv_ResID :: int32
  cv_ConnReq :: CHandShake

record conn_status =
  cs_View :: "int \<Rightarrow> connecting"
  cs_Sent :: "(sockaddr \<times> CPacket) list"
  cs_Epoll :: "int32 list"

definition conn_request :: "connecting \<Rightarrow> CPacket" where
  "conn_request v =
    (let sz = cv_PayloadSize v;
         (r, reqdata, hs_size) = serialize (cv_ConnReq v) (replicate (nat sz) 0) sz;
         p = the (pack 0 None (Some reqdata) sz CPacket_new);
         p = set_m_iID (if \<not> cv_Rendezvous v then 0 else cv_ResID v) p
     in setLength hs_size p)"

definition conn_step :: "uint64 \<Rightarrow> CRL \<Rightarrow> conn_status \<Rightarrow> conn_status" where
  "conn_step now r s =
    (let v = cs_View s (r_UDT r) in
     if now - cv_LastReqTime v > 250000 then
       if now \<ge> r_TTL r then
         s\<lparr>cs_View := (cs_View s)(r_UDT r := v\<lparr>cv_Connecting := False\<rparr>), cs_Epoll := r_ID r # cs_Epoll s\<rparr>
       else
         s\<lparr>cs_View := (cs_View s)(r_UDT r := v\<lparr>cv_LastReqTime := now\<rparr>),
           cs_Sent := (r_Peer r, conn_request v) # cs_Sent s\<rparr>
     else s)"

definition CRendezvousQueue_updateConnStatus :: "uint64 \<Rightarrow> CRL list \<Rightarrow> conn_status \<Rightarrow> conn_status" where
  "CRendezvousQueue_updateConnStatus now rs s = fold (conn_step now) rs s"

section \<open>The table the worker relies on\<close>

locale socket_table =
  fixes ok :: "'t \<Rightarrow> bool"
    and look :: "int32 \<Rightarrow> 't \<Rightarrow> int option"
    and put :: "int32 \<Rightarrow> int \<Rightarrow> 't \<Rightarrow> 't"
    and del :: "int32 \<Rightarrow> 't \<Rightarrow> 't"
  assumes put_ok: "ok t \<Longrightarrow> 0 \<le> i \<Longrightarrow> ok (put i u t)"
    and del_ok: "ok t \<Longrightarrow> 0 \<le> i \<Longrightarrow> ok (del i t)"
    and look_put: "ok t \<Longrightarrow> 0 \<le> i \<Longrightarrow> 0 \<le> j \<Longrightarrow> look j (put i u t) = (if j = i then Some u else look j t)"
    and look_del: "ok t \<Longrightarrow> 0 \<le> i \<Longrightarrow> 0 \<le> j \<Longrightarrow> j \<noteq> i \<Longrightarrow> look j (del i t) = look j t"
    and del_put: "ok t \<Longrightarrow> 0 \<le> i \<Longrightarrow> look i (del i (put i u t)) = look i t"
    and del_put_other: "ok t \<Longrightarrow> 0 \<le> i \<Longrightarrow> 0 \<le> j \<Longrightarrow> j \<noteq> i \<Longrightarrow> look i (del i (put j v t)) = look i (del i t)"
begin

text \<open>A socket that is entered and taken out again leaves the table as it found it, with the
  socket that was entered in between.\<close>

lemma enter_leave:
  assumes "ok t" "0 \<le> i" "0 \<le> j" "0 \<le> k" "i \<noteq> j"
  shows "look k (del i (put j v (put i u t))) = (if k = j then Some v else look k t)"
  using assms by (cases "k = i") (simp_all add: look_put look_del put_ok del_put_other del_put)

end

definition hash_ok :: "CHash \<Rightarrow> bool" where
  "hash_ok h \<longleftrightarrow> 0 < h_HashSize h \<and> length (h_Bucket h) = nat (h_HashSize h)"

lemma h_slot_inb: "hash_ok h \<Longrightarrow> 0 \<le> i \<Longrightarrow> inb (h_Bucket h) (h_slot i h)"
  by (simp add: hash_ok_def h_slot_def inb_def)

lemma bucket_lookup_remove: "j \<noteq> i \<Longrightarrow> bucket_lookup j (bucket_remove i b) = bucket_lookup j b"
  by (induction i b rule: bucket_remove.induct) auto

lemma h_slot_nonneg: "hash_ok h \<Longrightarrow> 0 \<le> i \<Longrightarrow> 0 \<le> h_slot i h"
  by (simp add: hash_ok_def h_slot_def)

lemma h_slot_upd [simp]: "h_slot i (h\<lparr>h_Bucket := b\<rparr>) = h_slot i h"
  by (simp add: h_slot_def)

interpretation udt_hash: socket_table hash_ok CHash_lookup CHash_insert CHash_remove
proof
  fix h i j u
  assume h: "hash_ok h" and i: "0 \<le> (i::int)"
  show "hash_ok (CHash_insert i u h)" "hash_ok (CHash_remove i h)"
    using h by (simp_all add: hash_ok_def CHash_insert_def CHash_remove_def)
  note r = aget_aset [OF h_slot_inb [OF h i]]
  show "CHash_lookup i (CHash_remove i (CHash_insert i u h)) = CHash_lookup i h"
    using h_slot_inb [OF h i] h_slot_nonneg [OF h i]
    by (simp add: CHash_lookup_def CHash_insert_def CHash_remove_def)
  assume j: "0 \<le> (j::int)"
  show "CHash_lookup j (CHash_insert i u h) = (if j = i then Some u else CHash_lookup j h)"
    using h_slot_nonneg [OF h j] by (simp add: CHash_lookup_def CHash_insert_def r)
  show "CHash_lookup i (CHash_remove i (CHash_insert j u h)) = CHash_lookup i (CHash_remove i h)" if "j \<noteq> i"
    using that h_slot_inb [OF h i] h_slot_inb [OF h j] h_slot_nonneg [OF h i] h_slot_nonneg [OF h j]
    by (simp add: CHash_lookup_def CHash_insert_def CHash_remove_def aget_aset)
  show "CHash_lookup j (CHash_remove i h) = CHash_lookup j h" if "j \<noteq> i"
    using that h_slot_nonneg [OF h j] by (simp add: CHash_lookup_def CHash_remove_def r bucket_lookup_remove)
qed

text \<open>A socket that enters the hash table and leaves it again changes no lookup, except for the
  socket that was entered in between, which is found.\<close>

theorem hash_enter_leave:
  assumes "hash_ok h" "0 \<le> i" "0 \<le> j" "0 \<le> k" "i \<noteq> j"
  shows "CHash_lookup k (CHash_remove i (CHash_insert j v (CHash_insert i u h))) =
    (if k = j then Some v else CHash_lookup k h)"
  by (rule udt_hash.enter_leave [OF assms])

theorem hash_enter_leave_witness:
  "CHash_lookup 6 (CHash_remove 3 (CHash_insert 6 60 (CHash_insert 3 30 (CHash_init 3)))) = Some 60"
  using hash_enter_leave [of "CHash_init 3" 3 6 6 60 30] by (simp add: hash_ok_def CHash_init_def)

section \<open>Connection requests\<close>

lemma conn_step_view:
  "cs_View (conn_step now r s) u =
     (let v = cs_View s u in
      if u = r_UDT r \<and> now - cv_LastReqTime v > 250000
      then if now \<ge> r_TTL r then v\<lparr>cv_Connecting := False\<rparr> else v\<lparr>cv_LastReqTime := now\<rparr> else v)"
  by (auto simp: conn_step_def Let_def)

lemma conn_step_sent: "set (cs_Sent s) \<subseteq> set (cs_Sent (conn_step now r s))"
  by (auto simp: conn_step_def Let_def)

lemma conn_steps_sent: "set (cs_Sent s) \<subseteq> set (cs_Sent (fold (conn_step now) rs s))"
  by (induction rs arbitrary: s) (auto dest: subsetD [OF conn_step_sent])

lemma conn_steps_view: "u \<notin> r_UDT ` set rs \<Longrightarrow> cs_View (fold (conn_step now) rs s) u = cs_View s u"
  by (induction rs arbitrary: s) (auto simp: conn_step_view Let_def)

text \<open>A socket whose request is due is sent one, and the time is noted.\<close>

lemma request_sent:
  assumes "distinct (map r_UDT rs)" "r \<in> set rs" "now - cv_LastReqTime (cs_View s (r_UDT r)) > 250000" "now < r_TTL r"
  defines "s1 \<equiv> CRendezvousQueue_updateConnStatus now rs s"
  shows "(r_Peer r, conn_request (cs_View s (r_UDT r))) \<in> set (cs_Sent s1)" "cv_LastReqTime (cs_View s1 (r_UDT r)) = now"
proof -
  obtain xs ys where rs: "rs = xs @ r # ys" using split_list [OF assms(2)] by blast
  then have o: "r_UDT r \<notin> r_UDT ` set xs" "r_UDT r \<notin> r_UDT ` set ys" using assms(1) by auto
  have nt: "\<not> r_TTL r \<le> now" using assms(4) by (simp only: not_le)
  let ?s = "fold (conn_step now) xs s"
  have v: "cs_View ?s (r_UDT r) = cs_View s (r_UDT r)" by (rule conn_steps_view [OF o(1)])
  have s1: "s1 = fold (conn_step now) ys (conn_step now r ?s)"
    by (simp add: s1_def CRendezvousQueue_updateConnStatus_def rs)
  have "(r_Peer r, conn_request (cs_View s (r_UDT r))) \<in> set (cs_Sent (conn_step now r ?s))"
    using assms(3) v nt by (simp add: conn_step_def Let_def)
  then show "(r_Peer r, conn_request (cs_View s (r_UDT r))) \<in> set (cs_Sent s1)"
    unfolding s1 using conn_steps_sent by blast
  show "cv_LastReqTime (cs_View s1 (r_UDT r)) = now"
    unfolding s1 conn_steps_view [OF o(2)] using assms(3) v nt by (simp add: conn_step_view Let_def)
qed

text \<open>Calls of \<open>updateConnStatus\<close>, each with its time and the queue it finds.\<close>

definition conn_calls :: "(uint64 \<times> CRL list) list \<Rightarrow> conn_status \<Rightarrow> conn_status" where
  "conn_calls calls s = fold (\<lambda>(t, rs). CRendezvousQueue_updateConnStatus t rs) calls s"

definition without_socket :: "int \<Rightarrow> (uint64 \<times> CRL list) list \<Rightarrow> (uint64 \<times> CRL list) list" where
  "without_socket u calls = map (\<lambda>(t, rs). (t, filter (\<lambda>x. r_UDT x \<noteq> u) rs)) calls"

lemma conn_steps_skip:
  "t - cv_LastReqTime (cs_View s u) \<le> 250000 \<Longrightarrow>
     fold (conn_step t) rs s = fold (conn_step t) (filter (\<lambda>x. r_UDT x \<noteq> u) rs) s"
proof (induction rs arbitrary: s)
  case (Cons r rs)
  show ?case
  proof (cases "r_UDT r = u")
    case True
    then have "conn_step t r s = s" using Cons.prems by (simp add: conn_step_def Let_def)
    then show ?thesis using True Cons.IH [OF Cons.prems] by simp
  next
    case False
    then have "cs_View (conn_step t r s) u = cs_View s u" by (simp add: conn_step_view Let_def)
    then show ?thesis using False Cons.IH [of "conn_step t r s"] Cons.prems by simp
  qed
qed simp

lemma conn_calls_skip:
  "\<forall>(t, rs)\<in>set calls. t - cv_LastReqTime (cs_View s u) \<le> 250000 \<Longrightarrow>
     conn_calls calls s = conn_calls (without_socket u calls) s"
proof (induction calls arbitrary: s)
  case Nil
  then show ?case by (simp add: without_socket_def)
next
  case (Cons c calls)
  obtain t rs where c: "c = (t, rs)" by (cases c)
  let ?q = "filter (\<lambda>x. r_UDT x \<noteq> u) rs"
  have e: "CRendezvousQueue_updateConnStatus t rs s = CRendezvousQueue_updateConnStatus t ?q s"
    unfolding CRendezvousQueue_updateConnStatus_def using Cons.prems c by (intro conn_steps_skip) simp
  have v: "cs_View (CRendezvousQueue_updateConnStatus t ?q s) u = cs_View s u"
    unfolding CRendezvousQueue_updateConnStatus_def by (rule conn_steps_view) auto
  have "\<forall>(t', rs)\<in>set calls. t' - cv_LastReqTime (cs_View (CRendezvousQueue_updateConnStatus t ?q s) u) \<le> 250000"
    using Cons.prems unfolding v by simp
  from Cons.IH [OF this] show ?case by (simp add: c conn_calls_def without_socket_def e)
qed

text \<open>C37: when a call of \<open>updateConnStatus\<close> finds that the last request of a connecting socket is more than 250
  milliseconds old and its time is not over, it sends the socket's request, and the calls of the next 250
  milliseconds, whatever queues they find, send that socket nothing: they do what they would do were it not in the
  queue. This is about \<open>updateConnStatus\<close> alone: \<open>connect\<close> may set the time of the last request to 0 in between, to
  have the next one go out at once.\<close>

theorem no_request_within_250ms:
  assumes "distinct (map r_UDT rs)" "r \<in> set rs" "now - cv_LastReqTime (cs_View s (r_UDT r)) > 250000" "now < r_TTL r"
    and "\<forall>(t, q)\<in>set calls. t - now \<le> 250000"
  shows "let s1 = CRendezvousQueue_updateConnStatus now rs s in
    (r_Peer r, conn_request (cs_View s (r_UDT r))) \<in> set (cs_Sent s1) \<and>
    conn_calls calls s1 = conn_calls (without_socket (r_UDT r) calls) s1"
  using request_sent [OF assms(1-4)] conn_calls_skip [of calls _ "r_UDT r"] assms(5) by (simp add: Let_def)

definition example_conn :: "conn_status" where
  "example_conn = \<lparr>cs_View = (\<lambda>_. \<lparr>cv_LastReqTime = 0, cv_Connecting = True, cv_PayloadSize = 100,
     cv_Rendezvous = False, cv_ResID = 0, cv_ConnReq = CHandShake_new\<rparr>), cs_Sent = [], cs_Epoll = []\<rparr>"

definition example_entry :: "int \<Rightarrow> CRL" where
  "example_entry u = \<lparr>r_ID = 7, r_UDT = u, r_IPversion = 2, r_Peer = \<lparr>sin_port = 1, sin_addr = 2, s6_addr = []\<rparr>, r_TTL = 3000000\<rparr>"

text \<open>Two sockets; only the second one is in the queue of the later calls as well, and they send nothing.\<close>

theorem no_request_within_250ms_witness:
  "let s1 = CRendezvousQueue_updateConnStatus 1000000 [example_entry 1, example_entry 2] example_conn in
     length (cs_Sent s1) = 2 \<and> conn_calls [(1100000, [example_entry 2]), (1250000, [example_entry 2])] s1 = s1"
proof -
  let ?s1 = "CRendezvousQueue_updateConnStatus 1000000 [example_entry 1, example_entry 2] example_conn"
  let ?calls = "[(1100000, [example_entry 2]), (1250000, [example_entry 2])] :: (uint64 \<times> CRL list) list"
  have "conn_calls ?calls ?s1 = conn_calls (without_socket 2 ?calls) ?s1"
    using no_request_within_250ms [of "[example_entry 1, example_entry 2]" "example_entry 2" 1000000 example_conn ?calls]
    by (simp add: example_entry_def example_conn_def Let_def)
  moreover have "conn_calls (without_socket 2 ?calls) ?s1 = ?s1"
    by (simp add: conn_calls_def without_socket_def example_entry_def CRendezvousQueue_updateConnStatus_def)
  moreover have "length (cs_Sent ?s1) = 2"
    by (simp add: CRendezvousQueue_updateConnStatus_def conn_step_def example_entry_def example_conn_def Let_def)
  ultimately show ?thesis by (simp add: Let_def)
qed

text \<open>The socket \<open>retrieve\<close> finds was entered for the address the packet came from, and for the
  id asked for unless that is 0; an entered socket that nothing entered earlier hides is found.\<close>

theorem retrieve_after_insert:
  assumes "CRendezvousQueue_retrieve addr i rs = (None, i)" "ipcmp addr peer ipv" "0 = i \<or> i = k"
  shows "CRendezvousQueue_retrieve addr i (CRendezvousQueue_insert k u ipv peer ttl rs) = (Some u, k)"
  using assms
  by (induction rs) (auto simp: CRendezvousQueue_insert_def split: if_splits)

theorem retrieve_after_insert_witness:
  "CRendezvousQueue_retrieve \<lparr>sin_port = 1, sin_addr = 2, s6_addr = []\<rparr> 0
     (CRendezvousQueue_insert 7 5 2 \<lparr>sin_port = 1, sin_addr = 2, s6_addr = []\<rparr> 9 []) = (Some 5, 7)"
  using retrieve_after_insert [of "\<lparr>sin_port = 1, sin_addr = 2, s6_addr = []\<rparr>" 0 "[]"
      "\<lparr>sin_port = 1, sin_addr = 2, s6_addr = []\<rparr>" 2 7 5 9]
  by (simp add: ipcmp_def AF_INET_def)

end
