(* ===== verification/Errors.thy ===== *)
theory Errors imports Prelude begin

text \<open>
  The error values of the library: class \<open>CUDTException\<close> (\<open>udt.h\<close>, \<open>udtCommon.cpp\<close>). Every
  \<open>throw CUDTException(major, minor, errno)\<close> of the program is an \<open>Inl\<close> of this record in the
  models of the other theories. The text of a system error is a parameter, \<open>strerror\<close>, \<open>None\<close>
  when \<open>strerror_r\<close> fails.
\<close>

record CUDTException =
  m_iMajor :: int
  m_iMinor :: int
  m_iErrno :: int
  m_strMsg :: string

text \<open>\<open>errno\<close> is the thread's error number, taken when \<open>err\<close> is -1.\<close>

definition CUDTException_new :: "int \<Rightarrow> int \<Rightarrow> int \<Rightarrow> int \<Rightarrow> CUDTException" where
  "CUDTException_new errno major minor err =
     \<lparr>m_iMajor = major, m_iMinor = minor, m_iErrno = (if - 1 = err then errno else err), m_strMsg = []\<rparr>"

text \<open>Most \<open>throw\<close>s pass \<open>0\<close> as the system error.\<close>

definition exc :: "int \<Rightarrow> int \<Rightarrow> CUDTException" where
  "exc major minor = CUDTException_new 0 major minor 0"

definition message_suffix :: "int \<Rightarrow> int \<Rightarrow> string" where
  "message_suffix major minor =
    (if major = 1 then
       (if minor = 1 then '': connection time out'' else if minor = 2 then '': connection rejected''
        else if minor = 3 then '': unable to create/configure UDP socket''
        else if minor = 4 then '': abort for security reasons'' else [])
     else if major = 3 then
       (if minor = 1 then '': unable to create new threads''
        else if minor = 2 then '': unable to allocate buffers'' else [])
     else if major = 5 then
       (if minor = 1 then '': Cannot do this operation on a BOUND socket''
        else if minor = 2 then '': Cannot do this operation on a CONNECTED socket''
        else if minor = 3 then '': Bad parameters''
        else if minor = 4 then '': Invalid socket ID''
        else if minor = 5 then '': Cannot do this operation on an UNBOUND socket''
        else if minor = 6 then '': Socket is not in listening state''
        else if minor = 7 then '': Listen/accept is not supported in rendezous connection setup''
        else if minor = 8 then '': Cannot call connect on UNBOUND socket in rendezvous connection setup''
        else if minor = 9 then '': This operation is not supported in SOCK_STREAM mode''
        else if minor = 10 then '': This operation is not supported in SOCK_DGRAM mode''
        else if minor = 11 then '': Another socket is already listening on the same port''
        else if minor = 12 then
          '': Message is too large to send (it must be less than the UDT send buffer size)''
        else [])
     else if major = 6 then
       (if minor = 1 then '': no buffer available for sending''
        else if minor = 2 then '': no data available for reading'' else [])
     else [])"

text \<open>The first part of the message; the case of major 2 assigns nothing when the minor code is
  neither 1 nor 2, so the old text stays.\<close>

definition message_base :: "CUDTException \<Rightarrow> string" where
  "message_base e =
    (if m_iMajor e = 0 then ''Success''
     else if m_iMajor e = 1 then ''Connection setup failure''
     else if m_iMajor e = 2 then
       (if m_iMinor e = 1 then ''Connection was broken''
        else if m_iMinor e = 2 then ''Connection does not exist'' else m_strMsg e)
     else if m_iMajor e = 3 then ''System resource failure''
     else if m_iMajor e = 5 then ''Operation not supported''
     else if m_iMajor e = 6 then ''Non-blocking call failure''
     else ''Unknown error'')"

definition getErrorMessage :: "(int \<Rightarrow> string option) \<Rightarrow> CUDTException \<Rightarrow> CUDTException" where
  "getErrorMessage strerror e =
    e\<lparr>m_strMsg := message_base e @ message_suffix (m_iMajor e) (m_iMinor e)
      @ (if 0 \<noteq> m_iMajor e \<and> 0 < m_iErrno e
         then '': '' @ (case strerror (m_iErrno e) of None \<Rightarrow> [] | Some t \<Rightarrow> t) else [])
      @ ''.''\<rparr>"

definition getErrorCode :: "CUDTException \<Rightarrow> int" where
  "getErrorCode e = m_iMajor e * 1000 + m_iMinor e"

definition CUDTException_clear :: "CUDTException \<Rightarrow> CUDTException" where
  "CUDTException_clear e = e\<lparr>m_iMajor := 0, m_iMinor := 0, m_iErrno := 0\<rparr>"

section \<open>What the messages say\<close>

lemma getErrorMessage_code: "getErrorCode (getErrorMessage s e) = getErrorCode e"
  by (simp add: getErrorCode_def getErrorMessage_def)

lemma getErrorMessage_again:
  "m_iMajor e = 2 \<longrightarrow> m_iMinor e \<in> {1, 2} \<Longrightarrow> getErrorMessage s (getErrorMessage s e) = getErrorMessage s e"
  by (auto simp: getErrorMessage_def message_base_def)

text \<open>The codes by name.\<close>

definition error_constants :: "(string \<times> int) list" where
  "error_constants =
   [(''SUCCESS'', 0), (''ECONNSETUP'', 1000), (''ENOSERVER'', 1001), (''ECONNREJ'', 1002),
     (''ESOCKFAIL'', 1003), (''ESECFAIL'', 1004), (''ECONNLOST'', 2001), (''ENOCONN'', 2002),
     (''ETHREAD'', 3001), (''ENOBUF'', 3002), (''EINVOP'', 5000), (''EBOUNDSOCK'', 5001),
     (''ECONNSOCK'', 5002), (''EINVPARAM'', 5003), (''EINVSOCK'', 5004), (''EUNBOUNDSOCK'', 5005),
     (''ENOLISTEN'', 5006), (''ERDVNOSERV'', 5007), (''ERDVUNBOUND'', 5008), (''ESTREAMILL'', 5009),
     (''EDGRAMILL'', 5010), (''EDUPLISTEN'', 5011), (''ELARGEMSG'', 5012), (''EASYNCSND'', 6001),
     (''EASYNCRCV'', 6002), (''EPEERERR'', 7000), (''EUNKNOWN'', - 1)]"

definition error_constant :: "string \<Rightarrow> int option" where
  "error_constant name = map_of error_constants name"

text \<open>No two names share a code, and every code but \<open>EUNKNOWN\<close> is the one of the exception that is thrown with its
  thousands as the major and the rest as the minor number.\<close>

lemma error_codes_distinct: "distinct (map fst error_constants) \<and> distinct (map snd error_constants)"
  by (simp add: error_constants_def)

lemma error_code_of_exc: "getErrorCode (exc (c div 1000) (c mod 1000)) = c"
  by (simp add: getErrorCode_def exc_def CUDTException_new_def)

text \<open>Asking an exception for its message again changes the text just when it reports a lost
  connection with a minor code the library does not define: then the text grows each time.\<close>

theorem error_message_stable:
  "getErrorMessage s (getErrorMessage s e) = getErrorMessage s e \<longleftrightarrow>
     (m_iMajor e \<noteq> 2 \<or> m_iMinor e \<in> {1, 2})"
proof -
  have "length (m_strMsg (getErrorMessage s (getErrorMessage s e))) > length (m_strMsg (getErrorMessage s e))"
    if "m_iMajor e = 2" "m_iMinor e \<notin> {1, 2}"
    using that by (simp add: getErrorMessage_def message_base_def message_suffix_def)
  then show ?thesis using getErrorMessage_again [of e s] by (metis less_irrefl)
qed

end
