(* ===== verification/SndBuffer.thy ===== *)
theory SndBuffer imports Memory SeqNo Errors begin

text \<open>
  The sender's buffer, class \<open>CSndBuffer\<close> (\<open>buffer.h\<close>, \<open>buffer.cpp\<close>): a circular list of blocks of
  one packet each. From \<open>m_pFirstBlock\<close> to \<open>m_pCurrBlock\<close> the blocks were sent and wait for their
  acknowledgement, from \<open>m_pCurrBlock\<close> to \<open>m_pLastBlock\<close> they wait to be sent, the rest is free. A
  block is named by a number and found through \<open>sb_Block\<close>; \<open>sb_Alloc\<close> is the next unused name.
  Memory that the code leaves uninitialised is read from the parameter \<open>garbage\<close>.
\<close>

section \<open>State\<close>

record Block =
  bl_Data :: "byte list"
  bl_Length :: int
  bl_MsgNo :: uint32
  bl_OriginTime :: uint64
  bl_TTL :: int
  bl_Next :: nat

record CSndBuffer =
  sb_Block :: "nat \<Rightarrow> Block"
  sb_Alloc :: nat
  sb_First :: nat
  sb_Curr :: nat
  sb_Last :: nat
  sb_Buffers :: "int list"
  sb_NextMsgNo :: int32
  sb_Size :: int
  sb_MSS :: int
  sb_Count :: int

text \<open>A block whose data pointer leads into a fresh physical buffer.\<close>

definition fresh_block :: "(nat \<Rightarrow> Block) \<Rightarrow> int \<Rightarrow> nat \<Rightarrow> nat \<Rightarrow> Block" where
  "fresh_block garbage mss i next = (garbage i)\<lparr>bl_Data := replicate (nat mss) 0, bl_Next := next\<rparr>"

definition CSndBuffer_new :: "(nat \<Rightarrow> Block) \<Rightarrow> int \<Rightarrow> int \<Rightarrow> CSndBuffer" where
  "CSndBuffer_new garbage sz mss =
    \<lparr>sb_Block = (\<lambda>i. if int i < sz - 1 then (fresh_block garbage mss i (Suc i))\<lparr>bl_MsgNo := 0\<rparr>
                     else fresh_block garbage mss i 0),
     sb_Alloc = nat sz, sb_First = 0, sb_Curr = 0, sb_Last = 0, sb_Buffers = [sz], sb_NextMsgNo = 1,
     sb_Size = sz, sb_MSS = mss, sb_Count = 0\<rparr>"

section \<open>Operations\<close>

text \<open>\<open>mem1\<close> and \<open>mem2\<close> say whether the two guarded allocations succeed.\<close>

definition CSndBuffer_increase ::
    "(nat \<Rightarrow> Block) \<Rightarrow> bool \<Rightarrow> bool \<Rightarrow> CSndBuffer \<Rightarrow> (CUDTException \<times> CSndBuffer) + CSndBuffer" where
  "CSndBuffer_increase garbage mem1 mem2 b =
    (let unitsize = hd (sb_Buffers b)
     in if \<not> mem1 then Inl (exc 3 2, b)
        else
          let b = b\<lparr>sb_Buffers := sb_Buffers b @ [unitsize]\<rparr>
          in if \<not> mem2 then Inl (exc 3 2, b)
             else
               let a = sb_Alloc b; n = nat unitsize; last_next = bl_Next (sb_Block b (sb_Last b))
               in Inr (b\<lparr>sb_Block := (\<lambda>i. if a \<le> i \<and> i < a + n
                                           then fresh_block garbage (sb_MSS b) i (if i + 1 = a + n then last_next else i + 1)
                                           else sb_Block b i)
                                     (sb_Last b := (sb_Block b (sb_Last b))\<lparr>bl_Next := a\<rparr>),
                         sb_Alloc := a + n, sb_Size := sb_Size b + unitsize\<rparr>))"

text \<open>The loop \<open>while (size + m_iCount >= m_iSize) increase()\<close>. With blocks of no size it does not
  end: \<open>None\<close>.\<close>

function grow ::
    "(nat \<Rightarrow> Block) \<Rightarrow> (CSndBuffer \<Rightarrow> bool) \<Rightarrow> int \<Rightarrow> CSndBuffer \<Rightarrow> ((CUDTException \<times> CSndBuffer) + CSndBuffer) option" where
  "grow garbage mem sz b =
    (if sz + sb_Count b \<ge> sb_Size b then
       if hd (sb_Buffers b) \<le> 0 then None
       else case CSndBuffer_increase garbage (mem b) (mem b) b of
              Inl e \<Rightarrow> Some (Inl e)
            | Inr b \<Rightarrow> grow garbage mem sz b
     else Some (Inr b))"
  by auto
termination
  by (relation "measure (\<lambda>(g, m, sz, b). nat (sz + sb_Count b + 1 - sb_Size b))")
    (auto simp: CSndBuffer_increase_def Let_def split: if_splits)

declare grow.simps [simp del]

definition put_block :: "nat \<Rightarrow> Block \<Rightarrow> CSndBuffer \<Rightarrow> CSndBuffer" where
  "put_block s bl b = b\<lparr>sb_Block := (sb_Block b)(s := bl)\<rparr>"

definition boundary_bits :: "int \<Rightarrow> int \<Rightarrow> uint32" where
  "boundary_bits i sz = (if i = 0 then 0x80000000 else 0) OR (if i = sz - 1 then 0x40000000 else 0)"

definition msg_chunk :: "byte list \<Rightarrow> int \<Rightarrow> int \<Rightarrow> int \<Rightarrow> byte list" where
  "msg_chunk data len mss i = take (nat (min (len - i * mss) mss)) (drop (nat (i * mss)) data)"

definition msg_word :: "int32 \<Rightarrow> bool \<Rightarrow> int \<Rightarrow> int \<Rightarrow> uint32" where
  "msg_word msgno order sz i =
     word_of_int msgno OR (if order then push_bit 29 1 else 0) OR boundary_bits i sz"

text \<open>The loop of \<open>addBuffer\<close> over the packets \<open>i, \<dots>, size - 1\<close> of the message.\<close>

function fill_blocks ::
    "byte list \<Rightarrow> int \<Rightarrow> int \<Rightarrow> bool \<Rightarrow> uint64 \<Rightarrow> int \<Rightarrow> int \<Rightarrow> nat \<Rightarrow> CSndBuffer \<Rightarrow> nat \<times> CSndBuffer" where
  "fill_blocks data len ttl order time sz i s b =
    (if i < sz then
       let pktlen = min (len - i * sb_MSS b) (sb_MSS b);
           bl = sb_Block b s;
           bl = bl\<lparr>bl_Data := msg_chunk data len (sb_MSS b) i @ drop (nat pktlen) (bl_Data bl),
                   bl_Length := pktlen, bl_MsgNo := msg_word (sb_NextMsgNo b) order sz i,
                   bl_OriginTime := time, bl_TTL := ttl\<rparr>
       in fill_blocks data len ttl order time sz (i + 1) (bl_Next bl) (put_block s bl b)
     else (s, b))"
  by auto
termination by (relation "measure (\<lambda>(d, l, t, o', tm, sz, i, s, b). nat (sz - i))") auto

declare fill_blocks.simps [simp del]

definition msg_blocks :: "int \<Rightarrow> CSndBuffer \<Rightarrow> int" where
  "msg_blocks len b = (let n = len sdiv sb_MSS b in if len smod sb_MSS b \<noteq> 0 then n + 1 else n)"

definition CSndBuffer_addBuffer ::
    "(nat \<Rightarrow> Block) \<Rightarrow> (CSndBuffer \<Rightarrow> bool) \<Rightarrow> uint64 \<Rightarrow> byte list \<Rightarrow> int \<Rightarrow> int \<Rightarrow> bool \<Rightarrow> CSndBuffer \<Rightarrow>
     ((CUDTException \<times> CSndBuffer) + CSndBuffer) option" where
  "CSndBuffer_addBuffer garbage mem time data len ttl order b =
    (let sz = msg_blocks len b
     in case grow garbage mem sz b of
          None \<Rightarrow> None
        | Some (Inl e) \<Rightarrow> Some (Inl e)
        | Some (Inr b) \<Rightarrow>
            let (s, b) = fill_blocks data len ttl order time sz 0 (sb_Last b) b;
                b = b\<lparr>sb_Last := s, sb_Count := sb_Count b + sz\<rparr>;
                b = b\<lparr>sb_NextMsgNo := sb_NextMsgNo b + 1\<rparr>
            in Some (Inr (if sb_NextMsgNo b = m_iMaxMsgNo then b\<lparr>sb_NextMsgNo := 1\<rparr> else b)))"

text \<open>The result is the length, the bytes of the block and the message number, \<open>None\<close> for no data.\<close>

definition block_bytes :: "Block \<Rightarrow> byte list" where
  "block_bytes bl = take (nat (bl_Length bl)) (bl_Data bl)"

definition CSndBuffer_readData :: "CSndBuffer \<Rightarrow> (int \<times> byte list \<times> uint32) option \<times> CSndBuffer" where
  "CSndBuffer_readData b =
    (if sb_Curr b = sb_Last b then (None, b)
     else
       let bl = sb_Block b (sb_Curr b)
       in (Some (bl_Length bl, block_bytes bl, bl_MsgNo bl), b\<lparr>sb_Curr := bl_Next bl\<rparr>))"

text \<open>The retransmission read at an offset from the first block.\<close>

datatype sb_read =
    SbData int "byte list" uint32
  | SbDropped uint32 int

fun skip_blocks :: "nat \<Rightarrow> CSndBuffer \<Rightarrow> nat \<Rightarrow> nat" where
  "skip_blocks 0 b p = p"
| "skip_blocks (Suc n) b p = skip_blocks n b (bl_Next (sb_Block b p))"

text \<open>The loop over the other blocks of an expired message; the fuel is the number of blocks.\<close>

fun drop_msg_blocks :: "nat \<Rightarrow> uint32 \<Rightarrow> nat \<Rightarrow> bool \<Rightarrow> int \<Rightarrow> CSndBuffer \<Rightarrow> (int \<times> CSndBuffer) option" where
  "drop_msg_blocks 0 msgno p move mlen b = None"
| "drop_msg_blocks (Suc f) msgno p move mlen b =
     (if msgno = bl_MsgNo (sb_Block b p) AND 0x1FFFFFFF then
        let move = (if p = sb_Curr b then True else move);
            p = bl_Next (sb_Block b p);
            b = (if move then b\<lparr>sb_Curr := p\<rparr> else b)
        in drop_msg_blocks f msgno p move (mlen + 1) b
      else Some (mlen, b))"

definition CSndBuffer_readData_at :: "uint64 \<Rightarrow> int \<Rightarrow> CSndBuffer \<Rightarrow> (sb_read \<times> CSndBuffer) option" where
  "CSndBuffer_readData_at now offset b =
    (let p = skip_blocks (nat offset) b (sb_First b);
         bl = sb_Block b p
     in if bl_TTL bl \<ge> 0 \<and> (now - bl_OriginTime bl) div 1000 > word_of_int (bl_TTL bl) then
          let msgno = bl_MsgNo bl AND 0x1FFFFFFF
          in map_option (\<lambda>(mlen, b). (SbDropped msgno mlen, b))
               (drop_msg_blocks (Suc (nat (sb_Size b))) msgno (bl_Next bl) False 1 b)
        else Some (SbData (bl_Length bl) (block_bytes bl) (bl_MsgNo bl), b))"

definition CSndBuffer_ackData :: "int \<Rightarrow> CSndBuffer \<Rightarrow> CSndBuffer" where
  "CSndBuffer_ackData offset b =
    b\<lparr>sb_First := skip_blocks (nat offset) b (sb_First b), sb_Count := sb_Count b - offset\<rparr>"

definition CSndBuffer_getCurrBufSize :: "CSndBuffer \<Rightarrow> int" where
  "CSndBuffer_getCurrBufSize b = sb_Count b"

section \<open>The ring\<close>

text \<open>\<open>path b p ns q\<close>: the links lead from \<open>p\<close> through the blocks \<open>ns\<close> to \<open>q\<close>.\<close>

fun path :: "(nat \<Rightarrow> Block) \<Rightarrow> nat \<Rightarrow> nat list \<Rightarrow> nat \<Rightarrow> bool" where
  "path B p [] q \<longleftrightarrow> p = q"
| "path B p (n # ns) q \<longleftrightarrow> n = p \<and> path B (bl_Next (B p)) ns q"

definition ring :: "CSndBuffer \<Rightarrow> nat list \<Rightarrow> nat list \<Rightarrow> nat list \<Rightarrow> bool" where
  "ring b us vs ws \<longleftrightarrow>
     path (sb_Block b) (sb_First b) us (sb_Curr b) \<and> path (sb_Block b) (sb_Curr b) vs (sb_Last b) \<and>
     path (sb_Block b) (sb_Last b) ws (sb_First b) \<and> distinct (us @ vs @ ws) \<and> ws \<noteq> [] \<and>
     (\<forall>n\<in>set (us @ vs @ ws). n < sb_Alloc b \<and> length (bl_Data (sb_Block b n)) = nat (sb_MSS b)) \<and>
     sb_Count b = int (length us + length vs) \<and> sb_Size b = int (length (us @ vs @ ws)) \<and>
     0 < sb_MSS b \<and> 0 < hd (sb_Buffers b) \<and> sb_Buffers b \<noteq> []"

definition sb_inv :: "CSndBuffer \<Rightarrow> bool" where
  "sb_inv b \<longleftrightarrow> (\<exists>us vs ws. ring b us vs ws)"

text \<open>What waits to be sent: the bytes and the message word of each packet.\<close>

definition packets :: "CSndBuffer \<Rightarrow> nat list \<Rightarrow> (byte list \<times> uint32) list" where
  "packets b ns = map (\<lambda>n. (block_bytes (sb_Block b n), bl_MsgNo (sb_Block b n))) ns"

lemma path_append: "path B p (xs @ ys) q \<longleftrightarrow> (\<exists>r. path B p xs r \<and> path B r ys q)"
  by (induction xs arbitrary: p) auto

lemma path_cong: "(\<And>n. n \<in> set ns \<Longrightarrow> bl_Next (B' n) = bl_Next (B n)) \<Longrightarrow> path B' p ns q = path B p ns q"
  by (induction ns arbitrary: p) auto

lemma path_skip: "path (sb_Block b) p ns q \<Longrightarrow> skip_blocks (length ns) b p = q"
  by (induction ns arbitrary: p) auto

lemma path_fun: "path B p ns q \<Longrightarrow> path B p ns q' \<Longrightarrow> q = q'"
  by (induction ns arbitrary: p) auto

section \<open>Growing\<close>

lemma path_upt:
  "a < m \<Longrightarrow> (\<And>i. a \<le> i \<Longrightarrow> i < m \<Longrightarrow> bl_Next (B i) = (if i + 1 = m then z else i + 1)) \<Longrightarrow>
     path B a [a..<m] z"
proof (induction "m - a" arbitrary: a)
  case (Suc k)
  show ?case
  proof (cases "a + 1 = m")
    case True
    then have "[a..<m] = [a]" by (metis Suc_eq_plus1 upt_rec upt_conv_Nil lessI order_refl)
    then show ?thesis using Suc.prems(2) [of a] True by simp
  next
    case False
    have "path B (a + 1) [a + 1..<m] z" using Suc False by (intro Suc.hyps(1)) auto
    then show ?thesis using Suc.prems False by (simp add: upt_conv_Cons)
  qed
qed simp

lemma distinct_insert_mid:
  "distinct (us @ vs @ x # ws) \<Longrightarrow> distinct ns \<Longrightarrow> set ns \<inter> set (us @ vs @ x # ws) = {} \<Longrightarrow>
     distinct (us @ vs @ x # ns @ ws)"
  by auto

lemma increase_ring:
  assumes r: "ring b us vs ws" and inc: "CSndBuffer_increase garbage True True b = Inr b'"
  shows "\<exists>ws'. ring b' us vs ws' \<and> (\<forall>n\<in>set (us @ vs). sb_Block b' n = sb_Block b n) \<and>
    sb_Count b' = sb_Count b \<and> sb_MSS b' = sb_MSS b \<and> sb_NextMsgNo b' = sb_NextMsgNo b \<and>
    sb_Size b' = sb_Size b + hd (sb_Buffers b)"
proof -
  define a n where "a = sb_Alloc b" and "n = nat (hd (sb_Buffers b))"
  let ?last = "sb_Last b"
  obtain ws0 where ws: "ws = ?last # ws0" using r by (cases ws) (auto simp: ring_def)
  have n: "0 < n" "hd (sb_Buffers b) = int n" using r by (auto simp: ring_def n_def)
  have b': "b' = b\<lparr>sb_Buffers := sb_Buffers b @ [hd (sb_Buffers b)],
      sb_Block := (\<lambda>i. if a \<le> i \<and> i < a + n
          then fresh_block garbage (sb_MSS b) i (if i + 1 = a + n then bl_Next (sb_Block b ?last) else i + 1)
          else sb_Block b i)(?last := (sb_Block b ?last)\<lparr>bl_Next := a\<rparr>),
      sb_Alloc := a + n, sb_Size := sb_Size b + hd (sb_Buffers b)\<rparr>"
    using inc unfolding a_def n_def CSndBuffer_increase_def Let_def by (auto cong: if_cong)
  have old: "x < a" if "x \<in> set (us @ vs @ ws)" for x using r that by (auto simp: ring_def a_def)
  have B: "sb_Block b' i = (if i = ?last then (sb_Block b ?last)\<lparr>bl_Next := a\<rparr>
      else if a \<le> i \<and> i < a + n
      then fresh_block garbage (sb_MSS b) i (if i + 1 = a + n then bl_Next (sb_Block b ?last) else i + 1)
      else sb_Block b i)" for i
    by (simp add: b')
  have la: "?last < a" "?last \<notin> set us" "?last \<notin> set vs" "?last \<notin> set ws0" using r old ws by (auto simp: ring_def)
  have same: "sb_Block b' x = sb_Block b x" if "x \<in> set (us @ vs @ ws0)" for x
    using that old [of x] la ws by (auto simp: B)
  have p: "path (sb_Block b') q xs q' = path (sb_Block b) q xs q'" if "set xs \<subseteq> set (us @ vs @ ws0)" for q xs q'
    by (rule path_cong) (use that same in \<open>auto simp del: set_append\<close>)
  have new: "path (sb_Block b') a [a..<a + n] (bl_Next (sb_Block b ?last))"
    using la n by (intro path_upt) (auto simp: B fresh_block_def)
  have w0: "path (sb_Block b') (bl_Next (sb_Block b ?last)) ws0 (sb_First b)"
    using r ws p [of ws0 "bl_Next (sb_Block b ?last)" "sb_First b"] by (auto simp: ring_def)
  have "path (sb_Block b') ?last (?last # [a..<a + n] @ ws0) (sb_First b)"
    using new w0 by (auto simp: B path_append)
  moreover have "distinct (us @ vs @ ?last # [a..<a + n] @ ws0)"
  proof -
    have "x \<notin> set (us @ vs @ ws)" if "x \<in> set [a..<a + n]" for x
      using that old [of x] by (metis atLeastLessThan_iff atLeastLessThan_upt not_le)
    then have "set [a..<a + n] \<inter> set (us @ vs @ ws) = {}" by blast
    moreover have "distinct (us @ vs @ ws)" using r by (simp add: ring_def)
    ultimately show ?thesis unfolding ws by (intro distinct_insert_mid) simp_all
  qed
  moreover have "length (bl_Data (sb_Block b' x)) = nat (sb_MSS b) \<and> x < a + n"
    if "x \<in> set (us @ vs @ ?last # [a..<a + n] @ ws0)" for x
    using that r ws old [of x] by (auto simp: B fresh_block_def ring_def)
  moreover have "sb_First b' = sb_First b" "sb_Curr b' = sb_Curr b" "sb_Last b' = ?last" "sb_Alloc b' = a + n"
    "sb_Count b' = sb_Count b" "sb_MSS b' = sb_MSS b" "sb_Buffers b' = sb_Buffers b @ [hd (sb_Buffers b)]"
    "sb_Size b' = sb_Size b + int n"
    using n by (simp_all add: b')
  moreover have "path (sb_Block b') (sb_First b) us (sb_Curr b)" "path (sb_Block b') (sb_Curr b) vs ?last"
    "sb_Count b = int (length us + length vs)" "sb_Size b = int (length (us @ vs @ ws))" "0 < sb_MSS b"
    "0 < hd (sb_Buffers b)" "sb_Buffers b \<noteq> []"
    using r p [of us] p [of vs] by (auto simp: ring_def)
  ultimately have "ring b' us vs (?last # [a..<a + n] @ ws0)"
    using ws unfolding ring_def by (auto simp del: path.simps)
  moreover have "\<forall>n\<in>set (us @ vs). sb_Block b' n = sb_Block b n" using same by auto
  ultimately show ?thesis by (auto simp: b' simp del: set_append)
qed

lemma grow_ring:
  assumes "ring b us vs ws" "grow garbage (\<lambda>_. True) sz b = r"
  shows "\<exists>b' ws'. r = Some (Inr b') \<and> ring b' us vs ws' \<and> (\<forall>n\<in>set (us @ vs). sb_Block b' n = sb_Block b n) \<and>
    sb_Count b' = sb_Count b \<and> sb_MSS b' = sb_MSS b \<and> sb_NextMsgNo b' = sb_NextMsgNo b \<and> sz + sb_Count b' < sb_Size b'"
  using assms
proof (induction "nat (sz + sb_Count b + 1 - sb_Size b)" arbitrary: b ws rule: less_induct)
  case less
  have unit: "0 < hd (sb_Buffers b)" using less.prems(1) by (simp add: ring_def)
  show ?case
  proof (cases "sz + sb_Count b \<ge> sb_Size b")
    case True
    obtain b1 where b1: "CSndBuffer_increase garbage True True b = Inr b1"
      by (simp add: CSndBuffer_increase_def Let_def)
    from increase_ring [OF less.prems(1) b1] obtain ws' where w: "ring b1 us vs ws'"
      "\<forall>n\<in>set (us @ vs). sb_Block b1 n = sb_Block b n" "sb_Count b1 = sb_Count b" "sb_MSS b1 = sb_MSS b"
      "sb_NextMsgNo b1 = sb_NextMsgNo b" "sb_Size b1 = sb_Size b + hd (sb_Buffers b)" by blast
    have "grow garbage (\<lambda>_. True) sz b1 = r"
      using less.prems(2) True unit b1 by (subst (asm) grow.simps) simp
    then show ?thesis using less.hyps [of b1 ws'] w True unit by auto
  next
    case False
    then have "r = Some (Inr b)" using less.prems(2) by (subst (asm) grow.simps) simp
    then show ?thesis using less.prems(1) False by auto
  qed
qed

text \<open>Whatever memory there is: growing fails only where an allocation does, and leaves what is in the buffer alone;
  where it succeeds it is as if memory had never been short.\<close>

lemma increase_fails:
  assumes "CSndBuffer_increase garbage m1 m2 b = Inl (e, b')" "ring b us vs ws"
  shows "e = exc 3 2" "ring b' us vs ws" "sb_Block b' = sb_Block b" "\<not> (m1 \<and> m2)"
proof -
  have "e = exc 3 2 \<and> (b' = b \<or> b' = b\<lparr>sb_Buffers := sb_Buffers b @ [hd (sb_Buffers b)]\<rparr>) \<and> \<not> (m1 \<and> m2)"
    using assms(1) by (auto simp: CSndBuffer_increase_def Let_def split: if_splits)
  then show "e = exc 3 2" "ring b' us vs ws" "sb_Block b' = sb_Block b" "\<not> (m1 \<and> m2)"
    using assms(2) by (auto simp: ring_def)
qed

lemma increase_succeeds: "CSndBuffer_increase garbage m m b = Inr b' \<Longrightarrow> m \<and> CSndBuffer_increase garbage True True b = Inr b'"
  by (simp add: CSndBuffer_increase_def Let_def split: if_splits)

lemma grow_any:
  assumes "ring b us vs ws" "grow garbage mem sz b = Some r"
  shows "case r of
      Inl (e, b') \<Rightarrow> e = exc 3 2 \<and> (\<exists>ws'. ring b' us vs ws') \<and> (\<forall>n\<in>set (us @ vs). sb_Block b' n = sb_Block b n) \<and> (\<exists>c. \<not> mem c)
    | Inr b' \<Rightarrow> grow garbage (\<lambda>_. True) sz b = Some (Inr b')"
  using assms
proof (induction "nat (sz + sb_Count b + 1 - sb_Size b)" arbitrary: b ws rule: less_induct)
  case less
  have unit: "0 < hd (sb_Buffers b)" using less.prems(1) by (simp add: ring_def)
  show ?case
  proof (cases "sz + sb_Count b \<ge> sb_Size b")
    case True
    show ?thesis
    proof (cases "CSndBuffer_increase garbage (mem b) (mem b) b")
      case (Inl x)
      then obtain e b' where x: "CSndBuffer_increase garbage (mem b) (mem b) b = Inl (e, b')" by (cases x) auto
      then have "r = Inl (e, b')" using less.prems(2) True unit by (subst (asm) grow.simps) simp
      then show ?thesis using increase_fails [OF x less.prems(1)] by auto
    next
      case (Inr b1)
      note b1 = increase_succeeds [OF Inr]
      from increase_ring [OF less.prems(1), of garbage b1] b1 obtain ws' where w: "ring b1 us vs ws'"
        "\<forall>n\<in>set (us @ vs). sb_Block b1 n = sb_Block b n" "sb_Count b1 = sb_Count b"
        "sb_Size b1 = sb_Size b + hd (sb_Buffers b)" by blast
      have "grow garbage mem sz b1 = Some r"
        using less.prems(2) True unit Inr by (subst (asm) grow.simps) simp
      moreover have "grow garbage (\<lambda>_. True) sz b = grow garbage (\<lambda>_. True) sz b1"
        using True unit b1 by (subst grow.simps) simp
      ultimately show ?thesis using less.hyps [of b1 ws'] w True unit by (auto split: sum.splits prod.splits)
    qed
  next
    case False
    then have "r = Inr b" using less.prems(2) by (subst (asm) grow.simps) simp
    then show ?thesis using False by (subst grow.simps) simp
  qed
qed

section \<open>Filling\<close>

lemma msg_blocks_bounds:
  assumes "0 < len" "0 < sb_MSS b"
  shows "0 < msg_blocks len b" "(msg_blocks len b - 1) * sb_MSS b < len" "len \<le> msg_blocks len b * sb_MSS b"
proof -
  let ?m = "sb_MSS b"
  have d: "len = (len div ?m) * ?m + len mod ?m" "0 \<le> len mod ?m" "len mod ?m < ?m" using assms by simp_all
  have q: "0 \<le> len div ?m" using assms by (simp add: pos_imp_zdiv_nonneg_iff)
  have n: "msg_blocks len b = (if len mod ?m \<noteq> 0 then len div ?m + 1 else len div ?m)"
    using assms by (simp add: msg_blocks_def Let_def)
  have e: "(len div ?m + 1) * ?m = (len div ?m) * ?m + ?m" by (simp add: algebra_simps)
  show "0 < msg_blocks len b"
  proof (cases "len mod ?m = 0")
    case True
    then have "len div ?m \<noteq> 0" using d(1) assms(1) by (metis mult_zero_left add.right_neutral less_irrefl)
    then show ?thesis using n q True by simp
  qed (use n q in simp)
  have e': "(len div ?m - 1) * ?m = (len div ?m) * ?m - ?m" by (simp add: left_diff_distrib)
  show "(msg_blocks len b - 1) * ?m < len"
  proof (cases "len mod ?m = 0")
    case True
    then have q: "msg_blocks len b - 1 = len div ?m - 1" using n by simp
    show ?thesis unfolding q e' using d(1) True assms(2) by linarith
  next
    case False
    then have q: "msg_blocks len b - 1 = len div ?m" "0 < len mod ?m" using n d(2) by simp_all
    show ?thesis unfolding q(1) using q(2) d(1) by linarith
  qed
  show "len \<le> msg_blocks len b * ?m"
  proof (cases "len mod ?m = 0")
    case True
    then have q: "msg_blocks len b = len div ?m" using n by simp
    show ?thesis unfolding q using d(1) True by linarith
  next
    case False
    then have q: "msg_blocks len b = len div ?m + 1" using n by simp
    show ?thesis unfolding q e using d(1,3) by linarith
  qed
qed

lemma fill_blocks_spec:
  assumes "path (sb_Block b) s ns q" "distinct ns" "int (length ns) = sz - i" "0 \<le> i" "0 < sb_MSS b"
    "int (length data) = len" "(sz - 1) * sb_MSS b < len" "\<forall>n\<in>set ns. length (bl_Data (sb_Block b n)) = nat (sb_MSS b)"
    "fill_blocks data len ttl order time sz i s b = (s', b')"
  shows "s' = q \<and> packets b' ns = map (\<lambda>k. (msg_chunk data len (sb_MSS b) k, msg_word (sb_NextMsgNo b) order sz k)) [i..sz - 1] \<and>
    b' = b\<lparr>sb_Block := sb_Block b'\<rparr> \<and> (\<forall>n. bl_Next (sb_Block b' n) = bl_Next (sb_Block b n)) \<and>
    (\<forall>n. n \<notin> set ns \<longrightarrow> sb_Block b' n = sb_Block b n) \<and>
    (\<forall>n\<in>set ns. length (bl_Data (sb_Block b' n)) = nat (sb_MSS b)) \<and>
    (\<forall>n\<in>set ns. 0 < bl_Length (sb_Block b' n) \<and> bl_TTL (sb_Block b' n) = ttl)"
  using assms
proof (induction ns arbitrary: b s i)
  case Nil
  then have "(s', b') = (s, b)" by (subst (asm) fill_blocks.simps) simp
  with Nil show ?case by (simp add: packets_def)
next
  case (Cons n ns)
  let ?m = "sb_MSS b" and ?bl = "sb_Block b n"
  let ?pl = "min (len - i * ?m) ?m"
  let ?bl' = "?bl\<lparr>bl_Data := msg_chunk data len ?m i @ drop (nat ?pl) (bl_Data ?bl),
    bl_Length := ?pl, bl_MsgNo := msg_word (sb_NextMsgNo b) order sz i, bl_OriginTime := time, bl_TTL := ttl\<rparr>"
  let ?b = "put_block n ?bl' b"
  have i: "i < sz" "i * ?m \<le> (sz - 1) * ?m" using Cons.prems(3,5) by (auto intro: mult_right_mono)
  then have im: "i * ?m < len" using Cons.prems(7) by linarith
  have pl: "0 < ?pl" "?pl \<le> len - i * ?m" "?pl \<le> ?m" using Cons.prems(5) im by auto
  have lc: "length (msg_chunk data len ?m i) = nat ?pl"
    using pl Cons.prems(4,5,6) by (auto simp: msg_chunk_def nat_le_iff of_nat_diff)
  have n: "n = s" using Cons.prems(1) by simp
  have step: "fill_blocks data len ttl order time sz (i + 1) (bl_Next ?bl) ?b = (s', b')"
    using Cons.prems(9) i(1) n by (subst (asm) fill_blocks.simps) (simp add: Let_def)
  have nx: "bl_Next (sb_Block ?b x) = bl_Next (sb_Block b x)" for x by (simp add: put_block_def)
  have other: "sb_Block ?b x = sb_Block b x" if "x \<noteq> n" for x using that by (simp add: put_block_def)
  have ld: "length (bl_Data (sb_Block ?b n)) = nat ?m"
    using lc pl Cons.prems(8) by (simp add: put_block_def nat_le_eq_zle)
  have "path (sb_Block ?b) (bl_Next ?bl) ns q"
    using Cons.prems(1) n path_cong [of ns "sb_Block ?b" "sb_Block b"] nx by simp
  from Cons.IH [OF this, of "i + 1"] Cons.prems other step have ih:
    "s' = q" "packets b' ns = map (\<lambda>k. (msg_chunk data len ?m k, msg_word (sb_NextMsgNo b) order sz k)) [i + 1..sz - 1]"
    "b' = ?b\<lparr>sb_Block := sb_Block b'\<rparr>" "\<forall>x. bl_Next (sb_Block b' x) = bl_Next (sb_Block ?b x)"
    "\<forall>x. x \<notin> set ns \<longrightarrow> sb_Block b' x = sb_Block ?b x" "\<forall>x\<in>set ns. length (bl_Data (sb_Block b' x)) = nat ?m"
    "\<forall>x\<in>set ns. 0 < bl_Length (sb_Block b' x) \<and> bl_TTL (sb_Block b' x) = ttl"
    by (auto simp: put_block_def)
  have bn: "sb_Block b' n = ?bl'" using ih(5) Cons.prems(2) by (simp add: put_block_def)
  have "packets b' (n # ns) = (msg_chunk data len ?m i, msg_word (sb_NextMsgNo b) order sz i) # packets b' ns"
    using bn lc by (simp add: packets_def block_bytes_def)
  moreover have "[i..sz - 1] = i # [i + 1..sz - 1]" using i(1) by (simp add: upto_rec1)
  moreover have "b' = b\<lparr>sb_Block := sb_Block b'\<rparr>" using ih(3) by (simp add: put_block_def)
  ultimately show ?case
    using ih nx other ld Cons.prems(2) bn pl(1) by (auto simp: put_block_def)
qed

section \<open>Reading what was added\<close>

text \<open>Everything that waits to be sent, read packet by packet.\<close>

fun read_all :: "nat \<Rightarrow> CSndBuffer \<Rightarrow> (byte list \<times> uint32) list" where
  "read_all 0 b = []"
| "read_all (Suc f) b =
     (case CSndBuffer_readData b of
        (None, b) \<Rightarrow> []
      | (Some (n, d, m), b) \<Rightarrow> (d, m) # read_all f b)"

definition pending :: "CSndBuffer \<Rightarrow> (byte list \<times> uint32) list" where
  "pending b = read_all (nat (sb_Size b)) b"

lemma read_all_path:
  "path (sb_Block b) (sb_Curr b) vs (sb_Last b) \<Longrightarrow> distinct vs \<Longrightarrow> sb_Last b \<notin> set vs \<Longrightarrow> length vs < f \<Longrightarrow>
     read_all f b = packets b vs"
proof (induction vs arbitrary: b f)
  case Nil
  then show ?case by (cases f) (auto simp: CSndBuffer_readData_def packets_def)
next
  case (Cons v vs)
  obtain f' where f: "f = Suc f'" using Cons.prems(4) by (cases f) auto
  let ?b = "b\<lparr>sb_Curr := bl_Next (sb_Block b v)\<rparr>"
  have v: "v = sb_Curr b" "sb_Curr b \<noteq> sb_Last b" using Cons.prems by auto
  have "read_all f' ?b = packets ?b vs"
    using Cons.prems v f by (intro Cons.IH) auto
  then show ?case
    using v by (simp add: f CSndBuffer_readData_def packets_def Let_def)
qed

lemma ring_pending:
  assumes "ring b us vs ws"
  shows "pending b = packets b vs"
proof -
  have "sb_Last b \<in> set ws" "sb_Last b \<notin> set vs" "distinct vs"
    using assms by (cases ws; auto simp: ring_def)+
  moreover have "length vs < nat (sb_Size b)" using assms by (cases ws) (auto simp: ring_def)
  ultimately show ?thesis
    unfolding pending_def using assms by (intro read_all_path) (auto simp: ring_def)
qed

text \<open>The chunks of a message put together.\<close>

lemma concat_chunks:
  assumes "0 < m" "int (length data) = len" "(n - 1) * m < len" "len \<le> n * m" "0 \<le> i" "i \<le> n"
  shows "concat (map (msg_chunk data len m) [i..n - 1]) = drop (nat (i * m)) data"
  using assms(5,6)
proof (induction "nat (n - i)" arbitrary: i)
  case 0
  then have "i = n" by simp
  then show ?case using assms(1,2,4) 0 by simp
next
  case (Suc k)
  then have i: "i < n" by simp
  have "i * m \<le> (n - 1) * m" using i assms(1) by (intro mult_right_mono) auto
  then have im: "i * m < len" "0 \<le> i * m" using assms(1,3) Suc.prems by (linarith, simp)
  have e: "(i + 1) * m = i * m + m" by (simp add: algebra_simps)
  have ih: "concat (map (msg_chunk data len m) [i + 1..n - 1]) = drop (nat (i * m + m)) data"
    using Suc.hyps(1) [of "i + 1"] Suc.hyps(2) Suc.prems i e by simp
  have "nat (i * m + m) = nat (i * m) + nat m" using im assms(1) by (simp add: nat_add_distrib)
  then have "msg_chunk data len m i @ drop (nat (i * m + m)) data = drop (nat (i * m)) data"
    using assms(2) im
    by (cases "len - i * m \<le> m")
      (auto simp: msg_chunk_def min_def nat_diff_distrib append_take_drop_id [symmetric] simp flip: drop_drop,
       metis append_take_drop_id add.commute drop_drop)
  moreover have "[i..n - 1] = i # [i + 1..n - 1]" using i by (simp add: upto_rec1)
  ultimately show ?case using ih by simp
qed

definition message_packets :: "byte list \<Rightarrow> int \<Rightarrow> bool \<Rightarrow> CSndBuffer \<Rightarrow> (byte list \<times> uint32) list" where
  "message_packets data len order b =
    map (\<lambda>i. (msg_chunk data len (sb_MSS b) i, msg_word (sb_NextMsgNo b) order (msg_blocks len b) i))
      [0..msg_blocks len b - 1]"

lemma packets_mono:
  "(\<And>n. n \<in> set ns \<Longrightarrow> sb_Block b' n = sb_Block b n) \<Longrightarrow> packets b' ns = packets b ns"
  by (simp add: packets_def)

lemma addBuffer_ring:
  assumes r: "ring b us vs ws" and len: "0 < len" "int (length data) = len"
    and add: "CSndBuffer_addBuffer garbage (\<lambda>_. True) time data len ttl order b = res"
  shows "\<exists>b' ns rest. res = Some (Inr b') \<and> ring b' us (vs @ ns) rest \<and>
    (\<forall>n\<in>set (us @ vs). sb_Block b' n = sb_Block b n) \<and> packets b' ns = message_packets data len order b \<and>
    (\<forall>n\<in>set ns. 0 < bl_Length (sb_Block b' n) \<and> bl_TTL (sb_Block b' n) = ttl) \<and>
    sb_Count b' = sb_Count b + msg_blocks len b"
proof -
  define sz where "sz = msg_blocks len b"
  have m: "0 < sb_MSS b" using r by (simp add: ring_def)
  note sz = msg_blocks_bounds [OF len(1) m, folded sz_def]
  obtain b1 ws1 where g: "grow garbage (\<lambda>_. True) sz b = Some (Inr b1)" "ring b1 us vs ws1"
    "\<forall>n\<in>set (us @ vs). sb_Block b1 n = sb_Block b n" "sb_Count b1 = sb_Count b" "sb_MSS b1 = sb_MSS b"
    "sb_NextMsgNo b1 = sb_NextMsgNo b" "sz + sb_Count b1 < sb_Size b1"
    using grow_ring [OF r refl, of garbage sz] by blast
  have room: "sz < int (length ws1)" using g(2,7) by (simp add: ring_def)
  define ns rest where "ns = take (nat sz) ws1" and "rest = drop (nat sz) ws1"
  have ws1: "ws1 = ns @ rest" "int (length ns) = sz" "rest \<noteq> []"
    using room sz(1) by (auto simp: ns_def rest_def)
  obtain q where p: "path (sb_Block b1) (sb_Last b1) ns q" "path (sb_Block b1) q rest (sb_First b1)"
    using g(2) ws1(1) by (auto simp: ring_def path_append)
  obtain s b2 where f: "fill_blocks data len ttl order time sz 0 (sb_Last b1) b1 = (s, b2)" by fastforce
  have dn: "distinct ns" "\<forall>n\<in>set ns. length (bl_Data (sb_Block b1 n)) = nat (sb_MSS b1)"
    using g(2) ws1(1) by (auto simp: ring_def)
  have fs: "s = q" "packets b2 ns = map (\<lambda>k. (msg_chunk data len (sb_MSS b) k, msg_word (sb_NextMsgNo b) order sz k)) [0..sz - 1]"
    "b2 = b1\<lparr>sb_Block := sb_Block b2\<rparr>" "\<And>n. bl_Next (sb_Block b2 n) = bl_Next (sb_Block b1 n)"
    "\<And>n. n \<notin> set ns \<Longrightarrow> sb_Block b2 n = sb_Block b1 n"
    "\<And>n. n \<in> set ns \<Longrightarrow> length (bl_Data (sb_Block b2 n)) = nat (sb_MSS b1)"
    "\<And>n. n \<in> set ns \<Longrightarrow> 0 < bl_Length (sb_Block b2 n) \<and> bl_TTL (sb_Block b2 n) = ttl"
    using fill_blocks_spec [OF p(1) dn(1) _ order.refl _ len(2) _ dn(2) f] ws1(2) sz(2) m g(5,6) by auto
  have b2: "sb_First b2 = sb_First b1" "sb_Curr b2 = sb_Curr b1" "sb_Alloc b2 = sb_Alloc b1" "sb_MSS b2 = sb_MSS b1"
    "sb_Buffers b2 = sb_Buffers b1" "sb_Size b2 = sb_Size b1" "sb_Count b2 = sb_Count b1"
    by (subst fs(3), simp)+
  obtain b4 where res: "res = Some (Inr b4)" and b4: "sb_Block b4 = sb_Block b2" "sb_First b4 = sb_First b1"
    "sb_Curr b4 = sb_Curr b1" "sb_Last b4 = q" "sb_Alloc b4 = sb_Alloc b1" "sb_MSS b4 = sb_MSS b1"
    "sb_Buffers b4 = sb_Buffers b1" "sb_Size b4 = sb_Size b1" "sb_Count b4 = sb_Count b1 + sz"
  proof -
    have e: "res = Some (Inr (let b = b2\<lparr>sb_Last := q, sb_Count := sb_Count b2 + sz\<rparr>;
        b = b\<lparr>sb_NextMsgNo := sb_NextMsgNo b + 1\<rparr>
        in if sb_NextMsgNo b = m_iMaxMsgNo then b\<lparr>sb_NextMsgNo := 1\<rparr> else b))"
      using add g(1) f unfolding CSndBuffer_addBuffer_def Let_def sz_def [symmetric] by (simp add: fs(1))
    show ?thesis
      by (rule that [OF e]) (simp_all add: Let_def b2)
  qed
  have nx: "path (sb_Block b2) x ys y = path (sb_Block b1) x ys y" for x ys y
    by (rule path_cong) (rule fs(4))
  have old: "sb_Block b2 n = sb_Block b1 n" if "n \<in> set (us @ vs)" for n
    using that g(2) ws1(1) by (intro fs(5)) (auto simp: ring_def)
  have ring4: "ring b4 us (vs @ ns) rest"
    unfolding ring_def
  proof (intro conjI)
    show "path (sb_Block b4) (sb_First b4) us (sb_Curr b4)" "path (sb_Block b4) (sb_Curr b4) (vs @ ns) (sb_Last b4)"
      "path (sb_Block b4) (sb_Last b4) rest (sb_First b4)"
      using g(2) p by (auto simp: ring_def b4 nx path_append)
    show "\<forall>n\<in>set (us @ (vs @ ns) @ rest). n < sb_Alloc b4 \<and> length (bl_Data (sb_Block b4 n)) = nat (sb_MSS b4)"
    proof
      fix n assume "n \<in> set (us @ (vs @ ns) @ rest)"
      then have "n \<in> set (us @ vs @ ws1)" using ws1(1) by auto
      then have "n < sb_Alloc b1" "length (bl_Data (sb_Block b1 n)) = nat (sb_MSS b1)"
        using g(2) by (auto simp: ring_def)
      then show "n < sb_Alloc b4 \<and> length (bl_Data (sb_Block b4 n)) = nat (sb_MSS b4)"
        using fs(5,6) [of n] by (cases "n \<in> set ns") (simp_all add: b4)
    qed
  qed (use g(2) ws1 in \<open>auto simp: ring_def b4\<close>)
  have "\<forall>n\<in>set (us @ vs). sb_Block b4 n = sb_Block b n" using old g(3) by (simp add: b4(1) del: set_append)
  moreover have "packets b4 ns = message_packets data len order b"
    using fs(2) by (simp add: packets_def b4(1) message_packets_def sz_def [symmetric])
  moreover have "\<forall>n\<in>set ns. 0 < bl_Length (sb_Block b4 n) \<and> bl_TTL (sb_Block b4 n) = ttl" using fs(7) by (simp add: b4(1))
  moreover have "sb_Count b4 = sb_Count b + msg_blocks len b" using b4(9) g(4) by (simp add: sz_def)
  ultimately show ?thesis using res ring4 by blast
qed

lemma addBuffer_any:
  assumes r: "ring b us vs ws" and add: "CSndBuffer_addBuffer garbage mem time data len ttl order b = Some x"
  shows "case x of
      Inl (e, b') \<Rightarrow> e = exc 3 2 \<and> sb_inv b' \<and> pending b' = pending b \<and> (\<exists>c. \<not> mem c)
    | Inr b' \<Rightarrow> CSndBuffer_addBuffer garbage (\<lambda>_. True) time data len ttl order b = Some (Inr b')"
proof -
  obtain g where g: "grow garbage mem (msg_blocks len b) b = Some g"
    using add by (cases "grow garbage mem (msg_blocks len b) b") (auto simp: CSndBuffer_addBuffer_def Let_def)
  show ?thesis
  proof (cases g)
    case (Inl y)
    then obtain e b' where y: "g = Inl (e, b')" by (cases y) auto
    then have x: "x = Inl (e, b')" using add g by (simp add: CSndBuffer_addBuffer_def Let_def)
    obtain ws' where w: "e = exc 3 2" "ring b' us vs ws'" "\<forall>n\<in>set (us @ vs). sb_Block b' n = sb_Block b n" "\<exists>c. \<not> mem c"
      using grow_any [OF r g] y by auto
    have "packets b' vs = packets b vs" using w(3) by (intro packets_mono) simp
    then show ?thesis using w ring_pending [OF w(2)] ring_pending [OF r] by (auto simp: x sb_inv_def)
  next
    case (Inr b1)
    then have "grow garbage (\<lambda>_. True) (msg_blocks len b) b = Some (Inr b1)" using grow_any [OF r g] by simp
    moreover obtain s b2 where "fill_blocks data len ttl order time (msg_blocks len b) 0 (sb_Last b1) b1 = (s, b2)" by fastforce
    ultimately show ?thesis using add g Inr by (auto simp: CSndBuffer_addBuffer_def Let_def)
  qed
qed

lemma concat_message:
  assumes "0 < sb_MSS b" "0 < len" "int (length data) = len"
  shows "concat (map fst (message_packets data len order b)) = data"
  using concat_chunks [OF assms(1,3) msg_blocks_bounds(2,3) [OF assms(2,1)] order.refl] msg_blocks_bounds(1) [OF assms(2,1)]
  by (simp add: message_packets_def o_def)

lemma new_ring:
  assumes "0 < sz" "0 < mss"
  shows "ring (CSndBuffer_new garbage sz mss) [] [] [0..<nat sz]"
proof -
  have "path (sb_Block (CSndBuffer_new garbage sz mss)) 0 [0..<nat sz] 0"
    using assms by (intro path_upt) (auto simp: CSndBuffer_new_def fresh_block_def)
  then show ?thesis
    using assms by (auto simp: ring_def CSndBuffer_new_def fresh_block_def)
qed

lemma ackData_ring:
  assumes "ring b us vs ws" "0 \<le> offset" "offset \<le> int (length us)"
  shows "ring (CSndBuffer_ackData offset b) (drop (nat offset) us) vs (ws @ take (nat offset) us) \<and>
    pending (CSndBuffer_ackData offset b) = pending b \<and>
    CSndBuffer_getCurrBufSize (CSndBuffer_ackData offset b) = CSndBuffer_getCurrBufSize b - offset"
proof -
  define xs ys where "xs = take (nat offset) us" and "ys = drop (nat offset) us"
  have us: "us = xs @ ys" "length xs = nat offset" using assms(2,3) by (auto simp: xs_def ys_def)
  let ?b = "CSndBuffer_ackData offset b"
  obtain p where p: "path (sb_Block b) (sb_First b) xs p" "path (sb_Block b) p ys (sb_Curr b)"
    using assms(1) us(1) by (auto simp: ring_def path_append)
  have f: "sb_First ?b = p" using path_skip [OF p(1)] us(2) by (simp add: CSndBuffer_ackData_def)
  have r: "ring ?b ys vs (ws @ xs)"
    using assms p us f by (auto simp: ring_def CSndBuffer_ackData_def path_append)
  have "pending ?b = pending b"
    using ring_pending [OF r] ring_pending [OF assms(1)] by (simp add: packets_def CSndBuffer_ackData_def)
  then show ?thesis using r by (simp add: xs_def ys_def CSndBuffer_getCurrBufSize_def CSndBuffer_ackData_def)
qed

text \<open>C29: acknowledging as many packets as were sent frees exactly those: what waits to be sent stays,
  and the buffer holds that many packets less.\<close>

theorem ack_frees_sent:
  assumes "ring b us vs ws" "0 \<le> offset" "offset \<le> int (length us)"
  shows "ring (CSndBuffer_ackData offset b) (drop (nat offset) us) vs (ws @ take (nat offset) us) \<and>
    pending (CSndBuffer_ackData offset b) = pending b \<and>
    CSndBuffer_getCurrBufSize (CSndBuffer_ackData offset b) = CSndBuffer_getCurrBufSize b - offset"
  by (rule ackData_ring [OF assms])

theorem ack_frees_sent_witness:
  "CSndBuffer_getCurrBufSize (CSndBuffer_ackData 1
     ((CSndBuffer_new (\<lambda>_. undefined) 3 2)\<lparr>sb_Curr := 1, sb_Last := 1, sb_Count := 1\<rparr>)) = 0"
proof -
  let ?b = "(CSndBuffer_new (\<lambda>_. undefined) 3 2)\<lparr>sb_Curr := 1, sb_Last := 1, sb_Count := 1\<rparr>"
  have "ring ?b [0] [] [1, 2]"
    by (auto simp: ring_def CSndBuffer_new_def fresh_block_def numeral_eq_Suc)
  from ack_frees_sent [OF this, of 1] show ?thesis by (simp add: CSndBuffer_getCurrBufSize_def)
qed

end
