(* ===== verification/RcvBuffer.thy ===== *)
theory RcvBuffer imports UnitQueue begin

text \<open>
  The receiver's buffer, class \<open>CRcvBuffer\<close> (\<open>buffer.h\<close>, \<open>buffer.cpp\<close>): a circular array of
  pointers to units of the pool. From \<open>m_iStartPos\<close> to \<open>m_iLastAckPos\<close> the packets are
  acknowledged, the next \<open>m_iMaxPos\<close> places hold what arrived beyond. The operations also write
  the units' flags and the pool's count, so they take and return the pool \<open>q\<close>. Loops over the
  array carry a fuel of one more than its size; \<open>scan_total\<close> and \<open>read_total\<close> show it suffices.
\<close>

section \<open>State\<close>

record CRcvBuffer =
  rb_Unit :: "unit_ref option list"
  rb_Size :: int
  rb_StartPos :: int
  rb_LastAckPos :: int
  rb_MaxPos :: int

definition CRcvBuffer_new :: "int \<Rightarrow> CRcvBuffer" where
  "CRcvBuffer_new sz = \<lparr>rb_Unit = replicate (nat sz) None, rb_Size = sz, rb_StartPos = 0,
     rb_LastAckPos = 0, rb_MaxPos = 0\<rparr>"

definition free_unit :: "unit_ref \<Rightarrow> CUnitQueue \<Rightarrow> CUnitQueue" where
  "free_unit u q = add_Count (- 1) (set_flag u 0 q)"

text \<open>The destructor gives the units back.\<close>

definition CRcvBuffer_delete :: "CRcvBuffer \<Rightarrow> CUnitQueue \<Rightarrow> CUnitQueue" where
  "CRcvBuffer_delete b q = fold (\<lambda>u q. case u of None \<Rightarrow> q | Some u \<Rightarrow> free_unit u q) (rb_Unit b) q"

abbreviation slot :: "CRcvBuffer \<Rightarrow> int \<Rightarrow> unit_ref option" where
  "slot b i \<equiv> aget (rb_Unit b) i"

definition put_slot :: "int \<Rightarrow> unit_ref option \<Rightarrow> CRcvBuffer \<Rightarrow> CRcvBuffer" where
  "put_slot i u b = b\<lparr>rb_Unit := aset (rb_Unit b) i u\<rparr>"

text \<open>\<open>if (++ i == m_iSize) i = 0\<close>\<close>

definition next_pos :: "CRcvBuffer \<Rightarrow> int \<Rightarrow> int" where
  "next_pos b i = (if i + 1 = rb_Size b then 0 else i + 1)"

section \<open>Storing\<close>

definition CRcvBuffer_addData :: "unit_ref \<Rightarrow> int \<Rightarrow> CRcvBuffer \<Rightarrow> CUnitQueue \<Rightarrow> int \<times> CRcvBuffer \<times> CUnitQueue" where
  "CRcvBuffer_addData u offset b q =
    (let pos = (rb_LastAckPos b + offset) smod rb_Size b;
         b = (if offset > rb_MaxPos b then b\<lparr>rb_MaxPos := offset\<rparr> else b)
     in if None \<noteq> slot b pos then (-1, b, q)
        else (0, put_slot pos (Some u) b, add_Count 1 (set_flag u 1 q)))"

definition CRcvBuffer_ackData :: "int \<Rightarrow> CRcvBuffer \<Rightarrow> CRcvBuffer" where
  "CRcvBuffer_ackData len b =
    (let b = b\<lparr>rb_LastAckPos := (rb_LastAckPos b + len) smod rb_Size b, rb_MaxPos := rb_MaxPos b - len\<rparr>
     in if rb_MaxPos b < 0 then b\<lparr>rb_MaxPos := 0\<rparr> else b)"

definition CRcvBuffer_getRcvDataSize :: "CRcvBuffer \<Rightarrow> int" where
  "CRcvBuffer_getRcvDataSize b =
    (if rb_LastAckPos b \<ge> rb_StartPos b then rb_LastAckPos b - rb_StartPos b
     else rb_Size b + rb_LastAckPos b - rb_StartPos b)"

definition CRcvBuffer_getAvailBufSize :: "CRcvBuffer \<Rightarrow> int" where
  "CRcvBuffer_getAvailBufSize b = rb_Size b - CRcvBuffer_getRcvDataSize b - 1"

text \<open>\<open>dropMsg\<close> compares the whole message word of a unit, not the sequence number in it.\<close>

fun drop_from :: "nat \<Rightarrow> int32 \<Rightarrow> int \<Rightarrow> int \<Rightarrow> CRcvBuffer \<Rightarrow> CUnitQueue \<Rightarrow> CUnitQueue option" where
  "drop_from 0 msgno n i b q = None"
| "drop_from (Suc f) msgno n i b q =
     (if i \<noteq> n then
        let q = (case slot b i of
                   None \<Rightarrow> q
                 | Some u \<Rightarrow> if msgno = m_iMsgNo (m_Packet (unit_at q u)) then set_flag u 3 q else q)
        in drop_from f msgno n ((i + 1) smod rb_Size b) b q
      else Some q)"

definition CRcvBuffer_dropMsg :: "int32 \<Rightarrow> CRcvBuffer \<Rightarrow> CUnitQueue \<Rightarrow> CUnitQueue option" where
  "CRcvBuffer_dropMsg msgno b q =
    drop_from (Suc (nat (rb_Size b))) msgno ((rb_LastAckPos b + rb_MaxPos b) smod rb_Size b) (rb_StartPos b) b q"

section \<open>Looking for a message\<close>

text \<open>The look-ahead for the whole message that starts at \<open>m_iStartPos\<close>.\<close>

fun whole_msg :: "nat \<Rightarrow> int \<Rightarrow> CRcvBuffer \<Rightarrow> CUnitQueue \<Rightarrow> bool option" where
  "whole_msg 0 i b q = None"
| "whole_msg (Suc f) i b q =
     (if i \<noteq> rb_LastAckPos b then
        case slot b i of
          None \<Rightarrow> Some False
        | Some u \<Rightarrow>
            if 1 \<noteq> m_iFlag (unit_at q u) then Some False
            else if getMsgBoundary (m_Packet (unit_at q u)) = 1 \<or> getMsgBoundary (m_Packet (unit_at q u)) = 3
            then Some True
            else whole_msg f (next_pos b i) b q
      else Some True)"

text \<open>Skipping what cannot be read at the beginning.\<close>

fun skip_bad :: "nat \<Rightarrow> CRcvBuffer \<Rightarrow> CUnitQueue \<Rightarrow> (CRcvBuffer \<times> CUnitQueue) option" where
  "skip_bad 0 b q = None"
| "skip_bad (Suc f) b q =
     (if rb_StartPos b \<noteq> rb_LastAckPos b then
        case slot b (rb_StartPos b) of
          None \<Rightarrow> skip_bad f (b\<lparr>rb_StartPos := next_pos b (rb_StartPos b)\<rparr>) q
        | Some u \<Rightarrow>
            let drop = skip_bad f (put_slot (rb_StartPos b) None b
                         \<lparr>rb_StartPos := next_pos b (rb_StartPos b)\<rparr>) (free_unit u q)
            in if 1 = m_iFlag (unit_at q u) \<and> getMsgBoundary (m_Packet (unit_at q u)) > 1 then
                 case whole_msg (Suc (nat (rb_Size b))) (rb_StartPos b) b q of
                   None \<Rightarrow> None
                 | Some good \<Rightarrow> if good then Some (b, q) else drop
               else drop
      else Some (b, q))"

text \<open>The search for the first message, \<open>k\<close> more places: found or not, head, tail, \<open>passack\<close>.\<close>

fun find_msg :: "nat \<Rightarrow> CRcvBuffer \<Rightarrow> CUnitQueue \<Rightarrow> int \<Rightarrow> int \<Rightarrow> bool \<Rightarrow> bool \<times> int \<times> int \<times> bool" where
  "find_msg 0 b pool p q passack = (False, p, q, passack)"
| "find_msg (Suc k) b pool p q passack =
     (let (p, found, order) =
            (case slot b q of
               None \<Rightarrow> (- 1, False, False)
             | Some u \<Rightarrow>
                 if 1 = m_iFlag (unit_at pool u) then
                   let pkt = m_Packet (unit_at pool u); bd = getMsgBoundary pkt
                   in if bd = 3 then (q, True, getMsgOrderFlag pkt)
                      else if bd = 2 then (q, False, getMsgOrderFlag pkt)
                      else if bd = 1 then (p, p \<noteq> - 1, getMsgOrderFlag pkt)
                      else (p, False, getMsgOrderFlag pkt)
                 else (- 1, False, False))
      in if found \<and> (\<not> passack \<or> \<not> order) then (True, p, q, passack)
         else
           let q = next_pos b q;
               passack = (if q = rb_LastAckPos b then True else passack)
           in find_msg k b pool p q passack)"

definition CRcvBuffer_scanMsg ::
    "CRcvBuffer \<Rightarrow> CUnitQueue \<Rightarrow> ((bool \<times> int \<times> int \<times> bool) \<times> CRcvBuffer \<times> CUnitQueue) option" where
  "CRcvBuffer_scanMsg b q0 =
    (if rb_StartPos b = rb_LastAckPos b \<and> rb_MaxPos b \<le> 0 then Some ((False, - 1, - 1, False), b, q0)
     else
       map_option (\<lambda>(b, q0).
         let q = rb_StartPos b;
             passack = (rb_StartPos b = rb_LastAckPos b);
             n = rb_MaxPos b + CRcvBuffer_getRcvDataSize b;
             (found, p, q, passack) = find_msg (nat (n + 1)) b q0 (- 1) q passack;
             found = (if \<not> found then p \<noteq> - 1 \<and> (q + 1) smod rb_Size b = p else found)
         in ((found, p, q, passack), b, q0))
       (skip_bad (Suc (nat (rb_Size b))) b q0))"

definition CRcvBuffer_getRcvMsgNum :: "CRcvBuffer \<Rightarrow> CUnitQueue \<Rightarrow> (int \<times> CRcvBuffer \<times> CUnitQueue) option" where
  "CRcvBuffer_getRcvMsgNum b q =
    map_option (\<lambda>((found, _), b, q). (if found then 1 else 0, b, q)) (CRcvBuffer_scanMsg b q)"

section \<open>Reading a message\<close>

text \<open>The copying loop: the bytes copied, the room left and the new state.\<close>

fun copy_msg ::
    "nat \<Rightarrow> int \<Rightarrow> int \<Rightarrow> bool \<Rightarrow> int \<Rightarrow> CRcvBuffer \<Rightarrow> CUnitQueue \<Rightarrow>
     (byte list \<times> int \<times> CRcvBuffer \<times> CUnitQueue) option" where
  "copy_msg 0 p q passack rs b pool = None"
| "copy_msg (Suc f) p q passack rs b pool =
     (if p \<noteq> (q + 1) smod rb_Size b then
        let u = the (slot b p);
            pkt = m_Packet (unit_at pool u);
            unitsize = (if rs \<ge> 0 \<and> getLength pkt > rs then rs else getLength pkt);
            bytes = (if unitsize > 0 then take (nat unitsize) (m_pcData pkt) else []);
            rs = (if unitsize > 0 then rs - unitsize else rs);
            (b, pool) = (if \<not> passack then (put_slot p None b, free_unit u pool) else (b, set_flag u 2 pool))
        in map_option (\<lambda>(d, r). (bytes @ d, r)) (copy_msg f (next_pos b p) q passack rs b pool)
      else Some ([], rs, b, pool))"

definition CRcvBuffer_readMsg :: "int \<Rightarrow> CRcvBuffer \<Rightarrow> CUnitQueue \<Rightarrow> (int \<times> byte list \<times> CRcvBuffer \<times> CUnitQueue) option" where
  "CRcvBuffer_readMsg len b pool =
    (case CRcvBuffer_scanMsg b pool of
       None \<Rightarrow> None
     | Some ((found, p, q, passack), b, pool) \<Rightarrow>
         if \<not> found then Some (0, [], b, pool)
         else
           map_option (\<lambda>(d, rs, b, pool).
             (len - rs, d, if \<not> passack then b\<lparr>rb_StartPos := (q + 1) smod rb_Size b\<rparr> else b, pool))
           (copy_msg (Suc (nat (rb_Size b))) p q passack len b pool))"

section \<open>Positions\<close>

definition rb_inv :: "CRcvBuffer \<Rightarrow> bool" where
  "rb_inv b \<longleftrightarrow> 0 < rb_Size b \<and> length (rb_Unit b) = nat (rb_Size b) \<and>
     0 \<le> rb_StartPos b \<and> rb_StartPos b < rb_Size b \<and>
     0 \<le> rb_LastAckPos b \<and> rb_LastAckPos b < rb_Size b \<and> 0 \<le> rb_MaxPos b"

lemma new_buffer_inv: "0 < sz \<Longrightarrow> rb_inv (CRcvBuffer_new sz)"
  by (simp add: rb_inv_def CRcvBuffer_new_def)

lemma next_pos_range: "0 \<le> i \<Longrightarrow> i < rb_Size b \<Longrightarrow> 0 \<le> next_pos b i \<and> next_pos b i < rb_Size b"
  by (auto simp: next_pos_def)

text \<open>The distance to a place of the ring becomes less with every step.\<close>

definition ring_dist :: "CRcvBuffer \<Rightarrow> int \<Rightarrow> int \<Rightarrow> nat" where
  "ring_dist b i j = nat ((j - i) mod rb_Size b)"

lemma ring_dist_le: "0 < rb_Size b \<Longrightarrow> ring_dist b i j < nat (rb_Size b)"
  by (simp add: ring_dist_def nat_less_iff)

lemma ring_dist_next:
  assumes "0 \<le> i" "i < rb_Size b" "0 \<le> j" "j < rb_Size b" "i \<noteq> j"
  shows "ring_dist b i j = Suc (ring_dist b (next_pos b i) j)"
proof -
  let ?n = "rb_Size b"
  have m: "x mod ?n = (if x < 0 then x + ?n else x)" if "- ?n \<le> x" "x < ?n" for x
  proof (cases "x < 0")
    case True
    have "(x + ?n) mod ?n = x + ?n" using True that by (intro mod_pos_pos_trivial) auto
    then show ?thesis using True by simp
  qed (use that in simp)
  have "(j - i) mod ?n = (if j - i < 0 then j - i + ?n else j - i)" using assms by (intro m) auto
  moreover have "(j - next_pos b i) mod ?n = (if j - next_pos b i < 0 then j - next_pos b i + ?n else j - next_pos b i)"
    using assms next_pos_range [of i b] by (intro m) auto
  ultimately show ?thesis using assms by (auto simp: ring_dist_def next_pos_def split: if_splits)
qed

text \<open>Updates that keep size and positions.\<close>

lemma put_slot_simps [simp]:
  "rb_Size (put_slot i u b) = rb_Size b" "rb_StartPos (put_slot i u b) = rb_StartPos b"
  "rb_LastAckPos (put_slot i u b) = rb_LastAckPos b" "rb_MaxPos (put_slot i u b) = rb_MaxPos b"
  "next_pos (put_slot i u b) = next_pos b" "rb_inv (put_slot i u b) = rb_inv b"
  by (auto simp: put_slot_def next_pos_def rb_inv_def fun_eq_iff)

lemma next_pos_upd [simp]: "next_pos (b\<lparr>rb_StartPos := i\<rparr>) = next_pos b"
  by (auto simp: next_pos_def fun_eq_iff)

lemma whole_msg_total:
  "rb_inv b \<Longrightarrow> 0 \<le> i \<Longrightarrow> i < rb_Size b \<Longrightarrow> ring_dist b i (rb_LastAckPos b) < f \<Longrightarrow> whole_msg f i b q \<noteq> None"
proof (induction f arbitrary: i)
  case (Suc f)
  then show ?case
    using ring_dist_next [of i b "rb_LastAckPos b"] next_pos_range [of i b]
    by (auto simp: rb_inv_def split: option.splits)
qed simp

lemma skip_bad_total:
  "rb_inv b \<Longrightarrow> ring_dist b (rb_StartPos b) (rb_LastAckPos b) < f \<Longrightarrow>
     \<exists>b' q'. skip_bad f b q = Some (b', q') \<and> rb_inv b' \<and> rb_Size b' = rb_Size b \<and>
       rb_LastAckPos b' = rb_LastAckPos b \<and> rb_MaxPos b' = rb_MaxPos b"
proof (induction f arbitrary: b q)
  case (Suc f)
  have r: "0 \<le> rb_StartPos b" "rb_StartPos b < rb_Size b" "0 \<le> rb_LastAckPos b" "rb_LastAckPos b < rb_Size b"
    using Suc.prems(1) by (simp_all add: rb_inv_def)
  show ?case
  proof (cases "rb_StartPos b = rb_LastAckPos b")
    case False
    let ?p = "next_pos b (rb_StartPos b)"
    let ?b1 = "b\<lparr>rb_StartPos := ?p\<rparr>" and ?b2 = "put_slot (rb_StartPos b) None b\<lparr>rb_StartPos := ?p\<rparr>"
    have inv: "rb_inv ?b1" "rb_inv ?b2"
      using Suc.prems(1) next_pos_range [OF r(1,2)] by (simp_all add: rb_inv_def put_slot_def)
    have d: "ring_dist ?b1 ?p (rb_LastAckPos b) < f" "ring_dist ?b2 ?p (rb_LastAckPos b) < f"
      using Suc.prems(2) ring_dist_next [OF r False] by (simp_all add: ring_dist_def)
    have w: "whole_msg (Suc (nat (rb_Size b))) (rb_StartPos b) b q \<noteq> None"
      using Suc.prems(1) r ring_dist_le [of b "rb_StartPos b" "rb_LastAckPos b"]
      by (intro whole_msg_total) (auto simp: rb_inv_def)
    show ?thesis
    proof (cases "slot b (rb_StartPos b)")
      case None
      then show ?thesis using Suc.IH [OF inv(1), of q] d(1) False by simp
    next
      case (Some u)
      have rec: "\<exists>b' q'. skip_bad f ?b2 (free_unit u q) = Some (b', q') \<and> rb_inv b' \<and> rb_Size b' = rb_Size b \<and>
          rb_LastAckPos b' = rb_LastAckPos b \<and> rb_MaxPos b' = rb_MaxPos b"
        using Suc.IH [OF inv(2), of "free_unit u q"] d(2) by simp
      obtain good where "whole_msg (Suc (nat (rb_Size b))) (rb_StartPos b) b q = Some good" using w by auto
      then show ?thesis using Some False rec Suc.prems(1) by (simp add: Let_def del: whole_msg.simps)
    qed
  qed (use Suc.prems in simp)
qed simp

lemma find_msg_range:
  "find_msg k b pool p q pa = (found, p', q', pa') \<Longrightarrow> 0 \<le> q \<Longrightarrow> q < rb_Size b \<Longrightarrow> -1 \<le> p \<Longrightarrow> p < rb_Size b \<Longrightarrow>
     0 \<le> q' \<and> q' < rb_Size b \<and> -1 \<le> p' \<and> p' < rb_Size b \<and> (found \<longrightarrow> 0 \<le> p')"
proof (induction k arbitrary: p q pa)
  case (Suc k)
  note n = next_pos_range [OF Suc.prems(2,3)]
  show ?case
    using Suc.prems n by (auto simp: Let_def split: option.splits if_splits dest!: Suc.IH)
qed simp

lemma scan_total:
  assumes "rb_inv b"
  shows "\<exists>found p q pa b' pool'. CRcvBuffer_scanMsg b pool = Some ((found, p, q, pa), b', pool') \<and> rb_inv b' \<and>
    rb_Size b' = rb_Size b \<and> (found \<longrightarrow> 0 \<le> p \<and> p < rb_Size b \<and> 0 \<le> q \<and> q < rb_Size b)"
proof (cases "rb_StartPos b = rb_LastAckPos b \<and> rb_MaxPos b \<le> 0")
  case True
  then show ?thesis using assms by (auto simp: CRcvBuffer_scanMsg_def)
next
  case False
  have "ring_dist b (rb_StartPos b) (rb_LastAckPos b) < Suc (nat (rb_Size b))"
    using ring_dist_le [of b] assms by (simp add: rb_inv_def less_SucI)
  from skip_bad_total [OF assms this, of pool] obtain b' pool' where s:
    "skip_bad (Suc (nat (rb_Size b))) b pool = Some (b', pool')" "rb_inv b'" "rb_Size b' = rb_Size b" by blast
  obtain found p q pa where f: "find_msg (nat (rb_MaxPos b' + CRcvBuffer_getRcvDataSize b' + 1)) b' pool' (- 1)
      (rb_StartPos b') (rb_StartPos b' = rb_LastAckPos b') = (found, p, q, pa)"
    by (metis prod_cases4)
  have r: "0 \<le> q \<and> q < rb_Size b' \<and> -1 \<le> p \<and> p < rb_Size b' \<and> (found \<longrightarrow> 0 \<le> p)"
    by (rule find_msg_range [OF f]) (use s(2) in \<open>auto simp: rb_inv_def\<close>)
  have "CRcvBuffer_scanMsg b pool =
      Some ((if \<not> found then p \<noteq> - 1 \<and> (q + 1) smod rb_Size b' = p else found, p, q, pa), b', pool')"
    unfolding CRcvBuffer_scanMsg_def if_not_P [OF False] s(1) by (simp add: Let_def f)
  then show ?thesis using s(2,3) r by auto
qed

lemma copy_total:
  assumes "rb_inv b" "0 \<le> p" "p < rb_Size b" "0 \<le> q" "q < rb_Size b"
    "ring_dist b p ((q + 1) smod rb_Size b) < f"
  shows "copy_msg f p q pa rs b pool \<noteq> None"
  using assms
proof (induction f arbitrary: p rs b pool)
  case (Suc f)
  have e: "0 \<le> (q + 1) smod rb_Size b" "(q + 1) smod rb_Size b < rb_Size b"
    using Suc.prems by simp_all
  show ?case
  proof (cases "p = (q + 1) smod rb_Size b")
    case False
    have d: "ring_dist b (next_pos b p) ((q + 1) smod rb_Size b) < f"
      using ring_dist_next [OF Suc.prems(2,3) e False] Suc.prems(6) by simp
    have "copy_msg f (next_pos b p) q pa rs' b pool' \<noteq> None" for rs' pool'
      using Suc.IH [of b "next_pos b p"] Suc.prems next_pos_range [OF Suc.prems(2,3)] d by simp
    moreover have "copy_msg f (next_pos b p) q pa rs' (put_slot p None b) pool' \<noteq> None" for rs' pool'
      using Suc.IH [of "put_slot p None b" "next_pos b p"] Suc.prems next_pos_range [OF Suc.prems(2,3)] d
      by (simp add: ring_dist_def)
    ultimately show ?thesis using False by (cases pa) (simp_all add: Let_def del: not_None_eq)
  qed simp
qed simp

text \<open>C23: reading a message always returns: no search or copy loop over the ring runs on, whatever
  the packets in it are.\<close>

theorem readMsg_returns:
  assumes "rb_inv b"
  shows "\<exists>n d b' pool'. CRcvBuffer_readMsg len b pool = Some (n, d, b', pool')"
proof -
  from scan_total [OF assms, of pool] obtain found p q pa b' pool' where s:
    "CRcvBuffer_scanMsg b pool = Some ((found, p, q, pa), b', pool')" "rb_inv b'" "rb_Size b' = rb_Size b"
    "found \<longrightarrow> 0 \<le> p \<and> p < rb_Size b' \<and> 0 \<le> q \<and> q < rb_Size b'" by metis
  show ?thesis
  proof (cases found)
    case False
    then show ?thesis using s(1) by (simp add: CRcvBuffer_readMsg_def)
  next
    case True
    have "ring_dist b' p ((q + 1) smod rb_Size b') < Suc (nat (rb_Size b'))"
      using ring_dist_le [of b'] s(2) by (simp add: rb_inv_def less_SucI)
    then have "copy_msg (Suc (nat (rb_Size b'))) p q pa len b' pool' \<noteq> None"
      using copy_total [OF s(2)] s(4) True by blast
    then obtain d rs b'' pool'' where "copy_msg (Suc (nat (rb_Size b'))) p q pa len b' pool' = Some (d, rs, b'', pool'')"
      by auto
    then show ?thesis using s(1) True by (simp add: CRcvBuffer_readMsg_def del: copy_msg.simps)
  qed
qed

theorem readMsg_returns_witness:
  "\<exists>n d b' pool'. CRcvBuffer_readMsg 10 (CRcvBuffer_new 4) CUnitQueue_new = Some (n, d, b', pool')"
  using readMsg_returns [of "CRcvBuffer_new 4"] new_buffer_inv [of 4] by simp

text \<open>One place of the ring stays empty, so the room left and the data held are within the size
  and add up to one less.\<close>

theorem avail_and_data:
  assumes "rb_inv b"
  shows "CRcvBuffer_getAvailBufSize b + CRcvBuffer_getRcvDataSize b = rb_Size b - 1 \<and>
    0 \<le> CRcvBuffer_getRcvDataSize b \<and> 0 \<le> CRcvBuffer_getAvailBufSize b \<and>
    CRcvBuffer_getRcvDataSize b = (rb_LastAckPos b - rb_StartPos b) mod rb_Size b"
proof -
  have "(rb_Size b + rb_LastAckPos b - rb_StartPos b) mod rb_Size b = (rb_LastAckPos b - rb_StartPos b) mod rb_Size b"
    by (metis add_diff_eq mod_add_self1)
  then show ?thesis
    using assms by (auto simp: CRcvBuffer_getAvailBufSize_def CRcvBuffer_getRcvDataSize_def rb_inv_def)
qed

theorem avail_and_data_witness:
  "CRcvBuffer_getAvailBufSize (CRcvBuffer_ackData 3 (CRcvBuffer_new 8)) = 4"
proof -
  have "rb_inv (CRcvBuffer_ackData 3 (CRcvBuffer_new 8))"
    by (simp add: rb_inv_def CRcvBuffer_ackData_def CRcvBuffer_new_def)
  from avail_and_data [OF this] show ?thesis by (simp add: CRcvBuffer_ackData_def CRcvBuffer_new_def)
qed

text \<open>When a message fills the whole ring, \<open>scanMsg\<close> reports it with its tail just before its head,
  and then \<open>readMsg\<close> copies nothing, returns 0 and frees nothing, so the message stays and the next
  read meets it again.\<close>

theorem oversized_message_not_read:
  assumes "CRcvBuffer_scanMsg b pool = Some ((True, p, q, pa), b', pool')" "(q + 1) smod rb_Size b' = p"
  shows "CRcvBuffer_readMsg len b pool =
    Some (0, [], if \<not> pa then b'\<lparr>rb_StartPos := p\<rparr> else b', pool')"
  using assms by (simp add: CRcvBuffer_readMsg_def)

text \<open>A ring of two places: two packets of one message with neither its end.\<close>

definition example_pkt :: "uint32 \<Rightarrow> byte list \<Rightarrow> CPacket" where
  "example_pkt w d = \<lparr>m_nHeader = [0, w, 0, 0], m_pcData = d, iov_len = int (length d)\<rparr>"

definition example_pool :: CUnitQueue where
  "example_pool = \<lparr>uq_Entries = [[\<lparr>m_Packet = example_pkt 0x80000001 [1, 2], m_iFlag = 1\<rparr>,
      \<lparr>m_Packet = example_pkt 1 [3, 4], m_iFlag = 1\<rparr>]], uq_Curr = 0, uq_Avail = 0, uq_Size = 2, uq_Count = 2,
     uq_MSS = 2, uq_IPversion = 2\<rparr>"

theorem oversized_message_not_read_witness:
  "\<exists>b' pool'. CRcvBuffer_readMsg 100 \<lparr>rb_Unit = [Some (0, 0), Some (0, 1)], rb_Size = 2, rb_StartPos = 0,
     rb_LastAckPos = 1, rb_MaxPos = 1\<rparr> example_pool = Some (0, [], b', pool')"
proof -
  let ?b = "\<lparr>rb_Unit = [Some (0, 0), Some (0, 1)], rb_Size = 2, rb_StartPos = 0, rb_LastAckPos = 1, rb_MaxPos = 1\<rparr>"
  have bd: "getMsgBoundary (example_pkt 0x80000001 d) = 2" "getMsgBoundary (example_pkt 1 d) = 0" for d
    by (simp_all add: getMsgBoundary_def example_pkt_def hdr_def)
  have s: "CRcvBuffer_scanMsg ?b example_pool = Some ((True, 0, 1, True), ?b, example_pool)"
    by (simp add: CRcvBuffer_scanMsg_def example_pool_def numeral_eq_Suc next_pos_def aget_def unit_at_def bd
        CRcvBuffer_getRcvDataSize_def Let_def)
  show ?thesis using oversized_message_not_read [OF s, of 100] by simp
qed

end
