(* ===== verification/AckWindow.thy ===== *)
theory AckWindow imports Memory begin

text \<open>
  The window of sent ACKs, class \<open>CACKWindow\<close> (\<open>window.h\<close>, \<open>window.cpp\<close>): three circular arrays.
  The records from \<open>m_iTail\<close> up to \<open>m_iHead\<close> are the ACKs not yet acknowledged, oldest first;
  \<open>records\<close> is that list, and the operations are shown to be list operations on it. The time is
  an argument.
\<close>

record CACKWindow =
  aw_ACKSeqNo :: "int32 list"
  aw_ACK :: "int32 list"
  aw_TimeStamp :: "uint64 list"
  aw_Size :: int
  aw_Head :: int
  aw_Tail :: int

text \<open>\<open>make_unique<T[]>\<close> zeroes the arrays.\<close>

definition CACKWindow_new :: "int \<Rightarrow> CACKWindow" where
  "CACKWindow_new sz = \<lparr>aw_ACKSeqNo = aset (replicate (nat sz) 0) 0 (-1), aw_ACK = replicate (nat sz) 0,
     aw_TimeStamp = replicate (nat sz) 0, aw_Size = sz, aw_Head = 0, aw_Tail = 0\<rparr>"

definition CACKWindow_store :: "uint64 \<Rightarrow> int32 \<Rightarrow> int32 \<Rightarrow> CACKWindow \<Rightarrow> CACKWindow" where
  "CACKWindow_store now seq ack w =
    (let w = w\<lparr>aw_ACKSeqNo := aset (aw_ACKSeqNo w) (aw_Head w) seq, aw_ACK := aset (aw_ACK w) (aw_Head w) ack,
               aw_TimeStamp := aset (aw_TimeStamp w) (aw_Head w) now\<rparr>;
         w = w\<lparr>aw_Head := (aw_Head w + 1) smod aw_Size w\<rparr>
     in if aw_Head w = aw_Tail w then w\<lparr>aw_Tail := (aw_Tail w + 1) smod aw_Size w\<rparr> else w)"

text \<open>The two search loops: the first index in \<open>i, \<dots>, n - 1\<close> whose record has the number.\<close>

function find_ack :: "(int \<Rightarrow> int) \<Rightarrow> int32 \<Rightarrow> int \<Rightarrow> int \<Rightarrow> CACKWindow \<Rightarrow> int option" where
  "find_ack ix seq i n w =
    (if i < n then if seq = aget (aw_ACKSeqNo w) (ix i) then Some i else find_ack ix seq (i + 1) n w
     else None)"
  by auto
termination by (relation "measure (\<lambda>(ix, seq, i, n, w). nat (n - i))") auto

declare find_ack.simps [simp del]

text \<open>\<open>int(CTimer::getTime() - m_pTimeStamp[i])\<close>\<close>

definition to_int :: "uint64 \<Rightarrow> int" where
  "to_int x = sint (ucast x :: uint32)"

definition reset_window :: "CACKWindow \<Rightarrow> CACKWindow" where
  "reset_window w = w\<lparr>aw_Tail := 0, aw_Head := 0, aw_ACKSeqNo := aset (aw_ACKSeqNo w) 0 (-1)\<rparr>"

text \<open>The result is the round trip time or -1, and the data sequence number if the record was
  found.\<close>

definition CACKWindow_acknowledge :: "uint64 \<Rightarrow> int32 \<Rightarrow> CACKWindow \<Rightarrow> int \<times> int32 option \<times> CACKWindow" where
  "CACKWindow_acknowledge now seq w =
    (if aw_Head w \<ge> aw_Tail w then
       case find_ack (\<lambda>i. i) seq (aw_Tail w) (aw_Head w) w of
         Some i \<Rightarrow>
           (to_int (now - aget (aw_TimeStamp w) i), Some (aget (aw_ACK w) i),
            if i + 1 = aw_Head w then reset_window w else w\<lparr>aw_Tail := (i + 1) smod aw_Size w\<rparr>)
       | None \<Rightarrow> (-1, None, w)
     else
       case find_ack (\<lambda>j. j smod aw_Size w) seq (aw_Tail w) (aw_Head w + aw_Size w) w of
         Some j \<Rightarrow>
           let j = j smod aw_Size w
           in (to_int (now - aget (aw_TimeStamp w) j), Some (aget (aw_ACK w) j),
               if j = aw_Head w then reset_window w else w\<lparr>aw_Tail := (j + 1) smod aw_Size w\<rparr>)
       | None \<Rightarrow> (-1, None, w))"

section \<open>The window as a list\<close>

definition aw_inv :: "CACKWindow \<Rightarrow> bool" where
  "aw_inv w \<longleftrightarrow> 1 < aw_Size w \<and> 0 \<le> aw_Head w \<and> aw_Head w < aw_Size w \<and>
     0 \<le> aw_Tail w \<and> aw_Tail w < aw_Size w \<and> length (aw_ACKSeqNo w) = nat (aw_Size w) \<and>
     length (aw_ACK w) = nat (aw_Size w) \<and> length (aw_TimeStamp w) = nat (aw_Size w)"

definition record_at :: "CACKWindow \<Rightarrow> int \<Rightarrow> int32 \<times> int32 \<times> uint64" where
  "record_at w i = (aget (aw_ACKSeqNo w) (i mod aw_Size w), aget (aw_ACK w) (i mod aw_Size w),
     aget (aw_TimeStamp w) (i mod aw_Size w))"

definition aw_end :: "CACKWindow \<Rightarrow> int" where
  "aw_end w = (if aw_Head w \<ge> aw_Tail w then aw_Head w else aw_Head w + aw_Size w)"

definition records :: "CACKWindow \<Rightarrow> (int32 \<times> int32 \<times> uint64) list" where
  "records w = map (record_at w) [aw_Tail w..aw_end w - 1]"

lemma find_ack_eq:
  assumes "\<And>i. a \<le> i \<Longrightarrow> i < n \<Longrightarrow> ix i = i mod aw_Size w"
  shows "case find_ack ix seq a n w of
      None \<Rightarrow> dropWhile (\<lambda>(s, _). s \<noteq> seq) (map (record_at w) [a..n - 1]) = []
    | Some i \<Rightarrow> a \<le> i \<and> i < n \<and> fst (record_at w i) = seq \<and>
        dropWhile (\<lambda>(s, _). s \<noteq> seq) (map (record_at w) [a..n - 1]) = map (record_at w) [i..n - 1]"
  using assms
proof (induction "nat (n - a)" arbitrary: a)
  case 0
  then show ?case by (subst find_ack.simps) simp
next
  case (Suc k)
  then have l: "a < n" by simp
  have u: "[a..n - 1] = a # [a + 1..n - 1]" using l by (simp add: upto_rec1)
  have ix: "ix a = a mod aw_Size w" using Suc.prems l by simp
  have IH: "case find_ack ix seq (a + 1) n w of
      None \<Rightarrow> dropWhile (\<lambda>(s, _). s \<noteq> seq) (map (record_at w) [a + 1..n - 1]) = []
    | Some i \<Rightarrow> a + 1 \<le> i \<and> i < n \<and> fst (record_at w i) = seq \<and>
        dropWhile (\<lambda>(s, _). s \<noteq> seq) (map (record_at w) [a + 1..n - 1]) = map (record_at w) [i..n - 1]"
    using Suc.hyps(1) [of "a + 1"] Suc.hyps(2) Suc.prems by simp
  show ?case
    using IH l ix by (subst find_ack.simps) (auto simp: u record_at_def split: option.splits)
qed

text \<open>The same list by distance from \<open>m_iTail\<close>.\<close>

definition run :: "CACKWindow \<Rightarrow> int \<Rightarrow> nat \<Rightarrow> (int32 \<times> int32 \<times> uint64) list" where
  "run w t n = map (\<lambda>k. record_at w (t + int k)) [0..<n]"

definition aw_count :: "CACKWindow \<Rightarrow> nat" where
  "aw_count w = nat ((aw_Head w - aw_Tail w) mod aw_Size w)"

lemma upto_run: "map f [a..b] = map (\<lambda>k. f (a + int k)) [0..<nat (b + 1 - a)]"
  by (rule nth_equalityI) (auto simp: nth_upto)

lemma aw_count_eq: "aw_inv w \<Longrightarrow> int (aw_count w) = aw_end w - aw_Tail w"
proof -
  assume i: "aw_inv w"
  then have "(aw_Head w - aw_Tail w) mod aw_Size w =
      (if aw_Head w \<ge> aw_Tail w then aw_Head w - aw_Tail w else aw_Head w - aw_Tail w + aw_Size w)"
    using mod_add_self2 [of "aw_Head w - aw_Tail w" "aw_Size w"]
      mod_pos_pos_trivial [of "aw_Head w - aw_Tail w + aw_Size w" "aw_Size w"]
    by (auto simp: aw_inv_def)
  then show ?thesis using i by (auto simp: aw_count_def aw_end_def aw_inv_def)
qed

lemma records_run: "aw_inv w \<Longrightarrow> records w = run w (aw_Tail w) (aw_count w)"
  using aw_count_eq [of w] by (simp add: records_def run_def upto_run flip: aw_count_eq)

lemma record_at_mod [simp]: "record_at w (i mod aw_Size w + k) = record_at w (i + k)"
  by (simp add: record_at_def mod_add_left_eq)

lemma run_mod: "run w (t mod aw_Size w) n = run w t n"
  by (simp add: run_def)

lemma run_tl: "run w (t + 1) n = tl (run w t (Suc n))"
  by (rule nth_equalityI) (auto simp: run_def nth_tl ac_simps simp del: upt_Suc)

lemma aw_count_less: "aw_inv w \<Longrightarrow> int (aw_count w) < aw_Size w"
  by (simp add: aw_count_def aw_inv_def)

lemma tail_plus_count: "aw_inv w \<Longrightarrow> (aw_Tail w + int (aw_count w)) mod aw_Size w = aw_Head w"
  by (simp add: aw_count_def aw_inv_def mod_add_right_eq)

lemma head_next:
  "aw_inv w \<Longrightarrow> (aw_Head w + 1) mod aw_Size w = (aw_Tail w + (int (aw_count w) + 1)) mod aw_Size w"
  using mod_add_left_eq [of "aw_Tail w + int (aw_count w)" "aw_Size w" 1] tail_plus_count [of w]
  by (metis add.assoc)

lemma ring_distinct:
  fixes t s :: int
  assumes "(t + i) mod s = (t + j) mod s" "0 \<le> i" "i < s" "0 \<le> j" "j < s"
  shows "i = j"
proof -
  have "(t + i - t) mod s = (t + j - t) mod s" using assms(1) by (metis mod_diff_left_eq)
  then show ?thesis using assms by simp
qed

lemma ring_back:
  fixes t s :: int
  assumes "0 \<le> t" "t < s"
  shows "(t + x) mod s = t \<longleftrightarrow> x mod s = 0"
proof -
  have "(t + x) mod s = t mod s \<longleftrightarrow> s dvd x" by (simp add: mod_eq_dvd_iff)
  then show ?thesis using assms by (simp add: dvd_eq_mod_eq_0)
qed

lemma store_inv: "aw_inv w \<Longrightarrow> aw_inv (CACKWindow_store now seq ack w)"
  by (simp add: CACKWindow_store_def aw_inv_def Let_def)

text \<open>The record at \<open>m_iHead\<close> is written, the others stay.\<close>

lemma store_record:
  assumes "aw_inv w" "k \<le> aw_count w"
  shows "record_at (CACKWindow_store now seq ack w) (aw_Tail w + int k) =
    (if k = aw_count w then (seq, ack, now) else record_at w (aw_Tail w + int k))"
proof -
  let ?i = "(aw_Tail w + int k) mod aw_Size w"
  have r: "0 \<le> ?i" "0 \<le> aw_Head w" "inb (aw_ACKSeqNo w) (aw_Head w)" "inb (aw_ACK w) (aw_Head w)" "inb (aw_TimeStamp w) (aw_Head w)"
    using assms(1) by (simp_all add: aw_inv_def inb_def)
  have "k = aw_count w" if "?i = aw_Head w"
    using ring_distinct [of "aw_Tail w" "int k" "aw_Size w" "int (aw_count w)"] that
      aw_count_less [OF assms(1)] assms(2) by (simp add: tail_plus_count [OF assms(1)])
  moreover have "?i = aw_Head w" if "k = aw_count w"
    using that tail_plus_count [OF assms(1)] by simp
  ultimately have "?i = aw_Head w \<longleftrightarrow> k = aw_count w" by blast
  then show ?thesis
    using r by (cases "k = aw_count w") (auto simp: record_at_def CACKWindow_store_def Let_def)
qed

text \<open>Storing an ACK appends its record to the window; when the window was full, the oldest record
  gives way, and no other record changes.\<close>

theorem store_appends:
  assumes "aw_inv w"
  shows "aw_inv (CACKWindow_store now seq ack w) \<and>
    records (CACKWindow_store now seq ack w) =
      (if int (length (records w)) = aw_Size w - 1 then tl (records w) else records w) @ [(seq, ack, now)]"
proof -
  let ?w = "CACKWindow_store now seq ack w" and ?n = "aw_count w" and ?s = "aw_Size w"
  have i: "aw_inv ?w" by (rule store_inv [OF assms])
  have n: "length (records w) = ?n" using assms by (simp add: records_run run_def)
  have sz: "aw_Size ?w = ?s" "aw_Head ?w = (aw_Head w + 1) mod ?s"
    using assms by (simp_all add: CACKWindow_store_def Let_def aw_inv_def)
  have full: "(aw_Head w + 1) mod ?s = aw_Tail w \<longleftrightarrow> int ?n = ?s - 1"
  proof -
    have "(aw_Head w + 1) mod ?s = (aw_Tail w + (int ?n + 1)) mod ?s"
      by (rule head_next [OF assms])
    then have "(aw_Head w + 1) mod ?s = aw_Tail w \<longleftrightarrow> (int ?n + 1) mod ?s = 0"
      using ring_back [of "aw_Tail w" ?s] assms by (simp add: aw_inv_def)
    also have "\<dots> \<longleftrightarrow> int ?n = ?s - 1"
      using aw_count_less [OF assms] zmod_trivial_iff [of "int ?n + 1" ?s] assms
      by (cases "int ?n + 1 = ?s") (auto simp: aw_inv_def)
    finally show ?thesis .
  qed
  have app: "records w @ [(seq, ack, now)] = run ?w (aw_Tail w) (Suc ?n)"
    using store_record [OF assms] by (simp add: records_run [OF assms] run_def)
  show ?thesis
  proof (cases "int ?n = ?s - 1")
    case True
    then have t: "aw_Tail ?w = (aw_Tail w + 1) mod ?s"
      using full assms by (simp add: CACKWindow_store_def Let_def aw_inv_def)
    have "aw_count ?w = ?n"
      using sz t by (simp add: aw_count_def mod_diff_eq)
    then have "records ?w = run ?w (aw_Tail w + 1) ?n"
      using t sz run_mod [of ?w "aw_Tail w + 1"] by (simp add: records_run [OF i])
    also have "\<dots> = tl (run ?w (aw_Tail w) (Suc ?n))"
      by (rule run_tl)
    also have "\<dots> = tl (records w @ [(seq, ack, now)])" by (simp only: app)
    also have "\<dots> = tl (records w) @ [(seq, ack, now)]"
      using True n assms by (intro tl_append2) (auto simp: aw_inv_def)
    finally show ?thesis using i True n by simp
  next
    case False
    then have t: "aw_Tail ?w = aw_Tail w"
      using full assms by (simp add: CACKWindow_store_def Let_def aw_inv_def)
    have "aw_count ?w = Suc ?n"
    proof -
      have "(aw_Head w + 1) mod ?s = (aw_Tail w + int (Suc ?n)) mod ?s"
        using head_next [OF assms] by (simp add: add.commute)
      moreover have "(aw_Head w + 1) mod ?s = (aw_Tail w + int (aw_count ?w)) mod ?s"
        using tail_plus_count [OF i] sz t by simp
      ultimately have "(aw_Tail w + int (Suc ?n)) mod ?s = (aw_Tail w + int (aw_count ?w)) mod ?s"
        by (rule trans [OF sym])
      then have "int (Suc ?n) = int (aw_count ?w)"
        by (rule ring_distinct) (use aw_count_less [OF i] aw_count_less [OF assms] sz(1) False in linarith)+
      then show ?thesis by linarith
    qed
    then show ?thesis using i t False n app by (simp add: records_run [OF i])
  qed
qed

theorem store_appends_witness:
  "records (CACKWindow_store 5 1 2 (CACKWindow_new 3)) = [(1, 2, 5)]"
  using store_appends [of "CACKWindow_new 3" 5 1 2]
  by (simp add: aw_inv_def CACKWindow_new_def records_def aw_end_def)

text \<open>Dropping the records up to \<open>i\<close>.\<close>

lemma drop_records:
  assumes "aw_inv w" "aw_Tail w \<le> i" "i < aw_end w"
  shows "aw_inv (w\<lparr>aw_Tail := (i + 1) mod aw_Size w\<rparr>) \<and>
    records (w\<lparr>aw_Tail := (i + 1) mod aw_Size w\<rparr>) = map (record_at w) [i + 1..aw_end w - 1]"
proof -
  let ?w = "w\<lparr>aw_Tail := (i + 1) mod aw_Size w\<rparr>"
  have inv: "aw_inv ?w" using assms(1) by (simp add: aw_inv_def)
  have rec: "record_at ?w = record_at w" by (simp add: record_at_def fun_eq_iff)
  have "(aw_Head w - (i + 1)) mod aw_Size w = (aw_end w - (i + 1)) mod aw_Size w"
    using mod_add_self2 [of "aw_Head w - (i + 1)" "aw_Size w"] by (simp add: aw_end_def algebra_simps)
  also have "\<dots> = aw_end w - (i + 1)"
    using assms by (intro mod_pos_pos_trivial) (auto simp: aw_end_def aw_inv_def split: if_splits)
  finally have "aw_count ?w = nat (aw_end w - (i + 1))" by (simp add: aw_count_def mod_simps)
  then have "records ?w = run w (i + 1) (nat (aw_end w - (i + 1)))"
    using records_run [OF inv] run_mod [of w "i + 1"] rec by (simp add: run_def)
  then show ?thesis using inv by (simp add: run_def upto_run)
qed

lemma head_not_found:
  assumes "aw_inv w" "aw_Head w < aw_Tail w" "aw_Tail w \<le> j" "j < aw_Head w + aw_Size w"
  shows "j mod aw_Size w \<noteq> aw_Head w"
proof
  assume "j mod aw_Size w = aw_Head w"
  then have "(aw_Head w + (j - aw_Head w)) mod aw_Size w = (aw_Head w + 0) mod aw_Size w"
    using assms(1) by (simp add: aw_inv_def)
  then have "j - aw_Head w = 0" by (rule ring_distinct) (use assms in \<open>auto simp: aw_inv_def\<close>)
  then show False using assms by simp
qed

lemma reset_records: "aw_inv w \<Longrightarrow> aw_inv (reset_window w) \<and> records (reset_window w) = []"
  by (simp add: reset_window_def aw_inv_def records_def aw_end_def)

text \<open>The two loops: over a straight window and over one that wraps around.\<close>

lemma acknowledge_straight:
  assumes "aw_inv w" "CACKWindow_acknowledge now seq w = (rtt, ack, w')" and s: "aw_Head w \<ge> aw_Tail w"
  shows "aw_inv w' \<and> (case dropWhile (\<lambda>(s, _). s \<noteq> seq) (records w) of
       [] \<Rightarrow> rtt = -1 \<and> ack = None \<and> w' = w
     | (s, a, t) # rest \<Rightarrow> rtt = to_int (now - t) \<and> ack = Some a \<and> records w' = rest)"
proof -
  have sz: "0 < aw_Size w" "0 \<le> aw_Tail w" "aw_Head w < aw_Size w" using assms(1) by (auto simp: aw_inv_def)
  have e: "aw_end w = aw_Head w" using s by (simp add: aw_end_def)
  have *: "case find_ack (\<lambda>i. i) seq (aw_Tail w) (aw_Head w) w of
      None \<Rightarrow> dropWhile (\<lambda>(s, _). s \<noteq> seq) (records w) = []
    | Some i \<Rightarrow> aw_Tail w \<le> i \<and> i < aw_Head w \<and> fst (record_at w i) = seq \<and>
        dropWhile (\<lambda>(s, _). s \<noteq> seq) (records w) = map (record_at w) [i..aw_Head w - 1]"
    unfolding records_def e by (rule find_ack_eq) (use sz in simp)
  show ?thesis
  proof (cases "find_ack (\<lambda>i. i) seq (aw_Tail w) (aw_Head w) w")
    case None
    then show ?thesis using * assms by (auto simp: CACKWindow_acknowledge_def simp del: dropWhile_eq_Nil_conv)
  next
    case (Some i)
    then have i: "aw_Tail w \<le> i" "i < aw_end w" and d: "dropWhile (\<lambda>(s, _). s \<noteq> seq) (records w) =
        record_at w i # map (record_at w) [i + 1..aw_end w - 1]" using * e by (simp_all add: upto_rec1)
    have "record_at w i = (aget (aw_ACKSeqNo w) i, aget (aw_ACK w) i, aget (aw_TimeStamp w) i)"
      using i e sz by (simp add: record_at_def)
    then show ?thesis
      using d Some assms e i sz drop_records [OF assms(1) i] reset_records [OF assms(1)]
      by (auto simp: CACKWindow_acknowledge_def split: if_splits)
  qed
qed

lemma acknowledge_wrapped:
  assumes "aw_inv w" "CACKWindow_acknowledge now seq w = (rtt, ack, w')" and s: "\<not> aw_Head w \<ge> aw_Tail w"
  shows "aw_inv w' \<and> (case dropWhile (\<lambda>(s, _). s \<noteq> seq) (records w) of
       [] \<Rightarrow> rtt = -1 \<and> ack = None \<and> w' = w
     | (s, a, t) # rest \<Rightarrow> rtt = to_int (now - t) \<and> ack = Some a \<and> records w' = rest)"
proof -
  have sz: "0 < aw_Size w" "0 \<le> aw_Tail w" "aw_Head w < aw_Size w" using assms(1) by (auto simp: aw_inv_def)
  have e: "aw_end w = aw_Head w + aw_Size w" using s by (simp add: aw_end_def)
  have *: "case find_ack (\<lambda>j. j smod aw_Size w) seq (aw_Tail w) (aw_Head w + aw_Size w) w of
      None \<Rightarrow> dropWhile (\<lambda>(s, _). s \<noteq> seq) (records w) = []
    | Some i \<Rightarrow> aw_Tail w \<le> i \<and> i < aw_Head w + aw_Size w \<and> fst (record_at w i) = seq \<and>
        dropWhile (\<lambda>(s, _). s \<noteq> seq) (records w) = map (record_at w) [i..aw_Head w + aw_Size w - 1]"
    unfolding records_def e by (rule find_ack_eq) (use sz in simp)
  show ?thesis
  proof (cases "find_ack (\<lambda>j. j smod aw_Size w) seq (aw_Tail w) (aw_Head w + aw_Size w) w")
    case None
    then show ?thesis using * assms by (auto simp: CACKWindow_acknowledge_def simp del: dropWhile_eq_Nil_conv)
  next
    case (Some i)
    then have i: "aw_Tail w \<le> i" "i < aw_end w" and d: "dropWhile (\<lambda>(s, _). s \<noteq> seq) (records w) =
        record_at w i # map (record_at w) [i + 1..aw_end w - 1]" using * e by (simp_all add: upto_rec1)
    have "i mod aw_Size w \<noteq> aw_Head w" using head_not_found [OF assms(1)] s i e by simp
    then show ?thesis
      using d Some assms e i sz drop_records [OF assms(1) i]
      by (auto simp: CACKWindow_acknowledge_def record_at_def Let_def mod_simps add.commute)
  qed
qed

text \<open>C38: an acknowledgement finds the oldest record with its number, yields the data sequence number
  and the time since it was stored, and removes that record with all older ones; a number that is
  not in the window changes nothing and yields -1.\<close>

theorem acknowledge_finds:
  assumes "aw_inv w" "CACKWindow_acknowledge now seq w = (rtt, ack, w')"
  shows "aw_inv w' \<and>
    (case dropWhile (\<lambda>(s, _). s \<noteq> seq) (records w) of
       [] \<Rightarrow> rtt = -1 \<and> ack = None \<and> w' = w
     | (s, a, t) # rest \<Rightarrow> rtt = to_int (now - t) \<and> ack = Some a \<and> records w' = rest)"
  using acknowledge_straight [OF assms] acknowledge_wrapped [OF assms] by blast

theorem acknowledge_finds_witness:
  "fst (CACKWindow_acknowledge 12 1 (CACKWindow_store 9 2 8 (CACKWindow_store 5 1 7 (CACKWindow_new 3)))) = 7"
proof -
  let ?w = "CACKWindow_store 9 2 8 (CACKWindow_store 5 1 7 (CACKWindow_new 3))"
  have i: "aw_inv ?w" by (simp add: aw_inv_def CACKWindow_store_def CACKWindow_new_def Let_def)
  have r: "records ?w = [(1, 7, 5), (2, 8, 9)]"
    by (simp add: records_def aw_end_def record_at_def CACKWindow_store_def CACKWindow_new_def aget_def aset_def
        upto.simps eval_nat_numeral)
  obtain rtt ack w' where e: "CACKWindow_acknowledge 12 1 ?w = (rtt, ack, w')" by (metis prod_cases3)
  show ?thesis using acknowledge_finds [OF i e] e r by (simp add: to_int_def)
qed

end
