(* ===== verification/TimeWindow.thy ===== *)
theory TimeWindow imports Complex_Main AckWindow begin

text \<open>
  The packet timing windows, class \<open>CPktTimeWindow\<close> (\<open>window.h\<close>, \<open>window.cpp\<close>): the smallest
  sending interval, the last arrival intervals and the last probe pair intervals, with the
  receiving speed and the link capacity estimated from them by median filtering. A \<open>double\<close>
  is a real number here. The conversion of an infinity to \<open>int\<close>, which C++ leaves undefined, is
  \<open>None\<close>. The arrays \<open>m_piPktReplica\<close> and \<open>m_piProbeReplica\<close> are scratch space for the median
  and no part of the state. The time is an argument.
\<close>

record CPktTimeWindow =
  pt_AWSize :: int
  pt_PktWindow :: "int list"
  pt_PktWindowPtr :: int
  pt_PWSize :: int
  pt_ProbeWindow :: "int list"
  pt_ProbeWindowPtr :: int
  pt_LastSentTime :: int
  pt_MinPktSndInt :: int
  pt_LastArrTime :: uint64
  pt_CurrArrTime :: uint64
  pt_ProbeTime :: uint64

definition CPktTimeWindow_new :: "uint64 \<Rightarrow> int \<Rightarrow> int \<Rightarrow> CPktTimeWindow" where
  "CPktTimeWindow_new now asize psize =
    \<lparr>pt_AWSize = asize, pt_PktWindow = replicate (nat asize) 1000000, pt_PktWindowPtr = 0,
     pt_PWSize = psize, pt_ProbeWindow = replicate (nat psize) 1000, pt_ProbeWindowPtr = 0,
     pt_LastSentTime = 0, pt_MinPktSndInt = 1000000, pt_LastArrTime = now, pt_CurrArrTime = 0,
     pt_ProbeTime = 0\<rparr>"

section \<open>Estimates\<close>

text \<open>\<open>copy\<close> and \<open>nth_element\<close> leave out the last element of the window; a window of at most two
  elements reads the zero of a fresh replica. \<open>m << 3\<close> is taken modulo \<open>2 ^ 32\<close>.\<close>

definition window_median :: "int list \<Rightarrow> int" where
  "window_median xs =
    (let n = length xs in if n div 2 < n - 1 then sort (take (n - 1) xs) ! (n div 2) else 0)"

definition int_shl3 :: "int \<Rightarrow> int" where
  "int_shl3 m = sint (push_bit 3 (word_of_int m) :: uint32)"

text \<open>The filter loop: the count and the sum of the accepted elements, on top of \<open>count\<close> and \<open>sum\<close>.\<close>

fun median_filter :: "int \<Rightarrow> int \<Rightarrow> int list \<Rightarrow> int \<times> int \<Rightarrow> int \<times> int" where
  "median_filter upper lower [] cs = cs"
| "median_filter upper lower (p # ps) (count, s) =
     median_filter upper lower ps (if p < upper \<and> p > lower then (count + 1, s + p) else (count, s))"

definition CPktTimeWindow_getMinPktSndInt :: "CPktTimeWindow \<Rightarrow> int" where
  "CPktTimeWindow_getMinPktSndInt w = pt_MinPktSndInt w"

definition CPktTimeWindow_getPktRcvSpeed :: "CPktTimeWindow \<Rightarrow> int option" where
  "CPktTimeWindow_getPktRcvSpeed w =
    (let median = window_median (pt_PktWindow w);
         (count, s) = median_filter (int_shl3 median) (median div 8) (pt_PktWindow w) (0, 0)
     in if count > pt_AWSize w div 2
        then if s sdiv count = 0 then None else Some \<lceil>1000000 / real_of_int (s sdiv count)\<rceil>
        else Some 0)"

definition CPktTimeWindow_getBandwidth :: "CPktTimeWindow \<Rightarrow> int option" where
  "CPktTimeWindow_getBandwidth w =
    (let median = window_median (pt_ProbeWindow w);
         (count, s) = median_filter (int_shl3 median) (median div 8) (pt_ProbeWindow w) (1, median)
     in if s = 0 then None else Some \<lceil>1000000 / (real_of_int s / real_of_int count)\<rceil>)"

section \<open>Events\<close>

definition CPktTimeWindow_onPktSent :: "int \<Rightarrow> CPktTimeWindow \<Rightarrow> CPktTimeWindow" where
  "CPktTimeWindow_onPktSent currtime w =
    (let interval = currtime - pt_LastSentTime w;
         w = (if interval < pt_MinPktSndInt w \<and> interval > 0 then w\<lparr>pt_MinPktSndInt := interval\<rparr> else w)
     in w\<lparr>pt_LastSentTime := currtime\<rparr>)"

definition CPktTimeWindow_onPktArrival :: "uint64 \<Rightarrow> CPktTimeWindow \<Rightarrow> CPktTimeWindow" where
  "CPktTimeWindow_onPktArrival now w =
    (let w = w\<lparr>pt_CurrArrTime := now\<rparr>;
         w = w\<lparr>pt_PktWindow := aset (pt_PktWindow w) (pt_PktWindowPtr w) (to_int (pt_CurrArrTime w - pt_LastArrTime w))\<rparr>;
         w = w\<lparr>pt_PktWindowPtr := pt_PktWindowPtr w + 1\<rparr>;
         w = (if pt_PktWindowPtr w = pt_AWSize w then w\<lparr>pt_PktWindowPtr := 0\<rparr> else w)
     in w\<lparr>pt_LastArrTime := pt_CurrArrTime w\<rparr>)"

definition CPktTimeWindow_probe1Arrival :: "uint64 \<Rightarrow> CPktTimeWindow \<Rightarrow> CPktTimeWindow" where
  "CPktTimeWindow_probe1Arrival now w = w\<lparr>pt_ProbeTime := now\<rparr>"

definition CPktTimeWindow_probe2Arrival :: "uint64 \<Rightarrow> CPktTimeWindow \<Rightarrow> CPktTimeWindow" where
  "CPktTimeWindow_probe2Arrival now w =
    (let w = w\<lparr>pt_CurrArrTime := now\<rparr>;
         w = w\<lparr>pt_ProbeWindow := aset (pt_ProbeWindow w) (pt_ProbeWindowPtr w) (to_int (pt_CurrArrTime w - pt_ProbeTime w))\<rparr>;
         w = w\<lparr>pt_ProbeWindowPtr := pt_ProbeWindowPtr w + 1\<rparr>
     in if pt_ProbeWindowPtr w = pt_PWSize w then w\<lparr>pt_ProbeWindowPtr := 0\<rparr> else w)"

section \<open>The windows as histories\<close>

definition pt_inv :: "CPktTimeWindow \<Rightarrow> bool" where
  "pt_inv w \<longleftrightarrow> 0 \<le> pt_PktWindowPtr w \<and> pt_PktWindowPtr w < pt_AWSize w \<and>
     length (pt_PktWindow w) = nat (pt_AWSize w) \<and>
     0 \<le> pt_ProbeWindowPtr w \<and> pt_ProbeWindowPtr w < pt_PWSize w \<and>
     length (pt_ProbeWindow w) = nat (pt_PWSize w)"

text \<open>Oldest interval first.\<close>

definition arrivals :: "CPktTimeWindow \<Rightarrow> int list" where
  "arrivals w = rotate (nat (pt_PktWindowPtr w)) (pt_PktWindow w)"

definition probes :: "CPktTimeWindow \<Rightarrow> int list" where
  "probes w = rotate (nat (pt_ProbeWindowPtr w)) (pt_ProbeWindow w)"

lemma rotate_write:
  assumes "p < length xs"
  shows "rotate (if Suc p = length xs then 0 else Suc p) (xs[p := v]) = tl (rotate p xs) @ [v]"
proof -
  have r: "rotate p xs = drop p xs @ take p xs" using assms by (simp add: rotate_drop_take)
  have "drop p xs = xs ! p # drop (Suc p) xs" using assms by (simp add: Cons_nth_drop_Suc)
  moreover have "rotate (if Suc p = length xs then 0 else Suc p) (xs[p := v]) =
      drop (Suc p) xs @ take (Suc p) (xs[p := v])"
    using assms by (auto simp: rotate_drop_take)
  ultimately show ?thesis using assms r by (simp add: take_Suc_conv_app_nth)
qed

text \<open>The arrival window is a history of the last intervals: an arrival drops the oldest interval
  and adds the time since the previous arrival, wherever the cursor stands.\<close>

theorem arrival_history:
  assumes "pt_inv w"
  shows "pt_inv (CPktTimeWindow_onPktArrival now w) \<and>
    arrivals (CPktTimeWindow_onPktArrival now w) = tl (arrivals w) @ [to_int (now - pt_LastArrTime w)] \<and>
    pt_LastArrTime (CPktTimeWindow_onPktArrival now w) = now \<and>
    probes (CPktTimeWindow_onPktArrival now w) = probes w"
proof -
  have n: "nat (pt_PktWindowPtr w + 1) = Suc (nat (pt_PktWindowPtr w))"
      "nat (pt_PktWindowPtr w) < length (pt_PktWindow w)"
      "(pt_PktWindowPtr w + 1 = pt_AWSize w) = (Suc (nat (pt_PktWindowPtr w)) = length (pt_PktWindow w))"
    using assms by (auto simp: pt_inv_def)
  have "arrivals (CPktTimeWindow_onPktArrival now w) = tl (arrivals w) @ [to_int (now - pt_LastArrTime w)]"
    using rotate_write [OF n(2), of "to_int (now - pt_LastArrTime w)"] n
    by (auto simp: arrivals_def CPktTimeWindow_onPktArrival_def aset_def Let_def split: if_splits)
  then show ?thesis
    using assms by (simp add: pt_inv_def CPktTimeWindow_onPktArrival_def probes_def Let_def)
qed

theorem arrival_history_witness:
  "arrivals (CPktTimeWindow_onPktArrival 7 (CPktTimeWindow_new 5 3 2)) = [1000000, 1000000, 2]"
  using arrival_history [of "CPktTimeWindow_new 5 3 2" 7]
  by (simp add: pt_inv_def CPktTimeWindow_new_def arrivals_def to_int_def eval_nat_numeral)

lemma probe_history:
  assumes "pt_inv w"
  shows "probes (CPktTimeWindow_probe2Arrival now w) = tl (probes w) @ [to_int (now - pt_ProbeTime w)]"
proof -
  have n: "nat (pt_ProbeWindowPtr w + 1) = Suc (nat (pt_ProbeWindowPtr w))"
      "nat (pt_ProbeWindowPtr w) < length (pt_ProbeWindow w)"
      "(pt_ProbeWindowPtr w + 1 = pt_PWSize w) = (Suc (nat (pt_ProbeWindowPtr w)) = length (pt_ProbeWindow w))"
    using assms by (auto simp: pt_inv_def)
  show ?thesis
    using rotate_write [OF n(2), of "to_int (now - pt_ProbeTime w)"] n
    by (auto simp: probes_def CPktTimeWindow_probe2Arrival_def aset_def Let_def split: if_splits)
qed

section \<open>The sending interval\<close>

fun gaps :: "int \<Rightarrow> int list \<Rightarrow> int list" where
  "gaps t [] = []"
| "gaps t (u # us) = (if u - t > 0 then (u - t) # gaps u us else gaps u us)"

lemma snd_int_fold:
  "0 < pt_MinPktSndInt w \<Longrightarrow>
     pt_MinPktSndInt (fold CPktTimeWindow_onPktSent ts w) = fold min (gaps (pt_LastSentTime w) ts) (pt_MinPktSndInt w)"
  by (induction ts arbitrary: w) (auto simp: CPktTimeWindow_onPktSent_def Let_def min_def)

text \<open>After packets were sent at the times \<open>ts\<close>, \<open>getMinPktSndInt\<close> is the smallest positive gap
  between one and the next, a second at most.\<close>

theorem min_send_interval:
  "CPktTimeWindow_getMinPktSndInt (fold CPktTimeWindow_onPktSent ts (CPktTimeWindow_new now a p)) =
     Min (insert 1000000 (set (gaps 0 ts)))"
  by (simp add: CPktTimeWindow_getMinPktSndInt_def snd_int_fold CPktTimeWindow_new_def Min.set_eq_fold
      flip: list.set(2))

section \<open>Bounds of the estimates\<close>

lemma filter_eq:
  "median_filter u l ps (c, s) =
     (c + int (length (filter (\<lambda>p. p < u \<and> l < p) ps)), s + sum_list (filter (\<lambda>p. p < u \<and> l < p) ps))"
  by (induction ps arbitrary: c s) auto

lemma sum_bounds:
  fixes xs :: "int list"
  shows "\<forall>x\<in>set xs. l < x \<and> x < u \<Longrightarrow>
    (l + 1) * int (length xs) \<le> sum_list xs \<and> sum_list xs \<le> (u - 1) * int (length xs)"
  by (induction xs) (auto simp: algebra_simps)

lemma int_shl3_eq:
  assumes "0 \<le> m" "m < 2 ^ 28"
  shows "int_shl3 m = 8 * m"
proof -
  have "push_bit 3 (word_of_int m :: uint32) = word_of_int (8 * m)"
    by (simp add: push_bit_eq_mult mult.commute)
  moreover have "signed_take_bit 31 (8 * m) = 8 * m"
    using assms by (intro signed_take_bit_int_eq_self) auto
  moreover have "sint (word_of_int (8 * m) :: uint32) = signed_take_bit 31 (8 * m)"
    using sint_sbintrunc' [where ?'a = 32, of "8 * m"] by (simp del: of_int_mult)
  ultimately show ?thesis by (simp only: int_shl3_def)
qed

lemma int_shl3_0 [simp]: "int_shl3 0 = 0"
  by (simp add: int_shl3_eq)

lemma median_range:
  assumes "\<forall>x\<in>set xs. 0 \<le> x \<and> x < b" "0 < b"
  shows "0 \<le> window_median xs \<and> window_median xs < b"
proof (cases "length xs div 2 < length xs - 1")
  case True
  then have "sort (take (length xs - 1) xs) ! (length xs div 2) \<in> set (take (length xs - 1) xs)"
    using nth_mem [of "length xs div 2" "sort (take (length xs - 1) xs)"] by simp
  then have "sort (take (length xs - 1) xs) ! (length xs div 2) \<in> set xs" by (rule in_set_takeD)
  then show ?thesis using assms(1) True by (simp add: window_median_def Let_def)
qed (use assms in \<open>simp add: window_median_def Let_def\<close>)

lemma quotient_ge_1: "0 < (c :: int) \<Longrightarrow> c \<le> s \<Longrightarrow> 1 \<le> real_of_int s / real_of_int c"
  by (simp add: le_divide_eq)

lemma ceiling_speed:
  assumes "1 \<le> (q :: real)"
  shows "1 \<le> \<lceil>1000000 / q\<rceil> \<and> \<lceil>1000000 / q\<rceil> \<le> 1000000"
proof -
  have "0 < 1000000 / q" "1000000 / q \<le> 1000000" using assms by (simp_all add: field_simps)
  then show ?thesis by (simp add: ceiling_le_iff one_le_ceiling)
qed

text \<open>As long as no interval is negative, the receiving speed is defined: the mean of the
  accepted intervals is not zero, and the speed is between 0 and a million packets a second.\<close>

theorem speed_defined:
  assumes "\<forall>x\<in>set (pt_PktWindow w). 0 \<le> x \<and> x < 2 ^ 28" "0 < pt_AWSize w"
  shows "\<exists>s. CPktTimeWindow_getPktRcvSpeed w = Some s \<and> 0 \<le> s \<and> s \<le> 1000000"
proof -
  let ?m = "window_median (pt_PktWindow w)"
  let ?F = "filter (\<lambda>p. p < 8 * ?m \<and> ?m div 8 < p) (pt_PktWindow w)"
  have m: "0 \<le> ?m" "?m < 2 ^ 28" using median_range [OF assms(1)] by simp_all
  have "(?m div 8 + 1) * int (length ?F) \<le> sum_list ?F"
    using sum_bounds [of ?F "?m div 8" "8 * ?m"] by simp
  moreover have "1 * int (length ?F) \<le> (?m div 8 + 1) * int (length ?F)"
    using m by (intro mult_right_mono) auto
  ultimately have s: "int (length ?F) \<le> sum_list ?F" by simp
  show ?thesis
  proof (cases "int (length ?F) > pt_AWSize w div 2")
    case True
    then have c: "0 < int (length ?F)" using assms(2) by linarith
    then have q: "1 \<le> sum_list ?F div int (length ?F)"
      using s pos_imp_zdiv_pos_iff [OF c, of "sum_list ?F"] by linarith
    define r where "r = \<lceil>1000000 / real_of_int (sum_list ?F div int (length ?F))\<rceil>"
    have r: "1 \<le> r \<and> r \<le> 1000000" unfolding r_def by (rule ceiling_speed) (use q in simp)
    have "CPktTimeWindow_getPktRcvSpeed w = Some r"
      using True c s q by (simp add: CPktTimeWindow_getPktRcvSpeed_def filter_eq int_shl3_eq [OF m] Let_def r_def)
    then show ?thesis using r by simp
  next
    case False
    then show ?thesis
      by (simp add: CPktTimeWindow_getPktRcvSpeed_def filter_eq int_shl3_eq [OF m] Let_def)
  qed
qed

theorem speed_defined_witness:
  "\<exists>s. CPktTimeWindow_getPktRcvSpeed (CPktTimeWindow_new 5 16 16) = Some s \<and> 0 \<le> s \<and> s \<le> 1000000"
  by (rule speed_defined) (simp_all add: CPktTimeWindow_new_def)

text \<open>The link capacity estimate is undefined just when the median probe interval is zero, that is
  when both packets of a pair arrived within a microsecond: the code then converts an infinite
  quotient to an \<open>int\<close>. Otherwise it is between 1 and a million packets a second.\<close>

theorem bandwidth_defined:
  assumes "\<forall>x\<in>set (pt_ProbeWindow w). 0 \<le> x \<and> x < 2 ^ 28"
  shows "case CPktTimeWindow_getBandwidth w of
      None \<Rightarrow> window_median (pt_ProbeWindow w) = 0
    | Some b \<Rightarrow> window_median (pt_ProbeWindow w) \<noteq> 0 \<and> 1 \<le> b \<and> b \<le> 1000000"
proof -
  let ?m = "window_median (pt_ProbeWindow w)"
  let ?F = "filter (\<lambda>p. p < 8 * ?m \<and> ?m div 8 < p) (pt_ProbeWindow w)"
  have m: "0 \<le> ?m" "?m < 2 ^ 28" using median_range [OF assms(1)] by simp_all
  have "(?m div 8 + 1) * int (length ?F) \<le> sum_list ?F"
    using sum_bounds [of ?F "?m div 8" "8 * ?m"] by simp
  moreover have "1 * int (length ?F) \<le> (?m div 8 + 1) * int (length ?F)"
    using m by (intro mult_right_mono) auto
  ultimately have s: "int (length ?F) \<le> sum_list ?F" by simp
  show ?thesis
  proof (cases "?m = 0")
    case True
    moreover have "filter (\<lambda>p. p < 0 \<and> 0 < p) xs = []" for xs :: "int list" by (simp add: filter_empty_conv)
    ultimately show ?thesis
      by (simp add: CPktTimeWindow_getBandwidth_def filter_eq int_shl3_eq [OF m] Let_def)
  next
    case False
    then have g: "1 + int (length ?F) \<le> ?m + sum_list ?F" using s m by linarith
    then have "1 \<le> real_of_int (?m + sum_list ?F) / real_of_int (1 + int (length ?F))"
      by (intro quotient_ge_1) simp_all
    from ceiling_speed [OF this] g show ?thesis
      using False by (simp add: CPktTimeWindow_getBandwidth_def filter_eq int_shl3_eq [OF m] Let_def)
  qed
qed

theorem bandwidth_defined_witness:
  "let w = CPktTimeWindow_probe2Arrival 9 (CPktTimeWindow_probe1Arrival 6 (CPktTimeWindow_new 5 3 2))
   in case CPktTimeWindow_getBandwidth w of
        None \<Rightarrow> window_median (pt_ProbeWindow w) = 0
      | Some b \<Rightarrow> window_median (pt_ProbeWindow w) \<noteq> 0 \<and> 1 \<le> b \<and> b \<le> 1000000"
proof -
  let ?w = "CPktTimeWindow_probe2Arrival 9 (CPktTimeWindow_probe1Arrival 6 (CPktTimeWindow_new 5 3 2))"
  have "pt_ProbeWindow ?w = (replicate 2 1000)[0 := 3]"
    by (simp add: CPktTimeWindow_new_def CPktTimeWindow_probe2Arrival_def CPktTimeWindow_probe1Arrival_def aset_def
        to_int_def Let_def)
  then have "\<forall>x\<in>set (pt_ProbeWindow ?w). 0 \<le> x \<and> x < 2 ^ 28"
    using set_update_subset_insert [of "replicate 2 (1000 :: int)" 0 3] by auto
  from bandwidth_defined [OF this] show ?thesis by (simp only: Let_def)
qed

end
