(* ===== verification/CongestionControl.thy ===== *)
theory CongestionControl imports Complex_Main SeqNo begin

unbundle bit_operations_syntax

text \<open>
  Congestion control: the base class \<open>CCC\<close> and UDT's own algorithm \<open>CUDTCC\<close> (\<open>ccc.h\<close>, \<open>ccc.cpp\<close>). A
  derived class is an extension of the base class's record. A \<open>double\<close> is a real number; the
  clock and the quotient \<open>double(rand()) / RAND_MAX\<close> after \<open>srand(seed)\<close> are arguments. What every
  algorithm owes the sender, that its period and its window stay positive, is the locale
  \<open>congestion_control\<close>.
\<close>

section \<open>The base class\<close>

definition m_iSYNInterval :: int where "m_iSYNInterval = 10000"

record CCC =
  m_dPktSndPeriod :: real
  m_dCWndSize :: real
  m_iBandwidth :: int
  m_dMaxCWndSize :: real
  cc_iMSS :: int
  m_iSndCurrSeqNo :: int32
  m_iRcvRate :: int
  m_iRTT :: int
  m_pcParam :: "8 word list"
  m_iPSize :: int
  m_UDT :: int
  m_iACKPeriod :: int
  m_iACKInterval :: int
  m_bUserDefinedRTO :: bool
  m_iRTO :: int

definition CCC_new :: CCC where
  "CCC_new = \<lparr>m_dPktSndPeriod = 1, m_dCWndSize = 16, m_iBandwidth = 0, m_dMaxCWndSize = 0, cc_iMSS = 0,
     m_iSndCurrSeqNo = 0, m_iRcvRate = 0, m_iRTT = 0, m_pcParam = [], m_iPSize = 0, m_UDT = 0,
     m_iACKPeriod = 0, m_iACKInterval = 0, m_bUserDefinedRTO = False, m_iRTO = -1\<rparr>"

definition setACKTimer :: "int \<Rightarrow> 'a CCC_scheme \<Rightarrow> 'a CCC_scheme" where
  "setACKTimer msINT c = c\<lparr>m_iACKPeriod := (if msINT > m_iSYNInterval then m_iSYNInterval else msINT)\<rparr>"

definition setACKInterval :: "int \<Rightarrow> 'a CCC_scheme \<Rightarrow> 'a CCC_scheme" where
  "setACKInterval pktINT c = c\<lparr>m_iACKInterval := pktINT\<rparr>"

definition setRTO :: "int \<Rightarrow> 'a CCC_scheme \<Rightarrow> 'a CCC_scheme" where
  "setRTO usRTO c = c\<lparr>m_bUserDefinedRTO := True, m_iRTO := usRTO\<rparr>"

definition setMSS :: "int \<Rightarrow> 'a CCC_scheme \<Rightarrow> 'a CCC_scheme" where
  "setMSS mss c = c\<lparr>cc_iMSS := mss\<rparr>"

definition setBandwidth :: "int \<Rightarrow> 'a CCC_scheme \<Rightarrow> 'a CCC_scheme" where
  "setBandwidth bw c = c\<lparr>m_iBandwidth := bw\<rparr>"

definition setSndCurrSeqNo :: "int32 \<Rightarrow> 'a CCC_scheme \<Rightarrow> 'a CCC_scheme" where
  "setSndCurrSeqNo seqno c = c\<lparr>m_iSndCurrSeqNo := seqno\<rparr>"

definition setRcvRate :: "int \<Rightarrow> 'a CCC_scheme \<Rightarrow> 'a CCC_scheme" where
  "setRcvRate rcvrate c = c\<lparr>m_iRcvRate := rcvrate\<rparr>"

definition setMaxCWndSize :: "int \<Rightarrow> 'a CCC_scheme \<Rightarrow> 'a CCC_scheme" where
  "setMaxCWndSize cwnd c = c\<lparr>m_dMaxCWndSize := real_of_int cwnd\<rparr>"

definition setRTT :: "int \<Rightarrow> 'a CCC_scheme \<Rightarrow> 'a CCC_scheme" where
  "setRTT rtt c = c\<lparr>m_iRTT := rtt\<rparr>"

definition setUserParam :: "8 word list \<Rightarrow> int \<Rightarrow> 'a CCC_scheme \<Rightarrow> 'a CCC_scheme" where
  "setUserParam param sz c = c\<lparr>m_pcParam := take (nat sz) param, m_iPSize := sz\<rparr>"

lemmas cc_setters = setACKTimer_def setACKInterval_def setRTO_def setMSS_def setBandwidth_def
  setSndCurrSeqNo_def setRcvRate_def setMaxCWndSize_def setRTT_def setUserParam_def

section \<open>The contract of an algorithm\<close>

text \<open>A step is \<open>None\<close> when it runs into behaviour that C++ leaves undefined.\<close>

fun run_steps :: "('e \<Rightarrow> 's \<Rightarrow> 's option) \<Rightarrow> 'e list \<Rightarrow> 's \<Rightarrow> 's option" where
  "run_steps step [] s = Some s"
| "run_steps step (e # es) s = (case step e s of None \<Rightarrow> None | Some s \<Rightarrow> run_steps step es s)"

lemma run_steps_total: "run_steps (\<lambda>e s. Some (f e s)) es s = Some (fold f es s)"
  by (induction es arbitrary: s) auto

lemma run_steps_append:
  "run_steps step (es @ fs) s = Option.bind (run_steps step es s) (run_steps step fs)"
  by (induction es arbitrary: s) (auto split: option.splits)

locale congestion_control =
  fixes ok :: "'s \<Rightarrow> bool"
    and step :: "'e \<Rightarrow> 's \<Rightarrow> 's option"
    and fair :: "'e \<Rightarrow> bool"
    and period :: "'s \<Rightarrow> real"
    and cwnd :: "'s \<Rightarrow> real"
  assumes step_ok: "ok s \<Longrightarrow> fair e \<Longrightarrow> step e s = Some s' \<Longrightarrow> ok s'"
    and ok_positive: "ok s \<Longrightarrow> 0 < period s \<and> 0 < cwnd s"
begin

lemma run_ok: "run_steps step es s = Some s' \<Longrightarrow> ok s \<Longrightarrow> list_all fair es \<Longrightarrow> ok s'"
  by (induction es arbitrary: s) (auto intro: step_ok split: option.splits)

lemma run_positive: "run_steps step es s = Some s' \<Longrightarrow> ok s \<Longrightarrow> list_all fair es \<Longrightarrow> 0 < period s' \<and> 0 < cwnd s'"
  by (rule ok_positive [OF run_ok])

end

section \<open>UDT's algorithm\<close>

record CUDTCC = CCC +
  m_iRCInterval :: int
  m_LastRCTime :: uint64
  m_bSlowStart :: bool
  m_iLastAck :: int32
  m_bLoss :: bool
  m_iLastDecSeq :: int32
  m_dLastDecPeriod :: real
  m_iNAKCount :: int
  m_iDecRandom :: int
  m_iAvgNAKNum :: int
  m_iDecCount :: int

definition CUDTCC_new :: CUDTCC where
  "CUDTCC_new = CCC.extend CCC_new \<lparr>m_iRCInterval = 0, m_LastRCTime = 0, m_bSlowStart = False,
     m_iLastAck = 0, m_bLoss = False, m_iLastDecSeq = 0, m_dLastDecPeriod = 0, m_iNAKCount = 0,
     m_iDecRandom = 0, m_iAvgNAKNum = 0, m_iDecCount = 0\<rparr>"

definition CUDTCC_init :: "uint64 \<Rightarrow> CUDTCC \<Rightarrow> CUDTCC" where
  "CUDTCC_init now c =
    (let c = c\<lparr>m_iRCInterval := m_iSYNInterval, m_LastRCTime := now\<rparr>;
         c = setACKTimer (m_iRCInterval c) c;
         c = c\<lparr>m_bSlowStart := True, m_iLastAck := m_iSndCurrSeqNo c, m_bLoss := False\<rparr>;
         c = c\<lparr>m_iLastDecSeq := decseq (m_iLastAck c), m_dLastDecPeriod := 1, m_iAvgNAKNum := 0,
               m_iNAKCount := 0, m_iDecRandom := 1\<rparr>
     in c\<lparr>m_dCWndSize := 16, m_dPktSndPeriod := 1\<rparr>)"

text \<open>The end of slow start sets the period from the receiving rate, or else from the window.\<close>

definition leave_slow_start :: "CUDTCC \<Rightarrow> CUDTCC" where
  "leave_slow_start c =
    (let c = c\<lparr>m_bSlowStart := False\<rparr>
     in if m_iRcvRate c > 0 then c\<lparr>m_dPktSndPeriod := 1000000 / real_of_int (m_iRcvRate c)\<rparr>
        else c\<lparr>m_dPktSndPeriod := m_dCWndSize c / real_of_int (m_iRTT c + m_iRCInterval c)\<rparr>)"

text \<open>The conversion of a \<open>double\<close> to \<open>int64_t\<close> drops the fraction.\<close>

definition trunc :: "real \<Rightarrow> int" where
  "trunc x = (if 0 \<le> x then \<lfloor>x\<rfloor> else \<lceil>x\<rceil>)"

definition rate_increase :: "CUDTCC \<Rightarrow> real" where
  "rate_increase c =
    (let min_inc = 1 / 100;
         B = trunc (real_of_int (m_iBandwidth c) - 1000000 / m_dPktSndPeriod c);
         B = (if m_dPktSndPeriod c > m_dLastDecPeriod c \<and> m_iBandwidth c sdiv 9 < B then m_iBandwidth c sdiv 9 else B)
     in if B \<le> 0 then min_inc
        else
          let inc = 10 powr real_of_int \<lceil>log 10 (real_of_int B * real_of_int (cc_iMSS c) * 8)\<rceil> * (15 / 10000000)
                      / real_of_int (cc_iMSS c)
          in if inc < min_inc then min_inc else inc)"

definition ack_window :: "int32 \<Rightarrow> CUDTCC \<Rightarrow> CUDTCC" where
  "ack_window ack c =
    (if m_bSlowStart c then
       let c = c\<lparr>m_dCWndSize := m_dCWndSize c + real_of_int (seqlen (m_iLastAck c) ack), m_iLastAck := ack\<rparr>
       in if m_dCWndSize c > m_dMaxCWndSize c then leave_slow_start c else c
     else c\<lparr>m_dCWndSize := real_of_int (m_iRcvRate c) / 1000000 * real_of_int (m_iRTT c + m_iRCInterval c) + 16\<rparr>)"

definition speed_up :: "CUDTCC \<Rightarrow> CUDTCC" where
  "speed_up c = c\<lparr>m_dPktSndPeriod := (m_dPktSndPeriod c * real_of_int (m_iRCInterval c))
     / (m_dPktSndPeriod c * rate_increase c + real_of_int (m_iRCInterval c))\<rparr>"

definition CUDTCC_onACK :: "uint64 \<Rightarrow> int32 \<Rightarrow> CUDTCC \<Rightarrow> CUDTCC" where
  "CUDTCC_onACK currtime ack c =
    (if currtime - m_LastRCTime c < word_of_int (m_iRCInterval c) then c
     else
       let c = ack_window ack (c\<lparr>m_LastRCTime := currtime\<rparr>)
       in if m_bSlowStart c then c
          else if m_bLoss c then c\<lparr>m_bLoss := False\<rparr>
          else speed_up c)"

definition slow_down :: "CUDTCC \<Rightarrow> CUDTCC" where
  "slow_down c = c\<lparr>m_dPktSndPeriod := real_of_int \<lceil>m_dPktSndPeriod c * (1125 / 1000)\<rceil>\<rparr>"

text \<open>A loss after the last decrease begins a new congestion epoch; a further loss of the same epoch
  slows down at random, five times at most.\<close>

definition new_epoch :: "(int32 \<Rightarrow> real) \<Rightarrow> CUDTCC \<Rightarrow> CUDTCC" where
  "new_epoch rand c =
    (let c = slow_down (c\<lparr>m_dLastDecPeriod := m_dPktSndPeriod c\<rparr>);
         c = c\<lparr>m_iAvgNAKNum := \<lceil>real_of_int (m_iAvgNAKNum c) * (875 / 1000) + real_of_int (m_iNAKCount c) * (125 / 1000)\<rceil>,
               m_iNAKCount := 1, m_iDecCount := 1\<rparr>;
         c = c\<lparr>m_iLastDecSeq := m_iSndCurrSeqNo c\<rparr>;
         c = c\<lparr>m_iDecRandom := \<lceil>real_of_int (m_iAvgNAKNum c) * rand (m_iLastDecSeq c)\<rceil>\<rparr>
     in if m_iDecRandom c < 1 then c\<lparr>m_iDecRandom := 1\<rparr> else c)"

definition same_epoch :: "CUDTCC \<Rightarrow> CUDTCC" where
  "same_epoch c =
    (let few = m_iDecCount c < 5;
         c = c\<lparr>m_iDecCount := m_iDecCount c + 1\<rparr>
     in if \<not> few then c
        else
          let c = c\<lparr>m_iNAKCount := m_iNAKCount c + 1\<rparr>
          in if m_iNAKCount c smod m_iDecRandom c = 0 then (slow_down c)\<lparr>m_iLastDecSeq := m_iSndCurrSeqNo c\<rparr> else c)"

definition CUDTCC_onLoss :: "(int32 \<Rightarrow> real) \<Rightarrow> int32 list \<Rightarrow> CUDTCC \<Rightarrow> CUDTCC" where
  "CUDTCC_onLoss rand losslist c =
    (if m_bSlowStart c \<and> m_iRcvRate c > 0 then leave_slow_start c
     else
       let c = (if m_bSlowStart c then leave_slow_start c else c);
           c = c\<lparr>m_bLoss := True\<rparr>
       in if seqcmp ((losslist ! 0) AND 0x7FFFFFFF) (m_iLastDecSeq c) > 0 then new_epoch rand c else same_epoch c)"

definition CUDTCC_onTimeout :: "CUDTCC \<Rightarrow> CUDTCC" where
  "CUDTCC_onTimeout c = (if m_bSlowStart c then leave_slow_start c else c)"

section \<open>The rate stays positive\<close>

definition udtcc_ok :: "CUDTCC \<Rightarrow> bool" where
  "udtcc_ok c \<longleftrightarrow> 0 < m_dPktSndPeriod c \<and> 0 < m_dCWndSize c \<and> 0 < m_iRCInterval c \<and> 0 \<le> m_iRTT c \<and> 0 \<le> m_iRcvRate c \<and>
     -1 \<le> m_iLastAck c \<and> m_iLastAck c \<le> m_iMaxSeqNo \<and> 0 < m_iDecRandom c"

datatype udtcc_event = Ack uint64 int32 | Loss "int32 \<Rightarrow> real" "int32 list" | Timeout
  | RTT int | RcvRate int | Bandwidth int | MaxCWnd int | SndCurr int32

fun udtcc_step :: "udtcc_event \<Rightarrow> CUDTCC \<Rightarrow> CUDTCC" where
  "udtcc_step (Ack now ack) c = CUDTCC_onACK now ack c"
| "udtcc_step (Loss rand l) c = CUDTCC_onLoss rand l c"
| "udtcc_step Timeout c = CUDTCC_onTimeout c"
| "udtcc_step (RTT r) c = setRTT r c"
| "udtcc_step (RcvRate r) c = setRcvRate r c"
| "udtcc_step (Bandwidth b) c = setBandwidth b c"
| "udtcc_step (MaxCWnd w) c = setMaxCWndSize w c"
| "udtcc_step (SndCurr s) c = setSndCurrSeqNo s c"

fun udtcc_fair :: "udtcc_event \<Rightarrow> bool" where
  "udtcc_fair (Ack now ack) = (0 \<le> ack \<and> ack \<le> m_iMaxSeqNo)"
| "udtcc_fair (RTT r) = (0 \<le> r)"
| "udtcc_fair (RcvRate r) = (0 \<le> r)"
| "udtcc_fair _ = True"

lemma rate_increase_min: "1 / 100 \<le> rate_increase c"
  by (simp add: rate_increase_def Let_def not_less)

lemma seqlen_positive: "-1 \<le> a \<Longrightarrow> a \<le> m_iMaxSeqNo \<Longrightarrow> 0 \<le> b \<Longrightarrow> b \<le> m_iMaxSeqNo \<Longrightarrow> 0 < seqlen a b"
  by (simp add: seqlen_def serial_consts)

lemma leave_ok: "udtcc_ok c \<Longrightarrow> udtcc_ok (leave_slow_start c)"
  by (simp add: udtcc_ok_def leave_slow_start_def Let_def)

lemma slow_down_ok: "udtcc_ok c \<Longrightarrow> udtcc_ok (slow_down c)"
  by (simp add: udtcc_ok_def slow_down_def)

lemma udtcc_ok_upd [simp]:
  "udtcc_ok (c\<lparr>m_LastRCTime := t\<rparr>) = udtcc_ok c" "udtcc_ok (c\<lparr>m_bLoss := b\<rparr>) = udtcc_ok c"
  "udtcc_ok (c\<lparr>m_iLastDecSeq := q\<rparr>) = udtcc_ok c" "udtcc_ok (c\<lparr>m_dLastDecPeriod := p\<rparr>) = udtcc_ok c"
  "udtcc_ok (c\<lparr>m_iNAKCount := n\<rparr>) = udtcc_ok c" "udtcc_ok (c\<lparr>m_iAvgNAKNum := n\<rparr>) = udtcc_ok c"
  "udtcc_ok (c\<lparr>m_iDecCount := n\<rparr>) = udtcc_ok c" "udtcc_ok (c\<lparr>m_iBandwidth := n\<rparr>) = udtcc_ok c"
  "udtcc_ok (c\<lparr>m_dMaxCWndSize := x\<rparr>) = udtcc_ok c" "udtcc_ok (c\<lparr>m_iSndCurrSeqNo := q\<rparr>) = udtcc_ok c"
  "udtcc_ok (c\<lparr>m_bSlowStart := b\<rparr>) = udtcc_ok c"
  by (simp_all add: udtcc_ok_def)

lemma epoch_ok: "udtcc_ok c \<Longrightarrow> udtcc_ok (new_epoch rand c)" "udtcc_ok c \<Longrightarrow> udtcc_ok (same_epoch c)"
  by (simp_all add: udtcc_ok_def new_epoch_def same_epoch_def slow_down_def Let_def)

lemma loss_ok: "udtcc_ok c \<Longrightarrow> udtcc_ok (CUDTCC_onLoss rand l c)"
  by (simp add: CUDTCC_onLoss_def Let_def leave_ok epoch_ok)

lemma grow_ok:
  assumes "udtcc_ok c" "0 \<le> ack" "ack \<le> m_iMaxSeqNo"
  shows "udtcc_ok (c\<lparr>m_dCWndSize := m_dCWndSize c + real_of_int (seqlen (m_iLastAck c) ack), m_iLastAck := ack\<rparr>)"
  using assms seqlen_positive [of "m_iLastAck c" ack] by (auto simp: udtcc_ok_def)

lemma ack_window_ok:
  assumes "udtcc_ok c" "0 \<le> ack" "ack \<le> m_iMaxSeqNo"
  shows "udtcc_ok (ack_window ack c)"
proof (cases "m_bSlowStart c")
  case True
  then show ?thesis using grow_ok [OF assms] leave_ok [OF grow_ok [OF assms]] by (simp add: ack_window_def Let_def)
next
  case False
  then show ?thesis using assms(1) by (simp add: ack_window_def udtcc_ok_def add_nonneg_pos)
qed

lemma speed_up_ok:
  assumes "udtcc_ok c"
  shows "udtcc_ok (speed_up c)"
proof -
  have "0 < m_dPktSndPeriod c * rate_increase c"
    using assms rate_increase_min [of c] by (simp add: udtcc_ok_def)
  then have "0 < m_dPktSndPeriod c * rate_increase c + real_of_int (m_iRCInterval c)"
    using assms by (simp add: udtcc_ok_def)
  then show ?thesis using assms by (simp add: udtcc_ok_def speed_up_def)
qed

lemma ack_ok: "udtcc_ok c \<Longrightarrow> 0 \<le> ack \<Longrightarrow> ack \<le> m_iMaxSeqNo \<Longrightarrow> udtcc_ok (CUDTCC_onACK t ack c)"
  by (simp add: CUDTCC_onACK_def Let_def ack_window_ok speed_up_ok)

lemma udtcc_step_ok: "udtcc_ok c \<Longrightarrow> udtcc_fair e \<Longrightarrow> udtcc_ok (udtcc_step e c)"
  by (cases e) (simp_all add: ack_ok loss_ok leave_ok CUDTCC_onTimeout_def cc_setters, simp_all add: udtcc_ok_def)

interpretation udtcc: congestion_control udtcc_ok "\<lambda>e c. Some (udtcc_step e c)" udtcc_fair m_dPktSndPeriod m_dCWndSize
  by unfold_locales (auto intro: udtcc_step_ok, auto simp: udtcc_ok_def)

lemma init_ok:
  "0 \<le> m_iRTT c \<Longrightarrow> 0 \<le> m_iRcvRate c \<Longrightarrow> -1 \<le> m_iSndCurrSeqNo c \<Longrightarrow> m_iSndCurrSeqNo c \<le> m_iMaxSeqNo \<Longrightarrow>
     udtcc_ok (CUDTCC_init now c)"
  by (simp add: udtcc_ok_def CUDTCC_init_def setACKTimer_def m_iSYNInterval_def Let_def)

text \<open>C28: from \<open>init\<close> on, whatever ACKs, loss reports, timeouts and measurements arrive in whatever order,
  the sending period and the congestion window of UDT's algorithm stay positive, as long as the measured RTT and receiving rate
  are not negative and the acknowledged numbers are sequence numbers. (The RTT a peer reports is not checked: a negative one
  can make the window negative, \<open>negative_rtt_breaks_window\<close>.)\<close>

theorem udtcc_stays_positive:
  assumes "0 \<le> m_iRTT c" "0 \<le> m_iRcvRate c" "-1 \<le> m_iSndCurrSeqNo c" "m_iSndCurrSeqNo c \<le> m_iMaxSeqNo"
    and "list_all udtcc_fair es"
  shows "0 < m_dPktSndPeriod (fold udtcc_step es (CUDTCC_init now c)) \<and>
    0 < m_dCWndSize (fold udtcc_step es (CUDTCC_init now c))"
  by (rule udtcc.run_positive [OF run_steps_total init_ok [OF assms(1-4)] assms(5)])

theorem udtcc_stays_positive_witness:
  "0 < m_dPktSndPeriod (fold udtcc_step [RTT 100000, RcvRate 50, Ack 20000 7, Loss (\<lambda>_. 1) [9], Timeout]
     (CUDTCC_init 5 CUDTCC_new))"
  using udtcc_stays_positive [of CUDTCC_new "[RTT 100000, RcvRate 50, Ack 20000 7, Loss (\<lambda>_. 1) [9], Timeout]" 5]
  by (simp add: CUDTCC_new_def CCC_new_def CCC.defs serial_consts)

text \<open>With an RTT of minus 0.1 seconds the window becomes negative.\<close>

lemma negative_rtt_breaks_window:
  "m_dCWndSize (fold udtcc_step [Timeout, RcvRate 1000, RTT (- 100000), Ack 20000 7] (CUDTCC_init 5 CUDTCC_new)) < 0"
  by (simp add: CUDTCC_onTimeout_def CUDTCC_onACK_def CUDTCC_init_def CUDTCC_new_def CCC_new_def CCC.defs setACKTimer_def ack_window_def
      speed_up_def leave_slow_start_def cc_setters m_iSYNInterval_def serial_consts seqcmp_def seqlen_def Let_def)

text \<open>An ACK that comes an interval of 10 ms after the last one, out of slow start and with no loss
  since, raises the sending rate by at least one packet a second.\<close>

theorem ack_raises_rate:
  assumes "udtcc_ok c" "\<not> m_bSlowStart c" "\<not> m_bLoss c" "m_iRCInterval c = m_iSYNInterval"
    and "word_of_int m_iSYNInterval \<le> now - m_LastRCTime c"
  shows "1000000 / m_dPktSndPeriod c + 1 \<le> 1000000 / m_dPktSndPeriod (CUDTCC_onACK now ack c)"
proof -
  let ?w = "ack_window ack (c\<lparr>m_LastRCTime := now\<rparr>)"
  let ?p = "m_dPktSndPeriod c" and ?i = "rate_increase ?w"
  have w: "m_dPktSndPeriod ?w = ?p" "m_iRCInterval ?w = 10000" "\<not> m_bSlowStart ?w" "\<not> m_bLoss ?w"
    using assms by (simp_all add: ack_window_def m_iSYNInterval_def)
  have p: "0 < ?p" using assms(1) by (simp add: udtcc_ok_def)
  have "CUDTCC_onACK now ack c = speed_up ?w"
    using assms(4,5) w by (simp add: CUDTCC_onACK_def Let_def not_less [symmetric])
  then have "m_dPktSndPeriod (CUDTCC_onACK now ack c) = (?p * 10000) / (?p * ?i + 10000)"
    using w by (simp add: speed_up_def)
  then have "1000000 / m_dPktSndPeriod (CUDTCC_onACK now ack c) = 1000000 / ?p + 100 * ?i"
    using p by (simp add: field_simps)
  then show ?thesis using rate_increase_min [of ?w] by simp
qed

theorem ack_raises_rate_witness:
  "1000000 / 2 + 1 \<le> 1000000 / m_dPktSndPeriod (CUDTCC_onACK 20000 7
     (CUDTCC_init 5 CUDTCC_new\<lparr>m_bSlowStart := False, m_dPktSndPeriod := 2\<rparr>))"
  using ack_raises_rate [of "CUDTCC_init 5 CUDTCC_new\<lparr>m_bSlowStart := False, m_dPktSndPeriod := 2\<rparr>" 20000 7]
  by (simp add: CUDTCC_new_def CCC_new_def CCC.defs serial_consts CUDTCC_init_def udtcc_ok_def setACKTimer_def
      m_iSYNInterval_def Let_def)

section \<open>One epoch\<close>

definition slower :: "real \<Rightarrow> real" where
  "slower p = real_of_int \<lceil>p * (1125 / 1000)\<rceil>"

lemma same_epoch_slows:
  "\<exists>j. int j \<le> (if m_iDecCount c < 5 then 1 else 0) \<and>
     m_dPktSndPeriod (same_epoch c) = (slower ^^ j) (m_dPktSndPeriod c)"
proof (cases "m_iDecCount c < 5 \<and> (m_iNAKCount c + 1) smod m_iDecRandom c = 0")
  case True
  then show ?thesis by (intro exI [of _ 1]) (simp add: same_epoch_def slow_down_def slower_def)
next
  case False
  then show ?thesis by (intro exI [of _ 0]) (auto simp: same_epoch_def)
qed

lemma same_epoch_frame:
  "m_iDecCount (same_epoch c) = m_iDecCount c + 1" "m_bSlowStart (same_epoch c) = m_bSlowStart c"
  "m_iSndCurrSeqNo (same_epoch c) = m_iSndCurrSeqNo c"
  "m_iLastDecSeq c = m_iSndCurrSeqNo c \<Longrightarrow> m_iLastDecSeq (same_epoch c) = m_iSndCurrSeqNo c"
  by (simp_all add: same_epoch_def slow_down_def Let_def)

lemma later_losses:
  assumes "\<not> m_bSlowStart c" "m_iLastDecSeq c = m_iSndCurrSeqNo c"
    and "\<forall>l\<in>set ls. seqcmp ((l ! 0) AND 0x7FFFFFFF) (m_iSndCurrSeqNo c) \<le> 0"
  shows "\<exists>j. int j \<le> max 0 (5 - m_iDecCount c) \<and>
    m_dPktSndPeriod (fold (CUDTCC_onLoss rand) ls c) = (slower ^^ j) (m_dPktSndPeriod c)"
  using assms
proof (induction ls arbitrary: c)
  case Nil
  show ?case by (intro exI [of _ 0]) simp
next
  case (Cons l ls)
  let ?c = "c\<lparr>m_bLoss := True\<rparr>"
  have e: "CUDTCC_onLoss rand l c = same_epoch ?c"
    using Cons.prems by (simp add: CUDTCC_onLoss_def Let_def)
  obtain j where j: "int j \<le> max 0 (5 - (m_iDecCount c + 1))"
    "m_dPktSndPeriod (fold (CUDTCC_onLoss rand) ls (same_epoch ?c)) = (slower ^^ j) (m_dPktSndPeriod (same_epoch ?c))"
    using Cons.IH [of "same_epoch ?c"] Cons.prems by (auto simp: same_epoch_frame)
  obtain k where k: "int k \<le> (if m_iDecCount c < 5 then 1 else 0)"
    "m_dPktSndPeriod (same_epoch ?c) = (slower ^^ k) (m_dPktSndPeriod c)"
    using same_epoch_slows [of ?c] by auto
  show ?case
    using j k e by (intro exI [of _ "j + k"]) (auto simp: funpow_add split: if_splits)
qed

text \<open>A loss report that begins a congestion epoch lengthens the sending period once, and however
  many reports of older losses follow, they lengthen it four times more at most.\<close>

theorem five_decreases_an_epoch:
  assumes "\<not> m_bSlowStart c" "seqcmp ((l ! 0) AND 0x7FFFFFFF) (m_iLastDecSeq c) > 0"
    and "\<forall>l\<in>set ls. seqcmp ((l ! 0) AND 0x7FFFFFFF) (m_iSndCurrSeqNo c) \<le> 0"
  shows "\<exists>j\<in>{1..5}. m_dPktSndPeriod (fold (CUDTCC_onLoss rand) (l # ls) c) = (slower ^^ j) (m_dPktSndPeriod c)"
proof -
  let ?c = "new_epoch rand (c\<lparr>m_bLoss := True\<rparr>)"
  have e: "CUDTCC_onLoss rand l c = ?c" using assms by (simp add: CUDTCC_onLoss_def Let_def)
  have c: "\<not> m_bSlowStart ?c" "m_iLastDecSeq ?c = m_iSndCurrSeqNo c" "m_iSndCurrSeqNo ?c = m_iSndCurrSeqNo c"
      "m_iDecCount ?c = 1" "m_dPktSndPeriod ?c = slower (m_dPktSndPeriod c)"
    using assms(1) by (simp_all add: new_epoch_def slow_down_def slower_def Let_def)
  obtain j where "int j \<le> 4" "m_dPktSndPeriod (fold (CUDTCC_onLoss rand) ls ?c) = (slower ^^ j) (m_dPktSndPeriod ?c)"
    using later_losses [of ?c ls rand] c assms(3) by auto
  then show ?thesis using e c by (intro bexI [of _ "Suc j"]) (auto simp: funpow_swap1)
qed

theorem five_decreases_an_epoch_witness:
  "\<exists>j\<in>{1..5}. m_dPktSndPeriod (fold (CUDTCC_onLoss (\<lambda>_. 0)) [[5], [3], [4]]
     (CUDTCC_new\<lparr>m_dPktSndPeriod := 8, m_iSndCurrSeqNo := 9\<rparr>)) = (slower ^^ j) 8"
  using five_decreases_an_epoch [of "CUDTCC_new\<lparr>m_dPktSndPeriod := 8, m_iSndCurrSeqNo := 9\<rparr>" "[5]" "[[3], [4]]" "\<lambda>_. 0"]
  by (simp add: CUDTCC_new_def CCC_new_def CCC.defs seqcmp_def serial_consts)

end
