(* ===== verification/Ledbat.thy ===== *)
theory Ledbat imports CongestionControl Packet begin

text \<open>
  The LEDBAT algorithm of the bridge (\<open>bridge/ledbat.h\<close>, \<open>bridge/ledbat.cpp\<close>), class \<open>LedbatCC\<close>, an
  extension of \<open>CCC\<close>. The wall clock is an argument in microseconds, of which
  \<open>getCurrentTimestamp\<close> keeps the low 32 bits. Where the code runs into behaviour that C++
  leaves undefined (an overflow of an \<open>int32_t\<close>, \<open>pop_front\<close> of an empty deque), an operation is
  \<open>None\<close>. \<open>getMinDelay\<close>, which nothing calls, is left out.
\<close>

record LedbatCC = CCC +
  m_currentDelays :: "int32 list"
  m_baseDelays :: "int32 list"
  m_lastRollover :: int
  m_flightSize :: int32
  m_CTO :: int32
  m_inSlowStart :: bool
  m_lastTimeout :: int32

definition TARGET_DELAY :: int where "TARGET_DELAY = 100000"
definition GAIN :: real where "GAIN = 1"
definition BASE_HISTORY_SIZE :: nat where "BASE_HISTORY_SIZE = 10"
definition CURRENT_FILTER_SIZE :: nat where "CURRENT_FILTER_SIZE = 4"
definition ALLOWED_INCREASE :: int where "ALLOWED_INCREASE = 1"
definition INIT_CWND :: int where "INIT_CWND = 2"
definition MIN_CWND :: int where "MIN_CWND = 2"
definition INT_MAX :: int where "INT_MAX = 0x7FFFFFFF"

lemmas ledbat_consts = TARGET_DELAY_def GAIN_def BASE_HISTORY_SIZE_def CURRENT_FILTER_SIZE_def
  ALLOWED_INCREASE_def INIT_CWND_def MIN_CWND_def INT_MAX_def

definition checked :: "int \<Rightarrow> int32 option" where
  "checked x = (if - 0x80000000 \<le> x \<and> x \<le> 0x7FFFFFFF then Some x else None)"

definition LedbatCC_new :: LedbatCC where
  "LedbatCC_new = CCC.extend CCC_new \<lparr>m_currentDelays = [], m_baseDelays = replicate BASE_HISTORY_SIZE INT_MAX,
     m_lastRollover = - 60000000, m_flightSize = 0, m_CTO = 1000000, m_inSlowStart = True, m_lastTimeout = 0\<rparr>"

definition getCurrentTimestamp :: "int \<Rightarrow> int32" where
  "getCurrentTimestamp us = sint (word_of_int us :: uint32)"

definition roundToMinute :: "int \<Rightarrow> int" where
  "roundToMinute timestamp = (timestamp sdiv 60000000) * 60000000"

definition LedbatCC_init :: "int \<Rightarrow> LedbatCC \<Rightarrow> LedbatCC" where
  "LedbatCC_init us c =
    (let c = c\<lparr>m_dCWndSize := real_of_int (INIT_CWND * cc_iMSS c), m_inSlowStart := True, m_flightSize := 0,
               m_CTO := 1000000, m_currentDelays := [], m_baseDelays := replicate BASE_HISTORY_SIZE INT_MAX\<rparr>;
         now = getCurrentTimestamp us
     in c\<lparr>m_lastRollover := now - 60000000\<rparr>)"

definition LedbatCC_close :: "LedbatCC \<Rightarrow> LedbatCC" where
  "LedbatCC_close c = c\<lparr>m_currentDelays := [], m_baseDelays := []\<rparr>"

section \<open>Delay histories\<close>

definition updateCurrentDelay :: "int32 \<Rightarrow> LedbatCC \<Rightarrow> LedbatCC" where
  "updateCurrentDelay delay c =
    (let ds = m_currentDelays c; ds = (if length ds \<ge> CURRENT_FILTER_SIZE then tl ds else ds)
     in c\<lparr>m_currentDelays := ds @ [delay]\<rparr>)"

definition updateBaseDelay :: "int \<Rightarrow> int32 \<Rightarrow> LedbatCC \<Rightarrow> LedbatCC option" where
  "updateBaseDelay us delay c =
    (let now = getCurrentTimestamp us
     in if roundToMinute now \<noteq> roundToMinute (m_lastRollover c) then
          if m_baseDelays c = [] then None
          else Some (c\<lparr>m_lastRollover := now, m_baseDelays := tl (m_baseDelays c) @ [delay]\<rparr>)
        else if m_baseDelays c \<noteq> [] then
          Some (c\<lparr>m_baseDelays := butlast (m_baseDelays c) @ [min (last (m_baseDelays c)) delay]\<rparr>)
        else Some c)"

definition filterCurrentDelays :: "LedbatCC \<Rightarrow> int32" where
  "filterCurrentDelays c = (if m_currentDelays c = [] then -1 else last (m_currentDelays c))"

definition getMinBaseDelays :: "LedbatCC \<Rightarrow> int32" where
  "getMinBaseDelays c = (if m_baseDelays c = [] then INT_MAX else fold min (m_baseDelays c) INT_MAX)"

definition updateCTO :: "LedbatCC \<Rightarrow> LedbatCC" where
  "updateCTO c = (if m_iRTT c > 0 then c\<lparr>m_CTO := max 1000000 (m_iRTT c * 2)\<rparr> else c)"

definition set_period :: "LedbatCC \<Rightarrow> LedbatCC" where
  "set_period c = (if m_dCWndSize c > 0 \<and> m_iRTT c > 0
     then c\<lparr>m_dPktSndPeriod := real_of_int (m_iRTT c) / m_dCWndSize c\<rparr> else c)"

section \<open>Events\<close>

fun add_samples :: "int \<Rightarrow> int32 list \<Rightarrow> LedbatCC \<Rightarrow> LedbatCC option" where
  "add_samples us [] c = Some c"
| "add_samples us (d # ds) c =
     (case updateBaseDelay us d c of None \<Rightarrow> None | Some c \<Rightarrow> add_samples us ds (updateCurrentDelay d c))"

definition resize_window :: "int32 \<Rightarrow> LedbatCC \<Rightarrow> LedbatCC" where
  "resize_window bytes c =
    (let queuing_delay = max 0 (filterCurrentDelays c - getMinBaseDelays c);
         off_target = (real_of_int TARGET_DELAY - real_of_int queuing_delay) / real_of_int TARGET_DELAY;
         inc = GAIN * off_target * real_of_int bytes * real_of_int (cc_iMSS c) / m_dCWndSize c;
         c = c\<lparr>m_dCWndSize := m_dCWndSize c + inc\<rparr>;
         max_allowed = real_of_int (m_flightSize c + ALLOWED_INCREASE * cc_iMSS c);
         c = c\<lparr>m_dCWndSize := min (m_dCWndSize c) max_allowed\<rparr>;
         c = c\<lparr>m_dCWndSize := max (m_dCWndSize c) (real_of_int (MIN_CWND * cc_iMSS c))\<rparr>;
         c = c\<lparr>m_flightSize := max 0 (m_flightSize c - bytes)\<rparr>
     in set_period (updateCTO c))"

definition updateCongestionWindow :: "int \<Rightarrow> int32 list \<Rightarrow> int32 \<Rightarrow> LedbatCC \<Rightarrow> LedbatCC option" where
  "updateCongestionWindow us delay_samples bytes c =
    (case add_samples us delay_samples c of
       None \<Rightarrow> None
     | Some c \<Rightarrow>
         if filterCurrentDelays c < 0 \<or> getMinBaseDelays c = INT_MAX then Some c
         else Some (resize_window bytes c))"

definition LedbatCC_onACK :: "int \<Rightarrow> LedbatCC \<Rightarrow> LedbatCC option" where
  "LedbatCC_onACK us c =
    (if m_currentDelays c \<noteq> [] then updateCongestionWindow us [last (m_currentDelays c)] (cc_iMSS c) c else Some c)"

definition LedbatCC_onLoss :: "LedbatCC \<Rightarrow> LedbatCC" where
  "LedbatCC_onLoss c =
    (let new_cwnd = max (m_dCWndSize c / 2) (real_of_int (MIN_CWND * cc_iMSS c))
     in set_period (c\<lparr>m_dCWndSize := min (m_dCWndSize c) new_cwnd, m_inSlowStart := False\<rparr>))"

definition LedbatCC_onTimeout :: "int \<Rightarrow> LedbatCC \<Rightarrow> LedbatCC option" where
  "LedbatCC_onTimeout us c =
    (case checked (2 * m_CTO c) of
       None \<Rightarrow> None
     | Some cto \<Rightarrow> Some (set_period (c\<lparr>m_dCWndSize := 1 * real_of_int (cc_iMSS c), m_CTO := cto,
                          m_inSlowStart := False, m_lastTimeout := getCurrentTimestamp us\<rparr>)))"

definition LedbatCC_onPktSent :: "LedbatCC \<Rightarrow> LedbatCC option" where
  "LedbatCC_onPktSent c = map_option (\<lambda>f. c\<lparr>m_flightSize := f\<rparr>) (checked (m_flightSize c + cc_iMSS c))"

definition processTimestamp :: "int \<Rightarrow> int32 \<Rightarrow> LedbatCC \<Rightarrow> LedbatCC option" where
  "processTimestamp us timestamp c =
    (case checked (getCurrentTimestamp us - timestamp) of
       None \<Rightarrow> None
     | Some one_way_delay \<Rightarrow>
         if one_way_delay > 0 then updateBaseDelay us one_way_delay (updateCurrentDelay one_way_delay c) else Some c)"

text \<open>The packet, if any, is read as the timestamp field of its header.\<close>

definition LedbatCC_onPktReceived :: "int \<Rightarrow> CPacket option \<Rightarrow> LedbatCC \<Rightarrow> LedbatCC option" where
  "LedbatCC_onPktReceived us pkt c =
    (case pkt of
       None \<Rightarrow> Some c
     | Some p \<Rightarrow> if m_iTimeStamp p > 0 then processTimestamp us (m_iTimeStamp p) c else Some c)"

section \<open>Period and window\<close>

datatype ledbat_event = LAck int | LLoss | LTimeout int | LSent | LReceived int "CPacket option" | LRTT int

fun ledbat_step :: "ledbat_event \<Rightarrow> LedbatCC \<Rightarrow> LedbatCC option" where
  "ledbat_step (LAck us) c = LedbatCC_onACK us c"
| "ledbat_step LLoss c = Some (LedbatCC_onLoss c)"
| "ledbat_step (LTimeout us) c = LedbatCC_onTimeout us c"
| "ledbat_step LSent c = LedbatCC_onPktSent c"
| "ledbat_step (LReceived us pkt) c = LedbatCC_onPktReceived us pkt c"
| "ledbat_step (LRTT r) c = Some (setRTT r c)"

definition ledbat_ok :: "LedbatCC \<Rightarrow> bool" where
  "ledbat_ok c \<longleftrightarrow> 0 < cc_iMSS c \<and> 0 < m_dPktSndPeriod c \<and> real_of_int (cc_iMSS c) \<le> m_dCWndSize c"

lemma ledbat_ok_upd [simp]:
  "ledbat_ok (c\<lparr>m_currentDelays := x\<rparr>) = ledbat_ok c" "ledbat_ok (c\<lparr>m_baseDelays := x\<rparr>) = ledbat_ok c"
  "ledbat_ok (c\<lparr>m_lastRollover := n\<rparr>) = ledbat_ok c" "ledbat_ok (c\<lparr>m_flightSize := n\<rparr>) = ledbat_ok c"
  "ledbat_ok (c\<lparr>m_CTO := n\<rparr>) = ledbat_ok c" "ledbat_ok (c\<lparr>m_inSlowStart := b\<rparr>) = ledbat_ok c"
  "ledbat_ok (c\<lparr>m_lastTimeout := n\<rparr>) = ledbat_ok c" "ledbat_ok (c\<lparr>m_iRTT := n\<rparr>) = ledbat_ok c"
  "ledbat_ok (updateCurrentDelay d c) = ledbat_ok c" "ledbat_ok (updateCTO c) = ledbat_ok c"
  by (simp_all add: ledbat_ok_def updateCurrentDelay_def updateCTO_def Let_def)

lemma set_period_ok: "ledbat_ok c \<Longrightarrow> ledbat_ok (set_period c)"
  by (simp add: ledbat_ok_def set_period_def)

lemma resize_cwnd:
  "m_dCWndSize (resize_window bytes c) =
    max (min (m_dCWndSize c + GAIN * ((real_of_int TARGET_DELAY -
        real_of_int (max 0 (filterCurrentDelays c - getMinBaseDelays c))) / real_of_int TARGET_DELAY)
        * real_of_int bytes * real_of_int (cc_iMSS c) / m_dCWndSize c)
      (real_of_int (m_flightSize c + ALLOWED_INCREASE * cc_iMSS c))) (real_of_int (MIN_CWND * cc_iMSS c))"
  by (simp add: resize_window_def set_period_def updateCTO_def Let_def)

lemma resize_ok: "ledbat_ok c \<Longrightarrow> ledbat_ok (resize_window bytes c)"
  unfolding resize_window_def Let_def
  by (intro set_period_ok, simp only: ledbat_ok_upd) (simp add: ledbat_ok_def MIN_CWND_def le_max_iff_disj)

lemma base_delay_ok: "updateBaseDelay us d c = Some c' \<Longrightarrow> ledbat_ok c' = ledbat_ok c"
  by (auto simp: updateBaseDelay_def Let_def split: if_splits)

lemma samples_ok: "add_samples us ds c = Some c' \<Longrightarrow> ledbat_ok c' = ledbat_ok c"
  by (induction ds arbitrary: c) (auto simp: base_delay_ok split: option.splits)

lemma ledbat_ack_ok: "LedbatCC_onACK us c = Some c' \<Longrightarrow> ledbat_ok c \<Longrightarrow> ledbat_ok c'"
  by (auto simp: LedbatCC_onACK_def updateCongestionWindow_def samples_ok resize_ok
      simp del: add_samples.simps split: if_splits option.splits)

lemma ledbat_received_ok: "LedbatCC_onPktReceived us pkt c = Some c' \<Longrightarrow> ledbat_ok c \<Longrightarrow> ledbat_ok c'"
  by (auto simp: LedbatCC_onPktReceived_def processTimestamp_def base_delay_ok split: if_splits option.splits)

lemma ledbat_loss_ok: "ledbat_ok c \<Longrightarrow> ledbat_ok (LedbatCC_onLoss c)"
  unfolding LedbatCC_onLoss_def Let_def
  by (intro set_period_ok) (simp add: ledbat_ok_def MIN_CWND_def le_max_iff_disj)

lemma ledbat_timeout_ok: "LedbatCC_onTimeout us c = Some c' \<Longrightarrow> ledbat_ok c \<Longrightarrow> ledbat_ok c'"
  by (auto simp: LedbatCC_onTimeout_def intro!: set_period_ok split: option.splits) (simp add: ledbat_ok_def)

lemma ledbat_step_ok: "ledbat_ok c \<Longrightarrow> ledbat_step e c = Some c' \<Longrightarrow> ledbat_ok c'"
  by (cases e) (auto simp: LedbatCC_onPktSent_def setRTT_def
      intro: ledbat_ack_ok ledbat_received_ok ledbat_loss_ok ledbat_timeout_ok)

interpretation ledbat: congestion_control ledbat_ok ledbat_step "\<lambda>_. True" m_dPktSndPeriod m_dCWndSize
  by unfold_locales (auto intro: ledbat_step_ok, auto simp: ledbat_ok_def)

text \<open>C40: from \<open>init\<close> on, whatever happens, LEDBAT's sending period and its window stay positive, as long
  as nothing undefined happens.\<close>

theorem ledbat_stays_positive:
  assumes "0 < cc_iMSS c" "0 < m_dPktSndPeriod c" "run_steps ledbat_step es (LedbatCC_init us c) = Some c'"
  shows "0 < m_dPktSndPeriod c' \<and> 0 < m_dCWndSize c'"
proof (rule ledbat.run_positive [OF assms(3)])
  show "ledbat_ok (LedbatCC_init us c)"
    using assms(1,2) by (simp add: ledbat_ok_def LedbatCC_init_def INIT_CWND_def Let_def)
qed (simp add: list_all_iff)

theorem ledbat_stays_positive_witness:
  "\<exists>c'. run_steps ledbat_step [LSent, LLoss, LRTT 100, LTimeout 5] (LedbatCC_init 0 (LedbatCC_new\<lparr>cc_iMSS := 1500\<rparr>)) = Some c' \<and>
     0 < m_dCWndSize c'"
proof -
  obtain c' where c': "run_steps ledbat_step [LSent, LLoss, LRTT 100, LTimeout 5]
      (LedbatCC_init 0 (LedbatCC_new\<lparr>cc_iMSS := 1500\<rparr>)) = Some c'"
    by (simp add: LedbatCC_onPktSent_def LedbatCC_onTimeout_def LedbatCC_onLoss_def set_period_def checked_def setRTT_def
        LedbatCC_init_def LedbatCC_new_def CCC_new_def CCC.defs Let_def)
  from ledbat_stays_positive [OF _ _ c'] show ?thesis
    using c' by (simp add: LedbatCC_new_def CCC_new_def CCC.defs)
qed

text \<open>An adjustment of the window leaves it between two segments and what is in flight plus one
  segment, or at two segments if that is more.\<close>

theorem window_within_flight:
  assumes "0 < cc_iMSS c"
  shows "2 * real_of_int (cc_iMSS c) \<le> m_dCWndSize (resize_window bytes c) \<and>
    m_dCWndSize (resize_window bytes c) \<le> max (real_of_int (m_flightSize c + cc_iMSS c)) (2 * real_of_int (cc_iMSS c))"
  unfolding resize_cwnd MIN_CWND_def ALLOWED_INCREASE_def by auto

theorem window_within_flight_witness:
  "m_dCWndSize (resize_window 1500 (LedbatCC_new\<lparr>cc_iMSS := 1500\<rparr>)) = 3000"
  using window_within_flight [of "LedbatCC_new\<lparr>cc_iMSS := 1500\<rparr>" 1500]
  by (simp add: LedbatCC_new_def CCC_new_def CCC.defs)

section \<open>What can be undefined\<close>

lemma timeouts:
  "m_CTO c = 1000000 * 2 ^ k \<Longrightarrow> k \<le> 11 \<Longrightarrow>
     run_steps ledbat_step (replicate n (LTimeout us)) c = None \<longleftrightarrow> 12 \<le> n + k"
proof (induction n arbitrary: c k)
  case (Suc n)
  have "checked (2 * m_CTO c) = (if k < 11 then Some (1000000 * 2 ^ Suc k) else None)"
  proof (cases "k = 11")
    case True
    then show ?thesis using Suc.prems by (simp add: checked_def)
  next
    case False
    define z where "z = (2 :: int) ^ Suc k"
    have "z \<le> 2 ^ 11" unfolding z_def using False Suc.prems by (intro power_increasing) auto
    moreover have "0 < z" by (simp add: z_def)
    moreover have "2 * m_CTO c = 1000000 * z" using Suc.prems by (simp add: z_def)
    ultimately have "checked (2 * m_CTO c) = Some (1000000 * z)" by (simp add: checked_def)
    then show ?thesis using False Suc.prems by (simp add: z_def)
  qed
  moreover have "m_CTO (set_period d) = m_CTO d" for d by (simp add: set_period_def)
  ultimately show ?case
    using Suc.IH [of _ "Suc k"] Suc.prems by (auto simp: LedbatCC_onTimeout_def simp del: power_Suc)
qed (use less_le_trans in auto)

text \<open>The twelfth timeout in a row since \<open>init\<close> overflows the congestion timer, which doubles each
  time and is only set back by an ACK.\<close>

theorem twelfth_timeout_overflows:
  "run_steps ledbat_step (replicate n (LTimeout us)) (LedbatCC_init us c) = None \<longleftrightarrow> 12 \<le> n"
  using timeouts [of "LedbatCC_init us c" 0 n us] by (simp add: LedbatCC_init_def Let_def)

text \<open>An algorithm that has received no data packet ignores the ACKs: sending and being
  acknowledged in any order leaves its window alone, and its count of the bytes in flight grows
  with every packet until it overflows.\<close>

theorem sender_never_adapts:
  assumes "m_currentDelays c = []" "0 < cc_iMSS c" "0 \<le> m_flightSize c" "m_flightSize c \<le> INT_MAX"
    and "\<forall>e\<in>set es. e = LSent \<or> (\<exists>us. e = LAck us)"
  shows "run_steps ledbat_step es c =
    (let f = m_flightSize c + cc_iMSS c * int (count_list es LSent)
     in if f \<le> INT_MAX then Some (c\<lparr>m_flightSize := f\<rparr>) else None)"
  using assms
proof (induction es arbitrary: c)
  case (Cons e es)
  show ?case
  proof (cases "e = LSent")
    case True
    have nn: "0 \<le> cc_iMSS c * int (count_list es LSent)" using Cons.prems(2) by simp
    show ?thesis
      using Cons.prems Cons.IH [of "c\<lparr>m_flightSize := m_flightSize c + cc_iMSS c\<rparr>"] True
      by (auto simp: LedbatCC_onPktSent_def checked_def INT_MAX_def Let_def algebra_simps) (use nn in linarith)
  next
    case False
    then show ?thesis using Cons.prems Cons.IH [of c] by (auto simp: LedbatCC_onACK_def)
  qed
qed (simp add: Let_def)

theorem sender_never_adapts_witness:
  "run_steps ledbat_step [LSent, LAck 3, LSent] (LedbatCC_new\<lparr>cc_iMSS := 1500\<rparr>) =
     Some (LedbatCC_new\<lparr>cc_iMSS := 1500, m_flightSize := 3000\<rparr>)"
  using sender_never_adapts [of "LedbatCC_new\<lparr>cc_iMSS := 1500\<rparr>" "[LSent, LAck 3, LSent]"]
  by (simp add: LedbatCC_new_def CCC_new_def CCC.defs INT_MAX_def)

end
