(* ===== verification/ConnState.thy ===== *)
theory ConnState imports Ledbat TimeWindow SndLossSpec RcvLossList SndBuffer RcvBuffer InfoCache "HOL-Library.Monad_Syntax" begin

text \<open>
  A UDT socket, class \<open>CUDT\<close> (\<open>core.h\<close>, \<open>core.cpp\<close>): its state and the congestion control object it owns.
  The calls a socket makes on the objects it shares with other
  sockets (its multiplexer's queues, the epoll, the management module) are recorded in \<open>u_Out\<close>
  in the order they are made. Mutexes are left out: an operation is atomic. \<open>us\<close> is the wall
  clock (\<open>CTimer::getTime\<close>) and \<open>tk\<close> the counter (\<open>CTimer::rdtsc\<close>) while an operation runs. An
  operation that can throw is a sum, \<open>Inl\<close> the exception; one that can run into undefined
  behaviour, a loop that does not end or memory exhaustion is an option.
\<close>

section \<open>Congestion control objects\<close>

text \<open>What \<open>m_pCC\<close> points to, and the virtual calls.\<close>

datatype cc = UdtCC CUDTCC | LedCC LedbatCC

datatype factory = CUDTCC_factory | LedbatCC_factory

fun create :: "factory \<Rightarrow> cc" where
  "create CUDTCC_factory = UdtCC CUDTCC_new"
| "create LedbatCC_factory = LedCC LedbatCC_new"

fun cc_base :: "cc \<Rightarrow> CCC" where
  "cc_base (UdtCC c) = CCC.truncate c"
| "cc_base (LedCC c) = CCC.truncate c"

fun cc_init :: "uint64 \<Rightarrow> cc \<Rightarrow> cc" where
  "cc_init us (UdtCC c) = UdtCC (CUDTCC_init us c)"
| "cc_init us (LedCC c) = LedCC (LedbatCC_init (uint us) c)"

fun cc_close :: "cc \<Rightarrow> cc" where
  "cc_close (UdtCC c) = UdtCC c"
| "cc_close (LedCC c) = LedCC (LedbatCC_close c)"

fun cc_onACK :: "uint64 \<Rightarrow> int32 \<Rightarrow> cc \<Rightarrow> cc option" where
  "cc_onACK us ack (UdtCC c) = Some (UdtCC (CUDTCC_onACK us ack c))"
| "cc_onACK us ack (LedCC c) = map_option LedCC (LedbatCC_onACK (uint us) c)"

fun cc_onLoss :: "(int32 \<Rightarrow> real) \<Rightarrow> int32 list \<Rightarrow> cc \<Rightarrow> cc" where
  "cc_onLoss rand l (UdtCC c) = UdtCC (CUDTCC_onLoss rand l c)"
| "cc_onLoss rand l (LedCC c) = LedCC (LedbatCC_onLoss c)"

fun cc_onTimeout :: "uint64 \<Rightarrow> cc \<Rightarrow> cc option" where
  "cc_onTimeout us (UdtCC c) = Some (UdtCC (CUDTCC_onTimeout c))"
| "cc_onTimeout us (LedCC c) = map_option LedCC (LedbatCC_onTimeout (uint us) c)"

fun cc_onPktSent :: "cc \<Rightarrow> cc option" where
  "cc_onPktSent (UdtCC c) = Some (UdtCC c)"
| "cc_onPktSent (LedCC c) = map_option LedCC (LedbatCC_onPktSent c)"

fun cc_onPktReceived :: "uint64 \<Rightarrow> CPacket \<Rightarrow> cc \<Rightarrow> cc option" where
  "cc_onPktReceived us p (UdtCC c) = Some (UdtCC c)"
| "cc_onPktReceived us p (LedCC c) = map_option LedCC (LedbatCC_onPktReceived (uint us) (Some p) c)"

fun cc_setMSS :: "int \<Rightarrow> cc \<Rightarrow> cc" where
  "cc_setMSS v (UdtCC c) = UdtCC (setMSS v c)" | "cc_setMSS v (LedCC c) = LedCC (setMSS v c)"

fun cc_setMaxCWndSize :: "int \<Rightarrow> cc \<Rightarrow> cc" where
  "cc_setMaxCWndSize v (UdtCC c) = UdtCC (setMaxCWndSize v c)"
| "cc_setMaxCWndSize v (LedCC c) = LedCC (setMaxCWndSize v c)"

fun cc_setSndCurrSeqNo :: "int32 \<Rightarrow> cc \<Rightarrow> cc" where
  "cc_setSndCurrSeqNo v (UdtCC c) = UdtCC (setSndCurrSeqNo v c)"
| "cc_setSndCurrSeqNo v (LedCC c) = LedCC (setSndCurrSeqNo v c)"

fun cc_setRcvRate :: "int \<Rightarrow> cc \<Rightarrow> cc" where
  "cc_setRcvRate v (UdtCC c) = UdtCC (setRcvRate v c)" | "cc_setRcvRate v (LedCC c) = LedCC (setRcvRate v c)"

fun cc_setRTT :: "int \<Rightarrow> cc \<Rightarrow> cc" where
  "cc_setRTT v (UdtCC c) = UdtCC (setRTT v c)" | "cc_setRTT v (LedCC c) = LedCC (setRTT v c)"

fun cc_setBandwidth :: "int \<Rightarrow> cc \<Rightarrow> cc" where
  "cc_setBandwidth v (UdtCC c) = UdtCC (setBandwidth v c)" | "cc_setBandwidth v (LedCC c) = LedCC (setBandwidth v c)"

fun cc_setUDT :: "int \<Rightarrow> cc \<Rightarrow> cc" where
  "cc_setUDT v (UdtCC c) = UdtCC (c\<lparr>m_UDT := v\<rparr>)" | "cc_setUDT v (LedCC c) = LedCC (c\<lparr>m_UDT := v\<rparr>)"

section \<open>State\<close>

text \<open>The calls on shared objects: a packet sent through the send queue, the send schedule, the
  receive queue, the epoll and the management module.\<close>

datatype effect =
    SendTo sockaddr CPacket
  | SndUList_update bool
  | SndUList_remove
  | SetListener
  | RemoveListener
  | RegisterConnector sockaddr uint64
  | RemoveConnector
  | SetNewEntry
  | UpdateEvents int bool
  | RemoveUsock
  | ConnectComplete

record CUDT_options =
  u_SocketID :: int
  u_SockType :: int
  u_PeerID :: int
  u_PktSize :: int
  u_PayloadSize :: int
  u_MSS :: int
  u_SynConnect :: bool
  u_FlightFlagSize :: int
  u_SndBufSize :: int
  u_RcvBufSize :: int
  u_UDPSndBufSize :: int
  u_UDPRcvBufSize :: int
  u_IPversion :: int
  u_Rendezvous :: bool
  u_ReuseAddr :: bool
  u_MaxBW :: int
  u_CCFactory :: factory

record CUDT_status = CUDT_options +
  u_CC :: "cc option"
  u_Listening :: bool
  u_Connecting :: bool
  u_Connected :: bool
  u_Closing :: bool
  u_Shutdown :: bool
  u_Broken :: bool
  u_PeerHealth :: bool
  u_Opened :: bool
  u_BrokenCounter :: int
  u_EXPCount :: int
  u_Bandwidth :: int
  u_RTT :: int
  u_RTTVar :: int
  u_DeliveryRate :: int
  u_ConnReq :: CHandShake
  u_ConnRes :: CHandShake
  u_LastReqTime :: uint64
  u_PeerAddr :: "sockaddr option"
  u_SelfIP :: "uint32 list"
  u_Out :: "effect list"

record CUDT_sender = CUDT_status +
  u_SndBuffer :: "CSndBuffer option"
  u_SndLossList :: "CSndLossList option"
  u_SndTimeWindow :: "CPktTimeWindow option"
  u_Interval :: uint64
  u_TimeDiff :: uint64
  u_FlowWindowSize :: int
  u_CongestionWindow :: real
  u_SndLastAck :: int32
  u_SndLastDataAck :: int32
  u_SndCurrSeqNo :: int32
  u_LastDecSeq :: int32
  u_SndLastAck2 :: int32
  u_SndLastAck2Time :: uint64
  u_ISN :: int32
  u_TargetTime :: uint64

record CUDT_receiver = CUDT_sender +
  u_RcvBuffer :: "CRcvBuffer option"
  u_RcvLossList :: "CRcvLossList option"
  u_ACKWindow :: "CACKWindow option"
  u_RcvTimeWindow :: "CPktTimeWindow option"
  u_RcvLastAck :: int32
  u_LastAckTime :: uint64
  u_RcvLastAckAck :: int32
  u_AckSeqNo :: int32
  u_RcvCurrSeqNo :: int32
  u_LastWarningTime :: uint64
  u_PeerISN :: int32
  u_PktCount :: int
  u_LightACKCount :: int

record CUDT_trace = CUDT_receiver +
  u_StartTime :: uint64
  u_SentTotal :: int
  u_RecvTotal :: int
  u_SndLossTotal :: int
  u_RcvLossTotal :: int
  u_RetransTotal :: int
  u_SentACKTotal :: int
  u_RecvACKTotal :: int
  u_SentNAKTotal :: int
  u_RecvNAKTotal :: int
  u_SndDurationTotal :: uint64
  u_LastSampleTime :: uint64
  u_TraceSent :: int
  u_TraceRecv :: int
  u_TraceSndLoss :: int
  u_TraceRcvLoss :: int
  u_TraceRetrans :: int
  u_SentACK :: int
  u_RecvACK :: int
  u_SentNAK :: int
  u_RecvNAK :: int
  u_SndDuration :: uint64
  u_SndDurationCounter :: uint64

record CUDT = CUDT_trace +
  u_CPUFrequency :: uint64
  u_NextACKTime :: uint64
  u_NextNAKTime :: uint64
  u_SYNInt :: uint64
  u_ACKInt :: uint64
  u_NAKInt :: uint64
  u_LastRspTime :: uint64
  u_MinNakInt :: uint64
  u_MinExpInt :: uint64

definition emit :: "effect \<Rightarrow> CUDT \<Rightarrow> CUDT" where
  "emit e u = u\<lparr>u_Out := u_Out u @ [e]\<rparr>"

end
