(* ===== verification/Connection.thy ===== *)
theory Connection imports ConnState begin

text \<open>
  Constructors, options, \<open>open\<close>, \<open>listen\<close>, \<open>CCUpdate\<close> and \<open>sample\<close> of a UDT socket (\<open>core.cpp\<close>).
\<close>

section \<open>Constructors\<close>

definition m_iVersion_UDT :: int where "m_iVersion_UDT = 4"
definition m_iSelfClockInterval :: int where "m_iSelfClockInterval = 64"
definition IP_AND_UDP_OVERHEAD :: int where "IP_AND_UDP_OVERHEAD = 48"
definition UDT_DGRAM :: int where "UDT_DGRAM = 2"

lemmas conn_consts = m_iVersion_UDT_def m_iSelfClockInterval_def IP_AND_UDP_OVERHEAD_def UDT_DGRAM_def

text \<open>\<open>g\<close> is the memory before the constructor runs: the members it does not set keep their value.\<close>

definition closed_status :: "CUDT \<Rightarrow> CUDT" where
  "closed_status u = u\<lparr>u_CC := None, u_Opened := False, u_Listening := False, u_Connecting := False, u_Connected := False,
     u_Closing := False, u_Shutdown := False, u_Broken := False, u_PeerHealth := True\<rparr>"

definition no_structures :: "CUDT \<Rightarrow> CUDT" where
  "no_structures u = u\<lparr>u_SndBuffer := None, u_RcvBuffer := None, u_SndLossList := None, u_RcvLossList := None,
     u_ACKWindow := None, u_SndTimeWindow := None, u_RcvTimeWindow := None, u_PeerAddr := None, u_Out := []\<rparr>"

definition CUDT_new :: "CUDT \<Rightarrow> CUDT" where
  "CUDT_new g =
    (let u = no_structures g;
         u = u\<lparr>u_MSS := 1500, u_SynConnect := True, u_FlightFlagSize := 25600, u_SndBufSize := 8192,
               u_RcvBufSize := 8192, u_UDPSndBufSize := 65536\<rparr>;
         u = u\<lparr>u_UDPRcvBufSize := u_RcvBufSize u * u_MSS u, u_SockType := UDT_DGRAM, u_IPversion := AF_INET,
               u_Rendezvous := False, u_ReuseAddr := True, u_MaxBW := -1, u_CCFactory := CUDTCC_factory\<rparr>
     in closed_status u)"

definition CUDT_copy :: "CUDT \<Rightarrow> CUDT \<Rightarrow> CUDT" where
  "CUDT_copy ancestor g =
    (let u = no_structures g;
         u = u\<lparr>u_MSS := u_MSS ancestor, u_SynConnect := u_SynConnect ancestor,
               u_FlightFlagSize := u_FlightFlagSize ancestor, u_SndBufSize := u_SndBufSize ancestor,
               u_RcvBufSize := u_RcvBufSize ancestor, u_UDPSndBufSize := u_UDPSndBufSize ancestor,
               u_UDPRcvBufSize := u_UDPRcvBufSize ancestor, u_SockType := u_SockType ancestor,
               u_IPversion := u_IPversion ancestor, u_Rendezvous := u_Rendezvous ancestor,
               u_ReuseAddr := True, u_MaxBW := u_MaxBW ancestor, u_CCFactory := u_CCFactory ancestor\<rparr>
     in closed_status u)"

section \<open>Options\<close>

text \<open>An option with the value \<open>optval\<close> points to; \<open>OtherOpt\<close> stands for the enumerators without a case.
  \<open>errno\<close> is the system's error number. A product of sizes that overflows \<open>int\<close> is undefined behaviour, \<open>None\<close>.\<close>

datatype sockopt =
    UDT_MSS int | UDT_CONNSYN bool | UDT_CC factory | UDT_FC int | UDT_SNDBUF int | UDT_RCVBUF int
  | UDP_SNDBUF int | UDP_RCVBUF int | UDT_RENDEZVOUS bool | UDT_REUSEADDR bool | UDT_MAXBW int | OtherOpt

definition CUDT_setOpt :: "int \<Rightarrow> sockopt \<Rightarrow> CUDT \<Rightarrow> (CUDTException + CUDT) option" where
  "CUDT_setOpt errno opt u =
    (if u_Broken u \<or> u_Closing u then Some (Inl (exc 2 1))
     else case opt of
       UDT_MSS v \<Rightarrow>
         if u_Opened u then Some (Inl (exc 5 1))
         else if v < IP_AND_UDP_OVERHEAD + m_iContentSize then Some (Inl (exc 5 3))
         else
           let u = u\<lparr>u_MSS := v\<rparr>;
               u = (if u_MSS u > u_UDPSndBufSize u then u\<lparr>u_MSS := u_UDPSndBufSize u\<rparr> else u);
               u = (if u_MSS u > u_UDPRcvBufSize u then u\<lparr>u_MSS := u_UDPRcvBufSize u\<rparr> else u)
           in Some (Inr u)
     | UDT_CONNSYN b \<Rightarrow> Some (Inr (u\<lparr>u_SynConnect := b\<rparr>))
     | UDT_CC f \<Rightarrow> Some (if u_Connecting u \<or> u_Connected u then Inl (exc 5 1) else Inr (u\<lparr>u_CCFactory := f\<rparr>))
     | UDT_FC v \<Rightarrow>
         if u_Connecting u \<or> u_Connected u then Some (Inl (exc 5 2))
         else if v < 1 then Some (Inl (CUDTException_new errno 5 3 (-1)))
         else Some (Inr (u\<lparr>u_FlightFlagSize := (if v > 32 then v else 32)\<rparr>))
     | UDT_SNDBUF v \<Rightarrow>
         if u_Opened u then Some (Inl (exc 5 1))
         else if v \<le> 0 then Some (Inl (exc 5 3))
         else Some (Inr (u\<lparr>u_SndBufSize := v sdiv (u_MSS u - IP_AND_UDP_OVERHEAD)\<rparr>))
     | UDT_RCVBUF v \<Rightarrow>
         if u_Opened u then Some (Inl (exc 5 1))
         else if v \<le> 0 then Some (Inl (exc 5 3))
         else do {
           least \<leftarrow> mul_int (u_MSS u - IP_AND_UDP_OVERHEAD) 32;
           let u = u\<lparr>u_RcvBufSize := (if v > least then v sdiv (u_MSS u - IP_AND_UDP_OVERHEAD) else 32)\<rparr>;
           Some (Inr (if u_RcvBufSize u > u_FlightFlagSize u then u\<lparr>u_RcvBufSize := u_FlightFlagSize u\<rparr> else u))
         }
     | UDP_SNDBUF v \<Rightarrow>
         if u_Opened u then Some (Inl (exc 5 1))
         else
           let u = u\<lparr>u_UDPSndBufSize := v\<rparr>
           in Some (Inr (if u_UDPSndBufSize u < u_MSS u then u\<lparr>u_UDPSndBufSize := u_MSS u\<rparr> else u))
     | UDP_RCVBUF v \<Rightarrow>
         if u_Opened u then Some (Inl (exc 5 1))
         else
           let u = u\<lparr>u_UDPRcvBufSize := v\<rparr>
           in Some (Inr (if u_UDPRcvBufSize u < u_MSS u then u\<lparr>u_UDPRcvBufSize := u_MSS u\<rparr> else u))
     | UDT_RENDEZVOUS b \<Rightarrow>
         Some (if u_Connecting u \<or> u_Connected u then Inl (exc 5 1) else Inr (u\<lparr>u_Rendezvous := b\<rparr>))
     | UDT_REUSEADDR b \<Rightarrow> Some (if u_Opened u then Inl (exc 5 1) else Inr (u\<lparr>u_ReuseAddr := b\<rparr>))
     | UDT_MAXBW v \<Rightarrow> Some (Inr (u\<lparr>u_MaxBW := v\<rparr>))
     | OtherOpt \<Rightarrow> Some (Inl (exc 5 0)))"

text \<open>The value of an option as \<open>getOpt\<close> writes it. \<open>state\<close> is the answer of the management module.\<close>

datatype optname =
    GetMSS | GetCONNSYN | GetCC | GetFC | GetSNDBUF | GetRCVBUF | GetUDP_SNDBUF | GetUDP_RCVBUF | GetRENDEZVOUS
  | GetREUSEADDR | GetMAXBW | GetSTATE | GetEVENT | GetSNDDATA | GetRCVDATA | GetOther

datatype optval = VInt int | VBool bool | VCC "cc option" | VInt64 int

definition UDT_EPOLL_IN :: int where "UDT_EPOLL_IN = 1"
definition UDT_EPOLL_OUT :: int where "UDT_EPOLL_OUT = 4"

definition readable :: "CUDT \<Rightarrow> bool" where
  "readable u = (case u_RcvBuffer u of None \<Rightarrow> False | Some b \<Rightarrow> CRcvBuffer_getRcvDataSize b > 0)"

definition writable :: "CUDT \<Rightarrow> bool" where
  "writable u = (case u_SndBuffer u of None \<Rightarrow> False | Some b \<Rightarrow> u_SndBufSize u > CSndBuffer_getCurrBufSize b)"

definition CUDT_getOpt :: "int \<Rightarrow> optname \<Rightarrow> CUDT \<Rightarrow> (CUDTException + optval) option" where
  "CUDT_getOpt state opt u =
    (case opt of
       GetMSS \<Rightarrow> Some (Inr (VInt (u_MSS u)))
     | GetCONNSYN \<Rightarrow> Some (Inr (VBool (u_SynConnect u)))
     | GetCC \<Rightarrow> Some (if \<not> u_Opened u then Inl (exc 5 5) else Inr (VCC (u_CC u)))
     | GetFC \<Rightarrow> Some (Inr (VInt (u_FlightFlagSize u)))
     | GetSNDBUF \<Rightarrow> map_option (\<lambda>n. Inr (VInt n)) (mul_int (u_SndBufSize u) (u_MSS u - IP_AND_UDP_OVERHEAD))
     | GetRCVBUF \<Rightarrow> map_option (\<lambda>n. Inr (VInt n)) (mul_int (u_RcvBufSize u) (u_MSS u - IP_AND_UDP_OVERHEAD))
     | GetUDP_SNDBUF \<Rightarrow> Some (Inr (VInt (u_UDPSndBufSize u)))
     | GetUDP_RCVBUF \<Rightarrow> Some (Inr (VInt (u_UDPRcvBufSize u)))
     | GetRENDEZVOUS \<Rightarrow> Some (Inr (VBool (u_Rendezvous u)))
     | GetREUSEADDR \<Rightarrow> Some (Inr (VBool (u_ReuseAddr u)))
     | GetMAXBW \<Rightarrow> Some (Inr (VInt64 (u_MaxBW u)))
     | GetSTATE \<Rightarrow> Some (Inr (VInt state))
     | GetEVENT \<Rightarrow> Some (Inr (VInt ((if readable u then UDT_EPOLL_IN else 0) + (if writable u then UDT_EPOLL_OUT else 0))))
     | GetSNDDATA \<Rightarrow> Some (Inr (VInt (case u_SndBuffer u of None \<Rightarrow> 0 | Some b \<Rightarrow> CSndBuffer_getCurrBufSize b)))
     | GetRCVDATA \<Rightarrow> Some (Inr (VInt (case u_RcvBuffer u of None \<Rightarrow> 0 | Some b \<Rightarrow> CRcvBuffer_getRcvDataSize b)))
     | GetOther \<Rightarrow> Some (Inl (exc 5 0)))"

text \<open>The sizes that every sequence of calls of \<open>setOpt\<close> keeps.\<close>

definition opts_ok :: "CUDT \<Rightarrow> bool" where
  "opts_ok u \<longleftrightarrow> IP_AND_UDP_OVERHEAD + m_iContentSize \<le> u_MSS u \<and> u_MSS u \<le> u_UDPSndBufSize u \<and>
     u_MSS u \<le> u_UDPRcvBufSize u \<and> 32 \<le> u_FlightFlagSize u \<and> 32 \<le> u_RcvBufSize u \<and> 0 \<le> u_SndBufSize u"

lemma new_opts_ok: "opts_ok (CUDT_new g)"
  by (simp add: opts_ok_def CUDT_new_def closed_status_def conn_consts m_iContentSize_def Let_def)

lemma rcvbuf_min:
  assumes "96 \<le> (m :: int)" "m * 32 - 1536 < v"
  shows "32 \<le> v div (m - 48)"
proof -
  have "32 * (m - 48) div (m - 48) \<le> v div (m - 48)" using assms by (intro zdiv_mono1) auto
  moreover have "32 * (m - 48) div (m - 48) = 32" using assms by (intro nonzero_mult_div_cancel_right) auto
  ultimately show ?thesis by (simp only:)
qed

text \<open>A failed call changes nothing; undefined behaviour ends the run.\<close>

fun run_opts :: "int \<Rightarrow> sockopt list \<Rightarrow> CUDT \<Rightarrow> CUDT option" where
  "run_opts errno [] u = Some u"
| "run_opts errno (opt # opts) u = do {
     r \<leftarrow> CUDT_setOpt errno opt u;
     run_opts errno opts (case r of Inl e \<Rightarrow> u | Inr v \<Rightarrow> v)
   }"

lemma setOpt_ok: "opts_ok u \<Longrightarrow> CUDT_setOpt errno opt u = Some (Inr u') \<Longrightarrow> opts_ok u'"
  by (cases opt) (auto simp: CUDT_setOpt_def opts_ok_def conn_consts m_iContentSize_def Let_def rcvbuf_min mul_int_Some
      pos_imp_zdiv_nonneg_iff split: if_splits bind_splits)

lemma run_opts_ok: "opts_ok u \<Longrightarrow> run_opts errno opts u = Some u' \<Longrightarrow> opts_ok u'"
  by (induction opts arbitrary: u) (auto split: sum.splits bind_splits intro: setOpt_ok)

text \<open>The segment size is what was set last or less, and the one product fits as long as it is small.\<close>

definition mss_max :: int where "mss_max = 2 ^ 26 + 47"

lemma setOpt_defined:
  assumes "opts_ok u" "u_MSS u \<le> mss_max" "\<And>v. opt = UDT_MSS v \<Longrightarrow> v \<le> mss_max"
  shows "\<exists>r. CUDT_setOpt errno opt u = Some r \<and> (\<forall>v. r = Inr v \<longrightarrow> u_MSS v \<le> mss_max)"
proof (cases "\<exists>v. opt = UDT_RCVBUF v")
  case True
  then obtain v where v: "opt = UDT_RCVBUF v" by blast
  have "mul_int (u_MSS u - 48) 32 = Some ((u_MSS u - 48) * 32)"
    using assms(1,2) by (simp add: mul_int_Some fits_int32_def opts_ok_def conn_consts m_iContentSize_def mss_max_def)
  then show ?thesis using assms(2) by (simp add: v CUDT_setOpt_def conn_consts Let_def)
next
  case False
  then show ?thesis using assms(2,3)
    by (cases opt) (auto simp: CUDT_setOpt_def conn_consts Let_def)
qed

lemma run_opts_defined:
  assumes "opts_ok u" "u_MSS u \<le> mss_max" "\<And>v. UDT_MSS v \<in> set opts \<Longrightarrow> v \<le> mss_max"
  shows "run_opts errno opts u \<noteq> None"
  using assms
proof (induction opts arbitrary: u)
  case (Cons opt opts)
  obtain r where r: "CUDT_setOpt errno opt u = Some r" "\<forall>v. r = Inr v \<longrightarrow> u_MSS v \<le> mss_max"
    using setOpt_defined [OF Cons.prems(1,2), of opt errno] Cons.prems(3) by auto
  show ?case
  proof (cases r)
    case (Inl e)
    then show ?thesis using Cons.IH [OF Cons.prems(1,2)] Cons.prems(3) r(1) by simp
  next
    case (Inr v)
    then show ?thesis using Cons.IH [of v] setOpt_ok [OF Cons.prems(1), of errno opt v] Cons.prems(3) r by simp
  qed
qed simp

text \<open>C33: whatever options are set on a new socket, in whatever order and with whatever values, as long as no product of
  sizes overflows, its segment size stays at least 96 bytes and within both UDP buffers, its flow window and its
  receive buffer at least 32 packets. Nothing overflows when no segment size above \<open>mss_max\<close>, 67108911 bytes, is set.\<close>

theorem options_stay_sane:
  "(\<forall>u. run_opts errno opts (CUDT_new g) = Some u \<longrightarrow> opts_ok u) \<and>
   ((\<forall>v. UDT_MSS v \<in> set opts \<longrightarrow> v \<le> mss_max) \<longrightarrow> run_opts errno opts (CUDT_new g) \<noteq> None)"
proof -
  have "u_MSS (CUDT_new g) \<le> mss_max" by (simp add: CUDT_new_def closed_status_def mss_max_def Let_def)
  then show ?thesis using run_opts_ok [OF new_opts_ok] run_opts_defined [OF new_opts_ok] by blast
qed

theorem options_stay_sane_witness:
  "\<forall>g. \<exists>u. run_opts 0 [UDT_MSS 9000, UDT_FC 10, UDT_RCVBUF 1000000, UDP_SNDBUF 5000] (CUDT_new g) = Some u \<and> opts_ok u"
proof
  fix g
  let ?opts = "[UDT_MSS 9000, UDT_FC 10, UDT_RCVBUF 1000000, UDP_SNDBUF 5000]"
  have "\<forall>v. UDT_MSS v \<in> set ?opts \<longrightarrow> v \<le> mss_max" by (simp add: mss_max_def)
  then show "\<exists>u. run_opts 0 ?opts (CUDT_new g) = Some u \<and> opts_ok u"
    using options_stay_sane [of 0 ?opts g] by blast
qed

text \<open>The bound is needed: with the largest segment size the code accepts the product overflows (on a machine that
  wraps it is negative, and the receive buffer becomes empty).\<close>

theorem options_can_overflow:
  "run_opts 0 [UDP_SNDBUF 0x7FFFFFFF, UDP_RCVBUF 0x7FFFFFFF, UDT_MSS 0x7FFFFFFF, UDT_RCVBUF 100000] (CUDT_new g) = None"
  by (simp add: CUDT_setOpt_def CUDT_new_def closed_status_def conn_consts m_iContentSize_def mul_int_def fits_int32_def Let_def)

text \<open>A flow window set after the receive buffer may be smaller than it, although the buffer must not
  be larger, and a segment size that \<open>setOpt\<close> takes may be so small that a handshake of 48 bytes
  does not fit into the payload: \<open>serialize\<close> then fails and the request goes out unwritten.\<close>

theorem options_accepted_but_wrong:
  "(\<exists>u. CUDT_setOpt errno (UDT_FC 100) (CUDT_new g) = Some (Inr u) \<and> u_FlightFlagSize u < u_RcvBufSize u) \<and>
   (\<exists>u. CUDT_setOpt errno (UDT_MSS 96) (CUDT_new g) = Some (Inr u) \<and>
      fst (serialize h buf (u_MSS u - IP_AND_UDP_OVERHEAD - m_iPktHdrSize)) = -1)"
  by (simp add: CUDT_setOpt_def CUDT_new_def closed_status_def conn_consts m_iContentSize_def serialize_def
      m_iPktHdrSize_def Let_def)

section \<open>Opening\<close>

text \<open>\<open>open\<close> also resets the two list nodes of the socket, which the lists' models hold.\<close>

definition reset_trace :: "CUDT \<Rightarrow> CUDT" where
  "reset_trace u = u\<lparr>u_TraceSent := 0, u_TraceRecv := 0, u_TraceSndLoss := 0, u_TraceRcvLoss := 0, u_TraceRetrans := 0,
     u_SentACK := 0, u_RecvACK := 0, u_SentNAK := 0, u_RecvNAK := 0\<rparr>"

definition CUDT_open :: "uint64 \<Rightarrow> uint64 \<Rightarrow> uint64 \<Rightarrow> CUDT \<Rightarrow> CUDT" where
  "CUDT_open cpu us tk u =
    (let u = u\<lparr>u_PktSize := u_MSS u - IP_AND_UDP_OVERHEAD\<rparr>;
         u = u\<lparr>u_PayloadSize := u_PktSize u - m_iPktHdrSize\<rparr>;
         u = u\<lparr>u_EXPCount := 1, u_Bandwidth := 1, u_DeliveryRate := 16, u_AckSeqNo := 0, u_LastAckTime := 0,
               u_StartTime := us, u_SentTotal := 0, u_RecvTotal := 0, u_SndLossTotal := 0, u_RcvLossTotal := 0,
               u_RetransTotal := 0, u_SentACKTotal := 0, u_RecvACKTotal := 0, u_SentNAKTotal := 0,
               u_RecvNAKTotal := 0, u_LastSampleTime := us\<rparr>;
         u = (reset_trace u)\<lparr>u_SndDuration := 0, u_SndDurationTotal := 0\<rparr>;
         u = u\<lparr>u_RTT := 10 * m_iSYNInterval\<rparr>;
         u = u\<lparr>u_RTTVar := u_RTT u div 2, u_CPUFrequency := cpu\<rparr>;
         u = u\<lparr>u_SYNInt := word_of_int m_iSYNInterval * u_CPUFrequency u, u_MinNakInt := 300000 * u_CPUFrequency u,
               u_MinExpInt := 300000 * u_CPUFrequency u\<rparr>;
         u = u\<lparr>u_ACKInt := u_SYNInt u, u_NAKInt := u_MinNakInt u\<rparr>;
         u = u\<lparr>u_LastRspTime := tk, u_NextACKTime := tk + u_SYNInt u, u_NextNAKTime := tk + u_NAKInt u,
               u_PktCount := 0, u_LightACKCount := 1, u_TargetTime := 0, u_TimeDiff := 0\<rparr>
     in u\<lparr>u_Opened := True\<rparr>)"

text \<open>\<open>free\<close>: no other socket listens on the same port (\<open>setListener\<close> returns 0).\<close>

definition CUDT_listen :: "bool \<Rightarrow> CUDT \<Rightarrow> CUDTException + CUDT" where
  "CUDT_listen free u =
    (if \<not> u_Opened u then Inl (exc 5 0)
     else if u_Connecting u \<or> u_Connected u then Inl (exc 5 2)
     else if u_Listening u then Inr u
     else if \<not> free then Inl (exc 5 11)
     else Inr (emit (UpdateEvents 0 False) ((emit SetListener u)\<lparr>u_Listening := True\<rparr>)))"

section \<open>The sending rate\<close>

text \<open>The conversion of a non-negative \<open>double\<close> to \<open>uint64_t\<close>.\<close>

definition to_uint64 :: "real \<Rightarrow> uint64" where
  "to_uint64 x = word_of_int \<lfloor>x\<rfloor>"

definition cc_period :: "CUDT \<Rightarrow> real" where
  "cc_period u = m_dPktSndPeriod (cc_base (the (u_CC u)))"

definition cc_window :: "CUDT \<Rightarrow> real" where
  "cc_window u = m_dCWndSize (cc_base (the (u_CC u)))"

definition CUDT_CCUpdate :: "CUDT \<Rightarrow> CUDT" where
  "CUDT_CCUpdate u =
    (let f = real_of_int (uint (u_CPUFrequency u));
         u = u\<lparr>u_Interval := to_uint64 (cc_period u * f), u_CongestionWindow := cc_window u\<rparr>
     in if u_MaxBW u \<le> 0 then u
        else
          let minSP = 1000000 / (real_of_int (u_MaxBW u) / real_of_int (u_MSS u)) * f
          in if real_of_int (uint (u_Interval u)) < minSP then u\<lparr>u_Interval := to_uint64 minSP\<rparr> else u)"

lemma uint_to_uint64: "0 \<le> x \<Longrightarrow> x < 2 ^ 64 \<Longrightarrow> real_of_int (uint (to_uint64 x)) \<le> x \<and> x < real_of_int (uint (to_uint64 x)) + 1"
proof -
  assume x: "0 \<le> x" "x < 2 ^ 64"
  then have "\<lfloor>x\<rfloor> < 2 ^ 64" by (simp add: floor_less_iff)
  then have "uint (to_uint64 x) = \<lfloor>x\<rfloor>" using x by (simp add: to_uint64_def uint_word_of_int)
  then show ?thesis by linarith
qed

text \<open>C39: with a bandwidth limit, \<open>CCUpdate\<close> leaves at least the time between two packets, less than one
  tick short, that full packets at the limit take.\<close>

theorem bandwidth_limit_kept:
  assumes "0 < u_MaxBW u" "0 < u_MSS u"
    and "1000000 * real_of_int (u_MSS u) * real_of_int (uint (u_CPUFrequency u)) < 2 ^ 64 * real_of_int (u_MaxBW u)"
  shows "1000000 * real_of_int (u_MSS u) * real_of_int (uint (u_CPUFrequency u)) <
    (real_of_int (uint (u_Interval (CUDT_CCUpdate u))) + 1) * real_of_int (u_MaxBW u)"
proof -
  let ?f = "real_of_int (uint (u_CPUFrequency u))"
  let ?m = "1000000 / (real_of_int (u_MaxBW u) / real_of_int (u_MSS u)) * ?f"
  have m: "?m = 1000000 * real_of_int (u_MSS u) * ?f / real_of_int (u_MaxBW u)" by simp
  have f: "0 \<le> ?f" by (simp only: of_int_0_le_iff uint_ge_0)
  have "0 \<le> ?m"
    using assms(1,2) by (intro mult_nonneg_nonneg [OF divide_nonneg_nonneg f] divide_nonneg_nonneg) auto
  moreover have "?m < 2 ^ 64" unfolding m using assms(1,3) by (subst pos_divide_less_eq) auto
  ultimately have t: "?m < real_of_int (uint (to_uint64 ?m)) + 1" using uint_to_uint64 by blast
  have "?m < real_of_int (uint (u_Interval (CUDT_CCUpdate u))) + 1"
  proof (cases "real_of_int (uint (to_uint64 (cc_period u * ?f))) < ?m")
    case True
    then show ?thesis using t assms(1) by (simp add: CUDT_CCUpdate_def Let_def)
  next
    case False
    then show ?thesis using assms(1) by (simp add: CUDT_CCUpdate_def Let_def)
  qed
  then show ?thesis unfolding m using assms(1) by (subst (asm) pos_divide_less_eq) auto
qed

theorem bandwidth_limit_kept_witness:
  "\<forall>g. 1000000 * 1500 * 2000 < (real_of_int (uint (u_Interval (CUDT_CCUpdate
     ((CUDT_new g)\<lparr>u_MaxBW := 1000000, u_CPUFrequency := 2000\<rparr>)))) + 1) * 1000000"
proof
  fix g
  show "1000000 * 1500 * 2000 < (real_of_int (uint (u_Interval (CUDT_CCUpdate
     ((CUDT_new g)\<lparr>u_MaxBW := 1000000, u_CPUFrequency := 2000\<rparr>)))) + 1) * 1000000"
    using bandwidth_limit_kept [of "(CUDT_new g)\<lparr>u_MaxBW := 1000000, u_CPUFrequency := 2000\<rparr>"]
    by (simp add: CUDT_new_def closed_status_def Let_def)
qed

section \<open>Statistics\<close>

record CPerfMon =
  msTimeStamp :: uint64
  pktSentTotal :: int
  pktRecvTotal :: int
  pktSndLossTotal :: int
  pktRcvLossTotal :: int
  pktRetransTotal :: int
  pktSentACKTotal :: int
  pktRecvACKTotal :: int
  pktSentNAKTotal :: int
  pktRecvNAKTotal :: int
  usSndDurationTotal :: uint64
  pktSent :: int
  pktRecv :: int
  pktSndLoss :: int
  pktRcvLoss :: int
  pktRetrans :: int
  pktSentACK :: int
  pktRecvACK :: int
  pktSentNAK :: int
  pktRecvNAK :: int
  mbpsSendRate :: real
  mbpsRecvRate :: real
  usSndDuration :: uint64
  usPktSndPeriod :: real
  pktFlowWindow :: int
  pktCongestionWindow :: int
  pktFlightSize :: int
  msRTT :: real
  mbpsBandwidth :: real
  byteAvailSndBuf :: int
  byteAvailRcvBuf :: int

text \<open>\<open>locked\<close>: another operation holds the connection's lock. No interval between two samples is empty. A product that overflows is \<open>None\<close>.\<close>

definition CUDT_sample :: "uint64 \<Rightarrow> bool \<Rightarrow> bool \<Rightarrow> CUDT \<Rightarrow> (CUDTException + (CPerfMon \<times> CUDT)) option" where
  "CUDT_sample us locked clear u =
    (if \<not> u_Connected u then Some (Inl (exc 2 2))
     else if u_Broken u \<or> u_Closing u then Some (Inl (exc 2 1))
     else do {
       let interval = real_of_int (uint (us - u_LastSampleTime u));
       bandwidth \<leftarrow> mul_int (u_Bandwidth u) (u_PayloadSize u);
       sndroom \<leftarrow> (if locked then Some 0 else case u_SndBuffer u of None \<Rightarrow> Some 0
         | Some b \<Rightarrow> mul_int (u_SndBufSize u - CSndBuffer_getCurrBufSize b) (u_MSS u));
       rcvroom \<leftarrow> (if locked then Some 0 else case u_RcvBuffer u of None \<Rightarrow> Some 0
         | Some b \<Rightarrow> mul_int (CRcvBuffer_getAvailBufSize b) (u_MSS u));
       let perf = \<lparr>msTimeStamp = (us - u_StartTime u) div 1000, pktSentTotal = u_SentTotal u,
             pktRecvTotal = u_RecvTotal u, pktSndLossTotal = u_SndLossTotal u, pktRcvLossTotal = u_RcvLossTotal u,
             pktRetransTotal = u_RetransTotal u, pktSentACKTotal = u_SentACKTotal u, pktRecvACKTotal = u_RecvACKTotal u,
             pktSentNAKTotal = u_SentNAKTotal u, pktRecvNAKTotal = u_RecvNAKTotal u,
             usSndDurationTotal = u_SndDurationTotal u, pktSent = u_TraceSent u, pktRecv = u_TraceRecv u,
             pktSndLoss = u_TraceSndLoss u, pktRcvLoss = u_TraceRcvLoss u, pktRetrans = u_TraceRetrans u,
             pktSentACK = u_SentACK u, pktRecvACK = u_RecvACK u, pktSentNAK = u_SentNAK u, pktRecvNAK = u_RecvNAK u,
             mbpsSendRate = real_of_int (u_TraceSent u) * real_of_int (u_PayloadSize u) * 8 / interval,
             mbpsRecvRate = real_of_int (u_TraceRecv u) * real_of_int (u_PayloadSize u) * 8 / interval,
             usSndDuration = u_SndDuration u,
             usPktSndPeriod = real_of_int (uint (u_Interval u)) / real_of_int (uint (u_CPUFrequency u)),
             pktFlowWindow = u_FlowWindowSize u, pktCongestionWindow = trunc (u_CongestionWindow u),
             pktFlightSize = seqlen (u_SndLastAck u) (incseq (u_SndCurrSeqNo u)) - 1,
             msRTT = real_of_int (u_RTT u) / 1000,
             mbpsBandwidth = real_of_int bandwidth * 8 / 1000000,
             byteAvailSndBuf = sndroom, byteAvailRcvBuf = rcvroom\<rparr>;
       Some (Inr (perf, if clear then (reset_trace u)\<lparr>u_SndDuration := 0, u_LastSampleTime := us\<rparr> else u))
     })"

end
