(* ===== verification/SendCtrl.thy ===== *)
theory SendCtrl imports Connection begin

text \<open>
  Control packets that a socket sends: \<open>CUDT::sendCtrl\<close> (\<open>core.cpp\<close>). The pointer \<open>lparam\<close> is the value it
  points to and \<open>rparam\<close> the bytes it points to, \<open>None\<close> for NULL. A result of \<open>None\<close> is undefined
  behaviour (a NULL that is read, an estimate that divides by zero).
\<close>

definition words_bytes :: "int32 list \<Rightarrow> byte list" where
  "words_bytes ws = concat (map (\<lambda>w. bytes_of (word_of_int w)) ws)"

lemma length_words_bytes [simp]: "length (words_bytes ws) = 4 * length ws"
  by (induction ws) (simp_all add: words_bytes_def)

text \<open>\<open>ctrlpkt.m_iID = m_PeerID; m_pSndQueue->sendto(m_pPeerAddr, ctrlpkt)\<close>\<close>

definition send_to_peer :: "CPacket \<Rightarrow> CUDT \<Rightarrow> CUDT" where
  "send_to_peer p u = emit (SendTo (the (u_PeerAddr u)) (set_m_iID (u_PeerID u) p)) u"

definition pack_and_send :: "int \<Rightarrow> int32 option \<Rightarrow> byte list option \<Rightarrow> int \<Rightarrow> CUDT \<Rightarrow> CUDT option" where
  "pack_and_send pkttype lparam rparam sz u =
     map_option (\<lambda>p. send_to_peer p u) (pack pkttype lparam rparam sz CPacket_new)"

section \<open>Acknowledgements\<close>

definition ack_number :: "CUDT \<Rightarrow> int32" where
  "ack_number u =
    (if 0 = CRcvLossList_getLossLength (the (u_RcvLossList u)) then incseq (u_RcvCurrSeqNo u)
     else CRcvLossList_getFirstLostSeq (the (u_RcvLossList u)))"

text \<open>\<open>(m_iRTT + 4 * m_iRTTVar) * m_ullCPUFrequency\<close>\<close>

definition rtt_timeout :: "CUDT \<Rightarrow> uint64" where
  "rtt_timeout u = word_of_int (u_RTT u + 4 * u_RTTVar u) * u_CPUFrequency u"

text \<open>What a full ACK does to the receive buffer; \<open>None\<close> when there is nothing to say.\<close>

definition advance_ack :: "uint64 \<Rightarrow> int32 \<Rightarrow> CUDT \<Rightarrow> CUDT option" where
  "advance_ack tk ack u =
    (if seqcmp ack (u_RcvLastAck u) > 0 then
       let acksize = seqoff (u_RcvLastAck u) ack;
           u = u\<lparr>u_RcvLastAck := ack\<rparr>;
           u = u\<lparr>u_RcvBuffer := map_option (CRcvBuffer_ackData acksize) (u_RcvBuffer u)\<rparr>
       in Some (emit (UpdateEvents UDT_EPOLL_IN True) u)
     else if ack = u_RcvLastAck u then
       if tk - u_LastAckTime u < rtt_timeout u then None else Some u
     else None)"

definition ack_data :: "CUDT \<Rightarrow> int32 list" where
  "ack_data u =
    (let avail = CRcvBuffer_getAvailBufSize (the (u_RcvBuffer u))
     in [u_RcvLastAck u, u_RTT u, u_RTTVar u, if avail < 2 then 2 else avail])"

definition send_full_ack :: "uint64 \<Rightarrow> uint64 \<Rightarrow> CUDT \<Rightarrow> CUDT option" where
  "send_full_ack us tk u0 =
    (let u = u0\<lparr>u_AckSeqNo := incack (u_AckSeqNo u0)\<rparr>
     in do {
       u \<leftarrow> (if tk - u_LastAckTime u > u_SYNInt u then do {
               speed \<leftarrow> CPktTimeWindow_getPktRcvSpeed (the (u_RcvTimeWindow u));
               bandwidth \<leftarrow> CPktTimeWindow_getBandwidth (the (u_RcvTimeWindow u));
               let u' = u\<lparr>u_LastAckTime := tk\<rparr>;
               pack_and_send 2 (Some (u_AckSeqNo u)) (Some (words_bytes (ack_data u @ [speed, bandwidth]))) 24 u'
             }
             else pack_and_send 2 (Some (u_AckSeqNo u)) (Some (words_bytes (ack_data u))) 16 u);
       Some (u\<lparr>u_ACKWindow := map_option (CACKWindow_store us (u_AckSeqNo u) (u_RcvLastAck u)) (u_ACKWindow u),
               u_SentACK := u_SentACK u + 1, u_SentACKTotal := u_SentACKTotal u + 1\<rparr>)
     })"

definition sendCtrl_ack :: "uint64 \<Rightarrow> uint64 \<Rightarrow> int \<Rightarrow> CUDT \<Rightarrow> CUDT option" where
  "sendCtrl_ack us tk sz u =
    (let ack = ack_number u
     in if ack = u_RcvLastAckAck u then Some u
        else if 4 = sz then pack_and_send 2 None (Some (words_bytes [ack])) sz u
        else case advance_ack tk ack u of
               None \<Rightarrow> Some u
             | Some u \<Rightarrow>
                 if seqcmp (u_RcvLastAck u) (u_RcvLastAckAck u) > 0 then send_full_ack us tk u else Some u)"

section \<open>Loss reports\<close>

definition count_nak :: "CUDT \<Rightarrow> CUDT" where
  "count_nak u = u\<lparr>u_SentNAK := u_SentNAK u + 1, u_SentNAKTotal := u_SentNAKTotal u + 1\<rparr>"

definition send_nak :: "byte list option \<Rightarrow> int \<Rightarrow> CUDT \<Rightarrow> CUDT option" where
  "send_nak rparam sz u =
    (case rparam of
       Some r \<Rightarrow>
         map_option count_nak
           (if 1 = sz then pack_and_send 3 None (Some (drop 4 r)) 4 u else pack_and_send 3 None (Some r) 8 u)
     | None \<Rightarrow>
         if CRcvLossList_getLossLength (the (u_RcvLossList u)) > 0 then do {
           data \<leftarrow> CRcvLossList_getLossArray (u_PayloadSize u sdiv 4) (the (u_RcvLossList u));
           if 0 < length data
           then map_option count_nak (pack_and_send 3 None (Some (words_bytes data)) (int (length data) * 4) u)
           else Some u
         }
         else Some u)"

definition next_nak_interval :: "CUDT \<Rightarrow> CUDT option" where
  "next_nak_interval u = do {
     speed \<leftarrow> CPktTimeWindow_getPktRcvSpeed (the (u_RcvTimeWindow u));
     let i = rtt_timeout u;
     let i = (if speed > 0
              then i + word_of_int (CRcvLossList_getLossLength (the (u_RcvLossList u))) * 1000000 div word_of_int speed
                     * u_CPUFrequency u
              else i);
     Some (u\<lparr>u_NAKInt := (if i < u_MinNakInt u then u_MinNakInt u else i)\<rparr>)
   }"

section \<open>sendCtrl\<close>

text \<open>\<open>sizeof(CHandShake)\<close>\<close>

definition CHandShake_sizeof :: int where "CHandShake_sizeof = 48"

definition CUDT_sendCtrl ::
    "uint64 \<Rightarrow> uint64 \<Rightarrow> int \<Rightarrow> int32 option \<Rightarrow> byte list option \<Rightarrow> int \<Rightarrow> CUDT \<Rightarrow> CUDT option" where
  "CUDT_sendCtrl us tk pkttype lparam rparam sz u =
    (if pkttype = 2 then sendCtrl_ack us tk sz u
     else if pkttype = 6 then pack_and_send pkttype lparam None 0 u
     else if pkttype = 3 then Option.bind (send_nak rparam sz u) next_nak_interval
     else if pkttype = 4 then map_option (\<lambda>u. u\<lparr>u_LastWarningTime := tk\<rparr>) (pack_and_send pkttype None None 0 u)
     else if pkttype = 1 then pack_and_send pkttype None None 0 u
     else if pkttype = 0 then pack_and_send pkttype None rparam CHandShake_sizeof u
     else if pkttype = 5 then pack_and_send pkttype None None 0 u
     else if pkttype = 7 then pack_and_send pkttype lparam rparam 8 u
     else if pkttype = 8 then pack_and_send pkttype lparam None 0 u
     else Some u)"

end
