(* ===== verification/DataTransfer.thy ===== *)
theory DataTransfer imports SendCtrl begin

text \<open>
  Data transfer of a socket (\<open>core.cpp\<close>): \<open>sendmsg\<close> and \<open>recvmsg\<close> of the application, \<open>packData\<close>, which the
  sending thread calls for the next packet, and \<open>processData\<close>, which the receiving thread calls
  with a unit of the pool that holds a packet.
\<close>

section \<open>sendmsg and recvmsg\<close>

text \<open>An exception thrown while the buffer grows leaves the buffer as far as it got. A product of sizes that
  overflows \<open>int\<close> is undefined behaviour, \<open>None\<close>.\<close>

definition CUDT_sendmsg ::
    "(nat \<Rightarrow> Block) \<Rightarrow> (CSndBuffer \<Rightarrow> bool) \<Rightarrow> uint64 \<Rightarrow> uint64 \<Rightarrow> byte list \<Rightarrow> int \<Rightarrow> int \<Rightarrow> bool \<Rightarrow> CUDT \<Rightarrow>
     ((CUDTException + int) \<times> CUDT) option" where
  "CUDT_sendmsg garbage mem us tk data len msttl inorder u =
    (if u_Broken u \<or> u_Closing u then Some (Inl (exc 2 1), u)
     else if \<not> u_Connected u then Some (Inl (exc 2 2), u)
     else if len \<le> 0 then Some (Inr 0, u)
     else do {
       most \<leftarrow> mul_int (u_SndBufSize u) (u_PayloadSize u);
       if len > most then Some (Inl (exc 5 12), u)
       else do {
         let b = the (u_SndBuffer u);
         let u = (if CSndBuffer_getCurrBufSize b = 0 then u\<lparr>u_LastRspTime := tk\<rparr> else u);
         room \<leftarrow> mul_int (u_SndBufSize u - CSndBuffer_getCurrBufSize b) (u_PayloadSize u);
         if room < len then Some (Inr (- 6001), u)
         else
           let u = (if 0 = CSndBuffer_getCurrBufSize b then u\<lparr>u_SndDurationCounter := us\<rparr> else u)
           in case CSndBuffer_addBuffer garbage mem us data len msttl inorder b of
                None \<Rightarrow> None
              | Some (Inl (e, b)) \<Rightarrow> Some (Inl e, u\<lparr>u_SndBuffer := Some b\<rparr>)
              | Some (Inr b) \<Rightarrow> Some (Inr len, emit (SndUList_update False) (u\<lparr>u_SndBuffer := Some b\<rparr>))
       }
     })"

definition CUDT_recvmsg ::
    "int \<Rightarrow> CUDT \<Rightarrow> CUnitQueue \<Rightarrow> ((CUDTException + int \<times> byte list) \<times> CUDT \<times> CUnitQueue) option" where
  "CUDT_recvmsg len u pool =
    (if \<not> u_Connected u then Some (Inl (exc 2 2), u, pool)
     else if len \<le> 0 then Some (Inr (0, []), u, pool)
     else
       case CRcvBuffer_readMsg len (the (u_RcvBuffer u)) pool of
         None \<Rightarrow> None
       | Some (res, data, b, pool) \<Rightarrow>
           let u' = u\<lparr>u_RcvBuffer := Some b\<rparr>
           in if 0 = res then
                Some (if u_Broken u \<or> u_Closing u then Inl (exc 2 1) else Inr (- 6002, data), u', pool)
              else Some (Inr (res, data), u', pool))"

section \<open>packData\<close>

definition sent_length :: "CUDT \<Rightarrow> int" where
  "sent_length u = seqlen (u_SndLastAck u) (incseq (u_SndCurrSeqNo u))"

definition send_window :: "CUDT \<Rightarrow> int" where
  "send_window u =
    (if u_FlowWindowSize u < trunc (u_CongestionWindow u) then u_FlowWindowSize u else trunc (u_CongestionWindow u))"

definition set_seq :: "int32 \<Rightarrow> CPacket \<Rightarrow> CPacket" where
  "set_seq s p = set_hdr 0 (word_of_int s) p"

text \<open>A packet to send with its payload length, or \<open>return 0\<close>, possibly with \<open>ts = 0\<close>.\<close>

datatype packed = Packed int bool | Nothing | NothingReset

text \<open>A message whose time is over is dropped: the receiver is told and the sequence numbers skipped.\<close>

definition drop_message :: "uint64 \<Rightarrow> uint64 \<Rightarrow> int32 \<Rightarrow> uint32 \<Rightarrow> int \<Rightarrow> CUDT \<Rightarrow> CUDT option" where
  "drop_message us tk seq msgno mlen u = do {
     let last = incseq_by seq mlen;
     u \<leftarrow> CUDT_sendCtrl us tk 7 (Some (sint msgno)) (Some (words_bytes [seq, last])) 8 u;
     l \<leftarrow> CSndLossList_remove last (the (u_SndLossList u));
     let u = u\<lparr>u_SndLossList := Some l\<rparr>;
     Some (if seqcmp (u_SndCurrSeqNo u) (incseq last) < 0 then u\<lparr>u_SndCurrSeqNo := incseq last\<rparr> else u)
   }"

definition pack_lost :: "uint64 \<Rightarrow> uint64 \<Rightarrow> CPacket \<Rightarrow> CUDT \<Rightarrow> (packed \<times> CPacket \<times> CUDT) option" where
  "pack_lost us tk packet u =
    (let offset = seqoff (u_SndLastDataAck u) (m_iSeqNo packet)
     in if offset < 0 then Some (Nothing, packet, u)
        else
          case CSndBuffer_readData_at us offset (the (u_SndBuffer u)) of
            None \<Rightarrow> None
          | Some (SbDropped msgno mlen, b) \<Rightarrow>
              map_option (\<lambda>u. (Nothing, set_hdr 1 msgno packet, u))
                (drop_message us tk (m_iSeqNo packet) msgno mlen (u\<lparr>u_SndBuffer := Some b\<rparr>))
          | Some (SbData payload bytes word, b) \<Rightarrow>
              let packet = (set_hdr 1 word packet)\<lparr>m_pcData := bytes\<rparr>
              in if payload = 0 then Some (Nothing, packet, u)
                 else Some (Packed payload False, packet,
                        u\<lparr>u_TraceRetrans := u_TraceRetrans u + 1, u_RetransTotal := u_RetransTotal u + 1\<rparr>))"

definition pack_new :: "CPacket \<Rightarrow> CUDT \<Rightarrow> packed \<times> CPacket \<times> CUDT" where
  "pack_new packet u =
    (if send_window u \<ge> sent_length u then
       case CSndBuffer_readData (the (u_SndBuffer u)) of
         (Some (payload, bytes, word), b) \<Rightarrow>
           let packet = (set_hdr 1 word packet)\<lparr>m_pcData := bytes\<rparr>; u = u\<lparr>u_SndBuffer := Some b\<rparr>
           in if payload \<noteq> 0 then
                let u = u\<lparr>u_SndCurrSeqNo := incseq (u_SndCurrSeqNo u)\<rparr>;
                    u = u\<lparr>u_CC := map_option (cc_setSndCurrSeqNo (u_SndCurrSeqNo u)) (u_CC u)\<rparr>;
                    packet = set_seq (u_SndCurrSeqNo u) packet
                in (Packed payload (m_iSeqNo packet AND 0xF = 0), packet, u)
              else (NothingReset, packet, u\<lparr>u_TargetTime := 0, u_TimeDiff := 0\<rparr>)
       | (None, b) \<Rightarrow> (NothingReset, packet, u\<lparr>u_TargetTime := 0, u_TimeDiff := 0\<rparr>)
     else (NothingReset, packet, u\<lparr>u_TargetTime := 0, u_TimeDiff := 0\<rparr>))"

text \<open>The time of the next packet.\<close>

definition schedule_next :: "uint64 \<Rightarrow> bool \<Rightarrow> CUDT \<Rightarrow> uint64 \<times> CUDT" where
  "schedule_next entertime probe u =
    (let (ts, u) =
       (if probe then (entertime, u)
        else if u_TimeDiff u \<ge> u_Interval u then (entertime, u\<lparr>u_TimeDiff := u_TimeDiff u - u_Interval u\<rparr>)
        else (entertime + u_Interval u - u_TimeDiff u, u\<lparr>u_TimeDiff := 0\<rparr>))
     in (ts, u\<lparr>u_TargetTime := ts\<rparr>))"

definition finish_packet :: "uint64 \<Rightarrow> uint64 \<Rightarrow> int \<Rightarrow> bool \<Rightarrow> CPacket \<Rightarrow> CUDT \<Rightarrow> (int \<times> CPacket \<times> uint64 \<times> CUDT) option" where
  "finish_packet us tk payload probe packet u = do {
     let packet = set_hdr 2 (ucast (us - u_StartTime u)) packet;
     let packet = setLength payload (set_m_iID (u_PeerID u) packet);
     cc \<leftarrow> cc_onPktSent (the (u_CC u));
     let u = u\<lparr>u_CC := Some cc, u_TraceSent := u_TraceSent u + 1, u_SentTotal := u_SentTotal u + 1\<rparr>;
     let (ts, u) = schedule_next tk probe u;
     Some (payload, packet, ts, u)
   }"

text \<open>The arguments \<open>packet\<close> and \<open>ts\<close> are references: the result has the payload length and their new values.\<close>

definition CUDT_packData :: "uint64 \<Rightarrow> uint64 \<Rightarrow> CPacket \<Rightarrow> uint64 \<Rightarrow> CUDT \<Rightarrow> (int \<times> CPacket \<times> uint64 \<times> CUDT) option" where
  "CUDT_packData us tk packet ts u =
    (let u = (if 0 \<noteq> u_TargetTime u \<and> tk > u_TargetTime u then u\<lparr>u_TimeDiff := u_TimeDiff u + (tk - u_TargetTime u)\<rparr>
              else u);
         (seq, l) = CSndLossList_getLostSeq (the (u_SndLossList u));
         u = u\<lparr>u_SndLossList := Some l\<rparr>;
         packet = set_seq seq packet
     in case (if m_iSeqNo packet \<ge> 0 then pack_lost us tk packet u else Some (pack_new packet u)) of
          None \<Rightarrow> None
        | Some (Packed payload probe, packet, u) \<Rightarrow> finish_packet us tk payload probe packet u
        | Some (Nothing, packet, u) \<Rightarrow> Some (0, packet, ts, u)
        | Some (NothingReset, packet, u) \<Rightarrow> Some (0, packet, 0, u))"

section \<open>processData\<close>

definition detect_loss :: "uint64 \<Rightarrow> uint64 \<Rightarrow> int32 \<Rightarrow> CUDT \<Rightarrow> CUDT option" where
  "detect_loss us tk seq u =
    (if seqcmp seq (incseq (u_RcvCurrSeqNo u)) > 0 then do {
       let lo = incseq (u_RcvCurrSeqNo u);
       let hi = decseq seq;
       let u = u\<lparr>u_RcvLossList := map_option (CRcvLossList_insert lo hi) (u_RcvLossList u)\<rparr>;
       u \<leftarrow> CUDT_sendCtrl us tk 3 None (Some (words_bytes [lo OR 0x80000000, hi])) (if lo = hi then 1 else 2) u;
       let loss = seqlen (u_RcvCurrSeqNo u) seq - 2;
       Some (u\<lparr>u_TraceRcvLoss := u_TraceRcvLoss u + loss, u_RcvLossTotal := u_RcvLossTotal u + loss\<rparr>)
     }
     else Some u)"

definition advance_received :: "int32 \<Rightarrow> CUDT \<Rightarrow> CUDT option" where
  "advance_received seq u =
    (if seqcmp seq (u_RcvCurrSeqNo u) > 0 then Some (u\<lparr>u_RcvCurrSeqNo := seq\<rparr>)
     else map_option (\<lambda>(_, l). u\<lparr>u_RcvLossList := Some l\<rparr>) (CRcvLossList_remove seq (the (u_RcvLossList u))))"

definition note_arrival :: "uint64 \<Rightarrow> uint64 \<Rightarrow> CPacket \<Rightarrow> CUDT \<Rightarrow> CUDT option" where
  "note_arrival us tk packet u = do {
     cc \<leftarrow> cc_onPktReceived us packet (the (u_CC u));
     let w = CPktTimeWindow_onPktArrival us (the (u_RcvTimeWindow u));
     let w = (if m_iSeqNo packet AND 0xF = 0 then CPktTimeWindow_probe1Arrival us w
              else if m_iSeqNo packet AND 0xF = 1 then CPktTimeWindow_probe2Arrival us w else w);
     Some (u\<lparr>u_EXPCount := 1, u_LastRspTime := tk, u_CC := Some cc, u_PktCount := u_PktCount u + 1,
             u_RcvTimeWindow := Some w, u_TraceRecv := u_TraceRecv u + 1, u_RecvTotal := u_RecvTotal u + 1\<rparr>)
   }"

definition CUDT_processData :: "uint64 \<Rightarrow> uint64 \<Rightarrow> unit_ref \<Rightarrow> CUDT \<Rightarrow> CUnitQueue \<Rightarrow> (int \<times> CUDT \<times> CUnitQueue) option" where
  "CUDT_processData us tk unit u pool =
    (let packet = m_Packet (unit_at pool unit); seq = m_iSeqNo packet in do {
       u \<leftarrow> note_arrival us tk packet u;
       let offset = seqoff (u_RcvLastAck u) seq;
       let b = the (u_RcvBuffer u);
       if offset < 0 \<or> offset \<ge> CRcvBuffer_getAvailBufSize b then Some (- 1, u, pool)
       else do {
         let (r, b, pool) = CRcvBuffer_addData unit offset b pool;
         let u = u\<lparr>u_RcvBuffer := Some b\<rparr>;
         if r < 0 then Some (- 1, u, pool)
         else do {
           u \<leftarrow> detect_loss us tk seq u;
           let u = (if getLength packet \<noteq> u_PayloadSize u then u\<lparr>u_NextACKTime := tk\<rparr> else u);
           u \<leftarrow> advance_received seq u;
           Some (0, u, pool)
         }
       }
     })"

end
