(* ===== verification/ProcessCtrl.thy ===== *)
theory ProcessCtrl imports DataTransfer begin

text \<open>
  Control packets that a socket receives, \<open>CUDT::processCtrl\<close>, and its timers, \<open>CUDT::checkTimers\<close>
  (\<open>core.cpp\<close>). \<open>*((int32_t *)ctrlpkt.m_pcData + i)\<close> is \<open>word_at packet i\<close>; it reads the unit's buffer, also
  past the length of the packet.
\<close>

definition word_at :: "CPacket \<Rightarrow> nat \<Rightarrow> int32" where
  "word_at p i = sint (peek32 (m_pcData p) i)"

definition break_connection :: "CUDT \<Rightarrow> CUDT" where
  "break_connection u = u\<lparr>u_Broken := True, u_BrokenCounter := 0\<rparr>"

definition on_cc :: "(cc \<Rightarrow> cc) \<Rightarrow> CUDT \<Rightarrow> CUDT" where
  "on_cc f u = u\<lparr>u_CC := map_option f (u_CC u)\<rparr>"

section \<open>Acknowledgements\<close>

definition light_ack :: "int32 \<Rightarrow> CUDT \<Rightarrow> CUDT" where
  "light_ack ack u =
    (if seqcmp ack (u_SndLastAck u) \<ge> 0
     then u\<lparr>u_FlowWindowSize := u_FlowWindowSize u - seqoff (u_SndLastAck u) ack, u_SndLastAck := ack\<rparr> else u)"

definition send_ack2 :: "uint64 \<Rightarrow> uint64 \<Rightarrow> int32 \<Rightarrow> CUDT \<Rightarrow> CUDT option" where
  "send_ack2 us tk ackno u =
    (if tk - u_SndLastAck2Time u > word_of_int m_iSYNInterval \<or> ackno = u_SndLastAck2 u
     then map_option (\<lambda>u. u\<lparr>u_SndLastAck2 := ackno, u_SndLastAck2Time := us\<rparr>) (CUDT_sendCtrl us tk 6 (Some ackno) None 0 u)
     else Some u)"

text \<open>\<open>None\<close> when the ACK is not new for the send buffer.\<close>

definition ack_buffer :: "uint64 \<Rightarrow> int32 \<Rightarrow> CUDT \<Rightarrow> CUDT option option" where
  "ack_buffer tk ack u =
    (let offset = seqoff (u_SndLastDataAck u) ack
     in if offset \<le> 0 then None
        else Some (do {
          let u = u\<lparr>u_SndBuffer := map_option (CSndBuffer_ackData offset) (u_SndBuffer u),
                    u_SndDuration := u_SndDuration u + (tk - u_SndDurationCounter u),
                    u_SndDurationTotal := u_SndDurationTotal u + (tk - u_SndDurationCounter u),
                    u_SndDurationCounter := tk, u_SndLastDataAck := ack\<rparr>;
          l \<leftarrow> CSndLossList_remove (decseq (u_SndLastDataAck u)) (the (u_SndLossList u));
          Some (u\<lparr>u_SndLossList := Some l\<rparr>)
        }))"

definition update_rtt :: "int \<Rightarrow> CUDT \<Rightarrow> CUDT" where
  "update_rtt rtt u =
    (let u = u\<lparr>u_RTTVar := (u_RTTVar u * 3 + \<bar>rtt - u_RTT u\<bar>) div 4\<rparr>;
         u = u\<lparr>u_RTT := (u_RTT u * 7 + rtt) div 8\<rparr>
     in on_cc (cc_setRTT (u_RTT u)) u)"

definition update_rates :: "CPacket \<Rightarrow> CUDT \<Rightarrow> CUDT" where
  "update_rates p u =
    (if getLength p > 16 then
       let u = (if word_at p 4 > 0 then u\<lparr>u_DeliveryRate := (u_DeliveryRate u * 7 + word_at p 4) div 8\<rparr> else u);
           u = (if word_at p 5 > 0 then u\<lparr>u_Bandwidth := (u_Bandwidth u * 7 + word_at p 5) div 8\<rparr> else u)
       in on_cc (cc_setBandwidth (u_Bandwidth u)) (on_cc (cc_setRcvRate (u_DeliveryRate u)) u)
     else u)"

definition full_ack :: "uint64 \<Rightarrow> uint64 \<Rightarrow> CPacket \<Rightarrow> CUDT \<Rightarrow> CUDT option" where
  "full_ack us tk p u = do {
     u \<leftarrow> send_ack2 us tk (getAckSeqNo p) u;
     let ack = word_at p 0;
     if seqcmp ack (incseq (u_SndCurrSeqNo u)) > 0 then Some (break_connection u)
     else
       let u = (if seqcmp ack (u_SndLastAck u) \<ge> 0 then u\<lparr>u_FlowWindowSize := word_at p 3, u_SndLastAck := ack\<rparr> else u)
       in case ack_buffer tk ack u of
            None \<Rightarrow> Some u
          | Some r \<Rightarrow> do {
              u \<leftarrow> r;
              let u = emit (SndUList_update False) (emit (UpdateEvents UDT_EPOLL_OUT True) u);
              let u = update_rates p (update_rtt (word_at p 1) u);
              cc \<leftarrow> cc_onACK us ack (the (u_CC u));
              let u = CUDT_CCUpdate (u\<lparr>u_CC := Some cc\<rparr>);
              Some (u\<lparr>u_RecvACK := u_RecvACK u + 1, u_RecvACKTotal := u_RecvACKTotal u + 1\<rparr>)
            }
   }"

definition ack_of_ack :: "uint64 \<Rightarrow> CPacket \<Rightarrow> CUDT \<Rightarrow> CUDT" where
  "ack_of_ack us p u =
    (let (rtt, ack, w) = CACKWindow_acknowledge us (getAckSeqNo p) (the (u_ACKWindow u));
         u = u\<lparr>u_ACKWindow := Some w\<rparr>
     in if rtt \<le> 0 then u
        else
          let u = update_rtt rtt u
          in if seqcmp (the ack) (u_RcvLastAckAck u) > 0 then u\<lparr>u_RcvLastAckAck := the ack\<rparr> else u)"

section \<open>Loss reports\<close>

definition count_loss :: "int \<Rightarrow> CSndLossList \<Rightarrow> CUDT \<Rightarrow> CUDT" where
  "count_loss num l u = u\<lparr>u_SndLossList := Some l, u_TraceSndLoss := u_TraceSndLoss u + num, u_SndLossTotal := u_SndLossTotal u + num\<rparr>"

definition insert_loss :: "int32 \<Rightarrow> int32 \<Rightarrow> CUDT \<Rightarrow> CUDT option" where
  "insert_loss lo hi u = map_option (\<lambda>(num, l). count_loss num l u) (CSndLossList_insert lo hi (the (u_SndLossList u)))"

definition range_loss :: "int32 \<Rightarrow> int32 \<Rightarrow> CUDT \<Rightarrow> CUDT option" where
  "range_loss lo hi u =
    (if seqcmp lo (u_SndLastAck u) \<ge> 0 then insert_loss lo hi u
     else if seqcmp hi (u_SndLastAck u) \<ge> 0 then insert_loss (u_SndLastAck u) hi u
     else Some u)"

text \<open>The decoding loop over the words \<open>i, \<dots>, n - 1\<close>: whether the report is \<open>secure\<close>, and the socket.\<close>

function decode_loss :: "(nat \<Rightarrow> int32) \<Rightarrow> nat \<Rightarrow> nat \<Rightarrow> CUDT \<Rightarrow> (bool \<times> CUDT) option" where
  "decode_loss w i n u =
    (if i < n then
       if 0 \<noteq> w i AND 0x80000000 then
         let lo = w i AND 0x7FFFFFFF; hi = w (i + 1)
         in if seqcmp lo hi > 0 \<or> seqcmp hi (u_SndCurrSeqNo u) > 0 then Some (False, u)
            else case range_loss lo hi u of None \<Rightarrow> None | Some u \<Rightarrow> decode_loss w (i + 2) n u
       else if seqcmp (w i) (u_SndLastAck u) \<ge> 0 then
         if seqcmp (w i) (u_SndCurrSeqNo u) > 0 then Some (False, u)
         else case insert_loss (w i) (w i) u of None \<Rightarrow> None | Some u \<Rightarrow> decode_loss w (i + 1) n u
       else decode_loss w (i + 1) n u
     else Some (True, u))"
  by auto
termination by (relation "measure (\<lambda>(w, i, n, u). n - i)") auto

declare decode_loss.simps [simp del]

definition loss_report :: "(int32 \<Rightarrow> real) \<Rightarrow> CPacket \<Rightarrow> CUDT \<Rightarrow> CUDT option" where
  "loss_report rand p u =
    (let n = nat (getLength p sdiv 4);
         u = CUDT_CCUpdate (on_cc (cc_onLoss rand (map (word_at p) [0..<max 1 n])) u)
     in case decode_loss (word_at p) 0 n u of
          None \<Rightarrow> None
        | Some (secure, u) \<Rightarrow>
            if \<not> secure then Some (break_connection u)
            else Some ((emit (SndUList_update True) u)\<lparr>u_RecvNAK := u_RecvNAK u + 1, u_RecvNAKTotal := u_RecvNAKTotal u + 1\<rparr>))"

section \<open>Other control packets\<close>

definition repeat_handshake :: "uint64 \<Rightarrow> uint64 \<Rightarrow> CPacket \<Rightarrow> CUDT \<Rightarrow> CUDT option" where
  "repeat_handshake us tk p u =
    (let req = snd (deserialize (m_pcData p) (getLength p) CHandShake_new)
     in if m_iReqType req > 0 \<or> (u_Rendezvous u \<and> m_iReqType req \<noteq> - 2) then
          let initdata = CHandShake_new\<lparr>m_iISN := u_ISN u, m_iMSS := u_MSS u, m_iFlightFlagSize := u_FlightFlagSize u,
                m_iReqType := (if \<not> u_Rendezvous u then - 1 else - 2), m_iHsID := u_SocketID u\<rparr>;
              (_, hs, hs_size) = serialize initdata (replicate (nat (u_PayloadSize u)) 0) (u_PayloadSize u)
          in CUDT_sendCtrl us tk 0 None (Some hs) hs_size u
        else Some u)"

definition peer_shutdown :: "CUDT \<Rightarrow> CUDT" where
  "peer_shutdown u = u\<lparr>u_Shutdown := True, u_Closing := True, u_Broken := True, u_BrokenCounter := 60\<rparr>"

definition drop_request :: "CPacket \<Rightarrow> CUDT \<Rightarrow> CUnitQueue \<Rightarrow> (CUDT \<times> CUnitQueue) option" where
  "drop_request p u pool = do {
     pool \<leftarrow> CRcvBuffer_dropMsg (getMsgSeq p) (the (u_RcvBuffer u)) pool;
     (_, l) \<leftarrow> CRcvLossList_remove2 (word_at p 0) (word_at p 1) (the (u_RcvLossList u));
     let u = u\<lparr>u_RcvLossList := Some l\<rparr>;
     Some (if seqcmp (word_at p 0) (incseq (u_RcvCurrSeqNo u)) \<le> 0 \<and> seqcmp (word_at p 1) (u_RcvCurrSeqNo u) > 0
           then u\<lparr>u_RcvCurrSeqNo := word_at p 1\<rparr> else u, pool)
   }"

definition delay_warning :: "CUDT \<Rightarrow> CUDT" where
  "delay_warning u = u\<lparr>u_Interval := word_of_int \<lceil>real_of_int (uint (u_Interval u)) * (1125 / 1000)\<rceil>,
     u_LastDecSeq := u_SndCurrSeqNo u\<rparr>"

definition heard_from_peer :: "uint64 \<Rightarrow> CUDT \<Rightarrow> CUDT" where
  "heard_from_peer tk u = u\<lparr>u_EXPCount := 1, u_LastRspTime := tk\<rparr>"

definition CUDT_processCtrl ::
    "(int32 \<Rightarrow> real) \<Rightarrow> uint64 \<Rightarrow> uint64 \<Rightarrow> CPacket \<Rightarrow> CUDT \<Rightarrow> CUnitQueue \<Rightarrow> (CUDT \<times> CUnitQueue) option" where
  "CUDT_processCtrl rand us tk p u pool =
    (let u = heard_from_peer tk u; t = getType p; here = map_option (\<lambda>u. (u, pool))
     in if t = 2 then
          if 4 = getLength p then Some (light_ack (word_at p 0) u, pool) else here (full_ack us tk p u)
        else if t = 6 then Some (ack_of_ack us p u, pool)
        else if t = 3 then here (loss_report rand p u)
        else if t = 4 then Some (delay_warning u, pool)
        else if t = 1 then Some (u, pool)
        else if t = 0 then here (repeat_handshake us tk p u)
        else if t = 5 then Some (peer_shutdown u, pool)
        else if t = 7 then drop_request p u pool
        else if t = 8 then Some (u\<lparr>u_PeerHealth := False\<rparr>, pool)
        else if t = 32767 then Some (CUDT_CCUpdate u, pool)
        else Some (u, pool))"

section \<open>Timers\<close>

definition ack_timer :: "uint64 \<Rightarrow> uint64 \<Rightarrow> CUDT \<Rightarrow> CUDT option" where
  "ack_timer us tk u =
    (let c = cc_base (the (u_CC u))
     in if tk > u_NextACKTime u \<or> (m_iACKInterval c > 0 \<and> m_iACKInterval c \<le> u_PktCount u) then
          map_option (\<lambda>u. u\<lparr>u_NextACKTime := tk + (if m_iACKPeriod c > 0 then word_of_int (m_iACKPeriod c) * u_CPUFrequency u
                                                    else u_ACKInt u), u_PktCount := 0, u_LightACKCount := 1\<rparr>)
            (CUDT_sendCtrl us tk 2 None None 0 u)
        else if m_iSelfClockInterval * u_LightACKCount u \<le> u_PktCount u then
          map_option (\<lambda>u. u\<lparr>u_LightACKCount := u_LightACKCount u + 1\<rparr>) (CUDT_sendCtrl us tk 2 None None 4 u)
        else Some u)"

definition next_exp_time :: "CUDT \<Rightarrow> uint64" where
  "next_exp_time u =
    (let c = cc_base (the (u_CC u))
     in if m_bUserDefinedRTO c then u_LastRspTime u + word_of_int (m_iRTO c) * u_CPUFrequency u
        else
          let exp_int = word_of_int (u_EXPCount u * (u_RTT u + 4 * u_RTTVar u) + m_iSYNInterval) * u_CPUFrequency u;
              least = word_of_int (u_EXPCount u) * u_MinExpInt u
          in u_LastRspTime u + (if exp_int < least then least else exp_int))"

definition give_up :: "CUDT \<Rightarrow> CUDT" where
  "give_up u =
    (let u = u\<lparr>u_Closing := True, u_Broken := True, u_BrokenCounter := 30\<rparr>
     in emit (UpdateEvents (UDT_EPOLL_IN + UDT_EPOLL_OUT) True) (emit (SndUList_update True) u))"

definition resend_unacked :: "CUDT \<Rightarrow> CUDT option" where
  "resend_unacked u =
    (if incseq (u_SndCurrSeqNo u) \<noteq> u_SndLastAck u \<and> CSndLossList_getLossLength (the (u_SndLossList u)) = 0
     then insert_loss (u_SndLastAck u) (u_SndCurrSeqNo u) u else Some u)"

definition exp_timer :: "uint64 \<Rightarrow> uint64 \<Rightarrow> CUDT \<Rightarrow> CUDT option" where
  "exp_timer us tk u =
    (if tk > next_exp_time u then
       if u_EXPCount u > 16 \<and> tk - u_LastRspTime u > 5000000 * u_CPUFrequency u then Some (give_up u)
       else do {
         u \<leftarrow> (if CSndBuffer_getCurrBufSize (the (u_SndBuffer u)) > 0 then do {
                 u \<leftarrow> resend_unacked u;
                 cc \<leftarrow> cc_onTimeout us (the (u_CC u));
                 Some (emit (SndUList_update True) (CUDT_CCUpdate (u\<lparr>u_CC := Some cc\<rparr>)))
               }
               else CUDT_sendCtrl us tk 1 None None 0 u);
         Some (u\<lparr>u_EXPCount := u_EXPCount u + 1, u_LastRspTime := tk\<rparr>)
       }
     else Some u)"

definition CUDT_checkTimers :: "uint64 \<Rightarrow> uint64 \<Rightarrow> CUDT \<Rightarrow> CUDT option" where
  "CUDT_checkTimers us tk u = Option.bind (ack_timer us tk (CUDT_CCUpdate u)) (exp_timer us tk)"

end
