(* ===== verification/Handshake.thy ===== *)
theory Handshake imports ProcessCtrl begin

text \<open>
  Setting up and closing a connection (\<open>core.cpp\<close>): the three \<open>CUDT::connect\<close>, \<open>CUDT::listen(addr, packet)\<close>
  and \<open>CUDT::close\<close>. The path cache, \<open>getnameinfo\<close> and the MD5 digest are arguments, \<open>rnd\<close> is the quotient
  \<open>double(rand()) / RAND_MAX\<close> and \<open>mem\<close> says whether memory for the connection's structures is there.
\<close>

section \<open>The request\<close>

definition handshake_packet :: "CHandShake \<Rightarrow> int32 \<Rightarrow> int \<Rightarrow> CPacket" where
  "handshake_packet h i payload =
    (let (_, reqdata, hs_size) = serialize h (replicate (nat payload) 0) payload;
         p = the (pack 0 None (Some reqdata) payload CPacket_new)
     in setLength hs_size (set_m_iID i p))"

definition flow_window_offer :: "CUDT \<Rightarrow> int" where
  "flow_window_offer u = (if u_RcvBufSize u < u_FlightFlagSize u then u_RcvBufSize u else u_FlightFlagSize u)"

definition random_isn :: "real \<Rightarrow> int32" where
  "random_isn rnd = trunc (real_of_int m_iMaxSeqNo * rnd)"

definition my_request :: "sockaddr \<Rightarrow> CUDT \<Rightarrow> CHandShake" where
  "my_request serv_addr u =
    (u_ConnReq u)\<lparr>m_iVersion := m_iVersion_UDT, m_iType := u_SockType u, m_iMSS := u_MSS u,
       m_iFlightFlagSize := flow_window_offer u, m_iReqType := (if \<not> u_Rendezvous u then 1 else 0),
       m_iHsID := u_SocketID u, m_piPeerIP := ntop serv_addr (m_piPeerIP (u_ConnReq u)) (u_IPversion u)\<rparr>"

definition start_sequence :: "uint64 \<Rightarrow> int32 \<Rightarrow> CUDT \<Rightarrow> CUDT" where
  "start_sequence us isn u = u\<lparr>u_ISN := isn, u_LastDecSeq := isn - 1, u_SndLastAck := isn, u_SndLastDataAck := isn,
     u_SndCurrSeqNo := isn - 1, u_SndLastAck2 := isn, u_SndLastAck2Time := us\<rparr>"

definition connect_ttl :: "uint64 \<Rightarrow> CUDT \<Rightarrow> uint64" where
  "connect_ttl us u = (if u_Rendezvous u then 30000000 else 3000000) + us"

text \<open>\<open>connect(serv_addr)\<close> up to the first request, which is all of it for an asynchronous connect.\<close>

definition CUDT_connect_start :: "real \<Rightarrow> uint64 \<Rightarrow> sockaddr \<Rightarrow> CUDT \<Rightarrow> CUDTException + CUDT" where
  "CUDT_connect_start rnd us serv_addr u =
    (if \<not> u_Opened u then Inl (exc 5 0)
     else if u_Listening u then Inl (exc 5 2)
     else if u_Connecting u \<or> u_Connected u then Inl (exc 5 2)
     else
       let u = u\<lparr>u_PeerAddr := Some serv_addr\<rparr>;
           u = emit (RegisterConnector serv_addr (connect_ttl us u)) u;
           u = u\<lparr>u_ConnReq := my_request serv_addr u\<rparr>;
           isn = random_isn rnd;
           u = u\<lparr>u_ConnReq := (u_ConnReq u)\<lparr>m_iISN := isn\<rparr>\<rparr>;
           u = start_sequence us isn u;
           u = emit (SendTo serv_addr (handshake_packet (u_ConnReq u) 0 (u_PayloadSize u))) u
       in Inr (u\<lparr>u_LastReqTime := us, u_Connecting := True\<rparr>))"

section \<open>The connection's structures\<close>

definition set_sizes :: "int \<Rightarrow> CUDT \<Rightarrow> CUDT" where
  "set_sizes mss u =
    (let u = u\<lparr>u_MSS := mss, u_PktSize := mss - IP_AND_UDP_OVERHEAD\<rparr>
     in u\<lparr>u_PayloadSize := u_PktSize u - m_iPktHdrSize\<rparr>)"

definition expect_from :: "int32 \<Rightarrow> CUDT \<Rightarrow> CUDT" where
  "expect_from isn u = u\<lparr>u_PeerISN := isn, u_RcvLastAck := isn, u_RcvLastAckAck := isn, u_RcvCurrSeqNo := isn - 1\<rparr>"

definition prepare_structures :: "(nat \<Rightarrow> Block) \<Rightarrow> uint64 \<Rightarrow> CUDT \<Rightarrow> CUDT" where
  "prepare_structures garbage us u =
     u\<lparr>u_SndBuffer := Some (CSndBuffer_new garbage 32 (u_PayloadSize u)),
       u_RcvBuffer := Some (CRcvBuffer_new (u_RcvBufSize u)),
       u_SndLossList := Some (CSndLossList_new (u_FlowWindowSize u * 2)),
       u_RcvLossList := Some (CRcvLossList_new (u_FlightFlagSize u)),
       u_ACKWindow := Some (CACKWindow_new 1024),
       u_RcvTimeWindow := Some (CPktTimeWindow_new us 16 64),
       u_SndTimeWindow := Some (CPktTimeWindow_new us 16 16)\<rparr>"

text \<open>\<open>None\<close> when the cache reads a deleted item.\<close>

definition info_key :: "sockaddr \<Rightarrow> CUDT \<Rightarrow> CInfoBlock" where
  "info_key addr u = \<lparr>ib_IP = CInfoBlock_convert addr (u_IPversion u), ib_IPversion = u_IPversion u, ib_TimeStamp = 0,
     ib_RTT = 0, ib_Bandwidth = 0, ib_LossRate = 0, ib_ReorderDistance = 0, ib_Interval = 0, ib_CWnd = 0\<rparr>"

definition use_cache :: "CCache \<Rightarrow> sockaddr \<Rightarrow> CUDT \<Rightarrow> CUDT option" where
  "use_cache cache addr u =
     map_option (\<lambda>(r, ib). if r \<ge> 0 then u\<lparr>u_RTT := ib_RTT ib, u_Bandwidth := ib_Bandwidth ib\<rparr> else u)
       (CCache_lookup (info_key addr u) cache)"

definition start_cc :: "uint64 \<Rightarrow> CUDT \<Rightarrow> CUDT" where
  "start_cc us u =
    (let c = create (u_CCFactory u);
         c = cc_setMaxCWndSize (u_FlowWindowSize u) (cc_setMSS (u_MSS u) (cc_setUDT (u_SocketID u) c));
         c = cc_setRTT (u_RTT u) (cc_setRcvRate (u_DeliveryRate u) (cc_setSndCurrSeqNo (u_SndCurrSeqNo u) c));
         u = u\<lparr>u_CC := Some (cc_init us (cc_setBandwidth (u_Bandwidth u) c))\<rparr>
     in u\<lparr>u_Interval := to_uint64 (cc_period u * real_of_int (uint (u_CPUFrequency u))),
          u_CongestionWindow := cc_window u\<rparr>)"

section \<open>The response\<close>

text \<open>The label \<open>POST_CONNECT\<close>. A failed allocation throws out of a function declared \<open>throw()\<close>, which ends
  the program: \<open>None\<close>.\<close>

definition post_connect :: "(nat \<Rightarrow> Block) \<Rightarrow> (CUDT \<Rightarrow> bool) \<Rightarrow> uint64 \<Rightarrow> CCache \<Rightarrow> CUDT \<Rightarrow> CUDT option" where
  "post_connect garbage mem us cache u =
    (let res = u_ConnRes u;
         u = emit RemoveConnector u;
         u = (set_sizes (m_iMSS res) u)\<lparr>u_FlowWindowSize := m_iFlightFlagSize res\<rparr>;
         u = (expect_from (m_iISN res) u)\<lparr>u_PeerID := m_iHsID res, u_SelfIP := m_piPeerIP res\<rparr>
     in if \<not> mem u then None
        else do {
          u \<leftarrow> use_cache cache (the (u_PeerAddr u)) (prepare_structures garbage us u);
          let u = (start_cc us u)\<lparr>u_Connecting := False, u_Connected := True\<rparr>;
          Some (emit ConnectComplete (emit (UpdateEvents UDT_EPOLL_OUT True) (emit SetNewEntry u)))
        })"

definition request_again :: "CUDT \<Rightarrow> CUDT" where
  "request_again u = u\<lparr>u_ConnReq := (u_ConnReq u)\<lparr>m_iReqType := - 1\<rparr>, u_LastReqTime := 0\<rparr>"

definition CUDT_connect_response ::
    "(nat \<Rightarrow> Block) \<Rightarrow> (CUDT \<Rightarrow> bool) \<Rightarrow> uint64 \<Rightarrow> CCache \<Rightarrow> CPacket \<Rightarrow> CUDT \<Rightarrow> (int \<times> CUDT) option" where
  "CUDT_connect_response garbage mem us cache p u =
    (let post = (\<lambda>u. map_option (\<lambda>u. (0, u)) (post_connect garbage mem us cache u))
     in if \<not> u_Connecting u then Some (- 1, u)
        else if u_Rendezvous u \<and> (0 = getFlag p \<or> 1 = getType p) \<and> 0 \<noteq> m_iType (u_ConnRes u) then post u
        else if 1 \<noteq> getFlag p \<or> 0 \<noteq> getType p then Some (- 1, u)
        else
          let u = u\<lparr>u_ConnRes := snd (deserialize (m_pcData p) (getLength p) (u_ConnRes u))\<rparr>
          in if u_Rendezvous u then
               if 1 = m_iReqType (u_ConnRes u) then Some (- 1, u)
               else if 0 = m_iReqType (u_ConnReq u) \<or> 0 = m_iReqType (u_ConnRes u) then Some (1, request_again u)
               else post u
             else if 1 = m_iReqType (u_ConnRes u) then
               Some (1, request_again (u\<lparr>u_ConnReq := (u_ConnReq u)\<lparr>m_iCookie := m_iCookie (u_ConnRes u)\<rparr>\<rparr>))
             else post u)"

section \<open>Waiting for the response\<close>

text \<open>One turn of the loop of a synchronous connect: the time, whether the socket is closed meanwhile, and
  the packet received, if any.\<close>

type_synonym wait_turn = "uint64 \<times> bool \<times> CPacket option"

definition repeat_request :: "uint64 \<Rightarrow> sockaddr \<Rightarrow> CUDT \<Rightarrow> CUDT" where
  "repeat_request us serv_addr u =
    (if us - u_LastReqTime u > 250000 then
       let i = (if u_Rendezvous u then m_iHsID (u_ConnRes u) else 0)
       in (emit (SendTo serv_addr (handshake_packet (u_ConnReq u) i (u_PayloadSize u))) u)\<lparr>u_LastReqTime := us\<rparr>
     else u)"

text \<open>The loop ends with the error it has found, 0 for none; \<open>None\<close> also when the turns run out.\<close>

fun connect_wait ::
    "(nat \<Rightarrow> Block) \<Rightarrow> (CUDT \<Rightarrow> bool) \<Rightarrow> CCache \<Rightarrow> sockaddr \<Rightarrow> uint64 \<Rightarrow> wait_turn list \<Rightarrow> CUDT \<Rightarrow> (CUDTException \<times> CUDT) option" where
  "connect_wait garbage mem cache addr ttl [] u = (if u_Closing u then Some (exc 0 0, u) else None)"
| "connect_wait garbage mem cache addr ttl ((us, closing, r) # turns) u =
     (let u = (if closing then u\<lparr>u_Closing := True\<rparr> else u)
      in if u_Closing u then Some (exc 0 0, u)
         else
           let u = repeat_request us addr u;
               timeout = (\<lambda>u. if us > ttl then Some (exc 1 1, u) else connect_wait garbage mem cache addr ttl turns u)
           in case r of
                None \<Rightarrow> timeout u
              | Some p \<Rightarrow>
                  case CUDT_connect_response garbage mem us cache p u of
                    None \<Rightarrow> None
                  | Some (n, u) \<Rightarrow> if n \<le> 0 then Some (exc 0 0, u) else timeout (u\<lparr>u_LastReqTime := 0\<rparr>))"

definition connect_verdict :: "CUDTException \<Rightarrow> CUDT \<Rightarrow> CUDTException" where
  "connect_verdict e u =
    (if getErrorCode e = 0 then
       if u_Closing u then exc 1 0
       else if 1002 = m_iReqType (u_ConnRes u) then exc 1 2
       else if \<not> u_Rendezvous u \<and> u_ISN u \<noteq> m_iISN (u_ConnRes u) then exc 1 4
       else e
     else e)"

definition CUDT_connect ::
    "(nat \<Rightarrow> Block) \<Rightarrow> (CUDT \<Rightarrow> bool) \<Rightarrow> CCache \<Rightarrow> real \<Rightarrow> uint64 \<Rightarrow> sockaddr \<Rightarrow> wait_turn list \<Rightarrow> CUDT \<Rightarrow>
     (CUDTException option \<times> CUDT) option" where
  "CUDT_connect garbage mem cache rnd us addr turns u =
    (case CUDT_connect_start rnd us addr u of
       Inl e \<Rightarrow> Some (Some e, u)
     | Inr u \<Rightarrow>
         if \<not> u_SynConnect u then Some (None, u)
         else map_option (\<lambda>(e, u). let e = connect_verdict e u in (if getErrorCode e \<noteq> 0 then Some e else None, u))
                (connect_wait garbage mem cache addr (connect_ttl us u) turns u))"

section \<open>The accepting side\<close>

text \<open>The request \<open>hs\<close> becomes the answer while the socket takes over the negotiated values.\<close>

definition negotiate :: "uint64 \<Rightarrow> sockaddr \<Rightarrow> CHandShake \<Rightarrow> CUDT \<Rightarrow> CHandShake \<times> CUDT" where
  "negotiate us peer hs u =
    (let (hs, u) = (if m_iMSS hs > u_MSS u then (hs\<lparr>m_iMSS := u_MSS u\<rparr>, u) else (hs, u\<lparr>u_MSS := m_iMSS hs\<rparr>));
         u = u\<lparr>u_FlowWindowSize := m_iFlightFlagSize hs\<rparr>;
         hs = hs\<lparr>m_iFlightFlagSize := flow_window_offer u\<rparr>;
         u = (expect_from (m_iISN hs) u)\<lparr>u_PeerID := m_iHsID hs\<rparr>;
         hs = hs\<lparr>m_iHsID := u_SocketID u\<rparr>;
         u = start_sequence us (m_iISN hs) u;
         hs = hs\<lparr>m_iReqType := - 1\<rparr>;
         u = u\<lparr>u_SelfIP := m_piPeerIP hs\<rparr>;
         hs = hs\<lparr>m_piPeerIP := ntop peer (m_piPeerIP hs) (u_IPversion u)\<rparr>
     in (hs, set_sizes (u_MSS u) u))"

definition send_answer :: "sockaddr \<Rightarrow> CHandShake \<Rightarrow> CUDT \<Rightarrow> CUDT" where
  "send_answer peer hs u =
    (let (_, buffer, size) = serialize hs (replicate (nat m_iContentSize) 0) m_iContentSize
     in emit (SendTo peer (set_m_iID (u_PeerID u) (the (pack 0 None (Some buffer) size CPacket_new)))) u)"

definition CUDT_connect_peer ::
    "(nat \<Rightarrow> Block) \<Rightarrow> (CUDT \<Rightarrow> bool) \<Rightarrow> uint64 \<Rightarrow> CCache \<Rightarrow> sockaddr \<Rightarrow> CHandShake \<Rightarrow> CUDT \<Rightarrow>
     ((CUDTException + CHandShake) \<times> CUDT) option" where
  "CUDT_connect_peer garbage mem us cache peer hs u =
    (let (hs, u) = negotiate us peer hs u
     in if \<not> mem u then Some (Inl (exc 3 2), u)
        else do {
          u \<leftarrow> use_cache cache peer (prepare_structures garbage us u);
          let u = (start_cc us u)\<lparr>u_PeerAddr := Some peer, u_Connected := True\<rparr>;
          Some (Inr hs, send_answer peer hs (emit SetNewEntry u))
        })"

section \<open>The listener\<close>

text \<open>An \<open>int64_t\<close> in decimal, as \<open>operator<<\<close> writes it.\<close>

fun digits :: "nat \<Rightarrow> string" where
  "digits n = (if n < 10 then [char_of (48 + n)] else digits (n div 10) @ [char_of (48 + n mod 10)])"

declare digits.simps [simp del]

definition decimal :: "int \<Rightarrow> string" where
  "decimal i = (if i < 0 then CHR ''-'' # digits (nat (- i)) else digits (nat i))"

definition cookie_text :: "string \<times> string \<Rightarrow> int \<Rightarrow> string" where
  "cookie_text client timestamp = fst client @ '':'' @ snd client @ '':'' @ decimal timestamp"

definition cookie_minute :: "uint64 \<Rightarrow> CUDT \<Rightarrow> int" where
  "cookie_minute us u = uint ((us - u_StartTime u) div 60000000)"

text \<open>\<open>*(int*)&cookie[0]\<close>; the second text is appended to the first in the same stream.\<close>

definition cookie_of :: "(string \<Rightarrow> byte list) \<Rightarrow> string \<Rightarrow> int32" where
  "cookie_of md5 text = sint (peek32 (md5 text) 0)"

definition cookie_ok :: "(string \<Rightarrow> byte list) \<Rightarrow> string \<times> string \<Rightarrow> int \<Rightarrow> int32 \<Rightarrow> bool" where
  "cookie_ok md5 client t c \<longleftrightarrow>
     c = cookie_of md5 (cookie_text client t) \<or>
     c = cookie_of md5 (cookie_text client t @ cookie_text client (t - 1))"

definition reply :: "sockaddr \<Rightarrow> CHandShake \<Rightarrow> int \<Rightarrow> int32 \<Rightarrow> CPacket \<Rightarrow> CUDT \<Rightarrow> CUDT" where
  "reply addr hs sz i packet u =
    (let (_, buf, _) = serialize hs (m_pcData packet) sz
     in emit (SendTo addr (set_m_iID i (packet\<lparr>m_pcData := buf\<rparr>))) u)"

text \<open>What \<open>listen\<close> returns without asking for a new connection, or the request that it passes on.\<close>

definition listen_check ::
    "(sockaddr \<Rightarrow> string \<times> string) \<Rightarrow> (string \<Rightarrow> byte list) \<Rightarrow> uint64 \<Rightarrow> sockaddr \<Rightarrow> CPacket \<Rightarrow> CUDT \<Rightarrow>
     (int \<times> CUDT) + CHandShake" where
  "listen_check getnameinfo md5 us addr packet u =
    (if u_Closing u then Inl (1002, u)
     else if getLength packet \<noteq> m_iContentSize then Inl (1004, u)
     else
       let hs = snd (deserialize (m_pcData packet) (getLength packet) CHandShake_new);
           client = getnameinfo addr;
           timestamp = cookie_minute us u
       in if 1 = m_iReqType hs then
            let hs = hs\<lparr>m_iCookie := cookie_of md5 (cookie_text client timestamp)\<rparr>
            in Inl (0, reply addr hs (getLength packet) (m_iHsID hs) packet u)
          else if \<not> cookie_ok md5 client timestamp (m_iCookie hs) then Inl (- 1, u)
          else if 1 = getFlag packet \<and> 0 = getType packet then
            if m_iVersion hs \<noteq> m_iVersion_UDT \<or> m_iType hs \<noteq> u_SockType u then
              let i = m_iHsID hs; hs = hs\<lparr>m_iReqType := 1002\<rparr>
              in Inl (m_iReqType hs, reply addr hs m_iContentSize i packet u)
            else Inr hs
          else Inl (m_iReqType hs, u))"

text \<open>\<open>i\<close> is the id in the request, \<open>result\<close> and \<open>hs\<close> are what \<open>newConnection\<close> returned.\<close>

definition listen_finish :: "int32 \<Rightarrow> sockaddr \<Rightarrow> CPacket \<Rightarrow> int \<Rightarrow> CHandShake \<Rightarrow> CUDT \<Rightarrow> int \<times> CUDT" where
  "listen_finish i addr packet result hs u =
    (let hs = (if result = - 1 then hs\<lparr>m_iReqType := 1002\<rparr> else hs);
         u = (if result \<noteq> 1 then reply addr hs m_iContentSize i packet u
              else emit (UpdateEvents UDT_EPOLL_OUT True) u)
     in (m_iReqType hs, u))"

definition CUDT_listen_packet ::
    "(sockaddr \<Rightarrow> string \<times> string) \<Rightarrow> (string \<Rightarrow> byte list) \<Rightarrow> (sockaddr \<Rightarrow> CHandShake \<Rightarrow> int \<times> CHandShake) \<Rightarrow>
     uint64 \<Rightarrow> sockaddr \<Rightarrow> CPacket \<Rightarrow> CUDT \<Rightarrow> int \<times> CUDT" where
  "CUDT_listen_packet getnameinfo md5 newConnection us addr packet u =
    (case listen_check getnameinfo md5 us addr packet u of
       Inl r \<Rightarrow> r
     | Inr hs \<Rightarrow> let (result, hs') = newConnection addr hs in listen_finish (m_iHsID hs) addr packet result hs' u)"

section \<open>Closing\<close>

definition CUDT_close :: "uint64 \<Rightarrow> uint64 \<Rightarrow> uint32 \<Rightarrow> CCache \<Rightarrow> CUDT \<Rightarrow> (CUDT \<times> CCache) option" where
  "CUDT_close us tk garbage cache u =
    (if \<not> u_Opened u then Some (u, cache)
     else
       let u = (if u_Connected u then emit SndUList_remove u else u);
           u = emit RemoveUsock (emit (UpdateEvents (UDT_EPOLL_IN + UDT_EPOLL_OUT) True) u);
           u = u\<lparr>u_Closing := True\<rparr>;
           u = (if u_Listening u then emit RemoveListener (u\<lparr>u_Listening := False\<rparr>)
                else if u_Connecting u then emit RemoveConnector u else u)
       in map_option (\<lambda>(u, cache). (u\<lparr>u_Opened := False\<rparr>, cache))
            (if u_Connected u then do {
               u \<leftarrow> (if \<not> u_Shutdown u then CUDT_sendCtrl us tk 5 None None 0 u else Some u);
               let u = on_cc cc_close u;
               let ib = (info_key (the (u_PeerAddr u)) u)\<lparr>ib_RTT := u_RTT u, ib_Bandwidth := u_Bandwidth u\<rparr>;
               (_, cache) \<leftarrow> CCache_update garbage ib cache;
               Some (u\<lparr>u_Connected := False\<rparr>, cache)
             }
             else Some (u, cache)))"

end
