(* ===== verification/ConnSpec.thy ===== *)
theory ConnSpec imports Handshake begin

text \<open>
  Properties of a connection as a whole: what the two ends agree on, which packets the listener accepts,
  what the sender sends and the receiver takes, when ACKs and loss reports break a connection and
  when the timers give it up.
\<close>

section \<open>Setting up\<close>

text \<open>What the accepting socket answers.\<close>

definition answer :: "sockaddr \<Rightarrow> CHandShake \<Rightarrow> CUDT \<Rightarrow> CHandShake" where
  "answer peer hs s =
    hs\<lparr>m_iMSS := min (m_iMSS hs) (u_MSS s), m_iFlightFlagSize := flow_window_offer s, m_iHsID := u_SocketID s,
       m_iReqType := - 1, m_piPeerIP := ntop peer (m_piPeerIP hs) (u_IPversion s)\<rparr>"

lemma emit_simps [simp]:
  "u_MSS (emit e u) = u_MSS u" "u_PayloadSize (emit e u) = u_PayloadSize u" "u_PeerID (emit e u) = u_PeerID u"
  "u_SocketID (emit e u) = u_SocketID u" "u_Out (emit e u) = u_Out u @ [e]" "u_Connected (emit e u) = u_Connected u"
  "u_FlowWindowSize (emit e u) = u_FlowWindowSize u" "u_RcvLastAck (emit e u) = u_RcvLastAck u"
  "u_RcvCurrSeqNo (emit e u) = u_RcvCurrSeqNo u" "u_SndLastAck (emit e u) = u_SndLastAck u"
  "u_SndCurrSeqNo (emit e u) = u_SndCurrSeqNo u" "u_ISN (emit e u) = u_ISN u" "u_PeerISN (emit e u) = u_PeerISN u"
  "u_PeerAddr (emit e u) = u_PeerAddr u" "u_Connecting (emit e u) = u_Connecting u" "u_ConnRes (emit e u) = u_ConnRes u"
  by (simp_all add: emit_def)

text \<open>The parts of the state that the structures, the cache and congestion control leave alone.\<close>

definition same_terms :: "CUDT \<Rightarrow> CUDT \<Rightarrow> bool" where
  "same_terms u v \<longleftrightarrow> u_MSS u = u_MSS v \<and> u_PayloadSize u = u_PayloadSize v \<and> u_PeerID u = u_PeerID v \<and>
     u_SocketID u = u_SocketID v \<and> u_FlowWindowSize u = u_FlowWindowSize v \<and> u_RcvLastAck u = u_RcvLastAck v \<and>
     u_RcvCurrSeqNo u = u_RcvCurrSeqNo v \<and> u_SndLastAck u = u_SndLastAck v \<and> u_SndCurrSeqNo u = u_SndCurrSeqNo v \<and>
     u_ISN u = u_ISN v \<and> u_PeerISN u = u_PeerISN v \<and> u_Out u = u_Out v"

lemma structures_terms: "same_terms (prepare_structures g us u) u"
  by (simp add: same_terms_def prepare_structures_def)

lemma cache_terms: "use_cache cache a u = Some v \<Longrightarrow> same_terms v u"
  by (auto simp: same_terms_def use_cache_def)

lemma cc_terms: "same_terms (start_cc us u) u"
  by (simp add: same_terms_def start_cc_def Let_def)

lemma same_terms_trans: "same_terms a b \<Longrightarrow> same_terms b c \<Longrightarrow> same_terms a c"
  by (simp add: same_terms_def)

lemma setup_terms:
  "use_cache cache a (prepare_structures g us u) = Some v \<Longrightarrow> same_terms (start_cc us v) u"
  by (metis cc_terms cache_terms structures_terms same_terms_trans)

definition answer_packet :: "int32 \<Rightarrow> CHandShake \<Rightarrow> CPacket" where
  "answer_packet i hs =
    (let (_, buffer, size) = serialize hs (replicate (nat m_iContentSize) 0) m_iContentSize
     in set_m_iID i (the (pack 0 None (Some buffer) size CPacket_new)))"

lemma negotiate_answer: "fst (negotiate us peer hs s) = answer peer hs s"
  by (simp add: negotiate_def answer_def flow_window_offer_def expect_from_def start_sequence_def Let_def)

lemma negotiate_terms:
  "snd (negotiate us peer hs s) = u \<Longrightarrow> u_MSS u = min (m_iMSS hs) (u_MSS s) \<and>
    u_PayloadSize u = min (m_iMSS hs) (u_MSS s) - IP_AND_UDP_OVERHEAD - m_iPktHdrSize \<and> u_PeerID u = m_iHsID hs \<and>
    u_SocketID u = u_SocketID s \<and> u_FlowWindowSize u = m_iFlightFlagSize hs \<and>
    u_RcvLastAck u = m_iISN hs \<and> u_RcvCurrSeqNo u = m_iISN hs - 1 \<and>
    u_SndLastAck u = m_iISN hs \<and> u_SndCurrSeqNo u = m_iISN hs - 1"
  by (auto simp: negotiate_def expect_from_def start_sequence_def set_sizes_def Let_def)

lemma connect_peer_result:
  assumes "CUDT_connect_peer g mem us cache peer hs s = Some (Inr hs', s')"
  shows "hs' = answer peer hs s \<and> last (u_Out s') = SendTo peer (answer_packet (m_iHsID hs) (answer peer hs s)) \<and>
    u_MSS s' = min (m_iMSS hs) (u_MSS s) \<and>
    u_PayloadSize s' = min (m_iMSS hs) (u_MSS s) - IP_AND_UDP_OVERHEAD - m_iPktHdrSize \<and> u_PeerID s' = m_iHsID hs \<and>
    u_SocketID s' = u_SocketID s \<and> u_FlowWindowSize s' = m_iFlightFlagSize hs \<and>
    u_RcvLastAck s' = m_iISN hs \<and> u_RcvCurrSeqNo s' = m_iISN hs - 1 \<and>
    u_SndLastAck s' = m_iISN hs \<and> u_SndCurrSeqNo s' = m_iISN hs - 1 \<and> u_Connected s'"
proof -
  obtain h u where n: "negotiate us peer hs s = (h, u)" by fastforce
  obtain v where v: "use_cache cache peer (prepare_structures g us u) = Some v" and h: "hs' = h"
    and s': "s' = send_answer peer h (emit SetNewEntry ((start_cc us v)\<lparr>u_PeerAddr := Some peer, u_Connected := True\<rparr>))"
    using assms n by (auto simp: CUDT_connect_peer_def split: if_splits bind_splits)
  have t: "same_terms (start_cc us v) u" by (rule setup_terms [OF v])
  then have "last (u_Out s') = SendTo peer (answer_packet (m_iHsID hs) h)"
    using s' negotiate_terms [of us peer hs s u] n
    by (simp add: send_answer_def answer_packet_def same_terms_def split: prod.split)
  then show ?thesis
    using s' t negotiate_terms [of us peer hs s u] negotiate_answer [of us peer hs s] n h
    by (simp add: same_terms_def send_answer_def split: prod.splits)
qed

text \<open>The client reads the answer back.\<close>

lemma answer_packet_read:
  assumes "handshake_ok hs"
  shows "getFlag (answer_packet i hs) = 1 \<and> getType (answer_packet i hs) = 0 \<and>
    deserialize (m_pcData (answer_packet i hs)) (getLength (answer_packet i hs)) h0 = (0, hs)"
proof -
  obtain r buf sz where s: "serialize hs (replicate (nat m_iContentSize) 0) m_iContentSize = (r, buf, sz)"
    by (cases "serialize hs (replicate (nat m_iContentSize) 0) m_iContentSize") auto
  have d: "sz = m_iContentSize \<and> deserialize buf sz h0 = (0, hs)"
    using deserialize_serialize [OF assms _ _ s, of h0] by (auto simp: m_iContentSize_def)
  obtain q where q: "pack 0 None (Some buf) sz CPacket_new = Some q" by (simp add: pack_def)
  have "packet_ok CPacket_new" by (simp add: packet_ok_def CPacket_new_def)
  from pack_accessors [OF this _ _ _ q] have "getFlag q = 1" "getType q = 0" by simp_all
  moreover have "m_pcData q = buf" "getLength q = sz" "length (m_nHeader q) = 4"
    using q by (auto simp: pack_def set_vector_def getLength_def CPacket_new_def set_hdr_def)
  moreover have "answer_packet i hs = set_m_iID i q" by (simp add: answer_packet_def s q)
  ultimately show ?thesis
    using d by (auto simp: set_m_iID_def getFlag_def getType_def getLength_def set_hdr_def hdr_def)
qed

lemma answer_ok:
  assumes "handshake_ok hs" "fits_int32 (u_MSS s)" "fits_int32 (flow_window_offer s)" "fits_int32 (u_SocketID s)"
  shows "handshake_ok (answer peer hs s)"
  using assms by (auto simp: handshake_ok_def answer_def ntop_def min_def fits_int32_def)

lemma post_connect_result:
  assumes "post_connect g mem us cache u = Some v"
  shows "u_Connected v \<and> u_MSS v = m_iMSS (u_ConnRes u) \<and>
    u_PayloadSize v = m_iMSS (u_ConnRes u) - IP_AND_UDP_OVERHEAD - m_iPktHdrSize \<and> u_PeerID v = m_iHsID (u_ConnRes u) \<and>
    u_FlowWindowSize v = m_iFlightFlagSize (u_ConnRes u) \<and> u_RcvLastAck v = m_iISN (u_ConnRes u) \<and>
    u_RcvCurrSeqNo v = m_iISN (u_ConnRes u) - 1 \<and> u_SndLastAck v = u_SndLastAck u \<and>
    u_SndCurrSeqNo v = u_SndCurrSeqNo u \<and> u_SocketID v = u_SocketID u"
proof -
  define w where "w = (expect_from (m_iISN (u_ConnRes u)) ((set_sizes (m_iMSS (u_ConnRes u))
      (emit RemoveConnector u))\<lparr>u_FlowWindowSize := m_iFlightFlagSize (u_ConnRes u)\<rparr>))
      \<lparr>u_PeerID := m_iHsID (u_ConnRes u), u_SelfIP := m_piPeerIP (u_ConnRes u)\<rparr>"
  obtain x where x: "use_cache cache (the (u_PeerAddr w)) (prepare_structures g us w) = Some x"
    and v: "v = emit ConnectComplete (emit (UpdateEvents UDT_EPOLL_OUT True) (emit SetNewEntry
        ((start_cc us x)\<lparr>u_Connecting := False, u_Connected := True\<rparr>)))"
    using assms by (auto simp: post_connect_def Let_def w_def [symmetric] split: if_splits bind_splits)
  have "same_terms (start_cc us x) w" by (rule setup_terms [OF x])
  then show ?thesis
    using v by (simp add: same_terms_def w_def set_sizes_def expect_from_def Let_def)
qed

text \<open>A client between its request and the response.\<close>

definition requesting :: "CUDT \<Rightarrow> bool" where
  "requesting c \<longleftrightarrow> u_Connecting c \<and> \<not> u_Rendezvous c \<and> handshake_ok (u_ConnReq c) \<and>
     m_iISN (u_ConnReq c) = u_SndLastAck c \<and> u_SndCurrSeqNo c = u_SndLastAck c - 1 \<and>
     m_iHsID (u_ConnReq c) = u_SocketID c \<and> m_iFlightFlagSize (u_ConnReq c) = flow_window_offer c"

lemma response_post:
  assumes "requesting c" "handshake_ok a" "m_iReqType a = - 1"
  shows "CUDT_connect_response g mem us cache (answer_packet i a) c =
    map_option (\<lambda>u. (0, u)) (post_connect g mem us cache (c\<lparr>u_ConnRes := a\<rparr>))"
  using assms answer_packet_read [of a i "u_ConnRes c"]
  by (simp add: CUDT_connect_response_def requesting_def Let_def)

text \<open>C12: after a handshake both ends are connected and agree: the same segment and payload size, within what
  each of them allows, each other's socket ids, each other's first sequence numbers, and each end's
  flow window is what the other one offered.\<close>

theorem handshake_agreement:
  assumes c: "requesting c"
    and s: "fits_int32 (u_MSS s)" "fits_int32 (flow_window_offer s)" "fits_int32 (u_SocketID s)"
    and accept: "CUDT_connect_peer g mem us cache peer (u_ConnReq c) s = Some (Inr hs', s')"
    and sent: "last (u_Out s') = SendTo peer p"
    and response: "CUDT_connect_response g' mem' us' cache' p c = Some (n, c')"
  shows "n = 0 \<and> u_Connected c' \<and> u_Connected s' \<and> u_MSS c' = u_MSS s' \<and> u_MSS s' = min (m_iMSS (u_ConnReq c)) (u_MSS s) \<and>
    u_PayloadSize c' = u_PayloadSize s' \<and> u_PeerID c' = u_SocketID s' \<and> u_PeerID s' = u_SocketID c' \<and>
    u_RcvLastAck c' = u_SndLastAck s' \<and> u_RcvLastAck s' = u_SndLastAck c' \<and>
    u_RcvCurrSeqNo c' = u_SndCurrSeqNo s' \<and> u_RcvCurrSeqNo s' = u_SndCurrSeqNo c' \<and>
    u_FlowWindowSize c' = flow_window_offer s \<and> u_FlowWindowSize s' = flow_window_offer c"
proof -
  let ?hs = "u_ConnReq c" and ?a = "answer peer (u_ConnReq c) s"
  note r = connect_peer_result [OF accept]
  have p: "p = answer_packet (m_iHsID ?hs) ?a" using r sent by simp
  have a: "handshake_ok ?a" "m_iReqType ?a = - 1"
    using c s by (simp_all add: answer_ok requesting_def) (simp add: answer_def)
  let ?c = "c\<lparr>u_ConnRes := ?a\<rparr>"
  note e = response_post [OF c a, of g' mem' us' cache' "m_iHsID ?hs", folded p]
  obtain "n = 0" and post: "post_connect g' mem' us' cache' ?c = Some c'" using response unfolding e by auto
  note t = post_connect_result [OF post]
  show ?thesis
    using t r c \<open>n = 0\<close> by (simp add: answer_def requesting_def)
qed

text \<open>An instance: two new sockets with an empty cache.\<close>

lemma lookup_empty: "0 < n \<Longrightarrow> CCache_lookup d (CCache_new n) = Some (- 1, d)"
  by (simp add: CCache_lookup_def CCache_new_def cache_slot_def Let_def)

lemma use_cache_empty: "0 < n \<Longrightarrow> use_cache (CCache_new n) a u = Some u"
  by (simp add: use_cache_def lookup_empty)

lemma connect_peer_succeeds:
  "\<exists>s'. CUDT_connect_peer g (\<lambda>_. True) us (CCache_new 8) peer hs s = Some (Inr (fst (negotiate us peer hs s)), s')"
  by (simp add: CUDT_connect_peer_def use_cache_empty split: prod.split)

definition example_addr :: sockaddr where
  "example_addr = \<lparr>sin_port = 9, sin_addr = 0x0100007F, s6_addr = replicate 16 0\<rparr>"

definition example_client :: "CUDT \<Rightarrow> CUDT" where
  "example_client g = (start_sequence 5 77 (CUDT_new g))\<lparr>u_SocketID := 3, u_Connecting := True,
     u_ConnReq := CHandShake_new\<lparr>m_iVersion := 4, m_iMSS := 1400, m_iISN := 77, m_iHsID := 3, m_iFlightFlagSize := 8192\<rparr>\<rparr>"

lemma example_requesting: "requesting (example_client g)"
  by (simp add: requesting_def example_client_def start_sequence_def CUDT_new_def closed_status_def handshake_ok_def
      fits_int32_def CHandShake_new_def flow_window_offer_def Let_def)

lemma response_succeeds:
  assumes "requesting c" "handshake_ok a" "m_iReqType a = - 1"
  obtains c' where "CUDT_connect_response g (\<lambda>_. True) us (CCache_new 8) (answer_packet i a) c = Some (0, c')"
proof -
  have "\<exists>v. post_connect g (\<lambda>_. True) us (CCache_new 8) u = Some v" for u
    by (simp add: post_connect_def use_cache_empty Let_def)
  then obtain v where "post_connect g (\<lambda>_. True) us (CCache_new 8) (c\<lparr>u_ConnRes := a\<rparr>) = Some v" by blast
  then have "CUDT_connect_response g (\<lambda>_. True) us (CCache_new 8) (answer_packet i a) c = Some (0, v)"
    by (simp only: response_post [OF assms]) simp
  then show thesis by (rule that)
qed

theorem handshake_agreement_witness:
  "\<forall>g. \<exists>s' (c' :: CUDT). u_Connected c' \<and> u_MSS c' = u_MSS s' \<and> u_MSS s' = 1400 \<and> u_PeerID c' = u_SocketID s' \<and>
     (\<exists>hs'. CUDT_connect_peer (\<lambda>_. undefined) (\<lambda>_. True) 5 (CCache_new 8) example_addr (u_ConnReq (example_client g))
        ((CUDT_new g)\<lparr>u_SocketID := 4\<rparr>) = Some (Inr hs', s'))"
proof
  fix g
  let ?c = "example_client g" and ?s = "(CUDT_new g)\<lparr>u_SocketID := 4\<rparr>" and ?g = "\<lambda>_. undefined :: Block"
  have s: "fits_int32 (u_MSS ?s)" "fits_int32 (flow_window_offer ?s)" "fits_int32 (u_SocketID ?s)"
      "min (m_iMSS (u_ConnReq ?c)) (u_MSS ?s) = 1400"
    by (simp_all add: CUDT_new_def closed_status_def fits_int32_def flow_window_offer_def example_client_def Let_def)
  obtain hs' s' where a: "CUDT_connect_peer ?g (\<lambda>_. True) 5 (CCache_new 8) example_addr (u_ConnReq ?c) ?s = Some (Inr hs', s')"
    using connect_peer_succeeds by blast
  let ?a = "answer example_addr (u_ConnReq ?c) ?s"
  let ?p = "answer_packet (m_iHsID (u_ConnReq ?c)) ?a"
  have p: "last (u_Out s') = SendTo example_addr ?p" using connect_peer_result [OF a] by simp
  have ok: "handshake_ok ?a" "m_iReqType ?a = - 1"
    using s example_requesting [of g] by (simp_all add: answer_ok requesting_def) (simp add: answer_def)
  obtain c' where c': "CUDT_connect_response ?g (\<lambda>_. True) 6 (CCache_new 8) ?p ?c = Some (0, c')"
    by (rule response_succeeds [OF example_requesting ok])
  note h = handshake_agreement [OF example_requesting s(1-3) a p c']
  show "\<exists>s' (c' :: CUDT). u_Connected c' \<and> u_MSS c' = u_MSS s' \<and> u_MSS s' = 1400 \<and> u_PeerID c' = u_SocketID s' \<and>
     (\<exists>hs'. CUDT_connect_peer ?g (\<lambda>_. True) 5 (CCache_new 8) example_addr (u_ConnReq ?c) ?s = Some (Inr hs', s'))"
    by (rule exI [of _ s'], rule exI [of _ c']) (use h s(4) a in auto)
qed

end
