(* ===== verification/TimerEvent.thy ===== *)
theory TimerEvent imports Prelude "HOL-Library.Multiset" begin

text \<open>
  The sleeping timer: class \<open>CTimer\<close> (\<open>udtCommon.cpp\<close>) and the event it waits on, class
  \<open>AutoResetEvent\<close> (\<open>rsynch.h\<close>), which threads use concurrently. The state of the event is its
  status word, the count of its semaphore and, for each thread, the place in an operation where
  it stands; a step is one atomic operation of one thread. The clock and the counter of the
  processor are arguments.
\<close>

section \<open>The event\<close>

text \<open>Where a thread stands: outside, before the exchange of \<open>set\<close> with the value it has read, before
  \<open>sem.post\<close>, in \<open>sem.wait\<close>, in \<open>sem.wait_for\<close>, and before the exchange that takes a timed out wait back.\<close>

datatype place = Idle | SetCas int | SetPost | WaitSem | WaitTimed | Undo int

type_synonym event_state = "int \<times> nat \<times> place multiset"

definition set_value :: "int \<Rightarrow> int" where
  "set_value old = (if old < 1 then old + 1 else 1)"

definition undo_value :: "int \<Rightarrow> int" where
  "undo_value old = (if old < 0 then old + 1 else 0)"

text \<open>A weak exchange may fail at any time; it then reads the status again.\<close>

inductive event_step :: "event_state \<Rightarrow> event_state \<Rightarrow> bool" where
  set_load: "event_step (s, k, add_mset Idle T) (s, k, add_mset (SetCas s) T)"
| set_cas: "event_step (s, k, add_mset (SetCas s) T)
     (set_value s, k, add_mset (if s < 0 then SetPost else Idle) T)"
| set_retry: "event_step (s, k, add_mset (SetCas old) T) (s, k, add_mset (SetCas s) T)"
| set_post: "event_step (s, k, add_mset SetPost T) (s, Suc k, add_mset Idle T)"
| wait_sub: "event_step (s, k, add_mset Idle T) (s - 1, k, add_mset (if s < 1 then WaitSem else Idle) T)"
| wait_take: "event_step (s, Suc k, add_mset WaitSem T) (s, k, add_mset Idle T)"
| wait_for_sub: "event_step (s, k, add_mset Idle T) (s - 1, k, add_mset (if s = 1 then Idle else WaitTimed) T)"
| wait_for_take: "event_step (s, Suc k, add_mset WaitTimed T) (s, k, add_mset Idle T)"
| wait_for_timeout: "event_step (s, k, add_mset WaitTimed T) (s, k, add_mset (Undo s) T)"
| undo_cas: "event_step (s, k, add_mset (Undo s) T) (undo_value s, k, add_mset Idle T)"
| undo_retry: "event_step (s, k, add_mset (Undo old) T) (s, k, add_mset (Undo s) T)"
| try_wait: "event_step (1, k, add_mset Idle T) (0, k, add_mset Idle T)"

inductive_cases event_stepE: "event_step (s, k, T) (s', k', T')"

text \<open>The states that \<open>n\<close> threads reach with a new event.\<close>

inductive event_reachable :: "nat \<Rightarrow> event_state \<Rightarrow> bool" for n where
  start: "event_reachable n (0, 0, replicate_mset n Idle)"
| move: "event_reachable n c \<Longrightarrow> event_step c c' \<Longrightarrow> event_reachable n c'"

section \<open>No wake-up is lost\<close>

fun waits :: "place \<Rightarrow> bool" where
  "waits WaitSem = True" | "waits WaitTimed = True" | "waits (Undo _) = True" | "waits _ = False"

fun event_inv :: "event_state \<Rightarrow> bool" where
  "event_inv (s, k, T) \<longleftrightarrow> s \<le> 1 \<and>
     int (size (filter_mset waits T)) \<le> max 0 (- s) + int k + int (count T SetPost)"

lemma event_inv_step: "event_step c c' \<Longrightarrow> event_inv c \<Longrightarrow> event_inv c'"
  by (induction rule: event_step.induct) (auto simp: set_value_def undo_value_def)

lemma event_inv_reachable: "event_reachable n c \<Longrightarrow> event_inv c"
  by (induction rule: event_reachable.induct) (auto intro: event_inv_step)

text \<open>C31: no wake-up of the event is lost: as long as threads wait and neither a token of the semaphore nor a
  pending post is there for one of them, the status is negative, at least by the number of
  threads that have none, so the next \<open>set\<close> will post.\<close>

theorem no_lost_wakeup:
  assumes "event_reachable n (s, k, T)"
  shows "s \<le> 1 \<and> (size (filter_mset waits T) > k + count T SetPost \<longrightarrow>
    s < 0 \<and> int (size (filter_mset waits T)) - int (k + count T SetPost) \<le> - s)"
  using event_inv_reachable [OF assms] by auto

theorem no_lost_wakeup_witness:
  "event_reachable 1 (- 1, 0, {#WaitSem#}) \<and> int (size (filter_mset waits {#WaitSem#})) - int (0 + count {#WaitSem#} SetPost) \<le> 1"
proof -
  have "event_reachable 1 (0 - 1, 0, add_mset (if (0 :: int) < 1 then WaitSem else Idle) {#})"
    by (rule event_reachable.move [OF event_reachable.start]) (simp only: replicate_mset_Suc One_nat_def
        replicate_mset_0 event_step.wait_sub)
  then have r: "event_reachable 1 (- 1, 0, {#WaitSem#})" by simp
  from no_lost_wakeup [OF r] show ?thesis using r by simp
qed

text \<open>A timed wait that gives up while a \<open>set\<close> is between its exchange and its post leaves a token
  behind: the event is unset, nobody waits, and yet the next wait will return at once.\<close>

theorem spurious_token:
  "event_reachable 2 (0, 1, {#Idle, Idle#})"
proof -
  have 0: "event_reachable 2 (0, 0, {#Idle, Idle#})"
    using event_reachable.start [of 2] by (simp add: numeral_2_eq_2)
  have 1: "event_reachable 2 (0 - 1, 0, {#WaitTimed, Idle#})"
    using event_reachable.move [OF 0 event_step.wait_for_sub] by simp
  have 2: "event_reachable 2 (- 1, 0, {#SetCas (- 1), WaitTimed#})"
    using event_reachable.move [OF 1 [unfolded add_mset_commute [of WaitTimed]] event_step.set_load] by simp
  have 3: "event_reachable 2 (0, 0, {#SetPost, WaitTimed#})"
    using event_reachable.move [OF 2 event_step.set_cas] by (simp add: set_value_def)
  have 4: "event_reachable 2 (0, 0, {#Undo 0, SetPost#})"
    using event_reachable.move [OF 3 [unfolded add_mset_commute [of SetPost]] event_step.wait_for_timeout] by simp
  have 5: "event_reachable 2 (0, 0, {#Idle, SetPost#})"
    using event_reachable.move [OF 4 event_step.undo_cas] by (simp add: undo_value_def)
  show ?thesis
    using event_reachable.move [OF 5 [unfolded add_mset_commute [of Idle]] event_step.set_post] by simp
qed

section \<open>Sleeping\<close>

text \<open>\<open>sleepto\<close>: \<open>t\<close> is the reading of the counter before the loop, and every element of the environment
  is one turn of it: the time some other thread's \<open>interrupt\<close> stored in \<open>m_ullSchedTime\<close> meanwhile, if
  one did, and the next reading. The result is the reading at which the loop ends.\<close>

fun sleepto_loop :: "uint64 \<Rightarrow> uint64 \<Rightarrow> (uint64 option \<times> uint64) list \<Rightarrow> uint64 option" where
  "sleepto_loop sched t env =
     (if t < sched then
        case env of
          [] \<Rightarrow> None
        | (intr, t') # env \<Rightarrow> sleepto_loop (case intr of None \<Rightarrow> sched | Some x \<Rightarrow> x) t' env
      else Some t)"

declare sleepto_loop.simps [simp del]

definition CTimer_sleep :: "uint64 \<Rightarrow> uint64 \<Rightarrow> uint64 \<Rightarrow> (uint64 option \<times> uint64) list \<Rightarrow> uint64 option" where
  "CTimer_sleep interval t0 t env = sleepto_loop (t0 + interval) t env"

text \<open>\<open>getTime\<close> of a \<open>timeval\<close>.\<close>

definition getTime :: "uint64 \<Rightarrow> uint64 \<Rightarrow> uint64" where
  "getTime tv_sec tv_usec = tv_sec * 1000000 + tv_usec"

fun readings_close :: "nat \<Rightarrow> uint64 \<Rightarrow> (uint64 option \<times> uint64) list \<Rightarrow> bool" where
  "readings_close d t [] = True"
| "readings_close d t ((i, t') # env) \<longleftrightarrow> unat t' \<le> unat t + d \<and> readings_close d t' env"

text \<open>A sleep that nobody interrupts ends no earlier than it should, and later by less than the time
  between two readings of the counter.\<close>

theorem sleeps_long_enough:
  assumes "sleepto_loop sched t env = Some r" "\<forall>e\<in>set env. fst e = None" "readings_close d t env"
  shows "sched \<le> r \<and> (r = t \<or> unat r < unat sched + d)"
  using assms
proof (induction env arbitrary: t)
  case Nil
  then show ?case by (auto simp: sleepto_loop.simps [of sched t] split: if_splits)
next
  case (Cons e env)
  obtain t' where e: "e = (None, t')" using Cons.prems(2) by (cases e) auto
  show ?case
  proof (cases "t < sched")
    case True
    then have "sched \<le> r \<and> (r = t' \<or> unat r < unat sched + d)"
      using Cons e by (auto simp: sleepto_loop.simps [of sched t])
    moreover have "unat t' < unat sched + d"
      using True Cons.prems(3) e by (simp add: word_less_nat_alt)
    ultimately show ?thesis by auto
  next
    case False
    then show ?thesis using Cons.prems(1) by (auto simp: sleepto_loop.simps [of sched t])
  qed
qed

theorem sleeps_long_enough_witness:
  "(10 :: uint64) \<le> 12 \<and> (12 = (3 :: uint64) \<or> unat (12 :: uint64) < unat (10 :: uint64) + 5)"
  by (rule sleeps_long_enough [where env = "[(None, 8), (None, 12)]" and d = 5])
    (simp_all add: sleepto_loop.simps)

end
