(* ===== verification/RcvQueue.thy ===== *)
theory RcvQueue imports RcvTables RcvUList UnitQueue begin

text \<open>
  The receiving queue of a multiplexer, class \<open>CRcvQueue\<close> (\<open>queue.h\<close>, \<open>queue.cpp\<close>), except for its worker
  thread: what the sockets and the worker call on it. A \<open>CUDT*\<close> is the id of its socket.
  \<open>m_mBuffer\<close> holds for a connecting socket the packets that came for it; a packet that \<open>recvfrom\<close>
  has moved out of its queue without removing it is a null pointer, \<open>None\<close>.
\<close>

record CRcvQueue =
  rq_UnitQueue :: CUnitQueue
  rq_UList :: CRcvUList
  rq_Hash :: CHash
  rq_PayloadSize :: int
  rq_Closing :: bool
  rq_Listener :: "int option"
  rq_Rendezvous :: "CRL list"
  rq_NewEntry :: "int list"
  rq_Buffer :: "int32 \<rightharpoonup> CPacket option list"

definition CRcvQueue_init :: "(int \<Rightarrow> bool) \<Rightarrow> int \<Rightarrow> int \<Rightarrow> int \<Rightarrow> int \<Rightarrow> CRcvQueue" where
  "CRcvQueue_init mem qsize payload version hsize =
     \<lparr>rq_UnitQueue = snd (CUnitQueue_init mem qsize payload version CUnitQueue_new), rq_UList = CRcvUList_new,
      rq_Hash = CHash_init hsize, rq_PayloadSize = payload, rq_Closing = False, rq_Listener = None,
      rq_Rendezvous = [], rq_NewEntry = [], rq_Buffer = Map.empty\<rparr>"

section \<open>The listener, the connectors and the new sockets\<close>

definition CRcvQueue_setListener :: "int \<Rightarrow> CRcvQueue \<Rightarrow> int \<times> CRcvQueue" where
  "CRcvQueue_setListener u q =
    (if rq_Listener q \<noteq> None then (- 1, q) else (0, q\<lparr>rq_Listener := Some u\<rparr>))"

definition CRcvQueue_removeListener :: "int \<Rightarrow> CRcvQueue \<Rightarrow> CRcvQueue" where
  "CRcvQueue_removeListener u q = (if Some u = rq_Listener q then q\<lparr>rq_Listener := None\<rparr> else q)"

definition CRcvQueue_registerConnector :: "int32 \<Rightarrow> int \<Rightarrow> int \<Rightarrow> sockaddr \<Rightarrow> uint64 \<Rightarrow> CRcvQueue \<Rightarrow> CRcvQueue" where
  "CRcvQueue_registerConnector i u ipv addr ttl q =
     q\<lparr>rq_Rendezvous := CRendezvousQueue_insert i u ipv addr ttl (rq_Rendezvous q)\<rparr>"

definition CRcvQueue_removeConnector :: "int32 \<Rightarrow> CRcvQueue \<Rightarrow> CRcvQueue" where
  "CRcvQueue_removeConnector i q =
     q\<lparr>rq_Rendezvous := CRendezvousQueue_remove i (rq_Rendezvous q), rq_Buffer := (rq_Buffer q)(i := None)\<rparr>"

definition CRcvQueue_setNewEntry :: "int \<Rightarrow> CRcvQueue \<Rightarrow> CRcvQueue" where
  "CRcvQueue_setNewEntry u q = q\<lparr>rq_NewEntry := rq_NewEntry q @ [u]\<rparr>"

definition CRcvQueue_ifNewEntry :: "CRcvQueue \<Rightarrow> bool" where
  "CRcvQueue_ifNewEntry q \<longleftrightarrow> rq_NewEntry q \<noteq> []"

definition CRcvQueue_getNewEntry :: "CRcvQueue \<Rightarrow> int option \<times> CRcvQueue" where
  "CRcvQueue_getNewEntry q =
    (case rq_NewEntry q of [] \<Rightarrow> (None, q) | u # us \<Rightarrow> (Some u, q\<lparr>rq_NewEntry := us\<rparr>))"

section \<open>Packets for connecting sockets\<close>

definition CRcvQueue_storePkt :: "int32 \<Rightarrow> CPacket \<Rightarrow> CRcvQueue \<Rightarrow> CRcvQueue" where
  "CRcvQueue_storePkt i pkt q =
    (case rq_Buffer q i of
       None \<Rightarrow> q\<lparr>rq_Buffer := (rq_Buffer q)(i \<mapsto> [Some pkt])\<rparr>
     | Some ps \<Rightarrow> if length ps > 16 then q else q\<lparr>rq_Buffer := (rq_Buffer q)(i \<mapsto> ps @ [Some pkt])\<rparr>)"

text \<open>\<open>late\<close> are the packets that the worker stores while \<open>recvfrom\<close> waits; \<open>None\<close> when a null pointer is
  followed.\<close>

definition take_packet :: "int32 \<Rightarrow> CPacket \<Rightarrow> CPacket option list \<Rightarrow> CRcvQueue \<Rightarrow> (int \<times> CPacket \<times> CRcvQueue) option" where
  "take_packet i packet ps q =
    (case hd ps of
       None \<Rightarrow> None
     | Some new \<Rightarrow>
         if getLength packet < getLength new then
           Some (- 1, setLength (- 1) packet, q\<lparr>rq_Buffer := (rq_Buffer q)(i \<mapsto> None # tl ps)\<rparr>)
         else
           let n = nat (getLength new);
               packet = packet\<lparr>m_nHeader := m_nHeader new, m_pcData := take n (m_pcData new) @ drop n (m_pcData packet)\<rparr>;
               packet = setLength (getLength new) packet
           in Some (getLength packet, packet,
                q\<lparr>rq_Buffer := (rq_Buffer q)(i := (if tl ps = [] then None else Some (tl ps)))\<rparr>))"

definition CRcvQueue_recvfrom :: "CPacket list \<Rightarrow> int32 \<Rightarrow> CPacket \<Rightarrow> CRcvQueue \<Rightarrow> (int \<times> CPacket \<times> CRcvQueue) option" where
  "CRcvQueue_recvfrom late i packet q =
    (case rq_Buffer q i of
       Some ps \<Rightarrow> take_packet i packet ps q
     | None \<Rightarrow>
         let q = fold (CRcvQueue_storePkt i) late q
         in case rq_Buffer q i of
              None \<Rightarrow> Some (- 1, setLength (- 1) packet, q)
            | Some ps \<Rightarrow> take_packet i packet ps q)"

section \<open>First in, first out, and at most 17\<close>

text \<open>The packets stored for a socket, a queue that is never empty in the table.\<close>

definition stored :: "CRcvQueue \<Rightarrow> int32 \<Rightarrow> CPacket option list" where
  "stored q i = (case rq_Buffer q i of None \<Rightarrow> [] | Some ps \<Rightarrow> ps)"

definition buffer_ok :: "CRcvQueue \<Rightarrow> bool" where
  "buffer_ok q \<longleftrightarrow> (\<forall>i ps. rq_Buffer q i = Some ps \<longrightarrow> ps \<noteq> [] \<and> length ps \<le> 17 \<and> None \<notin> set ps)"

lemma store_stored:
  "stored (CRcvQueue_storePkt i p q) j =
    (if j = i \<and> length (stored q i) \<le> 16 then stored q i @ [Some p] else stored q j)"
  by (auto simp: stored_def CRcvQueue_storePkt_def split: option.splits)

lemma store_ok: "buffer_ok q \<Longrightarrow> buffer_ok (CRcvQueue_storePkt i p q)"
  by (auto simp: buffer_ok_def CRcvQueue_storePkt_def split: option.splits)

lemma store_all_ok: "buffer_ok q \<Longrightarrow> buffer_ok (fold (CRcvQueue_storePkt i) ps q)"
  by (induction ps arbitrary: q) (auto intro: store_ok)

lemma store_all_stored:
  "length (stored q i) + length ps \<le> 17 \<Longrightarrow> stored (fold (CRcvQueue_storePkt i) ps q) i = stored q i @ map Some ps"
  by (induction ps arbitrary: q) (auto simp: store_stored)

text \<open>Receiving takes the earliest packet of the socket.\<close>

definition content :: "CPacket \<Rightarrow> uint32 list \<times> byte list" where
  "content p = (m_nHeader p, take (nat (getLength p)) (m_pcData p))"

lemma stored_Some: "buffer_ok q \<Longrightarrow> stored q i = ps \<Longrightarrow> ps \<noteq> [] \<Longrightarrow> rq_Buffer q i = Some ps"
  by (auto simp: stored_def split: option.splits)

lemma recvfrom_stored:
  assumes "buffer_ok q" "stored q i = Some p # ps" "getLength p \<le> getLength packet" "packet_ok p"
  shows "\<exists>packet' q'. CRcvQueue_recvfrom late i packet q = Some (getLength p, packet', q') \<and>
    content packet' = content p \<and> stored q' i = ps \<and> buffer_ok q'"
proof -
  note r = stored_Some [OF assms(1,2)]
  let ?n = "nat (getLength p)"
  let ?p = "setLength (getLength p) (packet\<lparr>m_nHeader := m_nHeader p, m_pcData := take ?n (m_pcData p) @ drop ?n (m_pcData packet)\<rparr>)"
  let ?q = "q\<lparr>rq_Buffer := (rq_Buffer q)(i := (if ps = [] then None else Some ps))\<rparr>"
  have "CRcvQueue_recvfrom late i packet q = Some (getLength p, ?p, ?q)"
    using r assms(3) by (simp add: CRcvQueue_recvfrom_def take_packet_def getLength_def setLength_def Let_def)
  moreover have "content ?p = content p"
    using assms(4) by (auto simp: content_def getLength_def setLength_def packet_ok_def nat_le_iff)
  moreover have "stored ?q i = ps" by (simp add: stored_def)
  moreover have "buffer_ok ?q" using assms(1) r by (fastforce simp: buffer_ok_def)
  ultimately show ?thesis by blast
qed

fun receive_all :: "nat \<Rightarrow> int32 \<Rightarrow> CPacket \<Rightarrow> CRcvQueue \<Rightarrow> ((uint32 list \<times> byte list) list \<times> CRcvQueue) option" where
  "receive_all 0 i packet q = Some ([], q)"
| "receive_all (Suc n) i packet q =
    (case CRcvQueue_recvfrom [] i packet q of
       None \<Rightarrow> None
     | Some (r, p, q) \<Rightarrow> map_option (\<lambda>(cs, q). (content p # cs, q)) (receive_all n i packet q))"

lemma receive_stored:
  assumes "buffer_ok q" "stored q i = map Some ps" "\<forall>p\<in>set ps. packet_ok p \<and> getLength p \<le> getLength packet"
  shows "\<exists>q'. receive_all (length ps) i packet q = Some (map content ps, q') \<and> stored q' i = []"
  using assms
proof (induction ps arbitrary: q)
  case (Cons p ps)
  then obtain packet' q' where "CRcvQueue_recvfrom [] i packet q = Some (getLength p, packet', q')"
      "content packet' = content p" "stored q' i = map Some ps" "buffer_ok q'"
    using recvfrom_stored [of q i p "map Some ps" packet "[]"] by auto
  then show ?case using Cons.IH [of q'] Cons.prems(3) by auto
qed auto

text \<open>C36: packets stored for a connecting socket, up to 17 of them, are received in the order in which they came,
  each of them once, and none is left.\<close>

theorem stored_packets_in_order:
  assumes "buffer_ok q" "stored q i = []" "length ps \<le> 17"
    and "\<forall>p\<in>set ps. packet_ok p \<and> getLength p \<le> getLength packet"
  shows "\<exists>q'. receive_all (length ps) i packet (fold (CRcvQueue_storePkt i) ps q) = Some (map content ps, q') \<and>
    stored q' i = []"
proof -
  have "stored (fold (CRcvQueue_storePkt i) ps q) i = map Some ps"
    using store_all_stored [of q i ps] assms by simp
  then show ?thesis using receive_stored [OF store_all_ok [OF assms(1)] _ assms(4)] by blast
qed

theorem stored_packets_in_order_witness:
  "\<exists>q'. receive_all 2 7 CPacket_new (fold (CRcvQueue_storePkt 7)
      [CPacket_new\<lparr>m_nHeader := [1, 0, 0, 0]\<rparr>, CPacket_new\<lparr>m_nHeader := [2, 0, 0, 0]\<rparr>]
      (CRcvQueue_init (\<lambda>_. True) 32 1444 2 1024)) = Some ([([1, 0, 0, 0], []), ([2, 0, 0, 0], [])], q') \<and> stored q' 7 = []"
proof -
  let ?ps = "[CPacket_new\<lparr>m_nHeader := [1, 0, 0, 0]\<rparr>, CPacket_new\<lparr>m_nHeader := [2, 0, 0, 0]\<rparr>]"
  have "buffer_ok (CRcvQueue_init (\<lambda>_. True) 32 1444 2 1024)" "stored (CRcvQueue_init (\<lambda>_. True) 32 1444 2 1024) 7 = []"
    by (simp_all add: buffer_ok_def stored_def CRcvQueue_init_def)
  moreover have "\<forall>p\<in>set ?ps. packet_ok p \<and> getLength p \<le> getLength CPacket_new"
    by (simp add: packet_ok_def CPacket_new_def getLength_def)
  moreover have "map content ?ps = [([1, 0, 0, 0], []), ([2, 0, 0, 0], [])]" "length ?ps = 2"
    by (simp_all add: content_def CPacket_new_def getLength_def)
  ultimately show ?thesis
    using stored_packets_in_order [of "CRcvQueue_init (\<lambda>_. True) 32 1444 2 1024" 7 ?ps CPacket_new] by (simp only:)
qed

text \<open>A packet that does not fit into the caller's packet leaves a null pointer at the front of its queue, so
  that the next \<open>recvfrom\<close> for the socket follows a null pointer, whatever is stored meanwhile.\<close>

theorem short_read_then_crash:
  assumes "stored q i = Some p # ps" "getLength packet < getLength p"
  shows "\<exists>q'. CRcvQueue_recvfrom late i packet q = Some (- 1, setLength (- 1) packet, q') \<and>
    CRcvQueue_recvfrom late' i packet' (fold (CRcvQueue_storePkt i) others q') = None"
proof -
  let ?q = "q\<lparr>rq_Buffer := (rq_Buffer q)(i \<mapsto> None # ps)\<rparr>"
  have "\<exists>xs. stored (fold (CRcvQueue_storePkt i) others s) i = None # xs" if "\<exists>xs. stored s i = None # xs" for s
    using that by (induction others arbitrary: s) (auto simp: store_stored)
  then have "\<exists>xs. stored (fold (CRcvQueue_storePkt i) others ?q) i = None # xs" by (simp add: stored_def)
  then have "CRcvQueue_recvfrom late' i packet' (fold (CRcvQueue_storePkt i) others ?q) = None"
    by (auto simp: stored_def CRcvQueue_recvfrom_def take_packet_def split: option.splits)
  moreover have "CRcvQueue_recvfrom late i packet q = Some (- 1, setLength (- 1) packet, ?q)"
    using assms by (auto simp: stored_def CRcvQueue_recvfrom_def take_packet_def split: option.splits)
  ultimately show ?thesis by blast
qed

theorem short_read_then_crash_witness:
  "\<exists>q'. CRcvQueue_recvfrom [] 7 CPacket_new (CRcvQueue_storePkt 7 (setLength 48 CPacket_new)
      (CRcvQueue_init (\<lambda>_. True) 32 1444 2 1024)) = Some (- 1, setLength (- 1) CPacket_new, q') \<and>
    CRcvQueue_recvfrom [] 7 CPacket_new q' = None"
  using short_read_then_crash [of "CRcvQueue_storePkt 7 (setLength 48 CPacket_new) (CRcvQueue_init (\<lambda>_. True) 32 1444 2 1024)"
      7 "setLength 48 CPacket_new" "[]" CPacket_new "[]" "[]" CPacket_new "[]"]
  by (simp add: store_stored) (simp add: CRcvQueue_init_def stored_def getLength_def setLength_def CPacket_new_def)

end
