(* ===== verification/United.thy ===== *)
theory United imports Handshake RcvQueue SndUList begin

text \<open>
  The management of all sockets, classes \<open>CUDTSocket\<close> and \<open>CUDTUnited\<close> (\<open>api.h\<close>, \<open>api.cpp\<close>), with the
  multiplexers (\<open>queue.h\<close>) that the sockets share. A socket object is found by its id in
  \<open>un_Obj\<close>, which stands for the shared pointers; \<open>un_Sockets\<close> and \<open>un_Closed\<close> are the keys of the maps
  \<open>m_Sockets\<close> and \<open>m_ClosedSockets\<close> in ascending order, in which the maps are traversed. An
  operation is atomic. Its environment (clocks, memory, the UDP socket that \<open>open\<close> creates) is a
  record of arguments; \<open>None\<close> is undefined behaviour.
\<close>

section \<open>State\<close>

datatype UDTSTATUS = INIT | OPENED | LISTENING | CONNECTING | CONNECTED | BROKEN | CLOSING | CLOSED | NONEXIST

record CUDTSocket =
  s_Status :: UDTSTATUS
  s_TimeStamp :: uint64
  s_IPversion :: int
  s_SelfAddr :: "sockaddr option"
  s_PeerAddr :: "sockaddr option"
  s_SocketID :: int
  s_ListenSocket :: int
  s_PeerID :: int32
  s_ISN :: int32
  s_UDT :: CUDT
  s_QueuedSockets :: "int list"
  s_AcceptSockets :: "int list"
  s_BackLog :: int
  s_MuxID :: int
  s_IsExpiring :: bool

definition CUDTSocket_new :: "CUDT \<Rightarrow> CUDTSocket" where
  "CUDTSocket_new u = \<lparr>s_Status = INIT, s_TimeStamp = 0, s_IPversion = 0, s_SelfAddr = None, s_PeerAddr = None,
     s_SocketID = 0, s_ListenSocket = 0, s_PeerID = 0, s_ISN = 0, s_UDT = u, s_QueuedSockets = [],
     s_AcceptSockets = [], s_BackLog = 0, s_MuxID = - 1, s_IsExpiring = False\<rparr>"

text \<open>\<open>mux_Addr\<close> is the address the channel's UDP socket is bound to.\<close>

record CMultiplexer =
  mux_SndUList :: CSndUList
  mux_RcvQueue :: CRcvQueue
  mux_Addr :: sockaddr
  mux_Port :: int
  mux_IPversion :: int
  mux_MSS :: int
  mux_RefCount :: int
  mux_Reusable :: bool
  mux_ID :: int

text \<open>\<open>un_Events\<close> are the calls of the epoll, \<open>un_Net\<close> the packets handed to the channels, oldest first.\<close>

datatype poll_call = Update int int bool | Remove int

record CUDTUnited =
  un_Obj :: "int \<rightharpoonup> CUDTSocket"
  un_Sockets :: "int list"
  un_Closed :: "int list"
  un_SocketID :: int
  un_PeerRec :: "int32 \<rightharpoonup> int list"
  un_Mux :: "CMultiplexer list"
  un_Cache :: CCache
  un_InstanceCount :: int
  un_GCStatus :: bool
  un_Events :: "poll_call list"
  un_Net :: "(int \<times> sockaddr \<times> CPacket) list"

record env =
  e_us :: uint64
  e_tk :: uint64
  e_cpu :: uint64
  e_rnd :: real
  e_alloc :: bool
  e_mem :: "CUDT \<Rightarrow> bool"
  e_units :: "int \<Rightarrow> bool"
  e_block :: "nat \<Rightarrow> Block"
  e_raw :: CUDT
  e_addr :: sockaddr
  e_garbage :: uint32
  e_open :: "sockaddr option \<Rightarrow> CUDTException + sockaddr"

definition CUDTUnited_new :: "real \<Rightarrow> CUDTUnited" where
  "CUDTUnited_new rnd = \<lparr>un_Obj = Map.empty, un_Sockets = [], un_Closed = [], un_SocketID = 1 + trunc (0x40000000 * rnd),
     un_PeerRec = Map.empty, un_Mux = [], un_Cache = CCache_new 1024, un_InstanceCount = 0, un_GCStatus = False,
     un_Events = [], un_Net = []\<rparr>"

text \<open>\<open>startup\<close> and \<open>cleanup\<close>, without the collecting thread; the second component says whether the thread is
  started or stopped. \<open>return true\<close> is 1.\<close>

definition CUDTUnited_startup :: "CUDTUnited \<Rightarrow> int \<times> bool \<times> CUDTUnited" where
  "CUDTUnited_startup un =
    (let n = un_InstanceCount un; un = un\<lparr>un_InstanceCount := n + 1\<rparr>
     in if n > 0 then (0, False, un)
        else if un_GCStatus un then (1, False, un)
        else (0, True, un\<lparr>un_GCStatus := True\<rparr>))"

definition CUDTUnited_cleanup :: "CUDTUnited \<Rightarrow> int \<times> bool \<times> CUDTUnited" where
  "CUDTUnited_cleanup un =
    (let un = un\<lparr>un_InstanceCount := un_InstanceCount un - 1\<rparr>
     in if un_InstanceCount un > 0 then (0, False, un)
        else if \<not> un_GCStatus un then (0, False, un)
        else (0, True, un\<lparr>un_GCStatus := False\<rparr>))"

section \<open>What a socket's operation asks of the others\<close>

definition upd_sock :: "int \<Rightarrow> (CUDTSocket \<Rightarrow> CUDTSocket) \<Rightarrow> CUDTUnited \<Rightarrow> CUDTUnited" where
  "upd_sock i f un = un\<lparr>un_Obj := (un_Obj un)(i := map_option f (un_Obj un i))\<rparr>"

definition upd_mux :: "int \<Rightarrow> (CMultiplexer \<Rightarrow> CMultiplexer) \<Rightarrow> CUDTUnited \<Rightarrow> CUDTUnited" where
  "upd_mux m f un = un\<lparr>un_Mux := map (\<lambda>x. if mux_ID x = m then f x else x) (un_Mux un)\<rparr>"

definition find_mux :: "int \<Rightarrow> CUDTUnited \<Rightarrow> CMultiplexer option" where
  "find_mux m un = List.find (\<lambda>x. mux_ID x = m) (un_Mux un)"

definition upd_rcv :: "(CRcvQueue \<Rightarrow> CRcvQueue) \<Rightarrow> CMultiplexer \<Rightarrow> CMultiplexer" where
  "upd_rcv f m = m\<lparr>mux_RcvQueue := f (mux_RcvQueue m)\<rparr>"

definition upd_snd :: "(CSndUList \<Rightarrow> CSndUList) \<Rightarrow> CMultiplexer \<Rightarrow> CMultiplexer" where
  "upd_snd f m = m\<lparr>mux_SndUList := f (mux_SndUList m)\<rparr>"

definition poll :: "poll_call \<Rightarrow> CUDTUnited \<Rightarrow> CUDTUnited" where
  "poll c un = un\<lparr>un_Events := un_Events un @ [c]\<rparr>"

definition set_on :: "bool \<Rightarrow> int \<Rightarrow> CRcvQueue \<Rightarrow> CRcvQueue" where
  "set_on b i q = q\<lparr>rq_UList := set_on_list i b (rq_UList q)\<rparr>"

definition locate :: "int \<Rightarrow> CUDTUnited \<Rightarrow> CUDTSocket option" where
  "locate u un =
    (if u \<notin> set (un_Sockets un) then None
     else case un_Obj un u of None \<Rightarrow> None | Some s \<Rightarrow> if s_Status s = CLOSED then None else Some s)"

text \<open>The local address after connecting, and \<open>connect_complete\<close>; its exception would end the program.\<close>

definition local_addr :: "int \<Rightarrow> CUDTUnited \<Rightarrow> CUDTSocket \<Rightarrow> sockaddr option" where
  "local_addr m un s = map_option (\<lambda>x. pton (mux_Addr x) (u_SelfIP (s_UDT s)) (s_IPversion s)) (find_mux m un)"

definition connect_complete :: "int \<Rightarrow> CUDTUnited \<Rightarrow> CUDTUnited option" where
  "connect_complete u un =
    (case locate u un of
       None \<Rightarrow> None
     | Some s \<Rightarrow> Some (upd_sock u (\<lambda>s. s\<lparr>s_SelfAddr := local_addr (s_MuxID s) un s, s_Status := CONNECTED\<rparr>) un))"

text \<open>The calls that the operations of the socket \<open>i\<close> on the multiplexer \<open>m\<close> have recorded.\<close>

fun apply_effect :: "int \<Rightarrow> int \<Rightarrow> int \<Rightarrow> effect \<Rightarrow> CUDTUnited \<Rightarrow> CUDTUnited option" where
  "apply_effect i m ipv (SendTo a p) un = Some (un\<lparr>un_Net := un_Net un @ [(m, a, p)]\<rparr>)"
| "apply_effect i m ipv (SndUList_update b) un = Some (upd_mux m (upd_snd (CSndUList_update i b)) un)"
| "apply_effect i m ipv SndUList_remove un = Some (upd_mux m (upd_snd (CSndUList_remove i)) un)"
| "apply_effect i m ipv SetListener un = Some (upd_mux m (upd_rcv (\<lambda>q. snd (CRcvQueue_setListener i q))) un)"
| "apply_effect i m ipv RemoveListener un = Some (upd_mux m (upd_rcv (CRcvQueue_removeListener i)) un)"
| "apply_effect i m ipv (RegisterConnector a ttl) un = Some (upd_mux m (upd_rcv (CRcvQueue_registerConnector i i ipv a ttl)) un)"
| "apply_effect i m ipv RemoveConnector un = Some (upd_mux m (upd_rcv (CRcvQueue_removeConnector i)) un)"
| "apply_effect i m ipv SetNewEntry un = Some (upd_mux m (upd_rcv (CRcvQueue_setNewEntry i \<circ> set_on True i)) un)"
| "apply_effect i m ipv (UpdateEvents e b) un = Some (poll (Update i e b) un)"
| "apply_effect i m ipv RemoveUsock un = Some (poll (Remove i) un)"
| "apply_effect i m ipv ConnectComplete un = connect_complete i un"

fun apply_effects :: "int \<Rightarrow> int \<Rightarrow> int \<Rightarrow> effect list \<Rightarrow> CUDTUnited \<Rightarrow> CUDTUnited option" where
  "apply_effects i m ipv [] un = Some un"
| "apply_effects i m ipv (e # es) un = Option.bind (apply_effect i m ipv e un) (apply_effects i m ipv es)"

text \<open>The socket \<open>i\<close> is left in the state \<open>u\<close> by one of its operations.\<close>

definition put_udt :: "int \<Rightarrow> CUDT \<Rightarrow> CUDTUnited \<Rightarrow> CUDTUnited option" where
  "put_udt i u un =
    (case un_Obj un i of
       None \<Rightarrow> None
     | Some s \<Rightarrow>
         apply_effects i (s_MuxID s) (s_IPversion s) (u_Out u)
           (upd_sock i (\<lambda>s. s\<lparr>s_UDT := u\<lparr>u_Out := []\<rparr>\<rparr>) un))"

section \<open>Multiplexers\<close>

definition ntohs :: "port \<Rightarrow> int" where
  "ntohs p = uint (push_bit 8 p OR drop_bit 8 p)"

definition new_mux :: "env \<Rightarrow> int \<Rightarrow> CUDT \<Rightarrow> sockaddr \<Rightarrow> CMultiplexer" where
  "new_mux env i u addr =
     \<lparr>mux_SndUList = CSndUList_new,
      mux_RcvQueue = CRcvQueue_init (e_units env) 32 (u_PayloadSize u) (u_IPversion u) 1024,
      mux_Addr = addr, mux_Port = ntohs (sin_port addr), mux_IPversion = u_IPversion u, mux_MSS = u_MSS u,
      mux_RefCount = 1, mux_Reusable = u_ReuseAddr u, mux_ID = i\<rparr>"

definition share_mux :: "int \<Rightarrow> CMultiplexer \<Rightarrow> CUDTUnited \<Rightarrow> CUDTUnited" where
  "share_mux i m un =
     upd_sock i (\<lambda>s. s\<lparr>s_MuxID := mux_ID m\<rparr>) (upd_mux (mux_ID m) (\<lambda>x. x\<lparr>mux_RefCount := mux_RefCount x + 1\<rparr>) un)"

definition find_reusable :: "CUDT \<Rightarrow> sockaddr option \<Rightarrow> CUDTUnited \<Rightarrow> CMultiplexer option" where
  "find_reusable u addr un =
    (case addr of
       None \<Rightarrow> None
     | Some a \<Rightarrow>
         if u_ReuseAddr u then
           List.find (\<lambda>m. mux_IPversion m = u_IPversion u \<and> mux_MSS m = u_MSS u \<and> mux_Reusable m \<and>
             mux_Port m = ntohs (sin_port a)) (un_Mux un)
         else None)"

definition updateMux :: "env \<Rightarrow> int \<Rightarrow> CUDT \<Rightarrow> sockaddr option \<Rightarrow> CUDTUnited \<Rightarrow> CUDTException + CUDTUnited" where
  "updateMux env i u addr un =
    (case find_reusable u addr un of
       Some m \<Rightarrow> Inr (share_mux i m un)
     | None \<Rightarrow>
         case e_open env addr of
           Inl e \<Rightarrow> Inl e
         | Inr name \<Rightarrow>
             let m = new_mux env i u name
             in Inr (upd_sock i (\<lambda>s. s\<lparr>s_MuxID := mux_ID m\<rparr>)
                  (un\<lparr>un_Mux := insort_key mux_ID m (filter (\<lambda>x. mux_ID x \<noteq> i) (un_Mux un))\<rparr>)))"

text \<open>The listener's multiplexer for a new connection.\<close>

definition updateMux_listener :: "int \<Rightarrow> CUDTSocket \<Rightarrow> CUDTUnited \<Rightarrow> CUDTUnited" where
  "updateMux_listener i ls un =
    (case List.find (\<lambda>m. mux_Port m = ntohs (sin_port (the (s_SelfAddr ls)))) (un_Mux un) of
       None \<Rightarrow> un
     | Some m \<Rightarrow> share_mux i m un)"

section \<open>New sockets\<close>

definition add_id :: "int \<Rightarrow> int list \<Rightarrow> int list" where
  "add_id i xs = (if i \<in> set xs then xs else insort i xs)"

definition del_id :: "int \<Rightarrow> int list \<Rightarrow> int list" where
  "del_id i xs = filter (\<lambda>x. x \<noteq> i) xs"

definition SOCK_DGRAM :: int where "SOCK_DGRAM = 2"

text \<open>The id counter goes down from at most \<open>2 ^ 30 + 1\<close>.\<close>

definition newSocket :: "env \<Rightarrow> int \<Rightarrow> int \<Rightarrow> CUDTUnited \<Rightarrow> (CUDTException + int) \<times> CUDTUnited" where
  "newSocket env af type un =
    (if type \<noteq> SOCK_DGRAM then (Inl (exc 5 3), un)
     else if \<not> e_alloc env then (Inl (exc 3 2), un)
     else
       let i = un_SocketID un - 1;
           u = (CUDT_new (e_raw env))\<lparr>u_SocketID := i, u_SockType := UDT_DGRAM, u_IPversion := af\<rparr>;
           ns = (CUDTSocket_new u)\<lparr>s_SelfAddr := Some ((e_addr env)\<lparr>sin_port := 0\<rparr>), s_SocketID := i, s_IPversion := af\<rparr>
       in (Inr i, un\<lparr>un_SocketID := i, un_Obj := (un_Obj un)(i \<mapsto> ns), un_Sockets := add_id i (un_Sockets un)\<rparr>))"

text \<open>\<open>(id << 30) + isn\<close> in 32 bits.\<close>

definition peer_key :: "int32 \<Rightarrow> int32 \<Rightarrow> int32" where
  "peer_key i isn = sint (push_bit 30 (word_of_int i) + word_of_int isn :: uint32)"

definition locate_peer :: "sockaddr \<Rightarrow> int32 \<Rightarrow> int32 \<Rightarrow> CUDTUnited \<Rightarrow> CUDTSocket option" where
  "locate_peer peer i isn un =
    (case un_PeerRec un (peer_key i isn) of
       None \<Rightarrow> None
     | Some js \<Rightarrow>
         List.find (\<lambda>s. ipcmp peer (the (s_PeerAddr s)) (s_IPversion s))
           (List.map_filter (un_Obj un) (filter (\<lambda>j. j \<in> set (un_Sockets un)) js)))"

definition existing_answer :: "CUDTSocket \<Rightarrow> CHandShake \<Rightarrow> CHandShake" where
  "existing_answer ns hs =
    (let u = s_UDT ns
     in hs\<lparr>m_iISN := u_ISN u, m_iMSS := u_MSS u, m_iFlightFlagSize := u_FlightFlagSize u, m_iReqType := - 1,
           m_iHsID := s_SocketID ns\<rparr>)"

definition forget_child :: "int \<Rightarrow> CUDTSocket \<Rightarrow> CUDTSocket" where
  "forget_child i ls = ls\<lparr>s_QueuedSockets := del_id i (s_QueuedSockets ls), s_AcceptSockets := del_id i (s_AcceptSockets ls)\<rparr>"

definition mark_closed :: "uint64 \<Rightarrow> CUDTSocket \<Rightarrow> CUDTSocket" where
  "mark_closed us s = s\<lparr>s_Status := CLOSED, s_TimeStamp := us\<rparr>"

definition close_udt :: "env \<Rightarrow> int \<Rightarrow> CUDTUnited \<Rightarrow> CUDTUnited option" where
  "close_udt env i un =
    (case un_Obj un i of
       None \<Rightarrow> None
     | Some s \<Rightarrow> do {
         (u, cache) \<leftarrow> CUDT_close (e_us env) (e_tk env) (e_garbage env) (un_Cache un) (s_UDT s);
         put_udt i u (un\<lparr>un_Cache := cache\<rparr>)
       })"

text \<open>A new socket for a request, not yet in the tables.\<close>

definition child_socket :: "env \<Rightarrow> int \<Rightarrow> CUDTSocket \<Rightarrow> sockaddr \<Rightarrow> CHandShake \<Rightarrow> int \<Rightarrow> CUDTSocket" where
  "child_socket env listener ls peer hs i =
    (let u = (CUDT_copy (s_UDT ls) (e_raw env))\<lparr>u_SocketID := i\<rparr>
     in (CUDTSocket_new (CUDT_open (e_cpu env) (e_us env) (e_tk env) u))
          \<lparr>s_SelfAddr := Some ((e_addr env)\<lparr>sin_port := 0\<rparr>), s_PeerAddr := Some peer, s_SocketID := i,
           s_ListenSocket := listener, s_IPversion := s_IPversion ls, s_PeerID := m_iHsID hs, s_ISN := m_iISN hs\<rparr>)"

text \<open>A child without a multiplexer follows a null pointer. The handshake that \<open>connect\<close> leaves behind when
  it throws is the negotiated one.\<close>

definition admit_child :: "env \<Rightarrow> int \<Rightarrow> sockaddr \<Rightarrow> CHandShake \<Rightarrow> int \<Rightarrow> CUDTUnited \<Rightarrow> ((int \<times> CHandShake) \<times> CUDTUnited) option" where
  "admit_child env listener peer hs i un =
    (case un_Obj un i of
       None \<Rightarrow> None
     | Some ns \<Rightarrow>
         if s_MuxID ns = - 1 then None
         else do {
           (r, u) \<leftarrow> CUDT_connect_peer (e_block env) (e_mem env) (e_us env) (un_Cache un) peer hs (s_UDT ns);
           un \<leftarrow> put_udt i u un;
           case r of
             Inl e \<Rightarrow> do {
               un \<leftarrow> close_udt env i un;
               Some ((- 1, fst (negotiate (e_us env) peer hs (s_UDT ns))), un\<lparr>un_Obj := (un_Obj un)(i := None)\<rparr>)
             }
           | Inr hs' \<Rightarrow>
               let un = upd_sock i (\<lambda>s. s\<lparr>s_Status := CONNECTED, s_SelfAddr := local_addr (s_MuxID s) un s\<rparr>) un;
                   k = peer_key (s_PeerID ns) (s_ISN ns);
                   un = un\<lparr>un_Sockets := add_id i (un_Sockets un),
                           un_PeerRec := (un_PeerRec un)(k \<mapsto> add_id i (case un_PeerRec un k of None \<Rightarrow> [] | Some js \<Rightarrow> js))\<rparr>;
                   un = upd_sock listener (\<lambda>ls. ls\<lparr>s_QueuedSockets := add_id i (s_QueuedSockets ls)\<rparr>) un
               in Some ((1, hs'), poll (Update listener UDT_EPOLL_IN True) un)
         })"

definition start_child :: "env \<Rightarrow> int \<Rightarrow> sockaddr \<Rightarrow> CHandShake \<Rightarrow> CUDTUnited \<Rightarrow> ((int \<times> CHandShake) \<times> CUDTUnited) option" where
  "start_child env listener peer hs un =
    (case un_Obj un listener of
       None \<Rightarrow> None
     | Some ls \<Rightarrow>
         if int (length (s_QueuedSockets ls)) \<ge> s_BackLog ls then Some ((- 1, hs), un)
         else if \<not> e_alloc env then Some ((- 1, hs), un)
         else
           let i = un_SocketID un - 1;
               un = un\<lparr>un_SocketID := i, un_Obj := (un_Obj un)(i \<mapsto> child_socket env listener ls peer hs i)\<rparr>
           in admit_child env listener peer hs i (updateMux_listener i ls un))"

definition newConnection :: "env \<Rightarrow> int \<Rightarrow> sockaddr \<Rightarrow> CHandShake \<Rightarrow> CUDTUnited \<Rightarrow> ((int \<times> CHandShake) \<times> CUDTUnited) option" where
  "newConnection env listener peer hs un =
    (case locate listener un of
       None \<Rightarrow> Some ((- 1, hs), un)
     | Some ls \<Rightarrow>
         case locate_peer peer (m_iHsID hs) (m_iISN hs) un of
           None \<Rightarrow> start_child env listener peer hs un
         | Some ns \<Rightarrow>
             if u_Broken (s_UDT ns) then
               start_child env listener peer hs
                 (upd_sock listener (forget_child (s_SocketID ns)) (upd_sock (s_SocketID ns) (mark_closed (e_us env)) un))
             else Some ((0, existing_answer ns hs), un))"

section \<open>The calls of the application\<close>

definition lookup :: "int \<Rightarrow> CUDTUnited \<Rightarrow> CUDTException + CUDT" where
  "lookup u un = (case locate u un of None \<Rightarrow> Inl (exc 5 4) | Some s \<Rightarrow> Inr (s_UDT s))"

definition getStatus :: "int \<Rightarrow> CUDTUnited \<Rightarrow> UDTSTATUS" where
  "getStatus u un =
    (if u \<notin> set (un_Sockets un) then if u \<in> set (un_Closed un) then CLOSED else NONEXIST
     else case un_Obj un u of
            None \<Rightarrow> NONEXIST
          | Some s \<Rightarrow> if u_Broken (s_UDT s) then BROKEN else s_Status s)"

definition sockaddr_len :: "int \<Rightarrow> int" where
  "sockaddr_len ipv = (if AF_INET = ipv then 16 else 28)"

text \<open>\<open>CUDT::open\<close> and \<open>updateMux\<close>, as \<open>bind\<close> and \<open>connect\<close> call them; the socket stays open when there is no
  multiplexer for it.\<close>

definition open_socket :: "env \<Rightarrow> int \<Rightarrow> sockaddr option \<Rightarrow> CUDTSocket \<Rightarrow> CUDTUnited \<Rightarrow> (CUDTException + unit) \<times> CUDTUnited" where
  "open_socket env u addr s un =
    (let c = CUDT_open (e_cpu env) (e_us env) (e_tk env) (s_UDT s);
         un = upd_sock u (\<lambda>s. s\<lparr>s_UDT := c\<rparr>) un
     in case updateMux env u c addr un of
          Inl e \<Rightarrow> (Inl e, un)
        | Inr un \<Rightarrow> (Inr (), upd_sock u (\<lambda>s. s\<lparr>s_Status := OPENED\<rparr>) un))"

definition bind :: "env \<Rightarrow> int \<Rightarrow> sockaddr \<Rightarrow> int \<Rightarrow> CUDTUnited \<Rightarrow> (CUDTException + int) \<times> CUDTUnited" where
  "bind env u name namelen un =
    (case locate u un of
       None \<Rightarrow> (Inl (exc 5 4), un)
     | Some s \<Rightarrow>
         if INIT \<noteq> s_Status s then (Inl (exc 5 0), un)
         else if namelen \<noteq> sockaddr_len (s_IPversion s) then (Inl (exc 5 3), un)
         else case open_socket env u (Some name) s un of
                (Inl e, un) \<Rightarrow> (Inl e, un)
              | (Inr _, un) \<Rightarrow>
                  (Inr 0, upd_sock u (\<lambda>s. s\<lparr>s_SelfAddr := map_option mux_Addr (find_mux (s_MuxID s) un)\<rparr>) un))"

text \<open>No other socket listens on the multiplexer.\<close>

definition listener_free :: "int \<Rightarrow> CUDTUnited \<Rightarrow> bool" where
  "listener_free m un \<longleftrightarrow> (case find_mux m un of None \<Rightarrow> False | Some x \<Rightarrow> rq_Listener (mux_RcvQueue x) = None)"

definition listen :: "int \<Rightarrow> int \<Rightarrow> CUDTUnited \<Rightarrow> ((CUDTException + int) \<times> CUDTUnited) option" where
  "listen u backlog un =
    (case locate u un of
       None \<Rightarrow> Some (Inl (exc 5 4), un)
     | Some s \<Rightarrow>
         if LISTENING = s_Status s then Some (Inr 0, un)
         else if OPENED \<noteq> s_Status s then Some (Inl (exc 5 5), un)
         else if u_Rendezvous (s_UDT s) then Some (Inl (exc 5 7), un)
         else if backlog \<le> 0 then Some (Inl (exc 5 3), un)
         else
           let un = upd_sock u (\<lambda>s. s\<lparr>s_BackLog := backlog, s_QueuedSockets := [], s_AcceptSockets := []\<rparr>) un
           in case CUDT_listen (listener_free (s_MuxID s) un) (s_UDT s) of
                Inl e \<Rightarrow> Some (Inl e, un)
              | Inr c \<Rightarrow>
                  map_option (\<lambda>un. (Inr 0, upd_sock u (\<lambda>s. s\<lparr>s_Status := LISTENING\<rparr>) un)) (put_udt u c un))"

text \<open>\<open>want\<close>: the caller passes room for the address. The result has the socket and, if wanted, its peer.\<close>

definition accept :: "int \<Rightarrow> bool \<Rightarrow> CUDTUnited \<Rightarrow> ((CUDTException + int \<times> sockaddr option) \<times> CUDTUnited) option" where
  "accept listener want un =
    (case locate listener un of
       None \<Rightarrow> Some (Inl (exc 5 4), un)
     | Some ls \<Rightarrow>
         if LISTENING \<noteq> s_Status ls then Some (Inl (exc 5 6), un)
         else if u_Rendezvous (s_UDT ls) then Some (Inl (exc 5 7), un)
         else case s_QueuedSockets ls of
                [] \<Rightarrow> Some (Inl (exc 6 2), un)
              | u # us \<Rightarrow>
                  let un = upd_sock listener
                             (\<lambda>ls. ls\<lparr>s_AcceptSockets := add_id u (s_AcceptSockets ls), s_QueuedSockets := us\<rparr>) un;
                      un = poll (Update u 0 False) un
                  in if \<not> want then Some (Inr (u, None), un)
                     else case locate u un of
                            None \<Rightarrow> None
                          | Some s \<Rightarrow> map_option (\<lambda>a. (Inr (u, Some a), un)) (s_PeerAddr s))"

text \<open>The turns of a synchronous connect come from outside, see \<open>connect_wait\<close>.\<close>

definition connect_socket :: "env \<Rightarrow> int \<Rightarrow> sockaddr \<Rightarrow> wait_turn list \<Rightarrow> CUDTUnited \<Rightarrow> ((CUDTException + int) \<times> CUDTUnited) option" where
  "connect_socket env u name turns un =
    (let un = upd_sock u (\<lambda>s. s\<lparr>s_Status := CONNECTING\<rparr>) un
     in case un_Obj un u of
          None \<Rightarrow> None
        | Some s \<Rightarrow> do {
            (e, c) \<leftarrow> CUDT_connect (e_block env) (e_mem env) (un_Cache un) (e_rnd env) (e_us env) name turns (s_UDT s);
            un \<leftarrow> put_udt u c un;
            Some (case e of
                    Some e \<Rightarrow> (Inl e, upd_sock u (\<lambda>s. s\<lparr>s_Status := OPENED\<rparr>) un)
                  | None \<Rightarrow> (Inr 0, upd_sock u (\<lambda>s. s\<lparr>s_PeerAddr := Some name\<rparr>) un))
          })"

definition connect :: "env \<Rightarrow> int \<Rightarrow> sockaddr \<Rightarrow> int \<Rightarrow> wait_turn list \<Rightarrow> CUDTUnited \<Rightarrow> ((CUDTException + int) \<times> CUDTUnited) option" where
  "connect env u name namelen turns un =
    (case locate u un of
       None \<Rightarrow> Some (Inl (exc 5 4), un)
     | Some s \<Rightarrow>
         if namelen \<noteq> sockaddr_len (s_IPversion s) then Some (Inl (exc 5 3), un)
         else if INIT = s_Status s then
           if u_Rendezvous (s_UDT s) then Some (Inl (exc 5 8), un)
           else case open_socket env u None s un of
                  (Inl e, un) \<Rightarrow> Some (Inl e, un)
                | (Inr _, un) \<Rightarrow> connect_socket env u name turns un
         else if OPENED \<noteq> s_Status s then Some (Inl (exc 5 2), un)
         else connect_socket env u name turns un)"

definition close :: "env \<Rightarrow> int \<Rightarrow> CUDTUnited \<Rightarrow> ((CUDTException + int) \<times> CUDTUnited) option" where
  "close env u un =
    (case locate u un of
       None \<Rightarrow> Some (Inl (exc 5 4), un)
     | Some s \<Rightarrow>
         if s_Status s = LISTENING then
           if u_Broken (s_UDT s) then Some (Inr 0, un)
           else Some (Inr 0, upd_sock u (\<lambda>s. s\<lparr>s_TimeStamp := e_us env, s_UDT := (s_UDT s)\<lparr>u_Broken := True\<rparr>\<rparr>) un)
         else
           map_option (\<lambda>un. (Inr 0, (upd_sock u (mark_closed (e_us env)) un)
               \<lparr>un_Sockets := del_id u (un_Sockets un), un_Closed := add_id u (un_Closed un)\<rparr>))
             (close_udt env u un))"

definition getpeername :: "int \<Rightarrow> CUDTUnited \<Rightarrow> (CUDTException + sockaddr \<times> int) option" where
  "getpeername u un =
    (if CONNECTED \<noteq> getStatus u un then Some (Inl (exc 2 2))
     else case locate u un of
            None \<Rightarrow> Some (Inl (exc 5 4))
          | Some s \<Rightarrow>
              if \<not> u_Connected (s_UDT s) \<or> u_Broken (s_UDT s) then Some (Inl (exc 2 2))
              else map_option (\<lambda>a. Inr (a, sockaddr_len (s_IPversion s))) (s_PeerAddr s))"

definition getsockname :: "int \<Rightarrow> CUDTUnited \<Rightarrow> (CUDTException + sockaddr \<times> int) option" where
  "getsockname u un =
    (case locate u un of
       None \<Rightarrow> Some (Inl (exc 5 4))
     | Some s \<Rightarrow>
         if u_Broken (s_UDT s) then Some (Inl (exc 5 4))
         else if INIT = s_Status s then Some (Inl (exc 2 2))
         else map_option (\<lambda>a. Inr (a, sockaddr_len (s_IPversion s))) (s_SelfAddr s))"

section \<open>Collecting closed sockets\<close>

text \<open>Whether a broken socket has to wait; the counter is decremented just when there are data.\<close>

definition unread :: "CUDT \<Rightarrow> bool" where
  "unread u = (case u_RcvBuffer u of None \<Rightarrow> False | Some b \<Rightarrow> CRcvBuffer_getRcvDataSize b > 0)"

definition broken_waits :: "uint64 \<Rightarrow> CUDTSocket \<Rightarrow> bool \<times> CUDTSocket" where
  "broken_waits us s =
    (if s_Status s = LISTENING then (us - s_TimeStamp s < 3000000, s)
     else if unread (s_UDT s) then
       (u_BrokenCounter (s_UDT s) > 0, s\<lparr>s_UDT := (s_UDT s)\<lparr>u_BrokenCounter := u_BrokenCounter (s_UDT s) - 1\<rparr>\<rparr>)
     else (False, s))"

text \<open>One turn of the loop over \<open>m_Sockets\<close>, with the sockets to be taken out of it so far.\<close>

definition close_broken :: "uint64 \<Rightarrow> int \<Rightarrow> int list \<times> CUDTUnited \<Rightarrow> int list \<times> CUDTUnited" where
  "close_broken us i x =
    (let (tbc, un) = x
     in case un_Obj un i of
          None \<Rightarrow> (tbc, un)
        | Some s \<Rightarrow>
            if \<not> u_Broken (s_UDT s) then (tbc, un)
            else
              let (waits, s) = broken_waits us s; un = upd_sock i (\<lambda>_. s) un
              in if waits then (tbc, un)
                 else
                   let un = upd_sock i (mark_closed us) un;
                       un = un\<lparr>un_Closed := add_id i (un_Closed un)\<rparr>;
                       l = s_ListenSocket s
                   in (tbc @ [i], if l \<in> set (un_Sockets un) \<or> l \<in> set (un_Closed un)
                                  then upd_sock l (forget_child i) un else un))"

text \<open>\<open>on_list\<close>: the socket's node in the receiving queue is marked as on the list.\<close>

definition on_list :: "int \<Rightarrow> CUDTUnited \<Rightarrow> bool" where
  "on_list i un \<longleftrightarrow> (\<exists>m\<in>set (un_Mux un). rn_OnList (ru_Node (rq_UList (mux_RcvQueue m)) i))"

definition start_expiring :: "uint64 \<Rightarrow> CUDTSocket \<Rightarrow> CUDTSocket" where
  "start_expiring us s = (if \<not> s_IsExpiring s then s\<lparr>s_IsExpiring := True, s_TimeStamp := us\<rparr> else s)"

definition expired :: "uint64 \<Rightarrow> CUDTUnited \<Rightarrow> int \<Rightarrow> bool" where
  "expired us un i \<longleftrightarrow> (case un_Obj un i of None \<Rightarrow> False | Some s \<Rightarrow> us - s_TimeStamp s > 1000000 \<and> \<not> on_list i un)"

text \<open>The sockets that wait for \<open>accept\<close> of a listener that goes away; \<open>None\<close> when one is not in \<open>m_Sockets\<close>.\<close>

definition close_unaccepted :: "env \<Rightarrow> int \<Rightarrow> CUDTUnited \<Rightarrow> CUDTUnited option" where
  "close_unaccepted env q un =
    (if q \<notin> set (un_Sockets un) then None
     else do {
       un \<leftarrow> close_udt env q (upd_sock q (\<lambda>s. s\<lparr>s_UDT := (s_UDT s)\<lparr>u_Broken := True\<rparr>\<rparr>) un);
       let un = upd_sock q (mark_closed (e_us env)) un;
       Some (un\<lparr>un_Closed := add_id q (un_Closed un), un_Sockets := del_id q (un_Sockets un)\<rparr>)
     })"

fun close_queue :: "env \<Rightarrow> int list \<Rightarrow> CUDTUnited \<Rightarrow> CUDTUnited option" where
  "close_queue env [] un = Some un"
| "close_queue env (q # qs) un = Option.bind (close_unaccepted env q un) (close_queue env qs)"

definition forget_peer :: "int \<Rightarrow> CUDTSocket \<Rightarrow> CUDTUnited \<Rightarrow> CUDTUnited" where
  "forget_peer u s un =
    (let k = peer_key (s_PeerID s) (s_ISN s)
     in case un_PeerRec un k of
          None \<Rightarrow> un
        | Some js \<Rightarrow> un\<lparr>un_PeerRec := (un_PeerRec un)(k := (if del_id u js = [] then None else Some (del_id u js)))\<rparr>)"

definition release_mux :: "int \<Rightarrow> CUDTUnited \<Rightarrow> CUDTUnited" where
  "release_mux mid un =
    (case find_mux mid un of
       None \<Rightarrow> un
     | Some m \<Rightarrow>
         if mux_RefCount m - 1 = 0 then un\<lparr>un_Mux := filter (\<lambda>x. mux_ID x \<noteq> mid) (un_Mux un)\<rparr>
         else upd_mux mid (\<lambda>x. x\<lparr>mux_RefCount := mux_RefCount x - 1\<rparr>) un)"

definition removeSocket :: "env \<Rightarrow> int \<Rightarrow> CUDTUnited \<Rightarrow> CUDTUnited option" where
  "removeSocket env u un =
    (if u \<notin> set (un_Closed un) then Some un
     else case un_Obj un u of
            None \<Rightarrow> None
          | Some s \<Rightarrow> do {
              un \<leftarrow> close_queue env (s_QueuedSockets s) un;
              un \<leftarrow> close_udt env u (forget_peer u s un);
              Some (release_mux (s_MuxID s) (un\<lparr>un_Closed := del_id u (un_Closed un), un_Obj := (un_Obj un)(u := None)\<rparr>))
            })"

fun remove_all :: "env \<Rightarrow> int list \<Rightarrow> CUDTUnited \<Rightarrow> CUDTUnited option" where
  "remove_all env [] un = Some un"
| "remove_all env (u # us) un = Option.bind (removeSocket env u un) (remove_all env us)"

definition checkBrokenSockets :: "env \<Rightarrow> CUDTUnited \<Rightarrow> CUDTUnited option" where
  "checkBrokenSockets env un =
    (let (tbc, un) = fold (close_broken (e_us env)) (un_Sockets un) ([], un);
         un = fold (\<lambda>j. upd_sock j (start_expiring (e_us env))) (un_Closed un) un;
         tbr = filter (expired (e_us env) un) (un_Closed un);
         un = un\<lparr>un_Sockets := fold del_id tbc (un_Sockets un)\<rparr>
     in remove_all env tbr un)"

text \<open>The end of the collecting thread: all sockets are closed, then checked until none is left.\<close>

definition force_close :: "env \<Rightarrow> int \<Rightarrow> CUDTUnited \<Rightarrow> CUDTUnited option" where
  "force_close env i un = do {
     un \<leftarrow> close_udt env i (upd_sock i (\<lambda>s. s\<lparr>s_UDT := (s_UDT s)\<lparr>u_Broken := True\<rparr>\<rparr>) un);
     let un = upd_sock i (mark_closed (e_us env)) un;
     let un = un\<lparr>un_Closed := add_id i (un_Closed un)\<rparr>;
     s \<leftarrow> un_Obj un i;
     let l = s_ListenSocket s;
     Some (if l \<in> set (un_Sockets un) \<or> l \<in> set (un_Closed un) then upd_sock l (forget_child i) un else un)
   }"

fun force_close_all :: "env \<Rightarrow> int list \<Rightarrow> CUDTUnited \<Rightarrow> CUDTUnited option" where
  "force_close_all env [] un = Some un"
| "force_close_all env (i # is) un = Option.bind (force_close env i un) (force_close_all env is)"

fun check_until_empty :: "env list \<Rightarrow> CUDTUnited \<Rightarrow> CUDTUnited option" where
  "check_until_empty [] un = None"
| "check_until_empty (env # envs) un = do {
     un \<leftarrow> checkBrokenSockets env un;
     if un_Closed un = [] then Some un else check_until_empty envs un
   }"

definition garbageCollect_end :: "env \<Rightarrow> env list \<Rightarrow> CUDTUnited \<Rightarrow> CUDTUnited option" where
  "garbageCollect_end env envs un = do {
     un \<leftarrow> force_close_all env (un_Sockets un) un;
     let un = un\<lparr>un_Sockets := []\<rparr>;
     check_until_empty envs (fold (\<lambda>j. upd_sock j (\<lambda>s. s\<lparr>s_TimeStamp := 0\<rparr>)) (un_Closed un) un)
   }"

end
