(* ===== verification/Api.thy ===== *)
theory Api imports United begin

text \<open>
  What an application calls: the static functions of \<open>CUDT\<close> (\<open>api.cpp\<close>), which turn exceptions into the
  return value \<open>ERROR\<close> and the error record of the calling thread, and that record, \<open>m_TLSError\<close>.
  \<open>api\<close> is the state as one thread sees it. A NULL that an operation follows, and any other undefined
  behaviour, is \<open>None\<close>.

  Every one of them is a \<open>try\<close> block. The operations of the model throw \<open>CUDTException\<close>. An exception of another
  kind, \<open>bad_alloc\<close> where an allocation is not guarded or whatever the standard library throws when it cannot make a
  thread, may leave the block at a point the model does not name: a call takes \<open>escape\<close>, which is such an
  exception with the tables it leaves, or \<open>None\<close>.
\<close>

record api =
  a_United :: CUDTUnited
  a_Error :: "CUDTException option"

definition ERROR :: int where "ERROR = - 1"

section \<open>The error record\<close>

definition setError :: "CUDTException \<Rightarrow> api \<Rightarrow> api" where
  "setError e a = a\<lparr>a_Error := Some e\<rparr>"

definition setErrorCode :: "int \<Rightarrow> int \<Rightarrow> api \<Rightarrow> api" where
  "setErrorCode major minor a =
    (case a_Error a of
       Some e \<Rightarrow> if getErrorCode e \<noteq> major * 1000 + minor then a\<lparr>a_Error := Some (exc major minor)\<rparr> else a
     | None \<Rightarrow> a\<lparr>a_Error := Some (exc major minor)\<rparr>)"

definition getError :: "int \<Rightarrow> api \<Rightarrow> CUDTException \<times> api" where
  "getError errno a =
    (case a_Error a of
       Some e \<Rightarrow> (e, a)
     | None \<Rightarrow> let e = CUDTException_new errno 0 0 (- 1) in (e, a\<lparr>a_Error := Some e\<rparr>))"

definition getlasterror_code :: "int \<Rightarrow> api \<Rightarrow> int \<times> api" where
  "getlasterror_code errno a = (let (e, a) = getError errno a in (getErrorCode e, a))"

section \<open>The try blocks\<close>

datatype stray = Bad_alloc | Other_exception

datatype thrown = Thrown CUDTException | Stray stray

type_synonym escape = "(stray \<times> CUDTUnited) option"

definition try_body :: "escape \<Rightarrow> ((CUDTException + 'r) \<times> CUDTUnited) option \<Rightarrow> ((thrown + 'r) \<times> CUDTUnited) option" where
  "try_body escape r =
    (case escape of
       None \<Rightarrow> map_option (map_prod (map_sum Thrown id) id) r
     | Some (k, un) \<Rightarrow> Some (Inl (Stray k), un))"

text \<open>The catch clauses; \<open>clause\<close> says whether there is one for \<open>bad_alloc\<close>.\<close>

fun caught :: "bool \<Rightarrow> thrown \<Rightarrow> api \<Rightarrow> api" where
  "caught clause (Thrown e) a = setError e a"
| "caught clause (Stray Bad_alloc) a = (if clause then setErrorCode 3 2 a else setErrorCode (- 1) 0 a)"
| "caught clause (Stray Other_exception) a = setErrorCode (- 1) 0 a"

definition report :: "bool \<Rightarrow> ('r \<Rightarrow> int) \<Rightarrow> (thrown + 'r) \<times> CUDTUnited \<Rightarrow> api \<Rightarrow> int \<times> api" where
  "report clause val r a =
    (let a = a\<lparr>a_United := snd r\<rparr>
     in case fst r of Inl x \<Rightarrow> (ERROR, caught clause x a) | Inr v \<Rightarrow> (val v, a))"

section \<open>Calls on the socket tables\<close>

definition CUDT_socket :: "escape \<Rightarrow> env \<Rightarrow> int \<Rightarrow> int \<Rightarrow> api \<Rightarrow> (int \<times> api) option" where
  "CUDT_socket escape env af type a =
    (let un = a_United a;
         un = (if \<not> un_GCStatus un then snd (snd (CUDTUnited_startup un)) else un)
     in map_option (\<lambda>r. report True (\<lambda>i. i) r a) (try_body escape (Some (newSocket env af type un))))"

definition CUDT_bind :: "escape \<Rightarrow> env \<Rightarrow> int \<Rightarrow> sockaddr \<Rightarrow> int \<Rightarrow> api \<Rightarrow> (int \<times> api) option" where
  "CUDT_bind escape env u name namelen a =
     map_option (\<lambda>r. report True (\<lambda>i. i) r a) (try_body escape (Some (bind env u name namelen (a_United a))))"

definition CUDT_listen_call :: "escape \<Rightarrow> int \<Rightarrow> int \<Rightarrow> api \<Rightarrow> (int \<times> api) option" where
  "CUDT_listen_call escape u backlog a =
     map_option (\<lambda>r. report True (\<lambda>i. i) r a) (try_body escape (listen u backlog (a_United a)))"

definition CUDT_accept :: "escape \<Rightarrow> int \<Rightarrow> bool \<Rightarrow> api \<Rightarrow> (int \<times> api) option" where
  "CUDT_accept escape u want a = map_option (\<lambda>r. report False fst r a) (try_body escape (accept u want (a_United a)))"

definition CUDT_connect_call ::
    "escape \<Rightarrow> env \<Rightarrow> int \<Rightarrow> sockaddr \<Rightarrow> int \<Rightarrow> wait_turn list \<Rightarrow> api \<Rightarrow> (int \<times> api) option" where
  "CUDT_connect_call escape env u name namelen turns a =
     map_option (\<lambda>r. report True (\<lambda>i. i) r a) (try_body escape (connect env u name namelen turns (a_United a)))"

definition CUDT_close_call :: "escape \<Rightarrow> env \<Rightarrow> int \<Rightarrow> api \<Rightarrow> (int \<times> api) option" where
  "CUDT_close_call escape env u a =
     map_option (\<lambda>r. report False (\<lambda>i. i) r a) (try_body escape (close env u (a_United a)))"

definition CUDT_getpeername :: "escape \<Rightarrow> int \<Rightarrow> api \<Rightarrow> (int \<times> api) option" where
  "CUDT_getpeername escape u a =
     map_option (\<lambda>r. report False (\<lambda>_. 0) r a)
       (try_body escape (map_option (\<lambda>r. (r, a_United a)) (getpeername u (a_United a))))"

definition CUDT_getsockname :: "escape \<Rightarrow> int \<Rightarrow> api \<Rightarrow> (int \<times> api) option" where
  "CUDT_getsockname escape u a =
     map_option (\<lambda>r. report False (\<lambda>_. 0) r a)
       (try_body escape (map_option (\<lambda>r. (r, a_United a)) (getsockname u (a_United a))))"

definition getsockopt_body :: "int \<Rightarrow> int \<Rightarrow> optname \<Rightarrow> CUDTUnited \<Rightarrow> ((CUDTException + optval) \<times> CUDTUnited) option" where
  "getsockopt_body state u opt un =
    (case lookup u un of
       Inl e \<Rightarrow> Some (Inl e, un)
     | Inr c \<Rightarrow> map_option (\<lambda>r. (r, un)) (CUDT_getOpt state opt c))"

definition CUDT_getsockopt :: "escape \<Rightarrow> int \<Rightarrow> int \<Rightarrow> optname \<Rightarrow> api \<Rightarrow> (int \<times> api) option" where
  "CUDT_getsockopt escape state u opt a =
     map_option (\<lambda>r. report False (\<lambda>_. 0) r a) (try_body escape (getsockopt_body state u opt (a_United a)))"

definition setsockopt_body :: "int \<Rightarrow> int \<Rightarrow> sockopt \<Rightarrow> CUDTUnited \<Rightarrow> ((CUDTException + unit) \<times> CUDTUnited) option" where
  "setsockopt_body errno u opt un =
    (case lookup u un of
       Inl e \<Rightarrow> Some (Inl e, un)
     | Inr c \<Rightarrow> do {
         r \<leftarrow> CUDT_setOpt errno opt c;
         Some (case r of Inl e \<Rightarrow> (Inl e, un) | Inr c \<Rightarrow> (Inr (), upd_sock u (\<lambda>s. s\<lparr>s_UDT := c\<rparr>) un))
       })"

definition CUDT_setsockopt :: "escape \<Rightarrow> int \<Rightarrow> int \<Rightarrow> sockopt \<Rightarrow> api \<Rightarrow> (int \<times> api) option" where
  "CUDT_setsockopt escape errno u opt a =
     map_option (\<lambda>r. report False (\<lambda>_. 0) r a) (try_body escape (setsockopt_body errno u opt (a_United a)))"

definition perfmon_body ::
    "uint64 \<Rightarrow> bool \<Rightarrow> int \<Rightarrow> bool \<Rightarrow> CUDTUnited \<Rightarrow> ((CUDTException + CPerfMon) \<times> CUDTUnited) option" where
  "perfmon_body us locked u clear un =
    (case lookup u un of
       Inl e \<Rightarrow> Some (Inl e, un)
     | Inr c \<Rightarrow> do {
         r \<leftarrow> CUDT_sample us locked clear c;
         Some (case r of
                 Inl e \<Rightarrow> (Inl e, un)
               | Inr (perf, c) \<Rightarrow> (Inr perf, upd_sock u (\<lambda>s. s\<lparr>s_UDT := c\<rparr>) un))
       })"

definition CUDT_perfmon :: "escape \<Rightarrow> uint64 \<Rightarrow> bool \<Rightarrow> int \<Rightarrow> bool \<Rightarrow> api \<Rightarrow> (int \<times> api) option" where
  "CUDT_perfmon escape us locked u clear a =
     map_option (\<lambda>r. report False (\<lambda>_. 0) r a) (try_body escape (perfmon_body us locked u clear (a_United a)))"

definition CUDT_getsockstate :: "escape \<Rightarrow> int \<Rightarrow> api \<Rightarrow> UDTSTATUS \<times> api" where
  "CUDT_getsockstate escape u a =
    (case escape of
       None \<Rightarrow> (getStatus u (a_United a), a)
     | Some (k, un) \<Rightarrow> (NONEXIST, setErrorCode (- 1) 0 (a\<lparr>a_United := un\<rparr>)))"

section \<open>Messages\<close>

text \<open>A negative result is an error code, \<open>-6001\<close> when there is no room and \<open>-6002\<close> when there are no data.\<close>

definition message_result :: "bool \<Rightarrow> (thrown + int) \<Rightarrow> api \<Rightarrow> int \<times> api" where
  "message_result clause r a =
    (case r of
       Inl x \<Rightarrow> (ERROR, caught clause x a)
     | Inr res \<Rightarrow> if res < 0 then (ERROR, setErrorCode ((- res) div 1000) ((- res) mod 1000) a) else (res, a))"

definition sendmsg_body ::
    "env \<Rightarrow> (CSndBuffer \<Rightarrow> bool) \<Rightarrow> int \<Rightarrow> byte list \<Rightarrow> int \<Rightarrow> int \<Rightarrow> bool \<Rightarrow> CUDTUnited \<Rightarrow>
     ((CUDTException + int) \<times> CUDTUnited) option" where
  "sendmsg_body env mem u buf len ttl inorder un =
    (case lookup u un of
       Inl e \<Rightarrow> Some (Inl e, un)
     | Inr c \<Rightarrow> do {
         (r, c) \<leftarrow> CUDT_sendmsg (e_block env) mem (e_us env) (e_tk env) buf len ttl inorder c;
         un \<leftarrow> put_udt u c un;
         Some (r, un)
       })"

definition CUDT_sendmsg_call ::
    "escape \<Rightarrow> env \<Rightarrow> (CSndBuffer \<Rightarrow> bool) \<Rightarrow> int \<Rightarrow> byte list \<Rightarrow> int \<Rightarrow> int \<Rightarrow> bool \<Rightarrow> api \<Rightarrow> (int \<times> api) option" where
  "CUDT_sendmsg_call escape env mem u buf len ttl inorder a =
     map_option (\<lambda>(r, un). message_result True r (a\<lparr>a_United := un\<rparr>))
       (try_body escape (sendmsg_body env mem u buf len ttl inorder (a_United a)))"

definition socket_pool :: "int \<Rightarrow> CUDTUnited \<Rightarrow> CUnitQueue option" where
  "socket_pool u un =
     Option.bind (un_Obj un u) (\<lambda>s. map_option (\<lambda>m. rq_UnitQueue (mux_RcvQueue m)) (find_mux (s_MuxID s) un))"

definition put_pool :: "int \<Rightarrow> CUnitQueue \<Rightarrow> CUDTUnited \<Rightarrow> CUDTUnited" where
  "put_pool u pool un =
    (case un_Obj un u of
       None \<Rightarrow> un
     | Some s \<Rightarrow> upd_mux (s_MuxID s) (upd_rcv (\<lambda>q. q\<lparr>rq_UnitQueue := pool\<rparr>)) un)"

text \<open>A socket without a multiplexer has no pool; it is not connected and \<open>recvmsg\<close> does not look at the pool.\<close>

definition recvmsg_body :: "int \<Rightarrow> int \<Rightarrow> CUDTUnited \<Rightarrow> ((CUDTException + int \<times> byte list) \<times> CUDTUnited) option" where
  "recvmsg_body u len un =
    (case lookup u un of
       Inl e \<Rightarrow> Some (Inl e, un)
     | Inr c \<Rightarrow> do {
         let pool = (case socket_pool u un of None \<Rightarrow> CUnitQueue_new | Some p \<Rightarrow> p);
         (r, c, pool) \<leftarrow> CUDT_recvmsg len c pool;
         un \<leftarrow> put_udt u c (put_pool u pool un);
         Some (r, un)
       })"

text \<open>The bytes that a call interrupted by an exception may have copied are left out.\<close>

definition CUDT_recvmsg_call :: "escape \<Rightarrow> int \<Rightarrow> int \<Rightarrow> api \<Rightarrow> (int \<times> byte list \<times> api) option" where
  "CUDT_recvmsg_call escape u len a =
     map_option
       (\<lambda>(r, un). let (n, a) = message_result False (map_sum id fst r) (a\<lparr>a_United := un\<rparr>)
                  in (n, case r of Inl x \<Rightarrow> [] | Inr (res, data) \<Rightarrow> data, a))
       (try_body escape (recvmsg_body u len (a_United a)))"

text \<open>The clauses and the result touch the error record only.\<close>

lemma error_united [simp]: "a_United (setError e a) = a_United a" "a_United (setErrorCode x y a) = a_United a"
  by (auto simp: setError_def setErrorCode_def split: option.splits)

lemma caught_united [simp]: "a_United (caught clause x a) = a_United a"
  by (cases "(clause, x, a)" rule: caught.cases) auto

lemma report_unitedD: "report clause v r a = (n, b) \<Longrightarrow> a_United b = snd r"
  by (auto simp: report_def Let_def split: sum.splits)

lemma message_united [simp]: "a_United (snd (message_result clause r a)) = a_United a"
  by (auto simp: message_result_def split: sum.split)

lemma message_unitedD: "message_result clause r a = (n, b) \<Longrightarrow> a_United b = a_United a"
  using message_united [of clause r a] by simp

lemma try_none: "try_body None r = Some (x, un) \<longleftrightarrow> (\<exists>y. r = Some (y, un) \<and> x = map_sum Thrown id y)"
  by (cases r) (auto simp: try_body_def)

section \<open>Calls of a congestion control\<close>

text \<open>A congestion control knows its socket by the handle only. \<open>getUDTHandle\<close> is NULL when there is no such socket.\<close>

definition getUDTHandle :: "int \<Rightarrow> CUDTUnited \<Rightarrow> CUDT option" where
  "getUDTHandle u un = (case lookup u un of Inl e \<Rightarrow> None | Inr c \<Rightarrow> Some c)"

text \<open>\<open>sendCustomMsg\<close> also leaves the peer's id in the packet of the caller. A socket that was never bound has no
  sending queue, and one without a peer no address to send to, which \<open>sendmsg\<close> refuses.\<close>

definition CCC_sendCustomMsg :: "'a CCC_scheme \<Rightarrow> CPacket \<Rightarrow> CUDTUnited \<Rightarrow> (CPacket \<times> CUDTUnited) option" where
  "CCC_sendCustomMsg cc pkt un =
    (case getUDTHandle (m_UDT cc) un of
       None \<Rightarrow> Some (pkt, un)
     | Some u \<Rightarrow>
         let pkt = set_m_iID (u_PeerID u) pkt
         in case Option.bind (un_Obj un (m_UDT cc)) (\<lambda>s. find_mux (s_MuxID s) un) of
              None \<Rightarrow> None
            | Some m \<Rightarrow> Some (pkt, case u_PeerAddr u of None \<Rightarrow> un
                | Some a \<Rightarrow> un\<lparr>un_Net := un_Net un @ [(mux_ID m, a, pkt)]\<rparr>))"

text \<open>\<open>getPerfInfo\<close> takes a sample without clearing the counters; \<open>old\<close> is the content of \<open>m_PerfInfo\<close>, to which the
  result points. \<open>Some None\<close> is the null pointer of the handler, \<open>None\<close> an overflow.\<close>

definition CCC_getPerfInfo :: "uint64 \<Rightarrow> bool \<Rightarrow> CPerfMon \<Rightarrow> 'a CCC_scheme \<Rightarrow> CUDTUnited \<Rightarrow> CPerfMon option option" where
  "CCC_getPerfInfo us locked old cc un =
    (case getUDTHandle (m_UDT cc) un of
       None \<Rightarrow> Some (Some old)
     | Some u \<Rightarrow>
         map_option (\<lambda>r. case r of Inl e \<Rightarrow> None | Inr (perf, _) \<Rightarrow> Some perf) (CUDT_sample us locked False u))"

text \<open>A custom message of a live socket is the next packet of its multiplexer, addressed to the peer.\<close>

lemma sendCustomMsg_sends:
  assumes "locate (m_UDT cc) un = Some s" "find_mux (s_MuxID s) un = Some m" "u_PeerAddr (s_UDT s) = Some a"
  shows "CCC_sendCustomMsg cc pkt un =
    Some (set_m_iID (u_PeerID (s_UDT s)) pkt,
      un\<lparr>un_Net := un_Net un @ [(mux_ID m, a, set_m_iID (u_PeerID (s_UDT s)) pkt)]\<rparr>)"
proof -
  have "un_Obj un (m_UDT cc) = Some s"
    using assms(1) by (auto simp: locate_def split: if_splits option.splits)
  then show ?thesis
    using assms by (simp add: CCC_sendCustomMsg_def getUDTHandle_def lookup_def Let_def)
qed

text \<open>The statistics are those of a connection that is alive, or none: the handle of a socket that is gone gives the
  old values, a socket that is not connected or broken gives NULL.\<close>

lemma getPerfInfo_null:
  "CCC_getPerfInfo us locked old cc un = Some None \<longleftrightarrow>
     (\<exists>u. getUDTHandle (m_UDT cc) un = Some u \<and> (\<not> u_Connected u \<or> u_Broken u \<or> u_Closing u))"
  by (auto simp: CCC_getPerfInfo_def CUDT_sample_def Let_def split: option.splits bind_splits)

end
