(* ===== verification/Workers.thy ===== *)
theory Workers imports Api Channel begin

text \<open>
  One turn of the two threads of a multiplexer, \<open>CSndQueue::worker\<close> and \<open>CRcvQueue::worker\<close>
  (\<open>queue.cpp\<close>), over the state of all sockets. What comes from outside in a turn is the
  environment, the datagram that the channel delivers, the name of an address, the MD5 digest and
  the random numbers of the congestion control.
\<close>

section \<open>Sending\<close>

definition sendable :: "CUDTUnited option \<Rightarrow> int \<Rightarrow> bool" where
  "sendable c u =
    (case Option.bind c (\<lambda>un. un_Obj un u) of
       None \<Rightarrow> False
     | Some s \<Rightarrow> u_Connected (s_UDT s) \<and> \<not> u_Broken (s_UDT s))"

definition pack_for :: "env \<Rightarrow> CUDTUnited option \<Rightarrow> int \<Rightarrow> uint64 \<Rightarrow> (int \<times> CPacket \<times> uint64) \<times> CUDTUnited option" where
  "pack_for env c u now =
    (case Option.bind c (\<lambda>un. map_option (Pair un) (un_Obj un u)) of
       None \<Rightarrow> ((0, CPacket_new, 0), None)
     | Some (un, s) \<Rightarrow>
         case CUDT_packData (e_us env) now CPacket_new 0 (s_UDT s) of
           None \<Rightarrow> ((0, CPacket_new, 0), None)
         | Some (n, p, ts, c) \<Rightarrow> ((n, p, ts), put_udt u c un))"

text \<open>The turn after the timer has slept; without a socket on the list the thread waits.\<close>

definition CSndQueue_turn :: "env \<Rightarrow> int \<Rightarrow> CUDTUnited \<Rightarrow> CUDTUnited option" where
  "CSndQueue_turn env m un =
    (case find_mux m un of
       None \<Rightarrow> None
     | Some x \<Rightarrow>
         if CSndUList_getNextProcTime (mux_SndUList x) = 0 then Some un
         else
           let (r, c, l) = CSndUList_pop (e_tk env) sendable (pack_for env) (Some un) (mux_SndUList x) in do {
             un \<leftarrow> c;
             let un = upd_mux m (upd_snd (\<lambda>_. l)) un;
             case r of
               None \<Rightarrow> Some un
             | Some (u, p) \<Rightarrow> do {
                 s \<leftarrow> un_Obj un u;
                 a \<leftarrow> u_PeerAddr (s_UDT s);
                 Some (un\<lparr>un_Net := un_Net un @ [(m, a, p)]\<rparr>)
               }
           })"

section \<open>Receiving\<close>

record rcv_io =
  io_datagram :: "(sockaddr \<times> byte list) option"
  io_getnameinfo :: "sockaddr \<Rightarrow> string \<times> string"
  io_md5 :: "string \<Rightarrow> byte list"
  io_rand :: "int32 \<Rightarrow> real"

text \<open>The new sockets enter the list and the hash table.\<close>

function admit_new :: "uint64 \<Rightarrow> CRcvQueue \<Rightarrow> CRcvQueue" where
  "admit_new tk q =
    (if CRcvQueue_ifNewEntry q then
       case CRcvQueue_getNewEntry q of
         (None, q) \<Rightarrow> q
       | (Some u, q) \<Rightarrow> admit_new tk (q\<lparr>rq_UList := CRcvUList_insert tk u (rq_UList q), rq_Hash := CHash_insert u u (rq_Hash q)\<rparr>)
     else q)"
  by auto
termination
  by (relation "measure (\<lambda>(tk, q). length (rq_NewEntry q))")
    (auto simp: CRcvQueue_getNewEntry_def split: list.splits)

declare admit_new.simps [simp del]

definition mux_pool :: "int \<Rightarrow> CUDTUnited \<Rightarrow> CUnitQueue" where
  "mux_pool m un = rq_UnitQueue (mux_RcvQueue (the (find_mux m un)))"

definition set_mux_pool :: "int \<Rightarrow> CUnitQueue \<Rightarrow> CUDTUnited \<Rightarrow> CUDTUnited" where
  "set_mux_pool m pool = upd_mux m (upd_rcv (\<lambda>q. q\<lparr>rq_UnitQueue := pool\<rparr>))"

definition touch :: "env \<Rightarrow> int \<Rightarrow> int \<Rightarrow> CUDTUnited \<Rightarrow> CUDTUnited" where
  "touch env m u = upd_mux m (upd_rcv (\<lambda>q. q\<lparr>rq_UList := CRcvUList_update (e_tk env) u (rq_UList q)\<rparr>))"

definition alive :: "CUDT \<Rightarrow> bool" where
  "alive c \<longleftrightarrow> u_Connected c \<and> \<not> u_Broken c \<and> \<not> u_Closing c"

text \<open>\<open>checkTimers\<close> of the socket \<open>u\<close>.\<close>

definition socket_timers :: "env \<Rightarrow> int \<Rightarrow> CUDTUnited \<Rightarrow> CUDTUnited option" where
  "socket_timers env u un = do {
     s \<leftarrow> un_Obj un u;
     c \<leftarrow> CUDT_checkTimers (e_us env) (e_tk env) (s_UDT s);
     put_udt u c un
   }"

text \<open>A packet for the connected socket \<open>u\<close>.\<close>

definition socket_packet :: "env \<Rightarrow> rcv_io \<Rightarrow> int \<Rightarrow> int \<Rightarrow> sockaddr \<Rightarrow> unit_ref \<Rightarrow> CUDTUnited \<Rightarrow> CUDTUnited option" where
  "socket_packet env io m u addr unit un = do {
     s \<leftarrow> un_Obj un u;
     peer \<leftarrow> u_PeerAddr (s_UDT s);
     if \<not> (ipcmp addr peer (u_IPversion (s_UDT s)) \<and> alive (s_UDT s)) then Some un
     else do {
       let pool = mux_pool m un;
       let p = m_Packet (unit_at pool unit);
       (c, pool) \<leftarrow> (if 0 = getFlag p
                      then map_option (\<lambda>(r, c, pool). (c, pool)) (CUDT_processData (e_us env) (e_tk env) unit (s_UDT s) pool)
                      else CUDT_processCtrl (io_rand io) (e_us env) (e_tk env) p (s_UDT s) pool);
       un \<leftarrow> put_udt u c (set_mux_pool m pool un);
       un \<leftarrow> socket_timers env u un;
       Some (touch env m u un)
     }
   }"

text \<open>A packet for a socket that is connecting.\<close>

definition connecting_packet :: "env \<Rightarrow> int \<Rightarrow> int32 \<Rightarrow> int \<Rightarrow> CPacket \<Rightarrow> CUDTUnited \<Rightarrow> CUDTUnited option" where
  "connecting_packet env m i u p un = do {
     s \<leftarrow> un_Obj un u;
     if \<not> u_SynConnect (s_UDT s) then do {
       (_, c) \<leftarrow> CUDT_connect_response (e_block env) (e_mem env) (e_us env) (un_Cache un) p (s_UDT s);
       put_udt u c un
     }
     else Some (upd_mux m (upd_rcv (CRcvQueue_storePkt i p)) un)
   }"

definition listener_packet :: "env \<Rightarrow> rcv_io \<Rightarrow> int \<Rightarrow> sockaddr \<Rightarrow> CPacket \<Rightarrow> CUDTUnited \<Rightarrow> CUDTUnited option" where
  "listener_packet env io l addr p un = do {
     s \<leftarrow> un_Obj un l;
     case listen_check (io_getnameinfo io) (io_md5 io) (e_us env) addr p (s_UDT s) of
       Inl (_, c) \<Rightarrow> put_udt l c un
     | Inr hs \<Rightarrow> do {
         ((result, hs'), un) \<leftarrow> newConnection env l addr hs un;
         s \<leftarrow> un_Obj un l;
         put_udt l (snd (listen_finish (m_iHsID hs) addr p result hs' (s_UDT s))) un
       }
   }"

definition dispatch :: "env \<Rightarrow> rcv_io \<Rightarrow> int \<Rightarrow> sockaddr \<Rightarrow> unit_ref \<Rightarrow> CUDTUnited \<Rightarrow> CUDTUnited option" where
  "dispatch env io m addr unit un = do {
     x \<leftarrow> find_mux m un;
     let q = mux_RcvQueue x;
     let p = m_Packet (unit_at (rq_UnitQueue q) unit);
     let i = m_iID p;
     let connecting = (case CRendezvousQueue_retrieve addr i (rq_Rendezvous q) of
                         (Some u, i) \<Rightarrow> connecting_packet env m i u p un
                       | (None, _) \<Rightarrow> Some un);
     if 0 = i then
       case rq_Listener q of Some l \<Rightarrow> listener_packet env io l addr p un | None \<Rightarrow> connecting
     else if i > 0 then
       case CHash_lookup i (rq_Hash q) of Some u \<Rightarrow> socket_packet env io m u addr unit un | None \<Rightarrow> connecting
     else Some un
   }"

definition receive_packet :: "env \<Rightarrow> rcv_io \<Rightarrow> int \<Rightarrow> CUDTUnited \<Rightarrow> CUDTUnited option" where
  "receive_packet env io m un =
    (case CUnitQueue_getNextAvailUnit (e_units env) (mux_pool m un) of
       (None, pool) \<Rightarrow> Some (set_mux_pool m pool un)
     | (Some unit, pool) \<Rightarrow>
         let payload = rq_PayloadSize (mux_RcvQueue (the (find_mux m un)));
             (n, p) = CChannel_recvfrom (map_option snd (io_datagram io)) (setLength payload (m_Packet (unit_at pool unit)));
             un = set_mux_pool m (set_packet unit p pool) un
         in if n < 0 then Some un else dispatch env io m (fst (the (io_datagram io))) unit un)"

text \<open>The sockets that have not been heard of for 100 ms; \<open>None\<close> also when the loop does not end.\<close>

definition leave_queue :: "int \<Rightarrow> CRcvQueue \<Rightarrow> CRcvQueue" where
  "leave_queue u q =
     q\<lparr>rq_Hash := CHash_remove u (rq_Hash q), rq_UList := set_on_list u False (CRcvUList_remove u (rq_UList q))\<rparr>"

definition timer_turn :: "env \<Rightarrow> int \<Rightarrow> int \<Rightarrow> CUDTUnited \<Rightarrow> CUDTUnited option" where
  "timer_turn env m u un = do {
     s \<leftarrow> un_Obj un u;
     if alive (s_UDT s) then map_option (touch env m u) (socket_timers env u un)
     else Some (upd_mux m (upd_rcv (leave_queue u)) un)
   }"

definition first_due :: "env \<Rightarrow> int \<Rightarrow> CUDTUnited \<Rightarrow> int option" where
  "first_due env m un =
    (case find_mux m un of
       None \<Rightarrow> None
     | Some x \<Rightarrow>
         let l = rq_UList (mux_RcvQueue x)
         in case ru_First l of
              None \<Rightarrow> None
            | Some u \<Rightarrow> if rn_TimeStamp (ru_Node l u) < e_tk env - 100000 * e_cpu env then Some u else None)"

partial_function (option) timer_check :: "env \<Rightarrow> int \<Rightarrow> CUDTUnited \<Rightarrow> CUDTUnited option" where
  "timer_check env m un =
    (case first_due env m un of
       None \<Rightarrow> Some un
     | Some u \<Rightarrow> Option.bind (timer_turn env m u un) (timer_check env m))"

text \<open>\<open>updateConnStatus\<close> on the sockets that are connecting.\<close>

definition conn_view :: "CUDT \<Rightarrow> connecting" where
  "conn_view c = \<lparr>cv_LastReqTime = u_LastReqTime c, cv_Connecting = u_Connecting c, cv_PayloadSize = u_PayloadSize c,
     cv_Rendezvous = u_Rendezvous c, cv_ResID = m_iHsID (u_ConnRes c), cv_ConnReq = u_ConnReq c\<rparr>"

definition put_view :: "connecting \<Rightarrow> CUDT \<Rightarrow> CUDT" where
  "put_view v c = c\<lparr>u_LastReqTime := cv_LastReqTime v, u_Connecting := cv_Connecting v\<rparr>"

definition conn_views :: "CUDTUnited \<Rightarrow> int \<Rightarrow> connecting" where
  "conn_views un u = conn_view (s_UDT (the (un_Obj un u)))"

definition update_connections :: "env \<Rightarrow> int \<Rightarrow> CUDTUnited \<Rightarrow> CUDTUnited option" where
  "update_connections env m un = do {
     x \<leftarrow> find_mux m un;
     let rs = rq_Rendezvous (mux_RcvQueue x);
     if \<exists>r\<in>set rs. un_Obj un (r_UDT r) = None then None
     else
       let st = CRendezvousQueue_updateConnStatus (e_us env) rs
                  \<lparr>cs_View = conn_views un, cs_Sent = [], cs_Epoll = []\<rparr>;
           un = fold (\<lambda>r. upd_sock (r_UDT r) (\<lambda>s. s\<lparr>s_UDT := put_view (cs_View st (r_UDT r)) (s_UDT s)\<rparr>)) rs un;
           un = un\<lparr>un_Net := un_Net un @ map (\<lambda>(a, p). (m, a, p)) (rev (cs_Sent st))\<rparr>
       in Some (fold (\<lambda>i. poll (Update i (UDT_EPOLL_IN + UDT_EPOLL_OUT) True)) (rev (cs_Epoll st)) un)
   }"

definition CRcvQueue_turn :: "env \<Rightarrow> rcv_io \<Rightarrow> int \<Rightarrow> CUDTUnited \<Rightarrow> CUDTUnited option" where
  "CRcvQueue_turn env io m un = do {
     un \<leftarrow> receive_packet env io m (upd_mux m (upd_rcv (admit_new (e_tk env))) un);
     un \<leftarrow> timer_check env m un;
     update_connections env m un
   }"

end
