(* ===== verification/UnitedFrame.thy ===== *)
theory UnitedFrame imports Workers begin

text \<open>
  What the operations of a single socket leave alone in the state of all sockets: the tables, the ids,
  the reference counts of the multiplexers and who waits for \<open>accept\<close>.
\<close>

definition mux_core :: "CMultiplexer \<Rightarrow> int \<times> int \<times> int \<times> int \<times> int \<times> bool" where
  "mux_core x = (mux_ID x, mux_RefCount x, mux_Port x, mux_IPversion x, mux_MSS x, mux_Reusable x)"

definition same_sock :: "CUDTSocket \<Rightarrow> CUDTSocket \<Rightarrow> bool" where
  "same_sock s t \<longleftrightarrow> s_SocketID t = s_SocketID s \<and> s_MuxID t = s_MuxID s \<and> s_ListenSocket t = s_ListenSocket s \<and>
     s_QueuedSockets t = s_QueuedSockets s \<and> s_AcceptSockets t = s_AcceptSockets s \<and> s_BackLog t = s_BackLog s \<and>
     s_PeerID t = s_PeerID s \<and> s_ISN t = s_ISN s \<and> s_IsExpiring t = s_IsExpiring s \<and> s_TimeStamp t = s_TimeStamp s \<and>
     s_PeerAddr t = s_PeerAddr s \<and> s_IPversion t = s_IPversion s \<and>
     (s_Status t = s_Status s \<or> s_Status s \<noteq> CLOSED \<and> s_Status t = CONNECTED)"

definition frame :: "CUDTUnited \<Rightarrow> CUDTUnited \<Rightarrow> bool" where
  "frame un vn \<longleftrightarrow> un_Sockets vn = un_Sockets un \<and> un_Closed vn = un_Closed un \<and> un_SocketID vn = un_SocketID un \<and>
     un_PeerRec vn = un_PeerRec un \<and> map mux_core (un_Mux vn) = map mux_core (un_Mux un) \<and>
     (\<forall>i. rel_option same_sock (un_Obj un i) (un_Obj vn i))"

named_theorems frame_intros

lemma same_sock_refl [simp]: "same_sock s s"
  by (simp add: same_sock_def)

lemma same_sock_trans: "same_sock s t \<Longrightarrow> same_sock t u \<Longrightarrow> same_sock s u"
  by (auto simp: same_sock_def)

lemma frame_refl [simp, frame_intros]: "frame un un"
  by (simp add: frame_def option.rel_refl)

lemma frame_trans:
  assumes "frame un vn" "frame vn wn"
  shows "frame un wn"
proof -
  have "transp same_sock" by (auto intro: transpI same_sock_trans)
  then have t: "rel_option same_sock x y \<Longrightarrow> rel_option same_sock y z \<Longrightarrow> rel_option same_sock x z" for x y z
    by (blast dest: option.rel_transp transpD)
  show ?thesis using assms by (auto simp: frame_def intro: t)
qed

lemma frame_upd_mux [frame_intros]:
  "(\<And>x. mux_core (f x) = mux_core x) \<Longrightarrow> frame un (upd_mux m f un)"
  by (simp add: frame_def upd_mux_def option.rel_refl comp_def if_distrib cong: if_cong)

lemma core_upd [simp]: "mux_core (upd_rcv f x) = mux_core x" "mux_core (upd_snd g x) = mux_core x"
  by (simp_all add: mux_core_def upd_rcv_def upd_snd_def)

lemma frame_upd_sock [frame_intros]:
  "(\<And>s. un_Obj un i = Some s \<Longrightarrow> same_sock s (f s)) \<Longrightarrow> frame un (upd_sock i f un)"
  by (cases "un_Obj un i") (auto simp: frame_def upd_sock_def option.rel_refl)

lemma frame_poll [frame_intros]: "frame un (poll c un)"
  by (simp add: frame_def poll_def option.rel_refl)

lemma frame_net [frame_intros]: "frame un (un\<lparr>un_Net := n\<rparr>)" "frame un (un\<lparr>un_Cache := c\<rparr>)"
  by (simp_all add: frame_def option.rel_refl)

lemma frame_connect_complete: "connect_complete u un = Some vn \<Longrightarrow> frame un vn"
  by (auto simp: connect_complete_def locate_def same_sock_def split: option.splits if_splits intro!: frame_upd_sock)

lemma frame_effect: "apply_effect i m ipv e un = Some vn \<Longrightarrow> frame un vn"
  by (cases e) (auto intro: frame_intros frame_connect_complete)

lemma frame_effects: "apply_effects i m ipv es un = Some vn \<Longrightarrow> frame un vn"
proof (induction es arbitrary: un)
  case (Cons e es)
  then obtain wn where "apply_effect i m ipv e un = Some wn" "apply_effects i m ipv es wn = Some vn"
    by (auto split: bind_splits)
  then show ?case using Cons.IH by (blast intro: frame_trans frame_effect)
qed simp

lemma frame_put_udt:
  assumes "put_udt i u un = Some vn"
  shows "frame un vn"
proof -
  obtain s :: CUDTSocket where "apply_effects i (s_MuxID s) (s_IPversion s) (u_Out u) (upd_sock i (\<lambda>s. s\<lparr>s_UDT := u\<lparr>u_Out := []\<rparr>\<rparr>) un) = Some vn"
    using assms by (auto simp: put_udt_def split: option.splits)
  moreover have "frame un (upd_sock i (\<lambda>s. s\<lparr>s_UDT := u\<lparr>u_Out := []\<rparr>\<rparr>) un)"
    by (rule frame_upd_sock) (simp add: same_sock_def)
  ultimately show ?thesis by (blast intro: frame_trans frame_effects)
qed

lemma frame_close_udt:
  assumes "close_udt env i un = Some vn"
  shows "frame un vn"
proof -
  obtain u c where "put_udt i u (un\<lparr>un_Cache := c\<rparr>) = Some vn"
    using assms by (auto simp: close_udt_def split: option.splits bind_splits)
  then show ?thesis by (blast intro: frame_trans frame_net(2) frame_put_udt)
qed

text \<open>The socket is left in the state it was put in.\<close>

lemma effect_udt: "apply_effect i m ipv e un = Some vn \<Longrightarrow> map_option s_UDT (un_Obj vn j) = map_option s_UDT (un_Obj un j)"
  by (cases e) (auto simp: upd_mux_def poll_def connect_complete_def upd_sock_def option.map_comp comp_def split: option.splits)

lemma effects_udt: "apply_effects i m ipv es un = Some vn \<Longrightarrow> map_option s_UDT (un_Obj vn j) = map_option s_UDT (un_Obj un j)"
proof (induction es arbitrary: un)
  case (Cons e es)
  then obtain wn where "apply_effect i m ipv e un = Some wn" "apply_effects i m ipv es wn = Some vn"
    by (auto split: bind_splits)
  then show ?case using Cons.IH effect_udt by metis
qed simp

lemma put_udt_result:
  assumes "put_udt i u un = Some vn"
  shows "\<exists>s. un_Obj vn i = Some s \<and> s_UDT s = u\<lparr>u_Out := []\<rparr>"
proof -
  obtain s :: CUDTSocket where s: "un_Obj un i = Some s"
    "apply_effects i (s_MuxID s) (s_IPversion s) (u_Out u) (upd_sock i (\<lambda>s. s\<lparr>s_UDT := u\<lparr>u_Out := []\<rparr>\<rparr>) un) = Some vn"
    using assms by (auto simp: put_udt_def split: option.splits)
  have "map_option s_UDT (un_Obj vn i) = Some (u\<lparr>u_Out := []\<rparr>)"
    using effects_udt [OF s(2), of i] s(1) by (simp add: upd_sock_def)
  then show ?thesis by auto
qed

section \<open>The threads\<close>

lemma frame_fold: "(\<And>x un. frame un (f x un)) \<Longrightarrow> frame un (fold f xs un)"
  by (induction xs arbitrary: un) (auto intro: frame_trans)

lemma frame_set_mux_pool [frame_intros]: "frame un (set_mux_pool m pool un)"
  by (simp add: set_mux_pool_def frame_upd_mux)

lemma frame_touch [frame_intros]: "frame un (touch env m u un)"
  by (simp add: touch_def frame_upd_mux)

lemma frame_socket_timers: "socket_timers env u un = Some vn \<Longrightarrow> frame un vn"
  by (auto simp: socket_timers_def split: bind_splits intro: frame_put_udt)

lemma frame_timer_turn: "timer_turn env m u un = Some vn \<Longrightarrow> frame un vn"
  by (auto simp: timer_turn_def split: bind_splits if_splits
      intro!: frame_upd_mux intro: frame_trans [OF frame_socket_timers frame_touch])

lemma frame_timer_check:
  assumes "timer_check env m un = Some vn"
  shows "frame un vn"
proof (rule timer_check.raw_induct [where P = "\<lambda>env m un vn. frame un vn", OF _ assms])
  fix tc env m un vn
  assume IH: "\<And>env m un vn. tc env m un = Some vn \<Longrightarrow> frame un vn"
    and r: "(case first_due env m un of None \<Rightarrow> Some un | Some u \<Rightarrow> Option.bind (timer_turn env m u un) (tc env m)) = Some vn"
  show "frame un vn"
  proof (cases "first_due env m un")
    case (Some u)
    then obtain wn where "timer_turn env m u un = Some wn" "tc env m wn = Some vn"
      using r by (cases "timer_turn env m u un") auto
    then show ?thesis by (blast intro: frame_trans frame_timer_turn IH)
  qed (use r in simp)
qed

lemma frame_pack_for: "snd (pack_for env c u now) = Some vn \<Longrightarrow> \<exists>un. c = Some un \<and> frame un vn"
  by (auto simp: pack_for_def split: option.splits bind_splits prod.splits intro: frame_put_udt)

lemma pop_context:
  assumes "CSndUList_pop now ok (pack_for env) (Some un) l = (r, Some vn, l')"
  shows "frame un vn"
  using assms frame_pack_for [of env "Some un" "heap_at l 0" now]
  by (auto simp: CSndUList_pop_def Let_def split: if_splits prod.splits)

lemma frame_snd_turn: "CSndQueue_turn env m un = Some vn \<Longrightarrow> frame un vn"
  by (auto simp: CSndQueue_turn_def Let_def split: option.splits if_splits prod.splits bind_splits
      dest!: pop_context intro: frame_trans [OF _ frame_trans [OF frame_upd_mux frame_net(1)]] frame_trans [OF _ frame_upd_mux])

lemma frame_socket_packet: "socket_packet env io m u addr unit un = Some vn \<Longrightarrow> frame un vn"
  by (auto simp: socket_packet_def Let_def split: bind_splits if_splits
      intro: frame_trans [OF frame_set_mux_pool frame_trans [OF frame_put_udt frame_trans [OF frame_socket_timers frame_touch]]])

lemma frame_connecting_packet: "connecting_packet env m i u p un = Some vn \<Longrightarrow> frame un vn"
  by (auto simp: connecting_packet_def split: bind_splits if_splits intro: frame_put_udt frame_upd_mux)

lemma frame_update_connections: "update_connections env m un = Some vn \<Longrightarrow> frame un vn"
  by (auto simp: update_connections_def Let_def same_sock_def split: bind_splits if_splits
      intro!: frame_trans [OF frame_trans [OF frame_fold frame_net(1)] frame_fold] intro: frame_intros)

end
