(* ===== verification/UnitedMux.thy ===== *)
theory UnitedMux imports UnitedFrame begin

text \<open>
  The multiplexers outlive their sockets: an invariant of every operation of the library and of the
  turns of its threads, stated over the step relation of the whole system.
\<close>

section \<open>The system\<close>

text \<open>One operation of an application or one turn of a thread. A reading of the sockets changes nothing and
  is left out, and so is an operation that an exception other than \<open>CUDTException\<close> interrupts.\<close>

inductive united_step :: "CUDTUnited \<Rightarrow> CUDTUnited \<Rightarrow> bool" where
  step_startup: "united_step un (snd (snd (CUDTUnited_startup un)))"
| step_cleanup: "united_step un (snd (snd (CUDTUnited_cleanup un)))"
| step_socket: "newSocket env af type un = (r, vn) \<Longrightarrow> united_step un vn"
| step_bind: "bind env u name namelen un = (r, vn) \<Longrightarrow> united_step un vn"
| step_listen: "listen u backlog un = Some (r, vn) \<Longrightarrow> united_step un vn"
| step_accept: "accept u want un = Some (r, vn) \<Longrightarrow> united_step un vn"
| step_connect: "connect env u name namelen turns un = Some (r, vn) \<Longrightarrow> united_step un vn"
| step_close: "close env u un = Some (r, vn) \<Longrightarrow> united_step un vn"
| step_setopt: "CUDT_setsockopt None errno u opt (a\<lparr>a_United := un\<rparr>) = Some (r, b) \<Longrightarrow> united_step un (a_United b)"
| step_send: "CUDT_sendmsg_call None env mem u buf len ttl inorder (a\<lparr>a_United := un\<rparr>) = Some (r, b) \<Longrightarrow>
    united_step un (a_United b)"
| step_recv: "CUDT_recvmsg_call None u len (a\<lparr>a_United := un\<rparr>) = Some (r, data, b) \<Longrightarrow> united_step un (a_United b)"
| step_perfmon: "CUDT_perfmon None us locked u clear (a\<lparr>a_United := un\<rparr>) = Some (r, b) \<Longrightarrow> united_step un (a_United b)"
| step_check: "checkBrokenSockets env un = Some vn \<Longrightarrow> united_step un vn"
| step_collect: "garbageCollect_end env envs un = Some vn \<Longrightarrow> united_step un vn"
| step_sender: "CSndQueue_turn env m un = Some vn \<Longrightarrow> united_step un vn"
| step_receiver: "CRcvQueue_turn env io m un = Some vn \<Longrightarrow> united_step un vn"

inductive united_reachable :: "CUDTUnited \<Rightarrow> bool" where
  reach_new: "united_reachable (CUDTUnited_new rnd)"
| reach_step: "united_reachable un \<Longrightarrow> united_step un vn \<Longrightarrow> united_reachable vn"

section \<open>The invariant\<close>

definition users :: "int \<Rightarrow> CUDTUnited \<Rightarrow> int set" where
  "users m un = {i. \<exists>s. un_Obj un i = Some s \<and> s_MuxID s = m}"

definition mux_ids :: "CUDTUnited \<Rightarrow> int list" where
  "mux_ids un = map mux_ID (un_Mux un)"

text \<open>For every socket but those of \<open>X\<close>, which are being set up, \<open>INIT\<close> means to have no multiplexer.\<close>

definition sock_ok :: "int set \<Rightarrow> CUDTUnited \<Rightarrow> int \<Rightarrow> CUDTSocket \<Rightarrow> bool" where
  "sock_ok X un i s \<longleftrightarrow> s_SocketID s = i \<and> un_SocketID un \<le> i \<and>
     (s_MuxID s \<noteq> - 1 \<longrightarrow> s_MuxID s \<in> set (mux_ids un)) \<and>
     (s_Status s = INIT \<and> i \<notin> X \<longrightarrow> s_MuxID s = - 1 \<and> i \<notin> set (mux_ids un))"

definition mux_inv :: "int set \<Rightarrow> CUDTUnited \<Rightarrow> bool" where
  "mux_inv X un \<longleftrightarrow> distinct (mux_ids un) \<and> (\<forall>m\<in>set (mux_ids un). un_SocketID un \<le> m) \<and> finite (dom (un_Obj un)) \<and>
     (\<forall>i s. un_Obj un i = Some s \<longrightarrow> sock_ok X un i s) \<and>
     (\<forall>x\<in>set (un_Mux un). mux_ID x \<noteq> - 1 \<longrightarrow> int (card (users (mux_ID x) un)) \<le> mux_RefCount x)"

lemma mux_inv_new: "mux_inv {} (CUDTUnited_new rnd)"
  by (simp add: mux_inv_def CUDTUnited_new_def mux_ids_def)

text \<open>It reads the objects, the multiplexers' ids and counts and the counter.\<close>

lemma mux_inv_cong:
  assumes "un_Obj vn = un_Obj un" "un_Mux vn = un_Mux un" "un_SocketID vn = un_SocketID un"
  shows "mux_inv X vn = mux_inv X un"
  using assms by (simp add: mux_inv_def sock_ok_def mux_ids_def users_def)

lemma mux_inv_other [simp]:
  "mux_inv X (un\<lparr>un_Sockets := a\<rparr>) = mux_inv X un" "mux_inv X (un\<lparr>un_Closed := b\<rparr>) = mux_inv X un"
  "mux_inv X (un\<lparr>un_PeerRec := c\<rparr>) = mux_inv X un" "mux_inv X (un\<lparr>un_Cache := d\<rparr>) = mux_inv X un"
  "mux_inv X (un\<lparr>un_InstanceCount := e\<rparr>) = mux_inv X un" "mux_inv X (un\<lparr>un_GCStatus := f\<rparr>) = mux_inv X un"
  "mux_inv X (un\<lparr>un_Events := g\<rparr>) = mux_inv X un" "mux_inv X (un\<lparr>un_Net := h\<rparr>) = mux_inv X un"
  "mux_inv X (poll p un) = mux_inv X un"
  by (rule mux_inv_cong; simp add: poll_def)+

lemma mux_inv_mono: "mux_inv X un \<Longrightarrow> X \<subseteq> Y \<Longrightarrow> mux_inv Y un"
  by (auto simp: mux_inv_def sock_ok_def)

lemma frame_facts:
  assumes "frame un vn"
  shows "mux_ids vn = mux_ids un" "un_SocketID vn = un_SocketID un" "dom (un_Obj vn) = dom (un_Obj un)"
    "users m vn = users m un"
    and "un_Obj vn i = Some t \<Longrightarrow> \<exists>s. un_Obj un i = Some s \<and> same_sock s t"
    and "x \<in> set (un_Mux vn) \<Longrightarrow> \<exists>y\<in>set (un_Mux un). mux_core y = mux_core x"
proof -
  have r: "rel_option same_sock (un_Obj un i) (un_Obj vn i)" for i using assms by (simp add: frame_def)
  have c: "map mux_core (un_Mux vn) = map mux_core (un_Mux un)" using assms by (simp add: frame_def)
  have "map fst (map mux_core (un_Mux vn)) = map fst (map mux_core (un_Mux un))" unfolding c ..
  then show "mux_ids vn = mux_ids un" by (simp add: mux_ids_def mux_core_def comp_def)
  show "un_SocketID vn = un_SocketID un" using assms by (simp add: frame_def)
  have "un_Obj vn i = None \<longleftrightarrow> un_Obj un i = None" for i using r [of i] by (auto elim: option.rel_cases)
  then show "dom (un_Obj vn) = dom (un_Obj un)" by (simp add: dom_def)
  have "(\<exists>s. un_Obj vn i = Some s \<and> s_MuxID s = m) \<longleftrightarrow> (\<exists>s. un_Obj un i = Some s \<and> s_MuxID s = m)" for i
    using r [of i] by (auto elim!: option.rel_cases simp: same_sock_def)
  then show "users m vn = users m un" by (simp add: users_def)
  show "un_Obj vn i = Some t \<Longrightarrow> \<exists>s. un_Obj un i = Some s \<and> same_sock s t"
    using r [of i] by (auto elim: option.rel_cases)
  show "x \<in> set (un_Mux vn) \<Longrightarrow> \<exists>y\<in>set (un_Mux un). mux_core y = mux_core x"
    using arg_cong [OF c, of set] unfolding list.set_map by (metis imageE imageI)
qed

lemma mux_inv_frame:
  assumes f: "frame un vn" and inv: "mux_inv X un"
  shows "mux_inv X vn"
proof -
  note e = frame_facts [OF f]
  have "sock_ok X vn i t" if "un_Obj vn i = Some t" for i t
    using e(5) [OF that] inv by (auto simp: mux_inv_def sock_ok_def same_sock_def e)
  moreover have "int (card (users (mux_ID x) vn)) \<le> mux_RefCount x" if "x \<in> set (un_Mux vn)" "mux_ID x \<noteq> - 1" for x
    using e(6) [OF that(1)] that(2) inv by (auto simp: mux_inv_def mux_core_def e)
  ultimately show ?thesis using inv by (simp add: mux_inv_def e(1-3))
qed

lemma mux_inv_sock:
  assumes inv: "mux_inv X un"
    and "\<And>s. un_Obj un i = Some s \<Longrightarrow> s_SocketID (f s) = s_SocketID s \<and> s_MuxID (f s) = s_MuxID s \<and>
      (s_Status (f s) = INIT \<longrightarrow> s_Status s = INIT)"
  shows "mux_inv X (upd_sock i f un)"
proof (cases "un_Obj un i")
  case None
  then show ?thesis using inv mux_inv_cong [of "upd_sock i f un" un X] by (simp add: upd_sock_def fun_upd_idem)
next
  case (Some s)
  let ?v = "upd_sock i f un"
  note c = assms(2) [OF Some]
  have o: "un_Obj ?v = (un_Obj un)(i \<mapsto> f s)" "un_Mux ?v = un_Mux un" "un_SocketID ?v = un_SocketID un" "mux_ids ?v = mux_ids un"
    using Some by (simp_all add: upd_sock_def mux_ids_def)
  have "users m ?v = users m un" for m using c Some by (auto simp: users_def o)
  moreover have "dom (un_Obj ?v) = dom (un_Obj un)" using Some by (auto simp: o)
  moreover have "sock_ok X ?v j t" if "un_Obj ?v j = Some t" for j t
  proof (cases "j = i")
    case True
    have "sock_ok X un i s" using inv Some by (simp add: mux_inv_def)
    then show ?thesis using True that c by (auto simp: sock_ok_def o)
  next
    case False
    then have "sock_ok X un j t" using inv that by (simp add: mux_inv_def o)
    then show ?thesis by (simp add: sock_ok_def o)
  qed
  ultimately show ?thesis using inv by (simp add: mux_inv_def o)
qed

section \<open>New sockets and new users\<close>

lemma mux_inv_add:
  assumes inv: "mux_inv X un" and i: "i = un_SocketID un - 1"
    and s: "s_SocketID s = i" "s_MuxID s = - 1"
  shows "mux_inv X (un\<lparr>un_SocketID := i, un_Obj := (un_Obj un)(i \<mapsto> s)\<rparr>)"
proof -
  let ?v = "un\<lparr>un_SocketID := i, un_Obj := (un_Obj un)(i \<mapsto> s)\<rparr>"
  have fresh: "un_Obj un i = None" "i \<notin> set (mux_ids un)"
    using inv i by (cases "un_Obj un i"; fastforce simp: mux_inv_def sock_ok_def)+
  have "users m ?v = users m un" if "m \<noteq> - 1" for m using that s fresh by (auto simp: users_def)
  moreover have "mux_ids ?v = mux_ids un" by (simp add: mux_ids_def)
  moreover have "sock_ok X ?v j t" if "un_Obj ?v j = Some t" for j t
    using inv that s fresh i by (fastforce simp: mux_inv_def sock_ok_def mux_ids_def split: if_splits)
  ultimately show ?thesis using inv i by (fastforce simp: mux_inv_def)
qed

text \<open>A socket that has no multiplexer joins one that exists.\<close>

lemma users_set:
  "un_Obj un i = Some s \<Longrightarrow> users k (upd_sock i (\<lambda>s. s\<lparr>s_MuxID := m\<rparr>) un) =
    (if k = m then insert i (users k un) else users k un - {i})"
  by (auto simp: users_def upd_sock_def)

lemma mux_inv_share:
  assumes inv: "mux_inv X un" and s: "un_Obj un i = Some s" "s_MuxID s = - 1" and m: "m \<in> set (un_Mux un)"
  shows "mux_inv (insert i X) (share_mux i m un)"
proof -
  let ?w = "upd_mux (mux_ID m) (\<lambda>x. x\<lparr>mux_RefCount := mux_RefCount x + 1\<rparr>) un"
  let ?v = "share_mux i m un"
  have w: "un_Obj ?w = un_Obj un" "un_SocketID ?w = un_SocketID un" "mux_ids ?w = mux_ids un"
    by (simp_all add: upd_mux_def mux_ids_def comp_def if_distrib cong: if_cong)
  have v: "un_Mux ?v = un_Mux ?w" "mux_ids ?v = mux_ids un" "un_SocketID ?v = un_SocketID un"
      "dom (un_Obj ?v) = dom (un_Obj un)"
    using s w by (auto simp: share_mux_def upd_sock_def mux_ids_def)
  have u: "users k ?v = (if k = mux_ID m then insert i (users k un) else users k un - {i})" for k
  proof -
    have "users k ?v = (if k = mux_ID m then insert i (users k ?w) else users k ?w - {i})"
      unfolding share_mux_def by (rule users_set) (use s w in simp)
    then show ?thesis using w(1) by (simp add: users_def)
  qed
  have fin: "finite (users k un)" for k
    using inv by (auto simp: mux_inv_def users_def intro: finite_subset [of _ "dom (un_Obj un)"])
  have "int (card (users (mux_ID x) ?v)) \<le> mux_RefCount x" if x: "x \<in> set (un_Mux ?v)" "mux_ID x \<noteq> - 1" for x
  proof -
    obtain y where y: "y \<in> set (un_Mux un)"
        "x = (if mux_ID y = mux_ID m then y\<lparr>mux_RefCount := mux_RefCount y + 1\<rparr> else y)"
      using x v(1) by (auto simp: upd_mux_def)
    have c: "int (card (users (mux_ID y) un)) \<le> mux_RefCount y" using inv y x(2) by (auto simp: mux_inv_def split: if_splits)
    have "card (users (mux_ID y) un - {i}) \<le> card (users (mux_ID y) un)" using fin by (simp add: card_mono)
    moreover have "card (insert i (users (mux_ID y) un)) \<le> Suc (card (users (mux_ID y) un))"
      using fin by (simp add: card_insert_if)
    ultimately show ?thesis using c y(2) u [of "mux_ID y"] by (auto split: if_splits)
  qed
  moreover have "sock_ok (insert i X) ?v j t" if "un_Obj ?v j = Some t" for j t
    using that inv s m v(2,3) w(1)
    by (auto simp: mux_inv_def sock_ok_def share_mux_def upd_sock_def mux_ids_def split: if_splits)
  ultimately show ?thesis using inv v by (simp add: mux_inv_def)
qed

text \<open>A socket opens a multiplexer of its own.\<close>

lemma mux_inv_open:
  assumes inv: "mux_inv X un" and s: "un_Obj un i = Some s" "s_MuxID s = - 1" "i \<notin> set (mux_ids un)"
    and m: "mux_ID m = i" "mux_RefCount m = 1"
  shows "mux_inv (insert i X) (upd_sock i (\<lambda>s. s\<lparr>s_MuxID := i\<rparr>) (un\<lparr>un_Mux := insort_key mux_ID m (un_Mux un)\<rparr>))"
proof -
  let ?w = "un\<lparr>un_Mux := insort_key mux_ID m (un_Mux un)\<rparr>"
  let ?v = "upd_sock i (\<lambda>s. s\<lparr>s_MuxID := i\<rparr>) ?w"
  have v: "set (un_Mux ?v) = insert m (set (un_Mux un))" "un_SocketID ?v = un_SocketID un"
      "dom (un_Obj ?v) = dom (un_Obj un)" "un_Obj ?v = (un_Obj un)(i \<mapsto> s\<lparr>s_MuxID := i\<rparr>)"
      "set (mux_ids ?v) = insert i (set (mux_ids un))" "distinct (mux_ids ?v)"
  proof -
    show "set (un_Mux ?v) = insert m (set (un_Mux un))" "un_SocketID ?v = un_SocketID un"
      "un_Obj ?v = (un_Obj un)(i \<mapsto> s\<lparr>s_MuxID := i\<rparr>)" using s by (simp_all add: upd_sock_def set_insort_key)
    then show "dom (un_Obj ?v) = dom (un_Obj un)" using s by auto
    have "map mux_ID (insort_key mux_ID m xs) = insort (mux_ID m) (map mux_ID xs)" for xs by (induction xs) auto
    then have e: "mux_ids ?v = insort i (mux_ids un)" using m by (simp add: upd_sock_def mux_ids_def)
    show "set (mux_ids ?v) = insert i (set (mux_ids un))" unfolding e by (simp add: set_insort_key)
    show "distinct (mux_ids ?v)" unfolding e using inv s by (simp add: mux_inv_def distinct_insort)
  qed
  have u: "users k ?v = (if k = i then insert i (users k un) else users k un - {i})" for k
    using users_set [of ?w i s k i] s by (simp add: users_def)
  have none: "i = - 1 \<or> users i un = {}" using inv s by (auto simp: mux_inv_def users_def sock_ok_def)
  have fin: "finite (users k un)" for k
    using inv by (auto simp: mux_inv_def users_def intro: finite_subset [of _ "dom (un_Obj un)"])
  have "int (card (users (mux_ID x) ?v)) \<le> mux_RefCount x" if x: "x \<in> set (un_Mux ?v)" "mux_ID x \<noteq> - 1" for x
  proof (cases "x = m")
    case True
    then show ?thesis using none m x(2) u [of i] by auto
  next
    case False
    then have y: "x \<in> set (un_Mux un)" using x v(1) by auto
    then have "int (card (users (mux_ID x) un)) \<le> mux_RefCount x" "mux_ID x \<noteq> i"
      using inv x(2) s(3) by (auto simp: mux_inv_def mux_ids_def)
    then show ?thesis using u [of "mux_ID x"] card_mono [OF fin, of "users (mux_ID x) un - {i}" "mux_ID x"] by auto
  qed
  moreover have "sock_ok (insert i X) ?v j t" if t: "un_Obj ?v j = Some t" for j t
  proof (cases "j = i")
    case True
    have "sock_ok X un i s" using inv s(1) by (simp add: mux_inv_def)
    then show ?thesis using True t v by (auto simp: sock_ok_def)
  next
    case False
    then have "sock_ok X un j t" using inv t v(4) by (simp add: mux_inv_def)
    then show ?thesis using False v by (auto simp: sock_ok_def)
  qed
  moreover have "un_SocketID un \<le> i" using inv s(1) by (auto simp: mux_inv_def sock_ok_def)
  ultimately show ?thesis using inv v by (simp add: mux_inv_def)
qed

text \<open>An object is freed, and its reference to its multiplexer given up.\<close>

lemma mux_inv_free:
  assumes inv: "mux_inv X un"
  shows "mux_inv X (un\<lparr>un_Obj := (un_Obj un)(i := None)\<rparr>)"
proof -
  let ?v = "un\<lparr>un_Obj := (un_Obj un)(i := None)\<rparr>"
  have "users k ?v = users k un - {i}" for k by (auto simp: users_def)
  moreover have "card (users k un - {i}) \<le> card (users k un)" for k
    using inv by (intro card_mono) (auto simp: mux_inv_def users_def intro: finite_subset [of _ "dom (un_Obj un)"])
  moreover have "mux_ids ?v = mux_ids un" by (simp add: mux_ids_def)
  moreover have "int (card (users (mux_ID x) ?v)) \<le> mux_RefCount x" if "x \<in> set (un_Mux un)" "mux_ID x \<noteq> - 1" for x
    using inv that calculation(2) [of "mux_ID x"] calculation(1) [of "mux_ID x"] by (auto simp: mux_inv_def)
  moreover have "sock_ok X ?v j t" if "un_Obj ?v j = Some t" for j t
    using inv that by (auto simp: mux_inv_def sock_ok_def mux_ids_def split: if_splits)
  ultimately show ?thesis using inv by (simp add: mux_inv_def)
qed

lemma mux_inv_release:
  assumes inv: "mux_inv X un" and s: "un_Obj un i = Some s"
  shows "mux_inv X (release_mux (s_MuxID s) (un\<lparr>un_Obj := (un_Obj un)(i := None)\<rparr>))"
proof -
  let ?m = "s_MuxID s" and ?w = "un\<lparr>un_Obj := (un_Obj un)(i := None)\<rparr>"
  let ?v = "release_mux ?m ?w"
  have w: "mux_inv X ?w" by (rule mux_inv_free [OF inv])
  have fin: "finite (users ?m un)" using inv by (auto simp: mux_inv_def users_def intro: finite_subset [of _ "dom (un_Obj un)"])
  have card: "card (users ?m un) = Suc (card (users ?m ?w))"
  proof -
    have "users ?m ?w = users ?m un - {i}" "i \<in> users ?m un" using s by (auto simp: users_def)
    then show ?thesis using card_Suc_Diff1 [OF fin, of i] by simp
  qed
  show ?thesis
  proof (cases "find_mux ?m ?w")
    case None
    then show ?thesis using w by (simp add: release_mux_def)
  next
    case (Some x)
    then have x: "x \<in> set (un_Mux un)" "mux_ID x = ?m" by (auto simp: find_mux_def find_Some_iff)
    have dist: "distinct (mux_ids un)" using inv by (simp add: mux_inv_def)
    have same: "y = x" if "y \<in> set (un_Mux un)" "mux_ID y = ?m" for y
      using dist that x inj_onD [of mux_ID "set (un_Mux un)" y x] by (auto simp: mux_ids_def distinct_map)
    have o: "un_Obj ?v = un_Obj ?w" "un_SocketID ?v = un_SocketID ?w" using Some by (simp_all add: release_mux_def upd_mux_def)
    have u: "users k ?v = users k ?w" for k by (simp add: users_def o)
    have le: "?m \<noteq> - 1 \<Longrightarrow> int (card (users ?m ?w)) \<le> mux_RefCount x - 1" using inv x card by (auto simp: mux_inv_def)
    show ?thesis
    proof (cases "mux_RefCount x - 1 = 0")
      case True
      then have v: "un_Mux ?v = filter (\<lambda>x. mux_ID x \<noteq> ?m) (un_Mux un)" using Some by (simp add: release_mux_def)
      then have ids: "mux_ids ?v = filter (\<lambda>k. k \<noteq> ?m) (mux_ids un)" by (simp add: mux_ids_def filter_map comp_def)
      have "finite (users ?m ?w)" by (rule finite_subset [OF _ fin]) (auto simp: users_def split: if_splits)
      then have none: "?m \<noteq> - 1 \<Longrightarrow> users ?m ?w = {}" using le True by simp
      have "sock_ok X ?v j t" if t: "un_Obj ?v j = Some t" for j t
      proof -
        have "sock_ok X ?w j t" using w t o(1) by (simp add: mux_inv_def)
        moreover have "s_MuxID t \<noteq> ?m \<or> ?m = - 1" using none t o(1) by (auto simp: users_def)
        ultimately show ?thesis by (auto simp: sock_ok_def ids o(2)) (auto simp: mux_ids_def)
      qed
      then show ?thesis using w dist by (auto simp: mux_inv_def ids o u v) (auto simp: mux_ids_def)
    next
      case False
      then have v: "?v = upd_mux ?m (\<lambda>x. x\<lparr>mux_RefCount := mux_RefCount x - 1\<rparr>) ?w" using Some by (simp add: release_mux_def)
      have ids: "mux_ids ?v = mux_ids ?w" unfolding v by (simp add: upd_mux_def mux_ids_def comp_def if_distrib cong: if_cong)
      have "int (card (users (mux_ID y) ?v)) \<le> mux_RefCount y" if y: "y \<in> set (un_Mux ?v)" "mux_ID y \<noteq> - 1" for y
      proof (cases "mux_ID y = ?m")
        case True
        then have "y = x\<lparr>mux_RefCount := mux_RefCount x - 1\<rparr>"
          using y(1) same unfolding v by (auto simp: upd_mux_def split: if_splits)
        then show ?thesis using le True y(2) u by simp
      next
        case False
        then have "y \<in> set (un_Mux ?w)" using y(1) unfolding v by (auto simp: upd_mux_def split: if_splits)
        then show ?thesis using w y(2) u by (simp add: mux_inv_def)
      qed
      moreover have "sock_ok X ?v j t" if "un_Obj ?v j = Some t" for j t
        using that w by (simp add: mux_inv_def sock_ok_def ids o)
      ultimately show ?thesis using w by (simp add: mux_inv_def ids o)
    qed
  qed
qed

end
