(* ===== verification/UnitedInv.thy ===== *)
theory UnitedInv imports UnitedMux begin

text \<open>
  Every step of the system keeps the invariant of the multiplexers (\<open>mux_inv\<close>).
\<close>

section \<open>Socket by socket\<close>

lemma mux_inv_settle:
  assumes inv: "mux_inv (insert i X) un"
    and "\<And>s. s_SocketID (f s) = s_SocketID s \<and> s_MuxID (f s) = s_MuxID s \<and> s_Status (f s) \<noteq> INIT"
  shows "mux_inv X (upd_sock i f un)"
proof -
  have "mux_inv (insert i X) (upd_sock i f un)" by (rule mux_inv_sock [OF inv]) (simp add: assms(2))
  moreover have "s_Status t \<noteq> INIT" if "un_Obj (upd_sock i f un) i = Some t" for t
    using that assms(2) by (auto simp: upd_sock_def)
  ultimately show ?thesis by (fastforce simp: mux_inv_def sock_ok_def)
qed

lemma mux_inv_gone: "mux_inv (insert i X) un \<Longrightarrow> un_Obj un i = None \<Longrightarrow> mux_inv X un"
  by (fastforce simp: mux_inv_def sock_ok_def)

lemma init_unused:
  "mux_inv {} un \<Longrightarrow> un_Obj un i = Some s \<Longrightarrow> s_Status s = INIT \<Longrightarrow> s_MuxID s = - 1 \<and> i \<notin> set (mux_ids un)"
  by (auto simp: mux_inv_def sock_ok_def)

lemma updateMux_inv:
  assumes inv: "mux_inv {} un" and s: "un_Obj un i = Some s" "s_MuxID s = - 1" "i \<notin> set (mux_ids un)"
    and r: "updateMux env i u addr un = Inr vn"
  shows "mux_inv {i} vn"
proof (cases "find_reusable u addr un")
  case None
  then obtain name where "e_open env addr = Inr name" using r by (auto simp: updateMux_def split: sum.splits)
  moreover have "filter (\<lambda>x. mux_ID x \<noteq> i) (un_Mux un) = un_Mux un" using s(3) by (auto simp: filter_id_conv mux_ids_def)
  ultimately have "vn = upd_sock i (\<lambda>s. s\<lparr>s_MuxID := i\<rparr>) (un\<lparr>un_Mux := insort_key mux_ID (new_mux env i u name) (un_Mux un)\<rparr>)"
    using r None by (simp add: updateMux_def Let_def new_mux_def)
  then show ?thesis using mux_inv_open [OF inv s, of "new_mux env i u name"] by (simp add: new_mux_def)
next
  case (Some m)
  then have "m \<in> set (un_Mux un)" by (auto simp: find_reusable_def find_Some_iff split: option.splits if_splits)
  from mux_inv_share [OF inv s(1,2) this] show ?thesis using r Some by (auto simp: updateMux_def)
qed

lemma open_socket_inv:
  assumes inv: "mux_inv {} un" and s: "un_Obj un i = Some s" "s_Status s = INIT"
    and r: "open_socket env i addr s un = (r, vn)"
  shows "mux_inv {} vn"
proof -
  let ?c = "CUDT_open (e_cpu env) (e_us env) (e_tk env) (s_UDT s)"
  let ?w = "upd_sock i (\<lambda>s. s\<lparr>s_UDT := ?c\<rparr>) un"
  have w: "mux_inv {} ?w" by (rule mux_inv_sock [OF inv]) simp
  have o: "un_Obj ?w i = Some (s\<lparr>s_UDT := ?c\<rparr>)" using s by (simp add: upd_sock_def)
  note i = init_unused [OF w o]
  show ?thesis
  proof (cases "updateMux env i ?c addr ?w")
    case (Inl e)
    then show ?thesis using r w by (simp add: open_socket_def Let_def)
  next
    case (Inr un')
    have "mux_inv {i} un'" by (rule updateMux_inv [OF w o _ _ Inr]) (use i s in simp_all)
    moreover have "vn = upd_sock i (\<lambda>s. s\<lparr>s_Status := OPENED\<rparr>) un'" using r Inr by (simp add: open_socket_def Let_def)
    ultimately show ?thesis by (simp add: mux_inv_settle)
  qed
qed

lemma located: "locate u un = Some s \<Longrightarrow> un_Obj un u = Some s \<and> s_Status s \<noteq> CLOSED \<and> u \<in> set (un_Sockets un)"
  by (auto simp: locate_def split: if_splits option.splits)

lemma bind_inv:
  assumes inv: "mux_inv {} un" and r: "bind env u name namelen un = (r, vn)"
  shows "mux_inv {} vn"
proof (cases "locate u un")
  case (Some s)
  note l = located [OF Some]
  show ?thesis
  proof (cases "s_Status s = INIT \<and> namelen = sockaddr_len (s_IPversion s)")
    case True
    obtain x w where o: "open_socket env u (Some name) s un = (x, w)" by (cases "open_socket env u (Some name) s un")
    have "mux_inv {} w" by (rule open_socket_inv [OF inv _ _ o]) (use l True in simp_all)
    then show ?thesis using r Some True o by (auto simp: bind_def split: sum.splits intro!: mux_inv_sock)
  qed (use r Some inv in \<open>auto simp: bind_def split: if_splits\<close>)
qed (use r inv in \<open>auto simp: bind_def\<close>)

lemma listen_inv:
  assumes inv: "mux_inv {} un" and r: "listen u backlog un = Some (r, vn)"
  shows "mux_inv {} vn"
proof -
  let ?w = "upd_sock u (\<lambda>s. s\<lparr>s_BackLog := backlog, s_QueuedSockets := [], s_AcceptSockets := []\<rparr>) un"
  have w: "mux_inv {} ?w" by (rule mux_inv_sock [OF inv]) simp
  consider "vn = un" | "vn = ?w" | c x where "put_udt u c ?w = Some x" "vn = upd_sock u (\<lambda>s. s\<lparr>s_Status := LISTENING\<rparr>) x"
    using r by (auto simp: listen_def Let_def split: option.splits if_splits sum.splits)
  then show ?thesis
    by cases (use inv w in \<open>auto intro!: mux_inv_sock intro: mux_inv_frame [OF frame_put_udt]\<close>)
qed

lemma accept_inv:
  assumes inv: "mux_inv {} un" and r: "accept u want un = Some (r, vn)"
  shows "mux_inv {} vn"
proof -
  consider "vn = un" | x us where
      "vn = poll (Update x 0 False) (upd_sock u (\<lambda>ls. ls\<lparr>s_AcceptSockets := add_id x (s_AcceptSockets ls), s_QueuedSockets := us\<rparr>) un)"
    using r by (auto simp: accept_def Let_def split: option.splits if_splits list.splits)
  then show ?thesis by cases (use inv in \<open>auto intro!: mux_inv_sock\<close>)
qed

lemma connect_socket_inv:
  assumes inv: "mux_inv {} un" and r: "connect_socket env u name turns un = Some (r, vn)"
  shows "mux_inv {} vn"
proof -
  let ?w = "upd_sock u (\<lambda>s. s\<lparr>s_Status := CONNECTING\<rparr>) un"
  have w: "mux_inv {} ?w" by (rule mux_inv_sock [OF inv]) simp
  obtain c x where x: "put_udt u c ?w = Some x"
    and v: "vn = upd_sock u (\<lambda>s. s\<lparr>s_Status := OPENED\<rparr>) x \<or> vn = upd_sock u (\<lambda>s. s\<lparr>s_PeerAddr := Some name\<rparr>) x"
    using r by (auto simp: connect_socket_def Let_def split: option.splits bind_splits)
  have "mux_inv {} x" by (rule mux_inv_frame [OF frame_put_udt [OF x] w])
  then show ?thesis using v by (auto intro!: mux_inv_sock)
qed

lemma connect_inv:
  assumes inv: "mux_inv {} un" and r: "connect env u name namelen turns un = Some (r, vn)"
  shows "mux_inv {} vn"
proof (cases "locate u un")
  case (Some s)
  note l = located [OF Some]
  show ?thesis
  proof (cases "s_Status s = INIT")
    case True
    obtain x w where o: "open_socket env u None s un = (x, w)" by (cases "open_socket env u None s un")
    have "mux_inv {} w" by (rule open_socket_inv [OF inv _ _ o]) (use l True in simp_all)
    then show ?thesis using r Some True o inv
      by (auto simp: connect_def split: sum.splits if_splits intro: connect_socket_inv)
  qed (use r Some inv in \<open>auto simp: connect_def split: if_splits intro: connect_socket_inv\<close>)
qed (use r inv in \<open>auto simp: connect_def\<close>)

lemma close_inv:
  assumes inv: "mux_inv {} un" and r: "close env u un = Some (r, vn)"
  shows "mux_inv {} vn"
proof -
  consider "vn = un" | "vn = upd_sock u (\<lambda>s. s\<lparr>s_TimeStamp := e_us env, s_UDT := (s_UDT s)\<lparr>u_Broken := True\<rparr>\<rparr>) un"
    | x where "close_udt env u un = Some x" "vn = (upd_sock u (mark_closed (e_us env)) x)
        \<lparr>un_Sockets := del_id u (un_Sockets x), un_Closed := add_id u (un_Closed x)\<rparr>"
    using r by (auto simp: close_def split: option.splits if_splits)
  then show ?thesis
    by cases (use inv in \<open>auto simp: mark_closed_def intro!: mux_inv_sock intro: mux_inv_frame [OF frame_close_udt]\<close>)
qed

section \<open>New connections\<close>

lemma admit_child_inv:
  assumes inv: "mux_inv {i} un" and r: "admit_child env l peer hs i un = Some (r, vn)"
  shows "mux_inv {} vn"
proof -
  obtain ns c u x where x: "CUDT_connect_peer (e_block env) (e_mem env) (e_us env) (un_Cache un) peer hs (s_UDT ns) = Some (c, u)"
      "put_udt i u un = Some x" and ns: "un_Obj un i = Some ns"
    using r by (auto simp: admit_child_def split: option.splits if_splits bind_splits)
  have xi: "mux_inv {i} x" by (rule mux_inv_frame [OF frame_put_udt [OF x(2)] inv])
  show ?thesis
  proof (cases c)
    case (Inl e)
    then obtain y where y: "close_udt env i x = Some y" "vn = y\<lparr>un_Obj := (un_Obj y)(i := None)\<rparr>"
      using r x ns by (auto simp: admit_child_def split: if_splits bind_splits)
    have "mux_inv {i} vn" unfolding y(2) by (rule mux_inv_free [OF mux_inv_frame [OF frame_close_udt [OF y(1)] xi]])
    then show ?thesis by (rule mux_inv_gone) (simp add: y(2))
  next
    case (Inr hs')
    let ?y = "upd_sock i (\<lambda>s. s\<lparr>s_Status := CONNECTED, s_SelfAddr := local_addr (s_MuxID s) x s\<rparr>) x"
    have "mux_inv {} ?y" by (rule mux_inv_settle [OF xi]) simp
    then show ?thesis using r x ns Inr
      by (auto simp: admit_child_def Let_def split: if_splits intro!: mux_inv_sock)
  qed
qed

lemma start_child_inv:
  assumes inv: "mux_inv {} un" and r: "start_child env l peer hs un = Some (r, vn)"
  shows "mux_inv {} vn"
proof (cases "vn = un")
  case False
  let ?i = "un_SocketID un - 1"
  obtain ls where ls: "un_Obj un l = Some ls" using r by (auto simp: start_child_def split: option.splits)
  let ?c = "child_socket env l ls peer hs ?i"
  let ?w = "un\<lparr>un_SocketID := ?i, un_Obj := (un_Obj un)(?i \<mapsto> ?c)\<rparr>"
  have c: "s_MuxID ?c = - 1" "s_SocketID ?c = ?i" by (simp_all add: child_socket_def CUDTSocket_new_def)
  have w: "mux_inv {} ?w" by (rule mux_inv_add [OF inv refl]) (simp_all add: c)
  have "mux_inv {?i} (updateMux_listener ?i ls ?w)"
  proof (cases "List.find (\<lambda>m. mux_Port m = ntohs (sin_port (the (s_SelfAddr ls)))) (un_Mux ?w)")
    case None
    then show ?thesis using mux_inv_mono [OF w] by (simp add: updateMux_listener_def)
  next
    case (Some m)
    then have m: "m \<in> set (un_Mux ?w)" by (auto simp: find_Some_iff)
    show ?thesis using mux_inv_share [OF w _ c(1) m] Some by (simp add: updateMux_listener_def)
  qed
  moreover have "admit_child env l peer hs ?i (updateMux_listener ?i ls ?w) = Some (r, vn)"
    using r ls False by (auto simp: start_child_def Let_def split: if_splits)
  ultimately show ?thesis by (rule admit_child_inv)
qed (use inv in simp)

lemma newConnection_inv:
  assumes inv: "mux_inv {} un" and r: "newConnection env l peer hs un = Some (r, vn)"
  shows "mux_inv {} vn"
proof -
  consider "vn = un" | "start_child env l peer hs un = Some (r, vn)"
    | i where "start_child env l peer hs (upd_sock l (forget_child i) (upd_sock i (mark_closed (e_us env)) un)) = Some (r, vn)"
    using r by (auto simp: newConnection_def split: option.splits if_splits)
  then show ?thesis
  proof cases
    case (3 i)
    have "mux_inv {} (upd_sock l (forget_child i) (upd_sock i (mark_closed (e_us env)) un))"
      by (intro mux_inv_sock inv) (simp_all add: forget_child_def mark_closed_def)
    then show ?thesis by (rule start_child_inv [OF _ 3])
  qed (use inv in \<open>auto intro: start_child_inv\<close>)
qed

section \<open>Collecting closed sockets\<close>

text \<open>Which socket uses which multiplexer does not change until a socket is freed.\<close>

definition same_users :: "CUDTUnited \<Rightarrow> CUDTUnited \<Rightarrow> bool" where
  "same_users un vn \<longleftrightarrow> (\<forall>i. map_option s_MuxID (un_Obj vn i) = map_option s_MuxID (un_Obj un i))"

lemma same_users_refl [simp]: "same_users un un"
  by (simp add: same_users_def)

lemma same_users_trans: "same_users un vn \<Longrightarrow> same_users vn wn \<Longrightarrow> same_users un wn"
  by (simp add: same_users_def)

lemma same_users_frame: "frame un vn \<Longrightarrow> same_users un vn"
proof -
  assume f: "frame un vn"
  have "map_option s_MuxID (un_Obj vn i) = map_option s_MuxID (un_Obj un i)" for i
  proof -
    have "rel_option same_sock (un_Obj un i) (un_Obj vn i)" using f by (simp add: frame_def)
    then show ?thesis by (cases "un_Obj un i"; cases "un_Obj vn i") (auto simp: same_sock_def)
  qed
  then show ?thesis by (simp add: same_users_def)
qed

lemma same_users_sock: "(\<And>s. s_MuxID (f s) = s_MuxID s) \<Longrightarrow> same_users un (upd_sock i f un)"
  by (simp add: same_users_def upd_sock_def option.map_comp comp_def)

lemma close_unaccepted_inv:
  assumes r: "close_unaccepted env q un = Some vn" and inv: "mux_inv {} un"
  shows "mux_inv {} vn \<and> same_users un vn"
proof -
  let ?w = "upd_sock q (\<lambda>s. s\<lparr>s_UDT := (s_UDT s)\<lparr>u_Broken := True\<rparr>\<rparr>) un"
  obtain x where x: "close_udt env q ?w = Some x"
    and v: "vn = (upd_sock q (mark_closed (e_us env)) x)\<lparr>un_Closed := add_id q (un_Closed x), un_Sockets := del_id q (un_Sockets x)\<rparr>"
    using r by (auto simp: close_unaccepted_def Let_def upd_sock_def split: if_splits bind_splits)
  have w: "mux_inv {} ?w" by (rule mux_inv_sock [OF inv]) simp
  have y: "mux_inv {} (upd_sock q (mark_closed (e_us env)) x)"
    by (rule mux_inv_sock [OF mux_inv_frame [OF frame_close_udt [OF x] w]]) (simp add: mark_closed_def)
  have "same_users un (upd_sock q (mark_closed (e_us env)) x)"
    by (intro same_users_trans [OF same_users_trans [OF same_users_sock same_users_frame [OF frame_close_udt [OF x]]] same_users_sock])
      (simp_all add: mark_closed_def)
  then show ?thesis using y v by (simp add: same_users_def)
qed

lemma close_queue_inv:
  "close_queue env qs un = Some vn \<Longrightarrow> mux_inv {} un \<Longrightarrow> mux_inv {} vn \<and> same_users un vn"
proof (induction qs arbitrary: un)
  case (Cons q qs)
  then obtain x where "close_unaccepted env q un = Some x" "close_queue env qs x = Some vn"
    by (cases "close_unaccepted env q un") auto
  then show ?case using Cons.IH [of x] close_unaccepted_inv [of env q un x] Cons.prems(2) by (blast intro: same_users_trans)
qed simp

lemma removeSocket_cases:
  assumes r: "removeSocket env u un = Some vn"
  obtains "u \<notin> set (un_Closed un)" "vn = un"
  | s x y where "u \<in> set (un_Closed un)" "un_Obj un u = Some s" "close_queue env (s_QueuedSockets s) un = Some x"
      "close_udt env u (forget_peer u s x) = Some y"
      "vn = release_mux (s_MuxID s) (y\<lparr>un_Closed := del_id u (un_Closed y), un_Obj := (un_Obj y)(u := None)\<rparr>)"
proof (cases "u \<in> set (un_Closed un)")
  case True
  obtain s where s: "un_Obj un u = Some s" using r True by (auto simp: removeSocket_def split: option.splits)
  obtain x where x: "close_queue env (s_QueuedSockets s) un = Some x"
    using r True s by (cases "close_queue env (s_QueuedSockets s) un") (auto simp: removeSocket_def)
  obtain y where y: "close_udt env u (forget_peer u s x) = Some y"
    using r True s x by (cases "close_udt env u (forget_peer u s x)") (auto simp: removeSocket_def)
  have "vn = release_mux (s_MuxID s) (y\<lparr>un_Closed := del_id u (un_Closed y), un_Obj := (un_Obj y)(u := None)\<rparr>)"
    using r True s x y by (simp add: removeSocket_def)
  then show thesis by (rule that(2) [OF True s x y])
next
  case False
  then show thesis using r by (intro that(1)) (simp_all add: removeSocket_def)
qed

lemma removeSocket_inv:
  assumes r: "removeSocket env u un = Some vn" and inv: "mux_inv {} un"
  shows "mux_inv {} vn"
  using r
proof (cases rule: removeSocket_cases)
  case (2 s x y)
  note xi = close_queue_inv [OF 2(3) inv]
  have p: "mux_inv {} (forget_peer u s x)" "same_users x (forget_peer u s x)"
    using xi by (auto simp: forget_peer_def Let_def same_users_def split: option.splits)
  have yi: "mux_inv {} y" by (rule mux_inv_frame [OF frame_close_udt [OF 2(4)] p(1)])
  have "same_users un y"
    using xi p(2) same_users_frame [OF frame_close_udt [OF 2(4)]] by (blast intro: same_users_trans)
  then have "map_option s_MuxID (un_Obj y u) = Some (s_MuxID s)" using 2(2) by (simp add: same_users_def)
  then obtain t where t: "un_Obj y u = Some t" "s_MuxID t = s_MuxID s" by auto
  let ?y = "y\<lparr>un_Closed := del_id u (un_Closed y)\<rparr>"
  have "mux_inv {} (release_mux (s_MuxID t) (?y\<lparr>un_Obj := (un_Obj ?y)(u := None)\<rparr>))"
    by (rule mux_inv_release) (use yi t in simp_all)
  then show ?thesis using 2(5) t(2) by simp
qed (use inv in simp)

lemma remove_all_inv: "remove_all env us un = Some vn \<Longrightarrow> mux_inv {} un \<Longrightarrow> mux_inv {} vn"
proof (induction us arbitrary: un)
  case (Cons u us)
  then obtain x where "removeSocket env u un = Some x" "remove_all env us x = Some vn"
    by (cases "removeSocket env u un") auto
  then show ?case using Cons.IH removeSocket_inv Cons.prems(2) by blast
qed simp

lemma broken_waits_same: "broken_waits us s = (b, t) \<Longrightarrow>
    s_SocketID t = s_SocketID s \<and> s_MuxID t = s_MuxID s \<and> s_Status t = s_Status s \<and> s_ListenSocket t = s_ListenSocket s"
  by (auto simp: broken_waits_def split: if_splits)

lemma close_broken_inv: "mux_inv {} un \<Longrightarrow> mux_inv {} (snd (close_broken us i (tbc, un)))"
proof -
  assume inv: "mux_inv {} un"
  show ?thesis
  proof (cases "un_Obj un i")
    case (Some s)
    obtain b t where w: "broken_waits us s = (b, t)" by (cases "broken_waits us s")
    have 1: "mux_inv {} (upd_sock i (\<lambda>_. t) un)"
      by (rule mux_inv_sock [OF inv]) (use Some broken_waits_same [OF w] in auto)
    have 2: "mux_inv {} (upd_sock i (mark_closed us) (upd_sock i (\<lambda>_. t) un))"
      by (rule mux_inv_sock [OF 1]) (simp add: mark_closed_def)
    show ?thesis using inv 1 2 Some w
      by (auto simp: close_broken_def Let_def forget_child_def intro!: mux_inv_sock)
  qed (use inv in \<open>simp add: close_broken_def\<close>)
qed

lemma fold_close_broken_inv: "mux_inv {} (snd x) \<Longrightarrow> mux_inv {} (snd (fold (close_broken us) js x))"
proof (induction js arbitrary: x)
  case (Cons i js)
  show ?case using Cons.IH [of "close_broken us i x"] close_broken_inv [of "snd x" us i "fst x"] Cons.prems by simp
qed simp

lemma fold_upd_sock_inv:
  "(\<And>s. s_SocketID (f s) = s_SocketID s \<and> s_MuxID (f s) = s_MuxID s \<and> s_Status (f s) = s_Status s) \<Longrightarrow>
    mux_inv X un \<Longrightarrow> mux_inv X (fold (\<lambda>j. upd_sock j f) js un)"
proof (induction js arbitrary: un)
  case (Cons j js)
  have "mux_inv X (upd_sock j f un)" by (rule mux_inv_sock [OF Cons.prems(2)]) (simp add: Cons.prems(1))
  then show ?case using Cons.IH Cons.prems(1) by simp
qed simp

lemma checkBroken_inv:
  assumes r: "checkBrokenSockets env un = Some vn" and inv: "mux_inv {} un"
  shows "mux_inv {} vn"
proof -
  obtain tbc x where x: "fold (close_broken (e_us env)) (un_Sockets un) ([], un) = (tbc, x)" by fastforce
  let ?y = "fold (\<lambda>j. upd_sock j (start_expiring (e_us env))) (un_Closed x) x"
  have "mux_inv {} x" using fold_close_broken_inv [of "([], un)" "e_us env" "un_Sockets un"] inv x by simp
  then have "mux_inv {} ?y" by (intro fold_upd_sock_inv) (simp add: start_expiring_def)
  then have "mux_inv {} (?y\<lparr>un_Sockets := fold del_id tbc (un_Sockets ?y)\<rparr>)" by simp
  then show ?thesis using r x by (auto simp: checkBrokenSockets_def Let_def intro: remove_all_inv)
qed

lemma force_close_inv:
  assumes r: "force_close env i un = Some vn" and inv: "mux_inv {} un"
  shows "mux_inv {} vn"
proof -
  let ?w = "upd_sock i (\<lambda>s. s\<lparr>s_UDT := (s_UDT s)\<lparr>u_Broken := True\<rparr>\<rparr>) un"
  obtain x where x: "close_udt env i ?w = Some x" using r by (cases "close_udt env i ?w") (auto simp: force_close_def)
  have w: "mux_inv {} ?w" by (rule mux_inv_sock [OF inv]) simp
  have "mux_inv {} (upd_sock i (mark_closed (e_us env)) x)"
    by (rule mux_inv_sock [OF mux_inv_frame [OF frame_close_udt [OF x] w]]) (simp add: mark_closed_def)
  then show ?thesis using r x by (auto simp: force_close_def Let_def forget_child_def split: bind_splits intro!: mux_inv_sock)
qed

lemma force_close_all_inv: "force_close_all env js un = Some vn \<Longrightarrow> mux_inv {} un \<Longrightarrow> mux_inv {} vn"
proof (induction js arbitrary: un)
  case (Cons j js)
  then obtain x where "force_close env j un = Some x" "force_close_all env js x = Some vn"
    by (cases "force_close env j un") auto
  then show ?case using Cons.IH force_close_inv Cons.prems(2) by blast
qed simp

lemma check_until_empty_inv: "check_until_empty envs un = Some vn \<Longrightarrow> mux_inv {} un \<Longrightarrow> mux_inv {} vn"
proof (induction envs arbitrary: un)
  case (Cons env envs)
  then obtain x where x: "checkBrokenSockets env un = Some x" "vn = x \<or> check_until_empty envs x = Some vn"
    by (cases "checkBrokenSockets env un") (auto split: if_splits)
  have "mux_inv {} x" by (rule checkBroken_inv [OF x(1) Cons.prems(2)])
  then show ?case using Cons.IH x(2) by blast
qed simp

lemma collect_end_inv:
  assumes r: "garbageCollect_end env envs un = Some vn" and inv: "mux_inv {} un"
  shows "mux_inv {} vn"
proof -
  obtain x where x: "force_close_all env (un_Sockets un) un = Some x"
    using r by (cases "force_close_all env (un_Sockets un) un") (auto simp: garbageCollect_end_def)
  let ?y = "x\<lparr>un_Sockets := []\<rparr>"
  have "mux_inv {} ?y" using force_close_all_inv [OF x inv] by simp
  then have "mux_inv {} (fold (\<lambda>j. upd_sock j (\<lambda>s. s\<lparr>s_TimeStamp := 0\<rparr>)) (un_Closed x) ?y)" by (rule fold_upd_sock_inv [rotated]) simp
  then show ?thesis using r x by (auto simp: garbageCollect_end_def Let_def intro: check_until_empty_inv)
qed

section \<open>The threads\<close>

lemma listener_packet_inv:
  assumes r: "listener_packet env io l addr p un = Some vn" and inv: "mux_inv {} un"
  shows "mux_inv {} vn"
proof -
  consider c where "put_udt l c un = Some vn"
    | hs x y c where "newConnection env l addr hs un = Some (x, y)" "put_udt l c y = Some vn"
    using r by (auto simp: listener_packet_def split: bind_splits sum.splits prod.splits)
  then show ?thesis by cases (use inv in \<open>auto intro: mux_inv_frame [OF frame_put_udt] newConnection_inv\<close>)
qed

lemma connecting_inv:
  "(case CRendezvousQueue_retrieve addr i rs of (Some u, j) \<Rightarrow> connecting_packet env m j u p un | (None, _) \<Rightarrow> Some un) = Some vn \<Longrightarrow>
     mux_inv {} un \<Longrightarrow> mux_inv {} vn"
  by (auto split: prod.splits option.splits intro: mux_inv_frame [OF frame_connecting_packet])

lemma dispatch_inv:
  assumes r: "dispatch env io m addr unit un = Some vn" and inv: "mux_inv {} un"
  shows "mux_inv {} vn"
proof -
  obtain x where x: "find_mux m un = Some x" using r by (cases "find_mux m un") (auto simp: dispatch_def)
  let ?q = "mux_RcvQueue x"
  let ?p = "m_Packet (unit_at (rq_UnitQueue ?q) unit)"
  let ?c = "case CRendezvousQueue_retrieve addr (m_iID ?p) (rq_Rendezvous ?q) of
    (Some u, i) \<Rightarrow> connecting_packet env m i u ?p un | (None, _) \<Rightarrow> Some un"
  have "vn = un \<or> ?c = Some vn \<or> (\<exists>l. listener_packet env io l addr ?p un = Some vn) \<or>
      (\<exists>u. socket_packet env io m u addr unit un = Some vn)"
    using r x by (simp add: dispatch_def Let_def split: if_splits option.splits) blast+
  then show ?thesis
    using inv by (elim disjE exE) (auto intro: connecting_inv listener_packet_inv mux_inv_frame [OF frame_socket_packet])
qed

lemma receive_packet_inv:
  assumes r: "receive_packet env io m un = Some vn" and inv: "mux_inv {} un"
  shows "mux_inv {} vn"
proof -
  have p: "mux_inv {} (set_mux_pool m pool un)" for pool by (rule mux_inv_frame [OF frame_set_mux_pool inv])
  obtain pool addr unit where "vn = set_mux_pool m pool un \<or> dispatch env io m addr unit (set_mux_pool m pool un) = Some vn"
    using r by (auto simp: receive_packet_def Let_def split: prod.splits option.splits if_splits)
  then show ?thesis using p by (auto intro: dispatch_inv)
qed

lemma rcv_turn_inv:
  assumes r: "CRcvQueue_turn env io m un = Some vn" and inv: "mux_inv {} un"
  shows "mux_inv {} vn"
proof -
  let ?w = "upd_mux m (upd_rcv (admit_new (e_tk env))) un"
  have w: "mux_inv {} ?w" by (rule mux_inv_frame [OF frame_upd_mux inv]) simp
  obtain x y where x: "receive_packet env io m ?w = Some x" "timer_check env m x = Some y" "update_connections env m y = Some vn"
    using r by (auto simp: CRcvQueue_turn_def split: bind_splits)
  show ?thesis
    by (rule mux_inv_frame [OF frame_update_connections [OF x(3)] mux_inv_frame [OF frame_timer_check [OF x(2)] receive_packet_inv [OF x(1) w]]])
qed

section \<open>All steps\<close>

lemma sendmsg_call_inv:
  assumes r: "CUDT_sendmsg_call None env mem u buf len ttl inorder a = Some (n, b)" and inv: "mux_inv {} (a_United a)"
  shows "mux_inv {} (a_United b)"
proof -
  obtain y where y: "sendmsg_body env mem u buf len ttl inorder (a_United a) = Some (y, a_United b)"
    using r by (auto simp: CUDT_sendmsg_call_def try_none dest!: message_unitedD)
  consider "a_United b = a_United a" | c where "put_udt u c (a_United a) = Some (a_United b)"
    using y by (auto simp: sendmsg_body_def split: sum.splits bind_splits)
  then show ?thesis by cases (use inv in \<open>auto intro: mux_inv_frame [OF frame_put_udt]\<close>)
qed

lemma recvmsg_call_inv:
  assumes r: "CUDT_recvmsg_call None u len a = Some (n, data, b)" and inv: "mux_inv {} (a_United a)"
  shows "mux_inv {} (a_United b)"
proof -
  obtain y where y: "recvmsg_body u len (a_United a) = Some (y, a_United b)"
    using r by (auto simp: CUDT_recvmsg_call_def Let_def try_none case_prod_unfold)
  consider "a_United b = a_United a" | c pool where "put_udt u c (put_pool u pool (a_United a)) = Some (a_United b)"
    using y by (auto simp: recvmsg_body_def Let_def split: sum.splits bind_splits prod.splits)
  then show ?thesis
  proof cases
    case (2 c pool)
    have "mux_inv {} (put_pool u pool (a_United a))"
      using inv by (auto simp: put_pool_def split: option.split intro: mux_inv_frame [OF frame_upd_mux])
    then show ?thesis by (rule mux_inv_frame [OF frame_put_udt [OF 2]])
  qed (use inv in simp)
qed

lemma united_step_inv: "united_step un vn \<Longrightarrow> mux_inv {} un \<Longrightarrow> mux_inv {} vn"
proof (induction rule: united_step.induct)
  case (step_startup un)
  then show ?case by (simp add: CUDTUnited_startup_def Let_def)
next
  case (step_cleanup un)
  then show ?case by (simp add: CUDTUnited_cleanup_def Let_def)
next
  case (step_socket env af type un r vn)
  then show ?case using mux_inv_add [of "{}" un] by (auto simp: newSocket_def CUDTSocket_new_def Let_def split: if_splits)
next
  case (step_setopt errno u opt a un r b)
  then show ?case
    by (auto simp: CUDT_setsockopt_def setsockopt_body_def try_none split: sum.splits bind_splits dest!: report_unitedD intro!: mux_inv_sock)
next
  case (step_perfmon us locked u clear a un r b)
  then show ?case
    by (auto simp: CUDT_perfmon_def perfmon_body_def try_none split: sum.splits prod.splits bind_splits dest!: report_unitedD intro!: mux_inv_sock)
qed (auto intro: bind_inv listen_inv accept_inv connect_inv close_inv checkBroken_inv collect_end_inv rcv_turn_inv
    mux_inv_frame [OF frame_snd_turn] sendmsg_call_inv recvmsg_call_inv)

lemma united_reachable_inv: "united_reachable un \<Longrightarrow> mux_inv {} un"
  by (induction rule: united_reachable.induct) (auto intro: mux_inv_new united_step_inv)

end
