(* ===== verification/UnitedSpec.thy ===== *)
theory UnitedSpec imports UnitedInv begin

text \<open>
  Properties of the management of sockets: multiplexers outlive the sockets that use them, closed sockets
  are removed, a repeated request meets the connection it has already made, \<open>accept\<close> and the
  sockets that wait for it.
\<close>

section \<open>Multiplexers\<close>

text \<open>C16: in every state the library can reach, whatever operations were called and whatever its threads did,
  the multiplexer of an existing socket exists, and its reference count is positive and at least the
  number of sockets that use it: a queue or channel is never freed under a socket.\<close>

theorem multiplexer_outlives_sockets:
  assumes "united_reachable un" "un_Obj un i = Some s" "s_MuxID s \<noteq> - 1"
  shows "\<exists>x. find_mux (s_MuxID s) un = Some x \<and> 0 < mux_RefCount x \<and>
    int (card {j. \<exists>t. un_Obj un j = Some t \<and> s_MuxID t = s_MuxID s}) \<le> mux_RefCount x"
proof -
  have inv: "mux_inv {} un" by (rule united_reachable_inv [OF assms(1)])
  then have "s_MuxID s \<in> set (mux_ids un)" using assms(2,3) by (auto simp: mux_inv_def sock_ok_def)
  then have "\<exists>y\<in>set (un_Mux un). mux_ID y = s_MuxID s" by (auto simp: mux_ids_def)
  then obtain x where x: "find_mux (s_MuxID s) un = Some x"
    by (cases "find_mux (s_MuxID s) un") (auto simp: find_mux_def find_None_iff)
  then have m: "x \<in> set (un_Mux un)" "mux_ID x = s_MuxID s" by (auto simp: find_mux_def find_Some_iff)
  have c: "int (card (users (s_MuxID s) un)) \<le> mux_RefCount x"
    using inv m assms(3) unfolding mux_inv_def by metis
  have "finite (users (s_MuxID s) un)"
    using inv by (auto simp: mux_inv_def users_def intro: finite_subset [of _ "dom (un_Obj un)"])
  moreover have "i \<in> users (s_MuxID s) un" using assms(2) by (simp add: users_def)
  ultimately have "0 < card (users (s_MuxID s) un)" by (auto simp: card_gt_0_iff)
  then show ?thesis using x c by (auto simp: users_def)
qed

definition example_name :: sockaddr where
  "example_name = \<lparr>sin_port = 9, sin_addr = 0x0100007F, s6_addr = replicate 16 0\<rparr>"

definition example_env :: "CUDT \<Rightarrow> uint64 \<Rightarrow> env" where
  "example_env g us = \<lparr>e_us = us, e_tk = us, e_cpu = 1, e_rnd = 0, e_alloc = True, e_mem = (\<lambda>_. True), e_units = (\<lambda>_. True),
     e_block = (\<lambda>_. undefined), e_raw = g, e_addr = example_name, e_garbage = 0,
     e_open = (\<lambda>a. Inr example_name)\<rparr>"

text \<open>A new library with one socket that is bound.\<close>

definition example_united :: "CUDT \<Rightarrow> CUDTUnited" where
  "example_united g =
    (let env = example_env g 5; un = snd (newSocket env AF_INET SOCK_DGRAM (CUDTUnited_new 0))
     in snd (bind env 0 example_name 16 un))"

lemma example_reachable: "united_reachable (example_united g)"
proof -
  let ?e = "example_env g 5"
  let ?u = "snd (newSocket ?e AF_INET SOCK_DGRAM (CUDTUnited_new 0))"
  have "united_reachable ?u" by (rule reach_step [OF reach_new step_socket]) (rule prod.collapse [symmetric])
  then have "united_reachable (snd (bind ?e 0 example_name 16 ?u))"
    by (rule reach_step [OF _ step_bind]) (rule prod.collapse [symmetric])
  then show ?thesis by (simp add: example_united_def Let_def)
qed

lemmas example_defs = example_env_def example_name_def newSocket_def CUDTUnited_new_def
  AF_INET_def SOCK_DGRAM_def trunc_def CUDTSocket_new_def add_id_def bind_def locate_def sockaddr_len_def open_socket_def updateMux_def
  find_reusable_def upd_sock_def new_mux_def Let_def

lemma example_socket: "\<exists>s. un_Obj (example_united g) 0 = Some s \<and> s_MuxID s = 0 \<and> s_Status s = OPENED"
  by (simp add: example_united_def example_defs)

theorem multiplexer_outlives_sockets_witness:
  "\<forall>g. \<exists>x. find_mux 0 (example_united g) = Some x \<and> 0 < mux_RefCount x"
proof
  fix g
  obtain s where s: "un_Obj (example_united g) 0 = Some s" "s_MuxID s = 0" using example_socket by blast
  from multiplexer_outlives_sockets [OF example_reachable s(1)] s(2)
  show "\<exists>x. find_mux 0 (example_united g) = Some x \<and> 0 < mux_RefCount x" by auto
qed

section \<open>Closed sockets are removed\<close>

text \<open>The socket \<open>i\<close> is closed since \<open>t\<close>, or gone.\<close>

definition closed_since :: "uint64 \<Rightarrow> int \<Rightarrow> CUDTUnited \<Rightarrow> bool" where
  "closed_since t i un \<longleftrightarrow> i \<in> set (un_Closed un) \<and> i \<notin> set (un_Sockets un) \<and>
     (\<exists>s. un_Obj un i = Some s \<and> s_IsExpiring s \<and> s_TimeStamp s = t)"

definition gone :: "int \<Rightarrow> CUDTUnited \<Rightarrow> bool" where
  "gone i un \<longleftrightarrow> un_Obj un i = None \<and> i \<notin> set (un_Closed un) \<and> i \<notin> set (un_Sockets un)"

lemma frame_closed:
  assumes f: "frame un vn"
  shows "closed_since t i un \<Longrightarrow> closed_since t i vn" "gone i un \<Longrightarrow> gone i vn"
proof -
  have r: "rel_option same_sock (un_Obj un i) (un_Obj vn i)" using f by (simp add: frame_def)
  show "closed_since t i un \<Longrightarrow> closed_since t i vn" "gone i un \<Longrightarrow> gone i vn"
    using f r by (cases "un_Obj vn i"; auto simp: closed_since_def gone_def frame_def same_sock_def)+
qed

lemma sock_closed:
  "closed_since t i un \<Longrightarrow> (j = i \<Longrightarrow> \<forall>s. s_IsExpiring s \<longrightarrow> s_IsExpiring (f s) \<and> s_TimeStamp (f s) = s_TimeStamp s) \<Longrightarrow>
     closed_since t i (upd_sock j f un)"
  "gone i un \<Longrightarrow> gone i (upd_sock j f un)"
  by (cases "j = i"; auto simp: closed_since_def gone_def upd_sock_def)+

lemma unaccepted_closed:
  assumes "close_unaccepted env q un = Some vn"
  shows "closed_since t i un \<Longrightarrow> closed_since t i vn" "gone i un \<Longrightarrow> gone i vn"
proof -
  let ?w = "upd_sock q (\<lambda>s. s\<lparr>s_UDT := (s_UDT s)\<lparr>u_Broken := True\<rparr>\<rparr>) un"
  have q: "q \<in> set (un_Sockets un)" using assms by (auto simp: close_unaccepted_def split: if_splits)
  then obtain x where x: "close_udt env q ?w = Some x"
    and v: "vn = (upd_sock q (mark_closed (e_us env)) x)\<lparr>un_Closed := add_id q (un_Closed x), un_Sockets := del_id q (un_Sockets x)\<rparr>"
    using assms by (auto simp: close_unaccepted_def Let_def upd_sock_def split: if_splits bind_splits)
  note f = frame_close_udt [OF x]
  show "closed_since t i vn" if c: "closed_since t i un"
  proof -
    have "q \<noteq> i" using q c by (auto simp: closed_since_def)
    moreover have "closed_since t i x" by (rule frame_closed(1) [OF f sock_closed(1) [OF c]]) simp
    ultimately show ?thesis using v by (auto simp: closed_since_def add_id_def del_id_def upd_sock_def set_insort_key)
  qed
  show "gone i vn" if g: "gone i un"
  proof -
    have "q \<noteq> i" using q g by (auto simp: gone_def)
    moreover have "gone i x" by (rule frame_closed(2) [OF f sock_closed(2) [OF g]])
    ultimately show ?thesis using v by (auto simp: gone_def add_id_def del_id_def upd_sock_def set_insort_key)
  qed
qed

lemma queue_closed:
  "close_queue env qs un = Some vn \<Longrightarrow> closed_since t i un \<Longrightarrow> closed_since t i vn"
  "close_queue env qs un = Some vn \<Longrightarrow> gone i un \<Longrightarrow> gone i vn"
proof (induction qs arbitrary: un)
  case (Cons q qs)
  {
    case 1
    then show ?case using Cons.IH(1) unaccepted_closed(1) by (auto split: bind_splits)
  next
    case 2
    then show ?case using Cons.IH(2) unaccepted_closed(2) by (auto split: bind_splits)
  }
qed auto

lemma release_same: "un_Obj (release_mux m un) = un_Obj un" "un_Closed (release_mux m un) = un_Closed un"
  "un_Sockets (release_mux m un) = un_Sockets un"
  by (simp_all add: release_mux_def upd_mux_def split: option.split)

lemma remove_closed:
  assumes r: "removeSocket env u un = Some vn"
  shows "gone i un \<Longrightarrow> gone i vn" "closed_since t i un \<Longrightarrow> if u = i then gone i vn else closed_since t i vn"
proof -
  have p: "closed_since t i x \<Longrightarrow> closed_since t i (forget_peer u s x)" "gone i x \<Longrightarrow> gone i (forget_peer u s x)" for s x
    by (auto simp: forget_peer_def Let_def closed_since_def gone_def split: option.splits)
  show "gone i vn" if g: "gone i un"
    using r
  proof (cases rule: removeSocket_cases)
    case (2 s x y)
    have "gone i y" by (rule frame_closed(2) [OF frame_close_udt [OF 2(4)] p(2) [OF queue_closed(2) [OF 2(3) g]]])
    then show ?thesis by (auto simp: 2(5) gone_def release_same del_id_def)
  qed (use g in simp)
  show "if u = i then gone i vn else closed_since t i vn" if c: "closed_since t i un"
    using r
  proof (cases rule: removeSocket_cases)
    case (2 s x y)
    have "closed_since t i y" by (rule frame_closed(1) [OF frame_close_udt [OF 2(4)] p(1) [OF queue_closed(1) [OF 2(3) c]]])
    then show ?thesis by (auto simp: 2(5) gone_def closed_since_def release_same del_id_def)
  qed (use c in \<open>auto simp: closed_since_def\<close>)
qed

lemma remove_all_closed:
  "remove_all env us un = Some vn \<Longrightarrow> gone i un \<Longrightarrow> gone i vn"
  "remove_all env us un = Some vn \<Longrightarrow> closed_since t i un \<Longrightarrow> if i \<in> set us then gone i vn else closed_since t i vn"
proof (induction us arbitrary: un)
  case (Cons u us)
  {
    case 1
    then obtain x where "removeSocket env u un = Some x" "remove_all env us x = Some vn" by (auto split: bind_splits)
    then show ?case using Cons.IH(1) remove_closed(1) 1 by blast
  next
    case 2
    then obtain x where x: "removeSocket env u un = Some x" "remove_all env us x = Some vn" by (auto split: bind_splits)
    show ?case using remove_closed(2) [OF x(1) 2(2)] Cons.IH [OF x(2)] by (auto split: if_splits)
  }
qed auto

lemma close_broken_closed:
  assumes "j \<noteq> i" "i \<in> set (un_Closed (snd x))" "i \<notin> set (un_Sockets (snd x))"
    "un_Obj (snd x) i = Some s" "close_broken us j x = y"
  shows "i \<in> set (un_Closed (snd y)) \<and> un_Sockets (snd y) = un_Sockets (snd x) \<and> un_Mux (snd y) = un_Mux (snd x) \<and>
    (\<exists>t. un_Obj (snd y) i = Some t \<and> s_IsExpiring t = s_IsExpiring s \<and> s_TimeStamp t = s_TimeStamp s)"
  using assms
  by (cases x) (auto simp: close_broken_def Let_def upd_sock_def forget_child_def add_id_def set_insort_key split: option.splits if_splits prod.splits)

lemma fold_close_broken_closed:
  "i \<notin> set js \<Longrightarrow> i \<in> set (un_Closed (snd x)) \<Longrightarrow> i \<notin> set (un_Sockets (snd x)) \<Longrightarrow> un_Obj (snd x) i = Some s \<Longrightarrow>
   fold (close_broken us) js x = y \<Longrightarrow>
    i \<in> set (un_Closed (snd y)) \<and> un_Sockets (snd y) = un_Sockets (snd x) \<and> un_Mux (snd y) = un_Mux (snd x) \<and>
    (\<exists>t. un_Obj (snd y) i = Some t \<and> s_IsExpiring t = s_IsExpiring s \<and> s_TimeStamp t = s_TimeStamp s)"
proof (induction js arbitrary: x s)
  case (Cons j js)
  let ?z = "close_broken us j x"
  have "i \<in> set (un_Closed (snd ?z)) \<and> un_Sockets (snd ?z) = un_Sockets (snd x) \<and> un_Mux (snd ?z) = un_Mux (snd x) \<and>
    (\<exists>t. un_Obj (snd ?z) i = Some t \<and> s_IsExpiring t = s_IsExpiring s \<and> s_TimeStamp t = s_TimeStamp s)"
    by (rule close_broken_closed) (use Cons.prems in auto)
  then show ?case using Cons.IH [of ?z] Cons.prems by auto
qed auto

lemma start_expiring_fields:
  "s_IsExpiring (start_expiring us s)" "s_TimeStamp (start_expiring us s) = (if s_IsExpiring s then s_TimeStamp s else us)"
  "s_QueuedSockets (start_expiring us s) = s_QueuedSockets s" "s_UDT (start_expiring us s) = s_UDT s"
  by (simp_all add: start_expiring_def)

lemma fold_expiring:
  "un_Obj un i = Some s \<Longrightarrow> i \<in> set js \<Longrightarrow>
    \<exists>t. un_Obj (fold (\<lambda>j. upd_sock j (start_expiring us)) js un) i = Some t \<and> s_IsExpiring t \<and>
      s_TimeStamp t = (if s_IsExpiring s then s_TimeStamp s else us)"
proof (induction js arbitrary: un s)
  case (Cons j js)
  let ?w = "upd_sock j (start_expiring us) un"
  show ?case
  proof (cases "j = i")
    case True
    then have o: "un_Obj ?w i = Some (start_expiring us s)" using Cons.prems by (simp add: upd_sock_def)
    have "\<exists>t. un_Obj (fold (\<lambda>j. upd_sock j (start_expiring us)) js ?w) i = Some t \<and> s_IsExpiring t \<and> s_TimeStamp t = s_TimeStamp (start_expiring us s)"
    proof (cases "i \<in> set js")
      case True
      then show ?thesis using Cons.IH [OF o] by (auto simp: start_expiring_fields)
    next
      case False
      then have "un_Obj (fold (\<lambda>j. upd_sock j (start_expiring us)) js v) i = un_Obj v i" for v
        by (induction js arbitrary: v) (auto simp: upd_sock_def)
      then show ?thesis using o by (auto simp: start_expiring_fields)
    qed
    then show ?thesis by (auto simp: start_expiring_fields)
  next
    case False
    then show ?thesis using Cons.IH [of ?w s] Cons.prems by (auto simp: upd_sock_def)
  qed
qed simp

lemma fold_upd_same: "un_Mux (fold (\<lambda>j. upd_sock j f) js un) = un_Mux un" "un_Closed (fold (\<lambda>j. upd_sock j f) js un) = un_Closed un"
  "un_Sockets (fold (\<lambda>j. upd_sock j f) js un) = un_Sockets un"
  by (induction js arbitrary: un) (auto simp: upd_sock_def)

lemma fold_del_id: "set (fold del_id ds xs) = set xs - set ds"
  by (induction ds arbitrary: xs) (auto simp: del_id_def)

text \<open>One check on a closed socket.\<close>

lemma check_closed:
  assumes r: "checkBrokenSockets env un = Some vn"
    and c: "i \<in> set (un_Closed un)" "i \<notin> set (un_Sockets un)" "un_Obj un i = Some s"
  defines "t \<equiv> (if s_IsExpiring s then s_TimeStamp s else e_us env)"
  shows "if e_us env - t > 1000000 \<and> \<not> on_list i un then gone i vn else closed_since t i vn"
proof -
  obtain tbc x where x: "fold (close_broken (e_us env)) (un_Sockets un) ([], un) = (tbc, x)" by fastforce
  let ?y = "fold (\<lambda>j. upd_sock j (start_expiring (e_us env))) (un_Closed x) x"
  have 1: "i \<in> set (un_Closed x)" "un_Sockets x = un_Sockets un" "un_Mux x = un_Mux un"
      "\<exists>t. un_Obj x i = Some t \<and> s_IsExpiring t = s_IsExpiring s \<and> s_TimeStamp t = s_TimeStamp s"
    using fold_close_broken_closed [of i "un_Sockets un" "([], un)" s "e_us env" "(tbc, x)"] c x by auto
  then obtain a where a: "un_Obj ?y i = Some a" "s_IsExpiring a" "s_TimeStamp a = t"
    using fold_expiring [of x i _ "un_Closed x" "e_us env"] by (fastforce simp: t_def)
  let ?z = "?y\<lparr>un_Sockets := fold del_id tbc (un_Sockets ?y)\<rparr>"
  have z: "closed_since t i ?z" using a 1 c(2) by (auto simp: closed_since_def fold_upd_same fold_del_id)
  have v: "remove_all env (filter (expired (e_us env) ?y) (un_Closed x)) ?z = Some vn"
    using r x by (simp add: checkBrokenSockets_def Let_def fold_upd_same)
  have e: "i \<in> set (filter (expired (e_us env) ?y) (un_Closed x)) \<longleftrightarrow> e_us env - t > 1000000 \<and> \<not> on_list i un"
    using a 1 by (auto simp: expired_def on_list_def fold_upd_same)
  show ?thesis using remove_all_closed(2) [OF v z] unfolding e .
qed

text \<open>C17: a closed socket goes away: once it has left the receiving list, the first check that comes more than a
  second after the check that started its removal timer destroys it, and its id names nothing.\<close>

theorem closed_socket_removed:
  assumes "i \<in> set (un_Closed un)" "i \<notin> set (un_Sockets un)" "un_Obj un i = Some s" "\<not> s_IsExpiring s"
    and "checkBrokenSockets env un = Some vn" "checkBrokenSockets env' vn = Some wn"
    and "e_us env' - e_us env > 1000000" "\<not> on_list i vn"
  shows "un_Obj wn i = None \<and> getStatus i wn = NONEXIST"
proof -
  have "closed_since (e_us env) i vn" using check_closed [OF assms(5,1-3)] assms(4) by simp
  then obtain a where a: "un_Obj vn i = Some a" "s_IsExpiring a" "s_TimeStamp a = e_us env"
      "i \<in> set (un_Closed vn)" "i \<notin> set (un_Sockets vn)" by (auto simp: closed_since_def)
  have "gone i wn" using check_closed [OF assms(6) a(4,5,1)] a(2,3) assms(7,8) by simp
  then show ?thesis by (simp add: gone_def getStatus_def)
qed

text \<open>An instance: the socket of the example is closed and checked twice.\<close>

lemma close_unconnected:
  assumes "locate i un = Some s" "s_Status s \<noteq> LISTENING" "u_Opened (s_UDT s)" "\<not> u_Connected (s_UDT s)"
    "\<not> u_Listening (s_UDT s)" "\<not> u_Connecting (s_UDT s)" "u_Out (s_UDT s) = []"
  shows "\<exists>vn t. close env i un = Some (Inr 0, vn) \<and> un_Sockets vn = del_id i (un_Sockets un) \<and>
    un_Closed vn = add_id i (un_Closed un) \<and> un_Mux vn = un_Mux un \<and> un_Obj vn i = Some t \<and>
    s_IsExpiring t = s_IsExpiring s \<and> s_QueuedSockets t = s_QueuedSockets s \<and> \<not> u_Opened (s_UDT t) \<and> u_Out (s_UDT t) = []"
proof -
  have o: "un_Obj un i = Some s" using located [OF assms(1)] by simp
  let ?u = "(s_UDT s)\<lparr>u_Closing := True, u_Opened := False, u_Out := []\<rparr>"
  have c: "CUDT_close (e_us env) (e_tk env) (e_garbage env) (un_Cache un) (s_UDT s) =
      Some (?u\<lparr>u_Out := [UpdateEvents (UDT_EPOLL_IN + UDT_EPOLL_OUT) True, RemoveUsock]\<rparr>, un_Cache un)"
    using assms by (simp add: CUDT_close_def emit_def Let_def)
  let ?w = "poll (Remove i) (poll (Update i (UDT_EPOLL_IN + UDT_EPOLL_OUT) True) (upd_sock i (\<lambda>s. s\<lparr>s_UDT := ?u\<rparr>) un))"
  have d: "close_udt env i un = Some ?w"
    using o c assms(7) by (simp add: close_udt_def put_udt_def)
  then have "close env i un = Some (Inr 0, (upd_sock i (mark_closed (e_us env)) ?w)
      \<lparr>un_Sockets := del_id i (un_Sockets ?w), un_Closed := add_id i (un_Closed ?w)\<rparr>)"
    using assms(1,2) by (simp add: close_def)
  then show ?thesis using o assms(7) by (simp add: upd_sock_def poll_def mark_closed_def)
qed

lemma example_locate:
  "\<exists>s. locate 0 (example_united g) = Some s \<and> s_Status s = OPENED \<and> u_Opened (s_UDT s) \<and> \<not> u_Connected (s_UDT s) \<and>
     \<not> u_Listening (s_UDT s) \<and> \<not> u_Connecting (s_UDT s) \<and> u_Out (s_UDT s) = [] \<and> \<not> s_IsExpiring s \<and> s_QueuedSockets s = [] \<and>
     un_Sockets (example_united g) = [0] \<and> un_Closed (example_united g) = [] \<and> \<not> on_list 0 (example_united g)"
  by (simp add: example_united_def example_defs CUDT_new_def CUDT_open_def closed_status_def
      no_structures_def reset_trace_def on_list_def CRcvQueue_init_def CRcvUList_new_def)

lemma example_close:
  "\<exists>un s. close (example_env g 10) 0 (example_united g) = Some (Inr 0, un) \<and> un_Sockets un = [] \<and> un_Closed un = [0] \<and>
     un_Obj un 0 = Some s \<and> \<not> s_IsExpiring s \<and> s_QueuedSockets s = [] \<and> \<not> u_Opened (s_UDT s) \<and> u_Out (s_UDT s) = [] \<and>
     \<not> on_list 0 un"
proof -
  obtain s where s: "locate 0 (example_united g) = Some s" "s_Status s = OPENED" "u_Opened (s_UDT s)" "\<not> u_Connected (s_UDT s)"
      "\<not> u_Listening (s_UDT s)" "\<not> u_Connecting (s_UDT s)" "u_Out (s_UDT s) = []" "\<not> s_IsExpiring s" "s_QueuedSockets s = []"
      "un_Sockets (example_united g) = [0]" "un_Closed (example_united g) = []" "\<not> on_list 0 (example_united g)"
    using example_locate by blast
  show ?thesis using close_unconnected [OF s(1) _ s(3-7), of "example_env g 10"] s by (auto simp: del_id_def add_id_def on_list_def)
qed

lemma remove_lone_socket:
  assumes "un_Obj un i = Some s" "s_QueuedSockets s = []" "\<not> u_Opened (s_UDT s)" "u_Out (s_UDT s) = []"
  shows "\<exists>vn. removeSocket env i un = Some vn"
proof -
  have "un_Obj (forget_peer i s un) i = Some s" using assms by (simp add: forget_peer_def Let_def split: option.split)
  then have "\<exists>x. close_udt env i (forget_peer i s un) = Some x"
    using assms by (simp add: close_udt_def CUDT_close_def put_udt_def)
  then show ?thesis using assms by (auto simp: removeSocket_def)
qed

lemma check_lone_socket:
  assumes "un_Sockets un = []" "un_Closed un = [i]" "un_Obj un i = Some s" "s_QueuedSockets s = []"
    "\<not> u_Opened (s_UDT s)" "u_Out (s_UDT s) = []"
  shows "\<exists>vn. checkBrokenSockets env un = Some vn \<and> (\<not> s_IsExpiring s \<longrightarrow>
    vn = upd_sock i (start_expiring (e_us env)) un)"
proof -
  let ?y = "upd_sock i (start_expiring (e_us env)) un" and ?s = "start_expiring (e_us env) s"
  have y: "un_Obj ?y i = Some ?s" "un_Closed ?y = [i]" "un_Sockets ?y = []" using assms by (simp_all add: upd_sock_def)
  have c: "checkBrokenSockets env un = remove_all env (filter (expired (e_us env) ?y) [i]) ?y"
    using assms y by (simp add: checkBrokenSockets_def)
  obtain vn where "removeSocket env i ?y = Some vn"
    using remove_lone_socket [of ?y i ?s env] y assms by (auto simp: start_expiring_fields)
  then have "\<exists>vn. checkBrokenSockets env un = Some vn" unfolding c by simp
  moreover have "checkBrokenSockets env un = Some ?y" if "\<not> s_IsExpiring s"
    unfolding c using that y by (simp add: expired_def start_expiring_fields)
  ultimately show ?thesis by auto
qed

theorem closed_socket_removed_witness:
  "\<forall>g. \<exists>un vn wn. close (example_env g 10) 0 (example_united g) = Some (Inr 0, un) \<and>
     checkBrokenSockets (example_env g 20) un = Some vn \<and> checkBrokenSockets (example_env g 1000021) vn = Some wn \<and>
     getStatus 0 wn = NONEXIST"
proof
  fix g
  obtain un s where un: "close (example_env g 10) 0 (example_united g) = Some (Inr 0, un)" "un_Sockets un = []" "un_Closed un = [0]"
      "un_Obj un 0 = Some s" "\<not> s_IsExpiring s" "s_QueuedSockets s = []" "\<not> u_Opened (s_UDT s)" "u_Out (s_UDT s) = []"
      "\<not> on_list 0 un"
    using example_close by blast
  let ?vn = "upd_sock 0 (start_expiring 20) un"
  have v: "checkBrokenSockets (example_env g 20) un = Some ?vn"
    using check_lone_socket [OF un(2-4,6-8), of "example_env g 20"] un(5) by (simp add: example_env_def)
  have "un_Obj ?vn 0 = Some (start_expiring 20 s)" "un_Closed ?vn = [0]" "un_Sockets ?vn = []" using un by (simp_all add: upd_sock_def)
  then obtain wn where w: "checkBrokenSockets (example_env g 1000021) ?vn = Some wn"
    using check_lone_socket [of ?vn 0 "start_expiring 20 s" "example_env g 1000021"] un by (auto simp: start_expiring_fields)
  have "\<not> on_list 0 ?vn" using un(9) by (simp add: on_list_def upd_sock_def)
  then have "getStatus 0 wn = NONEXIST"
    using closed_socket_removed [OF _ _ un(4,5) v w] un(2,3) by (simp add: example_env_def)
  then show "\<exists>un vn wn. close (example_env g 10) 0 (example_united g) = Some (Inr 0, un) \<and>
     checkBrokenSockets (example_env g 20) un = Some vn \<and> checkBrokenSockets (example_env g 1000021) vn = Some wn \<and>
     getStatus 0 wn = NONEXIST"
    using un(1) v w by blast
qed

section \<open>New connections\<close>

lemma use_cache_broken: "use_cache cache peer (prepare_structures g us u) = Some v \<Longrightarrow> u_Broken v = u_Broken u"
proof -
  have "u_Broken (prepare_structures g us u) = u_Broken u" by (simp add: prepare_structures_def)
  then show "use_cache cache peer (prepare_structures g us u) = Some v \<Longrightarrow> u_Broken v = u_Broken u"
    by (auto simp: use_cache_def simp del: prepare_structures_def split: if_splits bind_splits)
qed

lemma connect_peer_broken:
  assumes "CUDT_connect_peer g mem us cache peer hs s = Some (Inr hs', s')"
  shows "u_Broken s' = u_Broken s"
proof -
  obtain h u where n: "negotiate us peer hs s = (h, u)" by fastforce
  obtain v where v: "use_cache cache peer (prepare_structures g us u) = Some v"
    and s': "s' = send_answer peer h (emit SetNewEntry ((start_cc us v)\<lparr>u_PeerAddr := Some peer, u_Connected := True\<rparr>))"
    using assms n by (auto simp: CUDT_connect_peer_def split: if_splits bind_splits)
  have "u_Broken u = u_Broken s"
    using n by (auto simp: negotiate_def expect_from_def start_sequence_def set_sizes_def Let_def split: if_splits)
  moreover have "u_Broken v = u_Broken u" using v by (rule use_cache_broken)
  ultimately show ?thesis using s' by (simp add: send_answer_def emit_def start_cc_def Let_def split: prod.split)
qed

lemma child_not_broken: "\<not> u_Broken (s_UDT (child_socket env l ls peer hs i))"
  by (simp add: child_socket_def CUDTSocket_new_def CUDT_open_def CUDT_copy_def closed_status_def reset_trace_def Let_def)

text \<open>What a new connection leaves behind.\<close>

definition admitted :: "int \<Rightarrow> int \<Rightarrow> sockaddr \<Rightarrow> CHandShake \<Rightarrow> CUDTUnited \<Rightarrow> CUDTUnited \<Rightarrow> bool" where
  "admitted i l peer hs un vn \<longleftrightarrow> un_SocketID vn = un_SocketID un \<and> i \<in> set (un_Sockets vn) \<and>
     (\<exists>s. un_Obj vn i = Some s \<and> s_Status s = CONNECTED \<and> s_PeerAddr s = Some peer \<and> \<not> u_Broken (s_UDT s) \<and>
        s_SocketID s = i) \<and>
     un_PeerRec vn (peer_key (m_iHsID hs) (m_iISN hs)) =
       Some (add_id i (case un_PeerRec un (peer_key (m_iHsID hs) (m_iISN hs)) of None \<Rightarrow> [] | Some js \<Rightarrow> js)) \<and>
     (i \<noteq> l \<longrightarrow> map_option s_QueuedSockets (un_Obj vn l) = map_option (add_id i \<circ> s_QueuedSockets) (un_Obj un l))"

lemma admit_child_result:
  assumes r: "admit_child env l peer hs i un = Some ((1, hs'), vn)" and ns: "un_Obj un i = Some ns"
    and n: "s_PeerAddr ns = Some peer" "\<not> u_Broken (s_UDT ns)" "s_SocketID ns = i" "s_PeerID ns = m_iHsID hs" "s_ISN ns = m_iISN hs"
  shows "admitted i l peer hs un vn"
proof -
  obtain c u where c: "CUDT_connect_peer (e_block env) (e_mem env) (e_us env) (un_Cache un) peer hs (s_UDT ns) = Some (c, u)"
    using r ns by (auto simp: admit_child_def split: if_splits bind_splits)
  obtain x where x: "put_udt i u un = Some x" using r ns c by (auto simp: admit_child_def split: if_splits bind_splits)
  obtain hs'' where c': "c = Inr hs''"
    using r ns c x by (cases c) (auto simp: admit_child_def split: if_splits bind_splits)
  let ?f = "\<lambda>s. s\<lparr>s_Status := CONNECTED, s_SelfAddr := local_addr (s_MuxID s) x s\<rparr>"
  let ?k = "peer_key (m_iHsID hs) (m_iISN hs)"
  let ?y = "upd_sock i ?f x"
  let ?z = "?y\<lparr>un_Sockets := add_id i (un_Sockets ?y), un_PeerRec := (un_PeerRec ?y)
    (?k \<mapsto> add_id i (case un_PeerRec ?y ?k of None \<Rightarrow> [] | Some js \<Rightarrow> js))\<rparr>"
  have v: "vn = poll (Update l UDT_EPOLL_IN True) (upd_sock l (\<lambda>ls. ls\<lparr>s_QueuedSockets := add_id i (s_QueuedSockets ls)\<rparr>) ?z)"
    using r ns c x c' n by (auto simp: admit_child_def Let_def split: if_splits)
  have f: "frame un x" by (rule frame_put_udt [OF x])
  obtain a where a: "un_Obj x i = Some a" "s_UDT a = u\<lparr>u_Out := []\<rparr>" using put_udt_result [OF x] by blast
  have "rel_option same_sock (un_Obj un i) (un_Obj x i)" using f by (simp add: frame_def)
  then have same: "same_sock ns a" using ns a by simp
  have b: "\<not> u_Broken (s_UDT a)" using connect_peer_broken [of _ _ _ _ peer hs "s_UDT ns"] c c' a n by auto
  have q: "map_option s_QueuedSockets (un_Obj x l) = map_option s_QueuedSockets (un_Obj un l)"
  proof -
    have "rel_option same_sock (un_Obj un l) (un_Obj x l)" using f by (simp add: frame_def)
    then show ?thesis by (cases "un_Obj un l"; cases "un_Obj x l") (auto simp: same_sock_def)
  qed
  have e: "un_SocketID x = un_SocketID un" "un_PeerRec x = un_PeerRec un" using f by (simp_all add: frame_def)
  have "\<exists>s. un_Obj vn i = Some s \<and> s_Status s = CONNECTED \<and> s_PeerAddr s = Some peer \<and> \<not> u_Broken (s_UDT s) \<and> s_SocketID s = i"
    using a b same n by (cases "l = i") (auto simp: v poll_def upd_sock_def same_sock_def)
  moreover have "i \<noteq> l \<longrightarrow> map_option s_QueuedSockets (un_Obj vn l) = map_option (add_id i \<circ> s_QueuedSockets) (un_Obj un l)"
    using q by (cases "un_Obj un l"; cases "un_Obj x l") (auto simp: v poll_def upd_sock_def)
  moreover have "i \<in> set (add_id i xs)" for xs by (simp add: add_id_def set_insort_key)
  ultimately show ?thesis by (simp add: admitted_def v poll_def upd_sock_def e)
qed

lemma updateMux_listener_same:
  "un_SocketID (updateMux_listener i ls un) = un_SocketID un" "un_PeerRec (updateMux_listener i ls un) = un_PeerRec un"
  "j \<noteq> i \<Longrightarrow> un_Obj (updateMux_listener i ls un) j = un_Obj un j"
  "un_Obj un i = Some s \<Longrightarrow> \<exists>m. un_Obj (updateMux_listener i ls un) i = Some (s\<lparr>s_MuxID := m\<rparr>)"
proof -
  have "\<exists>m. s = s\<lparr>s_MuxID := m\<rparr>" by (rule exI [of _ "s_MuxID s"]) simp
  then show "un_Obj un i = Some s \<Longrightarrow> \<exists>m. un_Obj (updateMux_listener i ls un) i = Some (s\<lparr>s_MuxID := m\<rparr>)"
    by (auto simp: updateMux_listener_def share_mux_def upd_sock_def upd_mux_def split: option.split)
qed (auto simp: updateMux_listener_def share_mux_def upd_sock_def upd_mux_def split: option.split)

lemma start_child_result:
  assumes r: "start_child env l peer hs un = Some ((1, hs'), vn)" and l: "un_Obj un l = Some ls" "un_SocketID un \<le> l"
  defines "i \<equiv> un_SocketID un - 1"
  shows "un_SocketID vn = i \<and> int (length (s_QueuedSockets ls)) < s_BackLog ls \<and>
    (\<exists>wn. admitted i l peer hs wn vn \<and> un_PeerRec wn = un_PeerRec un \<and> un_Obj wn l = Some ls)"
proof -
  let ?c = "child_socket env l ls peer hs i"
  let ?w = "un\<lparr>un_SocketID := i, un_Obj := (un_Obj un)(i \<mapsto> ?c)\<rparr>"
  let ?x = "updateMux_listener i ls ?w"
  have a: "admit_child env l peer hs i ?x = Some ((1, hs'), vn)" "int (length (s_QueuedSockets ls)) < s_BackLog ls"
    using r l by (auto simp: start_child_def Let_def i_def split: if_splits)
  obtain m where m: "un_Obj ?x i = Some (?c\<lparr>s_MuxID := m\<rparr>)" using updateMux_listener_same(4) [of ?w i ?c ls] by auto
  have c: "s_PeerAddr ?c = Some peer" "s_SocketID ?c = i" "s_PeerID ?c = m_iHsID hs" "s_ISN ?c = m_iISN hs"
    by (simp_all add: child_socket_def CUDTSocket_new_def Let_def)
  have "admitted i l peer hs ?x vn" by (rule admit_child_result [OF a(1) m]) (use c child_not_broken in simp_all)
  moreover have "un_PeerRec ?x = un_PeerRec un" "un_Obj ?x l = Some ls" "un_SocketID ?x = i"
    using l by (simp_all add: updateMux_listener_same i_def)
  moreover have "un_SocketID vn = un_SocketID ?x" using calculation by (simp add: admitted_def)
  ultimately show ?thesis using a(2) by (metis (full_types))
qed

text \<open>The ids handed out so far are above the counter, in the tables as well.\<close>

definition ids_ok :: "int \<Rightarrow> CUDTUnited \<Rightarrow> bool" where
  "ids_ok l un \<longleftrightarrow> un_SocketID un \<le> l \<and> (\<forall>k js. un_PeerRec un k = Some js \<longrightarrow> (\<forall>j\<in>set js. un_SocketID un \<le> j)) \<and>
     (\<forall>ls. un_Obj un l = Some ls \<longrightarrow> (\<forall>j\<in>set (s_QueuedSockets ls). un_SocketID un \<le> j))"

lemma newConnection_result:
  assumes r: "newConnection env l peer hs un = Some ((1, hs'), vn)" and ok: "ids_ok l un"
  shows "\<exists>wn ls. un_SocketID vn = un_SocketID un - 1 \<and> admitted (un_SocketID vn) l peer hs wn vn \<and> un_PeerRec wn = un_PeerRec un \<and>
    un_Obj wn l = Some ls \<and> int (length (s_QueuedSockets ls)) < s_BackLog ls \<and> (\<forall>j\<in>set (s_QueuedSockets ls). un_SocketID un \<le> j)"
proof -
  obtain ls0 where l0: "locate l un = Some ls0" using r by (auto simp: newConnection_def split: option.splits)
  note l0' = located [OF l0]
  obtain yn where y: "start_child env l peer hs yn = Some ((1, hs'), vn)"
    "yn = un \<or> (\<exists>i. yn = upd_sock l (forget_child i) (upd_sock i (mark_closed (e_us env)) un))"
    using r l0 by (auto simp: newConnection_def split: option.splits if_splits)
  obtain ls where ls: "un_Obj yn l = Some ls" using y(1) by (auto simp: start_child_def split: option.splits)
  have e: "un_SocketID yn = un_SocketID un" "un_PeerRec yn = un_PeerRec un" using y(2) by (auto simp: upd_sock_def)
  have "set (s_QueuedSockets ls) \<subseteq> set (s_QueuedSockets ls0)"
    using y(2) ls l0' by (auto simp: upd_sock_def forget_child_def del_id_def mark_closed_def split: if_splits)
  then have q: "\<forall>j\<in>set (s_QueuedSockets ls). un_SocketID un \<le> j" using ok l0' by (auto simp: ids_ok_def)
  have "un_SocketID yn \<le> l" using ok e by (simp add: ids_ok_def)
  from start_child_result [OF y(1) ls this] show ?thesis using e q by auto
qed

lemma add_least: "\<forall>j\<in>set xs. i < j \<Longrightarrow> add_id i xs = i # xs"
  by (cases xs) (auto simp: add_id_def)

text \<open>A request that is granted: a listener with room, memory, and a cache that answers.\<close>

lemma connect_peer_granted:
  assumes "mem = (\<lambda>_. True)" "\<forall>u. \<exists>v. use_cache cache peer u = Some v" "u_Out s = []"
  shows "\<exists>hs' s' p. CUDT_connect_peer g mem us cache peer hs s = Some (Inr hs', s') \<and> u_Out s' = [SetNewEntry, SendTo peer p]"
proof -
  obtain h u where n: "negotiate us peer hs s = (h, u)" by fastforce
  obtain v where v: "use_cache cache peer (prepare_structures g us u) = Some v" using assms(2) by blast
  have "u_Out u = u_Out s"
    using n by (auto simp: negotiate_def expect_from_def start_sequence_def set_sizes_def Let_def split: if_splits)
  moreover have "u_Out (prepare_structures g us u) = u_Out u" by (simp add: prepare_structures_def)
  then have "u_Out v = u_Out u" using v by (auto simp: use_cache_def split: if_splits)
  ultimately show ?thesis
    using assms(1,3) n v by (simp add: CUDT_connect_peer_def send_answer_def emit_def start_cc_def Let_def split: prod.split)
qed

lemma child_fields:
  "u_Out (s_UDT (child_socket env l ls peer hs i)) = []" "s_PeerID (child_socket env l ls peer hs i) = m_iHsID hs"
  "s_ISN (child_socket env l ls peer hs i) = m_iISN hs"
  by (simp_all add: child_socket_def CUDTSocket_new_def CUDT_open_def CUDT_copy_def no_structures_def closed_status_def
      reset_trace_def Let_def)

lemma request_granted:
  assumes l: "locate l un = Some ls" "locate_peer peer (m_iHsID hs) (m_iISN hs) un = None" "un_SocketID un \<le> l"
    and room: "int (length (s_QueuedSockets ls)) < s_BackLog ls" "e_alloc env" "e_mem env = (\<lambda>_. True)"
    and mux: "List.find (\<lambda>m. mux_Port m = ntohs (sin_port (the (s_SelfAddr ls)))) (un_Mux un) = Some m" "mux_ID m \<noteq> - 1"
    and cache: "\<forall>u. \<exists>v. use_cache (un_Cache un) peer u = Some v"
  shows "\<exists>hs' vn. newConnection env l peer hs un = Some ((1, hs'), vn) \<and>
    locate l vn = Some (ls\<lparr>s_QueuedSockets := add_id (un_SocketID un - 1) (s_QueuedSockets ls)\<rparr>)"
proof -
  define i where "i = un_SocketID un - 1"
  define w where "w = un\<lparr>un_SocketID := i, un_Obj := (un_Obj un)(i \<mapsto> child_socket env l ls peer hs i)\<rparr>"
  define x where "x = updateMux_listener i ls w"
  define ns where "ns = (child_socket env l ls peer hs i)\<lparr>s_MuxID := mux_ID m\<rparr>"
  note l' = located [OF l(1)]
  have il: "i \<noteq> l" using l(3) by (simp add: i_def)
  have x: "un_Obj x i = Some ns" "un_Cache x = un_Cache un" "un_Sockets x = un_Sockets un" "un_Obj x l = Some ls"
    using mux il l' by (simp_all add: x_def w_def updateMux_listener_def share_mux_def upd_sock_def upd_mux_def ns_def)
  have ns: "u_Out (s_UDT ns) = []" "s_MuxID ns \<noteq> - 1" using mux by (simp_all add: ns_def child_fields)
  obtain hs' s' p where c: "CUDT_connect_peer (e_block env) (e_mem env) (e_us env) (un_Cache x) peer hs (s_UDT ns) = Some (Inr hs', s')"
      "u_Out s' = [SetNewEntry, SendTo peer p]"
    using connect_peer_granted [OF room(3) cache ns(1)] x(2) by metis
  obtain y where y: "put_udt i s' x = Some y" "un_Obj y l = Some ls" "un_Sockets y = un_Sockets un"
    using x il c(2) by (simp add: put_udt_def upd_sock_def upd_mux_def)
  obtain vn where "admit_child env l peer hs i x = Some ((1, hs'), vn)" "un_Sockets vn = add_id i (un_Sockets un)"
      "un_Obj vn l = Some (ls\<lparr>s_QueuedSockets := add_id i (s_QueuedSockets ls)\<rparr>)"
    using c(1) x(1) y ns(2) il by (simp add: admit_child_def Let_def upd_sock_def poll_def)
  moreover have "start_child env l peer hs un = admit_child env l peer hs i x"
    using l' room by (simp add: start_child_def Let_def i_def x_def w_def)
  ultimately show ?thesis
    using l l' by (simp add: newConnection_def i_def [symmetric] locate_def add_id_def set_insort_key)
qed

text \<open>C24: a connection request that has been granted and comes again meets the socket it has made: the listener
  answers with that socket's data, and no second socket is made.\<close>

theorem repeated_request_answered:
  assumes "newConnection env l peer hs un = Some ((1, hs'), vn)" "ids_ok l un" "locate l vn = Some ls"
  shows "\<exists>s. un_Obj vn (un_SocketID vn) = Some s \<and>
    newConnection env' l peer hs vn = Some ((0, existing_answer s hs), vn)"
proof -
  let ?i = "un_SocketID vn" and ?k = "peer_key (m_iHsID hs) (m_iISN hs)"
  obtain wn where w: "?i = un_SocketID un - 1" "admitted ?i l peer hs wn vn" "un_PeerRec wn = un_PeerRec un"
    using newConnection_result [OF assms(1,2)] by blast
  obtain s where s: "un_Obj vn ?i = Some s" "s_PeerAddr s = Some peer" "\<not> u_Broken (s_UDT s)" "?i \<in> set (un_Sockets vn)"
    using w(2) by (auto simp: admitted_def)
  define js where "js = (case un_PeerRec un ?k of None \<Rightarrow> [] | Some js \<Rightarrow> js)"
  have "\<forall>j\<in>set js. ?i < j" using assms(2) w(1) by (cases "un_PeerRec un ?k") (force simp: ids_ok_def js_def)+
  then have k: "un_PeerRec vn ?k = Some (?i # js)" using w(2,3) add_least [of js ?i] by (simp add: admitted_def js_def)
  have "locate_peer peer (m_iHsID hs) (m_iISN hs) vn = Some s"
    using k s by (simp add: locate_peer_def List.map_filter_simps ipcmp_def list_all_iff)
  then show ?thesis using s assms(3) by (auto simp: newConnection_def)
qed

text \<open>The socket of the example listens, and a request comes.\<close>

definition example_listener :: "CUDT \<Rightarrow> CUDTUnited" where
  "example_listener g = snd (the (listen 0 10 (example_united g)))"

lemma listen_opened:
  assumes "locate i un = Some s" "s_Status s = OPENED" "0 < b" "listener_free (s_MuxID s) un"
    and "u_Opened (s_UDT s)" "\<not> u_Connecting (s_UDT s)" "\<not> u_Connected (s_UDT s)" "\<not> u_Listening (s_UDT s)"
    and "\<not> u_Rendezvous (s_UDT s)" "u_Out (s_UDT s) = []"
  shows "\<exists>vn. listen i b un = Some (Inr 0, vn) \<and> un_Sockets vn = un_Sockets un \<and> un_SocketID vn = un_SocketID un \<and>
    un_PeerRec vn = un_PeerRec un \<and> un_Cache vn = un_Cache un \<and>
    un_Mux vn = un_Mux (upd_mux (s_MuxID s) (upd_rcv (\<lambda>q. snd (CRcvQueue_setListener i q))) un) \<and>
    (\<exists>ls. un_Obj vn i = Some ls \<and> s_Status ls = LISTENING \<and> s_BackLog ls = b \<and> s_QueuedSockets ls = [] \<and>
      s_SelfAddr ls = s_SelfAddr s \<and> \<not> u_Rendezvous (s_UDT ls))"
  using located [OF assms(1)] assms
  by (simp add: listen_def CUDT_listen_def listener_free_def find_mux_def emit_def put_udt_def poll_def upd_sock_def upd_mux_def Let_def)

lemma example_bound:
  "\<exists>s m. un_Obj (example_united g) 0 = Some s \<and> s_MuxID s = 0 \<and> s_SelfAddr s = Some example_name \<and> \<not> u_Rendezvous (s_UDT s) \<and>
     un_Mux (example_united g) = [m] \<and> mux_ID m = 0 \<and> mux_Port m = ntohs (sin_port example_name) \<and>
     listener_free 0 (example_united g) \<and> un_SocketID (example_united g) = 0 \<and>
     un_PeerRec (example_united g) = (\<lambda>_. None) \<and> un_Cache (example_united g) = CCache_new 1024"
  by (simp add: example_united_def example_defs find_mux_def listener_free_def CUDT_new_def CUDT_open_def CRcvQueue_init_def
      closed_status_def no_structures_def reset_trace_def)

lemma example_listening:
  "\<exists>ls m. locate 0 (example_listener g) = Some ls \<and> s_Status ls = LISTENING \<and> \<not> u_Rendezvous (s_UDT ls) \<and>
     s_QueuedSockets ls = [] \<and> s_BackLog ls = 10 \<and> un_SocketID (example_listener g) = 0 \<and>
     un_PeerRec (example_listener g) = (\<lambda>_. None) \<and>
     List.find (\<lambda>m. mux_Port m = ntohs (sin_port (the (s_SelfAddr ls)))) (un_Mux (example_listener g)) = Some m \<and> mux_ID m = 0 \<and>
     un_Cache (example_listener g) = CCache_new 1024"
proof -
  obtain s where s: "locate 0 (example_united g) = Some s" "s_Status s = OPENED" "u_Opened (s_UDT s)" "\<not> u_Connected (s_UDT s)"
      "\<not> u_Listening (s_UDT s)" "\<not> u_Connecting (s_UDT s)" "u_Out (s_UDT s) = []"
    using example_locate by blast
  obtain m where m: "s_MuxID s = 0" "s_SelfAddr s = Some example_name" "\<not> u_Rendezvous (s_UDT s)"
      "un_Mux (example_united g) = [m]" "mux_ID m = 0" "mux_Port m = ntohs (sin_port example_name)"
      "listener_free 0 (example_united g)" "un_SocketID (example_united g) = 0"
      "un_PeerRec (example_united g) = (\<lambda>_. None)" "un_Cache (example_united g) = CCache_new 1024"
    using example_bound [of g] located [OF s(1)] by auto
  obtain vn ls where "listen 0 10 (example_united g) = Some (Inr 0, vn)" "un_Sockets vn = un_Sockets (example_united g)"
      "un_SocketID vn = 0" "un_PeerRec vn = (\<lambda>_. None)" "un_Cache vn = CCache_new 1024"
      "un_Mux vn = un_Mux (upd_mux 0 (upd_rcv (\<lambda>q. snd (CRcvQueue_setListener 0 q))) (example_united g))"
      "un_Obj vn 0 = Some ls" "s_Status ls = LISTENING" "s_BackLog ls = 10" "s_QueuedSockets ls = []"
      "s_SelfAddr ls = s_SelfAddr s" "\<not> u_Rendezvous (s_UDT ls)"
    using listen_opened [OF s(1,2), of 10] s m by auto
  then show ?thesis using m located [OF s(1)]
    by (simp add: example_listener_def locate_def upd_mux_def upd_rcv_def)
qed

definition example_request :: CHandShake where
  "example_request = \<lparr>m_iVersion = 4, m_iType = 1, m_iISN = 7, m_iMSS = 1500, m_iFlightFlagSize = 8192, m_iReqType = - 1,
     m_iHsID = 5, m_iCookie = 0, m_piPeerIP = [0, 0, 0, 0]\<rparr>"

lemma example_granted:
  "\<exists>hs' vn ls. newConnection (example_env g 10) 0 example_name example_request (example_listener g) = Some ((1, hs'), vn) \<and>
     ids_ok 0 (example_listener g) \<and> locate 0 vn = Some ls \<and> s_Status ls = LISTENING \<and> \<not> u_Rendezvous (s_UDT ls) \<and>
     s_QueuedSockets ls = [- 1]"
proof -
  obtain ls m where l: "locate 0 (example_listener g) = Some ls" "s_Status ls = LISTENING" "\<not> u_Rendezvous (s_UDT ls)"
      "s_QueuedSockets ls = []" "s_BackLog ls = 10" "un_SocketID (example_listener g) = 0"
      "un_PeerRec (example_listener g) = (\<lambda>_. None)"
      "List.find (\<lambda>m. mux_Port m = ntohs (sin_port (the (s_SelfAddr ls)))) (un_Mux (example_listener g)) = Some m" "mux_ID m = 0"
      "un_Cache (example_listener g) = CCache_new 1024"
    using example_listening by blast
  have "CCache_lookup d (CCache_new 1024) = Some (- 1, d)" for d
    by (simp add: CCache_lookup_def CCache_new_def cache_slot_def aget_def Let_def)
  then have c: "\<forall>u. \<exists>v. use_cache (un_Cache (example_listener g)) example_name u = Some v"
    using l(10) by (simp add: use_cache_def)
  have "ids_ok 0 (example_listener g)" using l located [OF l(1)] by (simp add: ids_ok_def)
  moreover have "locate_peer a b c (example_listener g) = None" for a b c using l(7) by (simp add: locate_peer_def)
  ultimately show ?thesis
    using request_granted [OF l(1) _ _ _ _ _ l(8) _ c, of example_request "example_env g 10"] l
    by (auto simp: example_env_def add_id_def)
qed

theorem repeated_request_answered_witness:
  "\<forall>g. \<exists>hs' vn s. newConnection (example_env g 10) 0 example_name example_request (example_listener g) = Some ((1, hs'), vn) \<and>
     un_Obj vn (- 1) = Some s \<and>
     newConnection (example_env g 20) 0 example_name example_request vn = Some ((0, existing_answer s example_request), vn)"
proof
  fix g
  obtain hs' vn ls where v: "newConnection (example_env g 10) 0 example_name example_request (example_listener g) = Some ((1, hs'), vn)"
      "ids_ok 0 (example_listener g)" "locate 0 vn = Some ls"
    using example_granted by blast
  have "un_SocketID vn = - 1" using newConnection_result [OF v(1,2)] example_listening [of g] by auto
  with repeated_request_answered [OF v, of "example_env g 20"] v(1)
  show "\<exists>hs' vn s. newConnection (example_env g 10) 0 example_name example_request (example_listener g) = Some ((1, hs'), vn) \<and>
     un_Obj vn (- 1) = Some s \<and>
     newConnection (example_env g 20) 0 example_name example_request vn = Some ((0, existing_answer s example_request), vn)"
    by auto
qed

text \<open>C34: after a request has been granted, \<open>accept\<close> takes the connection just made and not one that waits longer:
  ids go down, and the queue is ordered by them.\<close>

theorem accept_takes_newest:
  assumes "newConnection env l peer hs un = Some ((1, hs'), vn)" "ids_ok l un"
    and "locate l vn = Some ls" "s_Status ls = LISTENING" "\<not> u_Rendezvous (s_UDT ls)"
  shows "\<exists>wn ls'. accept l False vn = Some (Inr (un_SocketID vn, None), wn) \<and> un_Obj wn l = Some ls' \<and>
    s_QueuedSockets ls = un_SocketID vn # s_QueuedSockets ls'"
proof -
  obtain wn old where w: "un_SocketID vn = un_SocketID un - 1" "admitted (un_SocketID vn) l peer hs wn vn" "un_Obj wn l = Some old"
      "\<forall>j\<in>set (s_QueuedSockets old). un_SocketID un \<le> j"
    using newConnection_result [OF assms(1,2)] by blast
  have "un_SocketID vn \<noteq> l" using w(1) assms(2) by (simp add: ids_ok_def)
  then have "s_QueuedSockets ls = add_id (un_SocketID vn) (s_QueuedSockets old)"
    using w(2,3) located [OF assms(3)] by (auto simp: admitted_def)
  moreover have "\<forall>j\<in>set (s_QueuedSockets old). un_SocketID vn < j" using w(1,4) by auto
  ultimately have "s_QueuedSockets ls = un_SocketID vn # s_QueuedSockets old" by (simp add: add_least)
  then show ?thesis using assms(3-5) located [OF assms(3)] by (simp add: accept_def upd_sock_def poll_def)
qed

theorem accept_takes_newest_witness:
  "\<forall>g. \<exists>hs' vn wn. newConnection (example_env g 10) 0 example_name example_request (example_listener g) = Some ((1, hs'), vn) \<and>
     accept 0 False vn = Some (Inr (- 1, None), wn)"
proof
  fix g
  obtain hs' vn ls where v: "newConnection (example_env g 10) 0 example_name example_request (example_listener g) = Some ((1, hs'), vn)"
      "ids_ok 0 (example_listener g)" "locate 0 vn = Some ls" "s_Status ls = LISTENING" "\<not> u_Rendezvous (s_UDT ls)"
    using example_granted by blast
  have "un_SocketID vn = - 1" using newConnection_result [OF v(1,2)] example_listening [of g] by auto
  with accept_takes_newest [OF v] v(1)
  show "\<exists>hs' vn wn. newConnection (example_env g 10) 0 example_name example_request (example_listener g) = Some ((1, hs'), vn) \<and>
     accept 0 False vn = Some (Inr (- 1, None), wn)"
    by auto
qed

end
