(* ===== verification/Messages.thy ===== *)
theory Messages imports SndBuffer begin

text \<open>
  How the sender's buffer (\<open>CSndBuffer\<close> of \<open>buffer.cpp\<close>) cuts messages into packets: the boundary bits of the message
  word say where a message starts and ends, so a stream of packets is messages one after the other. The
  lemmas on positions find the message that a packet belongs to.
\<close>

section \<open>The message word\<close>

definition boundary :: "uint32 \<Rightarrow> int" where
  "boundary x = uint (drop_bit 30 x)"

definition in_order :: "uint32 \<Rightarrow> bool" where
  "in_order x \<longleftrightarrow> 1 = drop_bit 29 x AND 1"

lemma boundary_range: "0 \<le> boundary x \<and> boundary x \<le> 3"
proof -
  have "uint x < 2 ^ 32" using uint_lt2p [of x] by simp
  moreover have "0 \<le> uint x" by simp
  ultimately have "0 \<le> uint x div 2 ^ 30" "uint x div 2 ^ 30 \<le> 3" by (simp_all add: pos_imp_zdiv_nonneg_iff)
  then show ?thesis unfolding boundary_def uint_drop_bit32 ..
qed

lemma small_bits:
  assumes "0 \<le> n" "n < 2 ^ 29"
  shows "drop_bit 29 (word_of_int n :: uint32) = 0" "drop_bit 30 (word_of_int n :: uint32) = 0"
proof -
  have "uint (word_of_int n :: uint32) = n" using assms by (simp add: uint_word_of_int)
  then have "uint (drop_bit 29 (word_of_int n :: uint32)) = 0" "uint (drop_bit 30 (word_of_int n :: uint32)) = 0"
    using assms by (simp_all add: uint_drop_bit32)
  then show "drop_bit 29 (word_of_int n :: uint32) = 0" "drop_bit 30 (word_of_int n :: uint32) = 0" by (simp_all only: uint_0_iff)
qed

lemma boundary_msg_word:
  assumes "0 \<le> n" "n < 2 ^ 29"
  shows "boundary (msg_word n order sz i) = (if i = 0 then 2 else 0) + (if i = sz - 1 then 1 else 0)"
  by (simp add: boundary_def msg_word_def boundary_bits_def drop_bit_or small_bits [OF assms])

lemma in_order_msg_word:
  assumes "0 \<le> n" "n < 2 ^ 29"
  shows "in_order (msg_word n order sz i) \<longleftrightarrow> order"
  by (simp add: in_order_def msg_word_def boundary_bits_def drop_bit_or small_bits [OF assms])

definition msg_number :: "uint32 \<Rightarrow> uint32" where
  "msg_number x = x AND 0x1FFFFFFF"

lemma msg_number_word:
  assumes "0 \<le> n" "n < 2 ^ 29"
  shows "msg_number (msg_word n order sz i) = word_of_int n"
proof -
  have m: "(0x1FFFFFFF :: uint32) = mask 29" by (simp add: mask_eq_exp_minus_1)
  have "take_bit 29 (word_of_int n :: uint32) = word_of_int n"
    by (simp add: take_bit_eq_self_iff_drop_bit_eq_0 small_bits [OF assms])
  then have "word_of_int n AND mask 29 = (word_of_int n :: uint32)" by (simp only: take_bit_eq_mask)
  moreover have "push_bit 29 1 AND mask 29 = (0 :: uint32)" "0x80000000 AND mask 29 = (0 :: uint32)" "0x40000000 AND mask 29 = (0 :: uint32)"
    by (simp_all flip: m)
  ultimately show ?thesis
    unfolding msg_number_def m msg_word_def boundary_bits_def by (simp add: bit.conj_disj_distrib2)
qed

section \<open>One message\<close>

definition one_message :: "bool \<Rightarrow> (byte list \<times> uint32) list \<Rightarrow> bool" where
  "one_message order ps \<longleftrightarrow> ps \<noteq> [] \<and>
     (\<forall>i<length ps. fst (ps ! i) \<noteq> [] \<and> (in_order (snd (ps ! i)) \<longleftrightarrow> order) \<and>
        boundary (snd (ps ! i)) = (if i = 0 then 2 else 0) + (if i = length ps - 1 then 1 else 0))"

definition numbers_messages :: "CSndBuffer \<Rightarrow> bool" where
  "numbers_messages b \<longleftrightarrow> 1 \<le> sb_NextMsgNo b \<and> sb_NextMsgNo b < m_iMaxMsgNo"

lemma message_packets_one:
  assumes "numbers_messages b" "0 < sb_MSS b" "0 < len" "int (length data) = len"
  shows "one_message order (message_packets data len order b)"
proof -
  define n where "n = msg_blocks len b"
  note n = msg_blocks_bounds [OF assms(3,2), folded n_def]
  have w: "0 \<le> sb_NextMsgNo b" "sb_NextMsgNo b < 2 ^ 29" using assms(1) by (simp_all add: numbers_messages_def serial_consts)
  have l: "length (message_packets data len order b) = nat n" by (simp add: message_packets_def n_def)
  have at: "message_packets data len order b ! i = (msg_chunk data len (sb_MSS b) (int i), msg_word (sb_NextMsgNo b) order n (int i))"
    if "i < nat n" for i
    using that by (simp add: message_packets_def n_def [symmetric])
  have full: "msg_chunk data len (sb_MSS b) (int i) \<noteq> []" if "i < nat n" for i
  proof -
    have "int i * sb_MSS b \<le> (n - 1) * sb_MSS b" using that assms(2) by (intro mult_right_mono) auto
    then have "int i * sb_MSS b < len" "0 \<le> int i * sb_MSS b" using n(2) assms(2) by (linarith, simp)
    then have "nat (int i * sb_MSS b) < length data" "\<not> min (len - int i * sb_MSS b) (sb_MSS b) \<le> 0"
      using assms(2,4) by (linarith, simp add: min_le_iff_disj)
    then show ?thesis by (simp add: msg_chunk_def)
  qed
  show ?thesis
    unfolding one_message_def l using n(1) at full boundary_msg_word [OF w] in_order_msg_word [OF w] l by auto
qed

lemma fill_blocks_msgno: "sb_NextMsgNo (snd (fill_blocks data len ttl order time sz i s b)) = sb_NextMsgNo b"
proof (induction data len ttl order time sz i s b rule: fill_blocks.induct)
  case (1 data len ttl order time sz i s b)
  then show ?case by (subst fill_blocks.simps) (simp add: Let_def put_block_def)
qed

lemma addBuffer_numbers:
  assumes "numbers_messages b" "ring b us vs ws" "CSndBuffer_addBuffer g (\<lambda>_. True) time data len ttl order b = Some (Inr b')"
  shows "numbers_messages b'"
proof -
  obtain b1 where b1: "grow g (\<lambda>_. True) (msg_blocks len b) b = Some (Inr b1)" "sb_NextMsgNo b1 = sb_NextMsgNo b"
    using grow_ring [OF assms(2) refl, of g "msg_blocks len b"] by blast
  obtain s b2 where f: "fill_blocks data len ttl order time (msg_blocks len b) 0 (sb_Last b1) b1 = (s, b2)" by fastforce
  have "sb_NextMsgNo b2 = sb_NextMsgNo b1" using fill_blocks_msgno [of data len ttl order time _ 0 "sb_Last b1" b1] f by (metis snd_conv)
  then show ?thesis using assms(1,3) b1 f by (auto simp: CSndBuffer_addBuffer_def Let_def numbers_messages_def serial_consts split: if_split_asm)
qed

lemma addBuffer_msgno:
  assumes "ring b us vs ws" "CSndBuffer_addBuffer g (\<lambda>_. True) time data len ttl order b = Some (Inr b')"
  shows "sb_NextMsgNo b' = (if sb_NextMsgNo b + 1 = m_iMaxMsgNo then 1 else sb_NextMsgNo b + 1)"
proof -
  obtain b1 where b1: "grow g (\<lambda>_. True) (msg_blocks len b) b = Some (Inr b1)" "sb_NextMsgNo b1 = sb_NextMsgNo b"
    using grow_ring [OF assms(1) refl, of g "msg_blocks len b"] by blast
  obtain s b2 where f: "fill_blocks data len ttl order time (msg_blocks len b) 0 (sb_Last b1) b1 = (s, b2)" by fastforce
  have "sb_NextMsgNo b2 = sb_NextMsgNo b1" using fill_blocks_msgno [of data len ttl order time _ 0 "sb_Last b1" b1] f by (metis snd_conv)
  then show ?thesis using assms(2) b1 f by (auto simp: CSndBuffer_addBuffer_def Let_def split: if_split_asm)
qed

lemma chunk_length: "0 < mss \<Longrightarrow> int (length (msg_chunk data len mss i)) \<le> mss"
  by (simp add: msg_chunk_def)

text \<open>C14: adding a message always succeeds when memory can be had: the buffer grows as needed, the
  message is cut into packets that together are the data, none empty and none longer than a block, and the packets
  wait behind those that waited before. The first and the last of them, and only they, say so in their message words; each
  carries the order flag and the buffer's message number, which then moves on, back to 1 at the end.\<close>

theorem message_is_queued:
  assumes inv: "sb_inv b" "numbers_messages b" and len: "0 < len" "int (length data) = len"
    and add: "CSndBuffer_addBuffer garbage (\<lambda>_. True) time data len ttl order b = res"
  shows "\<exists>b' ps. res = Some (Inr b') \<and> sb_inv b' \<and> numbers_messages b' \<and> pending b' = pending b @ ps \<and>
    concat (map fst ps) = data \<and> one_message order ps \<and>
    (\<forall>p\<in>set ps. msg_number (snd p) = word_of_int (sb_NextMsgNo b) \<and> int (length (fst p)) \<le> sb_MSS b) \<and>
    sb_NextMsgNo b' = (if sb_NextMsgNo b + 1 = m_iMaxMsgNo then 1 else sb_NextMsgNo b + 1) \<and>
    int (length ps) = msg_blocks len b \<and>
    CSndBuffer_getCurrBufSize b' = CSndBuffer_getCurrBufSize b + msg_blocks len b"
proof -
  let ?ps = "message_packets data len order b"
  obtain us vs ws where r: "ring b us vs ws" using inv(1) by (auto simp: sb_inv_def)
  then have m: "0 < sb_MSS b" by (simp add: ring_def)
  obtain b' ns rest where b': "res = Some (Inr b')" "ring b' us (vs @ ns) rest" "\<forall>n\<in>set (us @ vs). sb_Block b' n = sb_Block b n"
      "packets b' ns = ?ps" "sb_Count b' = sb_Count b + msg_blocks len b"
    using addBuffer_ring [OF r len add] by blast
  have n: "0 \<le> sb_NextMsgNo b" "sb_NextMsgNo b < 2 ^ 29" using inv(2) by (simp_all add: numbers_messages_def serial_consts)
  have "packets b' vs = packets b vs" using b'(3) by (intro packets_mono) simp
  then have "pending b' = pending b @ ?ps"
    using ring_pending [OF b'(2)] ring_pending [OF r] b'(4) by (simp add: packets_def)
  moreover have "\<forall>p\<in>set ?ps. msg_number (snd p) = word_of_int (sb_NextMsgNo b) \<and> int (length (fst p)) \<le> sb_MSS b"
    using msg_number_word [OF n] chunk_length [OF m] by (auto simp: message_packets_def)
  moreover have "int (length ?ps) = msg_blocks len b"
    using msg_blocks_bounds(1) [OF len(1) m] by (simp add: message_packets_def)
  ultimately show ?thesis
    using b' concat_message [OF m len] message_packets_one [OF inv(2) m len] addBuffer_msgno [OF r] addBuffer_numbers [OF inv(2) r] add
    by (intro exI [of _ b'] exI [of _ ?ps]) (auto simp: sb_inv_def CSndBuffer_getCurrBufSize_def simp del: One_nat_def)
qed

theorem message_is_queued_witness:
  "\<exists>b' ps. CSndBuffer_addBuffer (\<lambda>_. undefined) (\<lambda>_. True) 0 [1, 2, 3, 4, 5] 5 (-1) False (CSndBuffer_new (\<lambda>_. undefined) 2 2)
      = Some (Inr b') \<and> pending b' = ps \<and> concat (map fst ps) = [1, 2, 3, 4, 5] \<and> length ps = 3 \<and>
    map (\<lambda>p. boundary (snd p)) ps = [2, 0, 1] \<and> (\<forall>p\<in>set ps. msg_number (snd p) = 1 \<and> \<not> in_order (snd p))"
proof -
  let ?b = "CSndBuffer_new (\<lambda>_. undefined) 2 2"
  have r: "ring ?b [] [] [0..<nat 2]" by (rule new_ring) simp_all
  then have i: "sb_inv ?b" unfolding sb_inv_def by blast
  have n: "numbers_messages ?b" by (simp add: numbers_messages_def CSndBuffer_new_def serial_consts)
  have p: "pending ?b = []" using ring_pending [OF r] by (simp add: packets_def)
  have c: "msg_blocks 5 ?b = 3" "sb_NextMsgNo ?b = 1" by (simp_all add: msg_blocks_def CSndBuffer_new_def)
  obtain b' ps where b': "CSndBuffer_addBuffer (\<lambda>_. undefined) (\<lambda>_. True) 0 [1, 2, 3, 4, 5] 5 (-1) False ?b = Some (Inr b')"
      "pending b' = ps" "concat (map fst ps) = [1, 2, 3, 4, 5]" "one_message False ps" "int (length ps) = 3"
      "\<forall>p\<in>set ps. msg_number (snd p) = 1"
    using message_is_queued [OF i n _ _ refl, of 5 "[1, 2, 3, 4, 5]" "\<lambda>_. undefined" 0 "- 1" False] c p by auto
  then have l: "length ps = 3" by simp
  then obtain x y z where ps: "ps = [x, y, z]" by (auto simp: numeral_3_eq_3 length_Suc_conv)
  have at: "boundary (snd (ps ! i)) = (if i = 0 then 2 else 0) + (if i = 2 then 1 else 0) \<and> \<not> in_order (snd (ps ! i))" if "i < 3" for i
    using b'(4) l that by (simp add: one_message_def)
  have "map (\<lambda>p. boundary (snd p)) ps = [2, 0, 1]" "\<forall>p\<in>set ps. \<not> in_order (snd p)"
    using at [of 0] at [of 1] at [of 2] by (simp_all add: ps)
  then show ?thesis using b'(1-3,6) l by (intro exI [of _ b'] exI [of _ ps]) simp
qed

section \<open>Messages one after the other\<close>

text \<open>A stream is the messages \<open>ms\<close>, each with its order flag, cut into packets.\<close>

definition cut_up :: "(byte list \<times> bool) list \<Rightarrow> (byte list \<times> uint32) list \<Rightarrow> bool" where
  "cut_up ms stream \<longleftrightarrow> (\<exists>pss. stream = concat pss \<and>
     list_all2 (\<lambda>(data, order) ps. concat (map fst ps) = data \<and> one_message order ps) ms pss)"

lemma cut_up_nil: "cut_up [] []"
  by (simp add: cut_up_def)

lemma cut_up_more:
  assumes "cut_up ms st" "concat (map fst ps) = data" "one_message order ps"
  shows "cut_up (ms @ [(data, order)]) (st @ ps)"
proof -
  obtain pss where "st = concat pss" "list_all2 (\<lambda>(data, order) ps. concat (map fst ps) = data \<and> one_message order ps) ms pss"
    using assms(1) by (auto simp: cut_up_def)
  then show ?thesis unfolding cut_up_def using assms(2,3) by (intro exI [of _ "pss @ [ps]"]) (simp add: list_all2_appendI)
qed

lemma cut_up_bytes: "cut_up ms st \<Longrightarrow> concat (map fst st) = concat (map fst ms)"
proof -
  have "list_all2 (\<lambda>(data, order) ps. concat (map fst ps) = data \<and> one_message order ps) ms pss \<Longrightarrow>
      concat (map fst (concat pss)) = concat (map fst ms)" for pss
    by (induction ms pss rule: list_all2_induct) auto
  then show "cut_up ms st \<Longrightarrow> concat (map fst st) = concat (map fst ms)" by (auto simp: cut_up_def)
qed

text \<open>Each packet has at least one byte.\<close>

lemma cut_up_length: "cut_up ms st \<Longrightarrow> length st \<le> length (concat (map fst ms))"
proof -
  have one: "one_message order ps \<Longrightarrow> length ps \<le> length (concat (map fst ps))" for order ps
  proof -
    assume "one_message order ps"
    then have "\<forall>p\<in>set ps. fst p \<noteq> []" by (metis one_message_def in_set_conv_nth)
    then have "\<forall>p\<in>set ps. 1 \<le> length (fst p)" by (simp add: Suc_le_eq)
    then show "length ps \<le> length (concat (map fst ps))" by (induction ps) auto
  qed
  have "list_all2 (\<lambda>(data, order) ps. concat (map fst ps) = data \<and> one_message order ps) ms pss \<Longrightarrow>
      length (concat pss) \<le> length (concat (map fst ms))" for pss
    by (induction ms pss rule: list_all2_induct) (use one in \<open>auto intro: add_mono\<close>)
  then show "cut_up ms st \<Longrightarrow> length st \<le> length (concat (map fst ms))" by (auto simp: cut_up_def)
qed

section \<open>Positions\<close>

definition offset :: "'a list list \<Rightarrow> nat \<Rightarrow> nat" where
  "offset pss m = length (concat (take m pss))"

lemma offset_Suc: "m < length pss \<Longrightarrow> offset pss (Suc m) = offset pss m + length (pss ! m)"
  by (simp add: offset_def take_Suc_conv_app_nth)

lemma offset_mono: "m \<le> n \<Longrightarrow> offset pss m \<le> offset pss n"
proof -
  assume "m \<le> n"
  then obtain k where "n = m + k" using le_Suc_ex by blast
  then show ?thesis by (simp add: offset_def take_add)
qed

lemma offset_end: "m < length pss \<Longrightarrow> offset pss m + length (pss ! m) \<le> length (concat pss)"
  using offset_mono [of "Suc m" "length pss" pss] offset_Suc [of m pss] by (simp add: offset_def)

lemma offset_less: "n < m \<Longrightarrow> m \<le> length pss \<Longrightarrow> offset pss n + length (pss ! n) \<le> offset pss m"
  using offset_mono [of "Suc n" m pss] offset_Suc [of n pss] by simp

lemma concat_nth_offset: "m < length pss \<Longrightarrow> i < length (pss ! m) \<Longrightarrow> concat pss ! (offset pss m + i) = pss ! m ! i"
proof -
  assume m: "m < length pss" "i < length (pss ! m)"
  then have "pss = take m pss @ pss ! m # drop (Suc m) pss" by (simp add: id_take_nth_drop)
  then have "concat pss = concat (take m pss) @ pss ! m @ concat (drop (Suc m) pss)" by (metis concat.simps(2) concat_append)
  then show ?thesis using m(2) by (simp add: offset_def nth_append)
qed

lemma find_offset:
  assumes "k < length (concat pss)"
  obtains m i where "m < length pss" "i < length (pss ! m)" "k = offset pss m + i"
proof -
  have "\<exists>m i. m < length pss \<and> i < length (pss ! m) \<and> k = offset pss m + i" using assms
  proof (induction pss rule: rev_induct)
    case Nil
    then show ?case by simp
  next
    case (snoc ps pss)
    show ?case
    proof (cases "k < length (concat pss)")
      case True
      then obtain m i where "m < length pss" "i < length (pss ! m)" "k = offset pss m + i" using snoc.IH by blast
      then show ?thesis by (intro exI [of _ m] exI [of _ i]) (simp add: offset_def nth_append)
    next
      case False
      then show ?thesis using snoc.prems
        by (intro exI [of _ "length pss"] exI [of _ "k - length (concat pss)"]) (simp add: offset_def)
    qed
  qed
  then show thesis using that by blast
qed

end
