(* ===== verification/SenderState.thy ===== *)
theory SenderState imports ConnSpec Messages begin

text \<open>
  The sender of a connection as a whole (\<open>core.cpp\<close>): whatever the application, the peer and the timers do, the
  packets that \<open>packData\<close> hands out are a numbering of the packets of the messages that \<open>sendmsg\<close> has
  accepted. \<open>sender_spec\<close> is the abstract sender: the packets accepted so far, how many of them
  are acknowledged and sent, and which are to be sent again. \<open>sends\<close> relates it to the send
  buffer, the sender's loss list and the sequence numbers of a socket, and every operation of a socket
  is a step of the abstract sender.
\<close>

section \<open>The abstract sender\<close>

record sender_spec =
  sp_Stream :: "(byte list \<times> uint32) list"
  sp_Acked :: int
  sp_Seen :: int
  sp_Next :: int
  sp_Lost :: "int set"

definition spec_start :: sender_spec where
  "spec_start = \<lparr>sp_Stream = [], sp_Acked = 0, sp_Seen = 0, sp_Next = 0, sp_Lost = {}\<rparr>"

datatype sender_event = Accepted "byte list" bool | Wire int32 "byte list" uint32 | Quiet

inductive spec_step :: "int32 \<Rightarrow> sender_spec \<Rightarrow> sender_event \<Rightarrow> sender_spec \<Rightarrow> bool" for isn where
  spec_accept: "concat (map fst ps) = data \<Longrightarrow> one_message order ps \<Longrightarrow>
    spec_step isn S (Accepted data order) (S\<lparr>sp_Stream := sp_Stream S @ ps\<rparr>)"
| spec_new: "sp_Lost S = {} \<Longrightarrow> sp_Next S < int (length (sp_Stream S)) \<Longrightarrow> sp_Stream S ! nat (sp_Next S) = (bytes, word) \<Longrightarrow>
    spec_step isn S (Wire (seq_at isn (sp_Next S)) bytes word) (S\<lparr>sp_Next := sp_Next S + 1\<rparr>)"
| spec_again: "k \<in> sp_Lost S \<Longrightarrow> (\<forall>j\<in>sp_Lost S. k \<le> j) \<Longrightarrow> sp_Stream S ! nat k = (bytes, word) \<Longrightarrow>
    spec_step isn S (Wire (seq_at isn k) bytes word) (S\<lparr>sp_Lost := sp_Lost S - {k}\<rparr>)"
| spec_seen: "sp_Seen S \<le> k \<Longrightarrow> k \<le> sp_Next S \<Longrightarrow> spec_step isn S Quiet (S\<lparr>sp_Seen := k\<rparr>)"
| spec_acked: "sp_Acked S \<le> k \<Longrightarrow> k \<le> sp_Next S \<Longrightarrow>
    spec_step isn S Quiet (S\<lparr>sp_Acked := k, sp_Seen := max (sp_Seen S) k, sp_Lost := sp_Lost S - {..<k}\<rparr>)"
| spec_lost: "X \<subseteq> {sp_Seen S..<sp_Next S} \<Longrightarrow> spec_step isn S Quiet (S\<lparr>sp_Lost := sp_Lost S \<union> X\<rparr>)"

section \<open>The socket as a sender\<close>

definition lost_part :: "int32 \<Rightarrow> sender_spec \<Rightarrow> CUDT \<Rightarrow> CSndLossList \<Rightarrow> bool" where
  "lost_part isn S u l \<longleftrightarrow> u_SndLossList u = Some l \<and> CSndLossList_inv l \<and> lost_set l = seq_at isn ` sp_Lost S \<and>
     sp_Next S - sp_Acked S \<le> sl_Size l \<and> u_FlowWindowSize u + (sp_Seen S - sp_Acked S) \<le> sl_Size l"

definition plain :: "CSndBuffer \<Rightarrow> nat list \<Rightarrow> bool" where
  "plain b ns \<longleftrightarrow> (\<forall>n\<in>set ns. 0 < bl_Length (sb_Block b n) \<and> bl_TTL (sb_Block b n) < 0)"

definition buffer_part :: "sender_spec \<Rightarrow> CUDT \<Rightarrow> CSndBuffer \<Rightarrow> nat list \<Rightarrow> nat list \<Rightarrow> nat list \<Rightarrow> bool" where
  "buffer_part S u b us vs ws \<longleftrightarrow> u_SndBuffer u = Some b \<and> ring b us vs ws \<and> plain b (us @ vs) \<and> numbers_messages b \<and>
     int (length us) = sp_Next S - sp_Acked S \<and> packets b (us @ vs) = drop (nat (sp_Acked S)) (sp_Stream S)"

definition sends :: "int32 \<Rightarrow> sender_spec \<Rightarrow> CUDT \<Rightarrow> bool" where
  "sends isn S u \<longleftrightarrow> valid_seq isn \<and>
     0 \<le> sp_Acked S \<and> sp_Acked S \<le> sp_Seen S \<and> sp_Seen S \<le> sp_Next S \<and> sp_Acked S \<le> int (length (sp_Stream S)) \<and>
     sp_Lost S \<subseteq> {sp_Acked S..<sp_Next S} \<and>
     u_SndLastDataAck u = seq_at isn (sp_Acked S) \<and> u_SndLastAck u = seq_at isn (sp_Seen S) \<and>
     u_SndCurrSeqNo u = seq_at isn (sp_Next S - 1) \<and>
     (\<exists>l. lost_part isn S u l) \<and> (\<exists>b us vs ws. buffer_part S u b us vs ws)"

text \<open>What the abstract sender sees of a socket.\<close>

definition same_sender :: "CUDT \<Rightarrow> CUDT \<Rightarrow> bool" where
  "same_sender u v \<longleftrightarrow> u_SndBuffer v = u_SndBuffer u \<and> u_SndLossList v = u_SndLossList u \<and>
     u_SndLastDataAck v = u_SndLastDataAck u \<and> u_SndLastAck v = u_SndLastAck u \<and> u_SndCurrSeqNo v = u_SndCurrSeqNo u \<and>
     u_FlowWindowSize v = u_FlowWindowSize u"

lemma sends_same: "sends isn S u \<Longrightarrow> same_sender u v \<Longrightarrow> sends isn S v"
  by (simp add: sends_def same_sender_def lost_part_def buffer_part_def)

lemma same_sender_refl [simp]: "same_sender u u"
  by (simp add: same_sender_def)

lemma same_sender_trans [trans]: "same_sender u v \<Longrightarrow> same_sender v w \<Longrightarrow> same_sender u w"
  by (simp add: same_sender_def)

section \<open>Operations that leave the sender alone\<close>

lemma emit_same [simp]: "same_sender u (emit e v) = same_sender u v"
  by (simp add: same_sender_def emit_def)

lemma pack_and_send_same: "pack_and_send t l r sz u = Some v \<Longrightarrow> same_sender u v"
  by (auto simp: pack_and_send_def send_to_peer_def)

lemma advance_ack_same: "advance_ack tk ack u = Some v \<Longrightarrow> same_sender u v"
  by (auto simp: advance_ack_def Let_def same_sender_def emit_def split: if_splits)

lemma send_full_ack_same: "send_full_ack us tk u = Some v \<Longrightarrow> same_sender u v"
  by (auto simp: send_full_ack_def Let_def same_sender_def dest!: pack_and_send_same split: bind_splits if_splits)

lemma sendCtrl_ack_same: "sendCtrl_ack us tk sz u = Some v \<Longrightarrow> same_sender u v"
  by (auto simp: sendCtrl_ack_def Let_def intro: same_sender_trans
      dest!: pack_and_send_same send_full_ack_same advance_ack_same split: if_splits option.splits)

lemma send_nak_same: "send_nak r sz u = Some v \<Longrightarrow> same_sender u v"
  by (auto simp: send_nak_def count_nak_def same_sender_def dest!: pack_and_send_same split: bind_splits if_splits option.splits)

lemma next_nak_same: "next_nak_interval u = Some v \<Longrightarrow> same_sender u v"
  by (auto simp: next_nak_interval_def Let_def same_sender_def split: bind_splits)

lemma sendCtrl_same: "CUDT_sendCtrl us tk t l r sz u = Some v \<Longrightarrow> same_sender u v"
  by (auto simp: CUDT_sendCtrl_def same_sender_def split: bind_splits if_splits
      dest!: sendCtrl_ack_same pack_and_send_same send_nak_same next_nak_same)

lemma CCUpdate_same [simp]: "same_sender u (CUDT_CCUpdate v) = same_sender u v"
  by (simp add: CUDT_CCUpdate_def Let_def same_sender_def)

lemma on_cc_same [simp]: "same_sender u (on_cc f v) = same_sender u v"
  by (simp add: on_cc_def same_sender_def)

lemma update_same [simp]: "same_sender u (update_rtt r v) = same_sender u v" "same_sender u (update_rates p v) = same_sender u v"
  by (simp_all add: update_rtt_def update_rates_def on_cc_def Let_def same_sender_def)

lemma ack_of_ack_same: "same_sender u (ack_of_ack us p u)"
proof -
  obtain r a w where w: "CACKWindow_acknowledge us (getAckSeqNo p) (the (u_ACKWindow u)) = (r, a, w)" by (metis prod_cases3)
  let ?v = "update_rtt r (u\<lparr>u_ACKWindow := Some w\<rparr>)"
  have "same_sender u (u\<lparr>u_ACKWindow := Some w\<rparr>)" by (simp add: same_sender_def)
  moreover have "same_sender u (?v\<lparr>u_RcvLastAckAck := s\<rparr>)" for s
    using calculation update_same(1) [of u r "u\<lparr>u_ACKWindow := Some w\<rparr>"] by (simp add: same_sender_def)
  ultimately show ?thesis by (simp add: ack_of_ack_def w Let_def)
qed

lemma repeat_handshake_same: "repeat_handshake us tk p u = Some v \<Longrightarrow> same_sender u v"
  by (auto simp: repeat_handshake_def Let_def dest!: sendCtrl_same split: if_splits prod.splits)

lemma drop_request_same: "drop_request p u pool = Some (v, pool') \<Longrightarrow> same_sender u v"
  by (auto simp: drop_request_def Let_def same_sender_def split: bind_splits if_splits)

lemma ack_timer_same: "ack_timer us tk u = Some v \<Longrightarrow> same_sender u v"
proof -
  assume "ack_timer us tk u = Some v"
  then obtain w t n where "v = u \<or> (CUDT_sendCtrl us tk 2 None None n u = Some w \<and>
      (v = w\<lparr>u_NextACKTime := t, u_PktCount := 0, u_LightACKCount := 1\<rparr> \<or> v = w\<lparr>u_LightACKCount := u_LightACKCount w + 1\<rparr>))"
    unfolding ack_timer_def Let_def by (auto simp del: word_of_int_numeral split: if_split_asm)
  then show ?thesis using sendCtrl_same [of us tk 2 None None n u w] by (auto simp: same_sender_def)
qed

lemma processData_same:
  assumes "CUDT_processData us tk unit u pool = Some (r, v, pool')"
  shows "same_sender u v"
proof -
  have n: "note_arrival us tk q u = Some w \<Longrightarrow> same_sender u w" for q w
    by (auto simp: note_arrival_def Let_def same_sender_def split: bind_splits)
  have d: "detect_loss us tk q u = Some w \<Longrightarrow> same_sender u w" for q u w
    by (auto simp: detect_loss_def Let_def same_sender_def dest!: sendCtrl_same split: bind_splits if_splits)
  have a: "advance_received q u = Some w \<Longrightarrow> same_sender u w" for q u w
    by (auto simp: advance_received_def same_sender_def split: if_splits)
  show ?thesis
    using assms by (auto simp: CUDT_processData_def Let_def same_sender_def dest!: n d a split: bind_splits if_splits prod.splits)
qed

lemma recvmsg_same: "CUDT_recvmsg len u pool = Some (r, v, pool') \<Longrightarrow> same_sender u v"
  by (auto simp: CUDT_recvmsg_def Let_def same_sender_def split: if_splits option.splits)

section \<open>Positions\<close>

lemma sendsD:
  assumes "sends isn S u"
  obtains l b us vs ws where "valid_seq isn" "0 \<le> sp_Acked S" "sp_Acked S \<le> sp_Seen S" "sp_Seen S \<le> sp_Next S"
    "sp_Acked S \<le> int (length (sp_Stream S))" "sp_Lost S \<subseteq> {sp_Acked S..<sp_Next S}" "u_SndLastDataAck u = seq_at isn (sp_Acked S)"
    "u_SndLastAck u = seq_at isn (sp_Seen S)" "u_SndCurrSeqNo u = seq_at isn (sp_Next S - 1)"
    "lost_part isn S u l" "buffer_part S u b us vs ws"
  using assms by (auto simp: sends_def)

lemma lost_partD:
  assumes "lost_part isn S u l"
  shows "u_SndLossList u = Some l" "CSndLossList_inv l" "lost_set l = seq_at isn ` sp_Lost S" "sp_Next S - sp_Acked S \<le> sl_Size l"
    "u_FlowWindowSize u + (sp_Seen S - sp_Acked S) \<le> sl_Size l" "0 < sl_Size l" "2 * sl_Size l < m_iSeqNoTH"
  using assms snd_loss.cap_bound [of l] by (auto simp: lost_part_def)

lemma stream_length:
  assumes "buffer_part S u b us vs ws" "0 \<le> sp_Acked S" "sp_Acked S \<le> int (length (sp_Stream S))"
  shows "int (length vs) = int (length (sp_Stream S)) - sp_Next S"
proof -
  have "length (us @ vs) = length (packets b (us @ vs))" by (simp only: packets_def length_map)
  also have "\<dots> = length (sp_Stream S) - nat (sp_Acked S)" using assms(1) by (simp add: buffer_part_def)
  finally have "length us + length vs = length (sp_Stream S) - nat (sp_Acked S)" by simp
  moreover have "int (length us) = sp_Next S - sp_Acked S" using assms(1) by (simp add: buffer_part_def)
  ultimately show ?thesis using assms(2,3) by linarith
qed

text \<open>The blocks of the buffer are the stream from the first position that is not acknowledged.\<close>

lemma stream_nth:
  assumes "buffer_part S u b us vs ws" "0 \<le> sp_Acked S" "sp_Acked S \<le> int (length (sp_Stream S))" "i < length (us @ vs)"
  shows "sp_Stream S ! nat (sp_Acked S + int i) =
    (block_bytes (sb_Block b ((us @ vs) ! i)), bl_MsgNo (sb_Block b ((us @ vs) ! i)))"
proof -
  have "packets b (us @ vs) ! i = drop (nat (sp_Acked S)) (sp_Stream S) ! i" using assms(1) by (simp add: buffer_part_def)
  moreover have "nat (sp_Acked S + int i) = nat (sp_Acked S) + i" using assms(2) by simp
  ultimately show ?thesis using assms(3,4) by (simp add: packets_def del: map_append)
qed

text \<open>A number that is not far from the window, as those are that a peer has seen.\<close>

definition near :: "CUDT \<Rightarrow> int32 \<Rightarrow> bool" where
  "near u s \<longleftrightarrow> valid_seq s \<and> \<bar>seqoff (u_SndLastDataAck u) s\<bar> < 0x20000000"

lemma near_position:
  assumes "sends isn S u" "near u s"
  obtains k where "s = seq_at isn k" "\<And>j. sp_Acked S \<le> j \<Longrightarrow> j \<le> sp_Next S \<Longrightarrow> \<bar>k - j\<bar> < m_iSeqNoTH"
    "\<And>j. sp_Acked S \<le> j \<Longrightarrow> j \<le> sp_Next S \<Longrightarrow> \<bar>j - k\<bar> < m_iSeqNoTH" "\<bar>k - sp_Acked S\<bar> < 0x20000000"
proof (rule sendsD [OF assms(1)])
  fix l assume a: "u_SndLastDataAck u = seq_at isn (sp_Acked S)" and l: "lost_part isn S u l"
  let ?k = "sp_Acked S + seqoff (u_SndLastDataAck u) s"
  have n: "valid_seq s" "\<bar>seqoff (u_SndLastDataAck u) s\<bar> < 0x20000000" using assms(2) by (auto simp: near_def)
  have "seq_at isn ?k = seq_at (seq_at isn (sp_Acked S)) (seqoff (u_SndLastDataAck u) s)" by simp
  also have "\<dots> = s" using seqoff_at [of "u_SndLastDataAck u" s] n(1) by (simp add: a)
  finally have k: "s = seq_at isn ?k" by simp
  have "\<bar>?k - j\<bar> < m_iSeqNoTH" "\<bar>j - ?k\<bar> < m_iSeqNoTH" if "sp_Acked S \<le> j" "j \<le> sp_Next S" for j
    using that n(2) lost_partD(4,7) [OF l] by (auto simp: serial_consts)
  then show thesis using that [OF k] n(2) by auto
qed

lemma curr_next: "sends isn S u \<Longrightarrow> incseq (u_SndCurrSeqNo u) = seq_at isn (sp_Next S)"
  using seq.inc_window [of isn "sp_Next S - 1"] by (simp add: sends_def)

end
