(* ===== verification/SenderOps.thy ===== *)
theory SenderOps imports SenderState begin

text \<open>
  Every operation of a socket is a step of the abstract sender of \<open>SenderState\<close>: \<open>sendmsg\<close>, \<open>packData\<close>,
  \<open>processCtrl\<close> with acknowledgements and loss reports, and \<open>checkTimers\<close> (\<open>core.cpp\<close>).
\<close>

section \<open>sendmsg\<close>

lemma spec_nothing: "spec_step isn S Quiet S"
  using spec_lost [of "{}" S isn] by simp

lemma plain_cong: "(\<And>n. n \<in> set ns \<Longrightarrow> sb_Block c n = sb_Block b n) \<Longrightarrow> plain c ns = plain b ns"
  by (simp add: plain_def)

lemma add_sends:
  assumes s: "sends isn S u" and d: "0 < len" "int (length data) = len" "ttl < 0"
    and b: "u_SndBuffer u = Some b" "CSndBuffer_addBuffer g (\<lambda>_. True) us data len ttl order b = Some r"
  obtains b' S' where "r = Inr b'" "spec_step isn S (Accepted data order) S'" "sends isn S' (u\<lparr>u_SndBuffer := Some b'\<rparr>)"
proof (rule sendsD [OF s])
  fix l c bs vs ws assume l: "lost_part isn S u l" and c: "buffer_part S u c bs vs ws"
    and f: "valid_seq isn" "0 \<le> sp_Acked S" "sp_Acked S \<le> sp_Seen S" "sp_Seen S \<le> sp_Next S"
    "sp_Acked S \<le> int (length (sp_Stream S))" "sp_Lost S \<subseteq> {sp_Acked S..<sp_Next S}" "u_SndLastDataAck u = seq_at isn (sp_Acked S)"
    "u_SndLastAck u = seq_at isn (sp_Seen S)" "u_SndCurrSeqNo u = seq_at isn (sp_Next S - 1)"
  have cb: "c = b" "ring b bs vs ws" "plain b (bs @ vs)" "int (length bs) = sp_Next S - sp_Acked S"
      "packets b (bs @ vs) = drop (nat (sp_Acked S)) (sp_Stream S)" "numbers_messages b"
    using c b(1) by (auto simp: buffer_part_def)
  obtain b' ns rest where a: "r = Inr b'" "ring b' bs (vs @ ns) rest" "\<forall>n\<in>set (bs @ vs). sb_Block b' n = sb_Block b n"
      "packets b' ns = message_packets data len order b" "\<forall>n\<in>set ns. 0 < bl_Length (sb_Block b' n) \<and> bl_TTL (sb_Block b' n) = ttl"
    using addBuffer_ring [OF cb(2) d(1,2) b(2)] by auto
  let ?S = "S\<lparr>sp_Stream := sp_Stream S @ message_packets data len order b\<rparr>"
  have "plain b' (bs @ vs)" using cb(3) a(3) plain_cong [of "bs @ vs" b' b] by simp
  then have "plain b' (bs @ vs @ ns)" using a(5) d(3) by (auto simp: plain_def)
  moreover have "packets b' (bs @ vs @ ns) = drop (nat (sp_Acked S)) (sp_Stream ?S)"
    using cb(5) a(4) packets_mono [of "bs @ vs" b' b] a(3) f(2,5) by (simp add: packets_def)
  ultimately have "buffer_part ?S (u\<lparr>u_SndBuffer := Some b'\<rparr>) b' bs (vs @ ns) rest"
    using a(2) cb(4) addBuffer_numbers [OF cb(6,2) b(2) [unfolded a(1)]] by (simp add: buffer_part_def)
  moreover have "lost_part isn ?S (u\<lparr>u_SndBuffer := Some b'\<rparr>) l" using l by (simp add: lost_part_def)
  ultimately have "sends isn ?S (u\<lparr>u_SndBuffer := Some b'\<rparr>)" using f by (auto simp: sends_def)
  moreover have "concat (map fst (message_packets data len order b)) = data"
    using cb(2) d by (intro concat_message) (simp_all add: ring_def)
  moreover have "one_message order (message_packets data len order b)"
    using message_packets_one [OF cb(6) _ d(1,2)] cb(2) by (simp add: ring_def)
  ultimately show thesis using that [OF a(1)] spec_accept by blast
qed

definition accept_event :: "byte list \<Rightarrow> bool \<Rightarrow> CUDTException + int \<Rightarrow> sender_event" where
  "accept_event data order r = (if r = Inr (int (length data)) \<and> data \<noteq> [] then Accepted data order else Quiet)"

text \<open>\<open>sendmsg\<close> refuses the message, or it queues it.\<close>

lemma sendmsg_cases:
  assumes "CUDT_sendmsg g mem us tk data len ttl order u = Some (r, v)"
  obtains "r \<noteq> Inr len \<or> len \<le> 0" "same_sender u v"
  | q w where "0 < len" "CSndBuffer_addBuffer g mem us data len ttl order (the (u_SndBuffer u)) = Some q" "same_sender u w"
      "case q of Inl (e, b) \<Rightarrow> r = Inl e \<and> v = w\<lparr>u_SndBuffer := Some b\<rparr>
       | Inr b \<Rightarrow> r = Inr len \<and> v = emit (SndUList_update False) (w\<lparr>u_SndBuffer := Some b\<rparr>)"
proof -
  let ?c = "CSndBuffer_getCurrBufSize (the (u_SndBuffer u))"
  define u1 where "u1 = (if ?c = 0 then u\<lparr>u_LastRspTime := tk\<rparr> else u)"
  define u2 where "u2 = (if 0 = ?c then u1\<lparr>u_SndDurationCounter := us\<rparr> else u1)"
  have f: "same_sender u u1" "same_sender u u2" "same_sender u u"
    by (simp_all add: u1_def u2_def same_sender_def)
  consider "u_Broken u \<or> u_Closing u \<or> \<not> u_Connected u \<or> len \<le> 0" | (asks) "\<not> (u_Broken u \<or> u_Closing u)" "u_Connected u" "\<not> len \<le> 0"
    by blast
  then show thesis
  proof cases
    case 1
    then have "(r \<noteq> Inr len \<or> len \<le> 0) \<and> v = u" using assms by (auto simp: CUDT_sendmsg_def split: if_split_asm)
    then show thesis using f(3) by (intro that(1)) auto
  next
    case asks
    obtain most where most: "mul_int (u_SndBufSize u) (u_PayloadSize u) = Some most"
      using assms asks unfolding CUDT_sendmsg_def by (auto split: bind_splits)
    show thesis
    proof (cases "len > most")
      case True
      then have "r = Inl (exc 5 12)" "v = u" using assms asks most by (simp_all add: CUDT_sendmsg_def)
      then show thesis using f(3) by (intro that(1)) auto
    next
      case False
      have e: "Some (r, v) = Option.bind (mul_int (u_SndBufSize u1 - ?c) (u_PayloadSize u1)) (\<lambda>room.
         if room < len then Some (Inr (- 6001), u1)
         else case CSndBuffer_addBuffer g mem us data len ttl order (the (u_SndBuffer u)) of
           None \<Rightarrow> None
         | Some (Inl (e, b)) \<Rightarrow> Some (Inl e, u2\<lparr>u_SndBuffer := Some b\<rparr>)
         | Some (Inr b) \<Rightarrow> Some (Inr len, emit (SndUList_update False) (u2\<lparr>u_SndBuffer := Some b\<rparr>)))"
        using assms asks most False unfolding CUDT_sendmsg_def Let_def u1_def [symmetric] u2_def [symmetric] by simp
      then obtain room where room: "mul_int (u_SndBufSize u1 - ?c) (u_PayloadSize u1) = Some room"
        by (cases "mul_int (u_SndBufSize u1 - ?c) (u_PayloadSize u1)") auto
      show thesis
      proof (cases "room < len")
        case True
        then have "r = Inr (- 6001)" "v = u1" using e room by simp_all
        then show thesis using f(1) asks(3) by (intro that(1)) auto
      next
        case False
        obtain q where "CSndBuffer_addBuffer g mem us data len ttl order (the (u_SndBuffer u)) = Some q"
          "case q of Inl (e, b) \<Rightarrow> r = Inl e \<and> v = u2\<lparr>u_SndBuffer := Some b\<rparr>
           | Inr b \<Rightarrow> r = Inr len \<and> v = emit (SndUList_update False) (u2\<lparr>u_SndBuffer := Some b\<rparr>)"
          using e room False by (auto split: option.split_asm sum.split_asm)
        then show thesis using f(2) asks(3) by (intro that(2) [of q u2]) auto
      qed
    qed
  qed
qed

lemma sendmsg_step:
  assumes s: "sends isn S u" and r: "CUDT_sendmsg g (\<lambda>_. True) us tk data (int (length data)) ttl order u = Some (r, v)" and "ttl < 0"
  shows "\<exists>S'. spec_step isn S (accept_event data order r) S' \<and> sends isn S' v"
proof (rule sendmsg_cases [OF r])
  assume "r \<noteq> Inr (int (length data)) \<or> int (length data) \<le> 0" "same_sender u v"
  then show ?thesis using sends_same [OF s] spec_nothing [of isn S] by (auto simp: accept_event_def)
next
  fix q w
  assume a: "0 < int (length data)" "CSndBuffer_addBuffer g (\<lambda>_. True) us data (int (length data)) ttl order (the (u_SndBuffer u)) = Some q"
    "same_sender u w" and
    c: "case q of Inl (e, b) \<Rightarrow> r = Inl e \<and> v = w\<lparr>u_SndBuffer := Some b\<rparr>
       | Inr b \<Rightarrow> r = Inr (int (length data)) \<and> v = emit (SndUList_update False) (w\<lparr>u_SndBuffer := Some b\<rparr>)"
  obtain b where "u_SndBuffer u = Some b" using s by (auto simp: sends_def buffer_part_def)
  then have b: "u_SndBuffer w = Some b" "CSndBuffer_addBuffer g (\<lambda>_. True) us data (int (length data)) ttl order b = Some q"
    using a(2,3) by (simp_all add: same_sender_def)
  obtain b' S' where n: "q = Inr b'" "spec_step isn S (Accepted data order) S'" "sends isn S' (w\<lparr>u_SndBuffer := Some b'\<rparr>)"
    by (rule add_sends [OF sends_same [OF s a(3)] a(1) refl assms(3) b])
  then have "sends isn S' v" using c by (auto intro: sends_same)
  then show ?thesis using n c a(1) by (auto simp: accept_event_def)
qed

section \<open>packData\<close>

lemma readData_ring:
  assumes "ring b us (n # vs) ws"
  defines "c \<equiv> b\<lparr>sb_Curr := bl_Next (sb_Block b n)\<rparr>"
  shows "CSndBuffer_readData b = (Some (bl_Length (sb_Block b n), block_bytes (sb_Block b n), bl_MsgNo (sb_Block b n)), c) \<and>
    ring c (us @ [n]) vs ws"
proof -
  have "sb_Last b \<in> set ws" using assms(1) by (cases ws) (auto simp: ring_def)
  then have "sb_Curr b = n" "n \<noteq> sb_Last b" using assms(1) by (auto simp: ring_def)
  then show ?thesis using assms by (auto simp: CSndBuffer_readData_def Let_def ring_def path_append)
qed

lemma readData_end: "ring b us [] ws \<Longrightarrow> CSndBuffer_readData b = (None, b)"
  by (simp add: CSndBuffer_readData_def ring_def)

lemma readData_at_ring:
  assumes "ring b us vs ws" "plain b us" "k < length us"
  shows "CSndBuffer_readData_at now (int k) b =
    Some (SbData (bl_Length (sb_Block b (us ! k))) (block_bytes (sb_Block b (us ! k))) (bl_MsgNo (sb_Block b (us ! k))), b)"
proof -
  have us: "us = take k us @ us ! k # drop (Suc k) us" using assms(3) by (simp add: id_take_nth_drop)
  have "path (sb_Block b) (sb_First b) us (sb_Curr b)" using assms(1) by (simp add: ring_def)
  then have "path (sb_Block b) (sb_First b) (take k us) (us ! k)" by (subst (asm) us) (auto simp: path_append)
  then have "skip_blocks k b (sb_First b) = us ! k" using path_skip [of b "sb_First b" "take k us" "us ! k"] assms(3) by simp
  moreover have "bl_TTL (sb_Block b (us ! k)) < 0" using assms(2,3) by (simp add: plain_def)
  ultimately show ?thesis by (simp add: CSndBuffer_readData_at_def Let_def)
qed

lemma seq_of_set_seq: "length (m_nHeader p) = 4 \<Longrightarrow> fits_int32 s \<Longrightarrow> m_iSeqNo (set_seq s p) = s"
  by (simp add: m_iSeqNo_def set_seq_def sint_word_of_int32)

definition on_wire :: "CPacket \<Rightarrow> sender_event" where
  "on_wire p = Wire (m_iSeqNo p) (m_pcData p) (hdr p 1)"

lemma finish_packet_same:
  assumes "finish_packet us tk n probe p u = Some (m, q, ts, v)"
  shows "same_sender u v \<and> m = n \<and> on_wire q = on_wire p"
proof -
  obtain cc where cc: "cc_onPktSent (the (u_CC u)) = Some cc"
    using assms by (cases "cc_onPktSent (the (u_CC u))") (simp_all add: finish_packet_def Let_def)
  define w where "w = u\<lparr>u_CC := Some cc, u_TraceSent := u_TraceSent u + 1, u_SentTotal := u_SentTotal u + 1\<rparr>"
  have "same_sender u w" by (simp add: w_def same_sender_def)
  then have "same_sender u (snd (schedule_next tk probe w))"
    by (simp add: schedule_next_def Let_def same_sender_def)
  moreover have "m = n" "v = snd (schedule_next tk probe w)"
      "q = setLength n (set_m_iID (u_PeerID u) (set_hdr 2 (ucast (us - u_StartTime u)) p))"
    using assms by (auto simp: finish_packet_def Let_def cc w_def [symmetric])
  ultimately show ?thesis
    by (simp add: on_wire_def m_iSeqNo_def set_m_iID_def setLength_def hdr_def set_hdr_def)
qed

text \<open>The next new packet.\<close>

lemma window_room:
  assumes "sends isn S u" "send_window u \<ge> sent_length u" "lost_part isn S u l"
  shows "sp_Next S + 1 - sp_Acked S \<le> sl_Size l"
proof -
  have a: "u_SndLastAck u = seq_at isn (sp_Seen S)" "sp_Seen S \<le> sp_Next S" "sp_Acked S \<le> sp_Seen S" using assms(1) by (auto simp: sends_def)
  have "sp_Next S - sp_Seen S < m_iSeqNoTH" using a lost_partD(4,6,7) [OF assms(3)] by linarith
  then have "sent_length u = sp_Next S - sp_Seen S + 1"
    using seq.len_window [of "sp_Seen S" "sp_Next S" isn] a by (simp add: sent_length_def curr_next [OF assms(1)])
  moreover have "send_window u \<le> u_FlowWindowSize u" by (simp add: send_window_def)
  ultimately show ?thesis using assms(2) lost_partD(5) [OF assms(3)] by linarith
qed

lemma new_sends:
  assumes s: "sends isn S u" and r: "pack_new p u = (Packed n probe, q, v)" and p: "length (m_nHeader p) = 4" and none: "sp_Lost S = {}"
  shows "\<exists>S'. spec_step isn S (on_wire q) S' \<and> sends isn S' v \<and> n \<noteq> 0"
proof (rule sendsD [OF s])
  fix l b us vs ws assume l: "lost_part isn S u l" and c: "buffer_part S u b us vs ws"
    and f: "valid_seq isn" "0 \<le> sp_Acked S" "sp_Acked S \<le> sp_Seen S" "sp_Seen S \<le> sp_Next S"
    "sp_Acked S \<le> int (length (sp_Stream S))" "sp_Lost S \<subseteq> {sp_Acked S..<sp_Next S}" "u_SndLastDataAck u = seq_at isn (sp_Acked S)"
    "u_SndLastAck u = seq_at isn (sp_Seen S)" "u_SndCurrSeqNo u = seq_at isn (sp_Next S - 1)"
  note b = c [unfolded buffer_part_def]
  have w: "send_window u \<ge> sent_length u" using r by (auto simp: pack_new_def split: if_splits)
  obtain x xs where vs: "vs = x # xs"
    using r b readData_end [of b us ws] by (cases vs) (auto simp: pack_new_def split: if_splits)
  let ?bl = "sb_Block b x"
  define c' where "c' = b\<lparr>sb_Curr := bl_Next ?bl\<rparr>"
  have rd: "CSndBuffer_readData b = (Some (bl_Length ?bl, block_bytes ?bl, bl_MsgNo ?bl), c')" "ring c' (us @ [x]) xs ws"
    using readData_ring [of b us x xs ws] b vs by (auto simp: c'_def)
  have pos: "0 < bl_Length ?bl" using b vs by (simp add: plain_def)
  have v: "u_SndBuffer v = Some c'" "u_SndCurrSeqNo v = seq_at isn (sp_Next S)" "u_SndLossList v = u_SndLossList u"
      "u_SndLastDataAck v = u_SndLastDataAck u" "u_SndLastAck v = u_SndLastAck u" "u_FlowWindowSize v = u_FlowWindowSize u"
      "n = bl_Length ?bl" and q: "on_wire q = Wire (seq_at isn (sp_Next S)) (block_bytes ?bl) (bl_MsgNo ?bl)"
    using r w rd(1) pos b curr_next [OF s] p
    by (auto simp: pack_new_def Let_def on_wire_def set_seq_def m_iSeqNo_def hdr_def set_hdr_def fits_int32_def shift_def sint_word_of_int32)
  let ?S = "S\<lparr>sp_Next := sp_Next S + 1\<rparr>"
  have i: "length us < length (us @ vs)" "sp_Acked S + int (length us) = sp_Next S" using b vs by auto
  have "sp_Stream S ! nat (sp_Next S) = (block_bytes ?bl, bl_MsgNo ?bl)" using stream_nth [OF c f(2,5) i(1)] i(2) vs by simp
  moreover have "sp_Next S < int (length (sp_Stream S))" using stream_length [OF c f(2,5)] vs by simp
  ultimately have "spec_step isn S (on_wire q) ?S" unfolding q using none by (intro spec_new)
  moreover have "lost_part isn ?S v l" using l window_room [OF s w l] v none by (simp add: lost_part_def)
  moreover have "buffer_part ?S v c' (us @ [x]) xs ws"
    using b rd(2) vs v(1) by (auto simp: buffer_part_def c'_def plain_def packets_def numbers_messages_def)
  ultimately show ?thesis using f v pos none by (intro exI [of _ ?S]) (auto simp: sends_def)
qed

lemma nothing_new:
  assumes s: "sends isn S u" and r: "pack_new p u = (x, q, v)" "\<And>n probe. x \<noteq> Packed n probe"
  shows "x = NothingReset \<and> same_sender u v"
proof -
  have t: "same_sender u (u\<lparr>u_TargetTime := 0, u_TimeDiff := 0\<rparr>)" by (simp add: same_sender_def)
  obtain b us vs ws where b: "u_SndBuffer u = Some b" "ring b us vs ws" "plain b (us @ vs)"
    using s by (auto simp: sends_def buffer_part_def)
  show ?thesis
  proof (cases vs)
    case Nil
    then show ?thesis using r b readData_end [of b us ws] t by (auto simp: pack_new_def split: if_splits)
  next
    case (Cons n ns)
    have "0 < bl_Length (sb_Block b n)" using b(3) Cons by (simp add: plain_def)
    then show ?thesis using r b readData_ring [of b us n ns ws] Cons t by (auto simp: pack_new_def Let_def split: if_splits)
  qed
qed

text \<open>A lost packet again.\<close>

lemma again_sends:
  assumes s: "sends isn S u" and k: "k \<in> sp_Lost S" "\<forall>j\<in>sp_Lost S. k \<le> j" "m_iSeqNo p = seq_at isn k" "length (m_nHeader p) = 4"
    and l: "lost_part isn (S\<lparr>sp_Lost := sp_Lost S - {k}\<rparr>) w l" "w = u\<lparr>u_SndLossList := Some l\<rparr>"
    and r: "pack_lost us tk p w = r"
  shows "\<exists>n q v. r = Some (Packed n False, q, v) \<and> n \<noteq> 0 \<and> spec_step isn S (on_wire q) (S\<lparr>sp_Lost := sp_Lost S - {k}\<rparr>) \<and>
    sends isn (S\<lparr>sp_Lost := sp_Lost S - {k}\<rparr>) v \<and> u_CC v = u_CC u"
proof (rule sendsD [OF s])
  fix l0 b bs vs ws assume l0: "lost_part isn S u l0" and c: "buffer_part S u b bs vs ws"
    and f: "valid_seq isn" "0 \<le> sp_Acked S" "sp_Acked S \<le> sp_Seen S" "sp_Seen S \<le> sp_Next S"
    "sp_Acked S \<le> int (length (sp_Stream S))" "sp_Lost S \<subseteq> {sp_Acked S..<sp_Next S}" "u_SndLastDataAck u = seq_at isn (sp_Acked S)"
    "u_SndLastAck u = seq_at isn (sp_Seen S)" "u_SndCurrSeqNo u = seq_at isn (sp_Next S - 1)"
  note b = c [unfolded buffer_part_def]
  define i where "i = nat (k - sp_Acked S)"
  have "sp_Acked S \<le> k" "k < sp_Next S" using k(1) f(6) by auto
  then have i: "k = sp_Acked S + int i" "i < length bs" "i < length (bs @ vs)"
    using conjunct1 [OF conjunct2 [OF conjunct2 [OF conjunct2 [OF conjunct2 [OF b]]]]] by (simp_all add: i_def)
  let ?bl = "sb_Block b (bs ! i)"
  have "k - sp_Acked S < m_iSeqNoTH" using i b lost_partD(4,6,7) [OF l0] by linarith
  then have o: "seqoff (u_SndLastDataAck w) (m_iSeqNo p) = int i"
    using seq.off_window [of k "sp_Acked S" isn] i(1) f(7) k(3) l(2) by simp
  have rd: "CSndBuffer_readData_at us (int i) b = Some (SbData (bl_Length ?bl) (block_bytes ?bl) (bl_MsgNo ?bl), b)"
    using b i(2) by (intro readData_at_ring) (auto simp: plain_def)
  have pos: "0 < bl_Length ?bl" using b i(2) by (auto simp: plain_def)
  let ?q = "(set_hdr 1 (bl_MsgNo ?bl) p)\<lparr>m_pcData := block_bytes ?bl\<rparr>"
  let ?v = "w\<lparr>u_TraceRetrans := u_TraceRetrans w + 1, u_RetransTotal := u_RetransTotal w + 1\<rparr>"
  have "r = Some (Packed (bl_Length ?bl) False, ?q, ?v)"
    using r o rd pos b l(2) by (simp add: pack_lost_def Let_def)
  moreover have q: "on_wire ?q = Wire (seq_at isn k) (block_bytes ?bl) (bl_MsgNo ?bl)"
    using k(3,4) by (simp add: on_wire_def m_iSeqNo_def hdr_def set_hdr_def)
  moreover have "sp_Stream S ! nat k = (block_bytes ?bl, bl_MsgNo ?bl)"
    using stream_nth [OF c f(2,5) i(3)] i by (simp add: nth_append)
  then have "spec_step isn S (on_wire ?q) (S\<lparr>sp_Lost := sp_Lost S - {k}\<rparr>)" unfolding q using k(1,2) by (intro spec_again)
  moreover have "sends isn (S\<lparr>sp_Lost := sp_Lost S - {k}\<rparr>) ?v"
  proof -
    have "lost_part isn (S\<lparr>sp_Lost := sp_Lost S - {k}\<rparr>) ?v l" using l by (simp add: lost_part_def)
    moreover have "buffer_part (S\<lparr>sp_Lost := sp_Lost S - {k}\<rparr>) ?v b bs vs ws" using b l(2) by (simp add: buffer_part_def)
    ultimately show ?thesis using f l(2) by (auto simp: sends_def)
  qed
  moreover have "u_CC ?v = u_CC u" using l(2) by simp
  ultimately show ?thesis using pos by auto
qed

text \<open>\<open>packData\<close> sends again what is lost, and only then something new.\<close>

definition finish :: "uint64 \<Rightarrow> uint64 \<Rightarrow> uint64 \<Rightarrow> packed \<times> CPacket \<times> CUDT \<Rightarrow> (int \<times> CPacket \<times> uint64 \<times> CUDT) option" where
  "finish us tk ts r =
    (case r of
       (Packed payload probe, packet, u) \<Rightarrow> finish_packet us tk payload probe packet u
     | (Nothing, packet, u) \<Rightarrow> Some (0, packet, ts, u)
     | (NothingReset, packet, u) \<Rightarrow> Some (0, packet, 0, u))"

lemma packData_cases:
  assumes s: "sends isn S u" and p: "length (m_nHeader p) = 4"
  obtains (again) k n q v where "sp_Lost S \<noteq> {}" "CUDT_packData us tk p ts u = finish_packet us tk n False q v" "n \<noteq> 0"
      "spec_step isn S (on_wire q) (S\<lparr>sp_Lost := sp_Lost S - {k}\<rparr>)" "sends isn (S\<lparr>sp_Lost := sp_Lost S - {k}\<rparr>) v" "u_CC v = u_CC u"
  | (fresh) w p' where "sp_Lost S = {}" "same_sender u w" "u_CC w = u_CC u" "length (m_nHeader p') = 4"
      "u_CongestionWindow w = u_CongestionWindow u" "CUDT_packData us tk p ts u = finish us tk ts (pack_new p' w)"
proof (rule sendsD [OF s])
  fix l b bs vs ws assume l: "lost_part isn S u l" and f: "sp_Lost S \<subseteq> {sp_Acked S..<sp_Next S}"
  define u0 where "u0 = (if 0 \<noteq> u_TargetTime u \<and> tk > u_TargetTime u then u\<lparr>u_TimeDiff := u_TimeDiff u + (tk - u_TargetTime u)\<rparr> else u)"
  have u0: "same_sender u u0" "u_CC u0 = u_CC u" "u_CongestionWindow u0 = u_CongestionWindow u" by (simp_all add: u0_def same_sender_def)
  note s0 = sends_same [OF s u0(1)]
  have l0: "u_SndLossList u0 = Some l" using u0 lost_partD(1) [OF l] by (simp add: same_sender_def)
  obtain seq l' where g: "CSndLossList_getLostSeq l = (seq, l')" by fastforce
  note t = snd_loss.take_at [OF lost_partD(2,3) [OF l] f lost_partD(4) [OF l] g]
  define w where "w = u0\<lparr>u_SndLossList := Some l'\<rparr>"
  let ?p = "set_seq seq p"
  have r: "CUDT_packData us tk p ts u = (case (if m_iSeqNo ?p \<ge> 0 then pack_lost us tk ?p w else Some (pack_new ?p w)) of
          None \<Rightarrow> None
        | Some (Packed payload probe, packet, u) \<Rightarrow> finish_packet us tk payload probe packet u
        | Some (Nothing, packet, u) \<Rightarrow> Some (0, packet, ts, u)
        | Some (NothingReset, packet, u) \<Rightarrow> Some (0, packet, 0, u))"
    unfolding CUDT_packData_def u0_def [symmetric] Let_def l0 option.sel g prod.case w_def ..
  have p4: "length (m_nHeader ?p) = 4" using p by (simp add: set_seq_def)
  show thesis
  proof (cases "sp_Lost S = {}")
    case True
    then have m: "m_iSeqNo ?p = - 1" and w: "w = u0"
      using t seq_of_set_seq [OF p, of seq] l0 by (simp_all add: fits_int32_def w_def)
    have "CUDT_packData us tk p ts u = finish us tk ts (pack_new ?p u0)" unfolding r m w by (simp add: finish_def)
    then show thesis using fresh [OF True u0(1,2) p4 u0(3)] by blast
  next
    case False
    then obtain k where k: "k \<in> sp_Lost S" "seq = seq_at isn k" "\<forall>x\<in>sp_Lost S. k \<le> x" "lost_set l' = seq_at isn ` (sp_Lost S - {k})"
      using t by auto
    have m: "m_iSeqNo ?p = seq_at isn k" using seq_of_set_seq [OF p, of seq] k(2) by (simp add: fits_int32_def shift_def)
    moreover have "lost_part isn (S\<lparr>sp_Lost := sp_Lost S - {k}\<rparr>) w l'"
      using t k(4) lost_partD [OF l] u0 by (simp add: lost_part_def w_def same_sender_def)
    ultimately obtain n q v where x: "pack_lost us tk ?p w = Some (Packed n False, q, v)" "n \<noteq> 0"
        "spec_step isn S (on_wire q) (S\<lparr>sp_Lost := sp_Lost S - {k}\<rparr>)" "sends isn (S\<lparr>sp_Lost := sp_Lost S - {k}\<rparr>) v" "u_CC v = u_CC u0"
      using again_sends [OF s0 k(1,3) _ p4 _ w_def refl, of us tk] by blast
    then show thesis using again [OF False _ x(2-4)] r m u0(2) by simp
  qed
qed

lemma packData_step:
  assumes s: "sends isn S u" and p: "length (m_nHeader p) = 4" and r: "CUDT_packData us tk p ts u = Some (n, q, ts', v)"
  shows "\<exists>S'. spec_step isn S (if n \<noteq> 0 then on_wire q else Quiet) S' \<and> sends isn S' v"
proof (cases rule: packData_cases [OF s p, where us = us and tk = tk and ts = ts])
  case (1 k m q0 v0)
  then show ?thesis using finish_packet_same [of us tk m False q0 v0 n q ts' v] r by (auto intro: sends_same)
next
  case fresh: (2 w p')
  note s0 = sends_same [OF s fresh(2)]
  obtain x q0 v0 where x: "pack_new p' w = (x, q0, v0)" by (metis prod_cases3)
  note r' = r [unfolded fresh(6) finish_def x prod.case]
  show ?thesis
  proof (cases x)
    case (Packed m probe)
    from new_sends [OF s0 x [unfolded Packed] fresh(4,1)] obtain S' where "spec_step isn S (on_wire q0) S'" "sends isn S' v0" "m \<noteq> 0" by blast
    then show ?thesis using finish_packet_same [of us tk m probe q0 v0 n q ts' v] r' Packed by (auto intro: sends_same)
  qed (use nothing_new [OF s0 x] sends_same [OF s0] spec_nothing [of isn S] r' in auto)
qed

section \<open>Acknowledgements\<close>

lemma light_ack_step:
  assumes s: "sends isn S u" and a: "near u ack" "seqcmp ack (incseq (u_SndCurrSeqNo u)) \<le> 0"
  shows "\<exists>S'. spec_step isn S Quiet S' \<and> sends isn S' (light_ack ack u)"
proof (rule sendsD [OF s])
  fix l b us vs ws assume l: "lost_part isn S u l" and c: "buffer_part S u b us vs ws"
    and f: "valid_seq isn" "0 \<le> sp_Acked S" "sp_Acked S \<le> sp_Seen S" "sp_Seen S \<le> sp_Next S"
    "sp_Acked S \<le> int (length (sp_Stream S))" "sp_Lost S \<subseteq> {sp_Acked S..<sp_Next S}" "u_SndLastDataAck u = seq_at isn (sp_Acked S)"
    "u_SndLastAck u = seq_at isn (sp_Seen S)" "u_SndCurrSeqNo u = seq_at isn (sp_Next S - 1)"
  obtain k where k: "ack = seq_at isn k" and d: "\<And>j. sp_Acked S \<le> j \<Longrightarrow> j \<le> sp_Next S \<Longrightarrow> \<bar>k - j\<bar> < m_iSeqNoTH"
    using near_position [OF s a(1)] by metis
  have next': "k \<le> sp_Next S" using a(2) seq.cmp_window_le [OF d, of "sp_Next S" isn] f(3,4) unfolding k curr_next [OF s] by simp
  have seen: "0 \<le> seqcmp ack (u_SndLastAck u) \<longleftrightarrow> sp_Seen S \<le> k" using seq.cmp_window_ge [OF d, of "sp_Seen S" isn] f by (simp add: k)
  show ?thesis
  proof (cases "sp_Seen S \<le> k")
    case True
    let ?v = "u\<lparr>u_FlowWindowSize := u_FlowWindowSize u - (k - sp_Seen S), u_SndLastAck := ack\<rparr>"
    have "seqoff (u_SndLastAck u) ack = k - sp_Seen S" using seq.off_window [OF d, of "sp_Seen S" isn] f by (simp add: k)
    then have v: "light_ack ack u = ?v" using True seen by (simp add: light_ack_def)
    have "lost_part isn (S\<lparr>sp_Seen := k\<rparr>) ?v l" using l by (simp add: lost_part_def)
    moreover have "buffer_part (S\<lparr>sp_Seen := k\<rparr>) ?v b us vs ws" using c by (simp add: buffer_part_def)
    ultimately have "sends isn (S\<lparr>sp_Seen := k\<rparr>) ?v" using f True next' k by (auto simp: sends_def)
    then show ?thesis unfolding v using spec_seen [OF True next'] by blast
  next
    case False
    then have "light_ack ack u = u" using seen by (simp add: light_ack_def)
    then show ?thesis using s spec_nothing by auto
  qed
qed

text \<open>A full acknowledgement frees the buffer up to its number.\<close>

definition acked_to :: "int \<Rightarrow> sender_spec \<Rightarrow> sender_spec" where
  "acked_to k S = S\<lparr>sp_Acked := k, sp_Seen := max (sp_Seen S) k, sp_Lost := sp_Lost S - {..<k}\<rparr>"

lemma ack_buffer_sends:
  assumes s: "sends isn S u" and k: "sp_Acked S < k" "k \<le> sp_Next S"
    and u': "u_SndBuffer u' = u_SndBuffer u" "u_SndLossList u' = u_SndLossList u" "u_SndLastDataAck u' = u_SndLastDataAck u"
      "u_SndCurrSeqNo u' = u_SndCurrSeqNo u" "u_SndLastAck u' = seq_at isn (max (sp_Seen S) k)"
      "u_FlowWindowSize u' + (max (sp_Seen S) k - k) \<le> sl_Size (the (u_SndLossList u))"
  obtains v where "ack_buffer tk (seq_at isn k) u' = Some (Some v)" "sends isn (acked_to k S) v"
proof (rule sendsD [OF s])
  fix l b us vs ws assume l: "lost_part isn S u l" and c: "buffer_part S u b us vs ws"
    and f: "valid_seq isn" "0 \<le> sp_Acked S" "sp_Acked S \<le> sp_Seen S" "sp_Seen S \<le> sp_Next S"
    "sp_Acked S \<le> int (length (sp_Stream S))" "sp_Lost S \<subseteq> {sp_Acked S..<sp_Next S}" "u_SndLastDataAck u = seq_at isn (sp_Acked S)"
    "u_SndLastAck u = seq_at isn (sp_Seen S)" "u_SndCurrSeqNo u = seq_at isn (sp_Next S - 1)"
  note b = c [unfolded buffer_part_def]
  define d where "d = k - sp_Acked S"
  have lt: "d < m_iSeqNoTH" using k lost_partD(4,6,7) [OF l] by (simp add: d_def)
  have o: "seqoff (u_SndLastDataAck u') (seq_at isn k) = d"
    using seq.off_window [of k "sp_Acked S" isn] lt k by (simp add: u' f d_def)
  have dec: "decseq (seq_at isn k) = seq_at isn (k - 1)" by (simp add: decseq_seq_at)
  obtain l' where l': "CSndLossList_remove (seq_at isn (k - 1)) l = Some l'" "CSndLossList_inv l'"
      "lost_set l' = seq_at isn ` (sp_Lost S - {..k - 1})" "sl_Size l' = sl_Size l"
    using snd_loss.remove_at [OF lost_partD(2,3) [OF l] f(6) lost_partD(4) [OF l], of "k - 1"] k by auto
  have less: "{..k - 1} = {..<k}" by auto
  define b' where "b' = CSndBuffer_ackData d b"
  have len: "d \<le> int (length us)" "0 \<le> d" using b k by (auto simp: d_def)
  have ring': "ring b' (drop (nat d) us) vs (ws @ take (nat d) us)" using ackData_ring [of b us vs ws d] b len by (simp add: b'_def)
  have "int (length us) = sp_Next S - sp_Acked S" using b by blast
  then have rest: "int (length us - nat d) = sp_Next S - k" using len by (simp add: d_def)
  have "sb_Block b' = sb_Block b" by (simp add: b'_def CSndBuffer_ackData_def)
  then have pk: "packets b' ns = packets b ns" "plain b' ns = plain b ns" for ns by (simp_all add: packets_def plain_def)
  let ?w = "u'\<lparr>u_SndBuffer := Some b', u_SndDuration := u_SndDuration u' + (tk - u_SndDurationCounter u'),
        u_SndDurationTotal := u_SndDurationTotal u' + (tk - u_SndDurationCounter u'), u_SndDurationCounter := tk,
        u_SndLastDataAck := seq_at isn k\<rparr>"
  let ?v = "?w\<lparr>u_SndLossList := Some l'\<rparr>"
  have v: "ack_buffer tk (seq_at isn k) u' = Some (Some ?v)"
    using o k lost_partD(1) [OF l] l'(1) dec b u' by (simp add: ack_buffer_def Let_def d_def b'_def)
  have "packets b' (drop (nat d) us @ vs) = drop (nat k) (sp_Stream S)"
  proof -
    have "packets b (drop (nat d) us @ vs) = drop (nat d) (packets b (us @ vs))" using len by (simp add: packets_def drop_map)
    also have "\<dots> = drop (nat d + nat (sp_Acked S)) (sp_Stream S)" using b by simp
    also have "nat d + nat (sp_Acked S) = nat k" using f(2) k by (simp add: d_def)
    finally show ?thesis by (simp add: pk)
  qed
  moreover have "plain b (drop (nat d) us @ vs)" using b by (auto simp: plain_def dest: in_set_dropD)
  then have "plain b' (drop (nat d) us @ vs)" by (simp only: pk)
  ultimately have "buffer_part (acked_to k S) ?v b' (drop (nat d) us) vs (ws @ take (nat d) us)"
    using ring' rest b by (simp add: buffer_part_def acked_to_def b'_def CSndBuffer_ackData_def numbers_messages_def)
  moreover have "lost_part isn (acked_to k S) ?v l'"
    using l' u' lost_partD [OF l] k less by (simp add: lost_part_def acked_to_def)
  moreover have "k \<le> int (length (sp_Stream S))" using stream_length [OF c f(2,5)] k by linarith
  ultimately have "sends isn (acked_to k S) ?v"
    using f k u' by (auto simp: sends_def acked_to_def)
  then show thesis using that v by blast
qed

lemma send_ack2_same: "send_ack2 us tk ackno u = Some v \<Longrightarrow> same_sender u v"
proof -
  assume "send_ack2 us tk ackno u = Some v"
  then obtain w where "v = u \<or> (CUDT_sendCtrl us tk 6 (Some ackno) None 0 u = Some w \<and> v = w\<lparr>u_SndLastAck2 := ackno, u_SndLastAck2Time := us\<rparr>)"
    unfolding send_ack2_def by (auto split: if_split_asm)
  then show ?thesis using sendCtrl_same [of us tk 6 "Some ackno" None 0 u w] by (auto simp: same_sender_def)
qed

text \<open>What \<open>full_ack\<close> does once the buffer has been told.\<close>

definition ack_done :: "uint64 \<Rightarrow> CPacket \<Rightarrow> CUDT \<Rightarrow> CUDT option" where
  "ack_done us p = (\<lambda>u. do {
     let u = emit (SndUList_update False) (emit (UpdateEvents UDT_EPOLL_OUT True) u);
     let u = update_rates p (update_rtt (word_at p 1) u);
     cc \<leftarrow> cc_onACK us (word_at p 0) (the (u_CC u));
     let u = CUDT_CCUpdate (u\<lparr>u_CC := Some cc\<rparr>);
     Some (u\<lparr>u_RecvACK := u_RecvACK u + 1, u_RecvACKTotal := u_RecvACKTotal u + 1\<rparr>)
   })"

lemma ack_done_same:
  assumes "ack_done us p u = Some v"
  shows "same_sender u v"
proof -
  let ?u = "update_rates p (update_rtt (word_at p 1) (emit (SndUList_update False) (emit (UpdateEvents UDT_EPOLL_OUT True) u)))"
  obtain cc where v: "v = (CUDT_CCUpdate (?u\<lparr>u_CC := Some cc\<rparr>))
      \<lparr>u_RecvACK := u_RecvACK (CUDT_CCUpdate (?u\<lparr>u_CC := Some cc\<rparr>)) + 1,
       u_RecvACKTotal := u_RecvACKTotal (CUDT_CCUpdate (?u\<lparr>u_CC := Some cc\<rparr>)) + 1\<rparr>"
    using assms unfolding ack_done_def Let_def by (cases "cc_onACK us (word_at p 0) (the (u_CC ?u))") auto
  have "same_sender u ?u" by simp
  then have "same_sender u (?u\<lparr>u_CC := Some cc\<rparr>)" by (simp add: same_sender_def)
  then have "same_sender u (CUDT_CCUpdate (?u\<lparr>u_CC := Some cc\<rparr>))" by simp
  then show ?thesis unfolding v by (simp add: same_sender_def)
qed

lemma full_ack_step:
  assumes s: "sends isn S u" and a: "near u (word_at p 0)" "word_at p 3 \<le> sl_Size (the (u_SndLossList u))"
    and r: "full_ack us tk p u = Some v"
  shows "\<exists>S'. spec_step isn S Quiet S' \<and> sends isn S' v"
proof -
  let ?a = "word_at p 0"
  obtain w where w: "send_ack2 us tk (getAckSeqNo p) u = Some w" using r by (auto simp: full_ack_def split: bind_splits)
  note same = send_ack2_same [OF w]
  note sw = sends_same [OF s same]
  have nw: "near w ?a" "word_at p 3 \<le> sl_Size (the (u_SndLossList w))" using a same by (simp_all add: near_def same_sender_def)
  define w' where "w' = (if seqcmp ?a (u_SndLastAck w) \<ge> 0 then w\<lparr>u_FlowWindowSize := word_at p 3, u_SndLastAck := ?a\<rparr> else w)"
  have r': "(if seqcmp ?a (incseq (u_SndCurrSeqNo w)) > 0 then Some (break_connection w)
      else case ack_buffer tk ?a w' of None \<Rightarrow> Some w' | Some r \<Rightarrow> Option.bind r (ack_done us p)) = Some v"
    using r unfolding full_ack_def w Option.bind.bind_lunit w'_def ack_done_def Let_def .
  obtain k where k: "?a = seq_at isn k" and d: "\<And>j. sp_Acked S \<le> j \<Longrightarrow> j \<le> sp_Next S \<Longrightarrow> \<bar>k - j\<bar> < m_iSeqNoTH"
    using near_position [OF sw nw(1)] by metis
  have f: "sp_Acked S \<le> sp_Seen S" "sp_Seen S \<le> sp_Next S" "u_SndLastAck w = seq_at isn (sp_Seen S)"
      "u_SndLastDataAck w = seq_at isn (sp_Acked S)" using sw by (auto simp: sends_def)
  show ?thesis
  proof (cases "seqcmp ?a (incseq (u_SndCurrSeqNo w)) > 0")
    case True
    then have "v = break_connection w" using r' by simp
    then have "same_sender w v" by (simp add: same_sender_def break_connection_def)
    then show ?thesis using sends_same [OF sw] spec_nothing by blast
  next
    case False
    have le: "k \<le> sp_Next S" using False seq.cmp_window_gt [OF d, of "sp_Next S" isn] f(1,2) unfolding k curr_next [OF sw] by simp
    have seen: "0 \<le> seqcmp ?a (u_SndLastAck w) \<longleftrightarrow> sp_Seen S \<le> k" using seq.cmp_window_ge [OF d, of "sp_Seen S" isn] f by (simp add: k)
    have off: "seqoff (u_SndLastDataAck w) ?a = k - sp_Acked S" using seq.off_window [OF d, of "sp_Acked S" isn] f by (simp add: k)
    have w'f: "u_SndBuffer w' = u_SndBuffer w" "u_SndLossList w' = u_SndLossList w" "u_SndLastDataAck w' = u_SndLastDataAck w"
        "u_SndCurrSeqNo w' = u_SndCurrSeqNo w" "u_SndLastAck w' = seq_at isn (max (sp_Seen S) k)"
      using seen f k by (auto simp: w'_def max_def)
    obtain l where l: "lost_part isn S w l" using sw by (auto simp: sends_def)
    show ?thesis
    proof (cases "sp_Acked S < k")
      case True
      have "u_FlowWindowSize w' + (max (sp_Seen S) k - k) \<le> sl_Size (the (u_SndLossList w))"
        using seen nw(2) lost_partD(1,5) [OF l] True by (auto simp: w'_def)
      then obtain x where x: "ack_buffer tk ?a w' = Some (Some x)" "sends isn (acked_to k S) x"
        using ack_buffer_sends [OF sw True le w'f] k by metis
      then have "same_sender x v" using r' False by (auto intro: ack_done_same)
      then have "sends isn (acked_to k S) v" using sends_same [OF x(2)] by blast
      then show ?thesis using spec_acked [of S k isn] True le by (auto simp: acked_to_def)
    next
      case acked: False
      then have v: "v = w'" using r' False off w'f by (simp add: ack_buffer_def Let_def)
      show ?thesis
      proof (cases "sp_Seen S \<le> k")
        case True
        then have e: "k = sp_Acked S" "k = sp_Seen S" using acked f by auto
        have "lost_part isn S w' l" using l e nw(2) seen True lost_partD(1) [OF l] w'f by (simp add: lost_part_def w'_def)
        then have "sends isn S w'" using sw w'f e f by (auto simp: sends_def buffer_part_def)
        then show ?thesis using v spec_nothing by blast
      next
        case False
        then show ?thesis using v seen sw spec_nothing by (auto simp: w'_def)
      qed
    qed
  qed
qed

section \<open>Loss reports\<close>

lemma insert_loss_sends:
  assumes s: "sends isn S u" and k: "sp_Seen S \<le> i" "i \<le> j" "j < sp_Next S"
  obtains v where "insert_loss (seq_at isn i) (seq_at isn j) u = Some v" "sends isn (S\<lparr>sp_Lost := sp_Lost S \<union> {i..j}\<rparr>) v"
    "u_SndLastDataAck v = u_SndLastDataAck u"
proof (rule sendsD [OF s])
  fix l b us vs ws assume l: "lost_part isn S u l" and c: "buffer_part S u b us vs ws"
    and f: "valid_seq isn" "0 \<le> sp_Acked S" "sp_Acked S \<le> sp_Seen S" "sp_Seen S \<le> sp_Next S"
    "sp_Acked S \<le> int (length (sp_Stream S))" "sp_Lost S \<subseteq> {sp_Acked S..<sp_Next S}" "u_SndLastDataAck u = seq_at isn (sp_Acked S)"
    "u_SndLastAck u = seq_at isn (sp_Seen S)" "u_SndCurrSeqNo u = seq_at isn (sp_Next S - 1)"
  let ?S = "S\<lparr>sp_Lost := sp_Lost S \<union> {i..j}\<rparr>"
  have "sp_Acked S \<le> i" using k(1) f(3) by linarith
  from snd_loss.insert_at [OF lost_partD(2,3) [OF l] f(6) lost_partD(4) [OF l] this k(2,3)]
  obtain n l' where l': "CSndLossList_insert (seq_at isn i) (seq_at isn j) l = Some (n, l')" "CSndLossList_inv l'"
      "lost_set l' = seq_at isn ` (sp_Lost S \<union> {i..j})" "sl_Size l' = sl_Size l" by blast
  let ?v = "count_loss n l' u"
  have "insert_loss (seq_at isn i) (seq_at isn j) u = Some ?v" using l'(1) lost_partD(1) [OF l] by (simp add: insert_loss_def)
  moreover have "lost_part isn ?S ?v l'" using l' lost_partD [OF l] by (simp add: lost_part_def count_loss_def)
  moreover have "buffer_part ?S ?v b us vs ws" using c by (simp add: buffer_part_def count_loss_def)
  moreover have "{i..j} \<subseteq> {sp_Acked S..<sp_Next S}" using f(3) k by auto
  moreover have e: "u_SndLastDataAck ?v = u_SndLastDataAck u" "u_SndLastAck ?v = u_SndLastAck u" "u_SndCurrSeqNo ?v = u_SndCurrSeqNo u"
    by (simp_all add: count_loss_def)
  ultimately have "sends isn ?S ?v" using f by (auto simp: sends_def)
  then show thesis using that [of ?v] \<open>insert_loss (seq_at isn i) (seq_at isn j) u = Some ?v\<close> e by blast
qed

text \<open>Numbers of a report are near the window; the second word of a range follows the first.\<close>

definition fair_report :: "(nat \<Rightarrow> int32) \<Rightarrow> nat \<Rightarrow> CUDT \<Rightarrow> bool" where
  "fair_report w n u \<longleftrightarrow>
    (\<forall>i<n. if 0 \<noteq> w i AND 0x80000000 then near u (w i AND 0x7FFFFFFF) \<and> near u (w (i + 1)) else near u (w i))"

lemma fair_report_cong: "u_SndLastDataAck v = u_SndLastDataAck u \<Longrightarrow> fair_report w n v = fair_report w n u"
  by (simp add: fair_report_def near_def)

text \<open>Some positions from the acknowledged one on are added to what is lost.\<close>

definition more_lost :: "int32 \<Rightarrow> sender_spec \<Rightarrow> CUDT \<Rightarrow> CUDT \<Rightarrow> bool" where
  "more_lost isn S u v \<longleftrightarrow> u_SndLastDataAck v = u_SndLastDataAck u \<and>
    (\<exists>X\<subseteq>{sp_Seen S..<sp_Next S}. sends isn (S\<lparr>sp_Lost := sp_Lost S \<union> X\<rparr>) v)"

lemma more_lost_refl: "sends isn S u \<Longrightarrow> more_lost isn S u u"
  unfolding more_lost_def by (intro conjI exI [of _ "{}"]) simp_all

lemma more_lost_trans:
  assumes "more_lost isn (S\<lparr>sp_Lost := sp_Lost S \<union> X\<rparr>) v w" "X \<subseteq> {sp_Seen S..<sp_Next S}" "u_SndLastDataAck v = u_SndLastDataAck u"
  shows "more_lost isn S u w"
proof -
  obtain Y where "Y \<subseteq> {sp_Seen S..<sp_Next S}" "sends isn (S\<lparr>sp_Lost := (sp_Lost S \<union> X) \<union> Y\<rparr>) w" "u_SndLastDataAck w = u_SndLastDataAck v"
    using assms(1) by (auto simp: more_lost_def)
  then show ?thesis using assms(2,3) unfolding more_lost_def by (intro conjI exI [of _ "X \<union> Y"]) (auto simp: Un_assoc)
qed

lemma insert_more:
  assumes "sends isn S u" "sp_Seen S \<le> i" "i \<le> j" "j < sp_Next S" "insert_loss (seq_at isn i) (seq_at isn j) u = Some v"
  shows "more_lost isn S u v"
  using insert_loss_sends [OF assms(1-4)] assms unfolding more_lost_def by (metis option.inject ivl_subset atLeastatMost_subset_iff
      atLeastLessThan_iff atLeastAtMost_iff subsetI order_trans order_le_less_trans)

lemma range_loss_more:
  assumes s: "sends isn S u" and n: "near u lo" "near u hi" "\<not> seqcmp lo hi > 0" "\<not> seqcmp hi (u_SndCurrSeqNo u) > 0"
    and r: "range_loss lo hi u = Some v"
  shows "more_lost isn S u v"
proof -
  obtain i where i: "lo = seq_at isn i" "\<And>j. sp_Acked S \<le> j \<Longrightarrow> j \<le> sp_Next S \<Longrightarrow> \<bar>i - j\<bar> < m_iSeqNoTH" "\<bar>i - sp_Acked S\<bar> < 0x20000000"
    using near_position [OF s n(1)] by metis
  obtain j where j: "hi = seq_at isn j" "\<And>i. sp_Acked S \<le> i \<Longrightarrow> i \<le> sp_Next S \<Longrightarrow> \<bar>j - i\<bar> < m_iSeqNoTH" "\<bar>j - sp_Acked S\<bar> < 0x20000000"
    using near_position [OF s n(2)] by metis
  have f: "sp_Acked S \<le> sp_Seen S" "sp_Seen S \<le> sp_Next S" "u_SndLastAck u = seq_at isn (sp_Seen S)"
      "u_SndCurrSeqNo u = seq_at isn (sp_Next S - 1)" using s by (auto simp: sends_def)
  have "\<bar>i - j\<bar> < m_iSeqNoTH"  using i(3) j(3) unfolding serial_consts by linarith
  then have ij: "i \<le> j" using n(3) seq.cmp_window_gt [of i j isn] by (simp add: i(1) j(1))
  have "\<bar>j - (sp_Next S - 1)\<bar> < m_iSeqNoTH" using j(2) [of "sp_Next S"] j(2) [of "sp_Next S - 1"] j(3) f by (cases "sp_Next S = sp_Acked S") (auto simp: serial_consts)
  then have jn: "j < sp_Next S" using n(4) seq.cmp_window_gt [of j "sp_Next S - 1" isn] f by (simp add: j(1))
  have seen: "0 \<le> seqcmp lo (u_SndLastAck u) \<longleftrightarrow> sp_Seen S \<le> i" "0 \<le> seqcmp hi (u_SndLastAck u) \<longleftrightarrow> sp_Seen S \<le> j"
    using seq.cmp_window_ge [OF i(2), of "sp_Seen S" isn] seq.cmp_window_ge [OF j(2), of "sp_Seen S" isn] f by (simp_all add: i(1) j(1))
  show ?thesis
    using r seen insert_more [OF s _ ij jn] insert_more [OF s order.refl _ jn] more_lost_refl [OF s] f i(1) j(1)
    by (auto simp: range_loss_def split: if_splits)
qed

lemma single_loss_more:
  assumes s: "sends isn S u" and n: "near u x" "seqcmp x (u_SndLastAck u) \<ge> 0" "\<not> seqcmp x (u_SndCurrSeqNo u) > 0"
    and r: "insert_loss x x u = Some v"
  shows "more_lost isn S u v"
  by (rule range_loss_more [OF s n(1) n(1) _ n(3)]) (use n r in \<open>simp_all add: range_loss_def\<close>)

lemma decode_loss_more:
  "sends isn S u \<Longrightarrow> fair_report w n u \<Longrightarrow> decode_loss w i n u = Some (ok, v) \<Longrightarrow> more_lost isn S u v"
proof (induction w i n u arbitrary: S ok v rule: decode_loss.induct)
  case (1 w i n u)
  note s = "1.prems"(1) and fr = "1.prems"(2) and r = "1.prems"(3)
  have go: "more_lost isn S u v"
    if m: "more_lost isn S u x" and ih: "\<And>S. sends isn S x \<Longrightarrow> fair_report w n x \<Longrightarrow> more_lost isn S x v" for x
  proof -
    obtain X where X: "X \<subseteq> {sp_Seen S..<sp_Next S}" "sends isn (S\<lparr>sp_Lost := sp_Lost S \<union> X\<rparr>) x" "u_SndLastDataAck x = u_SndLastDataAck u"
      using m by (auto simp: more_lost_def)
    have "fair_report w n x" using fr fair_report_cong [OF X(3)] by simp
    from more_lost_trans [OF ih [OF X(2) this] X(1,3)] show ?thesis .
  qed
  show ?case
  proof (cases "i < n")
    case False
    then show ?thesis using r more_lost_refl [OF s] by (subst (asm) decode_loss.simps) simp
  next
    case True
    note r' = r [unfolded decode_loss.simps [of w i n u]]
    show ?thesis
    proof (cases "0 \<noteq> w i AND 0x80000000")
      case range: True
      have nr: "near u (w i AND 0x7FFFFFFF)" "near u (w (i + 1))" using fr True range by (auto simp: fair_report_def)
      show ?thesis
      proof (cases "seqcmp (w i AND 0x7FFFFFFF) (w (i + 1)) > 0 \<or> seqcmp (w (i + 1)) (u_SndCurrSeqNo u) > 0")
        case True
        then show ?thesis using r' \<open>i < n\<close> range more_lost_refl [OF s] by (auto simp: Let_def)
      next
        case False
        then obtain x where x: "range_loss (w i AND 0x7FFFFFFF) (w (i + 1)) u = Some x" "decode_loss w (i + 2) n x = Some (ok, v)"
          using r' \<open>i < n\<close> range by (auto simp: Let_def split: option.splits)
        have "more_lost isn S u x" using False x(1) by (intro range_loss_more [OF s nr]) auto
        then show ?thesis
          by (rule go) (rule "1.IH"(1) [OF \<open>i < n\<close> range refl refl False x(1) _ _ x(2)])
      qed
    next
      case single: False
      have nr: "near u (w i)" using fr True single by (auto simp: fair_report_def)
      show ?thesis
      proof (cases "seqcmp (w i) (u_SndLastAck u) \<ge> 0")
        case ge: True
        show ?thesis
        proof (cases "seqcmp (w i) (u_SndCurrSeqNo u) > 0")
          case True
          then show ?thesis using r' \<open>i < n\<close> single ge more_lost_refl [OF s] by auto
        next
          case False
          then obtain x where x: "insert_loss (w i) (w i) u = Some x" "decode_loss w (i + 1) n x = Some (ok, v)"
            using r' \<open>i < n\<close> single ge by (auto split: option.splits)
          show ?thesis
            by (rule go [OF single_loss_more [OF s nr ge False x(1)]]) (rule "1.IH"(2) [OF \<open>i < n\<close> single ge False x(1) _ _ x(2)])
        qed
      next
        case False
        then have "decode_loss w (i + 1) n u = Some (ok, v)" using r' \<open>i < n\<close> single by auto
        then show ?thesis using "1.IH"(3) [OF \<open>i < n\<close> single False s fr] by blast
      qed
    qed
  qed
qed

lemma more_lost_step:
  assumes "more_lost isn S u v" "same_sender v v'"
  shows "\<exists>S'. spec_step isn S Quiet S' \<and> sends isn S' v'"
  using assms spec_lost [of _ S isn] sends_same [of isn _ v v'] by (auto simp: more_lost_def)

lemma loss_report_step:
  assumes s: "sends isn S u" and fr: "fair_report (word_at p) (nat (getLength p sdiv 4)) u" and r: "loss_report rand p u = Some v"
  shows "\<exists>S'. spec_step isn S Quiet S' \<and> sends isn S' v"
proof -
  let ?n = "nat (getLength p sdiv 4)"
  define w where "w = CUDT_CCUpdate (on_cc (cc_onLoss rand (map (word_at p) [0..<max 1 ?n])) u)"
  have same: "same_sender u w" by (simp add: w_def)
  obtain ok x where x: "decode_loss (word_at p) 0 ?n w = Some (ok, x)" "same_sender x v"
    using r [unfolded loss_report_def Let_def w_def [symmetric]]
    by (auto simp: same_sender_def break_connection_def emit_def split: option.splits prod.splits if_splits)
  have "fair_report (word_at p) ?n w" using fr same fair_report_cong [of w u] by (simp add: same_sender_def)
  from decode_loss_more [OF sends_same [OF s same] this x(1)] more_lost_step [OF _ x(2)] show ?thesis by blast
qed

section \<open>Control packets and timers\<close>

text \<open>A peer that follows the protocol: its numbers are near the window, a light acknowledgement is not beyond what
  was sent (the code does not check it), and the window it offers is not larger than the loss list made for it.\<close>

definition fair :: "CPacket \<Rightarrow> CUDT \<Rightarrow> bool" where
  "fair p u \<longleftrightarrow>
    (if getType p = 2 then
       near u (word_at p 0) \<and>
       (if 4 = getLength p then seqcmp (word_at p 0) (incseq (u_SndCurrSeqNo u)) \<le> 0
        else word_at p 3 \<le> sl_Size (the (u_SndLossList u)))
     else if getType p = 3 then fair_report (word_at p) (nat (getLength p sdiv 4)) u
     else True)"

lemma processCtrl_step:
  assumes s: "sends isn S u" and p: "fair p u" and r: "CUDT_processCtrl rand us tk p u pool = Some (v, pool')"
  shows "\<exists>S'. spec_step isn S Quiet S' \<and> sends isn S' v"
proof -
  define w where "w = heard_from_peer tk u"
  have same: "same_sender u w" by (simp add: w_def heard_from_peer_def same_sender_def)
  note sw = sends_same [OF s same]
  have quiet: ?thesis if "same_sender w v" using sends_same [OF sw that] spec_nothing by blast
  have near: "near w x = near u x" for x using same by (simp add: near_def same_sender_def)
  have rep: "fair_report f n w = fair_report f n u" for f n using same fair_report_cong [of w u] by (simp add: same_sender_def)
  note r' = r [unfolded CUDT_processCtrl_def Let_def w_def [symmetric]]
  consider "getType p = 2" "4 = getLength p" | "getType p = 2" "4 \<noteq> getLength p" | "getType p = 3" | "getType p \<noteq> 2" "getType p \<noteq> 3" by blast
  then show ?thesis
  proof cases
    case 1
    then show ?thesis using r' p light_ack_step [OF sw, of "word_at p 0"] same by (simp add: fair_def near same_sender_def)
  next
    case 2
    then show ?thesis using r' p full_ack_step [OF sw, of p us tk v] same by (auto simp: fair_def near same_sender_def)
  next
    case 3
    then show ?thesis using r' p loss_report_step [OF sw, of p rand v] by (auto simp: fair_def rep)
  next
    case 4
    moreover have "same_sender w (delay_warning w)" "same_sender w (peer_shutdown w)" "same_sender w (w\<lparr>u_PeerHealth := False\<rparr>)"
      by (simp_all add: delay_warning_def peer_shutdown_def same_sender_def)
    ultimately have "same_sender w v"
      using r' ack_of_ack_same [of w us p] repeat_handshake_same [of us tk p w v] drop_request_same [of p w pool v pool']
      by (auto split: if_split_asm)
    then show ?thesis by (rule quiet)
  qed
qed

lemma resend_unacked_more:
  assumes s: "sends isn S u" and r: "resend_unacked u = Some v"
  shows "more_lost isn S u v"
proof (cases "incseq (u_SndCurrSeqNo u) \<noteq> u_SndLastAck u \<and> CSndLossList_getLossLength (the (u_SndLossList u)) = 0")
  case True
  have f: "sp_Seen S \<le> sp_Next S" "u_SndLastAck u = seq_at isn (sp_Seen S)" "u_SndCurrSeqNo u = seq_at isn (sp_Next S - 1)"
    using s by (auto simp: sends_def)
  have "sp_Seen S \<noteq> sp_Next S" using True curr_next [OF s] f(2) by auto
  then have "sp_Seen S \<le> sp_Next S - 1" using f(1) by linarith
  then show ?thesis using insert_more [OF s order.refl, of "sp_Next S - 1" v] r True f by (simp add: resend_unacked_def)
next
  case False
  then show ?thesis using r more_lost_refl [OF s] by (auto simp: resend_unacked_def split: if_splits)
qed

lemma exp_timer_step:
  assumes s: "sends isn S u" and r: "exp_timer us tk u = Some v"
  shows "\<exists>S'. spec_step isn S Quiet S' \<and> sends isn S' v"
proof -
  have quiet: ?thesis if "same_sender u v" using sends_same [OF s that] spec_nothing by blast
  consider "v = u" | "v = give_up u" | w where "CUDT_sendCtrl us tk 1 None None 0 u = Some w" "same_sender w v"
    | w where "resend_unacked u = Some w" "same_sender w v"
    using r unfolding exp_timer_def
    by (fastforce simp: same_sender_def emit_def CUDT_CCUpdate_def Let_def split: if_split_asm bind_splits)
  then show ?thesis
  proof cases
    case 3
    then show ?thesis using sendCtrl_same same_sender_trans quiet by blast
  next
    case 4
    then show ?thesis using more_lost_step [OF resend_unacked_more [OF s]] by blast
  qed (use quiet in \<open>simp_all add: give_up_def Let_def same_sender_def emit_def\<close>)
qed

lemma checkTimers_step:
  assumes s: "sends isn S u" and r: "CUDT_checkTimers us tk u = Some v"
  shows "\<exists>S'. spec_step isn S Quiet S' \<and> sends isn S' v"
proof -
  obtain w where w: "ack_timer us tk (CUDT_CCUpdate u) = Some w" "exp_timer us tk w = Some v"
    using r by (auto simp: CUDT_checkTimers_def split: bind_splits)
  have "same_sender u (CUDT_CCUpdate u)" by simp
  then have "same_sender u w" using ack_timer_same [OF w(1)] same_sender_trans by blast
  from exp_timer_step [OF sends_same [OF s this] w(2)] show ?thesis .
qed

end
