(* ===== verification/SenderSpec.thy ===== *)
theory SenderSpec imports SenderOps begin

text \<open>
  Runs of a sender (\<open>core.cpp\<close>): sequences of operations of a socket refine the abstract sender from the
  handshake on, and \<open>packData\<close> makes progress.
\<close>

section \<open>Every run\<close>

inductive sender_step :: "CUDT \<Rightarrow> sender_event \<Rightarrow> CUDT \<Rightarrow> bool" where
  do_sendmsg: "CUDT_sendmsg g (\<lambda>_. True) us tk data (int (length data)) ttl order u = Some (r, v) \<Longrightarrow> ttl < 0 \<Longrightarrow>
    sender_step u (accept_event data order r) v"
| do_packData: "CUDT_packData us tk p ts u = Some (n, q, ts', v) \<Longrightarrow> length (m_nHeader p) = 4 \<Longrightarrow>
    sender_step u (if n \<noteq> 0 then on_wire q else Quiet) v"
| do_processCtrl: "CUDT_processCtrl rand us tk p u pool = Some (v, pool') \<Longrightarrow> fair p u \<Longrightarrow> sender_step u Quiet v"
| do_checkTimers: "CUDT_checkTimers us tk u = Some v \<Longrightarrow> sender_step u Quiet v"
| do_processData: "CUDT_processData us tk ref u pool = Some (r, v, pool') \<Longrightarrow> sender_step u Quiet v"
| do_recvmsg: "CUDT_recvmsg len u pool = Some (r, v, pool') \<Longrightarrow> sender_step u Quiet v"

inductive sender_run :: "CUDT \<Rightarrow> sender_event list \<Rightarrow> CUDT \<Rightarrow> bool" for u where
  run_start: "sender_run u [] u"
| run_step: "sender_run u es v \<Longrightarrow> sender_step v e w \<Longrightarrow> sender_run u (es @ [e]) w"

inductive spec_run :: "int32 \<Rightarrow> sender_event list \<Rightarrow> sender_spec \<Rightarrow> bool" for isn where
  spec_run_start: "spec_run isn [] spec_start"
| spec_run_step: "spec_run isn es S \<Longrightarrow> spec_step isn S e S' \<Longrightarrow> spec_run isn (es @ [e]) S'"

inductive_cases accept_stepE: "spec_step isn S (Accepted data order) S'"
inductive_cases quiet_stepE: "spec_step isn S Quiet S'"

lemma sender_step_refines:
  assumes "sender_step u e v" "sends isn S u"
  shows "\<exists>S'. spec_step isn S e S' \<and> sends isn S' v"
  using assms
proof cases
  case (do_sendmsg g us tk data ttl order r)
  then show ?thesis using sendmsg_step [OF assms(2), of g us tk data ttl order r v] by blast
next
  case (do_packData us tk p ts n q ts')
  then show ?thesis using packData_step [OF assms(2), of p us tk ts n q ts' v] by blast
next
  case (do_processCtrl rand us tk p pool pool')
  then show ?thesis using processCtrl_step [OF assms(2), of p rand us tk pool v pool'] by blast
next
  case (do_checkTimers us tk)
  then show ?thesis using checkTimers_step [OF assms(2), of us tk v] by blast
next
  case (do_processData us tk ref pool r pool')
  then show ?thesis using sends_same [OF assms(2) processData_same] spec_nothing by blast
next
  case (do_recvmsg len pool r pool')
  then show ?thesis using sends_same [OF assms(2) recvmsg_same] spec_nothing by blast
qed

text \<open>What the abstract sender promises: the stream is what was accepted, and what is on the wire is part of it.\<close>

fun accepted :: "sender_event list \<Rightarrow> (byte list \<times> bool) list" where
  "accepted [] = []"
| "accepted (Accepted data order # es) = (data, order) # accepted es"
| "accepted (e # es) = accepted es"

lemma accepted_append: "accepted (es @ [e]) = accepted es @ (case e of Accepted data order \<Rightarrow> [(data, order)] | _ \<Rightarrow> [])"
  by (induction es rule: accepted.induct) (auto split: sender_event.split)

definition numbering :: "int32 \<Rightarrow> sender_event list \<Rightarrow> (byte list \<times> uint32) list \<Rightarrow> bool" where
  "numbering isn es stream \<longleftrightarrow> cut_up (accepted es) stream \<and>
    (\<forall>s bytes word. Wire s bytes word \<in> set es \<longrightarrow> (\<exists>k<length stream. s = seq_at isn (int k) \<and> stream ! k = (bytes, word)))"

definition spec_inv :: "sender_spec \<Rightarrow> bool" where
  "spec_inv S \<longleftrightarrow> 0 \<le> sp_Acked S \<and> sp_Acked S \<le> sp_Seen S \<and> sp_Seen S \<le> sp_Next S \<and> sp_Next S \<le> int (length (sp_Stream S)) \<and>
    sp_Lost S \<subseteq> {sp_Acked S..<sp_Next S}"

lemma numbering_more:
  "numbering isn es st \<Longrightarrow> concat (map fst ps) = data \<Longrightarrow> one_message order ps \<Longrightarrow> numbering isn (es @ [Accepted data order]) (st @ ps)"
  by (fastforce simp: numbering_def accepted_append nth_append intro: cut_up_more)

lemma numbering_wire:
  "numbering isn es st \<Longrightarrow> 0 \<le> k \<Longrightarrow> k < int (length st) \<Longrightarrow> st ! nat k = (bytes, word) \<Longrightarrow>
     numbering isn (es @ [Wire (seq_at isn k) bytes word]) st"
  by (auto simp: numbering_def accepted_append intro!: exI [of _ "nat k"])

lemma spec_run_numbering: "spec_run isn es S \<Longrightarrow> spec_inv S \<and> numbering isn es (sp_Stream S)"
proof (induction rule: spec_run.induct)
  case spec_run_start
  then show ?case by (simp add: spec_inv_def spec_start_def numbering_def cut_up_nil)
next
  case (spec_run_step es S e S')
  note i = spec_run_step.IH and st = spec_run_step.hyps(2)
  show ?case
  proof (cases e)
    case (Accepted data order)
    then show ?thesis using i st by (auto elim!: accept_stepE simp: spec_inv_def intro: numbering_more)
  next
    case (Wire s bytes word)
    from st [unfolded Wire] show ?thesis
    proof cases
      case spec_new
      then show ?thesis using i by (auto simp: Wire spec_inv_def intro!: numbering_wire)
    next
      case (spec_again k)
      then have "0 \<le> k \<and> k < int (length (sp_Stream S))" using i by (auto simp: spec_inv_def)
      then show ?thesis using i spec_again by (auto simp: Wire spec_inv_def intro!: numbering_wire)
    qed
  next
    case Quiet
    have "numbering isn (es @ [Quiet]) (sp_Stream S)" using i by (simp add: numbering_def accepted_append)
    then show ?thesis using i st unfolding Quiet by (auto elim!: quiet_stepE simp: spec_inv_def) force+
  qed
qed

section \<open>The start\<close>

text \<open>A socket as a handshake leaves it. The first sequence number is not 0: for 0 the code sets \<open>m_iSndCurrSeqNo\<close> to -1,
  which is not a sequence number.\<close>

definition fresh_sender :: "int32 \<Rightarrow> CUDT \<Rightarrow> bool" where
  "fresh_sender isn u \<longleftrightarrow> valid_seq isn \<and> 0 < isn \<and> u_SndLastAck u = isn \<and> u_SndLastDataAck u = isn \<and> u_SndCurrSeqNo u = isn - 1 \<and>
     (\<exists>g. u_SndBuffer u = Some (CSndBuffer_new g 32 (u_PayloadSize u))) \<and> 0 < u_PayloadSize u \<and>
     u_SndLossList u = Some (CSndLossList_new (u_FlowWindowSize u * 2)) \<and> 0 < u_FlowWindowSize u \<and> 4 * u_FlowWindowSize u < m_iSeqNoTH"

lemma fresh_sends:
  assumes "fresh_sender isn u"
  shows "sends isn spec_start u"
proof -
  note f = assms [unfolded fresh_sender_def]
  obtain g where g: "u_SndBuffer u = Some (CSndBuffer_new g 32 (u_PayloadSize u))" using f by blast
  have "ring (CSndBuffer_new g 32 (u_PayloadSize u)) [] [] [0..<nat 32]" using f by (intro new_ring) auto
  then have "buffer_part spec_start u (CSndBuffer_new g 32 (u_PayloadSize u)) [] [] [0..<nat 32]"
    using g by (simp add: buffer_part_def spec_start_def plain_def packets_def numbers_messages_def CSndBuffer_new_def serial_consts)
  moreover have "lost_part isn spec_start u (CSndLossList_new (u_FlowWindowSize u * 2))"
    using f new_list_inv [of "u_FlowWindowSize u * 2"] by (auto simp: lost_part_def spec_start_def CSndLossList_new_def)
  moreover have "seq_at isn 0 = isn" "seq_at isn (- 1) = isn - 1"
    using f by (simp_all add: valid_seq_def shift_def)
  ultimately show ?thesis using f by (auto simp: sends_def spec_start_def)
qed

lemma structures_fresh:
  assumes u: "valid_seq isn" "0 < isn" "u_SndLastAck u = isn" "u_SndLastDataAck u = isn" "u_SndCurrSeqNo u = isn - 1"
      "0 < u_PayloadSize u" "0 < u_FlowWindowSize u" "4 * u_FlowWindowSize u < m_iSeqNoTH"
    and v: "use_cache cache a (prepare_structures g us u) = Some v"
    and w: "same_sender (start_cc us v) w" "u_PayloadSize w = u_PayloadSize (start_cc us v)"
  shows "fresh_sender isn w"
proof -
  have "same_sender (prepare_structures g us u) v \<and> u_PayloadSize v = u_PayloadSize (prepare_structures g us u)"
    using v by (auto simp: use_cache_def same_sender_def)
  moreover have "same_sender v (start_cc us v) \<and> u_PayloadSize (start_cc us v) = u_PayloadSize v"
    by (simp add: start_cc_def Let_def same_sender_def)
  ultimately have "same_sender (prepare_structures g us u) w" "u_PayloadSize w = u_PayloadSize (prepare_structures g us u)"
    using w same_sender_trans by (blast, simp)
  then show ?thesis using u by (auto simp: fresh_sender_def same_sender_def prepare_structures_def)
qed

lemma accepting_fresh:
  assumes r: "CUDT_connect_peer g mem us cache peer hs s = Some (Inr hs', s')"
    and hs: "valid_seq (m_iISN hs)" "0 < m_iISN hs" "0 < m_iFlightFlagSize hs" "4 * m_iFlightFlagSize hs < m_iSeqNoTH"
      "IP_AND_UDP_OVERHEAD + m_iPktHdrSize < min (m_iMSS hs) (u_MSS s)"
  shows "fresh_sender (m_iISN hs) s'"
proof -
  obtain h u where n: "negotiate us peer hs s = (h, u)" by fastforce
  obtain v where v: "use_cache cache peer (prepare_structures g us u) = Some v"
    and s': "s' = send_answer peer h (emit SetNewEntry ((start_cc us v)\<lparr>u_PeerAddr := Some peer, u_Connected := True\<rparr>))"
    using r n by (auto simp: CUDT_connect_peer_def split: if_splits bind_splits)
  have d: "u_SndLastDataAck u = m_iISN hs"
    using n by (auto simp: negotiate_def expect_from_def start_sequence_def set_sizes_def Let_def split: if_splits)
  have "same_sender (start_cc us v) s'" "u_PayloadSize s' = u_PayloadSize (start_cc us v)"
    by (simp_all add: s' send_answer_def split: prod.split) (simp add: same_sender_def)
  then show ?thesis
    using structures_fresh [OF hs(1,2) _ d _ _ _ _ v] negotiate_terms [of us peer hs s u] n hs by simp
qed

lemma connecting_fresh:
  assumes r: "post_connect g mem us cache u = Some v"
    and u: "valid_seq isn" "0 < isn" "u_SndLastAck u = isn" "u_SndLastDataAck u = isn" "u_SndCurrSeqNo u = isn - 1"
      "0 < m_iFlightFlagSize (u_ConnRes u)" "4 * m_iFlightFlagSize (u_ConnRes u) < m_iSeqNoTH"
      "IP_AND_UDP_OVERHEAD + m_iPktHdrSize < m_iMSS (u_ConnRes u)"
  shows "fresh_sender isn v"
proof -
  define w where "w = (expect_from (m_iISN (u_ConnRes u)) ((set_sizes (m_iMSS (u_ConnRes u))
      (emit RemoveConnector u))\<lparr>u_FlowWindowSize := m_iFlightFlagSize (u_ConnRes u)\<rparr>))
      \<lparr>u_PeerID := m_iHsID (u_ConnRes u), u_SelfIP := m_piPeerIP (u_ConnRes u)\<rparr>"
  obtain x where x: "use_cache cache (the (u_PeerAddr w)) (prepare_structures g us w) = Some x"
    and v: "v = emit ConnectComplete (emit (UpdateEvents UDT_EPOLL_OUT True) (emit SetNewEntry
        ((start_cc us x)\<lparr>u_Connecting := False, u_Connected := True\<rparr>)))"
    using r by (auto simp: post_connect_def Let_def w_def [symmetric] split: if_splits bind_splits)
  have "u_SndLastAck w = isn" "u_SndLastDataAck w = isn" "u_SndCurrSeqNo w = isn - 1" "0 < u_PayloadSize w"
      "0 < u_FlowWindowSize w" "4 * u_FlowWindowSize w < m_iSeqNoTH"
    using u by (simp_all add: w_def expect_from_def set_sizes_def emit_def Let_def)
  then show ?thesis
    by (rule structures_fresh [OF u(1,2) _ _ _ _ _ _ x]) (simp_all add: v same_sender_def emit_def)
qed

lemma sender_run_refines:
  assumes "fresh_sender isn u" "sender_run u es v"
  shows "\<exists>S. spec_run isn es S \<and> sends isn S v"
  using assms(2)
proof (induction rule: sender_run.induct)
  case run_start
  then show ?case using spec_run_start fresh_sends [OF assms(1)] by blast
next
  case (run_step es v e w)
  then show ?case using sender_step_refines spec_run_step by blast
qed

lemma sender_run_numbers: "fresh_sender isn u \<Longrightarrow> sender_run u es v \<Longrightarrow> \<exists>st. numbering isn es st"
  using sender_run_refines spec_run_numbering by blast

text \<open>C2: whatever the application sends and receives, whatever data and (protocol conforming) control packets come and
  whatever timers expire, a socket refines the abstract sender. So there is a stream of packets that is the messages accepted,
  in order, each cut into packets with the bits that say where it starts and ends and whether it is to be kept in order, and every data packet handed to the network is the packet of the stream that its
  sequence number names, be it sent for the first time or again; what is acknowledged, sent and lost stays in order.
  Conditions: messages are sent without a time to live (\<open>ttl < 0\<close>) and with memory at hand, the control packets are \<open>fair\<close>, and
  the first sequence number is not 0. With a time to live the statement fails: when a message is dropped the code skips one
  sequence number too many.\<close>

theorem sender_numbers_stream:
  assumes "fresh_sender isn u" "sender_run u es v"
  shows "\<exists>S. spec_run isn es S \<and> sends isn S v \<and> spec_inv S \<and> numbering isn es (sp_Stream S)"
  using sender_run_refines [OF assms] spec_run_numbering by blast

text \<open>An instance: a connected socket accepts a message.\<close>

definition example_sender :: "CUDT \<Rightarrow> CUDT" where
  "example_sender g = (CUDT_new g)\<lparr>u_SndLastAck := 7, u_SndLastDataAck := 7, u_SndCurrSeqNo := 6, u_PayloadSize := 1456,
     u_SndBuffer := Some (CSndBuffer_new (\<lambda>_. undefined) 32 1456), u_SndLossList := Some (CSndLossList_new 51200),
     u_FlowWindowSize := 25600, u_CongestionWindow := 16, u_Connected := True, u_CC := Some (UdtCC CUDTCC_new)\<rparr>"

lemma example_fresh: "fresh_sender 7 (example_sender g)"
  by (auto simp: fresh_sender_def example_sender_def valid_seq_def serial_consts)

lemma example_sendmsg:
  "\<exists>v. CUDT_sendmsg gb (\<lambda>_. True) us tk [1, 2, 3] 3 (- 1) False (example_sender g) = Some (Inr 3, v) \<and> u_Out v = [SndUList_update False]"
proof -
  let ?u = "example_sender g" and ?b = "CSndBuffer_new (\<lambda>_. undefined) 32 1456"
  have "ring ?b [] [] [0..<nat 32]" by (rule new_ring) simp_all
  then obtain b' where b': "CSndBuffer_addBuffer gb (\<lambda>_. True) us [1, 2, 3] 3 (- 1) False ?b = Some (Inr b')"
    using addBuffer_ring [of ?b "[]" "[]" "[0..<nat 32]" 3 "[1, 2, 3]"] by fastforce
  have c: "CSndBuffer_getCurrBufSize ?b = 0" by (simp add: CSndBuffer_getCurrBufSize_def CSndBuffer_new_def)
  have u: "u_SndBuffer ?u = Some ?b" "u_SndBufSize ?u = 8192" "u_PayloadSize ?u = 1456" "u_Connected ?u" "\<not> u_Broken ?u" "\<not> u_Closing ?u"
      "u_Out ?u = []"
    by (simp_all add: example_sender_def CUDT_new_def closed_status_def no_structures_def Let_def)
  have "mul_int 8192 1456 = Some 11927552" by (simp add: mul_int_def fits_int32_def)
  then show ?thesis using b' c u by (simp add: CUDT_sendmsg_def emit_def)
qed

theorem sender_numbers_stream_witness:
  "\<forall>g. \<exists>v S. sender_run (example_sender g) [Accepted [1, 2, 3] False] v \<and> sends 7 S v \<and> concat (map fst (sp_Stream S)) = [1, 2, 3]"
proof
  fix g
  obtain v where v: "CUDT_sendmsg (\<lambda>_. undefined) (\<lambda>_. True) 5 5 [1, 2, 3] 3 (- 1) False (example_sender g) = Some (Inr 3, v)"
    using example_sendmsg by blast
  have "sender_step (example_sender g) (Accepted [1, 2, 3] False) v"
    using do_sendmsg [of "\<lambda>_. undefined" 5 5 "[1, 2, 3]" "- 1" False "example_sender g" "Inr 3" v] v by (simp add: accept_event_def)
  then have run: "sender_run (example_sender g) [Accepted [1, 2, 3] False] v"
    using run_step [OF run_start] by fastforce
  from sender_numbers_stream [OF example_fresh this] run
  show "\<exists>v S. sender_run (example_sender g) [Accepted [1, 2, 3] False] v \<and> sends 7 S v \<and> concat (map fst (sp_Stream S)) = [1, 2, 3]"
    by (fastforce simp: numbering_def dest: cut_up_bytes)
qed

section \<open>Progress\<close>

lemma packData_returns:
  assumes s: "sends isn S u" and p: "length (m_nHeader p) = 4" and cc: "u_CC u = Some (UdtCC c)"
  shows "\<exists>n q ts' v. CUDT_packData us tk p ts u = Some (n, q, ts', v) \<and>
    (n \<noteq> 0 \<longleftrightarrow> sp_Lost S \<noteq> {} \<or> (sp_Next S < int (length (sp_Stream S)) \<and> sent_length u \<le> send_window u))"
proof -
  have fin: "\<exists>ts' v'. finish_packet us tk n probe q v = Some (n, setLength n (set_m_iID (u_PeerID v) (set_hdr 2 (ucast (us - u_StartTime v)) q)), ts', v')"
    if "u_CC v = Some (UdtCC d)" for n probe q d and v :: CUDT
    using that by (simp add: finish_packet_def Let_def split: prod.split)
  show ?thesis
  proof (cases rule: packData_cases [OF s p, where us = us and tk = tk and ts = ts])
    case (1 k m q v)
    then show ?thesis using fin [of v c m False q] cc by auto
  next
    case fresh: (2 w p')
    obtain b bs vs ws where b: "buffer_part S w b bs vs ws" and a: "0 \<le> sp_Acked S" "sp_Acked S \<le> int (length (sp_Stream S))"
      using sends_same [OF s fresh(2)] by (auto simp: sends_def)
    have unsent: "sp_Next S < int (length (sp_Stream S)) \<longleftrightarrow> vs \<noteq> []" using stream_length [OF b a] by (cases vs) auto
    have win: "send_window w = send_window u" "sent_length w = sent_length u"
      using fresh(2,5) by (simp_all add: send_window_def sent_length_def same_sender_def)
    obtain x q v where x: "pack_new p' w = (x, q, v)" by (metis prod_cases3)
    show ?thesis
    proof (cases "vs \<noteq> [] \<and> sent_length u \<le> send_window u")
      case True
      then obtain n ns where vs: "vs = n # ns" by (cases vs) auto
      have r: "ring b bs (n # ns) ws" "0 < bl_Length (sb_Block b n)" "u_SndBuffer w = Some b"
        using b vs by (auto simp: buffer_part_def plain_def)
      have "x = Packed (bl_Length (sb_Block b n)) (m_iSeqNo q AND 0xF = 0)" "u_CC v = Some (UdtCC (setSndCurrSeqNo (u_SndCurrSeqNo v) c))"
        using x True win r readData_ring [OF r(1)] cc fresh(3) by (auto simp: pack_new_def Let_def)
      then show ?thesis
        using fin [of v _ "bl_Length (sb_Block b n)" "m_iSeqNo q AND 0xF = 0" q] x fresh(1,6) True unsent r(2)
        by (auto simp: finish_def)
    next
      case False
      have "x = NothingReset"
        using x False win b readData_end [of b bs ws] by (auto simp: pack_new_def buffer_part_def split: if_splits)
      then show ?thesis using x fresh(1,6) False unsent by (auto simp: finish_def)
    qed
  qed
qed

text \<open>C11: on a socket with UDT's own congestion control that refines the abstract sender (\<open>sends\<close>: no message has a time
  to live, so none can expire) \<open>packData\<close> always returns, and it hands out a packet exactly when there is
  one to send: one that is lost, or one that was never sent and for which the window has room.\<close>

theorem packData_progress:
  assumes s: "sends isn S u" and p: "length (m_nHeader p) = 4" and cc: "u_CC u = Some (UdtCC c)"
  shows "\<exists>n q ts' v. CUDT_packData us tk p ts u = Some (n, q, ts', v) \<and>
    (n \<noteq> 0 \<longleftrightarrow> sp_Lost S \<noteq> {} \<or> (sp_Next S < int (length (sp_Stream S)) \<and> sent_length u \<le> send_window u))"
  by (rule packData_returns [OF assms])

theorem packData_progress_witness:
  "\<forall>g. \<exists>n q ts v. CUDT_packData 5 5 CPacket_new 5 (example_sender g) = Some (n, q, ts, v) \<and> n = 0"
proof
  fix g
  have "u_CC (example_sender g) = Some (UdtCC CUDTCC_new)" by (simp add: example_sender_def)
  from packData_progress [OF fresh_sends [OF example_fresh] _ this, of CPacket_new 5 5 5]
  show "\<exists>n q ts v. CUDT_packData 5 5 CPacket_new 5 (example_sender g) = Some (n, q, ts, v) \<and> n = 0"
    by (auto simp: CPacket_new_def spec_start_def)
qed

end
