(* ===== verification/SndLossRef.thy ===== *)
theory SndLossRef imports SndLossSpec begin

text \<open>
  The sender's loss list against a reference program. The reference keeps the lost numbers in a plain list in sequence
  order and does everything by filtering and appending. The array of cells with its links, its coalescing and the hint
  of the last insertion gives the same answers to every sequence of calls, and it never loops.
\<close>

section \<open>The calls and the reference\<close>

datatype loss_call = Add int32 int32 | Acked int32 | Take | Count

definition list_call :: "loss_call \<Rightarrow> CSndLossList \<Rightarrow> (int \<times> CSndLossList) option" where
  "list_call c l =
    (case c of
       Add s1 s2 \<Rightarrow> CSndLossList_insert s1 s2 l
     | Acked s \<Rightarrow> map_option (\<lambda>l. (0, l)) (CSndLossList_remove s l)
     | Take \<Rightarrow> Some (CSndLossList_getLostSeq l)
     | Count \<Rightarrow> Some (CSndLossList_getLossLength l, l))"

fun list_calls :: "loss_call list \<Rightarrow> CSndLossList \<Rightarrow> int list option" where
  "list_calls [] l = Some []"
| "list_calls (c # cs) l = (case list_call c l of None \<Rightarrow> None | Some (r, l) \<Rightarrow> map_option ((#) r) (list_calls cs l))"

definition seq_list :: "int32 \<Rightarrow> int32 \<Rightarrow> int32 list" where
  "seq_list s1 s2 = map (\<lambda>i. seq_at s1 (int i)) [0..<nat (seqoff s1 s2 + 1)]"

fun ref_call :: "loss_call \<Rightarrow> int32 list \<Rightarrow> int \<times> int32 list" where
  "ref_call (Add s1 s2) xs = (int (length [x \<leftarrow> seq_list s1 s2. x \<notin> set xs]),
     [x \<leftarrow> xs. seqcmp x s1 < 0] @ seq_list s1 s2 @ [x \<leftarrow> xs. 0 < seqcmp x s2])"
| "ref_call (Acked s) xs = (0, [x \<leftarrow> xs. seqcmp s x < 0])"
| "ref_call Take xs = (case xs of [] \<Rightarrow> (- 1, []) | x # ys \<Rightarrow> (x, ys))"
| "ref_call Count xs = (int (length xs), xs)"

fun ref_calls :: "loss_call list \<Rightarrow> int32 list \<Rightarrow> int list" where
  "ref_calls [] xs = []"
| "ref_calls (c # cs) xs = (let (r, xs) = ref_call c xs in r # ref_calls cs xs)"

text \<open>What flow control guarantees of the calls: the numbers concerned lie in one window of the size of the list.\<close>

fun call_ok :: "int \<Rightarrow> loss_call \<Rightarrow> int32 list \<Rightarrow> bool" where
  "call_ok n (Add s1 s2) xs \<longleftrightarrow> 0 \<le> seqoff s1 s2 \<and> fits_window n (set xs \<union> {s1, s2})"
| "call_ok n (Acked s) xs \<longleftrightarrow> fits_window n (set xs \<union> {s})"
| "call_ok n c xs \<longleftrightarrow> True"

fun calls_ok :: "int \<Rightarrow> loss_call list \<Rightarrow> int32 list \<Rightarrow> bool" where
  "calls_ok n [] xs \<longleftrightarrow> True"
| "calls_ok n (c # cs) xs \<longleftrightarrow> call_ok n c xs \<and> calls_ok n cs (snd (ref_call c xs))"

section \<open>Windows as integers\<close>

text \<open>Inside a window from \<open>w\<close> the offset orders the numbers.\<close>

definition inside :: "int \<Rightarrow> int32 \<Rightarrow> int32 \<Rightarrow> bool" where
  "inside n w s \<longleftrightarrow> valid_seq s \<and> 0 \<le> seqoff w s \<and> seqoff w s < n"

lemma inside_at: "valid_seq w \<Longrightarrow> inside n w s \<Longrightarrow> seq_at w (seqoff w s) = s"
  using seqoff_at by (simp add: inside_def)

lemma inside_cmp:
  assumes "valid_seq w" "n < m_iSeqNoTH" "inside n w a" "inside n w c"
  shows "seqcmp a c < 0 \<longleftrightarrow> seqoff w a < seqoff w c" "0 < seqcmp a c \<longleftrightarrow> seqoff w c < seqoff w a" "a = c \<longleftrightarrow> seqoff w a = seqoff w c"
    "seqoff a c = seqoff w c - seqoff w a"
proof -
  have lt: "\<bar>seqoff w a - seqoff w c\<bar> < m_iSeqNoTH" using assms(2-4) unfolding inside_def by linarith
  note at = inside_at [OF assms(1,3)] inside_at [OF assms(1,4)]
  show "seqcmp a c < 0 \<longleftrightarrow> seqoff w a < seqoff w c" "0 < seqcmp a c \<longleftrightarrow> seqoff w c < seqoff w a"
    using seq.cmp_window_lt [OF lt, of w] seq.cmp_window_gt [OF lt, of w] by (simp_all add: at)
  show "a = c \<longleftrightarrow> seqoff w a = seqoff w c" using at by metis
  show "seqoff a c = seqoff w c - seqoff w a" using seq.off_window [of "seqoff w c" "seqoff w a" w] lt by (simp add: at abs_minus_commute)
qed

lemma seq_list_set: "set (seq_list a c) = seq_range a c"
proof -
  have "{0..seqoff a c} = int ` {0..<nat (seqoff a c + 1)}"
    by (auto simp: image_iff intro!: bexI [of _ "nat _"])
  then show ?thesis by (simp add: seq_list_def seq_range_def image_image)
qed

text \<open>The numbers of a range, seen from the start of the window.\<close>

lemma range_inside:
  assumes "valid_seq w" "n < m_iSeqNoTH" "inside n w a" "inside n w c" "x \<in> seq_range a c"
  shows "inside n w x" "seqoff w a \<le> seqoff w x" "seqoff w x \<le> seqoff w c"
proof -
  obtain i where i: "0 \<le> i" "i \<le> seqoff a c" "x = seq_at a i" using assms(5) by (auto simp: seq_range_def)
  have x: "x = seq_at w (seqoff w a + i)" using i(3) inside_at [OF assms(1,3)] by (metis shift_shift)
  have o: "seqoff a c = seqoff w c - seqoff w a" by (rule inside_cmp(4) [OF assms(1-4)])
  have "\<bar>seqoff w a + i - 0\<bar> < m_iSeqNoTH" using i(1,2) o assms(2-4) unfolding inside_def by linarith
  from seq.off_window [OF this, of w] have "seqoff w x = seqoff w a + i" using assms(1) by (simp add: x valid_seq_def)
  then show "inside n w x" "seqoff w a \<le> seqoff w x" "seqoff w x \<le> seqoff w c"
    using i(1,2) o assms(3,4) by (auto simp: inside_def x)
qed

lemma in_range:
  assumes "valid_seq w" "n < m_iSeqNoTH" "inside n w a" "inside n w c" "inside n w x"
  shows "x \<in> seq_range a c \<longleftrightarrow> seqoff w a \<le> seqoff w x \<and> seqoff w x \<le> seqoff w c"
proof
  assume x: "seqoff w a \<le> seqoff w x \<and> seqoff w x \<le> seqoff w c"
  have "seq_at a (seqoff w x - seqoff w a) = x"
    using inside_at [OF assms(1,3)] inside_at [OF assms(1,5)] by (metis add_diff_cancel_left' add.commute diff_add_cancel shift_shift)
  then show "x \<in> seq_range a c"
    using x inside_cmp(4) [OF assms(1-4)] by (auto simp: seq_range_def intro!: image_eqI [of _ _ "seqoff w x - seqoff w a"])
qed (use range_inside [OF assms(1-4)] in blast)

section \<open>Agreement\<close>

definition in_order :: "int32 list \<Rightarrow> bool" where
  "in_order xs \<longleftrightarrow> sorted_wrt (\<lambda>a c. seqcmp a c < 0) xs"

definition agrees :: "CSndLossList \<Rightarrow> int32 list \<Rightarrow> bool" where
  "agrees l xs \<longleftrightarrow> CSndLossList_inv l \<and> lost_set l = set xs \<and> in_order xs"

lemma in_order_distinct: "in_order xs \<Longrightarrow> distinct xs"
  unfolding in_order_def by (induction xs) auto

lemma in_order_filter: "in_order xs \<Longrightarrow> in_order (filter P xs)"
  unfolding in_order_def by (rule sorted_wrt_filter)

lemma in_order_seq_list: "0 \<le> seqoff a c \<Longrightarrow> seqoff a c < m_iSeqNoTH \<Longrightarrow> in_order (seq_list a c)"
  unfolding in_order_def seq_list_def
  by (auto simp: sorted_wrt_iff_nth_less seq.cmp_window_lt)

lemma fits_inside: "fits_window n S \<Longrightarrow> \<exists>w. valid_seq w \<and> (\<forall>s\<in>S. inside n w s)"
  by (auto simp: fits_window_def inside_def)

text \<open>What the reference does to the set.\<close>

lemma ref_add:
  assumes xs: "in_order xs" and n: "n < m_iSeqNoTH" and le: "0 \<le> seqoff s1 s2" and fits: "fits_window n (set xs \<union> {s1, s2})"
  shows "set (snd (ref_call (Add s1 s2) xs)) = set xs \<union> seq_range s1 s2 \<and> in_order (snd (ref_call (Add s1 s2) xs)) \<and>
    fst (ref_call (Add s1 s2) xs) = int (card (seq_range s1 s2 - set xs))"
proof -
  obtain w where w: "valid_seq w" "\<forall>s\<in>set xs \<union> {s1, s2}. inside n w s" using fits_inside [OF fits] by blast
  then have i1: "inside n w s1" and i2: "inside n w s2" and ix: "\<And>x. x \<in> set xs \<Longrightarrow> inside n w x" by auto
  note cmp = inside_cmp [OF w(1) n] and range = range_inside [OF w(1) n i1 i2] and inr = in_range [OF w(1) n i1 i2]
  have le': "seqoff w s1 \<le> seqoff w s2" using le cmp(4) [OF i1 i2] by simp
  have lt: "seqoff s1 s2 < m_iSeqNoTH" using cmp(4) [OF i1 i2] i1 i2 n unfolding inside_def by linarith
  let ?L = "[x \<leftarrow> xs. seqcmp x s1 < 0]" and ?R = "[x \<leftarrow> xs. 0 < seqcmp x s2]"
  have L: "x \<in> set ?L \<longleftrightarrow> x \<in> set xs \<and> seqoff w x < seqoff w s1" for x using cmp(1) [OF ix i1] by auto
  have R: "x \<in> set ?R \<longleftrightarrow> x \<in> set xs \<and> seqoff w s2 < seqoff w x" for x using cmp(2) [OF ix i2] by auto
  have "x \<in> set ?L \<or> x \<in> seq_range s1 s2 \<or> x \<in> set ?R" if "x \<in> set xs" for x
    using that inr [OF ix [OF that]] L [of x] R [of x] by linarith
  then have set: "set (snd (ref_call (Add s1 s2) xs)) = set xs \<union> seq_range s1 s2" by (auto simp: seq_list_set)
  have "in_order (?L @ seq_list s1 s2 @ ?R)"
  proof -
    have a: "seqcmp x y < 0" if "x \<in> set ?L" "y \<in> seq_range s1 s2" for x y
      using that L [of x] range [OF that(2)] cmp(1) [of x y] ix by auto
    have b: "seqcmp x y < 0" if "x \<in> seq_range s1 s2" "y \<in> set ?R" for x y
      using that R [of y] range [OF that(1)] cmp(1) [of x y] ix by auto
    have c: "seqcmp x y < 0" if "x \<in> set ?L" "y \<in> set ?R" for x y
      using that R [of y] L [of x] cmp(1) [of x y] ix le' by auto
    show ?thesis
      using a b c in_order_seq_list [OF le lt] in_order_filter [OF xs]
      unfolding in_order_def sorted_wrt_append seq_list_set set_append by blast
  qed
  moreover have "int (length [x \<leftarrow> seq_list s1 s2. x \<notin> set xs]) = int (card (seq_range s1 s2 - set xs))"
  proof -
    have "distinct [x \<leftarrow> seq_list s1 s2. x \<notin> set xs]" using in_order_distinct [OF in_order_seq_list [OF le lt]] by simp
    from distinct_card [OF this] show ?thesis by (simp add: seq_list_set set_diff_eq)
  qed
  ultimately show ?thesis using set by simp
qed

lemma call_agrees:
  assumes a: "agrees l xs" and ok: "call_ok (sl_Size l) c xs"
  shows "\<exists>l'. list_call c l = Some (fst (ref_call c xs), l') \<and> agrees l' (snd (ref_call c xs)) \<and> sl_Size l' = sl_Size l"
proof -
  have l: "CSndLossList_inv l" "lost_set l = set xs" and xs: "in_order xs" using a by (simp_all add: agrees_def)
  have n: "sl_Size l < m_iSeqNoTH" using snd_loss.cap_bound [OF l(1)] by linarith
  have card: "CSndLossList_getLossLength l = int (length xs)"
    using snd_take.count [OF l(1)] l(2) distinct_card [OF in_order_distinct [OF xs]] by simp
  show ?thesis
  proof (cases c)
    case (Add s1 s2)
    then have le: "0 \<le> seqoff s1 s2" and fits: "fits_window (sl_Size l) (set xs \<union> {s1, s2})" using ok by simp_all
    note r = ref_add [OF xs n le fits]
    obtain r' l' where i: "CSndLossList_insert s1 s2 l = Some (r', l')" "CSndLossList_inv l'" "lost_set l' = lost_set l \<union> seq_range s1 s2"
        "r' = int (card (lost_set l' - lost_set l))" "sl_Size l' = sl_Size l"
      using insert_range [OF l(1) le] fits l(2) by auto
    have "(set xs \<union> seq_range s1 s2) - set xs = seq_range s1 s2 - set xs" by blast
    then show ?thesis using i r l(2) by (simp only: Add list_call_def agrees_def) (simp add: agrees_def)
  next
    case (Acked s)
    then obtain l' where "CSndLossList_remove s l = Some l'" "CSndLossList_inv l'" "lost_set l' = {x \<in> lost_set l. seqcmp s x < 0}" "sl_Size l' = sl_Size l"
      using remove_upto [OF l(1), of s] ok l(2) by auto
    then show ?thesis using Acked l(2) in_order_filter [OF xs] by (auto simp: list_call_def agrees_def)
  next
    case Take
    show ?thesis
    proof (cases xs)
      case Nil
      then show ?thesis using Take snd_take.take_empty [OF l(1)] l a by (simp add: list_call_def agrees_def)
    next
      case (Cons x ys)
      obtain s l' where t: "CSndLossList_getLostSeq l = (s, l')" by fastforce
      note f = snd_take.take_first [OF l(1) _ t]
      have m: "s \<in> set xs" "\<forall>y\<in>set xs. seqcmp s y \<le> 0" "CSndLossList_inv l'" "lost_set l' = set xs - {s}"
        using f l(2) Cons by auto
      have "s = x"
      proof (rule ccontr)
        assume "s \<noteq> x"
        then have "seqcmp x s < 0" using m(1) xs Cons by (auto simp: in_order_def)
        moreover have "seqcmp s x \<le> 0" using m(2) Cons by simp
        ultimately show False using seqcmp_swap [of s x] by linarith
      qed
      moreover have "x \<notin> set ys" "in_order ys" using in_order_distinct [OF xs] xs Cons by (auto simp: in_order_def)
      ultimately show ?thesis using Take Cons t m(3,4) snd_loss.take_cap [OF l(1) t] by (simp add: list_call_def agrees_def)
    qed
  next
    case Count
    then show ?thesis using card a by (simp add: list_call_def)
  qed
qed

lemma calls_agree:
  "agrees l xs \<Longrightarrow> calls_ok (sl_Size l) cs xs \<Longrightarrow> list_calls cs l = Some (ref_calls cs xs)"
proof (induction cs arbitrary: l xs)
  case (Cons c cs)
  obtain l' where l': "list_call c l = Some (fst (ref_call c xs), l')" "agrees l' (snd (ref_call c xs))" "sl_Size l' = sl_Size l"
    using call_agrees [OF Cons.prems(1)] Cons.prems(2) by auto
  then have "list_calls cs l' = Some (ref_calls cs (snd (ref_call c xs)))" using Cons.IH Cons.prems(2) by simp
  then show ?case using l'(1) by (simp add: case_prod_unfold Let_def)
qed simp

text \<open>C7: every sequence of calls on a new list gives the answers of the reference program.\<close>

theorem loss_list_is_reference:
  assumes "0 < n" "2 * n < m_iSeqNoTH" "calls_ok n cs []"
  shows "list_calls cs (CSndLossList_new n) = Some (ref_calls cs [])"
  by (rule calls_agree) (use assms new_list_inv [OF assms(1,2)] in \<open>auto simp: agrees_def in_order_def CSndLossList_new_def\<close>)

theorem loss_list_is_reference_witness:
  "list_calls [Add 5 9, Add 0x7FFFFFFF 1, Acked 0, Take, Take, Count] (CSndLossList_new 16) = Some [5, 3, 0, 1, 5, 4]"
proof -
  have fits: "fits_window 16 {5, 9}" "fits_window 16 ({5, 6, 7, 8, 9} \<union> {0x7FFFFFFF, 1})" "fits_window 16 ({0x7FFFFFFF, 0, 1, 5, 6, 7, 8, 9} \<union> {0})"
    unfolding fits_window_def by (rule exI [of _ "0x7FFFFFFF"], simp add: valid_seq_def seqoff_def serial_consts)+
  have up: "[0..<5] = [0, 1, 2, 3, 4]" "[0..<3] = [0, 1, 2]" by (simp_all add: upt_rec)
  have lists: "seq_list 5 9 = [5, 6, 7, 8, 9]" "seq_list 0x7FFFFFFF 1 = [0x7FFFFFFF, 0, 1]"
    by (simp_all add: seq_list_def seqoff_def serial_consts up shift_def)
  have r: "ref_call (Add 5 9) [] = (5, [5, 6, 7, 8, 9])" "ref_call (Add 0x7FFFFFFF 1) [5, 6, 7, 8, 9] = (3, [0x7FFFFFFF, 0, 1, 5, 6, 7, 8, 9])"
    "ref_call (Acked 0) [0x7FFFFFFF, 0, 1, 5, 6, 7, 8, 9] = (0, [1, 5, 6, 7, 8, 9])"
    by (simp_all add: lists seqcmp_def serial_consts)
  have "calls_ok 16 [Add 5 9, Add 0x7FFFFFFF 1, Acked 0, Take, Take, Count] []"
    using fits by (simp del: ref_call.simps(1,2) add: r insert_commute) (simp add: seqoff_def serial_consts)
  moreover have "(0::int) < 16" "2 * 16 < m_iSeqNoTH" by (simp_all add: serial_consts)
  ultimately have "list_calls [Add 5 9, Add 0x7FFFFFFF 1, Acked 0, Take, Take, Count] (CSndLossList_new 16) =
      Some (ref_calls [Add 5 9, Add 0x7FFFFFFF 1, Acked 0, Take, Take, Count] [])"
    by (intro loss_list_is_reference)
  moreover have "ref_calls [Add 5 9, Add 0x7FFFFFFF 1, Acked 0, Take, Take, Count] [] = [5, 3, 0, 1, 5, 4]"
    by (simp del: ref_call.simps(1,2) add: r)
  ultimately show ?thesis by (simp only:)
qed

end
