(* ===== verification/WireSpec.thy ===== *)
theory WireSpec imports SenderOps begin

text \<open>
  The packets a connected socket sends. \<open>ctrl_ok\<close> is what the channel and the peer's parser rely on: four header words, the control
  bit, a known type, the peer's id, a payload that lies inside its buffer, fits in a packet and consists of whole words. Every
  operation of a socket that hands packets to the sending queue only hands over such packets.
\<close>

section \<open>Well-formed control packets\<close>

definition ctrl_ok :: "int \<Rightarrow> int \<Rightarrow> CPacket \<Rightarrow> bool" where
  "ctrl_ok peer room p \<longleftrightarrow> packet_ok p \<and> getFlag p = 1 \<and> getType p \<in> {0..8} \<and> m_iID p = peer \<and> iov_len p \<le> room \<and> 4 dvd iov_len p"

fun effect_ok :: "int set \<Rightarrow> CUDT \<Rightarrow> effect \<Rightarrow> bool" where
  "effect_ok T u (SendTo addr p) \<longleftrightarrow> addr = the (u_PeerAddr u) \<and> getType p \<in> T \<and> ctrl_ok (u_PeerID u) (u_PayloadSize u) p"
| "effect_ok T u _ \<longleftrightarrow> True"

text \<open>What the operations keep: the peer, its address, the payload size, and what was handed out before. The packets they
  add have types of the set \<open>T\<close>.\<close>

definition wires :: "int set \<Rightarrow> CUDT \<Rightarrow> CUDT \<Rightarrow> bool" where
  "wires T u v \<longleftrightarrow> u_PayloadSize v = u_PayloadSize u \<and> u_PeerID v = u_PeerID u \<and> u_PeerAddr v = u_PeerAddr u \<and>
     (\<exists>out. u_Out v = u_Out u @ out \<and> (\<forall>e\<in>set out. effect_ok T u e))"

definition sizes_ok :: "CUDT \<Rightarrow> bool" where
  "sizes_ok u \<longleftrightarrow> 48 \<le> u_PayloadSize u \<and> fits_int32 (u_PeerID u)"

lemma effect_ok_cong: "u_PayloadSize v = u_PayloadSize u \<Longrightarrow> u_PeerID v = u_PeerID u \<Longrightarrow> u_PeerAddr v = u_PeerAddr u \<Longrightarrow>
    effect_ok T v e = effect_ok T u e"
  by (cases e) simp_all

lemma wiresI: "u_PayloadSize v = u_PayloadSize u \<Longrightarrow> u_PeerID v = u_PeerID u \<Longrightarrow> u_PeerAddr v = u_PeerAddr u \<Longrightarrow> u_Out v = u_Out u \<Longrightarrow> wires T u v"
  by (simp add: wires_def)

lemma wires_refl [simp]: "wires T u u"
  by (simp add: wires_def)

lemma wires_trans [trans]: "wires T u v \<Longrightarrow> wires T v w \<Longrightarrow> wires T u w"
proof -
  assume a: "wires T u v" "wires T v w"
  have "effect_ok T v e = effect_ok T u e" for e using a(1) by (intro effect_ok_cong) (simp_all add: wires_def)
  with a show ?thesis by (auto simp: wires_def)
qed

lemma wires_sizes: "wires T u v \<Longrightarrow> sizes_ok u \<Longrightarrow> sizes_ok v"
  by (simp add: wires_def sizes_ok_def)

text \<open>Fields that do not matter.\<close>

lemma wires_cong:
  assumes "u_PayloadSize v' = u_PayloadSize v" "u_PeerID v' = u_PeerID v" "u_PeerAddr v' = u_PeerAddr v" "u_Out v' = u_Out v"
  shows "wires T u v' = wires T u v"
  using assms by (simp add: wires_def)

lemma wires_emit: "effect_ok T u e \<Longrightarrow> wires T u (emit e u)"
  by (simp add: wires_def emit_def)

lemma emit_wires: "wires T u v \<Longrightarrow> (case e of SendTo a p \<Rightarrow> False | _ \<Rightarrow> True) \<Longrightarrow> wires T u (emit e v)"
  by (rule wires_trans, assumption, rule wires_emit) (cases e; simp)

section \<open>pack\<close>

lemma pack_ok:
  assumes "pack t l r sz CPacket_new = Some p" "t \<in> {0..8}"
    and "t \<in> {0, 2, 3, 7} \<Longrightarrow> \<exists>bs. r = Some bs \<and> sz \<le> int (length bs) \<and> 0 \<le> sz \<and> sz \<le> room \<and> 4 dvd sz" and "4 \<le> room" "fits_int32 peer"
  shows "ctrl_ok peer room (set_m_iID peer p) \<and> getType (set_m_iID peer p) = t"
proof -
  have ok: "packet_ok CPacket_new" by (simp add: packet_ok_def CPacket_new_def)
  note a = pack_accessors [OF ok, of t l r sz p]
  have h: "length (m_nHeader p) = 4 \<and> 0 \<le> iov_len p \<and> iov_len p \<le> int (length (m_pcData p)) \<and> iov_len p \<le> room \<and> 4 dvd iov_len p"
    using assms(1-4) by (auto simp: pack_def set_vector_def set_hdr_def CPacket_new_def pad4_def Let_def split: if_splits option.splits)
  moreover have "getFlag (set_m_iID peer p) = getFlag p" "getType (set_m_iID peer p) = getType p"
    by (simp_all add: getFlag_def getType_def set_m_iID_def hdr_def set_hdr_def)
  moreover have "m_iID (set_m_iID peer p) = peer"
    using h assms(5) by (simp add: m_iID_def set_m_iID_def hdr_def set_hdr_def sint_word_of_int32)
  ultimately show ?thesis
    using a assms(1,2) by (auto simp: ctrl_ok_def packet_ok_def set_m_iID_def set_hdr_def)
qed

lemma pack_and_send_wires:
  assumes "pack_and_send t l r sz u = Some v" "sizes_ok u" "t \<in> {0..8}" "t \<in> T"
    and "t \<in> {0, 2, 3, 7} \<Longrightarrow> \<exists>bs. r = Some bs \<and> sz \<le> int (length bs) \<and> 0 \<le> sz \<and> sz \<le> u_PayloadSize u \<and> 4 dvd sz"
  shows "wires T u v"
proof -
  obtain p where p: "pack t l r sz CPacket_new = Some p" "v = send_to_peer p u"
    using assms(1) by (auto simp: pack_and_send_def)
  have "ctrl_ok (u_PeerID u) (u_PayloadSize u) (set_m_iID (u_PeerID u) p) \<and> getType (set_m_iID (u_PeerID u) p) = t"
    using assms(2) by (intro pack_ok [OF p(1) assms(3,5)]) (auto simp: sizes_ok_def)
  then show ?thesis using assms(4) unfolding p(2) send_to_peer_def by (intro wires_emit) simp
qed

section \<open>sendCtrl\<close>

lemma loss_from_length: "rl_loss_from f l limit len i = Some ws \<Longrightarrow> len + int (length ws) \<le> max len limit"
  by (induction f l limit len i arbitrary: ws rule: rl_loss_from.induct) (fastforce split: if_splits)+

lemma getLossArray_length: "CRcvLossList_getLossArray limit l = Some ws \<Longrightarrow> 0 \<le> limit \<Longrightarrow> int (length ws) \<le> limit"
  using loss_from_length [of _ l limit 0] by (fastforce simp: CRcvLossList_getLossArray_def)

lemma send_full_ack_wires:
  assumes "send_full_ack us tk u = Some v" "sizes_ok u" "2 \<in> T"
  shows "wires T u v"
proof -
  let ?u = "u\<lparr>u_AckSeqNo := incack (u_AckSeqNo u)\<rparr>"
  have send: "wires T u y" if "pack_and_send 2 l (Some (words_bytes d)) n z = Some y" "n = 4 * int (length d)" "length d \<le> 6" "wires T u z" for l d n z y
    by (rule wires_trans [OF that(4) pack_and_send_wires [OF that(1)]])
      (use that(2,3) wires_sizes [OF that(4) assms(2)] assms(3) in \<open>auto simp: sizes_ok_def\<close>)
  obtain y where y: "(if tk - u_LastAckTime ?u > u_SYNInt ?u then do {
               speed \<leftarrow> CPktTimeWindow_getPktRcvSpeed (the (u_RcvTimeWindow ?u));
               bandwidth \<leftarrow> CPktTimeWindow_getBandwidth (the (u_RcvTimeWindow ?u));
               pack_and_send 2 (Some (u_AckSeqNo ?u)) (Some (words_bytes (ack_data ?u @ [speed, bandwidth]))) 24 (?u\<lparr>u_LastAckTime := tk\<rparr>)
             }
             else pack_and_send 2 (Some (u_AckSeqNo ?u)) (Some (words_bytes (ack_data ?u))) 16 ?u) = Some y"
      "u_PayloadSize v = u_PayloadSize y" "u_PeerID v = u_PeerID y" "u_PeerAddr v = u_PeerAddr y" "u_Out v = u_Out y"
    using assms(1) unfolding send_full_ack_def Let_def by (auto simp: bind_eq_Some_conv split del: if_split)
  have "wires T u ?u" "wires T u (?u\<lparr>u_LastAckTime := tk\<rparr>)" by (rule wiresI; simp)+
  then have "wires T u y" using y(1) by (auto simp: ack_data_def Let_def bind_eq_Some_conv simp del: wires_def dest!: send split: if_split_asm)
  then show ?thesis using wires_cong [of v y T u] y(2-5) by blast
qed

lemma advance_ack_wires: "advance_ack tk ack u = Some v \<Longrightarrow> wires T u v"
  by (auto simp: advance_ack_def Let_def intro!: emit_wires wiresI split: if_splits)

lemma sendCtrl_ack_wires:
  assumes "sendCtrl_ack us tk sz u = Some v" "sizes_ok u" "2 \<in> T"
  shows "wires T u v"
proof -
  let ?ack = "ack_number u"
  consider "?ack = u_RcvLastAckAck u \<or> v = u" | "?ack \<noteq> u_RcvLastAckAck u" "sz = 4" | "?ack \<noteq> u_RcvLastAckAck u" "sz \<noteq> 4" "v \<noteq> u" by blast
  then show ?thesis
  proof cases
    case 2
    then have "pack_and_send 2 None (Some (words_bytes [?ack])) 4 u = Some v" using assms(1) by (simp add: sendCtrl_ack_def Let_def)
    then show ?thesis by (rule pack_and_send_wires) (use assms(2,3) in \<open>auto simp: sizes_ok_def\<close>)
  next
    case 3
    then obtain w where w: "advance_ack tk ?ack u = Some w" using assms(1) by (auto simp: sendCtrl_ack_def Let_def split: option.splits)
    then have "v = w \<or> send_full_ack us tk w = Some v" using assms(1) 3(1,2) by (auto simp: sendCtrl_ack_def Let_def split: if_splits)
    then show ?thesis using advance_ack_wires [OF w] wires_trans [of T u w v] send_full_ack_wires [of us tk w v] wires_sizes [of T u w] assms(2,3) by blast
  qed (use assms(1) in \<open>auto simp: sendCtrl_ack_def Let_def\<close>)
qed

lemma count_nak_wires: "wires T u (count_nak v) = wires T u v"
  by (rule wires_cong) (simp_all add: count_nak_def)

lemma send_nak_wires:
  assumes "send_nak r sz u = Some v" "sizes_ok u" "3 \<in> T" "\<And>bs. r = Some bs \<Longrightarrow> length bs = 8"
  shows "wires T u v"
proof -
  have p: "48 \<le> u_PayloadSize u" using assms(2) by (simp add: sizes_ok_def)
  consider bs w where "r = Some bs" "pack_and_send 3 None (Some (drop 4 bs)) 4 u = Some w" "v = count_nak w"
    | bs w where "r = Some bs" "pack_and_send 3 None (Some bs) 8 u = Some w" "v = count_nak w"
    | d w where "CRcvLossList_getLossArray (u_PayloadSize u sdiv 4) (the (u_RcvLossList u)) = Some d"
        "pack_and_send 3 None (Some (words_bytes d)) (int (length d) * 4) u = Some w" "v = count_nak w"
    | "v = u"
    using assms(1) by (auto simp: send_nak_def split: option.splits if_splits bind_splits)
  then show ?thesis
  proof cases
    case 1
    then show ?thesis unfolding 1(3) count_nak_wires
      by (intro pack_and_send_wires [OF 1(2) assms(2)]) (use p assms(3,4) in auto)
  next
    case 2
    then show ?thesis unfolding 2(3) count_nak_wires
      by (intro pack_and_send_wires [OF 2(2) assms(2)]) (use p assms(3,4) in auto)
  next
    case 3
    have "u_PayloadSize u sdiv 4 = u_PayloadSize u div 4" using p by simp
    then have "int (length d) \<le> u_PayloadSize u div 4" using getLossArray_length [OF 3(1)] p by simp
    then have "int (length d) * 4 \<le> u_PayloadSize u" by linarith
    then show ?thesis unfolding 3(3) count_nak_wires by (intro pack_and_send_wires [OF 3(2) assms(2)]) (use assms(3) in auto)
  qed simp
qed

lemma next_nak_wires: "next_nak_interval u = Some v \<Longrightarrow> wires T u v"
  by (auto simp: next_nak_interval_def Let_def intro: wiresI split: bind_splits)

text \<open>The buffers that the callers pass.\<close>

definition ctrl_args :: "int \<Rightarrow> byte list option \<Rightarrow> bool" where
  "ctrl_args t r \<longleftrightarrow> (t = 0 \<longrightarrow> (\<exists>bs. r = Some bs \<and> 48 \<le> length bs)) \<and> (t = 3 \<longrightarrow> (\<forall>bs. r = Some bs \<longrightarrow> length bs = 8)) \<and>
     (t = 7 \<longrightarrow> (\<exists>bs. r = Some bs \<and> length bs = 8))"

lemma sendCtrl_wires:
  assumes "CUDT_sendCtrl us tk t l r sz u = Some v" "sizes_ok u" "t \<in> T" "ctrl_args t r"
  shows "wires T u v"
proof -
  have p: "48 \<le> u_PayloadSize u" using assms(2) by (simp add: sizes_ok_def)
  have ps: "wires T u w" if "pack_and_send t l' r' sz' u = Some w" "t \<in> {1, 4, 5, 6, 8}" for l' r' sz' w
    by (rule pack_and_send_wires [OF that(1) assms(2)]) (use that(2) assms(3) in auto)
  consider "t = 2" "sendCtrl_ack us tk sz u = Some v" | l' r' sz' where "t \<in> {1, 5, 6, 8}" "pack_and_send t l' r' sz' u = Some v"
    | w where "t = 3" "send_nak r sz u = Some w" "next_nak_interval w = Some v"
    | w where "t = 4" "pack_and_send 4 None None 0 u = Some w" "v = w\<lparr>u_LastWarningTime := tk\<rparr>"
    | "t = 0" "pack_and_send 0 None r 48 u = Some v" | "t = 7" "pack_and_send 7 l r 8 u = Some v" | "v = u"
    using assms(1) by (auto simp: CUDT_sendCtrl_def CHandShake_sizeof_def split: if_splits bind_splits)
  then show ?thesis
  proof cases
    case 1
    then show ?thesis using assms(3) by (intro sendCtrl_ack_wires [OF _ assms(2)]) simp_all
  next
    case 2
    then show ?thesis using ps by blast
  next
    case 3
    then show ?thesis using assms(3,4) by (intro wires_trans [OF send_nak_wires [OF 3(2) assms(2)] next_nak_wires]) (auto simp: ctrl_args_def)
  next
    case 4
    then have "wires T u w" using ps by simp
    then show ?thesis using wires_cong [of v w T u] 4(3) by simp
  next
    case 5
    then show ?thesis using assms(3,4) p by (intro pack_and_send_wires [OF 5(2) assms(2)]) (auto simp: ctrl_args_def)
  next
    case 6
    then show ?thesis using assms(3,4) p by (intro pack_and_send_wires [OF 6(2) assms(2)]) (auto simp: ctrl_args_def)
  qed simp
qed

section \<open>The operations\<close>

lemma CCUpdate_wires [simp]: "wires T u (CUDT_CCUpdate v) = wires T u v"
  by (rule wires_cong) (simp_all add: CUDT_CCUpdate_def Let_def)

lemma on_cc_wires [simp]: "wires T u (on_cc f v) = wires T u v"
  by (rule wires_cong) (simp_all add: on_cc_def)

lemma update_wires [simp]: "wires T u (update_rtt r v) = wires T u v" "wires T u (update_rates p v) = wires T u v"
  by (rule wires_cong; simp add: update_rtt_def update_rates_def on_cc_def Let_def)+

lemma detect_loss_wires:
  assumes "detect_loss us tk q u = Some v" "sizes_ok u" "3 \<in> T"
  shows "wires T u v"
proof (cases "seqcmp q (incseq (u_RcvCurrSeqNo u)) > 0")
  case True
  let ?w = "u\<lparr>u_RcvLossList := map_option (CRcvLossList_insert (incseq (u_RcvCurrSeqNo u)) (decseq q)) (u_RcvLossList u)\<rparr>"
  obtain r sz x where x: "CUDT_sendCtrl us tk 3 None (Some (words_bytes r)) sz ?w = Some x" "length r = 2"
      "u_PayloadSize v = u_PayloadSize x" "u_PeerID v = u_PeerID x" "u_PeerAddr v = u_PeerAddr x" "u_Out v = u_Out x"
    using assms(1) True by (auto simp: detect_loss_def Let_def split: bind_splits)
  have w: "wires T u ?w" by (rule wiresI) simp_all
  have "wires T ?w x" by (rule sendCtrl_wires [OF x(1) wires_sizes [OF w assms(2)] assms(3)]) (simp add: ctrl_args_def x(2))
  with w have "wires T u x" by (rule wires_trans)
  then show ?thesis using wires_cong [of v x T u] x(3-6) by blast
qed (use assms(1) in \<open>simp add: detect_loss_def\<close>)

lemma processData_wires:
  assumes "CUDT_processData us tk unit u pool = Some (r, v, pool')" "sizes_ok u" "3 \<in> T"
  shows "wires T u v"
proof -
  have n: "note_arrival us tk q u = Some w \<Longrightarrow> wires T u w" for q w
    by (auto simp: note_arrival_def Let_def intro: wiresI split: bind_splits)
  have a: "advance_received q w = Some x \<Longrightarrow> wires T w x" for q w x
    by (auto simp: advance_received_def intro: wiresI split: if_splits)
  let ?p = "m_Packet (unit_at pool unit)"
  obtain w where w: "note_arrival us tk ?p u = Some w" using assms(1) by (auto simp: CUDT_processData_def Let_def split: bind_splits)
  consider b where "v = w\<lparr>u_RcvBuffer := b\<rparr>" | "v = w"
    | b x y where "detect_loss us tk (m_iSeqNo ?p) (w\<lparr>u_RcvBuffer := b\<rparr>) = Some x"
        "advance_received (m_iSeqNo ?p) y = Some v" "y = x \<or> y = x\<lparr>u_NextACKTime := tk\<rparr>"
    using assms(1) w unfolding CUDT_processData_def Let_def by (auto split: bind_splits if_splits prod.splits)
  then show ?thesis
  proof cases
    case 1
    then have "wires T w v" by (auto intro: wiresI)
    then show ?thesis by (rule wires_trans [OF n [OF w]])
  next
    case 2
    then show ?thesis using n [OF w] by simp
  next
    case 3
    have b: "wires T u (w\<lparr>u_RcvBuffer := b\<rparr>)" by (rule wires_trans [OF n [OF w] wiresI]) simp_all
    have "wires T x y" using 3(3) by (auto intro: wiresI)
    then show ?thesis using wires_trans [OF b wires_trans [OF detect_loss_wires [OF 3(1) wires_sizes [OF b assms(2)] assms(3)] wires_trans [OF _ a [OF 3(2)]]]] by blast
  qed
qed

lemma send_ack2_wires:
  assumes "send_ack2 us tk ackno u = Some v" "sizes_ok u" "6 \<in> T"
  shows "wires T u v"
proof -
  obtain w where "v = u \<or> (CUDT_sendCtrl us tk 6 (Some ackno) None 0 u = Some w \<and> v = w\<lparr>u_SndLastAck2 := ackno, u_SndLastAck2Time := us\<rparr>)"
    using assms(1) unfolding send_ack2_def by (auto split: if_split_asm)
  then show ?thesis using sendCtrl_wires [OF _ assms(2,3), of us tk "Some ackno" None 0 w] wires_cong [of v w T u] by (auto simp: ctrl_args_def)
qed

lemma ack_done_wires:
  assumes "ack_done us p u = Some v"
  shows "wires T u v"
proof -
  let ?u = "update_rates p (update_rtt (word_at p 1) (emit (SndUList_update False) (emit (UpdateEvents UDT_EPOLL_OUT True) u)))"
  obtain cc where v: "v = (CUDT_CCUpdate (?u\<lparr>u_CC := Some cc\<rparr>))
      \<lparr>u_RecvACK := u_RecvACK (CUDT_CCUpdate (?u\<lparr>u_CC := Some cc\<rparr>)) + 1,
       u_RecvACKTotal := u_RecvACKTotal (CUDT_CCUpdate (?u\<lparr>u_CC := Some cc\<rparr>)) + 1\<rparr>"
    using assms unfolding ack_done_def Let_def by (cases "cc_onACK us (word_at p 0) (the (u_CC ?u))") auto
  have "wires T u ?u" by (auto intro!: emit_wires)
  then have "wires T u (?u\<lparr>u_CC := Some cc\<rparr>)" using wires_cong [of "?u\<lparr>u_CC := Some cc\<rparr>" ?u T u] by simp
  then have "wires T u (CUDT_CCUpdate (?u\<lparr>u_CC := Some cc\<rparr>))" by simp
  then show ?thesis unfolding v using wires_cong [of v "CUDT_CCUpdate (?u\<lparr>u_CC := Some cc\<rparr>)" T u] by (simp add: v)
qed

lemma full_ack_wires:
  assumes "full_ack us tk p u = Some v" "sizes_ok u" "6 \<in> T"
  shows "wires T u v"
proof -
  let ?a = "word_at p 0"
  obtain w where w: "send_ack2 us tk (getAckSeqNo p) u = Some w" using assms(1) by (auto simp: full_ack_def split: bind_splits)
  define w' where "w' = (if seqcmp ?a (u_SndLastAck w) \<ge> 0 then w\<lparr>u_FlowWindowSize := word_at p 3, u_SndLastAck := ?a\<rparr> else w)"
  have r': "(if seqcmp ?a (incseq (u_SndCurrSeqNo w)) > 0 then Some (break_connection w)
      else case ack_buffer tk ?a w' of None \<Rightarrow> Some w' | Some r \<Rightarrow> Option.bind r (ack_done us p)) = Some v"
    using assms(1) unfolding full_ack_def w Option.bind.bind_lunit w'_def ack_done_def Let_def .
  have uw: "wires T u w" by (rule send_ack2_wires [OF w assms(2,3)])
  have ww': "wires T w w'" by (auto simp: w'_def intro: wiresI)
  have ab: "wires T w' x" if "ack_buffer tk ?a w' = Some (Some x)" for x
    using that by (auto simp: ack_buffer_def Let_def intro!: wiresI split: if_splits bind_splits)
  show ?thesis
  proof (cases "seqcmp ?a (incseq (u_SndCurrSeqNo w)) > 0")
    case True
    then have "wires T w v" using r' by (auto simp: break_connection_def intro: wiresI)
    with uw show ?thesis by (rule wires_trans)
  next
    case False
    then consider "v = w'" | x where "ack_buffer tk ?a w' = Some (Some x)" "ack_done us p x = Some v"
      using r' by (auto split: option.splits bind_splits)
    then show ?thesis using wires_trans [OF uw ww'] ab ack_done_wires wires_trans by cases blast+
  qed
qed

lemma insert_loss_wires: "insert_loss lo hi u = Some v \<Longrightarrow> wires T u v"
  by (auto simp: insert_loss_def count_loss_def intro: wiresI)

lemma range_loss_wires: "range_loss lo hi u = Some v \<Longrightarrow> wires T u v"
  by (auto simp: range_loss_def dest: insert_loss_wires split: if_splits)

lemma decode_loss_wires: "decode_loss w i n u = Some (ok, v) \<Longrightarrow> wires T u v"
proof (induction w i n u arbitrary: ok v rule: decode_loss.induct)
  case (1 w i n u)
  note r = "1.prems" [unfolded decode_loss.simps [of w i n u]]
  show ?case
  proof (cases "i < n")
    case True
    show ?thesis
    proof (cases "0 \<noteq> w i AND 0x80000000")
      case range: True
      show ?thesis
      proof (cases "seqcmp (w i AND 0x7FFFFFFF) (w (i + 1)) > 0 \<or> seqcmp (w (i + 1)) (u_SndCurrSeqNo u) > 0")
        case False
        then obtain x where x: "range_loss (w i AND 0x7FFFFFFF) (w (i + 1)) u = Some x" "decode_loss w (i + 2) n x = Some (ok, v)"
          using r True range by (auto simp: Let_def split: option.splits)
        then show ?thesis using wires_trans [OF range_loss_wires [OF x(1)] "1.IH"(1) [OF True range refl refl False x]] by simp
      qed (use r True range in \<open>auto simp: Let_def\<close>)
    next
      case single: False
      show ?thesis
      proof (cases "seqcmp (w i) (u_SndLastAck u) \<ge> 0")
        case ge: True
        show ?thesis
        proof (cases "seqcmp (w i) (u_SndCurrSeqNo u) > 0")
          case False
          then obtain x where x: "insert_loss (w i) (w i) u = Some x" "decode_loss w (i + 1) n x = Some (ok, v)"
            using r True single ge by (auto split: option.splits)
          then show ?thesis using wires_trans [OF insert_loss_wires [OF x(1)] "1.IH"(2) [OF True single ge False x]] by simp
        qed (use r True single ge in auto)
      next
        case False
        then have "decode_loss w (i + 1) n u = Some (ok, v)" using r True single by auto
        then show ?thesis using "1.IH"(3) [OF True single False] by simp
      qed
    qed
  qed (use r in simp)
qed

lemma loss_report_wires:
  assumes "loss_report rand p u = Some v"
  shows "wires T u v"
proof -
  define w where "w = CUDT_CCUpdate (on_cc (cc_onLoss rand (map (word_at p) [0..<max 1 (nat (getLength p sdiv 4))])) u)"
  obtain ok x where x: "decode_loss (word_at p) 0 (nat (getLength p sdiv 4)) w = Some (ok, x)"
      "v = break_connection x \<or> v = (emit (SndUList_update True) x)\<lparr>u_RecvNAK := u_RecvNAK x + 1,
         u_RecvNAKTotal := u_RecvNAKTotal x + 1\<rparr>"
    using assms [unfolded loss_report_def Let_def w_def [symmetric]] by (auto split: option.splits prod.splits if_splits)
  have "wires T u w" by (simp add: w_def)
  then have ux: "wires T u x" using decode_loss_wires [OF x(1)] wires_trans by blast
  from x(2) show ?thesis
  proof
    assume "v = break_connection x"
    then show ?thesis using wires_cong [of v x T u] ux by (simp add: break_connection_def)
  next
    assume v: "v = (emit (SndUList_update True) x)\<lparr>u_RecvNAK := u_RecvNAK x + 1,
         u_RecvNAKTotal := u_RecvNAKTotal x + 1\<rparr>"
    have "wires T u (emit (SndUList_update True) x)" using ux by (intro emit_wires) simp_all
    then show ?thesis unfolding v using wires_cong [of v "emit (SndUList_update True) x" T u] by (simp add: v)
  qed
qed

lemma ack_of_ack_wires: "wires T u (ack_of_ack us p u)"
proof -
  obtain r a w where w: "CACKWindow_acknowledge us (getAckSeqNo p) (the (u_ACKWindow u)) = (r, a, w)" by (metis prod_cases3)
  let ?v = "update_rtt r (u\<lparr>u_ACKWindow := Some w\<rparr>)"
  have a: "wires T u (u\<lparr>u_ACKWindow := Some w\<rparr>)" by (rule wiresI) simp_all
  then have "wires T u ?v" by simp
  then have "wires T u (?v\<lparr>u_RcvLastAckAck := s\<rparr>)" for s using wires_cong [of "?v\<lparr>u_RcvLastAckAck := s\<rparr>" ?v T u] by simp
  with a \<open>wires T u ?v\<close> show ?thesis by (simp add: ack_of_ack_def w Let_def)
qed

lemma length_serialize: "m_iContentSize \<le> int (length buf) \<Longrightarrow> length (fst (snd (serialize h buf sz))) = length buf"
  by (simp add: serialize_def m_iContentSize_def)

lemma repeat_handshake_wires:
  assumes "repeat_handshake us tk p u = Some v" "sizes_ok u" "0 \<in> T"
  shows "wires T u v"
proof -
  have room: "48 \<le> u_PayloadSize u" using assms(2) by (simp add: sizes_ok_def)
  let ?req = "snd (deserialize (m_pcData p) (getLength p) CHandShake_new)"
  define d where "d = CHandShake_new\<lparr>m_iISN := u_ISN u, m_iMSS := u_MSS u, m_iFlightFlagSize := u_FlightFlagSize u,
                m_iReqType := (if \<not> u_Rendezvous u then - 1 else - 2), m_iHsID := u_SocketID u\<rparr>"
  obtain x hs n where hs: "serialize d (replicate (nat (u_PayloadSize u)) 0) (u_PayloadSize u) = (x, hs, n)" by (metis prod_cases3)
  have "length hs = nat (u_PayloadSize u)"
    using length_serialize [of "replicate (nat (u_PayloadSize u)) 0" d "u_PayloadSize u"] room by (simp add: hs m_iContentSize_def)
  then have args: "ctrl_args 0 (Some hs)" using room by (simp add: ctrl_args_def)
  have "repeat_handshake us tk p u = (if m_iReqType ?req > 0 \<or> (u_Rendezvous u \<and> m_iReqType ?req \<noteq> - 2) then CUDT_sendCtrl us tk 0 None (Some hs) n u else Some u)"
    unfolding repeat_handshake_def Let_def d_def [symmetric] hs by simp
  then show ?thesis using assms(1) sendCtrl_wires [OF _ assms(2,3) args] by (simp split: if_split_asm)
qed

lemma drop_request_wires: "drop_request p u pool = Some (v, pool') \<Longrightarrow> wires T u v"
  by (auto simp: drop_request_def Let_def intro!: wiresI split: bind_splits if_splits)

lemma processCtrl_wires:
  assumes "CUDT_processCtrl rand us tk p u pool = Some (v, pool')" "sizes_ok u" "0 \<in> T" "6 \<in> T"
  shows "wires T u v"
proof -
  let ?u = "heard_from_peer tk u"
  have h: "wires T u ?u" by (auto simp: heard_from_peer_def intro: wiresI)
  note ok = wires_sizes [OF h assms(2)]
  have "wires T ?u v"
    using assms(1) unfolding CUDT_processCtrl_def Let_def
    by (auto simp: light_ack_def delay_warning_def peer_shutdown_def intro: wiresI ack_of_ack_wires loss_report_wires drop_request_wires
        full_ack_wires [OF _ ok assms(4)] repeat_handshake_wires [OF _ ok assms(3)] split: if_split_asm)
  with h show ?thesis by (rule wires_trans)
qed

lemma ack_timer_wires:
  assumes "ack_timer us tk u = Some v" "sizes_ok u" "2 \<in> T"
  shows "wires T u v"
proof -
  obtain w t n where "v = u \<or> (CUDT_sendCtrl us tk 2 None None n u = Some w \<and>
      (v = w\<lparr>u_NextACKTime := t, u_PktCount := 0, u_LightACKCount := 1\<rparr> \<or> v = w\<lparr>u_LightACKCount := u_LightACKCount w + 1\<rparr>))"
    using assms(1) unfolding ack_timer_def Let_def by (auto simp del: word_of_int_numeral split: if_split_asm)
  then show ?thesis using sendCtrl_wires [OF _ assms(2,3), of us tk None None n w] wires_cong [of v w T u] by (auto simp: ctrl_args_def)
qed

lemma exp_timer_wires:
  assumes "exp_timer us tk u = Some v" "sizes_ok u" "1 \<in> T"
  shows "wires T u v"
proof -
  have go: "wires T u (x\<lparr>u_EXPCount := a, u_LastRspTime := t\<rparr>)" if "wires T u x" for x a t
    using that wires_cong [of "x\<lparr>u_EXPCount := a, u_LastRspTime := t\<rparr>" x T u] by simp
  consider "v = u" | "v = give_up u" | x where "CUDT_sendCtrl us tk 1 None None 0 u = Some x" "v = x\<lparr>u_EXPCount := u_EXPCount x + 1, u_LastRspTime := tk\<rparr>"
    | w cc x where "resend_unacked u = Some w" "x = emit (SndUList_update True) (CUDT_CCUpdate (w\<lparr>u_CC := Some cc\<rparr>))"
        "v = x\<lparr>u_EXPCount := u_EXPCount x + 1, u_LastRspTime := tk\<rparr>"
    using assms(1) unfolding exp_timer_def Let_def by (auto split: if_split_asm bind_splits)
  then show ?thesis
  proof cases
    case 2
    have "wires T u (u\<lparr>u_Closing := True, u_Broken := True, u_BrokenCounter := 30\<rparr>)" by (rule wiresI) simp_all
    then show ?thesis unfolding 2 give_up_def Let_def by (intro emit_wires) simp_all
  next
    case 3
    then show ?thesis using go sendCtrl_wires [OF 3(1) assms(2,3)] by (simp add: ctrl_args_def)
  next
    case 4
    have "wires T u w" using 4(1) by (auto simp: resend_unacked_def dest: insert_loss_wires split: if_splits)
    then have "wires T u (w\<lparr>u_CC := Some cc\<rparr>)" using wires_cong [of "w\<lparr>u_CC := Some cc\<rparr>" w T u] by simp
    then have "wires T u x" unfolding 4(2) by (intro emit_wires) simp_all
    then show ?thesis using go 4(3) by simp
  qed simp
qed

lemma checkTimers_wires:
  assumes "CUDT_checkTimers us tk u = Some v" "sizes_ok u" "1 \<in> T" "2 \<in> T"
  shows "wires T u v"
proof -
  obtain w where w: "ack_timer us tk (CUDT_CCUpdate u) = Some w" "exp_timer us tk w = Some v"
    using assms(1) by (auto simp: CUDT_checkTimers_def split: bind_splits)
  have u: "wires T u (CUDT_CCUpdate u)" by simp
  have uw: "wires T u w" by (rule wires_trans [OF u ack_timer_wires [OF w(1) wires_sizes [OF u assms(2)] assms(4)]])
  show ?thesis by (rule wires_trans [OF uw exp_timer_wires [OF w(2) wires_sizes [OF uw assms(2)] assms(3)]])
qed

lemma drop_message_wires:
  assumes "drop_message us tk q m n u = Some v" "sizes_ok u" "7 \<in> T"
  shows "wires T u v"
proof -
  obtain w where w: "CUDT_sendCtrl us tk 7 (Some (sint m)) (Some (words_bytes [q, incseq_by q n])) 8 u = Some w"
      "u_PayloadSize v = u_PayloadSize w" "u_PeerID v = u_PeerID w" "u_PeerAddr v = u_PeerAddr w" "u_Out v = u_Out w"
    using assms(1) by (auto simp: drop_message_def Let_def split: bind_splits if_splits)
  have "wires T u w" by (rule sendCtrl_wires [OF w(1) assms(2,3)]) (simp add: ctrl_args_def)
  then show ?thesis using wires_cong [of v w T u] w(2-5) by blast
qed

lemma pack_new_wires: "wires T u (snd (snd (pack_new p u)))"
  by (auto simp: pack_new_def Let_def intro!: wiresI split: option.splits prod.splits)

lemma pack_lost_wires:
  assumes "pack_lost us tk p u = Some (k, q, v)" "sizes_ok u" "7 \<in> T"
  shows "wires T u v"
proof (cases "seqoff (u_SndLastDataAck u) (m_iSeqNo p) < 0")
  case False
  then show ?thesis
  proof (cases "CSndBuffer_readData_at us (seqoff (u_SndLastDataAck u) (m_iSeqNo p)) (the (u_SndBuffer u))")
    case (Some x)
    obtain r b where x: "x = (r, b)" by fastforce
    show ?thesis
    proof (cases r)
      case (SbDropped m n)
      have "wires T u (u\<lparr>u_SndBuffer := Some b\<rparr>)" by (rule wiresI) simp_all
      moreover have "drop_message us tk (m_iSeqNo p) m n (u\<lparr>u_SndBuffer := Some b\<rparr>) = Some v"
        using assms(1) False Some x SbDropped by (auto simp: pack_lost_def Let_def)
      ultimately show ?thesis using drop_message_wires [OF _ wires_sizes [OF _ assms(2)] assms(3)] wires_trans by blast
    next
      case (SbData n bs w)
      then show ?thesis using assms(1) False Some x by (auto simp: pack_lost_def Let_def intro: wiresI split: if_splits)
    qed
  qed (use assms(1) in \<open>simp add: pack_lost_def Let_def\<close>)
qed (use assms(1) in \<open>simp add: pack_lost_def Let_def\<close>)

lemma finish_packet_wires: "finish_packet us tk n probe p u = Some (m, q, ts, v) \<Longrightarrow> wires T u v"
  by (auto simp: finish_packet_def schedule_next_def Let_def intro!: wiresI split: bind_splits if_splits)

lemma packData_wires:
  assumes "CUDT_packData us tk p ts u = Some (n, q, ts', v)" "sizes_ok u" "7 \<in> T"
  shows "wires T u v"
proof -
  define u0 where "u0 = (if 0 \<noteq> u_TargetTime u \<and> tk > u_TargetTime u then u\<lparr>u_TimeDiff := u_TimeDiff u + (tk - u_TargetTime u)\<rparr> else u)"
  obtain s l where g: "CSndLossList_getLostSeq (the (u_SndLossList u0)) = (s, l)" by fastforce
  define w where "w = u0\<lparr>u_SndLossList := Some l\<rparr>"
  have w: "wires T u w" by (auto simp: w_def u0_def intro: wiresI)
  let ?r = "if m_iSeqNo (set_seq s p) \<ge> 0 then pack_lost us tk (set_seq s p) w else Some (pack_new (set_seq s p) w)"
  have r: "Some (n, q, ts', v) = (case ?r of
          None \<Rightarrow> None
        | Some (Packed payload probe, packet, u) \<Rightarrow> finish_packet us tk payload probe packet u
        | Some (Nothing, packet, u) \<Rightarrow> Some (0, packet, ts, u)
        | Some (NothingReset, packet, u) \<Rightarrow> Some (0, packet, 0, u))"
    unfolding assms(1) [symmetric] CUDT_packData_def u0_def [symmetric] Let_def g prod.case w_def ..
  then obtain k p' x where x: "?r = Some (k, p', x)" by (cases ?r) auto
  have "wires T w x"
  proof (cases "m_iSeqNo (set_seq s p) \<ge> 0")
    case True
    then show ?thesis using x pack_lost_wires [OF _ wires_sizes [OF w assms(2)] assms(3)] by simp
  next
    case False
    then show ?thesis using x pack_new_wires [of T w "set_seq s p"] by simp
  qed
  with w have ux: "wires T u x" by (rule wires_trans)
  show ?thesis
  proof (cases k)
    case (Packed payload probe)
    then have "finish_packet us tk payload probe p' x = Some (n, q, ts', v)" using r unfolding x by simp
    then show ?thesis using finish_packet_wires wires_trans [OF ux] by blast
  qed (use r x ux in simp_all)
qed

lemma sendmsg_wires: "CUDT_sendmsg g mem us tk data len ttl ord u = Some (r, v) \<Longrightarrow> wires T u v"
  unfolding CUDT_sendmsg_def Let_def
  by (auto intro!: emit_wires wiresI split: if_split_asm option.splits sum.splits prod.splits bind_splits)

lemma recvmsg_wires: "CUDT_recvmsg len u pool = Some (r, v, pool') \<Longrightarrow> wires T u v"
  by (auto simp: CUDT_recvmsg_def Let_def intro!: wiresI split: if_splits option.splits)

lemma close_wires:
  assumes "CUDT_close us tk garbage cache u = Some (v, cache')" "sizes_ok u" "5 \<in> T"
  shows "wires T u v"
proof (cases "u_Opened u")
  case True
  define w where "w = (emit RemoveUsock (emit (UpdateEvents (UDT_EPOLL_IN + UDT_EPOLL_OUT) True)
    (if u_Connected u then emit SndUList_remove u else u)))\<lparr>u_Closing := True\<rparr>"
  define x where "x = (if u_Listening w then emit RemoveListener (w\<lparr>u_Listening := False\<rparr>)
                else if u_Connecting w then emit RemoveConnector w else w)"
  have "wires T u (emit RemoveUsock (emit (UpdateEvents (UDT_EPOLL_IN + UDT_EPOLL_OUT) True) (if u_Connected u then emit SndUList_remove u else u)))"
    by (auto intro!: emit_wires)
  then have w: "wires T u w" using wires_cong [of w "emit RemoveUsock (emit (UpdateEvents (UDT_EPOLL_IN + UDT_EPOLL_OUT) True)
    (if u_Connected u then emit SndUList_remove u else u))" T u] by (simp add: w_def)
  then have "wires T u (w\<lparr>u_Listening := False\<rparr>)" using wires_cong [of "w\<lparr>u_Listening := False\<rparr>" w T u] by simp
  with w have x: "wires T u x" by (auto simp: x_def intro!: emit_wires)
  note ok = wires_sizes [OF x assms(2)]
  have r: "map_option (\<lambda>(u, cache). (u\<lparr>u_Opened := False\<rparr>, cache))
            (if u_Connected x then do {
               u \<leftarrow> (if \<not> u_Shutdown x then CUDT_sendCtrl us tk 5 None None 0 x else Some x);
               let u = on_cc cc_close u;
               let ib = (info_key (the (u_PeerAddr u)) u)\<lparr>ib_RTT := u_RTT u, ib_Bandwidth := u_Bandwidth u\<rparr>;
               (_, cache) \<leftarrow> CCache_update garbage ib cache;
               Some (u\<lparr>u_Connected := False\<rparr>, cache)
             }
             else Some (x, cache)) = Some (v, cache')"
    using assms(1) True unfolding CUDT_close_def Let_def w_def [symmetric] x_def [symmetric] by simp
  show ?thesis
  proof (cases "u_Connected x")
    case con: True
    then obtain y where y: "(if \<not> u_Shutdown x then CUDT_sendCtrl us tk 5 None None 0 x else Some x) = Some y"
        "v = (on_cc cc_close y)\<lparr>u_Connected := False, u_Opened := False\<rparr>"
      using r by (auto simp: Let_def split: bind_splits simp del: if_split_asm)
    have "wires T x y" using y(1) sendCtrl_wires [OF _ ok assms(3), of us tk None None 0 y] by (auto simp: ctrl_args_def split: if_splits)
    with x have "wires T u (on_cc cc_close y)" using wires_trans by simp
    then show ?thesis using wires_cong [of v "on_cc cc_close y" T u] y(2) by simp
  next
    case False
    then show ?thesis using r x wires_cong [of v x T u] by auto
  qed
qed (use assms(1) in \<open>simp add: CUDT_close_def\<close>)

section \<open>Every run\<close>

inductive socket_step :: "CUDT \<Rightarrow> CUDT \<Rightarrow> bool" where
  sk_sendmsg: "CUDT_sendmsg g mem us tk data len ttl order u = Some (r, v) \<Longrightarrow> socket_step u v"
| sk_recvmsg: "CUDT_recvmsg len u pool = Some (r, v, pool') \<Longrightarrow> socket_step u v"
| sk_packData: "CUDT_packData us tk p ts u = Some (n, q, ts', v) \<Longrightarrow> socket_step u v"
| sk_processCtrl: "CUDT_processCtrl rand us tk p u pool = Some (v, pool') \<Longrightarrow> socket_step u v"
| sk_processData: "CUDT_processData us tk ref u pool = Some (r, v, pool') \<Longrightarrow> socket_step u v"
| sk_checkTimers: "CUDT_checkTimers us tk u = Some v \<Longrightarrow> socket_step u v"
| sk_close: "CUDT_close us tk garbage cache u = Some (v, cache') \<Longrightarrow> socket_step u v"

lemma socket_step_wires: "socket_step u v \<Longrightarrow> sizes_ok u \<Longrightarrow> wires {0..8} u v"
  by (induction rule: socket_step.induct)
    (auto intro: sendmsg_wires recvmsg_wires packData_wires processCtrl_wires processData_wires checkTimers_wires close_wires)

lemma socket_run_wires: "socket_step\<^sup>*\<^sup>* u v \<Longrightarrow> sizes_ok u \<Longrightarrow> wires {0..8} u v"
proof (induction rule: rtranclp_induct)
  case (step v w)
  then show ?case using socket_step_wires wires_sizes wires_trans by blast
qed simp

text \<open>C15: whatever a connected socket with a payload size of at least 48 bytes does and whatever its peer sends, every packet it hands to the sending queue is a
  well-formed control packet for the peer: four header words, the control bit, a known type, the peer's id, and a payload of whole words that
  lies inside its buffer and fits into a packet. (The options admit a payload of 32 bytes, \<open>options_accepted_but_wrong\<close>; a
  repeated handshake then sends 48 bytes of a buffer of 32.)\<close>

theorem packets_well_formed:
  assumes "socket_step\<^sup>*\<^sup>* u v" "48 \<le> u_PayloadSize u" "fits_int32 (u_PeerID u)" "u_Out u = []"
  shows "\<forall>addr p. SendTo addr p \<in> set (u_Out v) \<longrightarrow> addr = the (u_PeerAddr u) \<and> packet_ok p \<and> getFlag p = 1 \<and> getType p \<in> {0..8} \<and>
    m_iID p = u_PeerID u \<and> iov_len p \<le> u_PayloadSize u \<and> 4 dvd iov_len p"
  using socket_run_wires [OF assms(1)] assms(2-4) by (fastforce simp: wires_def sizes_ok_def ctrl_ok_def)

text \<open>A peer in a rendezvous repeats its request and is answered.\<close>

definition example_rendezvous :: "CUDT \<Rightarrow> CUDT" where
  "example_rendezvous g = (CUDT_new g)\<lparr>u_PayloadSize := 1456, u_PeerID := 9, u_Rendezvous := True, u_Out := []\<rparr>"

theorem packets_well_formed_witness:
  "\<forall>rand g pool. \<exists>v pool' addr p. CUDT_processCtrl rand 0 0 \<lparr>m_nHeader = [0x80000000, 0, 0, 0], m_pcData = [], iov_len = 0\<rparr> (example_rendezvous g) pool = Some (v, pool') \<and>
     SendTo addr p \<in> set (u_Out v) \<and> packet_ok p \<and> getFlag p = 1 \<and> m_iID p = 9"
proof (intro allI)
  fix rand g pool
  let ?p = "\<lparr>m_nHeader = [0x80000000, 0, 0, 0], m_pcData = [], iov_len = 0\<rparr> :: CPacket" and ?u = "example_rendezvous g"
  have t: "getType ?p = 0" by (simp add: getType_def hdr_def)
  have req: "m_iReqType (snd (deserialize [] 0 CHandShake_new)) = 0" by (simp add: deserialize_def m_iContentSize_def CHandShake_new_def)
  have "\<exists>v. CUDT_sendCtrl 0 0 0 None (Some hs) n w = Some v \<and> (\<exists>addr q. SendTo addr q \<in> set (u_Out v))" for hs n w
    by (auto simp: CUDT_sendCtrl_def pack_and_send_def pack_def send_to_peer_def emit_def)
  then have send: "\<exists>v. CUDT_sendCtrl 0 0 0 None (Some hs) n w = Some v \<and> (\<exists>addr q. SendTo addr q \<in> set (u_Out v))" for hs n w .
  define w where "w = heard_from_peer 0 ?u"
  have w: "u_Rendezvous w" by (simp add: w_def heard_from_peer_def example_rendezvous_def)
  have "\<exists>hs n. repeat_handshake 0 0 ?p w = CUDT_sendCtrl 0 0 0 None (Some hs) n w"
    unfolding repeat_handshake_def Let_def getLength_def case_prod_unfold using w by (auto simp: req)
  then obtain v addr q where v: "CUDT_processCtrl rand 0 0 ?p ?u pool = Some (v, pool)" "SendTo addr q \<in> set (u_Out v)"
    using send [of _ _ w] by (fastforce simp: CUDT_processCtrl_def t Let_def w_def)
  have "socket_step\<^sup>*\<^sup>* ?u v" using sk_processCtrl [OF v(1)] by blast
  moreover have "48 \<le> u_PayloadSize ?u" "fits_int32 (u_PeerID ?u)" "u_Out ?u = []" "u_PeerID ?u = 9"
    by (simp_all add: example_rendezvous_def fits_int32_def)
  ultimately show "\<exists>v pool' addr p. CUDT_processCtrl rand 0 0 ?p ?u pool = Some (v, pool') \<and> SendTo addr p \<in> set (u_Out v) \<and> packet_ok p \<and> getFlag p = 1 \<and> m_iID p = 9"
    using v packets_well_formed [of ?u v] by metis
qed

end
