(* ===== verification/ReceiverState.thy ===== *)
theory ReceiverState imports WireSpec RcvLossSpec begin

text \<open>
  The receiver of a connection as a whole (\<open>core.cpp\<close>): whatever comes from the network, the acknowledgements a
  socket sends cover only packets that have arrived or that the peer asked to drop, and its loss reports name
  only packets that have not. \<open>receiver_spec\<close> is the abstract receiver: the positions in the peer's numbering that
  have arrived, those dropped at the peer's request, the next one expected and the last one acknowledged. \<open>receives\<close>
  relates it to the loss list, the buffer and the sequence numbers of a socket.
\<close>

section \<open>The abstract receiver\<close>

record receiver_spec =
  rs_Got :: "int set"
  rs_Dropped :: "int set"
  rs_Next :: int
  rs_Acked :: int

definition rspec_start :: receiver_spec where
  "rspec_start = \<lparr>rs_Got = {}, rs_Dropped = {}, rs_Next = 0, rs_Acked = 0\<rparr>"

definition missing :: "receiver_spec \<Rightarrow> int set" where
  "missing R = {0..<rs_Next R} - rs_Got R - rs_Dropped R"

text \<open>Everything before \<open>k\<close> is there.\<close>

definition covered_to :: "receiver_spec \<Rightarrow> int \<Rightarrow> bool" where
  "covered_to R k \<longleftrightarrow> 0 \<le> k \<and> k \<le> rs_Next R \<and> {0..<k} \<subseteq> rs_Got R \<union> rs_Dropped R"

text \<open>What a packet says about the data received: the numbers below which all is there, or the numbers missing.\<close>

datatype statement = AckBelow int32 | Missing "int32 set"

definition packet_words :: "CPacket \<Rightarrow> int32 list" where
  "packet_words p = map (word_at p) [0..<nat (iov_len p div 4)]"

fun says :: "effect \<Rightarrow> statement option" where
  "says (SendTo a p) =
     (if getType p = 2 then Some (AckBelow (word_at p 0))
      else if getType p = 3 then Some (Missing (reported (packet_words p)))
      else None)"
| "says _ = None"

fun true_of :: "int32 \<Rightarrow> receiver_spec \<Rightarrow> statement \<Rightarrow> bool" where
  "true_of isn R (AckBelow s) \<longleftrightarrow> (\<exists>k. s = seq_at isn k \<and> covered_to R k)"
| "true_of isn R (Missing X) \<longleftrightarrow> X \<subseteq> seq_at isn ` missing R"

definition truthful :: "int32 \<Rightarrow> receiver_spec \<Rightarrow> effect list \<Rightarrow> bool" where
  "truthful isn R out \<longleftrightarrow> (\<forall>e\<in>set out. \<forall>x. says e = Some x \<longrightarrow> true_of isn R x)"

text \<open>What comes in, as far as the receiver is concerned: a data packet with its number, stored or not, a request to
  drop a range of numbers, or anything else.\<close>

datatype arrival = Data int32 bool | Drop int32 int32 | NoData

inductive rspec_step :: "int32 \<Rightarrow> receiver_spec \<Rightarrow> arrival \<Rightarrow> receiver_spec \<Rightarrow> bool" for isn where
  rspec_data: "rs_Acked R \<le> k \<Longrightarrow>
    rspec_step isn R (Data (seq_at isn k) True) (R\<lparr>rs_Got := insert k (rs_Got R), rs_Next := max (rs_Next R) (k + 1)\<rparr>)"
| rspec_refused: "rspec_step isn R (Data s False) R"
| rspec_drop: "D \<subseteq> {i..j} \<inter> {..<n} \<Longrightarrow> rs_Next R \<le> n \<Longrightarrow> n \<le> max (rs_Next R) (j + 1) \<Longrightarrow> {rs_Next R..<n} \<subseteq> D \<Longrightarrow>
    rspec_step isn R (Drop (seq_at isn i) (seq_at isn j)) (R\<lparr>rs_Dropped := rs_Dropped R \<union> D, rs_Next := n\<rparr>)"
| rspec_ack: "rs_Acked R \<le> k \<Longrightarrow> covered_to R k \<Longrightarrow> rspec_step isn R NoData (R\<lparr>rs_Acked := k\<rparr>)"

lemma rspec_idle: "covered_to R (rs_Acked R) \<Longrightarrow> rspec_step isn R NoData R"
  using rspec_ack [of R "rs_Acked R" isn] by simp

section \<open>The socket as a receiver\<close>

definition receives :: "int32 \<Rightarrow> receiver_spec \<Rightarrow> CUDT \<Rightarrow> bool" where
  "receives isn R u \<longleftrightarrow> valid_seq isn \<and> covered_to R (rs_Acked R) \<and> rs_Got R \<union> rs_Dropped R \<subseteq> {..<rs_Next R} \<and>
     u_RcvLastAck u = seq_at isn (rs_Acked R) \<and> u_RcvCurrSeqNo u = seq_at isn (rs_Next R - 1) \<and>
     (\<exists>l. u_RcvLossList u = Some l \<and> CRcvLossList_inv l \<and> rlost_set l = seq_at isn ` missing R \<and>
        rs_Next R - rs_Acked R \<le> rl_Size l \<and>
        (\<exists>b. u_RcvBuffer u = Some b \<and> rb_inv b \<and> rb_Size b \<le> rl_Size l))"

definition same_receiver :: "CUDT \<Rightarrow> CUDT \<Rightarrow> bool" where
  "same_receiver u v \<longleftrightarrow> u_RcvLossList v = u_RcvLossList u \<and> u_RcvBuffer v = u_RcvBuffer u \<and>
     u_RcvLastAck v = u_RcvLastAck u \<and> u_RcvCurrSeqNo v = u_RcvCurrSeqNo u"

lemma receives_same: "receives isn R u \<Longrightarrow> same_receiver u v \<Longrightarrow> receives isn R v"
  by (simp add: receives_def same_receiver_def)

lemma same_receiver_refl [simp]: "same_receiver u u"
  by (simp add: same_receiver_def)

lemma same_receiver_trans [trans]: "same_receiver u v \<Longrightarrow> same_receiver v w \<Longrightarrow> same_receiver u w"
  by (simp add: same_receiver_def)

lemma missing_above: "covered_to R (rs_Acked R) \<Longrightarrow> missing R \<subseteq> {rs_Acked R..<rs_Next R}"
  by (force simp: covered_to_def missing_def)

text \<open>The packets an operation adds are about nothing.\<close>

definition silent :: "CUDT \<Rightarrow> CUDT \<Rightarrow> bool" where
  "silent u v \<longleftrightarrow> same_receiver u v \<and> (\<exists>out. u_Out v = u_Out u @ out \<and> (\<forall>e\<in>set out. says e = None))"

lemma wires_silent:
  assumes "wires T u v" "2 \<notin> T" "3 \<notin> T" "same_receiver u v"
  shows "silent u v"
proof -
  obtain out where o: "u_Out v = u_Out u @ out" "\<forall>e\<in>set out. effect_ok T u e" using assms(1) by (auto simp: wires_def)
  have "says e = None" if "e \<in> set out" for e
    using o(2) that assms(2,3) by (cases e) auto
  with o(1) assms(4) show ?thesis by (auto simp: silent_def)
qed

section \<open>What an acknowledgement or a report says\<close>

lemma peek_words:
  "i < length d \<Longrightarrow> peek32 (words_bytes d) i = word_of_int (d ! i)"
proof (induction d arbitrary: i)
  case (Cons w d)
  have len: "length (bytes_of (word_of_int w)) = 4" by simp
  show ?case
  proof (cases i)
    case 0
    then show ?thesis by (simp add: peek32_def words_bytes_def)
  next
    case (Suc j)
    then have "peek32 (words_bytes (w # d)) i = peek32 (words_bytes d) j"
      by (simp add: peek32_def words_bytes_def)
    then show ?thesis using Cons Suc by simp
  qed
qed simp

lemma sent_words:
  assumes "pack_and_send t l (Some (words_bytes d)) sz u = Some v" "t \<in> {2, 3}"
  shows "\<exists>p. v = emit (SendTo (the (u_PeerAddr u)) p) u \<and> getType p = t \<and> iov_len p = sz \<and>
    (\<forall>i<length d. word_at p i = sint (word_of_int (d ! i) :: uint32))"
proof -
  obtain q where q: "pack t l (Some (words_bytes d)) sz CPacket_new = Some q" "v = send_to_peer q u"
    using assms(1) by (auto simp: pack_and_send_def)
  let ?p = "set_m_iID (u_PeerID u) q"
  have ok: "packet_ok CPacket_new" by (simp add: packet_ok_def CPacket_new_def)
  have ty: "getType q = t" using pack_accessors [OF ok, of t l "Some (words_bytes d)" sz q] q(1) assms(2) by auto
  have "m_pcData q = words_bytes d" "iov_len q = sz"
    using q(1) assms(2) by (auto simp: pack_def set_vector_def set_hdr_def Let_def split: option.splits if_splits)
  then have "iov_len ?p = sz" "\<forall>i<length d. word_at ?p i = sint (word_of_int (d ! i) :: uint32)"
    by (simp_all add: set_m_iID_def set_hdr_def word_at_def peek_words)
  moreover have "getType ?p = t" using ty by (simp add: getType_def set_m_iID_def hdr_def set_hdr_def)
  ultimately show ?thesis using q(2) by (auto simp: send_to_peer_def)
qed

end
