(* ===== verification/ReceiverOps.thy ===== *)
theory ReceiverOps imports ReceiverState SenderState begin

text \<open>
  The operations of a socket (\<open>core.cpp\<close>) as steps of the abstract receiver: what leaves the receiver alone and says
  nothing, reading, \<open>processData\<close>, requests to drop, and the timers that acknowledge.
\<close>

section \<open>Operations that leave the receiver alone\<close>

lemma emit_recv [simp]: "same_receiver u (emit e v) = same_receiver u v"
  by (simp add: same_receiver_def emit_def)

lemma pack_and_send_recv: "pack_and_send t l r sz u = Some v \<Longrightarrow> same_receiver u v"
  by (auto simp: pack_and_send_def send_to_peer_def)

lemma send_nak_recv: "send_nak r sz u = Some v \<Longrightarrow> same_receiver u v"
  by (auto simp: send_nak_def count_nak_def same_receiver_def dest!: pack_and_send_recv split: bind_splits if_splits option.splits)

lemma next_nak_recv: "next_nak_interval u = Some v \<Longrightarrow> same_receiver u v"
  by (auto simp: next_nak_interval_def Let_def same_receiver_def split: bind_splits)

lemma sendCtrl_recv: "CUDT_sendCtrl us tk t l r sz u = Some v \<Longrightarrow> t \<noteq> 2 \<Longrightarrow> same_receiver u v"
  by (auto simp: CUDT_sendCtrl_def same_receiver_def split: bind_splits if_splits
      dest!: pack_and_send_recv send_nak_recv next_nak_recv)

lemma CCUpdate_recv [simp]: "same_receiver u (CUDT_CCUpdate v) = same_receiver u v"
  by (simp add: CUDT_CCUpdate_def Let_def same_receiver_def)

lemma on_cc_recv [simp]: "same_receiver u (on_cc f v) = same_receiver u v"
  by (simp add: on_cc_def same_receiver_def)

lemma update_recv [simp]: "same_receiver u (update_rtt r v) = same_receiver u v" "same_receiver u (update_rates p v) = same_receiver u v"
  by (simp_all add: update_rtt_def update_rates_def on_cc_def Let_def same_receiver_def)

lemma send_ack2_recv: "send_ack2 us tk a u = Some v \<Longrightarrow> same_receiver u v"
  by (auto simp: send_ack2_def same_receiver_def dest!: sendCtrl_recv split: if_split_asm)

lemma ack_buffer_recv: "ack_buffer tk a u = Some (Some v) \<Longrightarrow> same_receiver u v"
  by (auto simp: ack_buffer_def Let_def same_receiver_def split: bind_splits if_splits)

lemma ack_done_recv:
  assumes "ack_done us p u = Some v"
  shows "same_receiver u v"
proof -
  let ?u = "update_rates p (update_rtt (word_at p 1) (emit (SndUList_update False) (emit (UpdateEvents UDT_EPOLL_OUT True) u)))"
  obtain cc where v: "v = (CUDT_CCUpdate (?u\<lparr>u_CC := Some cc\<rparr>))
      \<lparr>u_RecvACK := u_RecvACK (CUDT_CCUpdate (?u\<lparr>u_CC := Some cc\<rparr>)) + 1,
       u_RecvACKTotal := u_RecvACKTotal (CUDT_CCUpdate (?u\<lparr>u_CC := Some cc\<rparr>)) + 1\<rparr>"
    using assms unfolding ack_done_def Let_def by (cases "cc_onACK us (word_at p 0) (the (u_CC ?u))") auto
  have "same_receiver u ?u" by simp
  then have "same_receiver u (?u\<lparr>u_CC := Some cc\<rparr>)" by (simp add: same_receiver_def)
  then have "same_receiver u (CUDT_CCUpdate (?u\<lparr>u_CC := Some cc\<rparr>))" by simp
  then show ?thesis by (simp add: v same_receiver_def)
qed

lemma full_ack_recv:
  assumes "full_ack us tk p u = Some v"
  shows "same_receiver u v"
proof -
  let ?a = "word_at p 0"
  obtain w where w: "send_ack2 us tk (getAckSeqNo p) u = Some w" using assms by (auto simp: full_ack_def split: bind_splits)
  define w' where "w' = (if seqcmp ?a (u_SndLastAck w) \<ge> 0 then w\<lparr>u_FlowWindowSize := word_at p 3, u_SndLastAck := ?a\<rparr> else w)"
  have r: "(if seqcmp ?a (incseq (u_SndCurrSeqNo w)) > 0 then Some (break_connection w)
      else case ack_buffer tk ?a w' of None \<Rightarrow> Some w' | Some r \<Rightarrow> Option.bind r (ack_done us p)) = Some v"
    using assms unfolding full_ack_def w Option.bind.bind_lunit w'_def ack_done_def Let_def .
  have ww': "same_receiver w w'" "same_receiver w (break_connection w)"
    by (auto simp: w'_def break_connection_def same_receiver_def)
  have "same_receiver w v"
    using r ww' by (auto split: if_splits option.splits bind_splits dest!: ack_buffer_recv ack_done_recv intro: same_receiver_trans)
  then show ?thesis using send_ack2_recv [OF w] same_receiver_trans by blast
qed

lemma insert_loss_recv: "insert_loss lo hi u = Some v \<Longrightarrow> same_receiver u v"
  by (auto simp: insert_loss_def count_loss_def same_receiver_def)

lemma range_loss_recv: "range_loss lo hi u = Some v \<Longrightarrow> same_receiver u v"
  by (auto simp: range_loss_def dest: insert_loss_recv split: if_splits)

lemma decode_loss_recv: "decode_loss w i n u = Some (ok, v) \<Longrightarrow> same_receiver u v"
proof (induction w i n u arbitrary: ok v rule: decode_loss.induct)
  case (1 w i n u)
  then show ?case
    unfolding decode_loss.simps [of w i n u] Let_def
    by (fastforce split: if_splits option.splits dest: range_loss_recv insert_loss_recv intro: same_receiver_trans)
qed

lemma loss_report_recv:
  assumes "loss_report rand p u = Some v"
  shows "same_receiver u v"
proof -
  define w where "w = CUDT_CCUpdate (on_cc (cc_onLoss rand (map (word_at p) [0..<max 1 (nat (getLength p sdiv 4))])) u)"
  obtain ok x where x: "decode_loss (word_at p) 0 (nat (getLength p sdiv 4)) w = Some (ok, x)"
      "v = break_connection x \<or> v = (emit (SndUList_update True) x)\<lparr>u_RecvNAK := u_RecvNAK x + 1,
         u_RecvNAKTotal := u_RecvNAKTotal x + 1\<rparr>"
    using assms [unfolded loss_report_def Let_def w_def [symmetric]] by (auto split: option.splits prod.splits if_splits)
  have "same_receiver u w" by (simp add: w_def)
  then have "same_receiver u x" using decode_loss_recv [OF x(1)] same_receiver_trans by blast
  then show ?thesis using x(2) by (auto simp: break_connection_def emit_def same_receiver_def)
qed

lemma repeat_handshake_recv: "repeat_handshake us tk p u = Some v \<Longrightarrow> same_receiver u v"
  by (auto simp: repeat_handshake_def Let_def dest!: sendCtrl_recv split: if_splits prod.splits)

lemma ack_of_ack_recv: "same_receiver u (ack_of_ack us p u)"
proof -
  obtain r a w where w: "CACKWindow_acknowledge us (getAckSeqNo p) (the (u_ACKWindow u)) = (r, a, w)" by (metis prod_cases3)
  let ?v = "update_rtt r (u\<lparr>u_ACKWindow := Some w\<rparr>)"
  have "same_receiver u (u\<lparr>u_ACKWindow := Some w\<rparr>)" by (simp add: same_receiver_def)
  moreover have "same_receiver u (?v\<lparr>u_RcvLastAckAck := s\<rparr>)" for s
    using calculation update_recv(1) [of u r "u\<lparr>u_ACKWindow := Some w\<rparr>"] by (simp add: same_receiver_def)
  ultimately show ?thesis by (simp add: ack_of_ack_def w Let_def)
qed

lemma processCtrl_recv:
  assumes "CUDT_processCtrl rand us tk p u pool = Some (v, pool')" "getType p \<noteq> 7"
  shows "same_receiver u v"
proof -
  let ?u = "heard_from_peer tk u"
  have h: "same_receiver u ?u" by (simp add: heard_from_peer_def same_receiver_def)
  have other: "same_receiver ?u (light_ack a ?u)" "same_receiver ?u (delay_warning ?u)" "same_receiver ?u (peer_shutdown ?u)"
    "same_receiver ?u (?u\<lparr>u_PeerHealth := b\<rparr>)" for a b
    by (simp_all add: light_ack_def delay_warning_def peer_shutdown_def same_receiver_def)
  have "same_receiver ?u v"
    using assms other unfolding CUDT_processCtrl_def Let_def
    by (auto intro: ack_of_ack_recv loss_report_recv full_ack_recv repeat_handshake_recv split: if_split_asm)
  with h show ?thesis by (rule same_receiver_trans)
qed

lemma resend_recv: "resend_unacked u = Some v \<Longrightarrow> same_receiver u v"
  by (auto simp: resend_unacked_def dest: insert_loss_recv split: if_splits)

lemma exp_timer_recv:
  assumes "exp_timer us tk u = Some v"
  shows "same_receiver u v"
proof -
  consider "v = u" | "v = give_up u" | x where "CUDT_sendCtrl us tk 1 None None 0 u = Some x" "v = x\<lparr>u_EXPCount := u_EXPCount x + 1, u_LastRspTime := tk\<rparr>"
    | w cc x where "resend_unacked u = Some w" "x = emit (SndUList_update True) (CUDT_CCUpdate (w\<lparr>u_CC := Some cc\<rparr>))"
        "v = x\<lparr>u_EXPCount := u_EXPCount x + 1, u_LastRspTime := tk\<rparr>"
    using assms unfolding exp_timer_def Let_def by (auto split: if_split_asm bind_splits)
  then show ?thesis
  proof cases
    case 2
    then show ?thesis by (simp add: give_up_def Let_def) (simp add: same_receiver_def)
  next
    case 3
    then show ?thesis using sendCtrl_recv [OF 3(1)] by (simp add: same_receiver_def)
  next
    case 4
    then show ?thesis using resend_recv [OF 4(1)] by (simp add: same_receiver_def CUDT_CCUpdate_def Let_def emit_def)
  qed simp
qed

lemma drop_message_recv:
  assumes "drop_message us tk q m n u = Some v"
  shows "same_receiver u v"
proof -
  obtain w where w: "CUDT_sendCtrl us tk 7 (Some (sint m)) (Some (words_bytes [q, incseq_by q n])) 8 u = Some w" "same_receiver w v"
    using assms by (auto simp: drop_message_def Let_def same_receiver_def split: bind_splits if_splits)
  then show ?thesis using sendCtrl_recv [OF w(1)] same_receiver_trans by auto
qed

lemma pack_new_recv: "same_receiver u (snd (snd (pack_new p u)))"
  by (auto simp: pack_new_def Let_def same_receiver_def split: option.splits prod.splits)

lemma pack_lost_recv: "pack_lost us tk p u = Some (k, q, v) \<Longrightarrow> same_receiver u v"
  unfolding pack_lost_def Let_def
  by (auto simp: same_receiver_def split: if_splits option.splits prod.splits sb_read.splits dest!: drop_message_recv)

lemma finish_packet_recv: "finish_packet us tk n probe p u = Some (m, q, ts, v) \<Longrightarrow> same_receiver u v"
  by (auto simp: finish_packet_def schedule_next_def Let_def same_receiver_def split: bind_splits if_splits)

lemma packData_recv:
  assumes "CUDT_packData us tk p ts u = Some (n, q, ts', v)"
  shows "same_receiver u v"
proof -
  define u0 where "u0 = (if 0 \<noteq> u_TargetTime u \<and> tk > u_TargetTime u then u\<lparr>u_TimeDiff := u_TimeDiff u + (tk - u_TargetTime u)\<rparr> else u)"
  obtain s l where g: "CSndLossList_getLostSeq (the (u_SndLossList u0)) = (s, l)" by fastforce
  define w where "w = u0\<lparr>u_SndLossList := Some l\<rparr>"
  have w: "same_receiver u w" by (auto simp: w_def u0_def same_receiver_def)
  let ?r = "if m_iSeqNo (set_seq s p) \<ge> 0 then pack_lost us tk (set_seq s p) w else Some (pack_new (set_seq s p) w)"
  have r: "Some (n, q, ts', v) = (case ?r of
          None \<Rightarrow> None
        | Some (Packed payload probe, packet, u) \<Rightarrow> finish_packet us tk payload probe packet u
        | Some (Nothing, packet, u) \<Rightarrow> Some (0, packet, ts, u)
        | Some (NothingReset, packet, u) \<Rightarrow> Some (0, packet, 0, u))"
    unfolding assms [symmetric] CUDT_packData_def u0_def [symmetric] Let_def g prod.case w_def ..
  then obtain k p' x where x: "?r = Some (k, p', x)" by (cases ?r) auto
  have "same_receiver w x"
    using x pack_lost_recv [of us tk "set_seq s p" w k p' x] pack_new_recv [of w "set_seq s p"] by (simp split: if_splits)
  moreover have "same_receiver x v"
    using r unfolding x by (cases k) (auto dest: finish_packet_recv [OF sym])
  ultimately show ?thesis using w same_receiver_trans by blast
qed

lemma sendmsg_recv: "CUDT_sendmsg g mem us tk data len ttl ord u = Some (r, v) \<Longrightarrow> same_receiver u v"
  unfolding CUDT_sendmsg_def Let_def
  by (auto simp: same_receiver_def emit_def split: if_split_asm option.splits sum.splits prod.splits bind_splits)

end
