(* ===== verification/ReceiverSteps.thy ===== *)
theory ReceiverSteps imports ReceiverOps begin

text \<open>
  The operations that change the receiver (\<open>core.cpp\<close>) as steps of the abstract receiver, with what they say to the peer.
\<close>

section \<open>The buffer\<close>

lemma copy_msg_keeps:
  "copy_msg f p q pa rs b pool = Some (d, rs', b', pool') \<Longrightarrow> rb_inv b \<Longrightarrow> rb_inv b' \<and> rb_Size b' = rb_Size b"
proof (induction f arbitrary: p rs b pool d)
  case (Suc f)
  have inv: "rb_inv (put_slot p None b)" using Suc.prems(2) by (simp add: rb_inv_def put_slot_def)
  show ?case
  proof (cases "p = (q + 1) smod rb_Size b")
    case False
    obtain rs1 pool1 b1 d1 where c: "copy_msg f (next_pos b p) q pa rs1 b1 pool1 = Some (d1, rs', b', pool')"
        "b1 = b \<or> b1 = put_slot p None b"
    proof (cases pa)
      case True
      then show thesis using Suc.prems(1) False that [of _ b] by (auto simp: Let_def simp del: not_None_eq)
    next
      case pa: False
      then show thesis using Suc.prems(1) False that [of _ "put_slot p None b"] by (auto simp: Let_def simp del: not_None_eq)
    qed
    have "rb_inv b1" "rb_Size b1 = rb_Size b" using c(2) inv Suc.prems(2) by auto
    then show ?thesis using Suc.IH [OF c(1)] by simp
  qed (use Suc.prems in simp)
qed simp

lemma readMsg_keeps:
  assumes "CRcvBuffer_readMsg len b pool = Some (n, d, b', pool')" "rb_inv b"
  shows "rb_inv b' \<and> rb_Size b' = rb_Size b"
proof -
  from scan_total [OF assms(2), of pool] obtain found p q pa b1 pool1 where s:
    "CRcvBuffer_scanMsg b pool = Some ((found, p, q, pa), b1, pool1)" "rb_inv b1" "rb_Size b1 = rb_Size b"
    "found \<longrightarrow> 0 \<le> p \<and> p < rb_Size b1 \<and> 0 \<le> q \<and> q < rb_Size b1" by metis
  show ?thesis
  proof (cases found)
    case True
    then obtain d' rs b2 pool2 where c: "copy_msg (Suc (nat (rb_Size b1))) p q pa len b1 pool1 = Some (d', rs, b2, pool2)"
        "b' = (if \<not> pa then b2\<lparr>rb_StartPos := (q + 1) smod rb_Size b2\<rparr> else b2)"
      using assms(1) s(1) by (auto simp: CRcvBuffer_readMsg_def simp del: copy_msg.simps)
    have "rb_inv b2 \<and> rb_Size b2 = rb_Size b1" by (rule copy_msg_keeps [OF c(1) s(2)])
    then show ?thesis using c(2) s(3,4) True by (auto simp: rb_inv_def)
  qed (use assms(1) s in \<open>simp add: CRcvBuffer_readMsg_def\<close>)
qed

lemma ackData_keeps: "rb_inv b \<Longrightarrow> 0 \<le> n \<Longrightarrow> rb_inv (CRcvBuffer_ackData n b) \<and> rb_Size (CRcvBuffer_ackData n b) = rb_Size b"
  by (auto simp: CRcvBuffer_ackData_def Let_def rb_inv_def)

lemma ackData_0: "rb_inv b \<Longrightarrow> CRcvBuffer_ackData 0 b = b"
  by (simp add: CRcvBuffer_ackData_def Let_def rb_inv_def)

lemma addData_keeps:
  "CRcvBuffer_addData u n b pool = (r, b', pool') \<Longrightarrow> rb_inv b \<Longrightarrow> 0 \<le> n \<Longrightarrow>
     rb_inv b' \<and> rb_Size b' = rb_Size b \<and> (r = 0 \<or> r = - 1)"
  by (auto simp: CRcvBuffer_addData_def Let_def rb_inv_def put_slot_def split: if_splits)

lemma avail_less: "rb_inv b \<Longrightarrow> CRcvBuffer_getAvailBufSize b < rb_Size b"
  by (auto simp: CRcvBuffer_getAvailBufSize_def CRcvBuffer_getRcvDataSize_def rb_inv_def)

lemma recvmsg_step:
  assumes "CUDT_recvmsg len u pool = Some (r, v, pool')" "receives isn R u"
  shows "receives isn R v"
  using assms by (auto simp: CUDT_recvmsg_def receives_def Let_def dest!: readMsg_keeps split: if_splits option.splits)

section \<open>Positions\<close>

lemma receivesD:
  assumes "receives isn R u"
  obtains l b where "valid_seq isn" "covered_to R (rs_Acked R)" "u_RcvLastAck u = seq_at isn (rs_Acked R)"
    "u_RcvCurrSeqNo u = seq_at isn (rs_Next R - 1)" "u_RcvLossList u = Some l" "CRcvLossList_inv l"
    "rlost_set l = seq_at isn ` missing R" "rs_Next R - rs_Acked R \<le> rl_Size l" "u_RcvBuffer u = Some b" "rb_inv b"
    "rb_Size b \<le> rl_Size l" "0 < rl_Size l" "2 * rl_Size l < m_iSeqNoTH" "missing R \<subseteq> {rs_Acked R..<rs_Next R}"
    "0 \<le> rs_Acked R" "rs_Acked R \<le> rs_Next R" "rs_Got R \<union> rs_Dropped R \<subseteq> {..<rs_Next R}"
proof -
  from assms obtain l b where *: "valid_seq isn" "covered_to R (rs_Acked R)" "u_RcvLastAck u = seq_at isn (rs_Acked R)"
    "u_RcvCurrSeqNo u = seq_at isn (rs_Next R - 1)" "u_RcvLossList u = Some l" "CRcvLossList_inv l"
    "rlost_set l = seq_at isn ` missing R" "rs_Next R - rs_Acked R \<le> rl_Size l" "u_RcvBuffer u = Some b" "rb_inv b"
    "rb_Size b \<le> rl_Size l" "rs_Got R \<union> rs_Dropped R \<subseteq> {..<rs_Next R}" by (auto simp: receives_def)
  moreover have "0 < rl_Size l" "2 * rl_Size l < m_iSeqNoTH" using rcv_gaps.cap_bound [OF *(6)] by auto
  moreover have "missing R \<subseteq> {rs_Acked R..<rs_Next R}" by (rule missing_above [OF *(2)])
  ultimately show thesis using that by (simp add: covered_to_def)
qed

lemma incseq_at: "incseq (seq_at a (k - 1)) = seq_at a k"
  by (simp add: seq.inc_window)

text \<open>The number an acknowledgement is about to give.\<close>

lemma ack_number_at:
  assumes r: "receives isn R u"
  shows "\<exists>k. ack_number u = seq_at isn k \<and> covered_to R k \<and> rs_Acked R \<le> k \<and> k \<le> rs_Next R"
proof -
  obtain l b where d: "valid_seq isn" "covered_to R (rs_Acked R)" "u_RcvLastAck u = seq_at isn (rs_Acked R)"
    "u_RcvCurrSeqNo u = seq_at isn (rs_Next R - 1)" "u_RcvLossList u = Some l" "CRcvLossList_inv l"
    "rlost_set l = seq_at isn ` missing R" "rs_Next R - rs_Acked R \<le> rl_Size l" "missing R \<subseteq> {rs_Acked R..<rs_Next R}"
    "0 \<le> rs_Acked R" "rs_Acked R \<le> rs_Next R" using r by (rule receivesD)
  show ?thesis
  proof (cases "missing R = {}")
    case True
    then have "ack_number u = seq_at isn (rs_Next R)"
      using rcv_gaps.count_zero [OF d(6,7)] d(4,5) by (simp add: ack_number_def incseq_at)
    moreover have "covered_to R (rs_Next R)" using True d(10,11) by (auto simp: covered_to_def missing_def)
    ultimately show ?thesis using d(11) by blast
  next
    case False
    obtain k where k: "k \<in> missing R" "CRcvLossList_getFirstLostSeq l = seq_at isn k" "\<forall>x\<in>missing R. k \<le> x"
      using rcv_gaps.least_at [OF d(6,7,9,8) False] by blast
    have "ack_number u = seq_at isn k"
      using False rcv_gaps.count_zero [OF d(6,7)] d(5) k(2) by (simp add: ack_number_def)
    moreover have "covered_to R k" using k(1,3) by (force simp: covered_to_def missing_def)
    ultimately show ?thesis using k(1) d(9) by force
  qed
qed

section \<open>Acknowledging\<close>

lemma true_of_acked [simp]: "true_of isn (R\<lparr>rs_Acked := k\<rparr>) x = true_of isn R x"
  by (cases x) (simp_all add: covered_to_def missing_def)

lemma truthful_acked [simp]: "truthful isn (R\<lparr>rs_Acked := k\<rparr>) out = truthful isn R out"
  by (simp add: truthful_def)

lemma truthful_append [simp]: "truthful isn R (a @ b) \<longleftrightarrow> truthful isn R a \<and> truthful isn R b"
  by (auto simp: truthful_def)

lemma truthful_Nil [simp]: "truthful isn R []"
  by (simp add: truthful_def)

lemma silent_truthful: "silent u v \<Longrightarrow> \<exists>out. u_Out v = u_Out u @ out \<and> truthful isn R out"
  by (force simp: silent_def truthful_def)

lemma sint_seq_at [simp]: "sint (word_of_int (seq_at a k) :: uint32) = seq_at a k"
proof (rule sint_word_of_int32)
  have "0 \<le> seq_at a k \<and> seq_at a k < 0x80000000" using valid_seq_at [of a k] unfolding valid_seq_def .
  then show "fits_int32 (seq_at a k)" unfolding fits_int32_def by linarith
qed

text \<open>What is added to the packets of a socket is true.\<close>

definition tells :: "int32 \<Rightarrow> receiver_spec \<Rightarrow> CUDT \<Rightarrow> CUDT \<Rightarrow> bool" where
  "tells isn R u v \<longleftrightarrow> (\<exists>out. u_Out v = u_Out u @ out \<and> truthful isn R out)"

lemma tells_trans: "tells isn R u v \<Longrightarrow> tells isn R v w \<Longrightarrow> tells isn R u w"
  by (auto simp: tells_def)

lemma tells_quiet: "u_Out v = u_Out u \<Longrightarrow> tells isn R u v"
  by (simp add: tells_def)

lemma tells_silent: "silent u v \<Longrightarrow> tells isn R u v"
  using silent_truthful by (simp add: tells_def)

lemma tells_ack:
  assumes "pack_and_send 2 l (Some (words_bytes (seq_at isn k # d))) sz u = Some v" "covered_to R k"
  shows "tells isn R u v"
proof -
  obtain a p where p: "v = emit (SendTo a p) u" "getType p = 2" "word_at p 0 = seq_at isn k"
    using sent_words [OF assms(1)] by fastforce
  then show ?thesis using assms(2) by (auto simp: tells_def truthful_def emit_def)
qed

lemma send_full_ack_step:
  assumes r: "send_full_ack us tk u = Some v" and a: "u_RcvLastAck u = seq_at isn k" "covered_to R k"
  shows "same_receiver u v \<and> tells isn R u v"
proof -
  let ?u = "u\<lparr>u_AckSeqNo := incack (u_AckSeqNo u)\<rparr>"
  obtain l d sz x y where y: "pack_and_send 2 l (Some (words_bytes (seq_at isn k # d))) sz x = Some y"
      "u_Out x = u_Out u" "same_receiver u x" "same_receiver y v" "u_Out v = u_Out y"
  proof (cases "tk - u_LastAckTime ?u > u_SYNInt ?u")
    case True
    then obtain s b y where "pack_and_send 2 (Some (u_AckSeqNo ?u)) (Some (words_bytes (ack_data ?u @ [s, b]))) 24 (?u\<lparr>u_LastAckTime := tk\<rparr>) = Some y"
        "u_Out v = u_Out y" "same_receiver y v"
      using r by (auto simp: send_full_ack_def Let_def same_receiver_def split: bind_splits)
    then show thesis
      by (intro that [of "Some (u_AckSeqNo ?u)" "tl (ack_data ?u @ [s, b])" 24 "?u\<lparr>u_LastAckTime := tk\<rparr>" y])
        (simp_all add: ack_data_def Let_def a(1) same_receiver_def)
  next
    case False
    then obtain y where "pack_and_send 2 (Some (u_AckSeqNo ?u)) (Some (words_bytes (ack_data ?u))) 16 ?u = Some y"
        "u_Out v = u_Out y" "same_receiver y v"
      using r by (auto simp: send_full_ack_def Let_def same_receiver_def split: bind_splits)
    then show thesis
      by (intro that [of "Some (u_AckSeqNo ?u)" "tl (ack_data ?u)" 16 ?u y])
        (simp_all add: ack_data_def Let_def a(1) same_receiver_def)
  qed
  have "tells isn R x y" by (rule tells_ack [OF y(1) a(2)])
  moreover have "same_receiver u v" using y(3,4) pack_and_send_recv [OF y(1)] same_receiver_trans by blast
  ultimately show ?thesis using y(2,5) by (simp add: tells_def)
qed

text \<open>A step that acknowledges the packets before position \<open>k\<close>.\<close>

definition acks :: "int32 \<Rightarrow> receiver_spec \<Rightarrow> int \<Rightarrow> CUDT \<Rightarrow> CUDT \<Rightarrow> bool" where
  "acks isn R k u v \<longleftrightarrow> covered_to R k \<and> rs_Acked R \<le> k \<and> receives isn (R\<lparr>rs_Acked := k\<rparr>) v \<and> tells isn R u v \<and>
     u_RcvBuffer v = map_option (CRcvBuffer_ackData (k - rs_Acked R)) (u_RcvBuffer u)"

lemma acks_none:
  assumes "receives isn R u" "same_receiver u v" "tells isn R u v"
  shows "acks isn R (rs_Acked R) u v"
proof -
  have "R\<lparr>rs_Acked := rs_Acked R\<rparr> = R" by simp
  moreover have "u_RcvBuffer v = map_option (CRcvBuffer_ackData 0) (u_RcvBuffer u)"
    using assms(1,2) ackData_0 by (auto simp: receives_def same_receiver_def)
  moreover have "receives isn R v" "covered_to R (rs_Acked R)" using receives_same [OF assms(1,2)] by (simp_all add: receives_def)
  ultimately show ?thesis using assms(3) by (simp add: acks_def)
qed

lemma acks_more:
  assumes "acks isn R k u v" "same_receiver v w" "tells isn R v w"
  shows "acks isn R k u w"
proof -
  have "receives isn (R\<lparr>rs_Acked := k\<rparr>) w" by (rule receives_same [OF _ assms(2)]) (use assms(1) in \<open>simp add: acks_def\<close>)
  moreover have "tells isn R u w" by (rule tells_trans [OF _ assms(3)]) (use assms(1) in \<open>simp add: acks_def\<close>)
  moreover have "u_RcvBuffer w = u_RcvBuffer v" using assms(2) by (simp add: same_receiver_def)
  ultimately show ?thesis using assms(1) by (simp add: acks_def)
qed

lemma advance_ack_step:
  assumes r: "receives isn R u" and a: "advance_ack tk (seq_at isn k) u = Some v" and k: "covered_to R k" "rs_Acked R \<le> k"
  shows "acks isn R k u v"
proof -
  obtain l b where d: "valid_seq isn" "u_RcvLastAck u = seq_at isn (rs_Acked R)" "u_RcvCurrSeqNo u = seq_at isn (rs_Next R - 1)"
    "u_RcvLossList u = Some l" "CRcvLossList_inv l" "rlost_set l = seq_at isn ` missing R" "rs_Next R - rs_Acked R \<le> rl_Size l"
    "u_RcvBuffer u = Some b" "rb_inv b" "rb_Size b \<le> rl_Size l" "2 * rl_Size l < m_iSeqNoTH" "rs_Got R \<union> rs_Dropped R \<subseteq> {..<rs_Next R}"
    using r by (rule receivesD)
  have kn: "k \<le> rs_Next R" using k(1) by (simp add: covered_to_def)
  have near: "\<bar>k - rs_Acked R\<bar> < m_iSeqNoTH" using k(2) kn d(7,11) by linarith
  have m: "missing (R\<lparr>rs_Acked := k\<rparr>) = missing R" by (simp add: missing_def)
  have c: "covered_to (R\<lparr>rs_Acked := k\<rparr>) k" using k(1) by (simp add: covered_to_def)
  show ?thesis
  proof (cases "rs_Acked R < k")
    case True
    then have "seqcmp (seq_at isn k) (u_RcvLastAck u) > 0" "seqoff (u_RcvLastAck u) (seq_at isn k) = k - rs_Acked R"
      using near by (simp_all add: d(2) seq.cmp_window_gt seq.off_window)
    then have v: "v = emit (UpdateEvents UDT_EPOLL_IN True) (u\<lparr>u_RcvLastAck := seq_at isn k,
        u_RcvBuffer := Some (CRcvBuffer_ackData (k - rs_Acked R) b)\<rparr>)"
      using a by (simp add: advance_ack_def Let_def d(8))
    have b: "rb_inv (CRcvBuffer_ackData (k - rs_Acked R) b) \<and> rb_Size (CRcvBuffer_ackData (k - rs_Acked R) b) = rb_Size b"
      using ackData_keeps [OF d(9)] True by simp
    have "receives isn (R\<lparr>rs_Acked := k\<rparr>) v"
      using d b c True kn by (simp add: receives_def v emit_def m)
    moreover have "tells isn R u v" by (auto simp: v tells_def emit_def truthful_def)
    moreover have "u_RcvBuffer v = map_option (CRcvBuffer_ackData (k - rs_Acked R)) (u_RcvBuffer u)" by (simp add: v emit_def d(8))
    ultimately show ?thesis using k by (simp add: acks_def)
  next
    case False
    then have "k = rs_Acked R" using k(2) by simp
    moreover have "v = u" using a calculation by (simp add: advance_ack_def d(2) split: if_splits)
    ultimately show ?thesis using acks_none [OF r _ tells_quiet] by simp
  qed
qed

lemma sendCtrl_ack_step:
  assumes r: "receives isn R u" and s: "sendCtrl_ack us tk sz u = Some v"
  shows "\<exists>k. acks isn R k u v"
proof -
  obtain k where k: "ack_number u = seq_at isn k" "covered_to R k" "rs_Acked R \<le> k" using ack_number_at [OF r] by blast
  consider "v = u" | "pack_and_send 2 None (Some (words_bytes [seq_at isn k])) 4 u = Some v"
    | w where "advance_ack tk (seq_at isn k) u = Some w" "v = w \<or> send_full_ack us tk w = Some v"
  proof -
    have "v = u \<or> pack_and_send 2 None (Some (words_bytes [seq_at isn k])) 4 u = Some v \<or>
        (case advance_ack tk (seq_at isn k) u of None \<Rightarrow> v = u | Some w \<Rightarrow> v = w \<or> send_full_ack us tk w = Some v)"
      using s unfolding sendCtrl_ack_def k(1) Let_def by (simp split: if_split_asm option.splits)
    then show thesis using that by (cases "advance_ack tk (seq_at isn k) u") auto
  qed
  then show ?thesis
  proof cases
    case 1
    then show ?thesis using acks_none [OF r _ tells_quiet] by (intro exI [of _ "rs_Acked R"]) simp
  next
    case 2
    show ?thesis by (rule exI, rule acks_none [OF r pack_and_send_recv [OF 2] tells_ack [OF 2 k(2)]])
  next
    case 3
    note w = advance_ack_step [OF r 3(1) k(2,3)]
    from 3(2) show ?thesis
    proof
      assume f: "send_full_ack us tk w = Some v"
      have "u_RcvLastAck w = seq_at isn k" using w by (simp add: acks_def receives_def)
      then show ?thesis using acks_more [OF w] send_full_ack_step [OF f _ k(2)] by blast
    qed (use w in blast)
  qed
qed

section \<open>Reporting losses\<close>

lemma nak_word: "sint (word_of_int (seq_at a k OR 0x80000000) :: uint32) = seq_at a k - 0x80000000"
proof -
  have v: "0 \<le> seq_at a k \<and> seq_at a k < 0x80000000" using valid_seq_at [of a k] unfolding valid_seq_def .
  have "seq_at a k AND 0x80000000 = 0"
  proof (rule bit_eqI)
    fix n
    have "\<not> bit (seq_at a k) 31" using v by (simp add: bit_iff_odd)
    moreover have "bit (0x80000000 :: int) n \<longleftrightarrow> n = 31" using bit_exp_iff [of 31 n, where 'a = int] by auto
    ultimately show "bit (seq_at a k AND 0x80000000) n \<longleftrightarrow> bit (0 :: int) n" by (auto simp: bit_and_iff)
  qed
  then have "seq_at a k OR 0x80000000 = seq_at a k + 0x80000000"
    using plus_and_or [of "seq_at a k" "0x80000000"] by simp
  then have "(word_of_int (seq_at a k OR 0x80000000) :: uint32) = word_of_int (seq_at a k - 0x80000000)"
    by (simp add: word_of_int_eq_iff take_bit_eq_mod mod_eq_dvd_iff)
  moreover have "fits_int32 (seq_at a k - 0x80000000)" using v unfolding fits_int32_def by linarith
  ultimately show ?thesis using sint_word_of_int32 [of "seq_at a k - 0x80000000"] by simp
qed

lemma send_gap:
  assumes s: "send_nak (Some (words_bytes [seq_at isn i OR 0x80000000, seq_at isn j])) (if seq_at isn i = seq_at isn j then 1 else 2) u = Some v"
    and ij: "i \<le> j" "j - i < m_iSeqNoTH" and m: "{i..j} \<subseteq> missing R"
  shows "tells isn R u v"
proof -
  have eq: "seq_at isn i = seq_at isn j \<longleftrightarrow> i = j" using ij by (intro seq.shift_inj) simp
  have range: "seq_range (seq_at isn i) (seq_at isn j) = seq_at isn ` {i..j}" by (rule seq_range_at [OF ij])
  define d where "d = (if i = j then [seq_at isn j] else [seq_at isn i OR 0x80000000, seq_at isn j])"
  have two: "drop 4 (words_bytes [x, y]) = words_bytes [y]" for x y by (simp add: words_bytes_def)
  obtain w where w: "pack_and_send 3 None (Some (words_bytes d)) (4 * int (length d)) u = Some w" "v = count_nak w"
    using s by (auto simp: send_nak_def eq two d_def split: if_splits)
  obtain p where p: "w = emit (SendTo (the (u_PeerAddr u)) p) u" "getType p = 3" "iov_len p = 4 * int (length d)"
      "\<forall>n<length d. word_at p n = sint (word_of_int (d ! n) :: uint32)"
    using sent_words [OF w(1)] by auto
  have "packet_words p = map (\<lambda>n. sint (word_of_int (d ! n) :: uint32)) [0..<length d]"
    using p(3,4) by (auto simp: packet_words_def)
  then have "packet_words p = (if i = j then [seq_at isn j] else [seq_at isn i - 0x80000000, seq_at isn j])"
    by (simp add: d_def nak_word numeral_2_eq_2)
  moreover have b: "0 \<le> seq_at isn x \<and> seq_at isn x < 0x80000000" for x using valid_seq_at [of isn x] unfolding valid_seq_def .
  have "\<not> seq_at isn j < 0" "seq_at isn i - 0x80000000 < 0" using b [of i] b [of j] by linarith+
  ultimately have "reported (packet_words p) \<subseteq> seq_at isn ` {i..j}"
    using ij range by auto
  then have "true_of isn R (Missing (reported (packet_words p)))" using m by auto
  then show ?thesis
    using p(1,2) w(2) by (auto simp: tells_def truthful_def emit_def count_nak_def)
qed

end
