(* ===== verification/ReceiverData.thy ===== *)
theory ReceiverData imports ReceiverSteps begin

text \<open>
  Data packets (\<open>processData\<close> of \<open>core.cpp\<close>) as steps of the abstract receiver: what arrives, the gaps it opens or
  closes, and the report it sends.
\<close>

section \<open>Data\<close>

lemma note_arrival_same: "note_arrival us tk p u = Some v \<Longrightarrow> same_receiver u v \<and> u_Out v = u_Out u \<and> u_PayloadSize v = u_PayloadSize u"
  by (auto simp: note_arrival_def Let_def same_receiver_def split: bind_splits)

text \<open>A number beyond the next one expected opens a gap, which is reported at once.\<close>

lemma detect_loss_step:
  assumes d: "detect_loss us tk (seq_at isn k) u = Some v"
    and u: "u_RcvCurrSeqNo u = seq_at isn (n - 1)" "u_RcvLossList u = Some l" "CRcvLossList_inv l" "rlost_set l = seq_at isn ` X"
      "X \<subseteq> {a..<n}" "a \<le> n" "a \<le> k" "k - a < rl_Size l" "n - a \<le> rl_Size l" "{n..<k} \<subseteq> missing R"
  shows "tells isn R u v \<and> u_RcvBuffer v = u_RcvBuffer u \<and> u_RcvLastAck v = u_RcvLastAck u \<and> u_RcvCurrSeqNo v = u_RcvCurrSeqNo u \<and>
    (\<exists>l'. u_RcvLossList v = Some l' \<and> CRcvLossList_inv l' \<and> rlost_set l' = seq_at isn ` (X \<union> {n..<k}) \<and> rl_Size l' = rl_Size l)"
proof -
  have cap: "2 * rl_Size l < m_iSeqNoTH" using rcv_gaps.cap_bound [OF u(3)] by simp
  have near: "\<bar>k - n\<bar> < m_iSeqNoTH" using u(6-9) cap by linarith
  have inc: "incseq (u_RcvCurrSeqNo u) = seq_at isn n" by (simp add: u(1) incseq_at)
  show ?thesis
  proof (cases "n < k")
    case False
    then have "v = u" using d near by (simp add: detect_loss_def inc seq.cmp_window_gt)
    moreover have "{n..<k} = {}" using False by simp
    ultimately show ?thesis using u(2-4) tells_quiet by simp
  next
    case True
    have dec: "decseq (seq_at isn k) = seq_at isn (k - 1)" by (simp add: decseq_seq_at)
    let ?u = "u\<lparr>u_RcvLossList := Some (CRcvLossList_insert (seq_at isn n) (seq_at isn (k - 1)) l)\<rparr>"
    obtain w where w: "CUDT_sendCtrl us tk 3 None (Some (words_bytes [seq_at isn n OR 0x80000000, seq_at isn (k - 1)]))
        (if seq_at isn n = seq_at isn (k - 1) then 1 else 2) ?u = Some w"
        and v: "same_receiver w v" "u_Out v = u_Out w"
      using d True near u(2) by (auto simp: detect_loss_def Let_def inc dec seq.cmp_window_gt same_receiver_def split: bind_splits)
    obtain x where x: "send_nak (Some (words_bytes [seq_at isn n OR 0x80000000, seq_at isn (k - 1)]))
        (if seq_at isn n = seq_at isn (k - 1) then 1 else 2) ?u = Some x" "next_nak_interval x = Some w"
      using w by (auto simp: CUDT_sendCtrl_def split: bind_splits)
    have range: "{n..k - 1} = {n..<k}" by auto
    have "tells isn R ?u x" by (rule send_gap [OF x(1)]) (use True near u(10) range in auto)
    moreover have "u_Out w = u_Out x" using x(2) by (auto simp: next_nak_interval_def Let_def split: bind_splits)
    ultimately have "tells isn R u v" using v(2) by (simp add: tells_def)
    moreover have "same_receiver ?u v" using sendCtrl_recv [OF w] v(1) same_receiver_trans by simp
    moreover have "CRcvLossList_inv (CRcvLossList_insert (seq_at isn n) (seq_at isn (k - 1)) l) \<and>
        rlost_set (CRcvLossList_insert (seq_at isn n) (seq_at isn (k - 1)) l) = seq_at isn ` (X \<union> {n..k - 1}) \<and>
        rl_Size (CRcvLossList_insert (seq_at isn n) (seq_at isn (k - 1)) l) = rl_Size l"
      by (rule rcv_gaps.add_at [OF u(3,4,5,6)]) (use True u(8) in auto)
    ultimately show ?thesis by (simp add: same_receiver_def range)
  qed
qed

lemma advance_received_step:
  assumes a: "advance_received (seq_at isn k) u = Some v"
    and u: "u_RcvCurrSeqNo u = seq_at isn (n - 1)" "u_RcvLossList u = Some l" "CRcvLossList_inv l" "rlost_set l = seq_at isn ` X"
      "X \<subseteq> {a..<max n k}" "a \<le> n" "a \<le> k" "k - a < rl_Size l" "n - a \<le> rl_Size l"
  shows "u_Out v = u_Out u \<and> u_RcvBuffer v = u_RcvBuffer u \<and> u_RcvLastAck v = u_RcvLastAck u \<and>
    u_RcvCurrSeqNo v = seq_at isn (max n (k + 1) - 1) \<and>
    (\<exists>l'. u_RcvLossList v = Some l' \<and> CRcvLossList_inv l' \<and> rlost_set l' = seq_at isn ` (X - {k}) \<and> rl_Size l' = rl_Size l)"
proof -
  have cap: "2 * rl_Size l < m_iSeqNoTH" using rcv_gaps.cap_bound [OF u(3)] by simp
  have near: "\<bar>k - (n - 1)\<bar> < m_iSeqNoTH" using u(6-9) cap by linarith
  show ?thesis
  proof (cases "n \<le> k")
    case True
    then have "v = u\<lparr>u_RcvCurrSeqNo := seq_at isn k\<rparr>" using a near by (simp add: advance_received_def u(1) seq.cmp_window_gt)
    moreover have "X - {k} = X" "max n (k + 1) - 1 = k" using True u(5) by auto
    ultimately show ?thesis using u(2-4) by simp
  next
    case False
    have X: "X \<subseteq> {a..<n}" using False u(5) by (simp add: max_def)
    have "\<exists>l'. CRcvLossList_remove (seq_at isn k) l = Some (k \<in> X, l') \<and> CRcvLossList_inv l' \<and> rlost_set l' = seq_at isn ` (X - {k}) \<and>
        rl_Size l' = rl_Size l"
      by (rule rcv_gaps.del_at [OF u(3,4) X]) (use False u in auto)
    then show ?thesis using a near False by (auto simp: advance_received_def u(1,2) seq.cmp_window_gt)
  qed
qed

text \<open>A packet that is not stored changes nothing but the buffer's mark; one that is stored is taken in at its position.\<close>

definition take_in :: "int \<Rightarrow> receiver_spec \<Rightarrow> receiver_spec" where
  "take_in k R = R\<lparr>rs_Got := insert k (rs_Got R), rs_Next := max (rs_Next R) (k + 1)\<rparr>"

definition position_of :: "receiver_spec \<Rightarrow> CUDT \<Rightarrow> int32 \<Rightarrow> int" where
  "position_of R u s = rs_Acked R + seqoff (u_RcvLastAck u) s"

lemma processData_outcome:
  assumes r: "receives isn R u" and p: "CUDT_processData us tk unit u pool = Some (r, v, pool')"
    and s: "valid_seq (m_iSeqNo (m_Packet (unit_at pool unit)))"
  shows "\<exists>k R' b b'. k = position_of R u (m_iSeqNo (m_Packet (unit_at pool unit))) \<and> m_iSeqNo (m_Packet (unit_at pool unit)) = seq_at isn k \<and>
    R' = (if r = 0 then take_in k R else R) \<and> (r = 0 \<longrightarrow> rs_Acked R \<le> k) \<and> receives isn R' v \<and> tells isn R' u v \<and>
    u_RcvBuffer u = Some b \<and> u_RcvBuffer v = Some b' \<and>
    (r \<noteq> 0 \<and> b' = b \<and> pool' = pool \<or> 0 \<le> k - rs_Acked R \<and> k - rs_Acked R < CRcvBuffer_getAvailBufSize b \<and>
       (\<exists>x. CRcvBuffer_addData unit (k - rs_Acked R) b pool = (x, b', pool') \<and> (r = 0 \<longleftrightarrow> x = 0)))"
proof -
  let ?p = "m_Packet (unit_at pool unit)"
  obtain l b where d: "valid_seq isn" "covered_to R (rs_Acked R)" "u_RcvLastAck u = seq_at isn (rs_Acked R)"
    "u_RcvCurrSeqNo u = seq_at isn (rs_Next R - 1)" "u_RcvLossList u = Some l" "CRcvLossList_inv l"
    "rlost_set l = seq_at isn ` missing R" "rs_Next R - rs_Acked R \<le> rl_Size l" "u_RcvBuffer u = Some b" "rb_inv b"
    "rb_Size b \<le> rl_Size l" "missing R \<subseteq> {rs_Acked R..<rs_Next R}" "0 \<le> rs_Acked R" "rs_Acked R \<le> rs_Next R"
    "rs_Got R \<union> rs_Dropped R \<subseteq> {..<rs_Next R}" using r by (rule receivesD)
  define k where "k = rs_Acked R + seqoff (u_RcvLastAck u) (m_iSeqNo ?p)"
  have kp: "position_of R u (m_iSeqNo ?p) = k" by (simp add: k_def position_of_def)
  have k: "m_iSeqNo ?p = seq_at isn k" using seqoff_at [of "u_RcvLastAck u" "m_iSeqNo ?p"] s by (simp add: k_def d(3))
  obtain w where w: "note_arrival us tk ?p u = Some w" using p by (auto simp: CUDT_processData_def Let_def split: bind_splits)
  note ws = note_arrival_same [OF w]
  have wr: "receives isn R w" "u_Out w = u_Out u" "u_RcvBuffer w = Some b" "u_RcvLastAck w = u_RcvLastAck u"
    using ws receives_same [OF r] d(9) by (auto simp: same_receiver_def)
  let ?off = "k - rs_Acked R"
  have off: "seqoff (u_RcvLastAck w) (m_iSeqNo ?p) = ?off" by (simp add: k_def wr(4))
  obtain r1 b1 pool1 where a: "CRcvBuffer_addData unit ?off b pool = (r1, b1, pool1)" by (metis prod_cases3)
  consider "r = - 1" "v = w" "pool' = pool" | "r = - 1" "0 \<le> ?off" "?off < CRcvBuffer_getAvailBufSize b" "r1 < 0" "v = w\<lparr>u_RcvBuffer := Some b1\<rparr>" "pool' = pool1"
    | x y where "r = 0" "\<not> r1 < 0" "pool' = pool1" "0 \<le> ?off" "?off < CRcvBuffer_getAvailBufSize b" "detect_loss us tk (seq_at isn k) (w\<lparr>u_RcvBuffer := Some b1\<rparr>) = Some x"
        "advance_received (seq_at isn k) y = Some v" "same_receiver x y" "u_Out y = u_Out x"
  proof -
    have core: "(if ?off < 0 \<or> CRcvBuffer_getAvailBufSize b \<le> ?off then Some (- 1, w, pool)
        else if r1 < 0 then Some (- 1, w\<lparr>u_RcvBuffer := Some b1\<rparr>, pool1)
        else Option.bind (detect_loss us tk (seq_at isn k) (w\<lparr>u_RcvBuffer := Some b1\<rparr>))
          (\<lambda>x. Option.bind (advance_received (seq_at isn k) (if getLength ?p \<noteq> u_PayloadSize x then x\<lparr>u_NextACKTime := tk\<rparr> else x))
            (\<lambda>y. Some (0, y, pool1)))) = Some (r, v, pool')"
      using p unfolding CUDT_processData_def Let_def w Option.bind.bind_lunit off wr(3) option.sel a prod.case
      unfolding k .
    consider "?off < 0 \<or> CRcvBuffer_getAvailBufSize b \<le> ?off" | "0 \<le> ?off" "?off < CRcvBuffer_getAvailBufSize b" "r1 < 0"
      | "0 \<le> ?off" "?off < CRcvBuffer_getAvailBufSize b" "\<not> r1 < 0" by linarith
    then show thesis
    proof cases
      case 1
      have "r = - 1 \<and> v = w \<and> pool' = pool" using core unfolding if_P [OF 1] by simp
      then show ?thesis using that(1) by blast
    next
      case 2
      then have "r = - 1 \<and> v = w\<lparr>u_RcvBuffer := Some b1\<rparr> \<and> pool' = pool1" using core by simp
      then show ?thesis using that(2) 2 by blast
    next
      case 3
      then have "Option.bind (detect_loss us tk (seq_at isn k) (w\<lparr>u_RcvBuffer := Some b1\<rparr>))
          (\<lambda>x. Option.bind (advance_received (seq_at isn k) (if getLength ?p \<noteq> u_PayloadSize x then x\<lparr>u_NextACKTime := tk\<rparr> else x))
            (\<lambda>y. Some (0, y, pool1))) = Some (r, v, pool')" using core by simp
      then obtain x where x: "detect_loss us tk (seq_at isn k) (w\<lparr>u_RcvBuffer := Some b1\<rparr>) = Some x"
        "advance_received (seq_at isn k) (if getLength ?p \<noteq> u_PayloadSize x then x\<lparr>u_NextACKTime := tk\<rparr> else x) = Some v" "r = 0" "pool' = pool1"
        by (auto simp: bind_eq_Some_conv simp del: if_split)
      show ?thesis by (rule that(3) [OF x(3) 3(3) x(4) 3(1,2) x(1,2)]) (simp_all add: same_receiver_def)
    qed
  qed
  then show ?thesis
  proof cases
    case 1
    then show ?thesis using k kp wr d(9) tells_quiet by (intro exI [of _ k] exI [of _ R] exI [of _ b]) simp
  next
    case 2
    have "receives isn R v" using wr(1,3) 2(2) addData_keeps [OF a d(10)] by (auto simp: 2(5) receives_def)
    then show ?thesis using k kp 2 wr(2) d(9) a tells_quiet by (intro exI [of _ k] exI [of _ R] exI [of _ b] exI [of _ b1]) simp
  next
    case 3
    define n where "n = rs_Next R"
    define R' where "R' = take_in k R"
    note st = 3(4-9)
    have b1: "rb_inv b1" "rb_Size b1 = rb_Size b" "r1 = 0" using addData_keeps [OF a d(10) st(1)] 3(2) by auto
    have ks: "rs_Acked R \<le> k" "k - rs_Acked R < rl_Size l" using st(1,2) avail_less [OF d(10)] d(11) by linarith+
    have m: "missing R' = (missing R \<union> {n..<k}) - {k}" "{n..<k} \<subseteq> missing R'"
      using ks(1) d(13-15) by (auto simp: missing_def R'_def take_in_def n_def)
    note dl = detect_loss_step [OF st(3), of n l "missing R" "rs_Acked R" R']
    obtain l1 where x: "tells isn R' (w\<lparr>u_RcvBuffer := Some b1\<rparr>) x" "u_RcvBuffer x = Some b1" "u_RcvLastAck x = u_RcvLastAck u"
        "u_RcvCurrSeqNo x = seq_at isn (n - 1)" "u_RcvLossList x = Some l1" "CRcvLossList_inv l1"
        "rlost_set l1 = seq_at isn ` (missing R \<union> {n..<k})" "rl_Size l1 = rl_Size l"
      using dl d(4-8,12,14) ks m(2) ws wr(4) by (auto simp: n_def same_receiver_def)
    have y: "u_RcvCurrSeqNo y = seq_at isn (n - 1)" "u_RcvLossList y = Some l1" "rs_Acked R \<le> n"
      using st(5) x(4,5) d(14) by (auto simp: same_receiver_def n_def)
    have "missing R \<subseteq> {rs_Acked R..<max n k}" using d(12) by (rule subset_trans) (auto simp: n_def)
    then have X: "missing R \<union> {n..<k} \<subseteq> {rs_Acked R..<max n k}" using d(14) by (auto simp: n_def)
    obtain l2 where v: "u_Out v = u_Out y" "u_RcvBuffer v = u_RcvBuffer y" "u_RcvLastAck v = u_RcvLastAck y"
        "u_RcvCurrSeqNo v = seq_at isn (max n (k + 1) - 1)" "u_RcvLossList v = Some l2" "CRcvLossList_inv l2"
        "rlost_set l2 = seq_at isn ` missing R'" "rl_Size l2 = rl_Size l"
      using advance_received_step [OF st(4) y(1,2) x(6,7) X y(3) ks(1)] ks(2) d(8) by (auto simp: x(8) n_def m(1))
    have "covered_to R' (rs_Acked R)" using d(2) by (auto simp: covered_to_def R'_def take_in_def)
    moreover have "rs_Got R' \<union> rs_Dropped R' \<subseteq> {..<rs_Next R'}" using d(15) by (auto simp: R'_def take_in_def)
    ultimately have rc: "receives isn R' v"
      using v x(2,3) d(1,3,8,11) b1 st(5) ks(2) by (auto simp: receives_def same_receiver_def n_def R'_def take_in_def)
    have "u_RcvBuffer v = Some b1" using v(2) x(2) st(5) by (simp add: same_receiver_def)
    moreover have "tells isn R' u v" using x(1) v(1) st(6) wr(2) by (simp add: tells_def)
    ultimately show ?thesis
      using k kp rc ks(1) 3(1,3) st(1,2) a b1(3) d(9) by (intro exI [of _ k] exI [of _ R'] exI [of _ b] exI [of _ b1]) (simp add: R'_def)
  qed
qed

lemma processData_step:
  assumes "receives isn R u" "CUDT_processData us tk unit u pool = Some (r, v, pool')" "valid_seq (m_iSeqNo (m_Packet (unit_at pool unit)))"
  shows "\<exists>R'. rspec_step isn R (Data (m_iSeqNo (m_Packet (unit_at pool unit))) (r = 0)) R' \<and> receives isn R' v \<and> tells isn R' u v"
proof -
  obtain k R' where "m_iSeqNo (m_Packet (unit_at pool unit)) = seq_at isn k" "R' = (if r = 0 then take_in k R else R)" "r = 0 \<longrightarrow> rs_Acked R \<le> k"
      "receives isn R' v" "tells isn R' u v" using processData_outcome [OF assms] by blast
  then show ?thesis
    using rspec_data [of R k isn] rspec_refused [of isn R] by (intro exI [of _ R']) (simp add: take_in_def)
qed

end
