(* ===== verification/ReceiverDrop.thy ===== *)
theory ReceiverDrop imports ReceiverData begin

text \<open>
  Requests to drop a message (\<open>processCtrl\<close> of \<open>core.cpp\<close>) as steps of the abstract receiver. \<open>remove2\<close> takes the
  numbers of a range out of the loss list one at a time.
\<close>

section \<open>Removing a range\<close>

lemma remove_one_at:
  assumes l: "CRcvLossList_inv l" "rlost_set l = seq_at a ` X" and w: "X \<subseteq> {p..<p + rl_Size l}" "p - 0x10000000 < x" "x < p + rl_Size l"
  shows "\<exists>r l'. CRcvLossList_remove (seq_at a x) l = Some (r, l') \<and> CRcvLossList_inv l' \<and> rlost_set l' = seq_at a ` (X - {x}) \<and>
    rl_Size l' = rl_Size l"
proof (cases "p \<le> x")
  case True
  then show ?thesis using rcv_gaps.del_at [OF l w(1) _ True w(3)] by auto
next
  case False
  then have X: "X - {x} = X" using w(1) by auto
  show ?thesis
  proof (cases "X = {}")
    case True
    then have "rl_Length l = 0" using rcv_gaps.count_zero [OF l] by (simp add: CRcvLossList_getLossLength_def)
    then have "CRcvLossList_remove (seq_at a x) l = Some (False, l)" by (simp add: CRcvLossList_remove_def)
    then show ?thesis using l X by (intro exI [of _ False] exI [of _ l]) simp
  next
    case ne: False
    obtain i where i: "i \<in> X" "CRcvLossList_getFirstLostSeq l = seq_at a i" using rcv_gaps.least_at [OF l w(1) _ ne] by auto
    have "rl_Length l \<noteq> 0" using rcv_gaps.count_zero [OF l] ne by (simp add: CRcvLossList_getLossLength_def)
    then have h: "rdata1 l (rl_Head l) = seq_at a i" using i(2) by (simp add: CRcvLossList_getFirstLostSeq_def)
    have "\<bar>x - i\<bar> < m_iSeqNoTH" using i(1) w False rcv_gaps.cap_bound [OF l(1)] by (force simp: serial_consts)
    then have "seqoff (seq_at a i) (seq_at a x) < 0" using i(1) w(1) False by (force simp: seq.off_window)
    then have "CRcvLossList_remove (seq_at a x) l = Some (False, l)" using \<open>rl_Length l \<noteq> 0\<close> by (simp add: CRcvLossList_remove_def h)
    then show ?thesis using l X by (intro exI [of _ False] exI [of _ l]) simp
  qed
qed

lemma remove_from_at:
  assumes "rl_remove_from (seq_at a x) hi l = Some l'" "CRcvLossList_inv l" "rlost_set l = seq_at a ` X" "X \<subseteq> {p..<p + rl_Size l}"
    "p - 0x10000000 < x" "x + (hi - seq_at a x) < p + rl_Size l" "hi < 0x80000000" "seq_at a x \<le> hi + 1"
  shows "CRcvLossList_inv l' \<and> rlost_set l' = seq_at a ` (X - {x..x + (hi - seq_at a x)}) \<and> rl_Size l' = rl_Size l"
  using assms
proof (induction "nat (hi + 1 - seq_at a x)" arbitrary: x l X)
  case 0
  then have e: "seq_at a x = hi + 1" by linarith
  then have "l' = l" using 0(2) by (simp add: rl_remove_from.simps)
  then show ?case using 0 e by simp
next
  case (Suc n)
  then have lt: "seq_at a x \<le> hi" by linarith
  obtain r l1 where l1: "CRcvLossList_remove (seq_at a x) l = Some (r, l1)" "CRcvLossList_inv l1" "rlost_set l1 = seq_at a ` (X - {x})"
      "rl_Size l1 = rl_Size l"
    using remove_one_at [OF Suc.prems(2-5)] Suc.prems(6) lt by auto
  have rec: "seq_at a x \<noteq> 0x7FFFFFFF" "rl_remove_from (seq_at a x + 1) hi l1 = Some l'"
    using Suc.prems(1) lt by (simp_all add: rl_remove_from.simps [of "seq_at a x"] l1(1) split: if_splits)
  have nx: "seq_at a (x + 1) = seq_at a x + 1"
    using incseq_at [of a "x + 1"] rec(1) by (simp add: incseq_def serial_consts)
  have "CRcvLossList_inv l' \<and> rlost_set l' = seq_at a ` (X - {x} - {x + 1..x + 1 + (hi - seq_at a (x + 1))}) \<and> rl_Size l' = rl_Size l1"
  proof (rule Suc.hyps(1))
    show "n = nat (hi + 1 - seq_at a (x + 1))" using Suc.hyps(2) unfolding nx by linarith
    show "rl_remove_from (seq_at a (x + 1)) hi l1 = Some l'" using rec(2) unfolding nx .
    show "X - {x} \<subseteq> {p..<p + rl_Size l1}" using Suc.prems(4) l1(4) by auto
    show "p - 0x10000000 < x + 1" using Suc.prems(5) by linarith
    show "x + 1 + (hi - seq_at a (x + 1)) < p + rl_Size l1" using Suc.prems(6) unfolding nx l1(4) by linarith
    show "seq_at a (x + 1) \<le> hi + 1" using lt unfolding nx by linarith
  qed (rule l1(2,3) Suc.prems(7))+
  moreover have "X - {x} - {x + 1..x + 1 + (hi - seq_at a (x + 1))} = X - {x..x + (hi - seq_at a x)}"
    using lt unfolding nx by auto
  ultimately show ?case using l1(4) by simp
qed

text \<open>What \<open>remove2\<close> takes out: the range, but not \<open>0x7FFFFFFF\<close> when the range passes it.\<close>

definition range_removed :: "int32 \<Rightarrow> int \<Rightarrow> int \<Rightarrow> int set" where
  "range_removed a i j = {x \<in> {i..j}. seq_at a i \<le> seq_at a j \<or> seq_at a x \<noteq> 0x7FFFFFFF}"

lemma seq_at_far:
  assumes "i \<le> j" "j - i \<le> 0x80000000"
  shows "seq_at a j = (if seq_at a i + (j - i) < 0x80000000 then seq_at a i + (j - i) else seq_at a i + (j - i) - 0x80000000)"
proof -
  have "seq_at a j = seq_at (seq_at a i) (j - i)" by simp
  also have "\<dots> = (if seq_at a i + (j - i) < 0x80000000 then seq_at a i + (j - i) else seq_at a i + (j - i) - 0x80000000)"
    using assms shift_cases [of "seq_at a i" "0x80000000" "j - i"] seq.shift_valid(1) [of a i]
    by (simp del: shift_shift)
  finally show ?thesis .
qed

lemma range_removed_cases:
  assumes "i \<le> j" "j - i < m_iSeqNoTH"
  shows "seq_at a i \<le> seq_at a j \<Longrightarrow> j = i + (seq_at a j - seq_at a i) \<and> range_removed a i j = {i..j}"
    and "\<not> seq_at a i \<le> seq_at a j \<Longrightarrow> seq_at a (i + (0x80000000 - seq_at a i)) = 0 \<and>
      j = i + (0x80000000 - seq_at a i) + seq_at a j \<and>
      range_removed a i j = {i..i + (0x7FFFFFFE - seq_at a i)} \<union> {i + (0x80000000 - seq_at a i)..j}"
proof -
  note far = seq_at_far [of i, where a = a]
  have r: "0 \<le> seq_at a i" "seq_at a i < 0x80000000" by simp_all
  {
    assume "seq_at a i \<le> seq_at a j"
    then show "j = i + (seq_at a j - seq_at a i) \<and> range_removed a i j = {i..j}"
      using far [of j] assms by (auto simp: range_removed_def serial_consts split: if_splits)
  }
  assume n: "\<not> seq_at a i \<le> seq_at a j"
  have z: "seq_at a (i + (0x80000000 - seq_at a i)) = 0" using far [of "i + (0x80000000 - seq_at a i)"] r by simp
  have j: "j = i + (0x80000000 - seq_at a i) + seq_at a j" using far [of j] assms n by (auto simp: serial_consts split: if_splits)
  have "seq_at a x \<noteq> 0x7FFFFFFF \<longleftrightarrow> x \<noteq> i + (0x7FFFFFFF - seq_at a i)" if x: "x \<in> {i..j}" for x
  proof -
    have "i \<le> x" "x - i < 0x3FFFFFFF" using x assms by (auto simp: serial_consts)
    then have "seq_at a x = (if seq_at a i + (x - i) < 0x80000000 then seq_at a i + (x - i) else seq_at a i + (x - i) - 0x80000000)"
      by (intro far) linarith+
    then show ?thesis using r(2) \<open>x - i < 0x3FFFFFFF\<close>
      by (cases "seq_at a i + (x - i) < 0x80000000"; simp only: if_True if_False; linarith)
  qed
  then have "range_removed a i j = {x \<in> {i..j}. x \<noteq> i + (0x7FFFFFFF - seq_at a i)}" using n by (auto simp: range_removed_def)
  also have "\<dots> = {i..i + (0x7FFFFFFE - seq_at a i)} \<union> {i + (0x80000000 - seq_at a i)..j}"
  proof -
    define c where "c = i + (0x7FFFFFFF - seq_at a i)"
    have "i \<le> c" "c < j" using r j seq.shift_valid(1) [of a j] unfolding c_def by linarith+
    then have "{x \<in> {i..j}. x \<noteq> c} = {i..c - 1} \<union> {c + 1..j}" by auto
    moreover have "c - 1 = i + (0x7FFFFFFE - seq_at a i)" "c + 1 = i + (0x80000000 - seq_at a i)" unfolding c_def by linarith+
    ultimately show ?thesis by (simp only: c_def [symmetric])
  qed
  finally show "seq_at a (i + (0x80000000 - seq_at a i)) = 0 \<and> j = i + (0x80000000 - seq_at a i) + seq_at a j \<and>
      range_removed a i j = {i..i + (0x7FFFFFFE - seq_at a i)} \<union> {i + (0x80000000 - seq_at a i)..j}"
    using z j by blast
qed

lemma remove2_at:
  assumes r: "CRcvLossList_remove2 (seq_at a i) (seq_at a j) l = Some (ok, l')" and l: "CRcvLossList_inv l" "rlost_set l = seq_at a ` X"
    and w: "X \<subseteq> {p..<p + rl_Size l}" "p - 0x10000000 < i" "i \<le> j" "j < p + rl_Size l"
  shows "CRcvLossList_inv l' \<and> rlost_set l' = seq_at a ` (X - range_removed a i j) \<and> rl_Size l' = rl_Size l"
proof -
  have near: "j - i < m_iSeqNoTH" using w(2-4) rcv_gaps.cap_bound [OF l(1)] by (simp add: serial_consts)
  note cs = range_removed_cases [OF w(3) near, of a]
  have v: "0 \<le> seq_at a x \<and> seq_at a x < 0x80000000" for x by simp
  show ?thesis
  proof (cases "seq_at a i \<le> seq_at a j")
    case True
    have "rl_remove_from (seq_at a i) (seq_at a j) l = Some l'" using r True by (auto simp: CRcvLossList_remove2_def)
    from remove_from_at [OF this l w(1,2)] show ?thesis using cs(1) [OF True] True w(4) v by simp
  next
    case False
    let ?z = "i + (0x80000000 - seq_at a i)"
    note z = cs(2) [OF False]
    obtain l1 where l1: "rl_remove_from (seq_at a i) 0x7FFFFFFE l = Some l1" "rl_remove_from 0 (seq_at a j) l1 = Some l'"
      using r False by (auto simp: CRcvLossList_remove2_def bind_eq_Some_conv serial_consts)
    have b: "?z \<le> j" using z v [of j] by linarith
    have 1: "CRcvLossList_inv l1 \<and> rlost_set l1 = seq_at a ` (X - {i..i + (0x7FFFFFFE - seq_at a i)}) \<and> rl_Size l1 = rl_Size l"
      by (rule remove_from_at [OF l1(1) l w(1,2)]) (use b w(4) v [of i] in linarith)+
    have "rl_remove_from (seq_at a ?z) (seq_at a j) l1 = Some l'" using l1(2) z by simp
    moreover have "X - {i..i + (0x7FFFFFFE - seq_at a i)} \<subseteq> {p..<p + rl_Size l1}" using w(1) 1 by auto
    moreover have "?z + (seq_at a j - seq_at a ?z) = j" using z by linarith
    moreover have "p - 0x10000000 < ?z" using w(2) v [of i] by linarith
    moreover have "seq_at a ?z \<le> seq_at a j + 1" using z v [of j] by linarith
    ultimately have "CRcvLossList_inv l' \<and> rlost_set l' = seq_at a ` (X - {i..i + (0x7FFFFFFE - seq_at a i)} - {?z..j}) \<and> rl_Size l' = rl_Size l1"
      using remove_from_at [of a ?z "seq_at a j" l1 l' "X - {i..i + (0x7FFFFFFE - seq_at a i)}" p] 1 w(4) v [of j] by simp
    moreover have "X - {i..i + (0x7FFFFFFE - seq_at a i)} - {?z..j} = X - range_removed a i j" using z by auto
    ultimately show ?thesis using 1 by simp
  qed
qed

section \<open>A request to drop\<close>

text \<open>The range a peer asks to drop starts at most \<open>2^28\<close> packets before the last one acknowledged and ends
  within the size of the loss list after it.\<close>

definition fair_drop :: "CPacket \<Rightarrow> CUDT \<Rightarrow> bool" where
  "fair_drop p u \<longleftrightarrow> valid_seq (word_at p 0) \<and> valid_seq (word_at p 1) \<and>
     - 0x10000000 < seqoff (u_RcvLastAck u) (word_at p 0) \<and>
     seqoff (u_RcvLastAck u) (word_at p 0) \<le> seqoff (u_RcvLastAck u) (word_at p 1) \<and>
     seqoff (u_RcvLastAck u) (word_at p 1) < rl_Size (the (u_RcvLossList u))"

lemma drop_request_outcome:
  assumes r: "receives isn R u" and p: "drop_request p u pool = Some (v, pool')" and f: "fair_drop p u"
  shows "\<exists>R'. rspec_step isn R (Drop (word_at p 0) (word_at p 1)) R' \<and> receives isn R' v \<and> tells isn R' u v \<and>
    rs_Got R' = rs_Got R \<and> rs_Acked R' = rs_Acked R \<and> rs_Next R' \<le> max (rs_Next R) (position_of R u (word_at p 1) + 1) \<and>
    u_RcvBuffer v = u_RcvBuffer u \<and> (\<exists>b. u_RcvBuffer u = Some b \<and> CRcvBuffer_dropMsg (getMsgSeq p) b pool = Some pool')"
proof -
  obtain l b where d: "valid_seq isn" "covered_to R (rs_Acked R)" "u_RcvLastAck u = seq_at isn (rs_Acked R)"
    "u_RcvCurrSeqNo u = seq_at isn (rs_Next R - 1)" "u_RcvLossList u = Some l" "CRcvLossList_inv l"
    "rlost_set l = seq_at isn ` missing R" "rs_Next R - rs_Acked R \<le> rl_Size l" "u_RcvBuffer u = Some b" "rb_inv b"
    "rb_Size b \<le> rl_Size l" "2 * rl_Size l < m_iSeqNoTH" "missing R \<subseteq> {rs_Acked R..<rs_Next R}" "0 \<le> rs_Acked R" "rs_Acked R \<le> rs_Next R"
    "rs_Got R \<union> rs_Dropped R \<subseteq> {..<rs_Next R}" using r by (rule receivesD)
  define i where "i = rs_Acked R + seqoff (u_RcvLastAck u) (word_at p 0)"
  define j where "j = rs_Acked R + seqoff (u_RcvLastAck u) (word_at p 1)"
  have ij: "word_at p 0 = seq_at isn i" "word_at p 1 = seq_at isn j" "rs_Acked R - 0x10000000 < i" "i \<le> j" "j < rs_Acked R + rl_Size l"
    using f seqoff_at [of "u_RcvLastAck u" "word_at p 0"] seqoff_at [of "u_RcvLastAck u" "word_at p 1"]
    by (simp_all add: fair_drop_def i_def j_def d(3,5))
  obtain ok l' where l': "CRcvLossList_remove2 (seq_at isn i) (seq_at isn j) l = Some (ok, l')"
    and v: "v = (let u = u\<lparr>u_RcvLossList := Some l'\<rparr> in
        if seqcmp (seq_at isn i) (seq_at isn (rs_Next R)) \<le> 0 \<and> seqcmp (seq_at isn j) (seq_at isn (rs_Next R - 1)) > 0
        then u\<lparr>u_RcvCurrSeqNo := seq_at isn j\<rparr> else u)"
    using p by (auto simp: drop_request_def ij(1,2) d(4,5) incseq_at Let_def simp del: One_nat_def split: bind_splits)
  have "missing R \<subseteq> {rs_Acked R..<rs_Acked R + rl_Size l}" using d(8,13) by force
  note rm = remove2_at [OF l' d(6,7) this ij(3,4,5)]
  have near: "\<bar>i - rs_Next R\<bar> < m_iSeqNoTH" "\<bar>j - (rs_Next R - 1)\<bar> < m_iSeqNoTH"
    using ij d(8,12,15) by (auto simp: serial_consts abs_if)
  define n where "n = (if i \<le> rs_Next R \<and> rs_Next R - 1 < j then j + 1 else rs_Next R)"
  define D where "D = range_removed isn i j \<inter> missing R \<union> {rs_Next R..<n}"
  define R' where "R' = R\<lparr>rs_Dropped := rs_Dropped R \<union> D, rs_Next := n\<rparr>"
  have n: "rs_Next R \<le> n" "n \<le> max (rs_Next R) (j + 1)" "n - rs_Acked R \<le> rl_Size l"
    using ij(5) d(8) by (auto simp: n_def)
  have D: "D \<subseteq> {i..j} \<inter> {..<n}" "{rs_Next R..<n} \<subseteq> D"
    using d(13) n(1) by (auto simp: D_def n_def range_removed_def split: if_splits)
  have m: "missing R' = missing R - range_removed isn i j"
    using D n(1) d(14-16) by (auto simp: missing_def R'_def D_def)
  have "rspec_step isn R (Drop (word_at p 0) (word_at p 1)) R'"
    unfolding ij(1,2) R'_def by (rule rspec_drop [OF D(1) n(1,2) D(2)])
  moreover have "receives isn R' v"
  proof -
    have "covered_to R' (rs_Acked R)" using d(2) n(1) by (auto simp: covered_to_def R'_def)
    moreover have "rs_Got R' \<union> rs_Dropped R' \<subseteq> {..<rs_Next R'}" using d(16) D(1) n(1) by (auto simp: R'_def)
    moreover have "u_RcvCurrSeqNo v = seq_at isn (n - 1)"
      using near by (auto simp: v n_def Let_def d(4) seq.cmp_window_le seq.cmp_window_gt)
    moreover have "u_RcvLossList v = Some l'" "u_RcvLastAck v = u_RcvLastAck u" "u_RcvBuffer v = u_RcvBuffer u" by (simp_all add: v Let_def)
    ultimately show ?thesis using rm d(1,3,9-11) n(3) by (simp add: receives_def m) (simp add: R'_def)
  qed
  moreover have "tells isn R' u v" by (rule tells_quiet) (simp add: v Let_def)
  moreover have "rs_Got R' = rs_Got R" "rs_Acked R' = rs_Acked R" "rs_Next R' \<le> max (rs_Next R) (position_of R u (word_at p 1) + 1)"
    using n(2) by (simp_all add: R'_def position_of_def j_def)
  moreover have "u_RcvBuffer v = u_RcvBuffer u" by (simp add: v Let_def)
  moreover have "CRcvBuffer_dropMsg (getMsgSeq p) b pool = Some pool'"
    using p by (auto simp: drop_request_def d(9) Let_def split: bind_splits)
  ultimately show ?thesis using d(9) by blast
qed

lemma drop_request_step:
  assumes "receives isn R u" "drop_request p u pool = Some (v, pool')" "fair_drop p u"
  shows "\<exists>R'. rspec_step isn R (Drop (word_at p 0) (word_at p 1)) R' \<and> receives isn R' v \<and> tells isn R' u v"
  using drop_request_outcome [OF assms] by blast

end
