(* ===== verification/ReceiverSpec.thy ===== *)
theory ReceiverSpec imports ReceiverDrop SenderSpec begin

text \<open>
  Runs of a receiver (\<open>core.cpp\<close>): whatever a socket does from the handshake on refines the abstract receiver, and every
  acknowledgement and loss report it sends is true.
\<close>

section \<open>Timers and closing\<close>

lemma ack_timer_step:
  assumes r: "receives isn R u" and a: "ack_timer us tk u = Some v"
  shows "\<exists>k. acks isn R k u v"
proof -
  consider "v = u" | sz w where "sendCtrl_ack us tk sz u = Some w" "same_receiver w v" "u_Out v = u_Out w"
  proof -
    obtain w t n where w: "v = u \<or> (CUDT_sendCtrl us tk 2 None None n u = Some w \<and>
        (v = w\<lparr>u_NextACKTime := t, u_PktCount := 0, u_LightACKCount := 1\<rparr> \<or> v = w\<lparr>u_LightACKCount := u_LightACKCount w + 1\<rparr>))"
      using a unfolding ack_timer_def Let_def by (auto simp del: word_of_int_numeral split: if_split_asm)
    have "CUDT_sendCtrl us tk 2 None None n u = sendCtrl_ack us tk n u" by (simp add: CUDT_sendCtrl_def)
    then show thesis using w that by (auto simp: same_receiver_def)
  qed
  then show ?thesis
  proof cases
    case 1
    then show ?thesis using acks_none [OF r _ tells_quiet] by (intro exI [of _ "rs_Acked R"]) simp
  next
    case 2
    then show ?thesis using sendCtrl_ack_step [OF r 2(1)] acks_more [OF _ 2(2) tells_quiet] by blast
  qed
qed

lemma checkTimers_acks:
  assumes r: "receives isn R u" and c: "CUDT_checkTimers us tk u = Some v" and s: "sizes_ok u"
  shows "\<exists>k. acks isn R k u v"
proof -
  obtain w where w: "ack_timer us tk (CUDT_CCUpdate u) = Some w" "exp_timer us tk w = Some v"
    using c by (auto simp: CUDT_checkTimers_def split: bind_splits)
  have u: "wires {1, 2} u (CUDT_CCUpdate u)" "same_receiver u (CUDT_CCUpdate u)" "u_Out (CUDT_CCUpdate u) = u_Out u"
    by simp_all (simp add: CUDT_CCUpdate_def Let_def)
  obtain k where k: "acks isn R k (CUDT_CCUpdate u) w" using ack_timer_step [OF receives_same [OF r u(2)] w(1)] by blast
  have "wires {1, 2} (CUDT_CCUpdate u) w" by (rule ack_timer_wires [OF w(1) wires_sizes [OF u(1) s]]) simp
  then have "sizes_ok w" using wires_sizes u(1) s by blast
  then have q: "silent w v" using exp_timer_wires [OF w(2), of "{1}"] exp_timer_recv [OF w(2)] by (intro wires_silent) auto
  then have "acks isn R k (CUDT_CCUpdate u) v" using acks_more [OF k _ tells_silent [OF q]] by (simp add: silent_def)
  then show ?thesis using u(2,3) by (auto simp: acks_def tells_def same_receiver_def)
qed

lemma receiver_timers_step:
  assumes "receives isn R u" "CUDT_checkTimers us tk u = Some v" "sizes_ok u"
  shows "\<exists>R'. rspec_step isn R NoData R' \<and> receives isn R' v \<and> tells isn R' u v"
proof -
  obtain k where "acks isn R k u v" using checkTimers_acks [OF assms] by blast
  then show ?thesis using rspec_ack [of R k isn] by (intro exI [of _ "R\<lparr>rs_Acked := k\<rparr>"]) (simp add: acks_def tells_def)
qed

lemma close_recv:
  assumes "CUDT_close us tk garbage cache u = Some (v, cache')"
  shows "same_receiver u v"
proof (cases "u_Opened u")
  case True
  define w where "w = (emit RemoveUsock (emit (UpdateEvents (UDT_EPOLL_IN + UDT_EPOLL_OUT) True)
    (if u_Connected u then emit SndUList_remove u else u)))\<lparr>u_Closing := True\<rparr>"
  define x where "x = (if u_Listening w then emit RemoveListener (w\<lparr>u_Listening := False\<rparr>)
                else if u_Connecting w then emit RemoveConnector w else w)"
  have x: "same_receiver u x" by (simp add: x_def w_def same_receiver_def emit_def)
  have r: "map_option (\<lambda>(u, cache). (u\<lparr>u_Opened := False\<rparr>, cache))
            (if u_Connected x then do {
               u \<leftarrow> (if \<not> u_Shutdown x then CUDT_sendCtrl us tk 5 None None 0 x else Some x);
               let u = on_cc cc_close u;
               let ib = (info_key (the (u_PeerAddr u)) u)\<lparr>ib_RTT := u_RTT u, ib_Bandwidth := u_Bandwidth u\<rparr>;
               (_, cache) \<leftarrow> CCache_update garbage ib cache;
               Some (u\<lparr>u_Connected := False\<rparr>, cache)
             }
             else Some (x, cache)) = Some (v, cache')"
    using assms(1) True unfolding CUDT_close_def Let_def w_def [symmetric] x_def [symmetric] by simp
  show ?thesis
  proof (cases "u_Connected x")
    case con: True
    then obtain y where y: "(if \<not> u_Shutdown x then CUDT_sendCtrl us tk 5 None None 0 x else Some x) = Some y"
        "v = (on_cc cc_close y)\<lparr>u_Connected := False, u_Opened := False\<rparr>"
      using r by (auto simp: Let_def split: bind_splits simp del: if_split_asm)
    have "same_receiver x y" using y(1) sendCtrl_recv [of us tk 5 None None 0 x y] by (auto split: if_splits)
    moreover have "same_receiver y v" by (simp add: y(2) on_cc_def same_receiver_def)
    ultimately show ?thesis using x same_receiver_trans by blast
  next
    case False
    then have "same_receiver x v" using r by (auto simp: same_receiver_def)
    then show ?thesis using x same_receiver_trans by blast
  qed
qed (use assms(1) in \<open>simp add: CUDT_close_def\<close>)

section \<open>Every run\<close>

text \<open>A step has what came in and the effects it adds.\<close>

inductive receiver_op :: "CUDT \<Rightarrow> arrival \<Rightarrow> CUDT \<Rightarrow> bool" where
  recv_data: "CUDT_processData us tk ref u pool = Some (r, v, pool') \<Longrightarrow> s = m_iSeqNo (m_Packet (unit_at pool ref)) \<Longrightarrow> valid_seq s \<Longrightarrow>
    receiver_op u (Data s (r = 0)) v"
| recv_drop: "CUDT_processCtrl rand us tk p u pool = Some (v, pool') \<Longrightarrow> getType p = 7 \<Longrightarrow> fair_drop p u \<Longrightarrow>
    receiver_op u (Drop (word_at p 0) (word_at p 1)) v"
| recv_ctrl: "CUDT_processCtrl rand us tk p u pool = Some (v, pool') \<Longrightarrow> getType p \<noteq> 7 \<Longrightarrow> receiver_op u NoData v"
| recv_timers: "CUDT_checkTimers us tk u = Some v \<Longrightarrow> receiver_op u NoData v"
| recv_read: "CUDT_recvmsg len u pool = Some (r, v, pool') \<Longrightarrow> receiver_op u NoData v"
| recv_pack: "CUDT_packData us tk p ts u = Some (n, q, ts', v) \<Longrightarrow> receiver_op u NoData v"
| recv_sendmsg: "CUDT_sendmsg g mem us tk data len ttl order u = Some (r, v) \<Longrightarrow> receiver_op u NoData v"
| recv_close: "CUDT_close us tk garbage cache u = Some (v, cache') \<Longrightarrow> receiver_op u NoData v"

inductive receiver_run :: "CUDT \<Rightarrow> (arrival \<times> effect list) list \<Rightarrow> CUDT \<Rightarrow> bool" for u where
  recv_start: "receiver_run u [] u"
| recv_step: "receiver_run u es v \<Longrightarrow> receiver_op v a w \<Longrightarrow> u_Out w = u_Out v @ out \<Longrightarrow> receiver_run u (es @ [(a, out)]) w"

inductive rspec_run :: "int32 \<Rightarrow> (arrival \<times> effect list) list \<Rightarrow> receiver_spec \<Rightarrow> bool" for isn where
  rspec_run_start: "rspec_run isn [] rspec_start"
| rspec_run_step: "rspec_run isn es R \<Longrightarrow> rspec_step isn R a R' \<Longrightarrow> truthful isn R' out \<Longrightarrow> rspec_run isn (es @ [(a, out)]) R'"

text \<open>What the abstract receiver holds did come in.\<close>

definition arrived :: "int32 \<Rightarrow> arrival list \<Rightarrow> receiver_spec \<Rightarrow> bool" where
  "arrived isn as R \<longleftrightarrow> (\<forall>k\<in>rs_Got R. Data (seq_at isn k) True \<in> set as) \<and>
     (\<forall>k\<in>rs_Dropped R. \<exists>i j. i \<le> k \<and> k \<le> j \<and> Drop (seq_at isn i) (seq_at isn j) \<in> set as)"

inductive_cases data_stepE: "rspec_step isn R (Data s st) R'"
inductive_cases drop_stepE: "rspec_step isn R (Drop s t) R'"
inductive_cases no_data_stepE: "rspec_step isn R NoData R'"

lemma arrived_more: "arrived isn as R \<Longrightarrow> arrived isn (as @ [a]) R"
  by (fastforce simp: arrived_def)

lemma arrived_step:
  assumes "rspec_step isn R a R'" "arrived isn as R"
  shows "arrived isn (as @ [a]) R'"
  using assms(1)
proof cases
  case (rspec_data k)
  then show ?thesis using assms(2) by (fastforce simp: arrived_def)
next
  case (rspec_drop D i j n)
  show ?thesis unfolding arrived_def
  proof (intro conjI ballI)
    fix k
    assume "k \<in> rs_Dropped R'"
    then consider "k \<in> rs_Dropped R" | "i \<le> k" "k \<le> j" using rspec_drop by auto
    then show "\<exists>i j. i \<le> k \<and> k \<le> j \<and> Drop (seq_at isn i) (seq_at isn j) \<in> set (as @ [a])"
      by cases (use assms(2) rspec_drop in \<open>fastforce simp: arrived_def\<close>, use rspec_drop in auto)
  qed (use assms(2) rspec_drop in \<open>auto simp: arrived_def\<close>)
next
  case (rspec_ack k)
  then show ?thesis using assms(2) by (fastforce simp: arrived_def)
qed (use arrived_more [OF assms(2)] in simp)

lemma rspec_run_arrived: "rspec_run isn es R \<Longrightarrow> arrived isn (map fst es) R"
  by (induction rule: rspec_run.induct) (simp add: arrived_def rspec_start_def, simp add: arrived_step)

lemma silent_step:
  assumes "receives isn R u" "wires T u v" "same_receiver u v" "2 \<notin> T" "3 \<notin> T"
  shows "\<exists>R'. rspec_step isn R NoData R' \<and> receives isn R' v \<and> tells isn R' u v"
proof -
  have "rspec_step isn R NoData R" using assms(1) by (intro rspec_idle) (simp add: receives_def)
  moreover have "tells isn R u v" by (rule tells_silent [OF wires_silent [OF assms(2,4,5,3)]])
  ultimately show ?thesis using receives_same [OF assms(1,3)] by blast
qed

lemma receiver_op_step:
  assumes "receiver_op u a v" "receives isn R u" "sizes_ok u"
  shows "\<exists>R'. rspec_step isn R a R' \<and> receives isn R' v \<and> tells isn R' u v"
  using assms(1)
proof cases
  case (recv_data us tk ref pool r pool' s)
  then show ?thesis using processData_step [OF assms(2) recv_data(2)] by simp
next
  case (recv_drop rand us tk p pool pool')
  let ?u = "heard_from_peer tk u"
  have s: "same_receiver u ?u" "u_Out ?u = u_Out u" by (simp_all add: heard_from_peer_def same_receiver_def)
  have "drop_request p ?u pool = Some (v, pool')" using recv_drop(2,3) by (simp add: CUDT_processCtrl_def Let_def)
  moreover have "fair_drop p ?u" using recv_drop(4) by (simp add: fair_drop_def heard_from_peer_def)
  ultimately show ?thesis
    using drop_request_step [OF receives_same [OF assms(2) s(1)]] s(2) recv_drop(1) by (fastforce simp: tells_def)
next
  case (recv_ctrl rand us tk p pool pool')
  show ?thesis unfolding recv_ctrl(1)
    by (rule silent_step [OF assms(2) processCtrl_wires [OF recv_ctrl(2) assms(3), of "{0, 6}"] processCtrl_recv [OF recv_ctrl(2,3)]]) simp_all
next
  case (recv_timers us tk)
  then show ?thesis using receiver_timers_step [OF assms(2) _ assms(3)] by simp
next
  case (recv_read len pool r pool')
  have "rspec_step isn R NoData R" using assms(2) by (intro rspec_idle) (simp add: receives_def)
  moreover have "tells isn R u v"
    by (rule tells_quiet) (use recv_read(2) in \<open>auto simp: CUDT_recvmsg_def Let_def split: if_splits option.splits\<close>)
  ultimately show ?thesis using recvmsg_step [OF recv_read(2) assms(2)] recv_read(1) by blast
next
  case (recv_pack us tk p ts n q ts')
  show ?thesis unfolding recv_pack(1)
    by (rule silent_step [OF assms(2) packData_wires [OF recv_pack(2) assms(3), of "{7}"] packData_recv [OF recv_pack(2)]]) simp_all
next
  case (recv_sendmsg g mem us tk data len ttl order r)
  show ?thesis unfolding recv_sendmsg(1)
    by (rule silent_step [OF assms(2) sendmsg_wires [OF recv_sendmsg(2), of "{}"] sendmsg_recv [OF recv_sendmsg(2)]]) simp_all
next
  case (recv_close us tk garbage cache cache')
  show ?thesis unfolding recv_close(1)
    by (rule silent_step [OF assms(2) close_wires [OF recv_close(2) assms(3), of "{5}"] close_recv [OF recv_close(2)]]) simp_all
qed

lemma receiver_op_socket: "receiver_op u a v \<Longrightarrow> socket_step u v"
  by (induction rule: receiver_op.induct) (auto intro: socket_step.intros)

lemma receiver_run_step:
  assumes "receiver_run u es v" "receives isn rspec_start u" "sizes_ok u"
  shows "sizes_ok v \<and> (\<exists>R. rspec_run isn es R \<and> receives isn R v)"
  using assms(1)
proof (induction rule: receiver_run.induct)
  case recv_start
  then show ?case using assms(2,3) rspec_run_start by blast
next
  case (recv_step es v a w out)
  then obtain R where R: "rspec_run isn es R" "receives isn R v" "sizes_ok v" by blast
  obtain R' where R': "rspec_step isn R a R'" "receives isn R' w" "tells isn R' v w"
    using receiver_op_step [OF recv_step.hyps(2) R(2,3)] by blast
  have "truthful isn R' out" using R'(3) recv_step.hyps(3) by (simp add: tells_def)
  moreover have "sizes_ok w" using wires_sizes [OF socket_step_wires [OF receiver_op_socket [OF recv_step.hyps(2)] R(3)] R(3)] .
  ultimately show ?case using rspec_run_step [OF R(1) R'(1)] R'(2) by blast
qed

section \<open>From the handshake on\<close>

text \<open>A socket as the handshake leaves it, when the receiver's buffer is no larger than the loss list.\<close>

definition fresh_receiver :: "int32 \<Rightarrow> CUDT \<Rightarrow> bool" where
  "fresh_receiver isn u \<longleftrightarrow> valid_seq isn \<and> 0 < isn \<and> u_RcvLastAck u = isn \<and> u_RcvCurrSeqNo u = isn - 1 \<and>
     u_RcvLossList u = Some (CRcvLossList_new (u_FlightFlagSize u)) \<and> u_RcvBuffer u = Some (CRcvBuffer_new (u_RcvBufSize u)) \<and>
     0 < u_RcvBufSize u \<and> u_RcvBufSize u \<le> u_FlightFlagSize u \<and> 2 * u_FlightFlagSize u < m_iSeqNoTH"

lemma fresh_receives:
  assumes "fresh_receiver isn u"
  shows "receives isn rspec_start u"
proof -
  have f: "valid_seq isn" "0 < isn" "u_RcvLastAck u = isn" "u_RcvCurrSeqNo u = isn - 1" "0 < u_RcvBufSize u"
      "u_RcvBufSize u \<le> u_FlightFlagSize u" "2 * u_FlightFlagSize u < m_iSeqNoTH"
    using assms by (auto simp: fresh_receiver_def)
  have "CRcvLossList_inv (CRcvLossList_new (u_FlightFlagSize u))" "rlost_set (CRcvLossList_new (u_FlightFlagSize u)) = {}"
      "rl_Size (CRcvLossList_new (u_FlightFlagSize u)) = u_FlightFlagSize u"
    using new_rcv_list [of "u_FlightFlagSize u"] f by auto
  moreover have "seq_at isn 0 = isn" "seq_at isn (- 1) = isn - 1" using f by (simp_all add: valid_seq_def shift_def)
  ultimately show ?thesis
    using assms f new_buffer_inv [OF f(5)]
    by (auto simp: fresh_receiver_def receives_def rspec_start_def missing_def covered_to_def CRcvBuffer_new_def)
qed

lemma structures_fresh_receiver:
  assumes u: "valid_seq isn" "0 < isn" "u_RcvLastAck u = isn" "u_RcvCurrSeqNo u = isn - 1"
      "0 < u_RcvBufSize u" "u_RcvBufSize u \<le> u_FlightFlagSize u" "2 * u_FlightFlagSize u < m_iSeqNoTH"
    and v: "use_cache cache a (prepare_structures g us u) = Some v"
    and w: "same_receiver (start_cc us v) w" "u_FlightFlagSize w = u_FlightFlagSize (start_cc us v)" "u_RcvBufSize w = u_RcvBufSize (start_cc us v)"
  shows "fresh_receiver isn w"
proof -
  have "same_receiver (prepare_structures g us u) v \<and> u_FlightFlagSize v = u_FlightFlagSize u \<and> u_RcvBufSize v = u_RcvBufSize u"
    using v by (auto simp: use_cache_def prepare_structures_def same_receiver_def)
  moreover have "same_receiver v (start_cc us v) \<and> u_FlightFlagSize (start_cc us v) = u_FlightFlagSize v \<and>
      u_RcvBufSize (start_cc us v) = u_RcvBufSize v"
    by (simp add: start_cc_def Let_def same_receiver_def)
  ultimately have "same_receiver (prepare_structures g us u) w" "u_FlightFlagSize w = u_FlightFlagSize u" "u_RcvBufSize w = u_RcvBufSize u"
    using w same_receiver_trans by (blast, simp_all)
  then show ?thesis using u by (auto simp: fresh_receiver_def same_receiver_def prepare_structures_def)
qed

lemma accepting_receives:
  assumes r: "CUDT_connect_peer g mem us cache peer hs s = Some (Inr hs', s')"
    and hs: "valid_seq (m_iISN hs)" "0 < m_iISN hs"
      "0 < u_RcvBufSize s" "u_RcvBufSize s \<le> u_FlightFlagSize s" "2 * u_FlightFlagSize s < m_iSeqNoTH"
  shows "fresh_receiver (m_iISN hs) s'"
proof -
  obtain h u where n: "negotiate us peer hs s = (h, u)" by fastforce
  obtain v where v: "use_cache cache peer (prepare_structures g us u) = Some v"
    and s': "s' = send_answer peer h (emit SetNewEntry ((start_cc us v)\<lparr>u_PeerAddr := Some peer, u_Connected := True\<rparr>))"
    using r n by (auto simp: CUDT_connect_peer_def split: if_splits bind_splits)
  have d: "u_RcvBufSize u = u_RcvBufSize s" "u_FlightFlagSize u = u_FlightFlagSize s"
    using n by (auto simp: negotiate_def expect_from_def start_sequence_def set_sizes_def Let_def split: if_splits)
  have "same_receiver (start_cc us v) s'" "u_FlightFlagSize s' = u_FlightFlagSize (start_cc us v)" "u_RcvBufSize s' = u_RcvBufSize (start_cc us v)"
    by (simp_all add: s' send_answer_def emit_def split: prod.split) (simp add: same_receiver_def)
  then show ?thesis
    using structures_fresh_receiver [OF hs(1,2) _ _ _ _ _ v] negotiate_terms [of us peer hs s u] n hs d by simp
qed

lemma connecting_receives:
  assumes r: "post_connect g mem us cache u = Some v"
    and u: "valid_seq (m_iISN (u_ConnRes u))" "0 < m_iISN (u_ConnRes u)"
      "0 < u_RcvBufSize u" "u_RcvBufSize u \<le> u_FlightFlagSize u" "2 * u_FlightFlagSize u < m_iSeqNoTH"
  shows "fresh_receiver (m_iISN (u_ConnRes u)) v"
proof -
  define w where "w = (expect_from (m_iISN (u_ConnRes u)) ((set_sizes (m_iMSS (u_ConnRes u))
      (emit RemoveConnector u))\<lparr>u_FlowWindowSize := m_iFlightFlagSize (u_ConnRes u)\<rparr>))
      \<lparr>u_PeerID := m_iHsID (u_ConnRes u), u_SelfIP := m_piPeerIP (u_ConnRes u)\<rparr>"
  obtain x where x: "use_cache cache (the (u_PeerAddr w)) (prepare_structures g us w) = Some x"
    and v: "v = emit ConnectComplete (emit (UpdateEvents UDT_EPOLL_OUT True) (emit SetNewEntry
        ((start_cc us x)\<lparr>u_Connecting := False, u_Connected := True\<rparr>)))"
    using r by (auto simp: post_connect_def Let_def w_def [symmetric] split: if_splits bind_splits)
  have "u_RcvLastAck w = m_iISN (u_ConnRes u)" "u_RcvCurrSeqNo w = m_iISN (u_ConnRes u) - 1" "u_RcvBufSize w = u_RcvBufSize u"
      "u_FlightFlagSize w = u_FlightFlagSize u"
    using u by (simp_all add: w_def expect_from_def set_sizes_def emit_def Let_def)
  then show ?thesis
    using structures_fresh_receiver [OF u(1,2) _ _ _ _ _ x, of v] u(3-5) by (simp add: v same_receiver_def emit_def)
qed

text \<open>C3: whatever data arrives, whatever the peer sends and asks to drop (within the window), whatever the timers and the
  application do, a socket refines the abstract receiver: every acknowledgement in a run gives a number such that all packets before it have
  been stored or were dropped at the peer's request, every loss report names only numbers that are missing at that
  moment, and what is taken as received did arrive.\<close>

theorem receiver_tells_truth:
  assumes "fresh_receiver isn u" "receiver_run u es v" "48 \<le> u_PayloadSize u" "fits_int32 (u_PeerID u)"
  shows "\<exists>R. rspec_run isn es R \<and> receives isn R v \<and> arrived isn (map fst es) R"
  using receiver_run_step [OF assms(2) fresh_receives [OF assms(1)]] assms(3,4) rspec_run_arrived by (fastforce simp: sizes_ok_def)

text \<open>An instance: the first packet of the peer arrives.\<close>

definition example_receiver :: "CUDT \<Rightarrow> CUDT" where
  "example_receiver g = (CUDT_new g)\<lparr>u_RcvLastAck := 7, u_RcvCurrSeqNo := 6, u_FlightFlagSize := 25600, u_RcvBufSize := 8192,
     u_RcvLossList := Some (CRcvLossList_new 25600), u_RcvBuffer := Some (CRcvBuffer_new 8192), u_PayloadSize := 1456,
     u_PeerID := 11, u_CC := Some (UdtCC CUDTCC_new), u_RcvTimeWindow := Some (CPktTimeWindow_new 0 16 64)\<rparr>"

definition example_pool :: CUnitQueue where
  "example_pool = snd (CUnitQueue_init (\<lambda>_. True) 1 1500 4 CUnitQueue_new)\<lparr>uq_Entries := [[\<lparr>m_Packet = CPacket_new\<lparr>m_nHeader := [7, 0, 0, 0]\<rparr>, m_iFlag = 0\<rparr>]]\<rparr>"

lemma example_fresh_receiver: "fresh_receiver 7 (example_receiver g)"
  by (simp add: fresh_receiver_def example_receiver_def valid_seq_def serial_consts)

lemma example_arrival:
  "\<exists>v pool'. CUDT_processData 5 5 (0, 0) (example_receiver g) example_pool = Some (0, v, pool') \<and> u_Out v = u_Out (example_receiver g)"
proof -
  let ?p = "m_Packet (unit_at example_pool (0, 0))" and ?b = "CRcvBuffer_new 8192"
  have s: "m_iSeqNo ?p = 7" by (simp add: example_pool_def unit_at_def m_iSeqNo_def hdr_def)
  obtain w where w: "note_arrival 5 5 ?p (example_receiver g) = Some w" by (auto simp: note_arrival_def example_receiver_def Let_def)
  then have u: "u_RcvLastAck w = 7" "u_RcvCurrSeqNo w = 6" "u_RcvBuffer w = Some ?b" "u_Out w = u_Out (example_receiver g)"
    using note_arrival_same [OF w] by (simp_all add: same_receiver_def example_receiver_def)
  obtain b pool where b: "CRcvBuffer_addData (0, 0) 0 ?b example_pool = (0, b, pool)"
    by (simp add: CRcvBuffer_addData_def CRcvBuffer_new_def)
  have "CRcvBuffer_getAvailBufSize ?b = 8191" by (simp add: CRcvBuffer_getAvailBufSize_def CRcvBuffer_getRcvDataSize_def CRcvBuffer_new_def)
  then show ?thesis
    using u by (simp add: CUDT_processData_def s w b Let_def detect_loss_def advance_received_def seq_defs serial_consts)
qed

theorem receiver_tells_truth_witness:
  "\<forall>g. \<exists>v R. receiver_run (example_receiver g) [(Data 7 True, [])] v \<and> receives 7 R v \<and> arrived 7 [Data 7 True] R"
proof
  fix g
  obtain v pool' where v: "CUDT_processData 5 5 (0, 0) (example_receiver g) example_pool = Some (0, v, pool')" "u_Out v = u_Out (example_receiver g)"
    using example_arrival by blast
  have "m_iSeqNo (m_Packet (unit_at example_pool (0, 0))) = 7" by (simp add: example_pool_def unit_at_def m_iSeqNo_def hdr_def)
  then have "receiver_op (example_receiver g) (Data 7 True) v" using recv_data [OF v(1), of 7] by (simp add: valid_seq_def)
  then have "receiver_run (example_receiver g) ([] @ [(Data 7 True, [])]) v" using v(2) by (intro recv_step [OF recv_start]) simp_all
  then have run: "receiver_run (example_receiver g) [(Data 7 True, [])] v" by simp
  have "48 \<le> u_PayloadSize (example_receiver g)" "fits_int32 (u_PeerID (example_receiver g))"
    by (simp_all add: example_receiver_def fits_int32_def)
  from receiver_tells_truth [OF example_fresh_receiver run this] run
  show "\<exists>v R. receiver_run (example_receiver g) [(Data 7 True, [])] v \<and> receives 7 R v \<and> arrived 7 [Data 7 True] R" by auto
qed

end
