(* ===== verification/StreamBuffer.thy ===== *)
theory StreamBuffer imports RcvBuffer LossNodes Messages begin

text \<open>
  The receiver's buffer (\<open>CRcvBuffer\<close> of \<open>buffer.cpp\<close>) as a window on the stream of packets of the peer.
  \<open>stream_buffer\<close> relates the ring of units to positions of the stream. Whatever \<open>readMsg\<close> gives out is then a
  whole message of the stream, with its bytes, that was not given out before.
\<close>

section \<open>Streams and messages\<close>

text \<open>A stream gives the payload and the message word of every packet.\<close>

type_synonym stream = "int \<Rightarrow> byte list \<times> uint32"

definition starts :: "stream \<Rightarrow> int \<Rightarrow> bool" where
  "starts w k \<longleftrightarrow> boundary (snd (w k)) = 2 \<or> boundary (snd (w k)) = 3"

definition ends :: "stream \<Rightarrow> int \<Rightarrow> bool" where
  "ends w k \<longleftrightarrow> boundary (snd (w k)) = 1 \<or> boundary (snd (w k)) = 3"

text \<open>A message starts just where another has ended.\<close>

definition framed :: "stream \<Rightarrow> bool" where
  "framed w \<longleftrightarrow> (\<forall>k. starts w (k + 1) \<longleftrightarrow> ends w k)"

definition message :: "stream \<Rightarrow> int \<Rightarrow> int \<Rightarrow> bool" where
  "message w i j \<longleftrightarrow> i \<le> j \<and> starts w i \<and> ends w j \<and> (\<forall>k. i \<le> k \<and> k < j \<longrightarrow> \<not> ends w k)"

definition payload :: "stream \<Rightarrow> int \<Rightarrow> int \<Rightarrow> byte list" where
  "payload w i j = concat (map (\<lambda>k. fst (w k)) [i..j])"

definition carries :: "CPacket \<Rightarrow> byte list \<times> uint32 \<Rightarrow> bool" where
  "carries p x \<longleftrightarrow> 0 \<le> getLength p \<and> getLength p = int (length (fst x)) \<and> take (nat (getLength p)) (m_pcData p) = fst x \<and> hdr p 1 = snd x"

lemma carries_reads:
  "carries p x \<Longrightarrow> getMsgBoundary p = boundary (snd x) \<and> (getMsgOrderFlag p \<longleftrightarrow> in_order (snd x))"
  by (simp add: carries_def getMsgBoundary_def getMsgOrderFlag_def boundary_def in_order_def)

lemma carries_payload:
  assumes "carries p x"
  shows "getLength p = int (length (fst x)) \<and> take (length (fst x)) (m_pcData p) = fst x"
proof -
  have l: "getLength p = int (length (fst x))" "take (nat (getLength p)) (m_pcData p) = fst x"
    using assms unfolding carries_def by blast+
  from l(2) show ?thesis unfolding l(1) by simp
qed

lemma starts_iff: "starts w k \<longleftrightarrow> 1 < boundary (snd (w k))"
  using boundary_range [of "snd (w k)"] unfolding starts_def by linarith

section \<open>The ring of units\<close>

definition pos :: "CRcvBuffer \<Rightarrow> int \<Rightarrow> int \<Rightarrow> int" where
  "pos b s k = place (rb_Size b) (rb_StartPos b) (k - s)"

text \<open>The unit that position \<open>k\<close> of the stream has in the ring, when the first place is that of \<open>s\<close>.\<close>

definition rb_at :: "CRcvBuffer \<Rightarrow> int \<Rightarrow> int \<Rightarrow> unit_ref option" where
  "rb_at b s k = slot b (pos b s k)"

definition unread :: "CRcvBuffer \<Rightarrow> CUnitQueue \<Rightarrow> int \<Rightarrow> int \<Rightarrow> bool" where
  "unread b pool s k \<longleftrightarrow> (\<exists>r. rb_at b s k = Some r \<and> m_iFlag (unit_at pool r) = 1)"

definition holds_packet :: "stream \<Rightarrow> int \<Rightarrow> int set \<Rightarrow> int set \<Rightarrow> CUnitQueue \<Rightarrow> int \<Rightarrow> unit_ref \<Rightarrow> bool" where
  "holds_packet w hi G D pool k r \<longleftrightarrow> k < hi \<and> k \<in> G \<and> is_unit pool r \<and> m_iFlag (unit_at pool r) \<noteq> 0 \<and>
     carries (m_Packet (unit_at pool r)) (w k) \<and> (m_iFlag (unit_at pool r) = 1 \<longrightarrow> k \<notin> D)"

text \<open>The ring begins with position \<open>s\<close>, all before \<open>a\<close> is acknowledged. Each unit in it holds the packet of its position,
  one of those received (\<open>G\<close>). The packets already read (\<open>D\<close>) do not look unread, nor can they come again.\<close>

definition stream_buffer :: "stream \<Rightarrow> int \<Rightarrow> int \<Rightarrow> int set \<Rightarrow> int set \<Rightarrow> CRcvBuffer \<Rightarrow> CUnitQueue \<Rightarrow> bool" where
  "stream_buffer w s a G D b pool \<longleftrightarrow> rb_inv b \<and> s \<le> a \<and> rb_LastAckPos b = pos b s a \<and> rb_MaxPos b + (a - s) < rb_Size b \<and>
     (\<forall>k r. win (rb_Size b) s k \<longrightarrow> rb_at b s k = Some r \<longrightarrow> holds_packet w (s + rb_Size b - 1) G D pool k r) \<and>
     (\<forall>k j r. win (rb_Size b) s k \<longrightarrow> win (rb_Size b) s j \<longrightarrow> rb_at b s k = Some r \<longrightarrow> rb_at b s j = Some r \<longrightarrow> k = j) \<and>
     D \<subseteq> G \<and> (\<forall>k\<in>D. a \<le> k \<longrightarrow> win (rb_Size b) s k \<and> rb_at b s k \<noteq> None)"

lemma stream_bufferD:
  assumes "stream_buffer w s a G D b pool"
  shows "rb_inv b" "s \<le> a" "rb_LastAckPos b = pos b s a" "rb_MaxPos b + (a - s) < rb_Size b" "0 < rb_Size b" "0 \<le> rb_MaxPos b" "win (rb_Size b) s a"
    "D \<subseteq> G" "\<And>k r. win (rb_Size b) s k \<Longrightarrow> rb_at b s k = Some r \<Longrightarrow> holds_packet w (s + rb_Size b - 1) G D pool k r"
    "\<And>k j r. win (rb_Size b) s k \<Longrightarrow> win (rb_Size b) s j \<Longrightarrow> rb_at b s k = Some r \<Longrightarrow> rb_at b s j = Some r \<Longrightarrow> k = j"
    "\<And>k. k \<in> D \<Longrightarrow> a \<le> k \<Longrightarrow> win (rb_Size b) s k \<and> rb_at b s k \<noteq> None"
  using assms by (auto simp: stream_buffer_def rb_inv_def win_def)

lemma pos_range: "0 < rb_Size b \<Longrightarrow> 0 \<le> pos b s k \<and> pos b s k < rb_Size b"
  by (simp add: pos_def place_range)

lemma pos_inj: "win (rb_Size b) s k \<Longrightarrow> win (rb_Size b) s j \<Longrightarrow> pos b s k = pos b s j \<longleftrightarrow> k = j"
  unfolding pos_def by (subst place_eq_iff) (auto simp: win_def)

lemma pos_start: "rb_inv b \<Longrightarrow> pos b s s = rb_StartPos b"
  by (simp add: pos_def place_def rb_inv_def)

lemma pos_next:
  assumes "0 < rb_Size b"
  shows "(pos b s k + 1) smod rb_Size b = pos b s (k + 1)"
  using place_add_nonneg [OF assms, of 1 "rb_StartPos b" "k - s"] by (simp add: pos_def algebra_simps)

lemma next_pos_pos:
  assumes "0 < rb_Size b"
  shows "next_pos b (pos b s k) = pos b s (k + 1)"
proof -
  note r = pos_range [OF assms, of s k]
  then show ?thesis using pos_next [OF assms, of s k] by (auto simp: next_pos_def)
qed

lemma unit_at_set_flag:
  "is_unit pool r \<Longrightarrow> unit_at (set_flag r f pool) r' = (if r' = r then (unit_at pool r)\<lparr>m_iFlag := f\<rparr> else unit_at pool r')"
  by (cases r; cases r') (auto simp: unit_at_def set_flag_def is_unit_def nth_list_update)

lemma is_unit_set_flag [simp]: "is_unit (set_flag r f pool) r' = is_unit pool r'"
  by (cases "fst r = fst r'") (auto simp: is_unit_def set_flag_def nth_list_update)

lemma add_Count_units [simp]: "unit_at (add_Count n pool) r = unit_at pool r" "is_unit (add_Count n pool) r = is_unit pool r"
  by (simp_all add: add_Count_def unit_at_def is_unit_def)

lemma rb_at_put:
  assumes "rb_inv b" "win (rb_Size b) s k" "win (rb_Size b) s j"
  shows "rb_at (put_slot (pos b s k) x b) s j = (if j = k then x else rb_at b s j)"
proof -
  have "0 < rb_Size b" using assms(1) by (simp add: rb_inv_def)
  then show ?thesis
    using assms pos_inj [OF assms(2,3)] pos_range [of b s k] pos_range [of b s j]
    by (auto simp: rb_at_def pos_def put_slot_def rb_inv_def inb_def aget_aset)
qed

section \<open>Changes\<close>

text \<open>A unit that was read, or marked as dropped.\<close>

lemma mark_stream:
  assumes S: "stream_buffer w s a G D b pool" and k: "win (rb_Size b) s k" "rb_at b s k = Some r" and f: "f \<noteq> 0" "f \<noteq> 1"
  shows "stream_buffer w s a G (insert k D) b (set_flag r f pool)"
proof -
  note d = stream_bufferD [OF S]
  have h: "holds_packet w (s + rb_Size b - 1) G D pool k r" by (rule d(9) [OF k])
  then have u: "is_unit pool r" by (simp add: holds_packet_def)
  have "holds_packet w (s + rb_Size b - 1) G (insert k D) (set_flag r f pool) j x" if "win (rb_Size b) s j" "rb_at b s j = Some x" for j x
    using d(9) [OF that] d(10) [OF that(1) k(1) that(2)] k(2) that(2) f by (auto simp: holds_packet_def unit_at_set_flag [OF u])
  moreover have "insert k D \<subseteq> G" using d(8) h by (simp add: holds_packet_def)
  moreover have "\<forall>j\<in>insert k D. a \<le> j \<longrightarrow> win (rb_Size b) s j \<and> rb_at b s j \<noteq> None" using d(11) k by simp
  ultimately show ?thesis unfolding stream_buffer_def using d(1-4,10) by blast
qed

lemma mark_again:
  assumes "stream_buffer w s a G D b pool" "win (rb_Size b) s k" "rb_at b s k = Some r" "f \<noteq> 0" "f \<noteq> 1"
  shows "stream_buffer w s a G D b (set_flag r f pool)"
proof -
  note d = stream_bufferD [OF assms(1)]
  have u: "is_unit pool r" using d(9) [OF assms(2,3)] by (simp add: holds_packet_def)
  have "holds_packet w (s + rb_Size b - 1) G D (set_flag r f pool) j x" if "win (rb_Size b) s j" "rb_at b s j = Some x" for j x
    using d(9) [OF that] assms(4,5) by (auto simp: holds_packet_def unit_at_set_flag [OF u])
  moreover have "\<forall>j\<in>D. a \<le> j \<longrightarrow> win (rb_Size b) s j \<and> rb_at b s j \<noteq> None" using d(11) by simp
  ultimately show ?thesis unfolding stream_buffer_def using d(1-4,8,10) by blast
qed

text \<open>A unit that is given back.\<close>

lemma clear_stream:
  assumes S: "stream_buffer w s a G D b pool" and k: "s \<le> k" "k < a" "rb_at b s k = Some r"
  shows "stream_buffer w s a G (insert k D) (put_slot (pos b s k) None b) (free_unit r pool)"
    and "stream_buffer w s a G D (put_slot (pos b s k) None b) (free_unit r pool)"
proof -
  note d = stream_bufferD [OF S]
  have wk: "win (rb_Size b) s k" using k d(7) by (auto simp: win_def)
  have h: "holds_packet w (s + rb_Size b - 1) G D pool k r" by (rule d(9) [OF wk k(3)])
  then have u: "is_unit pool r" by (simp add: holds_packet_def)
  have at: "rb_at (put_slot (pos b s k) None b) s j = (if j = k then None else rb_at b s j)" if "win (rb_Size b) s j" for j
    by (rule rb_at_put [OF d(1) wk that])
  have other: "holds_packet w (s + rb_Size b - 1) G (insert k D) (free_unit r pool) j x" "holds_packet w (s + rb_Size b - 1) G D (free_unit r pool) j x"
    if "win (rb_Size b) s j" "rb_at (put_slot (pos b s k) None b) s j = Some x" for j x
  proof -
    have j: "j \<noteq> k" "rb_at b s j = Some x" using that(2) unfolding at [OF that(1)] by (simp_all split: if_split_asm)
    then have "x \<noteq> r" using d(10) [OF that(1) wk j(2)] k(3) by blast
    then show "holds_packet w (s + rb_Size b - 1) G (insert k D) (free_unit r pool) j x" "holds_packet w (s + rb_Size b - 1) G D (free_unit r pool) j x"
      using d(9) [OF that(1) j(2)] j(1) by (auto simp: holds_packet_def free_unit_def unit_at_set_flag [OF u])
  qed
  have inj: "i = j" if "win (rb_Size b) s i" "win (rb_Size b) s j" "rb_at (put_slot (pos b s k) None b) s i = Some x"
      "rb_at (put_slot (pos b s k) None b) s j = Some x" for i j x
    using that d(10) [OF that(1,2)] unfolding at [OF that(1)] at [OF that(2)] by (simp split: if_split_asm)
  have dd: "win (rb_Size b) s j \<and> rb_at (put_slot (pos b s k) None b) s j \<noteq> None" if "j \<in> D" "a \<le> j" for j
    using d(11) [OF that] at [of j] k(2) that(2) by simp
  have p: "pos (put_slot (pos b s k) None b) s a = pos b s a" by (simp add: pos_def)
  have kG: "insert k D \<subseteq> G" using h d(8) by (simp add: holds_packet_def)
  show "stream_buffer w s a G (insert k D) (put_slot (pos b s k) None b) (free_unit r pool)"
    unfolding stream_buffer_def put_slot_simps p using d(1-4) other(1) inj dd kG k(2) by (auto simp del: put_slot_simps)
  show "stream_buffer w s a G D (put_slot (pos b s k) None b) (free_unit r pool)"
    unfolding stream_buffer_def put_slot_simps p using d(1-4,8) other(2) inj dd by (auto simp del: put_slot_simps)
qed

text \<open>The start moves over empty places.\<close>

lemma rb_at_start:
  "rb_at (b\<lparr>rb_StartPos := pos b s t\<rparr>) t k = rb_at b s k" "pos (b\<lparr>rb_StartPos := pos b s t\<rparr>) t k = pos b s k"
proof -
  have "((rb_StartPos b + (t - s)) mod rb_Size b + (k - t)) mod rb_Size b = (rb_StartPos b + (t - s) + (k - t)) mod rb_Size b"
    by (rule mod_add_left_eq)
  then show "pos (b\<lparr>rb_StartPos := pos b s t\<rparr>) t k = pos b s k" by (simp add: pos_def place_def)
  then show "rb_at (b\<lparr>rb_StartPos := pos b s t\<rparr>) t k = rb_at b s k" by (simp add: rb_at_def)
qed

lemma rb_at_turn: "rb_at b s (k + rb_Size b) = rb_at b s k"
proof -
  have "rb_StartPos b + (k + rb_Size b - s) = rb_StartPos b + (k - s) + rb_Size b" by simp
  then show ?thesis by (simp only: rb_at_def pos_def place_def mod_add_self2)
qed

lemma advance_stream:
  assumes S: "stream_buffer w s a G D b pool" and t: "s \<le> t" "t \<le> a" "\<forall>k\<in>{s..<t}. rb_at b s k = None"
  shows "stream_buffer w t a G D (b\<lparr>rb_StartPos := pos b s t\<rparr>) pool"
proof -
  note d = stream_bufferD [OF S]
  let ?b = "b\<lparr>rb_StartPos := pos b s t\<rparr>"
  note at = rb_at_start [of b s t]
  have old: "win (rb_Size b) s k" if w: "win (rb_Size b) t k" and r: "rb_at b s k \<noteq> None" for k
  proof (rule ccontr)
    assume n: "\<not> win (rb_Size b) s k"
    then have "k - rb_Size b \<in> {s..<t}" using w t(1) by (auto simp: win_def)
    then show False using r t(3) rb_at_turn [of b s "k - rb_Size b"] by auto
  qed
  have inv: "rb_inv ?b" using d(1,5) pos_range [of b s t] by (simp add: rb_inv_def)
  moreover have "holds_packet w (t + rb_Size b - 1) G D pool k r" if "win (rb_Size b) t k" "rb_at b s k = Some r" for k r
    using d(9) [OF old [OF that(1)] that(2)] that(2) t(1) by (auto simp: holds_packet_def)
  moreover have "k = j" if "win (rb_Size b) t k" "win (rb_Size b) t j" "rb_at b s k = Some r" "rb_at b s j = Some r" for k j r
    using d(10) [OF old [OF that(1)] old [OF that(2)] that(3,4)] that by auto
  moreover have "win (rb_Size b) t k \<and> rb_at b s k \<noteq> None" if "k \<in> D" "a \<le> k" for k
    using d(11) [OF that] that(2) t by (auto simp: win_def)
  ultimately show ?thesis using d t(1,2) by (simp add: stream_buffer_def at)
qed

section \<open>Looking for a message\<close>

lemma unread_cell:
  assumes "stream_buffer w s a G D b pool" "win (rb_Size b) s k" "unread b pool s k"
  obtains r where "slot b (pos b s k) = Some r" "m_iFlag (unit_at pool r) = 1" "carries (m_Packet (unit_at pool r)) (w k)" "k \<notin> D" "k \<in> G"
    "k < s + rb_Size b - 1" "is_unit pool r"
proof -
  obtain r where r: "rb_at b s k = Some r" "m_iFlag (unit_at pool r) = 1" using assms(3) by (auto simp: unread_def)
  then show thesis using stream_bufferD(9) [OF assms(1,2) r(1)] that [of r] by (simp add: rb_at_def holds_packet_def)
qed

lemma unread_slot: "unread b pool s k \<longleftrightarrow> (\<exists>r. slot b (pos b s k) = Some r \<and> m_iFlag (unit_at pool r) = 1)"
  by (simp add: unread_def rb_at_def)

lemma getRcvDataSize_stream:
  assumes "stream_buffer w s a G D b pool"
  shows "CRcvBuffer_getRcvDataSize b = a - s"
proof -
  note d = stream_bufferD [OF assms]
  have r: "0 \<le> rb_StartPos b" "rb_StartPos b < rb_Size b" "0 \<le> a - s" "a - s < rb_Size b" using d(1,2,4,6) by (simp_all add: rb_inv_def)
  have p: "pos b s a = (rb_StartPos b + (a - s)) mod rb_Size b" by (simp add: pos_def place_def)
  show ?thesis
  proof (cases "rb_StartPos b + (a - s) < rb_Size b")
    case True
    then have "pos b s a = rb_StartPos b + (a - s)" using r unfolding p by (intro mod_pos_pos_trivial) linarith+
    then show ?thesis using r d(3) by (simp add: CRcvBuffer_getRcvDataSize_def)
  next
    case False
    then have "(rb_StartPos b + (a - s) - rb_Size b) mod rb_Size b = rb_StartPos b + (a - s) - rb_Size b" using r by (intro mod_pos_pos_trivial) linarith+
    moreover have "(rb_StartPos b + (a - s) - rb_Size b) mod rb_Size b = pos b s a" unfolding p by simp
    ultimately show ?thesis using r d(3) by (simp add: CRcvBuffer_getRcvDataSize_def)
  qed
qed

text \<open>The look-ahead: what it calls good is unread up to the first end, or up to what is acknowledged.\<close>

lemma whole_msg_stream:
  assumes "stream_buffer w s a G D b pool" "whole_msg f (pos b s k) b pool = Some True" "s \<le> k" "k \<le> a"
  shows "\<exists>e. k \<le> e \<and> e \<le> a \<and> (\<forall>x\<in>{k..<e}. unread b pool s x \<and> \<not> ends w x) \<and> (e = a \<or> (e < a \<and> unread b pool s e \<and> ends w e))"
  using assms(2-4)
proof (induction f arbitrary: k)
  case (Suc f)
  note d = stream_bufferD [OF assms(1)]
  show ?case
  proof (cases "k = a")
    case False
    then have wk: "win (rb_Size b) s k" using Suc.prems(2,3) d(7) by (auto simp: win_def)
    have ne: "pos b s k \<noteq> rb_LastAckPos b" using False pos_inj [OF wk d(7)] by (simp add: d(3))
    then obtain r where r: "slot b (pos b s k) = Some r" "m_iFlag (unit_at pool r) = 1"
        "getMsgBoundary (m_Packet (unit_at pool r)) = 1 \<or> getMsgBoundary (m_Packet (unit_at pool r)) = 3 \<or>
         whole_msg f (next_pos b (pos b s k)) b pool = Some True"
      using Suc.prems(1) by (auto split: option.splits if_splits)
    then have u: "unread b pool s k" by (simp add: unread_slot)
    have c: "getMsgBoundary (m_Packet (unit_at pool r)) = boundary (snd (w k))"
      using unread_cell [OF assms(1) wk u] r(1) carries_reads by (metis option.inject)
    show ?thesis
    proof (cases "ends w k")
      case True
      then show ?thesis using u False Suc.prems by (intro exI [of _ k]) auto
    next
      case n: False
      then have "whole_msg f (pos b s (k + 1)) b pool = Some True"
        using r(3) by (auto simp: c ends_def next_pos_pos [OF d(5)])
      from Suc.IH [OF this] obtain e where e: "k + 1 \<le> e" "e \<le> a" "\<forall>x\<in>{k + 1..<e}. unread b pool s x \<and> \<not> ends w x"
          "e = a \<or> (e < a \<and> unread b pool s e \<and> ends w e)"
        using Suc.prems False by auto
      have "\<forall>x\<in>{k..<e}. unread b pool s x \<and> \<not> ends w x"
      proof
        fix x
        assume "x \<in> {k..<e}"
        then show "unread b pool s x \<and> \<not> ends w x" using u n e(3) by (cases "x = k") auto
      qed
      then show ?thesis using e by (intro exI [of _ e]) auto
    qed
  qed (use Suc.prems in auto)
qed simp

text \<open>A message that can be read: all acknowledged and unread. The look-ahead finds it good.\<close>

definition ready :: "stream \<Rightarrow> int \<Rightarrow> int \<Rightarrow> CRcvBuffer \<Rightarrow> CUnitQueue \<Rightarrow> int \<Rightarrow> int \<Rightarrow> bool" where
  "ready w s a b pool i j \<longleftrightarrow> message w i j \<and> s \<le> i \<and> j < a \<and> (\<forall>x\<in>{i..j}. unread b pool s x)"

lemma whole_msg_complete:
  assumes "stream_buffer w s a G D b pool" "whole_msg f (pos b s k) b pool = Some g" "s \<le> k" "k \<le> j" "j < a" "\<forall>x\<in>{k..j}. unread b pool s x" "ends w j"
  shows g
  using assms(2-4,6)
proof (induction f arbitrary: k)
  case (Suc f)
  note d = stream_bufferD [OF assms(1)]
  have wk: "win (rb_Size b) s k" using Suc.prems(2,3) assms(5) d(7) by (auto simp: win_def)
  have ne: "pos b s k \<noteq> rb_LastAckPos b" using Suc.prems(3) assms(5) pos_inj [OF wk d(7)] by (simp add: d(3))
  have u: "unread b pool s k" using Suc.prems(3,4) by simp
  obtain r where r: "slot b (pos b s k) = Some r" "m_iFlag (unit_at pool r) = 1" "getMsgBoundary (m_Packet (unit_at pool r)) = boundary (snd (w k))"
    using unread_cell [OF assms(1) wk u] carries_reads by metis
  show ?case
  proof (cases "ends w k")
    case True
    then show ?thesis using Suc.prems(1) ne r by (auto simp: ends_def)
  next
    case False
    then have "whole_msg f (pos b s (k + 1)) b pool = Some g" using Suc.prems(1) ne r by (simp add: ends_def next_pos_pos [OF d(5)])
    moreover have "k \<noteq> j" using False assms(7) by blast
    ultimately show ?thesis using Suc.IH [of "k + 1"] Suc.prems(2-4) by simp
  qed
qed simp

definition good_start :: "stream \<Rightarrow> int \<Rightarrow> int \<Rightarrow> CRcvBuffer \<Rightarrow> CUnitQueue \<Rightarrow> bool" where
  "good_start w s a b pool \<longleftrightarrow> s = a \<or> starts w s \<and> ((\<exists>e<a. message w s e \<and> (\<forall>x\<in>{s..e}. unread b pool s x)) \<or> (\<forall>x\<in>{s..<a}. \<not> ends w x))"

lemma whole_good_start:
  assumes S: "stream_buffer w s a G D b pool" and st: "starts w s" and h: "whole_msg f (pos b s s) b pool = Some True"
  shows "good_start w s a b pool"
proof -
  obtain e where e: "s \<le> e" "e \<le> a" "\<forall>x\<in>{s..<e}. unread b pool s x \<and> \<not> ends w x" "e = a \<or> (e < a \<and> unread b pool s e \<and> ends w e)"
    using whole_msg_stream [OF S h] stream_bufferD(2) [OF S] by auto
  have "(\<exists>e<a. message w s e \<and> (\<forall>x\<in>{s..e}. unread b pool s x)) \<or> (\<forall>x\<in>{s..<a}. \<not> ends w x)"
  proof (cases "e = a")
    case False
    then have "message w s e" using e st by (simp add: message_def)
    moreover have "\<forall>x\<in>{s..e}. unread b pool s x"
    proof
      fix x
      assume "x \<in> {s..e}"
      then show "unread b pool s x" using e(3,4) False by (cases "x = e") auto
    qed
    ultimately show ?thesis using e(4) False by blast
  qed (use e(3) in auto)
  then show ?thesis using st by (simp add: good_start_def)
qed

text \<open>One round of the skipping: it stops, or it goes on to the next position and keeps all messages that can be read.\<close>

lemma skip_empty:
  assumes S: "stream_buffer w s a G D b pool" and lt: "s < a" and n: "rb_at b s s = None"
  shows "stream_buffer w (s + 1) a G D (b\<lparr>rb_StartPos := pos b s (s + 1)\<rparr>) pool"
    and "ready w s a b pool i j \<Longrightarrow> ready w (s + 1) a (b\<lparr>rb_StartPos := pos b s (s + 1)\<rparr>) pool i j"
proof -
  have "{s..<s + 1} = {s}" by auto
  then show "stream_buffer w (s + 1) a G D (b\<lparr>rb_StartPos := pos b s (s + 1)\<rparr>) pool"
    using n lt by (intro advance_stream [OF S]) simp_all
  assume r: "ready w s a b pool i j"
  have "unread b pool s i" using r by (simp add: ready_def message_def)
  then have "i \<noteq> s" using n by (auto simp: unread_def)
  then show "ready w (s + 1) a (b\<lparr>rb_StartPos := pos b s (s + 1)\<rparr>) pool i j" using r by (simp add: ready_def unread_def rb_at_start)
qed

lemma skip_full:
  assumes S: "stream_buffer w s a G D b pool" and lt: "s < a" and at: "rb_at b s s = Some r"
  defines "c \<equiv> put_slot (pos b s s) None b\<lparr>rb_StartPos := pos b s (s + 1)\<rparr>"
  shows "stream_buffer w (s + 1) a G D c (free_unit r pool)"
    and "ready w s a b pool i j \<Longrightarrow> i \<noteq> s \<Longrightarrow> ready w (s + 1) a c (free_unit r pool) i j"
proof -
  note d = stream_bufferD [OF S]
  let ?c = "put_slot (pos b s s) None b"
  have ws: "win (rb_Size b) s s" using d(5) by (simp add: win_def)
  have C: "stream_buffer w s a G D ?c (free_unit r pool)" by (rule clear_stream(2) [OF S order_refl lt at])
  have e: "rb_at ?c s s = None" using rb_at_put [OF d(1) ws ws] by simp
  have p: "pos ?c s (s + 1) = pos b s (s + 1)" by (simp add: pos_def)
  note sk = skip_empty [OF C lt e, unfolded p]
  show "stream_buffer w (s + 1) a G D c (free_unit r pool)" unfolding c_def by (rule sk(1))
  assume rd: "ready w s a b pool i j" and i: "i \<noteq> s"
  have "unread ?c (free_unit r pool) s x" if x: "x \<in> {i..j}" for x
  proof -
    have wx: "win (rb_Size b) s x" "x \<noteq> s" using x rd i d(7) by (auto simp: ready_def win_def)
    have "unread b pool s x" using rd x by (simp add: ready_def)
    then obtain y where y: "rb_at b s x = Some y" "m_iFlag (unit_at pool y) = 1" unfolding unread_def by blast
    have "y \<noteq> r" using d(10) [OF wx(1) ws y(1)] at wx(2) by auto
    moreover have "is_unit pool r" using d(9) [OF ws at] by (simp add: holds_packet_def)
    ultimately show ?thesis using y rb_at_put [OF d(1) ws wx(1), of None] wx(2) by (simp add: unread_def free_unit_def unit_at_set_flag)
  qed
  then have "ready w s a ?c (free_unit r pool) i j" using rd by (simp add: ready_def)
  then show "ready w (s + 1) a c (free_unit r pool) i j" unfolding c_def by (rule sk(2))
qed

lemma skip_step:
  assumes S: "stream_buffer w s a G D b pool" and sk: "skip_bad (Suc f) b pool = Some (b', pool')"
  obtains (stop) "b' = b" "pool' = pool" "good_start w s a b pool"
    | (go) c q where "s < a" "stream_buffer w (s + 1) a G D c q" "skip_bad f c q = Some (b', pool')" "rb_Size c = rb_Size b"
      "rb_MaxPos c = rb_MaxPos b" "\<And>i j. ready w s a b pool i j \<Longrightarrow> ready w (s + 1) a c q i j"
proof -
  note d = stream_bufferD [OF S]
  have st: "rb_StartPos b = pos b s s" using pos_start [OF d(1)] by simp
  have ws: "win (rb_Size b) s s" using d(5) by (simp add: win_def)
  have nx: "next_pos b (rb_StartPos b) = pos b s (s + 1)" by (simp add: st next_pos_pos [OF d(5)])
  show thesis
  proof (cases "s = a")
    case True
    then have "b' = b" "pool' = pool" using sk st d(3) by simp_all
    then show thesis using stop True by (simp add: good_start_def)
  next
    case False
    then have lt: "s < a" using d(2) by simp
    have ne: "rb_StartPos b \<noteq> rb_LastAckPos b" using False pos_inj [OF ws d(7)] by (simp add: st d(3))
    show thesis
    proof (cases "slot b (rb_StartPos b)")
      case None
      then have "rb_at b s s = None" by (simp add: rb_at_def st)
      note e = skip_empty [OF S lt this]
      show thesis by (rule go [OF lt e(1) _ _ _ e(2)]) (use sk None ne nx in simp_all)
    next
      case (Some r)
      then have at: "rb_at b s s = Some r" by (simp add: rb_at_def st)
      note e = skip_full [OF S lt at]
      define good where "good \<longleftrightarrow> 1 = m_iFlag (unit_at pool r) \<and> 1 < getMsgBoundary (m_Packet (unit_at pool r))"
      define h where "h = whole_msg (Suc (nat (rb_Size b))) (pos b s s) b pool"
      have u: "unread b pool s s" "starts w s" if good
      proof -
        show u: "unread b pool s s" using that at by (simp add: unread_def good_def)
        show "starts w s" using unread_cell [OF S ws u] Some that carries_reads st unfolding good_def by (metis option.inject starts_iff)
      qed
      define drop where "drop = skip_bad f (put_slot (pos b s s) None b\<lparr>rb_StartPos := pos b s (s + 1)\<rparr>) (free_unit r pool)"
      have eq: "(if good then case h of None \<Rightarrow> None | Some g \<Rightarrow> if g then Some (b, pool) else drop else drop) = Some (b', pool')"
        using sk unfolding skip_bad.simps st if_P [OF ne [unfolded st]] Some [unfolded st] option.case Let_def nx [unfolded st] good_def h_def drop_def .
      show thesis
      proof (cases "good \<and> h = Some True")
        case True
        then have "good_start w s a b pool" using whole_good_start [OF S u(2)] unfolding h_def by blast
        then show thesis using eq True by (intro stop) simp_all
      next
        case no: False
        then have dr: "drop = Some (b', pool')" "good \<Longrightarrow> h = Some False" using eq by (auto split: if_splits option.splits)
        have "ready w (s + 1) a (put_slot (pos b s s) None b\<lparr>rb_StartPos := pos b s (s + 1)\<rparr>) (free_unit r pool) i j"
          if rd: "ready w s a b pool i j" for i j
        proof (rule e(2) [OF rd notI])
          assume i: "i = s"
          then have m: "message w s j" "j < a" "\<forall>x\<in>{s..j}. unread b pool s x" using rd by (simp_all add: ready_def)
          then have us: "unread b pool s s" by (simp add: message_def)
          then have good
            using unread_cell [OF S ws us] Some m(1) carries_reads st unfolding good_def message_def by (metis option.inject starts_iff)
          then have "h = Some False" by (rule dr(2))
          moreover have "s \<le> j" "ends w j" using m(1) by (simp_all add: message_def)
          ultimately show False using whole_msg_complete [OF S _ order_refl _ m(2,3)] unfolding h_def by blast
        qed
        then show thesis using go [OF lt e(1)] dr(1) unfolding drop_def by simp
      qed
    qed
  qed
qed

lemma skip_bad_stream:
  assumes "stream_buffer w s a G D b pool" "skip_bad f b pool = Some (b', pool')"
  shows "\<exists>s'. s \<le> s' \<and> s' \<le> a \<and> stream_buffer w s' a G D b' pool' \<and> rb_Size b' = rb_Size b \<and> rb_MaxPos b' = rb_MaxPos b \<and> good_start w s' a b' pool' \<and>
    (\<forall>i j. ready w s a b pool i j \<longrightarrow> ready w s' a b' pool' i j)"
  using assms
proof (induction f arbitrary: s b pool)
  case (Suc f)
  from Suc.prems show ?case
  proof (cases rule: skip_step)
    case stop
    then show ?thesis using Suc.prems(1) stream_bufferD(2) [OF Suc.prems(1)] by (intro exI [of _ s]) simp
  next
    case (go c q)
    obtain s' where "s + 1 \<le> s'" "s' \<le> a" "stream_buffer w s' a G D b' pool'" "rb_Size b' = rb_Size c" "rb_MaxPos b' = rb_MaxPos c" "good_start w s' a b' pool'"
        "\<And>i j. ready w (s + 1) a c q i j \<Longrightarrow> ready w s' a b' pool' i j" using Suc.IH [OF go(2,3)] by blast
    then show ?thesis using go(4-6) by (intro exI [of _ s']) simp
  qed
qed simp

text \<open>One place of the search for a message: the head, whether a message ends here, its order flag.\<close>

definition scan_cell :: "CRcvBuffer \<Rightarrow> CUnitQueue \<Rightarrow> int \<Rightarrow> int \<Rightarrow> int \<times> bool \<times> bool" where
  "scan_cell b pool p q =
    (case slot b q of
       None \<Rightarrow> (- 1, False, False)
     | Some u \<Rightarrow>
         if 1 = m_iFlag (unit_at pool u) then
           let pkt = m_Packet (unit_at pool u); bd = getMsgBoundary pkt
           in if bd = 3 then (q, True, getMsgOrderFlag pkt)
              else if bd = 2 then (q, False, getMsgOrderFlag pkt)
              else if bd = 1 then (p, p \<noteq> - 1, getMsgOrderFlag pkt)
              else (p, False, getMsgOrderFlag pkt)
         else (- 1, False, False))"

lemma find_msg_Suc:
  "find_msg (Suc n) b pool p q passack =
    (case scan_cell b pool p q of (p, found, order) \<Rightarrow>
       if found \<and> (\<not> passack \<or> \<not> order) then (True, p, q, passack)
       else find_msg n b pool p (next_pos b q) (if next_pos b q = rb_LastAckPos b then True else passack))"
  by (simp only: find_msg.simps scan_cell_def Let_def)

text \<open>The head \<open>p\<close> when position \<open>k\<close> is looked at: none, or the start of a message unread so far.\<close>

definition head_of :: "stream \<Rightarrow> CRcvBuffer \<Rightarrow> CUnitQueue \<Rightarrow> int \<Rightarrow> int \<Rightarrow> int \<Rightarrow> bool" where
  "head_of w b pool s k p \<longleftrightarrow> p = - 1 \<or> (\<exists>i. p = pos b s i \<and> s \<le> i \<and> i < k \<and> starts w i \<and>
     (\<forall>x\<in>{i..<k}. unread b pool s x) \<and> (\<forall>x. i \<le> x \<and> x < k - 1 \<longrightarrow> \<not> ends w x))"

lemma unread_snoc: "(\<forall>x\<in>{i..<k}. unread b pool s x) \<Longrightarrow> unread b pool s k \<Longrightarrow> \<forall>x\<in>{i..k}. unread b pool s x"
  by (metis atLeastAtMost_iff atLeastLessThan_iff order_le_less)

lemma scan_cell_stream:
  assumes S: "stream_buffer w s a G D b pool" and fr: "framed w" and k: "win (rb_Size b) s k" and h: "head_of w b pool s k p"
    and c: "scan_cell b pool p (pos b s k) = (p1, found, order)"
  shows "head_of w b pool s (k + 1) p1 \<and>
    (found \<longrightarrow> order = in_order (snd (w k)) \<and> (\<exists>i. p1 = pos b s i \<and> s \<le> i \<and> message w i k \<and> (\<forall>x\<in>{i..k}. unread b pool s x)))"
proof (cases "unread b pool s k")
  case False
  then have "p1 = - 1 \<and> \<not> found" using c by (auto simp: scan_cell_def unread_slot split: option.splits if_splits)
  then show ?thesis by (simp add: head_of_def)
next
  case True
  obtain r where r: "slot b (pos b s k) = Some r" "m_iFlag (unit_at pool r) = 1" "carries (m_Packet (unit_at pool r)) (w k)"
    using unread_cell [OF S k True] by metis
  note rd = carries_reads [OF r(3)]
  have here: "head_of w b pool s (k + 1) (pos b s k)" if "starts w k"
    using that True k by (auto simp: head_of_def win_def intro!: exI [of _ k])
  show ?thesis
  proof (cases "starts w k")
    case st: True
    then have "p1 = pos b s k \<and> (found \<longleftrightarrow> ends w k) \<and> order = in_order (snd (w k))"
      using c r(1,2) rd by (auto simp: scan_cell_def starts_def ends_def Let_def)
    moreover have "message w k k" if "ends w k" using st that by (auto simp: message_def)
    ultimately show ?thesis using here [OF st] True k by (auto simp: win_def intro!: exI [of _ k])
  next
    case False
    then have p1: "p1 = p" "found \<longleftrightarrow> ends w k \<and> p \<noteq> - 1" "order = in_order (snd (w k))"
      using c r(1,2) rd by (auto simp: scan_cell_def starts_def ends_def Let_def split: if_splits)
    have prev: "\<not> ends w (k - 1)" using fr False unfolding framed_def by (metis diff_add_cancel)
    show ?thesis
    proof (cases "p = - 1")
      case False
      then obtain i where i: "p = pos b s i" "s \<le> i" "i < k" "starts w i" "\<forall>x\<in>{i..<k}. unread b pool s x"
          "\<forall>x. i \<le> x \<and> x < k - 1 \<longrightarrow> \<not> ends w x"
        using h by (auto simp: head_of_def)
      have none: "\<forall>x. i \<le> x \<and> x < k \<longrightarrow> \<not> ends w x"
      proof (intro allI impI)
        fix x
        assume "i \<le> x \<and> x < k"
        then show "\<not> ends w x" using i(6) prev by (cases "x = k - 1") auto
      qed
      note all = unread_snoc [OF i(5) True]
      have "{i..<k + 1} = {i..k}" by auto
      then have "head_of w b pool s (k + 1) p"
        unfolding head_of_def using i(1-4) none all by (intro disjI2 exI [of _ i]) auto
      moreover have "message w i k" if "ends w k" using i(3,4) none that by (simp add: message_def)
      ultimately show ?thesis using p1 i(1,2) all by blast
    qed (use p1 in \<open>simp add: head_of_def\<close>)
  qed
qed

lemma reached:
  assumes "stream_buffer w s a G D b pool" "s \<le> k" "k + 1 \<le> s + rb_Size b" "pa \<longleftrightarrow> a \<le> k"
  shows "(if next_pos b (pos b s k) = rb_LastAckPos b then True else pa) \<longleftrightarrow> a \<le> k + 1"
proof -
  note d = stream_bufferD [OF assms(1)]
  show ?thesis
  proof (cases "a \<le> k")
    case False
    then have "win (rb_Size b) s (k + 1)" using assms(2) d(7) by (auto simp: win_def)
    then show ?thesis using pos_inj [OF _ d(7), of "k + 1"] assms(4) False by (auto simp: next_pos_pos [OF d(5)] d(3))
  qed (use assms(4) in simp)
qed

lemma find_msg_stream:
  assumes S: "stream_buffer w s a G D b pool" and fr: "framed w"
    and f: "find_msg n b pool p (pos b s k) pa = (found, p', q', pa')"
    and k: "s \<le> k" "k + int n \<le> s + rb_Size b" "pa \<longleftrightarrow> a \<le> k" "head_of w b pool s k p"
  shows "(found \<longrightarrow> (\<exists>i j. p' = pos b s i \<and> q' = pos b s j \<and> s \<le> i \<and> j < k + int n \<and> message w i j \<and> (\<forall>x\<in>{i..j}. unread b pool s x) \<and>
      (pa' \<longleftrightarrow> a \<le> j) \<and> (in_order (snd (w j)) \<longrightarrow> j < a))) \<and>
    (\<not> found \<longrightarrow> (pa' \<longleftrightarrow> a \<le> k + int n))"
  using f k
proof (induction n arbitrary: k p pa)
  case (Suc n)
  note d = stream_bufferD [OF S]
  have wk: "win (rb_Size b) s k" using Suc.prems(2,3) by (auto simp: win_def)
  obtain p1 fd od where c: "scan_cell b pool p (pos b s k) = (p1, fd, od)" by (metis prod_cases3)
  note sc = scan_cell_stream [OF S fr wk Suc.prems(5) c]
  show ?case
  proof (cases "fd \<and> (\<not> pa \<or> \<not> od)")
    case True
    then have "found" "p' = p1" "q' = pos b s k" "pa' = pa" using Suc.prems(1) unfolding find_msg_Suc c by simp_all
    moreover obtain i where "p1 = pos b s i" "s \<le> i" "message w i k" "\<forall>x\<in>{i..k}. unread b pool s x" "od = in_order (snd (w k))"
      using sc True by blast
    ultimately show ?thesis using True Suc.prems(4) by (intro conjI impI exI [of _ i] exI [of _ k]) auto
  next
    case False
    let ?pa = "if next_pos b (pos b s k) = rb_LastAckPos b then True else pa"
    have "find_msg n b pool p1 (pos b s (k + 1)) ?pa = (found, p', q', pa')"
      using Suc.prems(1) False unfolding find_msg_Suc c by (simp add: next_pos_pos [OF d(5)] split: if_splits)
    moreover have "?pa \<longleftrightarrow> a \<le> k + 1" by (rule reached [OF S Suc.prems(2) _ Suc.prems(4)]) (use Suc.prems(3) in simp)
    ultimately show ?thesis using Suc.IH [of p1 "k + 1" ?pa] Suc.prems(2,3) sc by (simp add: algebra_simps)
  qed
qed simp

lemma find_first:
  assumes S: "stream_buffer w s a G D b pool" and fr: "framed w" and m: "message w s e" "\<forall>x\<in>{s..e}. unread b pool s x" "e < a"
    and k: "s \<le> k" "k \<le> e" "k = s \<or> p = pos b s s" "e - k < int n"
  shows "find_msg n b pool p (pos b s k) False = (True, pos b s s, pos b s e, False)"
  using k
proof (induction n arbitrary: k p)
  case (Suc n)
  note d = stream_bufferD [OF S]
  have wk: "win (rb_Size b) s k" using Suc.prems(1,2) m(3) d(7) by (auto simp: win_def)
  have u: "unread b pool s k" using m(2) Suc.prems(1,2) by simp
  obtain r where r: "slot b (pos b s k) = Some r" "m_iFlag (unit_at pool r) = 1" "carries (m_Packet (unit_at pool r)) (w k)"
    using unread_cell [OF S wk u] by metis
  have e: "ends w k \<longleftrightarrow> k = e" using m(1) Suc.prems(1,2) by (auto simp: message_def)
  have st: "starts w k \<longleftrightarrow> k = s"
  proof (cases "k = s")
    case False
    then have "\<not> ends w (k - 1)" using m(1) Suc.prems(1,2) by (simp add: message_def)
    then show ?thesis using fr False unfolding framed_def by (metis diff_add_cancel)
  qed (use m(1) in \<open>simp add: message_def\<close>)
  have "pos b s s \<noteq> - 1" using pos_range [OF d(5), of s s] by simp
  then have c: "scan_cell b pool p (pos b s k) = (pos b s s, k = e, getMsgOrderFlag (m_Packet (unit_at pool r)))"
    using e st Suc.prems(3) conjunct1 [OF carries_reads [OF r(3)]] unfolding scan_cell_def r(1) option.case r(2) starts_def ends_def Let_def
    by (cases "k = s") auto
  show ?case
  proof (cases "k = e")
    case False
    then have lt: "k < e" using Suc.prems(2) by simp
    have "(if next_pos b (pos b s k) = rb_LastAckPos b then True else False) \<longleftrightarrow> a \<le> k + 1"
      by (rule reached [OF S Suc.prems(1)]) (use lt m(3) d(7) in \<open>auto simp: win_def\<close>)
    then have "next_pos b (pos b s k) \<noteq> rb_LastAckPos b" using lt m(3) by (auto split: if_splits)
    moreover have "find_msg n b pool (pos b s s) (pos b s (k + 1)) False = (True, pos b s s, pos b s e, False)"
      by (rule Suc.IH) (use Suc.prems lt in auto)
    ultimately show ?thesis using False by (simp add: find_msg_Suc c next_pos_pos [OF d(5)] del: find_msg.simps)
  next
    case True
    then show ?thesis unfolding find_msg_Suc c by simp
  qed
qed simp

text \<open>What the search for a message gives: nothing that is copied, or a message all unread. One that is not yet acknowledged
  stays in the ring; one that is begins the ring.\<close>

lemma scan_stream:
  assumes S: "stream_buffer w s a G D b pool" and fr: "framed w" and sc: "CRcvBuffer_scanMsg b pool = Some ((found, p, q, pa), b', pool')"
  shows "\<exists>s'. s \<le> s' \<and> s' \<le> a \<and> stream_buffer w s' a G D b' pool' \<and> rb_Size b' = rb_Size b \<and>
    (found \<longrightarrow> pa \<and> p = (q + 1) smod rb_Size b' \<or>
      (\<exists>i j. p = pos b' s' i \<and> q = pos b' s' j \<and> s' \<le> i \<and> message w i j \<and> (\<forall>x\<in>{i..j}. unread b' pool' s' x) \<and>
        j < s' + rb_Size b' \<and> (in_order (snd (w j)) \<longrightarrow> \<not> pa) \<and> (\<not> pa \<longrightarrow> i = s' \<and> j < a)))"
proof (cases "rb_StartPos b = rb_LastAckPos b \<and> rb_MaxPos b \<le> 0")
  case True
  then show ?thesis using sc S stream_bufferD(2) [OF S] by (intro exI [of _ s]) (simp add: CRcvBuffer_scanMsg_def)
next
  case False
  obtain z where z: "skip_bad (Suc (nat (rb_Size b))) b pool = Some z"
    using sc unfolding CRcvBuffer_scanMsg_def if_not_P [OF False] by (cases "skip_bad (Suc (nat (rb_Size b))) b pool") (simp_all del: skip_bad.simps)
  obtain fd p1 q1 pa1 where f1: "find_msg (nat (rb_MaxPos (fst z) + CRcvBuffer_getRcvDataSize (fst z) + 1)) (fst z) (snd z) (- 1) (rb_StartPos (fst z))
      (rb_StartPos (fst z) = rb_LastAckPos (fst z)) = (fd, p1, q1, pa1)" by (metis prod_cases4)
  have zz: "z = (b', pool')" "p1 = p" "q1 = q" "pa1 = pa" "found = (if \<not> fd then p \<noteq> - 1 \<and> (q + 1) smod rb_Size b' = p else fd)"
    using sc f1 unfolding CRcvBuffer_scanMsg_def if_not_P [OF False] z by (cases z; auto simp: Let_def simp del: find_msg.simps)+
  note k = z [unfolded zz(1)] and f = f1 [unfolded zz(1-4) fst_conv snd_conv] and found = zz(5)
  obtain s' where s': "s \<le> s'" "s' \<le> a" "stream_buffer w s' a G D b' pool'" "rb_Size b' = rb_Size b" "good_start w s' a b' pool'"
    using skip_bad_stream [OF S k] by blast
  note d = stream_bufferD [OF s'(3)]
  define n where "n = nat (rb_MaxPos b' + (a - s') + 1)"
  have n: "int n = rb_MaxPos b' + (a - s') + 1" using d(2,6) by (simp add: n_def)
  have start: "rb_StartPos b' = pos b' s' s'" using pos_start [OF d(1)] by simp
  have pa: "rb_StartPos b' = rb_LastAckPos b' \<longleftrightarrow> a \<le> s'"
    using pos_inj [of b' s' s' a] d(2,5,7) by (auto simp: start d(3) win_def)
  have f': "find_msg n b' pool' (- 1) (pos b' s' s') (rb_StartPos b' = rb_LastAckPos b') = (fd, p, q, pa)"
    using f unfolding getRcvDataSize_stream [OF s'(3)] start n_def .
  have "head_of w b' pool' s' s' (- 1)" by (simp add: head_of_def)
  note res = find_msg_stream [OF s'(3) fr f' _ _ pa this]
  have res: "(fd \<longrightarrow> (\<exists>i j. p = pos b' s' i \<and> q = pos b' s' j \<and> s' \<le> i \<and> j < s' + int n \<and> message w i j \<and> (\<forall>x\<in>{i..j}. unread b' pool' s' x) \<and>
      (pa \<longleftrightarrow> a \<le> j) \<and> (in_order (snd (w j)) \<longrightarrow> j < a))) \<and> (\<not> fd \<longrightarrow> (pa \<longleftrightarrow> a \<le> s' + int n))"
    by (rule res) (use n d(4) in simp_all)
  show ?thesis
  proof (cases fd)
    case False
    then have "pa" using res n d(2,6) by simp
    then show ?thesis using s'(1-4) found False by (intro exI [of _ s']) auto
  next
    case True
    then obtain i j where ij: "p = pos b' s' i" "q = pos b' s' j" "s' \<le> i" "j < s' + int n" "message w i j" "\<forall>x\<in>{i..j}. unread b' pool' s' x"
        "pa \<longleftrightarrow> a \<le> j" "in_order (snd (w j)) \<longrightarrow> j < a"
      using res by blast
    have lim: "j < s' + rb_Size b'" using ij(4) n d(4) by linarith
    have "i = s'" if np: "\<not> pa"
    proof -
      have ja: "j < a" "i \<le> j" "ends w j" using ij(5,7) np by (auto simp: message_def)
      then obtain e where e: "e < a" "message w s' e" "\<forall>x\<in>{s'..e}. unread b' pool' s' x"
        using s'(5) ij(3) by (auto simp: good_start_def)
      have "rb_StartPos b' \<noteq> rb_LastAckPos b'" using pa ja ij(3) by auto
      moreover have "find_msg n b' pool' (- 1) (pos b' s' s') False = (True, pos b' s' s', pos b' s' e, False)"
        by (rule find_first [OF s'(3) fr e(2,3,1)]) (use e(1,2) n d(6) in \<open>auto simp: message_def\<close>)
      ultimately have "pos b' s' i = pos b' s' s'" using f' ij(1) by simp
      moreover have "win (rb_Size b') s' i" "win (rb_Size b') s' s'" using ij(3) ja lim d(5) by (auto simp: win_def)
      ultimately show ?thesis using pos_inj by blast
    qed
    then have "\<exists>i j. p = pos b' s' i \<and> q = pos b' s' j \<and> s' \<le> i \<and> message w i j \<and> (\<forall>x\<in>{i..j}. unread b' pool' s' x) \<and>
        j < s' + rb_Size b' \<and> (in_order (snd (w j)) \<longrightarrow> \<not> pa) \<and> (\<not> pa \<longrightarrow> i = s' \<and> j < a)"
      using ij lim by (intro exI [of _ i] exI [of _ j]) auto
    then show ?thesis using s'(1-4) by blast
  qed
qed

section \<open>Reading\<close>

lemma payload_Cons: "i \<le> j \<Longrightarrow> payload w i j = fst (w i) @ payload w (i + 1) j"
  by (simp add: payload_def upto_rec1)

lemma payload_empty: "payload w (j + 1) j = []"
  by (simp add: payload_def)

lemma copy_msg_stream:
  assumes "copy_msg f (pos b s k) (pos b s j) pa rs b pool = Some (d, rs', b', pool')" "stream_buffer w s a G D b pool"
    "s \<le> k" "k \<le> j + 1" "j < s + rb_Size b" "\<forall>x\<in>{k..j}. unread b pool s x" "0 \<le> rs" "\<not> pa \<longrightarrow> j < a"
  shows "d = take (nat rs) (payload w k j) \<and> rs' = rs - int (length d) \<and> stream_buffer w s a G (D \<union> {k..j}) b' pool' \<and>
    rb_StartPos b' = rb_StartPos b \<and> rb_Size b' = rb_Size b \<and>
    (\<forall>x. win (rb_Size b) s x \<longrightarrow> rb_at b' s x = (if \<not> pa \<and> k \<le> x \<and> x \<le> j then None else rb_at b s x))"
  using assms
proof (induction f arbitrary: k rs b pool d D)
  case (Suc f)
  note S = Suc.prems(2)
  note d = stream_bufferD [OF S]
  have jn: "(pos b s j + 1) smod rb_Size b = pos b s (j + 1)" by (rule pos_next [OF d(5)])
  show ?case
  proof (cases "k = j + 1")
    case True
    then have "{k..j} = {}" "\<not> (k \<le> x \<and> x \<le> j)" for x by auto
    then show ?thesis using Suc.prems(1,2) True by (auto simp: jn payload_empty)
  next
    case False
    then have kj: "k \<le> j" using Suc.prems(4) by simp
    have wk: "win (rb_Size b) s k" using Suc.prems(3,5) kj by (simp add: win_def)
    have uj: "unread b pool s j" using Suc.prems(6) kj by simp
    have wj: "win (rb_Size b) s j" using Suc.prems(3,5) kj by (simp add: win_def)
    obtain rj where "j < s + rb_Size b - 1" using unread_cell [OF S wj uj] by metis
    then have "win (rb_Size b) s (j + 1)" using Suc.prems(3) kj by (simp add: win_def)
    then have ne: "pos b s k \<noteq> (pos b s j + 1) smod rb_Size b" using pos_inj [OF wk] False by (simp add: jn)
    obtain r where r: "slot b (pos b s k) = Some r" "carries (m_Packet (unit_at pool r)) (w k)" "k \<notin> D"
      using unread_cell [OF S wk] Suc.prems(6) kj by (metis atLeastAtMost_iff order_refl)
    have at: "rb_at b s k = Some r" using r(1) by (simp add: rb_at_def)
    let ?pkt = "m_Packet (unit_at pool r)"
    let ?n = "if rs \<ge> 0 \<and> getLength ?pkt > rs then rs else getLength ?pkt"
    define bytes where "bytes = (if ?n > 0 then take (nat ?n) (m_pcData ?pkt) else [])"
    define rs1 where "rs1 = (if ?n > 0 then rs - ?n else rs)"
    have byt: "bytes = take (nat rs) (fst (w k))" "rs1 = rs - int (length bytes)" "0 \<le> rs1"
    proof -
      have l: "getLength ?pkt = int (length (fst (w k)))" "take (length (fst (w k))) (m_pcData ?pkt) = fst (w k)"
        by (rule conjunct1 [OF carries_payload [OF r(2)]], rule conjunct2 [OF carries_payload [OF r(2)]])
      have t: "take n (m_pcData ?pkt) = take n (fst (w k))" if "n \<le> length (fst (w k))" for n
      proof -
        have "take n (take (length (fst (w k))) (m_pcData ?pkt)) = take n (m_pcData ?pkt)" using that by (simp add: min_absorb1)
        then show ?thesis unfolding l(2) ..
      qed
      show "bytes = take (nat rs) (fst (w k))"
      proof (cases "int (length (fst (w k))) > rs")
        case True
        then have "bytes = take (nat rs) (m_pcData ?pkt)" using Suc.prems(7) by (simp add: bytes_def l(1))
        then show ?thesis using t [of "nat rs"] True by simp
      next
        case False
        then have "bytes = fst (w k)" using l(2) by (simp add: bytes_def l(1))
        then show ?thesis using False by simp
      qed
      then show "rs1 = rs - int (length bytes)" "0 \<le> rs1" using Suc.prems(7) by (auto simp: rs1_def l(1))
    qed
    define b1 where "b1 = (if \<not> pa then put_slot (pos b s k) None b else b)"
    define pool1 where "pool1 = (if \<not> pa then free_unit r pool else set_flag r 2 pool)"
    obtain d1 where c: "copy_msg f (pos b s (k + 1)) (pos b s j) pa rs1 b1 pool1 = Some (d1, rs', b', pool')" "d = bytes @ d1"
      using Suc.prems(1) ne r(1) by (auto simp: Let_def next_pos_pos [OF d(5)] bytes_def rs1_def b1_def pool1_def split: if_splits)
    have S1: "stream_buffer w s a G (insert k D) b1 pool1"
    proof (cases pa)
      case True
      then show ?thesis using mark_stream [OF S wk at, of 2] by (simp add: b1_def pool1_def)
    next
      case False
      then show ?thesis using clear_stream(1) [OF S Suc.prems(3) _ at] kj Suc.prems(8) by (simp add: b1_def pool1_def)
    qed
    have b1: "pos b1 s = pos b s" "rb_Size b1 = rb_Size b" "rb_StartPos b1 = rb_StartPos b" by (auto simp: b1_def pos_def fun_eq_iff)
    have at1: "rb_at b1 s x = (if \<not> pa \<and> x = k then None else rb_at b s x)" if "win (rb_Size b) s x" for x
      using rb_at_put [OF d(1) wk that, of None] by (cases "x = k") (simp_all add: b1_def)
    have u1: "\<forall>x\<in>{k + 1..j}. unread b1 pool1 s x"
    proof
      fix x
      assume x: "x \<in> {k + 1..j}"
      then have wx: "win (rb_Size b) s x" "unread b pool s x" using Suc.prems(3,5,6) by (auto simp: win_def)
      then obtain y where y: "rb_at b s x = Some y" "m_iFlag (unit_at pool y) = 1" by (auto simp: unread_def)
      have "y \<noteq> r" using d(10) [OF wx(1) wk y(1)] at x by auto
      moreover have "is_unit pool r" using d(9) [OF wk at] by (simp add: holds_packet_def)
      ultimately have "m_iFlag (unit_at pool1 y) = 1" using y(2) by (simp add: pool1_def free_unit_def unit_at_set_flag)
      then show "unread b1 pool1 s x" using at1 [OF wx(1)] y(1) x by (simp add: unread_def)
    qed
    have IH: "d1 = take (nat rs1) (payload w (k + 1) j) \<and> rs' = rs1 - int (length d1) \<and> stream_buffer w s a G (insert k D \<union> {k + 1..j}) b' pool' \<and>
      rb_StartPos b' = rb_StartPos b1 \<and> rb_Size b' = rb_Size b1 \<and>
      (\<forall>x. win (rb_Size b1) s x \<longrightarrow> rb_at b' s x = (if \<not> pa \<and> k + 1 \<le> x \<and> x \<le> j then None else rb_at b1 s x))"
      by (rule Suc.IH) (use c(1) S1 u1 Suc.prems(3-8) kj byt(3) b1 in \<open>simp_all\<close>)
    have "insert k D \<union> {k + 1..j} = D \<union> {k..j}" using kj by auto
    moreover have "d = take (nat rs) (payload w k j)"
    proof -
      have "nat rs1 = nat rs - length bytes" using byt(2,3) by simp
      moreover have "take (nat rs - length bytes) xs = take (nat rs - length (fst (w k))) xs" for xs :: "byte list"
        by (cases "length (fst (w k)) \<le> nat rs") (simp_all add: byt(1) min_def)
      ultimately show ?thesis using IH c(2) byt(1) by (simp add: payload_Cons [OF kj])
    qed
    moreover have "rs' = rs - int (length d)" using IH c(2) byt by simp
    moreover have "rb_at b' s x = (if \<not> pa \<and> k \<le> x \<and> x \<le> j then None else rb_at b s x)" if "win (rb_Size b) s x" for x
      using IH at1 [OF that] that kj b1(2) by auto
    ultimately show ?thesis using IH b1 by simp
  qed
qed simp

text \<open>What a read gives: nothing, or a message that was received whole and not read before, as far as there is room for it.
  When the message is one to be kept in order, the ring then begins after it.\<close>

definition reads :: "stream \<Rightarrow> int set \<Rightarrow> int \<Rightarrow> int set \<Rightarrow> int \<Rightarrow> int \<Rightarrow> byte list \<Rightarrow> int \<Rightarrow> int set \<Rightarrow> bool" where
  "reads w G s D len n d s' D' \<longleftrightarrow> (D' = D \<and> n = 0 \<and> d = []) \<or>
     (\<exists>i j. message w i j \<and> s \<le> i \<and> {i..j} \<subseteq> G - D \<and> (in_order (snd (w j)) \<longrightarrow> j < s') \<and> d = take (nat len) (payload w i j) \<and>
       n = int (length d) \<and> D' = D \<union> {i..j})"

lemma readMsg_stream:
  assumes S: "stream_buffer w s a G D b pool" and fr: "framed w" and r: "CRcvBuffer_readMsg len b pool = Some (n, d, b', pool')" "0 \<le> len"
  shows "\<exists>s' D'. s \<le> s' \<and> s' \<le> a \<and> stream_buffer w s' a G D' b' pool' \<and> rb_Size b' = rb_Size b \<and> reads w G s D len n d s' D'"
proof -
  obtain found p q pa b1 pool1 where sc: "CRcvBuffer_scanMsg b pool = Some ((found, p, q, pa), b1, pool1)"
    using scan_total [OF stream_bufferD(1) [OF S], of pool] by metis
  obtain t where t: "s \<le> t" "t \<le> a" "stream_buffer w t a G D b1 pool1" "rb_Size b1 = rb_Size b"
    and cs: "found \<longrightarrow> pa \<and> p = (q + 1) smod rb_Size b1 \<or>
      (\<exists>i j. p = pos b1 t i \<and> q = pos b1 t j \<and> t \<le> i \<and> message w i j \<and> (\<forall>x\<in>{i..j}. unread b1 pool1 t x) \<and>
        j < t + rb_Size b1 \<and> (in_order (snd (w j)) \<longrightarrow> \<not> pa) \<and> (\<not> pa \<longrightarrow> i = t \<and> j < a))"
    using scan_stream [OF S fr sc] by blast
  have none: "reads w G s D len 0 [] x D" for x by (simp add: reads_def)
  show ?thesis
  proof (cases found)
    case False
    then have "b' = b1 \<and> pool' = pool1 \<and> n = 0 \<and> d = []" using r(1) sc by (simp add: CRcvBuffer_readMsg_def)
    then show ?thesis using none t by (intro exI [of _ t] exI [of _ D]) simp
  next
    case True
    then obtain d1 rs b2 pool2 where c: "copy_msg (Suc (nat (rb_Size b1))) p q pa len b1 pool1 = Some (d1, rs, b2, pool2)"
        "n = len - rs" "d = d1" "pool' = pool2" "b' = (if \<not> pa then b2\<lparr>rb_StartPos := (q + 1) smod rb_Size b2\<rparr> else b2)"
      using r(1) sc by (auto simp: CRcvBuffer_readMsg_def simp del: copy_msg.simps)
    from cs True consider "pa" "p = (q + 1) smod rb_Size b1"
      | i j where "p = pos b1 t i" "q = pos b1 t j" "t \<le> i" "message w i j" "\<forall>x\<in>{i..j}. unread b1 pool1 t x"
        "j < t + rb_Size b1" "in_order (snd (w j)) \<longrightarrow> \<not> pa" "\<not> pa \<longrightarrow> i = t \<and> j < a" by blast
    then show ?thesis
    proof cases
      case 1
      have "b' = b1 \<and> pool' = pool1 \<and> n = 0 \<and> d = []" using 1 c by simp
      then show ?thesis using none t by (intro exI [of _ t] exI [of _ D]) simp
    next
      case (2 i j)
      have ij: "i \<le> j" using 2(4) by (simp add: message_def)
      have C: "d1 = take (nat len) (payload w i j) \<and> rs = len - int (length d1) \<and> stream_buffer w t a G (D \<union> {i..j}) b2 pool2 \<and>
          rb_StartPos b2 = rb_StartPos b1 \<and> rb_Size b2 = rb_Size b1 \<and>
          (\<forall>x. win (rb_Size b1) t x \<longrightarrow> rb_at b2 t x = (if \<not> pa \<and> i \<le> x \<and> x \<le> j then None else rb_at b1 t x))"
        by (rule copy_msg_stream [OF c(1) [unfolded 2(1,2)] t(3)]) (use 2 ij r(2) in auto)
      have new: "{i..j} \<subseteq> G - D"
      proof
        fix x
        assume x: "x \<in> {i..j}"
        then have "win (rb_Size b1) t x" using 2(3,6) by (simp add: win_def)
        then show "x \<in> G - D" using unread_cell [OF t(3) _ bspec [OF 2(5) x]] by blast
      qed
      have R: "reads w G s D len n d x (D \<union> {i..j})" if "in_order (snd (w j)) \<longrightarrow> j < x" for x
        unfolding reads_def using 2(3,4) t(1) new C c(2,3) that by (intro disjI2 exI [of _ i] exI [of _ j]) auto
      show ?thesis
      proof (cases pa)
        case True
        then show ?thesis using R [of t] 2(7) C c t by (intro exI [of _ t] exI [of _ "D \<union> {i..j}"]) simp
      next
        case False
        then have ia: "i = t" "j < a" using 2(8) by simp_all
        have "rb_at b2 t x = None" if x: "x \<in> {t..<j + 1}" for x
        proof -
          have "win (rb_Size b1) t x" "i \<le> x" "x \<le> j" using x 2(6) ia(1) by (auto simp: win_def)
          then show ?thesis using C False by simp
        qed
        then have "stream_buffer w (j + 1) a G (D \<union> {i..j}) (b2\<lparr>rb_StartPos := pos b2 t (j + 1)\<rparr>) pool2"
          using C ia ij by (intro advance_stream [of w t a G "D \<union> {i..j}" b2 pool2]) auto
        moreover have "b' = b2\<lparr>rb_StartPos := pos b2 t (j + 1)\<rparr>"
          using c(5) False C pos_next [OF stream_bufferD(5) [OF t(3)], of t j] by (simp add: 2(2) pos_def)
        ultimately show ?thesis using R [of "j + 1"] C c t ia ij by (intro exI [of _ "j + 1"] exI [of _ "D \<union> {i..j}"]) simp
      qed
    qed
  qed
qed

section \<open>Storing, acknowledging, dropping\<close>

lemma ackData_stream:
  assumes S: "stream_buffer w s a G D b pool" and k: "a \<le> k" "k < s + rb_Size b"
  shows "stream_buffer w s k G D (CRcvBuffer_ackData (k - a) b) pool \<and> rb_Size (CRcvBuffer_ackData (k - a) b) = rb_Size b"
proof -
  note d = stream_bufferD [OF S]
  let ?b = "CRcvBuffer_ackData (k - a) b"
  have f: "rb_Unit ?b = rb_Unit b" "rb_Size ?b = rb_Size b" "rb_StartPos ?b = rb_StartPos b"
    "rb_LastAckPos ?b = (rb_LastAckPos b + (k - a)) smod rb_Size b" "rb_MaxPos ?b = max 0 (rb_MaxPos b - (k - a))"
    by (auto simp: CRcvBuffer_ackData_def Let_def max_def)
  have p: "pos ?b s x = pos b s x" "rb_at ?b s x = rb_at b s x" for x by (simp_all add: pos_def rb_at_def f)
  have "rb_LastAckPos ?b = pos b s k"
    using place_add_nonneg [OF d(5), of "k - a" "rb_StartPos b" "a - s"] k(1) by (simp add: f d(3) pos_def)
  moreover have "rb_inv ?b" using d(1) k(1) pos_range [OF d(5), of s k] calculation by (simp add: rb_inv_def f)
  ultimately show ?thesis using d k unfolding stream_buffer_def p f by auto
qed

lemma addData_stream:
  assumes S: "stream_buffer w s a G D b pool" and x: "CRcvBuffer_addData r off b pool = (x, b', pool')"
    and off: "0 \<le> off" "off < CRcvBuffer_getAvailBufSize b"
    and r: "is_unit pool r" "m_iFlag (unit_at pool r) = 0" "carries (m_Packet (unit_at pool r)) (w (a + off))"
  shows "rb_Size b' = rb_Size b \<and> a + off + 1 < s + rb_Size b \<and> stream_buffer w s a (if x = 0 then insert (a + off) G else G) D b' pool'"
proof -
  note d = stream_bufferD [OF S]
  let ?k = "a + off" and ?b = "b\<lparr>rb_MaxPos := max (rb_MaxPos b) off\<rparr>"
  have lim: "?k + 1 < s + rb_Size b"
    using off(2) by (simp add: CRcvBuffer_getAvailBufSize_def getRcvDataSize_stream [OF S])
  have wk: "win (rb_Size b) s ?k" using lim off(1) d(2) by (simp add: win_def)
  have at: "pos ?b t x = pos b t x" "rb_at ?b t x = rb_at b t x" "slot ?b i = slot b i" for t x i by (simp_all add: pos_def rb_at_def)
  have B: "stream_buffer w s a G D ?b pool" using d lim off(1) unfolding stream_buffer_def at by (auto simp: rb_inv_def)
  have p: "(rb_LastAckPos b + off) smod rb_Size b = pos b s ?k"
  proof -
    have "a - s + off = a + off - s" by simp
    then show ?thesis using place_add_nonneg [OF d(5) off(1), of "rb_StartPos b" "a - s"] unfolding d(3) pos_def by (simp only:)
  qed
  have b': "(x, b', pool') = (if None \<noteq> slot b (pos b s ?k) then (- 1, ?b, pool) else (0, put_slot (pos b s ?k) (Some r) ?b, add_Count 1 (set_flag r 1 pool)))"
    unfolding x [symmetric] by (simp add: CRcvBuffer_addData_def Let_def p max_def)
  show ?thesis
  proof (cases "slot b (pos b s ?k) = None")
    case False
    then have "x = - 1" "b' = ?b" "pool' = pool" using b' by (metis prod.inject)+
    then show ?thesis using B lim by simp
  next
    case True
    let ?c = "put_slot (pos ?b s ?k) (Some r) ?b" and ?q = "add_Count 1 (set_flag r 1 pool)"
    have e: "x = 0" "b' = ?c" "pool' = ?q" using b' True by (simp_all add: at)
    note dB = stream_bufferD [OF B]
    have ck: "rb_at ?c s j = (if j = ?k then Some r else rb_at b s j)" if "win (rb_Size b) s j" for j
      using rb_at_put [OF dB(1), of s ?k j "Some r"] wk that by (simp add: at)
    have pc: "pos ?c s a = pos b s a" by (simp add: pos_def)
    have kD: "?k \<notin> D" using d(11) [of ?k] True off(1) by (auto simp: rb_at_def)
    have new: "y \<noteq> r" if "win (rb_Size b) s j" "rb_at b s j = Some y" for j y
      using d(9) [OF that] r(2) by (auto simp: holds_packet_def)
    have h: "holds_packet w (s + rb_Size b - 1) (insert ?k G) D ?q j y" if w: "win (rb_Size b) s j" and y: "rb_at ?c s j = Some y" for j y
    proof (cases "j = ?k")
      case True
      then have "y = r" using y unfolding ck [OF w] by simp
      then show ?thesis using True r kD lim by (simp add: holds_packet_def unit_at_set_flag)
    next
      case False
      then have "rb_at b s j = Some y" using y unfolding ck [OF w] by simp
      then show ?thesis using d(9) [OF w] new [OF w] r(1) by (simp add: holds_packet_def unit_at_set_flag)
    qed
    have inj: "i = j" if "win (rb_Size b) s i" "win (rb_Size b) s j" "rb_at ?c s i = Some y" "rb_at ?c s j = Some y" for i j y
      using that d(10) [OF that(1,2)] new [OF that(1)] new [OF that(2)] unfolding ck [OF that(1)] ck [OF that(2)] by (auto split: if_split_asm)
    have dd: "win (rb_Size b) s j \<and> rb_at ?c s j \<noteq> None" if "j \<in> D" "a \<le> j" for j
      using d(11) [OF that] ck [of j] by auto
    have "stream_buffer w s a (insert ?k G) D ?c ?q"
      unfolding stream_buffer_def put_slot_simps pc using dB(1-4) d(8) h inj dd by (auto simp: at simp del: put_slot_simps)
    then show ?thesis using e lim by simp
  qed
qed

lemma drop_from_stream:
  assumes "drop_from f m n i b pool = Some pool'" "stream_buffer w s a G D b pool" "0 \<le> i" "i < rb_Size b"
  shows "stream_buffer w s a G D b pool'"
  using assms
proof (induction f arbitrary: i pool)
  case (Suc f)
  note d = stream_bufferD [OF Suc.prems(2)]
  obtain x where x: "win (rb_Size b) 0 x" "place (rb_Size b) (rb_StartPos b) x = i" by (rule place_surj [OF d(5) Suc.prems(3,4)])
  have k: "win (rb_Size b) s (x + s)" "pos b s (x + s) = i" using x by (auto simp: win_def pos_def)
  have nx: "0 \<le> (i + 1) smod rb_Size b" "(i + 1) smod rb_Size b < rb_Size b" using d(5) Suc.prems(3) by simp_all
  have mark: "stream_buffer w s a G D b (set_flag r 3 pool)" if "slot b i = Some r" for r
    by (rule mark_again [OF Suc.prems(2) k(1)]) (use that k(2) in \<open>simp_all add: rb_at_def\<close>)
  show ?case
  proof (cases "i = n")
    case False
    define q where "q = (case slot b i of None \<Rightarrow> pool | Some u \<Rightarrow> if m = m_iMsgNo (m_Packet (unit_at pool u)) then set_flag u 3 pool else pool)"
    have "stream_buffer w s a G D b q" using Suc.prems(2) mark by (cases "slot b i") (simp_all add: q_def)
    moreover have "drop_from f m n ((i + 1) smod rb_Size b) b q = Some pool'"
      using Suc.prems(1) unfolding drop_from.simps if_P [OF False] Let_def q_def .
    ultimately show ?thesis using Suc.IH nx by blast
  qed (use Suc.prems(1,2) in simp)
qed simp

lemma dropMsg_stream:
  assumes "CRcvBuffer_dropMsg m b pool = Some pool'" "stream_buffer w s a G D b pool"
  shows "stream_buffer w s a G D b pool'"
  using drop_from_stream [OF assms(1) [unfolded CRcvBuffer_dropMsg_def] assms(2)] stream_bufferD(1) [OF assms(2)] by (simp add: rb_inv_def)

text \<open>Other sockets share the pool: they leave the units of this buffer alone.\<close>

definition keeps_units :: "CRcvBuffer \<Rightarrow> CUnitQueue \<Rightarrow> CUnitQueue \<Rightarrow> bool" where
  "keeps_units b pool pool' \<longleftrightarrow> (\<forall>r. Some r \<in> set (rb_Unit b) \<longrightarrow> is_unit pool' r \<and> unit_at pool' r = unit_at pool r)"

lemma keeps_stream:
  assumes S: "stream_buffer w s a G D b pool" and k: "keeps_units b pool pool'"
  shows "stream_buffer w s a G D b pool'"
proof -
  note d = stream_bufferD [OF S]
  have "holds_packet w (s + rb_Size b - 1) G D pool' j r" if "win (rb_Size b) s j" "rb_at b s j = Some r" for j r
  proof -
    have "inb (rb_Unit b) (pos b s j)" using d(1) pos_range [OF d(5), of s j] by (simp add: inb_def rb_inv_def)
    then have "Some r \<in> set (rb_Unit b)" using aget_in_set that(2) by (force simp: rb_at_def)
    then have "is_unit pool' r \<and> unit_at pool' r = unit_at pool r" using k unfolding keeps_units_def by blast
    then show ?thesis using d(9) [OF that] by (simp add: holds_packet_def)
  qed
  moreover have "\<forall>j\<in>D. a \<le> j \<longrightarrow> win (rb_Size b) s j \<and> rb_at b s j \<noteq> None" using d(11) by simp
  ultimately show ?thesis unfolding stream_buffer_def using d(1-4,8,10) by blast
qed

lemma new_stream:
  assumes "0 < sz"
  shows "stream_buffer w 0 0 {} {} (CRcvBuffer_new sz) pool"
proof -
  have "rb_at (CRcvBuffer_new sz) 0 k = None" for k
    using pos_range [of "CRcvBuffer_new sz" 0 k] assms by (simp add: rb_at_def CRcvBuffer_new_def)
  moreover have "rb_LastAckPos (CRcvBuffer_new sz) = pos (CRcvBuffer_new sz) 0 0" by (simp add: pos_def place_def CRcvBuffer_new_def)
  ultimately show ?thesis using new_buffer_inv [OF assms] assms by (simp add: stream_buffer_def) (simp add: CRcvBuffer_new_def)
qed

end
