(* ===== verification/DeliverySpec.thy ===== *)
theory DeliverySpec imports ReceiverSpec StreamBuffer begin

text \<open>
  What the application reads (\<open>recvmsg\<close> of \<open>core.cpp\<close>, \<open>readMsg\<close> of \<open>buffer.cpp\<close>): in every run of a socket each message
  given out is a message of the peer's stream, complete and unchanged, none is given out twice, and messages to be
  kept in order are.
\<close>

section \<open>The socket as a window on the stream\<close>

definition delivers :: "int32 \<Rightarrow> stream \<Rightarrow> receiver_spec \<Rightarrow> int \<Rightarrow> int set \<Rightarrow> CUDT \<Rightarrow> CUnitQueue \<Rightarrow> bool" where
  "delivers isn w R s D u pool \<longleftrightarrow> receives isn R u \<and>
     (\<exists>b. u_RcvBuffer u = Some b \<and> stream_buffer w s (rs_Acked R) (rs_Got R) D b pool \<and> rs_Next R < s + rb_Size b)"

lemma delivers_same: "delivers isn w R s D u pool \<Longrightarrow> same_receiver u v \<Longrightarrow> delivers isn w R s D v pool"
  using receives_same by (auto simp: delivers_def same_receiver_def)

lemma delivers_acks:
  assumes d: "delivers isn w R s D u pool" and a: "acks isn R k u v"
  shows "delivers isn w (R\<lparr>rs_Acked := k\<rparr>) s D v pool"
proof -
  obtain b where b: "u_RcvBuffer u = Some b" "stream_buffer w s (rs_Acked R) (rs_Got R) D b pool" "rs_Next R < s + rb_Size b"
    using d by (auto simp: delivers_def)
  have k: "rs_Acked R \<le> k" "k < s + rb_Size b" using a b(3) by (auto simp: acks_def covered_to_def)
  show ?thesis using ackData_stream [OF b(2) k] a b(1,3) by (simp add: delivers_def acks_def)
qed

section \<open>Steps\<close>

text \<open>The stream position of a packet that comes is the one nearest to the last packet acknowledged, \<open>a\<close>; the packet is
  that of the stream. It arrives in a free unit of the pool. Between the steps other sockets change the pool, but not the
  units of this socket.\<close>

definition genuine :: "stream \<Rightarrow> int \<Rightarrow> CUDT \<Rightarrow> CPacket \<Rightarrow> bool" where
  "genuine w a u p \<longleftrightarrow> valid_seq (m_iSeqNo p) \<and> carries p (w (a + seqoff (u_RcvLastAck u) (m_iSeqNo p)))"

definition drop_in_buffer :: "CPacket \<Rightarrow> CUDT \<Rightarrow> bool" where
  "drop_in_buffer p u \<longleftrightarrow> fair_drop p u \<and> seqoff (u_RcvLastAck u) (word_at p 1) < CRcvBuffer_getAvailBufSize (the (u_RcvBuffer u))"

text \<open>What a call of \<open>recvmsg\<close> with room for \<open>len\<close> bytes gives to the application.\<close>

fun given :: "int \<Rightarrow> CUDTException + int \<times> byte list \<Rightarrow> (int \<times> byte list) list" where
  "given len (Inr (n, d)) = (if 0 < n then [(len, d)] else [])"
| "given len (Inl e) = []"

text \<open>What a socket does without a packet of data, and what it gives out.\<close>

inductive own_step :: "CUDT \<Rightarrow> CUnitQueue \<Rightarrow> (int \<times> byte list) list \<Rightarrow> CUDT \<Rightarrow> CUnitQueue \<Rightarrow> bool" where
  own_ctrl: "CUDT_processCtrl rand us tk p u pool = Some (v, pool') \<Longrightarrow> getType p \<noteq> 7 \<Longrightarrow> own_step u pool [] v pool'"
| own_read: "CUDT_recvmsg len u pool = Some (r, v, pool') \<Longrightarrow> own_step u pool (given len r) v pool'"
| own_timers: "CUDT_checkTimers us tk u = Some v \<Longrightarrow> own_step u pool [] v pool"
| own_pack: "CUDT_packData us tk p ts u = Some (n, q, ts', v) \<Longrightarrow> own_step u pool [] v pool"
| own_sendmsg: "CUDT_sendmsg g mem us tk data len ttl order u = Some (r, v) \<Longrightarrow> own_step u pool [] v pool"
| own_close: "CUDT_close us tk garbage cache u = Some (v, cache') \<Longrightarrow> own_step u pool [] v pool"
| own_pool: "keeps_units (the (u_RcvBuffer u)) pool pool' \<Longrightarrow> own_step u pool [] u pool'"

inductive delivery_step :: "stream \<Rightarrow> int \<Rightarrow> CUDT \<Rightarrow> CUnitQueue \<Rightarrow> (int \<times> byte list) list \<Rightarrow> CUDT \<Rightarrow> CUnitQueue \<Rightarrow> bool" for w a where
  dl_data: "CUDT_processData us tk ref u pool = Some (r, v, pool') \<Longrightarrow> is_unit pool ref \<Longrightarrow> m_iFlag (unit_at pool ref) = 0 \<Longrightarrow>
    genuine w a u (m_Packet (unit_at pool ref)) \<Longrightarrow> delivery_step w a u pool [] v pool'"
| dl_drop: "CUDT_processCtrl rand us tk p u pool = Some (v, pool') \<Longrightarrow> getType p = 7 \<Longrightarrow> drop_in_buffer p u \<Longrightarrow>
    delivery_step w a u pool [] v pool'"
| dl_own: "own_step u pool ds v pool' \<Longrightarrow> delivery_step w a u pool ds v pool'"

text \<open>A run with what is read in it and how far it is acknowledged at the end.\<close>

inductive delivery_run :: "stream \<Rightarrow> CUDT \<Rightarrow> CUnitQueue \<Rightarrow> (int \<times> byte list) list \<Rightarrow> int \<Rightarrow> CUDT \<Rightarrow> CUnitQueue \<Rightarrow> bool" for w u pool where
  dl_start: "delivery_run w u pool [] 0 u pool"
| dl_step: "delivery_run w u pool out a v q \<Longrightarrow> delivery_step w a v q ds v' q' \<Longrightarrow>
    delivery_run w u pool (out @ ds) (a + seqoff (u_RcvLastAck v) (u_RcvLastAck v')) v' q'"

text \<open>What is read are messages of the stream, cut to the room there is, none twice, those to be kept in order before all that
  are read later.\<close>

definition given_out :: "stream \<Rightarrow> (int \<times> byte list) list \<Rightarrow> (int \<times> int) list \<Rightarrow> bool" where
  "given_out w out ms \<longleftrightarrow> list_all2 (\<lambda>(len, d) (i, j). message w i j \<and> d \<noteq> [] \<and> d = take (nat len) (payload w i j)) out ms \<and>
     distinct (concat (map (\<lambda>(i, j). [i..j]) ms)) \<and>
     (\<forall>x y. x < y \<and> y < length ms \<longrightarrow> in_order (snd (w (snd (ms ! x)))) \<longrightarrow> snd (ms ! x) < fst (ms ! y))"

definition progress :: "stream \<Rightarrow> (int \<times> byte list) list \<Rightarrow> int \<Rightarrow> int set \<Rightarrow> bool" where
  "progress w out s D \<longleftrightarrow> (\<exists>ms. given_out w out ms \<and> set (concat (map (\<lambda>(i, j). [i..j]) ms)) \<subseteq> D \<and>
     (\<forall>m\<in>set ms. in_order (snd (w (snd m))) \<longrightarrow> snd m < s))"

lemma progress_mono:
  assumes "progress w out s D" "s \<le> s'" "D \<subseteq> D'"
  shows "progress w out s' D'"
proof -
  obtain ms where ms: "given_out w out ms" "set (concat (map (\<lambda>(i, j). [i..j]) ms)) \<subseteq> D" "\<forall>m\<in>set ms. in_order (snd (w (snd m))) \<longrightarrow> snd m < s"
    using assms(1) unfolding progress_def by blast
  have "\<forall>m\<in>set ms. in_order (snd (w (snd m))) \<longrightarrow> snd m < s'" using ms(3) assms(2) by fastforce
  then show ?thesis using ms(1,2) assms(3) unfolding progress_def by blast
qed

lemma progress_read:
  assumes p: "progress w out s D" and m: "message w i j" "s \<le> i" "{i..j} \<inter> D = {}" "in_order (snd (w j)) \<longrightarrow> j < s'" "s \<le> s'"
    "take (nat len) (payload w i j) \<noteq> []"
  shows "progress w (out @ [(len, take (nat len) (payload w i j))]) s' (D \<union> {i..j})"
proof -
  obtain ms where ms: "given_out w out ms" "set (concat (map (\<lambda>(i, j). [i..j]) ms)) \<subseteq> D" "\<forall>m\<in>set ms. in_order (snd (w (snd m))) \<longrightarrow> snd m < s"
    using p unfolding progress_def by blast
  let ?ms = "ms @ [(i, j)]"
  have "list_all2 (\<lambda>(len, d) (i, j). message w i j \<and> d \<noteq> [] \<and> d = take (nat len) (payload w i j)) (out @ [(len, take (nat len) (payload w i j))]) ?ms"
    using ms(1) m(1,6) by (intro list_all2_appendI) (simp_all add: given_out_def)
  moreover have "distinct (concat (map (\<lambda>(i, j). [i..j]) ?ms))"
    using ms(1,2) m(3) by (auto simp: given_out_def)
  moreover have "snd (?ms ! x) < fst (?ms ! y)" if "x < y" "y < length ?ms" "in_order (snd (w (snd (?ms ! x))))" for x y
  proof (cases "y < length ms")
    case True
    then show ?thesis using ms(1) that by (simp add: given_out_def nth_append)
  next
    case False
    then have y: "y = length ms" "x < length ms" using that by simp_all
    then have "in_order (snd (w (snd (ms ! x))))" using that(3) by (simp add: nth_append)
    then have "snd (ms ! x) < s" using ms(3) y(2) by auto
    then show ?thesis using y m(2) by (simp add: nth_append)
  qed
  ultimately have "given_out w (out @ [(len, take (nat len) (payload w i j))]) ?ms" by (auto simp: given_out_def)
  moreover have "set (concat (map (\<lambda>(i, j). [i..j]) ?ms)) \<subseteq> D \<union> {i..j}" using ms(2) by auto
  moreover have "\<forall>m\<in>set ?ms. in_order (snd (w (snd m))) \<longrightarrow> snd m < s'" using ms(3) m(4,5) by fastforce
  ultimately show ?thesis unfolding progress_def by blast
qed

lemma acked_position:
  assumes "receives isn R u" "acks isn R k u v"
  shows "rs_Acked R + seqoff (u_RcvLastAck u) (u_RcvLastAck v) = k"
proof -
  from assms(1) obtain l where l: "u_RcvLastAck u = seq_at isn (rs_Acked R)" "rs_Next R - rs_Acked R \<le> rl_Size l" "CRcvLossList_inv l"
    by (auto simp: receives_def)
  have c: "0 < rl_Size l" "2 * rl_Size l < m_iSeqNoTH" using rcv_gaps.cap_bound [OF l(3)] by simp_all
  have "u_RcvLastAck v = seq_at isn k" "rs_Acked R \<le> k" "k \<le> rs_Next R"
    using assms(2) by (auto simp: acks_def receives_def covered_to_def)
  moreover from this have "\<bar>k - rs_Acked R\<bar> < m_iSeqNoTH" using l(2) c by linarith
  ultimately show ?thesis by (simp add: l(1) seq.off_window)
qed

lemma same_position: "same_receiver u v \<Longrightarrow> seqoff (u_RcvLastAck u) (u_RcvLastAck v) = 0"
  by (simp add: same_receiver_def seqoff_def serial_consts)

lemma ctrl_pool: "CUDT_processCtrl rand us tk p u pool = Some (v, pool') \<Longrightarrow> getType p \<noteq> 7 \<Longrightarrow> pool' = pool"
  by (auto simp: CUDT_processCtrl_def Let_def split: if_split_asm)

section \<open>Every step\<close>

definition still_delivers :: "int32 \<Rightarrow> stream \<Rightarrow> (int \<times> byte list) list \<Rightarrow> int \<Rightarrow> CUDT \<Rightarrow> CUnitQueue \<Rightarrow> bool" where
  "still_delivers isn w out a u pool \<longleftrightarrow> (\<exists>R s D. delivers isn w R s D u pool \<and> progress w out s D \<and> rs_Acked R = a)"

lemma still_same:
  assumes "still_delivers isn w out a u pool" "same_receiver u v"
  shows "still_delivers isn w out (a + seqoff (u_RcvLastAck u) (u_RcvLastAck v)) v pool"
  using assms delivers_same by (fastforce simp: still_delivers_def same_position)

lemma still_acks:
  assumes "still_delivers isn w out a u pool" "\<And>R. receives isn R u \<Longrightarrow> \<exists>k. acks isn R k u v"
  shows "still_delivers isn w out (a + seqoff (u_RcvLastAck u) (u_RcvLastAck v)) v pool"
proof -
  obtain R s D where d: "delivers isn w R s D u pool" "progress w out s D" "rs_Acked R = a"
    using assms(1) by (auto simp: still_delivers_def)
  then have r: "receives isn R u" by (simp add: delivers_def)
  then obtain k where k: "acks isn R k u v" using assms(2) by blast
  show ?thesis unfolding still_delivers_def
    using delivers_acks [OF d(1) k] d(2,3) acked_position [OF r k] by (intro exI [of _ "R\<lparr>rs_Acked := k\<rparr>"] exI [of _ s] exI [of _ D]) simp
qed

lemma ack_unchanged:
  assumes "receives isn R u" "receives isn R' v" "rs_Acked R' = rs_Acked R"
  shows "seqoff (u_RcvLastAck u) (u_RcvLastAck v) = 0"
  using assms by (simp add: receives_def seqoff_def serial_consts)

lemma data_delivers:
  assumes d: "still_delivers isn w out a u pool" and p: "CUDT_processData us tk ref u pool = Some (r, v, pool')"
    and u: "is_unit pool ref" "m_iFlag (unit_at pool ref) = 0" "genuine w a u (m_Packet (unit_at pool ref))"
  shows "still_delivers isn w out (a + seqoff (u_RcvLastAck u) (u_RcvLastAck v)) v pool'"
proof -
  obtain R s D where d: "delivers isn w R s D u pool" "progress w out s D" "rs_Acked R = a"
    using d by (auto simp: still_delivers_def)
  then obtain b where R: "receives isn R u" and b: "u_RcvBuffer u = Some b" "stream_buffer w s a (rs_Got R) D b pool" "rs_Next R < s + rb_Size b"
    by (auto simp: delivers_def)
  let ?p = "m_Packet (unit_at pool ref)"
  have g: "valid_seq (m_iSeqNo ?p)" "carries ?p (w (position_of R u (m_iSeqNo ?p)))" using u(3) d(3) by (simp_all add: genuine_def position_of_def)
  obtain k R' b' where k: "k = position_of R u (m_iSeqNo ?p)" "R' = (if r = 0 then take_in k R else R)" "receives isn R' v" "u_RcvBuffer v = Some b'"
      "r \<noteq> 0 \<and> b' = b \<and> pool' = pool \<or> 0 \<le> k - a \<and> k - a < CRcvBuffer_getAvailBufSize b \<and>
       (\<exists>x. CRcvBuffer_addData ref (k - a) b pool = (x, b', pool') \<and> (r = 0 \<longleftrightarrow> x = 0))"
    using processData_outcome [OF R p g(1)] b(1) d(3) by auto
  have a': "rs_Acked R' = a" using k(2) d(3) by (simp add: take_in_def)
  have "stream_buffer w s a (rs_Got R') D b' pool' \<and> rs_Next R' < s + rb_Size b'"
    using k(5)
  proof
    assume "r \<noteq> 0 \<and> b' = b \<and> pool' = pool"
    then show ?thesis using b(2,3) k(2) by simp
  next
    assume "0 \<le> k - a \<and> k - a < CRcvBuffer_getAvailBufSize b \<and> (\<exists>x. CRcvBuffer_addData ref (k - a) b pool = (x, b', pool') \<and> (r = 0 \<longleftrightarrow> x = 0))"
    then obtain x where x: "0 \<le> k - a" "k - a < CRcvBuffer_getAvailBufSize b" "CRcvBuffer_addData ref (k - a) b pool = (x, b', pool')" "r = 0 \<longleftrightarrow> x = 0"
      by blast
    have "carries ?p (w (a + (k - a)))" using g(2) k(1) by simp
    have e: "a + (k - a) = k" by simp
    from addData_stream [OF b(2) x(3,1,2) u(1,2) \<open>carries ?p (w (a + (k - a)))\<close>] show ?thesis unfolding e using x(4) k(2) b(3) by (cases "x = 0") (simp_all add: take_in_def)
  qed
  then have "delivers isn w R' s D v pool'" using k(3,4) a' by (simp add: delivers_def)
  then show ?thesis using d(2) a' ack_unchanged [OF R k(3)] d(3) unfolding still_delivers_def by (intro exI [of _ R'] exI [of _ s] exI [of _ D]) simp
qed

lemma drop_delivers:
  assumes d: "still_delivers isn w out a u pool" and p: "CUDT_processCtrl rand us tk p u pool = Some (v, pool')" "getType p = 7" and f: "drop_in_buffer p u"
  shows "still_delivers isn w out (a + seqoff (u_RcvLastAck u) (u_RcvLastAck v)) v pool'"
proof -
  let ?u = "heard_from_peer tk u"
  have q: "drop_request p ?u pool = Some (v, pool')" using p by (simp add: CUDT_processCtrl_def Let_def)
  have s: "same_receiver u ?u" by (simp add: heard_from_peer_def same_receiver_def)
  have f': "fair_drop p ?u" using f by (simp add: drop_in_buffer_def fair_drop_def heard_from_peer_def)
  obtain R s D where d: "delivers isn w R s D u pool" "progress w out s D" "rs_Acked R = a"
    using d by (auto simp: still_delivers_def)
  then obtain b where R: "receives isn R u" and b: "u_RcvBuffer u = Some b" "stream_buffer w s a (rs_Got R) D b pool" "rs_Next R < s + rb_Size b"
    by (auto simp: delivers_def)
  obtain R' where R': "receives isn R' v" "rs_Got R' = rs_Got R" "rs_Acked R' = rs_Acked R"
      "rs_Next R' \<le> max (rs_Next R) (position_of R ?u (word_at p 1) + 1)" "u_RcvBuffer v = Some b" "CRcvBuffer_dropMsg (getMsgSeq p) b pool = Some pool'"
    using drop_request_outcome [OF receives_same [OF R s] q f'] b(1) s by (auto simp: same_receiver_def)
  have "position_of R ?u (word_at p 1) + 1 < s + rb_Size b"
    using f b(1) d(3) by (simp add: drop_in_buffer_def position_of_def heard_from_peer_def CRcvBuffer_getAvailBufSize_def getRcvDataSize_stream [OF b(2)])
  then have "rs_Next R' < s + rb_Size b" using R'(4) b(3) by linarith
  then have "delivers isn w R' s D v pool'" using R' dropMsg_stream [OF R'(6) b(2)] d(3) by (simp add: delivers_def)
  then show ?thesis using d(2,3) R'(3) ack_unchanged [OF R R'(1,3)] unfolding still_delivers_def by (intro exI [of _ R'] exI [of _ s] exI [of _ D]) simp
qed

lemma read_delivers:
  assumes d: "still_delivers isn w out a u pool" and fr: "framed w" and r: "CUDT_recvmsg len u pool = Some (r, v, pool')"
  shows "still_delivers isn w (out @ given len r) (a + seqoff (u_RcvLastAck u) (u_RcvLastAck v)) v pool'"
proof (cases "\<not> u_Connected u \<or> len \<le> 0")
  case True
  then have "v = u" "pool' = pool" "given len r = []" using r by (auto simp: CUDT_recvmsg_def split: if_splits)
  then show ?thesis using still_same [OF d same_receiver_refl] by simp
next
  case False
  obtain R s D where d: "delivers isn w R s D u pool" "progress w out s D" "rs_Acked R = a"
    using d by (auto simp: still_delivers_def)
  then obtain b where R: "receives isn R u" and b: "u_RcvBuffer u = Some b" "stream_buffer w s a (rs_Got R) D b pool" "rs_Next R < s + rb_Size b"
    by (auto simp: delivers_def)
  obtain n bs b' where m: "CRcvBuffer_readMsg len b pool = Some (n, bs, b', pool')" "v = u\<lparr>u_RcvBuffer := Some b'\<rparr>"
    and g: "given len r = (if 0 < n then [(len, bs)] else [])"
    using r False b(1) by (auto simp: CUDT_recvmsg_def Let_def split: if_splits option.splits)
  obtain s' D' where s': "s \<le> s'" "s' \<le> a" "stream_buffer w s' a (rs_Got R) D' b' pool'" "rb_Size b' = rb_Size b" "reads w (rs_Got R) s D len n bs s' D'"
    using readMsg_stream [OF b(2) fr m(1)] False by auto
  have "receives isn R v" by (rule recvmsg_step [OF r R])
  then have dv: "delivers isn w R s' D' v pool'" using s' b(3) d(3) m(2) by (simp add: delivers_def)
  have "progress w (out @ given len r) s' D'"
    using s'(5) unfolding reads_def
  proof (elim disjE exE)
    assume "D' = D \<and> n = 0 \<and> bs = []"
    then show ?thesis using progress_mono [OF d(2) s'(1)] g by simp
  next
    fix i j
    assume ij: "message w i j \<and> s \<le> i \<and> {i..j} \<subseteq> rs_Got R - D \<and> (in_order (snd (w j)) \<longrightarrow> j < s') \<and> bs = take (nat len) (payload w i j) \<and>
      n = int (length bs) \<and> D' = D \<union> {i..j}"
    show ?thesis
    proof (cases "0 < n")
      case True
      then have "take (nat len) (payload w i j) \<noteq> []" using ij by auto
      then show ?thesis using progress_read [OF d(2), of i j s' len] ij s'(1) g True by auto
    next
      case False
      then show ?thesis using progress_mono [OF d(2) s'(1), of D'] ij g by auto
    qed
  qed
  moreover have "seqoff (u_RcvLastAck u) (u_RcvLastAck v) = 0" by (simp add: m(2) seqoff_def serial_consts)
  ultimately show ?thesis using dv d(3) unfolding still_delivers_def by (intro exI [of _ R] exI [of _ s'] exI [of _ D']) simp
qed

lemma pool_delivers:
  assumes "still_delivers isn w out a u pool" "keeps_units (the (u_RcvBuffer u)) pool pool'"
  shows "still_delivers isn w out a u pool'"
  using assms keeps_stream by (fastforce simp: still_delivers_def delivers_def)

lemma own_step_socket: "own_step u pool ds v pool' \<Longrightarrow> socket_step\<^sup>*\<^sup>* u v"
  by (induction rule: own_step.induct) (auto intro: socket_step.intros)

lemma delivery_step_socket: "delivery_step w a u pool ds v pool' \<Longrightarrow> socket_step\<^sup>*\<^sup>* u v"
  by (induction rule: delivery_step.induct) (auto intro: socket_step.intros own_step_socket)

text \<open>What a socket does on its own changes the receiver at most by acknowledging more.\<close>

lemma own_step_acks:
  assumes "own_step u pool ds v pool'" "sizes_ok u" "receives isn R u"
  shows "(\<exists>k. acks isn R k u v) \<or> receives isn R v"
  using assms(1)
proof cases
  case (own_ctrl rand us tk p)
  then show ?thesis using receives_same [OF assms(3) processCtrl_recv [OF own_ctrl(2,3)]] by blast
next
  case (own_read len r)
  then show ?thesis using recvmsg_step [OF own_read(2) assms(3)] by blast
next
  case (own_timers us tk)
  then show ?thesis using checkTimers_acks [OF assms(3) own_timers(3) assms(2)] by blast
next
  case (own_pack us tk p ts n q ts')
  then show ?thesis using receives_same [OF assms(3) packData_recv [OF own_pack(3)]] by blast
next
  case (own_sendmsg g mem us tk data len ttl order r)
  then show ?thesis using receives_same [OF assms(3) sendmsg_recv [OF own_sendmsg(3)]] by blast
next
  case (own_close us tk garbage cache cache')
  then show ?thesis using receives_same [OF assms(3) close_recv [OF own_close(3)]] by blast
next
  case own_pool
  then show ?thesis using assms(3) by blast
qed

lemma own_step_keeps:
  assumes "own_step u pool ds v pool'" "still_delivers isn w out a u pool" "framed w" "sizes_ok u"
  shows "still_delivers isn w (out @ ds) (a + seqoff (u_RcvLastAck u) (u_RcvLastAck v)) v pool'"
  using assms(1)
proof cases
  case (own_ctrl rand us tk p)
  then show ?thesis using still_same [OF assms(2) processCtrl_recv [OF own_ctrl(2,3)]] ctrl_pool [OF own_ctrl(2,3)] by simp
next
  case (own_read len r)
  then show ?thesis using read_delivers [OF assms(2,3) own_read(2)] by simp
next
  case (own_timers us tk)
  then show ?thesis using still_acks [OF assms(2)] checkTimers_acks [OF _ own_timers(3) assms(4)] by simp
next
  case (own_pack us tk p ts n q ts')
  then show ?thesis using still_same [OF assms(2) packData_recv [OF own_pack(3)]] by simp
next
  case (own_sendmsg g mem us tk data len ttl order r)
  then show ?thesis using still_same [OF assms(2) sendmsg_recv [OF own_sendmsg(3)]] by simp
next
  case (own_close us tk garbage cache cache')
  then show ?thesis using still_same [OF assms(2) close_recv [OF own_close(3)]] by simp
next
  case own_pool
  then show ?thesis using pool_delivers [OF assms(2)] by (simp add: seqoff_def serial_consts)
qed

lemma delivery_step_keeps:
  assumes "delivery_step w a u pool ds v pool'" "still_delivers isn w out a u pool" "framed w" "sizes_ok u"
  shows "still_delivers isn w (out @ ds) (a + seqoff (u_RcvLastAck u) (u_RcvLastAck v)) v pool'"
  using assms(1)
proof cases
  case (dl_data us tk ref r)
  then show ?thesis using data_delivers [OF assms(2) dl_data(2-5)] by simp
next
  case (dl_drop rand us tk p)
  then show ?thesis using drop_delivers [OF assms(2) dl_drop(2-4)] by simp
next
  case dl_own
  then show ?thesis using own_step_keeps assms(2-4) by blast
qed

lemma delivery_run_keeps:
  assumes "delivery_run w u pool out a v q" "still_delivers isn w [] 0 u pool" "framed w" "sizes_ok u"
  shows "still_delivers isn w out a v q \<and> sizes_ok v"
  using assms(1)
proof (induction rule: delivery_run.induct)
  case dl_start
  then show ?case using assms(2,4) by simp
next
  case (dl_step out a v q ds v' q')
  have "sizes_ok v'" using wires_sizes [OF socket_run_wires [OF delivery_step_socket [OF dl_step.hyps(2)]]] dl_step.IH by blast
  then show ?case using delivery_step_keeps [OF dl_step.hyps(2) _ assms(3)] dl_step.IH by blast
qed

lemma fresh_delivers:
  assumes "fresh_receiver isn u"
  shows "still_delivers isn w [] 0 u pool"
proof -
  have f: "u_RcvBuffer u = Some (CRcvBuffer_new (u_RcvBufSize u))" "0 < u_RcvBufSize u" using assms by (auto simp: fresh_receiver_def)
  have "delivers isn w rspec_start 0 {} u pool"
    using fresh_receives [OF assms] new_stream [OF f(2)] f by (simp add: delivers_def rspec_start_def) (simp add: CRcvBuffer_new_def)
  moreover have "progress w [] 0 {}" unfolding progress_def given_out_def by (intro exI [of _ "[]"]) simp
  ultimately show ?thesis unfolding still_delivers_def by (intro exI [of _ rspec_start] exI [of _ 0] exI [of _ "{}"]) (simp add: rspec_start_def)
qed

text \<open>C4: what the application reads are messages of the peer's stream. In every run each \<open>recvmsg\<close> that returns data gives a
  complete message of the stream, its bytes up to the room the caller has. No packet is given out in two messages, and what is
  read after a message to be kept in order comes after it in the stream. The packets that arrive are those of the stream,
  within half the number space of what is acknowledged, and requests to drop lie within the buffer.\<close>

theorem messages_given_out:
  assumes "fresh_receiver isn u" "framed w" "delivery_run w u pool out a v q" "48 \<le> u_PayloadSize u" "fits_int32 (u_PeerID u)"
  shows "\<exists>ms. given_out w out ms"
  using delivery_run_keeps [OF assms(3) fresh_delivers [OF assms(1)] assms(2)] assms(4,5)
  by (auto simp: still_delivers_def progress_def sizes_ok_def)

text \<open>An instance: two messages of one packet arrive, and the first is read before it is acknowledged.\<close>

definition solo_packet :: "uint32 \<Rightarrow> uint32 \<Rightarrow> byte list \<Rightarrow> CPacket" where
  "solo_packet n x d = \<lparr>m_nHeader = [n, x, 0, 0], m_pcData = d, iov_len = int (length d)\<rparr>"

definition example_units :: "nat \<Rightarrow> nat \<Rightarrow> uint32 \<Rightarrow> byte list \<Rightarrow> uint32 \<Rightarrow> byte list \<Rightarrow> CUnitQueue" where
  "example_units f f' x d x' d' =
    \<lparr>uq_Entries = [[\<lparr>m_Packet = solo_packet 7 x d, m_iFlag = int f\<rparr>, \<lparr>m_Packet = solo_packet 8 x' d', m_iFlag = int f'\<rparr>]],
     uq_Curr = 0, uq_Avail = 0, uq_Size = 2, uq_Count = (if f = 0 then 0 else 1) + (if f' = 0 then 0 else 1), uq_MSS = 2, uq_IPversion = 2\<rparr>"

definition example_reader :: "CUDT \<Rightarrow> CUDT" where
  "example_reader g = (CUDT_new g)\<lparr>u_RcvLastAck := 7, u_RcvCurrSeqNo := 6, u_FlightFlagSize := 32, u_RcvBufSize := 8,
     u_RcvLossList := Some (CRcvLossList_new 32), u_RcvBuffer := Some (CRcvBuffer_new 8), u_PayloadSize := 1456,
     u_PeerID := 11, u_CC := Some (UdtCC CUDTCC_new), u_RcvTimeWindow := Some (CPktTimeWindow_new 0 16 64), u_Connected := True\<rparr>"

lemma example_reader_fresh: "fresh_receiver 7 (example_reader g)"
  by (simp add: fresh_receiver_def example_reader_def valid_seq_def serial_consts)

lemma solo_packet_fields:
  "getMsgBoundary (solo_packet n x d) = boundary x" "getMsgOrderFlag (solo_packet n x d) \<longleftrightarrow> in_order x"
  "getLength (solo_packet n x d) = int (length d)" "m_pcData (solo_packet n x d) = d" "m_iSeqNo (solo_packet n x d) = sint n"
  by (simp_all add: solo_packet_def getMsgBoundary_def getMsgOrderFlag_def getLength_def m_iSeqNo_def hdr_def boundary_def in_order_def)

lemma solo_carries: "carries (solo_packet n x d) (d, x)"
  by (simp add: carries_def solo_packet_def getLength_def hdr_def)

lemma example_units_at:
  "m_Packet (unit_at (example_units f f' x d x' d') (0, 0)) = solo_packet 7 x d" "m_iFlag (unit_at (example_units f f' x d x' d') (0, 0)) = int f"
  "m_Packet (unit_at (example_units f f' x d x' d') (0, 1)) = solo_packet 8 x' d'" "m_iFlag (unit_at (example_units f f' x d x' d') (0, 1)) = int f'"
  "is_unit (example_units f f' x d x' d') (0, 0)" "is_unit (example_units f f' x d x' d') (0, 1)"
  by (simp_all add: example_units_def unit_at_def is_unit_def)

text \<open>The next packet in order is stored.\<close>

lemma next_packet_stored:
  assumes "u_RcvCurrSeqNo u = s - 1" "m_iSeqNo (m_Packet (unit_at pool ref)) = s" "u_RcvLastAck u = 7" "7 \<le> s" "s < 100"
    "u_CC u = Some (UdtCC c)" "u_RcvBuffer u = Some b" "s - 7 < CRcvBuffer_getAvailBufSize b" "CRcvBuffer_addData ref (s - 7) b pool = (0, b', pool')"
  shows "\<exists>v. CUDT_processData 5 5 ref u pool = Some (0, v, pool') \<and> u_RcvCurrSeqNo v = s \<and> u_RcvLastAck v = 7 \<and> u_CC v = Some (UdtCC c) \<and>
    u_RcvBuffer v = Some b' \<and> u_Connected v = u_Connected u"
proof -
  obtain w where w: "note_arrival 5 5 (m_Packet (unit_at pool ref)) u = Some w" "u_CC w = Some (UdtCC c)" "u_Connected w = u_Connected u"
    using assms(6) by (auto simp: note_arrival_def Let_def)
  then have "u_RcvLastAck w = 7" "u_RcvCurrSeqNo w = s - 1" "u_RcvBuffer w = Some b"
    using note_arrival_same [OF w(1)] assms(1,3,7) by (simp_all add: same_receiver_def)
  moreover have "seqoff 7 s = s - 7" "incseq (s - 1) = s" "seqcmp s (s - 1) > 0"
    using assms(4,5) by (simp_all add: seq_defs serial_consts)
  ultimately show ?thesis
    using w assms(2,4,8,9) by (simp add: CUDT_processData_def Let_def detect_loss_def advance_received_def)
qed

lemma two_arrive:
  assumes "boundary x = 3" "\<not> in_order x" "boundary x' = 3" "length d = 1"
  obtains u1 u2 u3 where
    "CUDT_processData 5 5 (0, 0) (example_reader g) (example_units 0 0 x d x' d') = Some (0, u1, example_units 1 0 x d x' d')"
    "CUDT_processData 5 5 (0, 1) u1 (example_units 1 0 x d x' d') = Some (0, u2, example_units 1 1 x d x' d')"
    "CUDT_recvmsg 10 u2 (example_units 1 1 x d x' d') = Some (Inr (1, d), u3, example_units 2 1 x d x' d')"
    "u_RcvLastAck u1 = 7" "u_RcvLastAck u2 = 7" "u_RcvLastAck u3 = 7"
proof -
  let ?u = "example_reader g" and ?q = "\<lambda>f f'. example_units f f' x d x' d'"
  define b1 where "b1 = (CRcvBuffer_new 8)\<lparr>rb_Unit := [Some (0, 0), None, None, None, None, None, None, None]\<rparr>"
  define b2 where "b2 = (CRcvBuffer_new 8)\<lparr>rb_Unit := [Some (0, 0), Some (0, 1), None, None, None, None, None, None], rb_MaxPos := 1\<rparr>"
  note pools = example_units_def unit_at_def set_flag_def add_Count_def
  note bufs = b1_def b2_def CRcvBuffer_new_def
  have a1: "CRcvBuffer_addData (0, 0) 0 (CRcvBuffer_new 8) (?q 0 0) = (0, b1, ?q 1 0)"
    by (simp add: CRcvBuffer_addData_def bufs pools put_slot_def aget_def aset_def numeral_eq_Suc)
  have a2: "CRcvBuffer_addData (0, 1) 1 b1 (?q 1 0) = (0, b2, ?q 1 1)"
    by (simp add: CRcvBuffer_addData_def bufs pools put_slot_def aget_def aset_def numeral_eq_Suc)
  have s: "m_iSeqNo (m_Packet (unit_at (?q 0 0) (0, 0))) = 7" "m_iSeqNo (m_Packet (unit_at (?q 1 0) (0, 1))) = 8"
    by (simp_all add: example_units_at solo_packet_fields del: One_nat_def)
  have av: "CRcvBuffer_getAvailBufSize (CRcvBuffer_new 8) = 7" "CRcvBuffer_getAvailBufSize b1 = 7"
    by (simp_all add: CRcvBuffer_getAvailBufSize_def CRcvBuffer_getRcvDataSize_def bufs)
  obtain u1 where u1: "CUDT_processData 5 5 (0, 0) ?u (?q 0 0) = Some (0, u1, ?q 1 0)" "u_RcvCurrSeqNo u1 = 7" "u_RcvLastAck u1 = 7"
      "u_CC u1 = Some (UdtCC CUDTCC_new)" "u_RcvBuffer u1 = Some b1" "u_Connected u1"
    using next_packet_stored [of ?u 7 "?q 0 0" "(0, 0)" CUDTCC_new "CRcvBuffer_new 8" b1 "?q 1 0"] s a1 av by (auto simp: example_reader_def)
  obtain u2 where u2: "CUDT_processData 5 5 (0, 1) u1 (?q 1 0) = Some (0, u2, ?q 1 1)" "u_RcvLastAck u2 = 7" "u_RcvBuffer u2 = Some b2" "u_Connected u2"
    using next_packet_stored [of u1 8 "?q 1 0" "(0, 1)" CUDTCC_new b1 b2 "?q 1 1"] s a2 av u1 by auto
  have "CRcvBuffer_readMsg 10 b2 (?q 1 1) = Some (1, d, b2, ?q 2 1)"
    using assms by (simp add: CRcvBuffer_readMsg_def CRcvBuffer_scanMsg_def CRcvBuffer_getRcvDataSize_def bufs pools numeral_eq_Suc next_pos_def aget_def
        solo_packet_fields Let_def)
  then obtain u3 where "CUDT_recvmsg 10 u2 (?q 1 1) = Some (Inr (1, d), u3, ?q 2 1)" "u_RcvLastAck u3 = 7"
    using u2 by (simp add: CUDT_recvmsg_def)
  with u1 u2 show thesis using that by blast
qed

definition example_stream :: stream where
  "example_stream k = ([1], 0xC0000000)"

lemma example_framed: "framed example_stream"
  by (simp add: framed_def starts_def ends_def example_stream_def boundary_def)

theorem messages_given_out_witness:
  "\<forall>g. \<exists>v q ms. delivery_run example_stream (example_reader g) (example_units 0 0 0xC0000000 [1] 0xC0000000 [1]) [(10, [1])] 0 v q \<and>
     given_out example_stream [(10, [1])] ms"
proof
  fix g
  let ?u = "example_reader g" and ?w = example_stream and ?q = "\<lambda>f f'. example_units f f' 0xC0000000 [1] 0xC0000000 [1]"
  have x: "boundary 0xC0000000 = 3" "\<not> in_order 0xC0000000" by (simp_all add: boundary_def in_order_def)
  obtain u1 u2 u3 where u: "CUDT_processData 5 5 (0, 0) ?u (?q 0 0) = Some (0, u1, ?q 1 0)"
      "CUDT_processData 5 5 (0, 1) u1 (?q 1 0) = Some (0, u2, ?q 1 1)" "CUDT_recvmsg 10 u2 (?q 1 1) = Some (Inr (1, [1]), u3, ?q 2 1)"
      and a: "u_RcvLastAck u1 = 7" "u_RcvLastAck u2 = 7" "u_RcvLastAck u3 = 7"
    using two_arrive [OF x x(1), of "[1]" g "[1]"] by auto
  have c: "carries (solo_packet n 0xC0000000 [1]) (?w k)" for n k using solo_carries by (simp add: example_stream_def)
  have "delivery_step ?w 0 ?u (?q 0 0) [] u1 (?q 1 0)"
    by (rule dl_data [OF u(1)]) (use c in \<open>simp_all add: genuine_def valid_seq_def example_units_at solo_packet_fields del: One_nat_def\<close>)
  from dl_step [OF dl_start this] have 1: "delivery_run ?w ?u (?q 0 0) [] 0 u1 (?q 1 0)"
    using a(1) by (simp add: example_reader_def seqoff_def serial_consts)
  have "delivery_step ?w 0 u1 (?q 1 0) [] u2 (?q 1 1)"
    by (rule dl_data [OF u(2)]) (use c in \<open>simp_all add: genuine_def valid_seq_def example_units_at solo_packet_fields del: One_nat_def\<close>)
  from dl_step [OF 1 this] have 2: "delivery_run ?w ?u (?q 0 0) [] 0 u2 (?q 1 1)" using a by (simp add: seqoff_def serial_consts)
  from dl_step [OF 2 dl_own [OF own_read [OF u(3)]]] have 3: "delivery_run ?w ?u (?q 0 0) [(10, [1])] 0 u3 (?q 2 1)"
    using a by (simp add: seqoff_def serial_consts)
  have "48 \<le> u_PayloadSize ?u" "fits_int32 (u_PeerID ?u)" by (simp_all add: example_reader_def fits_int32_def)
  from messages_given_out [OF example_reader_fresh example_framed 3 this] 3
  show "\<exists>v q ms. delivery_run ?w ?u (?q 0 0) [(10, [1])] 0 v q \<and> given_out ?w [(10, [1])] ms" by blast
qed

end
