(* ===== verification/ApiSpec.thy ===== *)
theory ApiSpec imports Api UnitedFrame DeliverySpec begin

text \<open>
  How failures reach the application. \<open>sendmsg_outcome\<close> and \<open>recvmsg_outcome\<close> tell, for every state of the library, what the
  application sees of a call: the value it returns and the code that \<open>getlasterror_code\<close> then gives.
  A peer that acknowledges what was never sent breaks the connection, and the next call says so.
\<close>

section \<open>The error record\<close>

definition last_code :: "api \<Rightarrow> int" where
  "last_code a = fst (getlasterror_code 0 a)"

lemma last_code_setError [simp]: "last_code (setError e a) = getErrorCode e"
  by (simp add: last_code_def getlasterror_code_def getError_def setError_def)

lemma exc_code [simp]: "getErrorCode (exc major minor) = major * 1000 + minor"
  by (simp add: getErrorCode_def exc_def CUDTException_new_def)

lemma last_code_setErrorCode [simp]: "last_code (setErrorCode major minor a) = major * 1000 + minor"
  by (auto simp: last_code_def getlasterror_code_def getError_def setErrorCode_def split: option.splits)

lemma lookup_cases:
  obtains (unknown) "lookup u un = Inl (exc 5 4)" "locate u un = None"
    | (found) s where "lookup u un = Inr (s_UDT s)" "locate u un = Some s" "un_Obj un u = Some s"
  by (cases "locate u un") (auto simp: lookup_def locate_def split: if_splits option.splits)

section \<open>sendmsg\<close>

text \<open>Why a call is refused; \<open>None\<close> when it is not.\<close>

definition send_refusal :: "int \<Rightarrow> int \<Rightarrow> CUDTUnited \<Rightarrow> int option" where
  "send_refusal u len un =
    (case locate u un of
       None \<Rightarrow> Some 5004
     | Some s \<Rightarrow>
         let c = s_UDT s in
         if u_Broken c \<or> u_Closing c then Some 2001
         else if \<not> u_Connected c then Some 2002
         else if len \<le> 0 then None
         else if len > u_SndBufSize c * u_PayloadSize c then Some 5012
         else if (u_SndBufSize c - CSndBuffer_getCurrBufSize (the (u_SndBuffer c))) * u_PayloadSize c < len then Some 6001
         else None)"

lemma grow_error: "grow garbage mem n b = Some (Inl (e, b')) \<Longrightarrow> e = exc 3 2 \<and> (\<exists>c. \<not> mem c)"
proof (induction garbage mem n b rule: grow.induct)
  case (1 garbage mem sz b)
  have r: "Some (Inl (e, b')) = grow garbage mem sz b" using "1.prems" by simp
  show ?case
  proof (cases "CSndBuffer_increase garbage (mem b) (mem b) b")
    case (Inl x)
    then show ?thesis using r [unfolded grow.simps [of garbage mem sz b]]
      by (auto simp: CSndBuffer_increase_def Let_def split: if_splits)
  next
    case (Inr b1)
    then show ?thesis using r [unfolded grow.simps [of garbage mem sz b]] "1.IH" [OF _ _ Inr] by (auto split: if_splits)
  qed
qed

lemma addBuffer_error:
  "CSndBuffer_addBuffer garbage mem us data len ttl inorder b = Some (Inl (e, b')) \<Longrightarrow> e = exc 3 2 \<and> (\<exists>c. \<not> mem c)"
  unfolding CSndBuffer_addBuffer_def Let_def
  by (auto simp: case_prod_unfold dest: grow_error split: option.splits sum.splits)

text \<open>A call that is not refused puts the message into the buffer, or memory runs out.\<close>

lemma sendmsg_accepted:
  assumes "CUDT_sendmsg g mem us tk data len ttl ord c = Some (r, c')" and "\<not> (u_Broken c \<or> u_Closing c)" "u_Connected c"
    and "\<not> len > u_SndBufSize c * u_PayloadSize c"
      "\<not> (u_SndBufSize c - CSndBuffer_getCurrBufSize (the (u_SndBuffer c))) * u_PayloadSize c < len" and "0 < len"
  shows "\<exists>x b. CSndBuffer_addBuffer g mem us data len ttl ord (the (u_SndBuffer c)) = Some x \<and> u_SndBuffer c' = Some b \<and>
    (x = Inl (exc 3 2, b) \<and> r = Inl (exc 3 2) \<and> (\<exists>c. \<not> mem c) \<or> x = Inr b \<and> r = Inr len)"
proof -
  obtain most where m: "mul_int (u_SndBufSize c) (u_PayloadSize c) = Some most" "\<not> len > most"
    using assms by (auto simp: CUDT_sendmsg_def mul_int_Some Let_def split: bind_splits)
  obtain room where m': "mul_int (u_SndBufSize c - CSndBuffer_getCurrBufSize (the (u_SndBuffer c))) (u_PayloadSize c) = Some room" "\<not> room < len"
    using assms m by (cases "CSndBuffer_getCurrBufSize (the (u_SndBuffer c)) = 0") (auto simp: CUDT_sendmsg_def mul_int_Some Let_def split: bind_splits)
  let ?x = "CSndBuffer_addBuffer g mem us data len ttl ord (the (u_SndBuffer c))"
  obtain d where d: "Some (r, c') = (case ?x of
      None \<Rightarrow> None
    | Some (Inl (e, b)) \<Rightarrow> Some (Inl e, d\<lparr>u_SndBuffer := Some b\<rparr>)
    | Some (Inr b) \<Rightarrow> Some (Inr len, emit (SndUList_update False) (d\<lparr>u_SndBuffer := Some b\<rparr>)))"
  proof (cases "CSndBuffer_getCurrBufSize (the (u_SndBuffer c)) = 0")
    case True
    then show thesis using assms m m' that [of "c\<lparr>u_LastRspTime := tk, u_SndDurationCounter := us\<rparr>"] by (simp add: CUDT_sendmsg_def Let_def)
  next
    case False
    then show thesis using assms m m' that [of c] by (simp add: CUDT_sendmsg_def Let_def)
  qed
  show ?thesis
  proof (cases ?x)
    case (Some x)
    show ?thesis
    proof (cases x)
      case (Inl y)
      then obtain e b where y: "x = Inl (e, b)" by (cases y) auto
      then show ?thesis using d Some addBuffer_error [of g mem us data len ttl ord _ e b] by auto
    qed (use d Some in \<open>auto simp: emit_def\<close>)
  qed (use d in simp)
qed

lemma sendmsg_nothing:
  "\<not> (u_Broken c \<or> u_Closing c) \<Longrightarrow> u_Connected c \<Longrightarrow> len \<le> 0 \<Longrightarrow> CUDT_sendmsg g mem us tk data len ttl ord c = Some (Inr 0, c)"
  by (simp add: CUDT_sendmsg_def)

lemma sendmsg_refused:
  assumes "CUDT_sendmsg g mem us tk data len ttl ord c = Some (r, c')"
    and "u_Broken c \<or> u_Closing c \<or> \<not> u_Connected c \<or> 0 < len \<and> (len > u_SndBufSize c * u_PayloadSize c \<or>
      (u_SndBufSize c - CSndBuffer_getCurrBufSize (the (u_SndBuffer c))) * u_PayloadSize c < len)"
  shows "r = (if u_Broken c \<or> u_Closing c then Inl (exc 2 1) else if \<not> u_Connected c then Inl (exc 2 2)
       else if len > u_SndBufSize c * u_PayloadSize c then Inl (exc 5 12) else Inr (- 6001)) \<and> u_SndBuffer c' = u_SndBuffer c"
  using assms unfolding CUDT_sendmsg_def Let_def
  by (cases "CSndBuffer_getCurrBufSize (the (u_SndBuffer c)) = 0") (auto simp: mul_int_Some split: bind_splits if_splits)

definition send_buffer_of :: "int \<Rightarrow> api \<Rightarrow> CSndBuffer option" where
  "send_buffer_of u a = Option.bind (un_Obj (a_United a) u) (\<lambda>s. u_SndBuffer (s_UDT s))"

lemma put_udt_buffer: "put_udt u c un = Some vn \<Longrightarrow> Option.bind (un_Obj vn u) (\<lambda>s. u_SndBuffer (s_UDT s)) = u_SndBuffer c"
  using put_udt_result by fastforce

text \<open>What a call does to a well-formed send buffer: the message waits in it behind those that waited before, cut into
  packets, or what waits is as before.\<close>

definition queued :: "byte list \<Rightarrow> bool \<Rightarrow> CSndBuffer option \<Rightarrow> CSndBuffer option \<Rightarrow> bool" where
  "queued data order x y \<longleftrightarrow> (\<forall>b. x = Some b \<and> sb_inv b \<longrightarrow>
     (\<exists>b' ps. y = Some b' \<and> sb_inv b' \<and> pending b' = pending b @ ps \<and> concat (map fst ps) = data \<and>
        (numbers_messages b \<longrightarrow> numbers_messages b' \<and> one_message order ps)))"

definition kept :: "CSndBuffer option \<Rightarrow> CSndBuffer option \<Rightarrow> bool" where
  "kept x y \<longleftrightarrow> (\<forall>b. x = Some b \<and> sb_inv b \<longrightarrow> (\<exists>b'. y = Some b' \<and> sb_inv b' \<and> pending b' = pending b))"

lemma addBuffer_queued:
  assumes "CSndBuffer_addBuffer g mem us data len ttl ord b = Some (Inr b')" "0 < len" "int (length data) = len"
  shows "queued data ord (Some b) (Some b')"
  unfolding queued_def
proof (intro allI impI)
  fix b0 assume "Some b = Some b0 \<and> sb_inv b0"
  then have "sb_inv b" and b0: "b0 = b" by simp_all
  then obtain us0 vs ws where r: "ring b us0 vs ws" unfolding sb_inv_def by blast
  have m: "0 < sb_MSS b" using r by (simp add: ring_def)
  have add: "CSndBuffer_addBuffer g (\<lambda>_. True) us data len ttl ord b = Some (Inr b')"
    using addBuffer_any [OF r assms(1)] by simp
  obtain ns rest where b': "ring b' us0 (vs @ ns) rest" "\<forall>n\<in>set (us0 @ vs). sb_Block b' n = sb_Block b n"
      "packets b' ns = message_packets data len ord b"
    using addBuffer_ring [OF r assms(2,3) add] by blast
  have "packets b' vs = packets b vs" using b'(2) by (intro packets_mono) simp
  then have "pending b' = pending b @ message_packets data len ord b"
    using ring_pending [OF b'(1)] ring_pending [OF r] b'(3) by (simp add: packets_def)
  moreover have "sb_inv b'" unfolding sb_inv_def using b'(1) by blast
  moreover have "numbers_messages b' \<and> one_message ord (message_packets data len ord b)" if "numbers_messages b"
    using that message_packets_one [OF that m assms(2,3)] addBuffer_numbers [OF that r add] by blast
  ultimately show "\<exists>b1 ps. Some b' = Some b1 \<and> sb_inv b1 \<and> pending b1 = pending b0 @ ps \<and> concat (map fst ps) = data \<and>
      (numbers_messages b0 \<longrightarrow> numbers_messages b1 \<and> one_message ord ps)"
    unfolding b0 using concat_message [OF m assms(2,3)] by blast
qed

lemma addBuffer_kept: "CSndBuffer_addBuffer g mem us data len ttl ord b = Some (Inl (e, b')) \<Longrightarrow> kept (Some b) (Some b')"
proof -
  assume a: "CSndBuffer_addBuffer g mem us data len ttl ord b = Some (Inl (e, b'))"
  have "sb_inv b' \<and> pending b' = pending b" if "ring b us0 vs ws" for us0 vs ws
    using addBuffer_any [OF that a] by simp
  then show ?thesis by (auto simp: kept_def sb_inv_def [of b])
qed

text \<open>C19: a call of \<open>sendmsg\<close> is refused for just the reasons of \<open>send_refusal\<close>; it then returns -1, the reason is the code of the last
  error, and the send buffer is as before. Otherwise it returns the length and leaves the last error alone, and the message waits
  in the send buffer behind those that waited before, cut into packets; only when an allocation fails does it return -1
  with the code 3002 instead, and what waits is as before. (The call returns: no size of the socket overflows \<open>int\<close>,
  and no exception of another kind leaves the call.)\<close>

theorem sendmsg_outcome:
  assumes "CUDT_sendmsg_call None env mem u buf len ttl inorder a = Some (r, a')"
  shows "case send_refusal u len (a_United a) of
      Some code \<Rightarrow> r = - 1 \<and> last_code a' = code \<and> send_buffer_of u a' = send_buffer_of u a
    | None \<Rightarrow>
        if len \<le> 0 then r = 0 \<and> a_Error a' = a_Error a \<and> send_buffer_of u a' = send_buffer_of u a
        else r = len \<and> a_Error a' = a_Error a \<and>
            (int (length buf) = len \<longrightarrow> queued buf inorder (send_buffer_of u a) (send_buffer_of u a')) \<or>
          r = - 1 \<and> last_code a' = 3002 \<and> (\<exists>b. \<not> mem b) \<and> kept (send_buffer_of u a) (send_buffer_of u a')"
proof (cases u "a_United a" rule: lookup_cases)
  case unknown
  then show ?thesis using assms
    by (auto simp: CUDT_sendmsg_call_def sendmsg_body_def try_none message_result_def send_refusal_def ERROR_def send_buffer_of_def)
next
  case (found s)
  let ?c = "s_UDT s"
  obtain x c' vn where x: "CUDT_sendmsg (e_block env) mem (e_us env) (e_tk env) buf len ttl inorder ?c = Some (x, c')"
      "put_udt u c' (a_United a) = Some vn" "(r, a') = message_result True (map_sum Thrown id x) (a\<lparr>a_United := vn\<rparr>)"
    using assms found by (auto simp: CUDT_sendmsg_call_def sendmsg_body_def try_none split: bind_splits)
  have un: "a_United a' = vn" using x(3) by (metis message_united snd_conv api.select_convs(1) api.surjective api.update_convs(1))
  then have buf: "send_buffer_of u a = u_SndBuffer ?c" "send_buffer_of u a' = u_SndBuffer c'"
    using found(3) put_udt_buffer [OF x(2)] by (simp_all add: send_buffer_of_def)
  show ?thesis
  proof (cases "send_refusal u len (a_United a)")
    case None
    then have ok: "\<not> (u_Broken ?c \<or> u_Closing ?c)" "u_Connected ?c" and room: "len \<le> 0 \<or> \<not> len > u_SndBufSize ?c * u_PayloadSize ?c"
        "len \<le> 0 \<or> \<not> (u_SndBufSize ?c - CSndBuffer_getCurrBufSize (the (u_SndBuffer ?c))) * u_PayloadSize ?c < len"
      by (auto simp: send_refusal_def found(2) Let_def split: if_splits)
    show ?thesis
    proof (cases "len \<le> 0")
      case True
      then have "x = Inr 0" "c' = ?c" using x(1) sendmsg_nothing [OF ok True] by auto
      then show ?thesis using x(3) None True buf by (simp add: message_result_def)
    next
      case False
      then obtain y b where y: "CSndBuffer_addBuffer (e_block env) mem (e_us env) buf len ttl inorder (the (u_SndBuffer ?c)) = Some y"
          "u_SndBuffer c' = Some b"
          "y = Inl (exc 3 2, b) \<and> x = Inl (exc 3 2) \<and> (\<exists>c. \<not> mem c) \<or> y = Inr b \<and> x = Inr len"
        using sendmsg_accepted [OF x(1) ok] room by fastforce
      have some: "send_buffer_of u a = None \<or> send_buffer_of u a = Some (the (u_SndBuffer ?c))"
        unfolding buf(1) by (cases "u_SndBuffer ?c") simp_all
      from y(3) show ?thesis
      proof (elim disjE conjE)
        assume e: "y = Inl (exc 3 2, b)" "x = Inl (exc 3 2)" "\<exists>c. \<not> mem c"
        have "kept (send_buffer_of u a) (send_buffer_of u a')"
          using some addBuffer_kept [OF y(1) [unfolded e(1)]] buf(2) y(2) by (auto simp: kept_def)
        then show ?thesis using x(3) None False e by (simp add: message_result_def ERROR_def)
      next
        assume e: "y = Inr b" "x = Inr len"
        have "int (length buf) = len \<longrightarrow> queued buf inorder (send_buffer_of u a) (send_buffer_of u a')"
          using some addBuffer_queued [OF y(1) [unfolded e(1)]] buf(2) y(2) False by (auto simp: queued_def)
        then show ?thesis using x(3) None False e by (simp add: message_result_def)
      qed
    qed
  next
    case (Some code)
    then have no: "u_Broken ?c \<or> u_Closing ?c \<or> \<not> u_Connected ?c \<or> 0 < len \<and> (len > u_SndBufSize ?c * u_PayloadSize ?c \<or>
        (u_SndBufSize ?c - CSndBuffer_getCurrBufSize (the (u_SndBuffer ?c))) * u_PayloadSize ?c < len)"
      by (auto simp: send_refusal_def found(2) Let_def split: if_splits)
    from sendmsg_refused [OF x(1) this] show ?thesis using Some x(3) buf no
      by (auto simp: send_refusal_def found(2) Let_def message_result_def ERROR_def split: if_splits)
  qed
qed

text \<open>Examples: the library with one socket, and with none.\<close>

definition no_sockets :: api where
  "no_sockets = \<lparr>a_United = CUDTUnited_new 7, a_Error = None\<rparr>"

definition one_socket :: "CUDT \<Rightarrow> CMultiplexer list \<Rightarrow> api" where
  "one_socket u ms = \<lparr>a_United = (CUDTUnited_new 7)\<lparr>un_Sockets := [3], un_Obj := [3 \<mapsto> (CUDTSocket_new u)\<lparr>s_MuxID := 4\<rparr>],
     un_Mux := ms\<rparr>, a_Error = None\<rparr>"

lemma no_sockets_locate [simp]: "locate u (a_United no_sockets) = None"
  by (simp add: no_sockets_def locate_def CUDTUnited_new_def)

lemma one_socket_simps [simp]:
  "locate 3 (a_United (one_socket u ms)) = Some ((CUDTSocket_new u)\<lparr>s_MuxID := 4\<rparr>)"
  "un_Obj (a_United (one_socket u ms)) 3 = Some ((CUDTSocket_new u)\<lparr>s_MuxID := 4\<rparr>)"
  "lookup 3 (a_United (one_socket u ms)) = Inr u" "un_Mux (a_United (one_socket u ms)) = ms"
  "send_buffer_of 3 (one_socket u ms) = u_SndBuffer u" "a_Error (one_socket u ms) = None"
  by (simp_all add: one_socket_def locate_def lookup_def CUDTSocket_new_def send_buffer_of_def)

text \<open>A connected socket takes a message of three bytes.\<close>

theorem sendmsg_outcome_witness:
  "\<forall>env g ms. \<exists>a' b. CUDT_sendmsg_call None env (\<lambda>_. True) 3 [1, 2, 3] 3 (- 1) False (one_socket (example_sender g) ms) = Some (3, a') \<and>
     send_buffer_of 3 a' = Some b \<and> concat (map fst (pending b)) = [1, 2, 3]"
proof (intro allI)
  fix env :: env and g ms
  let ?a = "one_socket (example_sender g) ms" and ?b = "CSndBuffer_new (\<lambda>_. undefined) 32 1456"
  obtain v where v: "CUDT_sendmsg (e_block env) (\<lambda>_. True) (e_us env) (e_tk env) [1, 2, 3] 3 (- 1) False (example_sender g) = Some (Inr 3, v)"
      "u_Out v = [SndUList_update False]"
    using example_sendmsg by blast
  obtain vn where vn: "put_udt 3 v (a_United ?a) = Some vn" using v(2) by (simp add: put_udt_def)
  obtain r a' where "message_result True (Inr 3) (?a\<lparr>a_United := vn\<rparr>) = (r, a')" by fastforce
  then have c: "CUDT_sendmsg_call None env (\<lambda>_. True) 3 [1, 2, 3] 3 (- 1) False ?a = Some (r, a')"
    by (simp add: CUDT_sendmsg_call_def sendmsg_body_def try_body_def v(1) vn)
  have r: "ring ?b [] [] [0..<nat 32]" by (rule new_ring) simp_all
  then have i: "sb_inv ?b" unfolding sb_inv_def by blast
  have u: "u_SndBuffer (example_sender g) = Some ?b" "CSndBuffer_getCurrBufSize ?b = 0"
    by (simp_all add: example_sender_def CSndBuffer_getCurrBufSize_def CSndBuffer_new_def)
  have "send_refusal 3 3 (a_United ?a) = None"
    using u by (simp add: send_refusal_def CUDTSocket_new_def) (simp add: example_sender_def CUDT_new_def closed_status_def Let_def)
  then have "r = 3 \<and> queued [1, 2, 3] False (Some ?b) (send_buffer_of 3 a')"
    using sendmsg_outcome [OF c] u(1) by simp
  then obtain b where "r = 3" "send_buffer_of 3 a' = Some b" "concat (map fst (pending b)) = concat (map fst (pending ?b)) @ [1, 2, 3]"
    using i unfolding queued_def by fastforce
  moreover have "pending ?b = []" using ring_pending [OF r] by (simp add: packets_def)
  ultimately show "\<exists>a' b. CUDT_sendmsg_call None env (\<lambda>_. True) 3 [1, 2, 3] 3 (- 1) False ?a = Some (3, a') \<and>
      send_buffer_of 3 a' = Some b \<and> concat (map fst (pending b)) = [1, 2, 3]"
    using c by auto
qed

section \<open>recvmsg\<close>

lemma copy_msg_rest:
  "copy_msg f p q keep rs b pool = Some (d, rs', b', pool') \<Longrightarrow> 0 \<le> rs \<Longrightarrow> 0 \<le> rs' \<and> int (length d) \<le> rs - rs'"
proof (induction f arbitrary: p rs b pool d)
  case (Suc f)
  show ?case
  proof (cases "p = (q + 1) smod rb_Size b")
    case True
    then show ?thesis using Suc.prems by simp
  next
    case False
    define pkt where "pkt = m_Packet (unit_at pool (the (slot b p)))"
    define size where "size = (if rs \<ge> 0 \<and> getLength pkt > rs then rs else getLength pkt)"
    obtain b1 pool1 where x: "(if \<not> keep then (put_slot p None b, free_unit (the (slot b p)) pool) else (b, set_flag (the (slot b p)) 2 pool)) = (b1, pool1)"
      by (cases "\<not> keep") auto
    define rs1 where "rs1 = (if size > 0 then rs - size else rs)"
    have "copy_msg (Suc f) p q keep rs b pool = map_option (\<lambda>(d, r). ((if size > 0 then take (nat size) (m_pcData pkt) else []) @ d, r))
        (copy_msg f (next_pos b1 p) q keep rs1 b1 pool1)"
      using False x unfolding copy_msg.simps Let_def size_def [symmetric] pkt_def [symmetric] rs1_def [symmetric] by simp
    then obtain d1 where d1: "copy_msg f (next_pos b1 p) q keep rs1 b1 pool1 = Some (d1, rs', b', pool')"
        "d = (if size > 0 then take (nat size) (m_pcData pkt) else []) @ d1"
      using Suc.prems(1) by auto
    have "0 \<le> rs1" "rs1 \<le> rs - (if size > 0 then size else 0)" using Suc.prems(2) by (auto simp: rs1_def size_def)
    then show ?thesis using Suc.IH [OF d1(1)] d1(2) by (auto simp: min_def)
  qed
qed simp

lemma readMsg_bounds:
  assumes r: "CRcvBuffer_readMsg len b pool = Some (n, d, b', pool')" and len: "0 \<le> len"
  shows "n \<le> len \<and> int (length d) \<le> n"
proof -
  obtain found p q keep b1 pool1 where s: "CRcvBuffer_scanMsg b pool = Some ((found, p, q, keep), b1, pool1)"
    using r by (cases "CRcvBuffer_scanMsg b pool") (auto simp: CRcvBuffer_readMsg_def)
  show ?thesis
  proof (cases found)
    case True
    then obtain rs b2 pool2 where "copy_msg (Suc (nat (rb_Size b1))) p q keep len b1 pool1 = Some (d, rs, b2, pool2)" "n = len - rs"
      using r s by (auto simp: CRcvBuffer_readMsg_def simp del: copy_msg.simps)
    then show ?thesis using copy_msg_rest len by fastforce
  qed (use r s len in \<open>simp add: CRcvBuffer_readMsg_def\<close>)
qed

text \<open>The units of a multiplexer, which only the receiving thread and \<open>recvmsg\<close> change.\<close>

definition pool_of :: "int \<Rightarrow> CUDTUnited \<Rightarrow> CUnitQueue option" where
  "pool_of m un = map_option (\<lambda>x. rq_UnitQueue (mux_RcvQueue x)) (find_mux m un)"

lemma pool_of_upd: "(\<And>x. mux_ID (f x) = mux_ID x) \<Longrightarrow>
    pool_of k (upd_mux m f un) = map_option (\<lambda>x. rq_UnitQueue (mux_RcvQueue (if mux_ID x = m then f x else x))) (find_mux k un)"
proof -
  assume f: "\<And>x. mux_ID (f x) = mux_ID x"
  have "List.find (\<lambda>x. mux_ID x = k) (map (\<lambda>x. if mux_ID x = m then f x else x) ms) =
      map_option (\<lambda>x. if mux_ID x = m then f x else x) (List.find (\<lambda>x. mux_ID x = k) ms)" for ms
    by (induction ms) (auto simp: f)
  then show ?thesis by (simp add: pool_of_def find_mux_def upd_mux_def option.map_comp comp_def)
qed

lemma pool_of_same: "(\<And>x. mux_ID (f x) = mux_ID x \<and> rq_UnitQueue (mux_RcvQueue (f x)) = rq_UnitQueue (mux_RcvQueue x)) \<Longrightarrow>
    pool_of k (upd_mux m f un) = pool_of k un"
  by (subst pool_of_upd) (auto simp: pool_of_def intro!: option.map_cong)

lemma pool_of_simps [simp]: "pool_of k (poll c un) = pool_of k un" "pool_of k (upd_sock i g un) = pool_of k un"
    "pool_of k (un\<lparr>un_Net := n\<rparr>) = pool_of k un"
  by (simp_all add: pool_of_def find_mux_def poll_def upd_sock_def)

lemma effect_pool: "apply_effect i m ipv e un = Some vn \<Longrightarrow> pool_of k vn = pool_of k un"
  by (cases e) (auto simp: upd_snd_def upd_rcv_def set_on_def CRcvQueue_setListener_def CRcvQueue_removeListener_def
      CRcvQueue_registerConnector_def CRcvQueue_removeConnector_def CRcvQueue_setNewEntry_def connect_complete_def Let_def
      intro!: pool_of_same split: option.splits)

lemma effects_pool: "apply_effects i m ipv es un = Some vn \<Longrightarrow> pool_of k vn = pool_of k un"
proof (induction es arbitrary: un)
  case (Cons e es)
  then obtain wn where "apply_effect i m ipv e un = Some wn" "apply_effects i m ipv es wn = Some vn"
    by (auto split: bind_splits)
  then show ?case using Cons.IH effect_pool by metis
qed simp

lemma put_udt_pool: "put_udt i u un = Some vn \<Longrightarrow> pool_of k vn = pool_of k un"
  by (auto simp: put_udt_def split: option.splits dest!: effects_pool)

definition rcv_buffer_of :: "int \<Rightarrow> api \<Rightarrow> CRcvBuffer option" where
  "rcv_buffer_of u a = Option.bind (un_Obj (a_United a) u) (\<lambda>s. u_RcvBuffer (s_UDT s))"

lemma recvmsg_reads:
  assumes "CUDT_recvmsg len c pool = Some (r, c', pool')" "0 < len" "u_Connected c"
  shows "\<exists>n d b. CRcvBuffer_readMsg len (the (u_RcvBuffer c)) pool = Some (n, d, b, pool') \<and> u_RcvBuffer c' = Some b \<and>
      r = (if n = 0 then if u_Broken c \<or> u_Closing c then Inl (exc 2 1) else Inr (- 6002, d) else Inr (n, d))"
proof -
  obtain n d b p where m: "CRcvBuffer_readMsg len (the (u_RcvBuffer c)) pool = Some (n, d, b, p)"
    using assms by (cases "CRcvBuffer_readMsg len (the (u_RcvBuffer c)) pool") (auto simp: CUDT_recvmsg_def)
  then have "p = pool' \<and> u_RcvBuffer c' = Some b \<and>
      r = (if n = 0 then if u_Broken c \<or> u_Closing c then Inl (exc 2 1) else Inr (- 6002, d) else Inr (n, d))"
    using assms by (cases "n = 0") (simp_all add: CUDT_recvmsg_def, auto)
  then show ?thesis using m by blast
qed

text \<open>C21: \<open>recvmsg\<close> never hands over more bytes than it says or than the caller has room for. It fails with 5004 for an unknown
  socket and with 2002 for one that is not connected. Otherwise it reads the socket's receive buffer, whose packets are units of
  the socket's multiplexer, and leaves the buffer and the units as the reading does: a message that is read is handed
  over, from a broken or closing connection too, and when there is none the call fails with 6002, or 2001 if the
  connection is broken. (No exception of another kind leaves the call.)\<close>

theorem recvmsg_outcome:
  assumes "CUDT_recvmsg_call None u len a = Some (r, data, a')" "0 < len"
  shows "r \<le> len \<and> int (length data) \<le> max 0 r \<and>
    (case locate u (a_United a) of
       None \<Rightarrow> r = - 1 \<and> last_code a' = 5004
     | Some s \<Rightarrow>
         if \<not> u_Connected (s_UDT s) then r = - 1 \<and> last_code a' = 2002
         else \<forall>pool. pool_of (s_MuxID s) (a_United a) = Some pool \<longrightarrow>
           (\<exists>n d b pool'. CRcvBuffer_readMsg len (the (u_RcvBuffer (s_UDT s))) pool = Some (n, d, b, pool') \<and>
              rcv_buffer_of u a' = Some b \<and> pool_of (s_MuxID s) (a_United a') = Some pool' \<and>
              (if n = 0 then r = - 1 \<and> last_code a' = (if u_Broken (s_UDT s) \<or> u_Closing (s_UDT s) then 2001 else 6002)
               else r = n \<and> data = d \<and> a_Error a' = a_Error a)))"
proof (cases u "a_United a" rule: lookup_cases)
  case unknown
  then show ?thesis using assms
    by (auto simp: CUDT_recvmsg_call_def recvmsg_body_def try_none message_result_def ERROR_def)
next
  case (found s)
  let ?c = "s_UDT s"
  define pool where "pool = (case socket_pool u (a_United a) of None \<Rightarrow> CUnitQueue_new | Some p \<Rightarrow> p)"
  obtain x c' p' vn where x: "CUDT_recvmsg len ?c pool = Some (x, c', p')" "put_udt u c' (put_pool u p' (a_United a)) = Some vn"
      "(let (n, a) = message_result False (map_sum id fst (map_sum Thrown id x)) (a\<lparr>a_United := vn\<rparr>)
        in (n, case map_sum Thrown id x of Inl x \<Rightarrow> [] | Inr (res, data) \<Rightarrow> data, a)) = (r, data, a')"
    using assms(1) found(1) by (auto simp: CUDT_recvmsg_call_def recvmsg_body_def try_none Let_def pool_def split: bind_splits)
  obtain y where y: "message_result False (map_sum id fst (map_sum Thrown id x)) (a\<lparr>a_United := vn\<rparr>) = (r, a')"
      "data = (case map_sum Thrown id x of Inl x \<Rightarrow> [] | Inr (res, data) \<Rightarrow> data)"
    using x(3) by (auto simp: Let_def split: prod.splits)
  have un: "a_United a' = vn" using message_unitedD [OF y(1)] by simp
  show ?thesis
  proof (cases "u_Connected ?c")
    case False
    then have "x = Inl (exc 2 2)" using x(1) by (simp add: CUDT_recvmsg_def)
    then show ?thesis using y False found(2) assms(2) by (auto simp: message_result_def ERROR_def)
  next
    case True
    obtain n d b where m: "CRcvBuffer_readMsg len (the (u_RcvBuffer ?c)) pool = Some (n, d, b, p')" "u_RcvBuffer c' = Some b"
        "x = (if n = 0 then if u_Broken ?c \<or> u_Closing ?c then Inl (exc 2 1) else Inr (- 6002, d) else Inr (n, d))"
      using recvmsg_reads [OF x(1) assms(2) True] by auto
    have n: "n \<le> len" "int (length d) \<le> n" using readMsg_bounds [OF m(1)] assms(2) by auto
    have b: "rcv_buffer_of u a' = Some b" using put_udt_result [OF x(2)] un m(2) by (auto simp: rcv_buffer_of_def)
    have p: "pool = q \<and> pool_of (s_MuxID s) (a_United a') = Some p'" if q: "pool_of (s_MuxID s) (a_United a) = Some q" for q
    proof -
      obtain z where z: "find_mux (s_MuxID s) (a_United a) = Some z" "rq_UnitQueue (mux_RcvQueue z) = q"
        using q by (auto simp: pool_of_def)
      have "mux_ID z = s_MuxID s" using z(1) unfolding find_mux_def by (metis (mono_tags, lifting) find_Some_iff)
      have "pool_of (s_MuxID s) vn = pool_of (s_MuxID s) (put_pool u p' (a_United a))" by (rule put_udt_pool [OF x(2)])
      also have "\<dots> = Some p'" using z \<open>mux_ID z = s_MuxID s\<close> found(3) by (simp add: put_pool_def pool_of_upd upd_rcv_def)
      finally show ?thesis using z(1,2) found(3) un by (simp add: pool_def socket_pool_def)
    qed
    have out: "r \<le> len \<and> int (length data) \<le> max 0 r" "(if n = 0 then r = - 1 \<and> last_code a' = (if u_Broken ?c \<or> u_Closing ?c then 2001 else 6002)
         else r = n \<and> data = d \<and> a_Error a' = a_Error a)"
      using y m(3) n assms(2) by (auto simp: message_result_def ERROR_def split: if_splits)
    have "\<exists>n d b pool'. CRcvBuffer_readMsg len (the (u_RcvBuffer ?c)) q = Some (n, d, b, pool') \<and>
        rcv_buffer_of u a' = Some b \<and> pool_of (s_MuxID s) (a_United a') = Some pool' \<and>
        (if n = 0 then r = - 1 \<and> last_code a' = (if u_Broken ?c \<or> u_Closing ?c then 2001 else 6002)
         else r = n \<and> data = d \<and> a_Error a' = a_Error a)" if "pool_of (s_MuxID s) (a_United a) = Some q" for q
      using p [OF that] m(1) b out(2) by blast
    then show ?thesis using out(1) True found(2) by simp
  qed
qed

text \<open>The connection is broken, and the message that had arrived is handed over.\<close>

theorem recvmsg_outcome_witness:
  "\<forall>x. \<exists>u q a'. u_Broken u \<and>
     CUDT_recvmsg_call None 3 10 (one_socket u [x\<lparr>mux_ID := 4, mux_RcvQueue := (mux_RcvQueue x)\<lparr>rq_UnitQueue := q\<rparr>\<rparr>]) = Some (1, [1], a')"
proof
  fix x :: CMultiplexer
  let ?q = "example_units 1 1 0xC0000000 [1] 0xC0000000 [1]"
  have one: "length [1 :: byte] = 1" by simp
  have w: "boundary 0xC0000000 = 3" "\<not> in_order 0xC0000000" by (simp_all add: boundary_def in_order_def)
  obtain v u3 where v: "CUDT_recvmsg 10 v ?q = Some (Inr (1, [1]), u3, example_units 2 1 0xC0000000 [1] 0xC0000000 [1])"
    using two_arrive [OF w w(1) one, of undefined "[1]"] by blast
  define u where "u = v\<lparr>u_Broken := True, u_Out := []\<rparr>"
  let ?m = "x\<lparr>mux_ID := 4, mux_RcvQueue := (mux_RcvQueue x)\<lparr>rq_UnitQueue := ?q\<rparr>\<rparr>"
  let ?a = "one_socket u [?m]"
  have c: "u_Connected v" using v by (auto simp: CUDT_recvmsg_def split: if_splits)
  obtain b q' where m: "CRcvBuffer_readMsg 10 (the (u_RcvBuffer v)) ?q = Some (1, [1], b, q')"
    using recvmsg_reads [OF v _ c] by (auto split: if_splits)
  then have "CUDT_recvmsg 10 u ?q = Some (Inr (1, [1]), u\<lparr>u_RcvBuffer := Some b\<rparr>, q')"
    using c by (simp add: CUDT_recvmsg_def u_def)
  moreover have "socket_pool 3 (a_United ?a) = Some ?q" by (simp add: socket_pool_def find_mux_def)
  moreover have "u_Out u = []" by (simp add: u_def)
  ultimately obtain r data a' where r: "CUDT_recvmsg_call None 3 10 ?a = Some (r, data, a')"
    by (auto simp: CUDT_recvmsg_call_def recvmsg_body_def try_body_def put_udt_def put_pool_def upd_mux_def Let_def message_result_def)
  have p: "pool_of 4 (a_United ?a) = Some ?q" by (simp add: pool_of_def find_mux_def)
  have c': "u_Connected u" and m': "CRcvBuffer_readMsg 10 (the (u_RcvBuffer u)) ?q = Some (1, [1], b, q')"
    using c m by (simp_all add: u_def del: One_nat_def)
  have "r = 1 \<and> data = [1]"
    using recvmsg_outcome [OF r] p m' c' by (simp add: CUDTSocket_new_def del: One_nat_def)
  then show "\<exists>u q a'. u_Broken u \<and>
     CUDT_recvmsg_call None 3 10 (one_socket u [x\<lparr>mux_ID := 4, mux_RcvQueue := (mux_RcvQueue x)\<lparr>rq_UnitQueue := q\<rparr>\<rparr>]) = Some (1, [1], a')"
    using r by (intro exI [of _ u] exI [of _ ?q] exI [of _ a']) (simp add: u_def)
qed

section \<open>Forged acknowledgements\<close>

text \<open>C22: a full ACK for a packet that was never sent breaks the connection (a light one, of 4 bytes, is not checked). It frees nothing of the send buffer, and the
  application's next \<open>sendmsg\<close> fails with the code 2001.\<close>

theorem forged_ack_breaks:
  assumes "getType p = 2" "getLength p \<noteq> 4" "seqcmp (word_at p 0) (incseq (u_SndCurrSeqNo u)) > 0"
    and "CUDT_processCtrl rand us tk p u pool = Some (v, pool')"
  shows "u_Broken v \<and> u_SndBuffer v = u_SndBuffer u \<and> u_SndLossList v = u_SndLossList u \<and> u_SndLastAck v = u_SndLastAck u \<and>
    CUDT_sendmsg g mem us' tk' data len ttl ord v = Some (Inl (exc 2 1), v)"
proof -
  have "full_ack us tk p (heard_from_peer tk u) = Some v" using assms by (auto simp: CUDT_processCtrl_def Let_def)
  then obtain w where w: "send_ack2 us tk (getAckSeqNo p) (heard_from_peer tk u) = Some w"
      "v = (if seqcmp (word_at p 0) (incseq (u_SndCurrSeqNo w)) > 0 then break_connection w else v)"
    by (auto simp: full_ack_def Let_def split: bind_splits if_splits)
  have same: "same_sender (heard_from_peer tk u) w" by (rule send_ack2_same [OF w(1)])
  then have "u_SndCurrSeqNo w = u_SndCurrSeqNo u" by (simp add: same_sender_def heard_from_peer_def)
  then have v: "v = break_connection w" using w(2) assms(3) by simp
  then show ?thesis using same by (simp add: break_connection_def same_sender_def heard_from_peer_def CUDT_sendmsg_def)
qed

text \<open>An ACK for 20 to a socket that has sent nothing.\<close>

definition forged_ack :: CPacket where
  "forged_ack = \<lparr>m_nHeader = [0x80020000, 0, 0, 0], m_pcData = bytes_of 20, iov_len = 24\<rparr>"

theorem forged_ack_breaks_witness:
  "\<forall>rand g pool. \<exists>v pool'. CUDT_processCtrl rand 0 0 forged_ack ((example_sender g)\<lparr>u_SndLastAck2 := 1, u_SndLastAck2Time := 0\<rparr>) pool = Some (v, pool') \<and>
     u_Broken v"
proof (intro allI)
  fix rand g pool
  let ?u = "(example_sender g)\<lparr>u_SndLastAck2 := 1, u_SndLastAck2Time := 0\<rparr>"
  have p: "getType forged_ack = 2" "getLength forged_ack \<noteq> 4" "word_at forged_ack 0 = 20" "getAckSeqNo forged_ack = 0"
    by (simp_all add: forged_ack_def getType_def getLength_def word_at_def getAckSeqNo_def hdr_def peek32_def word_of_bytes_of)
  have far: "seqcmp (word_at forged_ack 0) (incseq (u_SndCurrSeqNo ?u)) > 0"
    by (simp add: p example_sender_def incseq_def seqcmp_def serial_consts)
  then obtain v pool' where v: "CUDT_processCtrl rand 0 0 forged_ack ?u pool = Some (v, pool')"
    using p by (simp add: CUDT_processCtrl_def full_ack_def send_ack2_def heard_from_peer_def)
  from forged_ack_breaks [OF p(1,2) far v] v
  show "\<exists>v pool'. CUDT_processCtrl rand 0 0 forged_ack ?u pool = Some (v, pool') \<and> u_Broken v" by blast
qed

end
