(* ===== verification/LinkSpec.thy ===== *)
theory LinkSpec imports DeliverySpec begin

text \<open>
  Two sockets and the network between them (\<open>core.cpp\<close>): what the one accepts in \<open>sendmsg\<close> and what the other gives
  out in \<open>recvmsg\<close>. The network loses, repeats and reorders packets as it likes. \<open>SenderSpec\<close> says that the packets
  on the wire are a stream that numbers the messages, \<open>DeliverySpec\<close> that whole messages of the stream are
  given out; together, what is received is what was sent.
\<close>

section \<open>The stream of the sender\<close>

text \<open>The packets of the sender, before and after them nothing: empty messages.\<close>

definition sent_stream :: "(byte list \<times> uint32) list \<Rightarrow> stream" where
  "sent_stream st k = (if 0 \<le> k \<and> k < int (length st) then st ! nat k else ([], 0xC0000000))"

abbreviation cuts :: "(byte list \<times> bool) list \<Rightarrow> (byte list \<times> uint32) list list \<Rightarrow> bool" where
  "cuts ms pss \<equiv> list_all2 (\<lambda>(data, order) ps. concat (map fst ps) = data \<and> one_message order ps) ms pss"

lemma cuts_at:
  assumes "cuts ms pss" "m < length pss"
  shows "m < length ms" "concat (map fst (pss ! m)) = fst (ms ! m)" "one_message (snd (ms ! m)) (pss ! m)" "pss ! m \<noteq> []"
proof -
  show m: "m < length ms" using assms list_all2_lengthD [OF assms(1)] by simp
  show "concat (map fst (pss ! m)) = fst (ms ! m)" "one_message (snd (ms ! m)) (pss ! m)"
    using list_all2_nthD [OF assms(1) m] by (simp_all add: case_prod_unfold)
  then show "pss ! m \<noteq> []" by (simp add: one_message_def)
qed

lemma sent_outside: "\<not> (0 \<le> k \<and> k < int (length st)) \<Longrightarrow> starts (sent_stream st) k \<and> ends (sent_stream st) k \<and> fst (sent_stream st k) = []"
  unfolding sent_stream_def starts_def ends_def by (simp only: if_False) (simp add: boundary_def)

lemma sent_at:
  assumes "m < length pss" "i < length (pss ! m)"
  shows "sent_stream (concat pss) (int (offset pss m + i)) = pss ! m ! i"
proof -
  have "offset pss m + i < length (concat pss)" using offset_end [OF assms(1)] assms(2) by linarith
  then show ?thesis using concat_nth_offset [OF assms] by (simp add: sent_stream_def del: of_nat_add)
qed

lemma sent_bounds:
  assumes "cuts ms pss" "m < length pss" "i < length (pss ! m)"
  shows "starts (sent_stream (concat pss)) (int (offset pss m + i)) \<longleftrightarrow> i = 0"
    and "ends (sent_stream (concat pss)) (int (offset pss m + i)) \<longleftrightarrow> i = length (pss ! m) - 1"
    and "in_order (snd (sent_stream (concat pss) (int (offset pss m + i)))) \<longleftrightarrow> snd (ms ! m)"
  using cuts_at(3) [OF assms(1,2)] assms(3) by (auto simp: one_message_def starts_def ends_def sent_at [OF assms(2,3)] simp del: of_nat_add)

lemma sent_framed:
  assumes "cuts ms pss"
  shows "framed (sent_stream (concat pss))"
  unfolding framed_def
proof
  fix k
  let ?w = "sent_stream (concat pss)" and ?n = "int (length (concat pss))"
  show "starts ?w (k + 1) \<longleftrightarrow> ends ?w k"
  proof (cases "0 \<le> k \<and> k < ?n")
    case True
    then have "nat k < length (concat pss)" by linarith
    then obtain m i where "m < length pss" "i < length (pss ! m)" "nat k = offset pss m + i" by (rule find_offset)
    then have m: "m < length pss" "i < length (pss ! m)" "k = int (offset pss m + i)" using True by linarith+
    show ?thesis
    proof (cases "Suc i < length (pss ! m)")
      case next_in: True
      have k1: "k + 1 = int (offset pss m + Suc i)" using m(3) by simp
      show ?thesis unfolding k1 using sent_bounds(1) [OF assms m(1) next_in] sent_bounds(2) [OF assms m(1,2)] m(3) next_in by simp
    next
      case last: False
      then have e: "ends ?w k" using sent_bounds(2) [OF assms m(1,2)] m by simp
      have k1: "k + 1 = int (offset pss (Suc m))" using m last offset_Suc [OF m(1)] by simp
      have "starts ?w (k + 1)"
      proof (cases "Suc m < length pss")
        case True
        then show ?thesis using sent_bounds(1) [OF assms True, of 0] cuts_at(4) [OF assms True] k1 by simp
      next
        case False
        then have "k + 1 = ?n" using k1 m(1) by (simp add: offset_def)
        then show ?thesis using sent_outside by simp
      qed
      then show ?thesis using e by simp
    qed
  next
    case False
    have "starts ?w (k + 1)"
    proof (cases "0 \<le> k + 1 \<and> k + 1 < ?n")
      case True
      then have k: "k = - 1" "0 < length (concat pss)" using False by linarith+
      obtain m i where m: "m < length pss" "i < length (pss ! m)" "0 = offset pss m + i" using k(2) by (rule find_offset)
      then show ?thesis using sent_bounds(1) [OF assms m(1,2)] k(1) by simp
    qed (simp add: sent_outside)
    then show ?thesis using sent_outside [OF False] by simp
  qed
qed

lemma map_upto_nat: "map f [int a..int (a + n) - 1] = map (\<lambda>i. f (int (a + i))) [0..<n]"
proof (induction n)
  case (Suc n)
  have "[int a..int (a + Suc n) - 1] = [int a..int (a + n) - 1] @ [int (a + n)]" using upto_rec2 [of "int a" "int (a + n)"] by simp
  then show ?case using Suc.IH by simp
qed simp

text \<open>A message of the stream that is not empty is one of those sent.\<close>

lemma sent_message:
  assumes c: "cuts ms pss" and m: "message (sent_stream (concat pss)) i j" "payload (sent_stream (concat pss)) i j \<noteq> []"
  obtains m where "m < length ms" "i = int (offset pss m)" "j = int (offset pss m + length (pss ! m)) - 1" "m < length pss"
    "payload (sent_stream (concat pss)) i j = fst (ms ! m)" "in_order (snd (sent_stream (concat pss) j)) \<longleftrightarrow> snd (ms ! m)"
proof -
  let ?w = "sent_stream (concat pss)" and ?n = "int (length (concat pss))"
  have ij: "i \<le> j" "starts ?w i" "ends ?w j" "\<And>k. i \<le> k \<Longrightarrow> k < j \<Longrightarrow> \<not> ends ?w k" using m(1) by (auto simp: message_def)
  have "0 \<le> i \<and> i < ?n"
  proof (rule ccontr)
    assume o: "\<not> (0 \<le> i \<and> i < ?n)"
    then have "j = i" using sent_outside [OF o] ij(1) ij(4) [of i] by linarith
    then show False using m(2) sent_outside [OF o] by (simp add: payload_def)
  qed
  then have "nat i < length (concat pss)" "int (nat i) = i" by linarith+
  then obtain k x where k: "k < length pss" "x < length (pss ! k)" "i = int (offset pss k + x)" by (metis find_offset)
  then have x: "x = 0" using sent_bounds(1) [OF c k(1,2)] ij(2) by simp
  have l: "0 < length (pss ! k)" using k(2) x by simp
  define e where "e = int (offset pss k + (length (pss ! k) - 1))"
  have "length (pss ! k) - 1 < length (pss ! k)" using l by simp
  then have "ends ?w e" unfolding e_def using sent_bounds(2) [OF c k(1)] by blast
  moreover have "i \<le> e" by (simp add: e_def k(3) x)
  ultimately have je: "j \<le> e" using ij(4) [of e] by (cases "e < j") auto
  define y where "y = nat (j - i)"
  have y: "j = int (offset pss k + y)" "y < length (pss ! k)" using je ij(1) l by (auto simp: y_def e_def k(3) x)
  then have "y = length (pss ! k) - 1" using sent_bounds(2) [OF c k(1) y(2)] ij(3) by simp
  then have j: "j = int (offset pss k + length (pss ! k)) - 1" using y(1) l by simp
  have at: "map (\<lambda>z. fst (?w (int (offset pss k + z)))) [0..<length (pss ! k)] = map (\<lambda>z. fst (pss ! k ! z)) [0..<length (pss ! k)]"
  proof (rule map_cong [OF refl])
    fix z assume "z \<in> set [0..<length (pss ! k)]"
    then have "z < length (pss ! k)" by simp
    then show "fst (?w (int (offset pss k + z))) = fst (pss ! k ! z)" by (simp only: sent_at [OF k(1)])
  qed
  have "payload ?w i j = concat (map (\<lambda>z. fst (pss ! k ! z)) [0..<length (pss ! k)])"
    unfolding payload_def j k(3) x add_0_right map_upto_nat at ..
  also have "map (\<lambda>z. fst (pss ! k ! z)) [0..<length (pss ! k)] = map fst (pss ! k)" by (rule nth_equalityI) simp_all
  finally have p: "payload ?w i j = fst (ms ! k)" using cuts_at(2) [OF c k(1)] by simp
  have o: "in_order (snd (?w j)) \<longleftrightarrow> snd (ms ! k)" unfolding y(1) by (rule sent_bounds(3) [OF c k(1) y(2)])
  have "i = int (offset pss k)" using k(3) x by simp
  then show thesis by (rule that [OF cuts_at(1) [OF c k(1)] _ j k(1) p o])
qed

section \<open>What is received is what was sent\<close>

text \<open>Each thing read is a message, cut to the room there was, none twice, and none that was sent before one to be kept in order
  is read after it.\<close>

definition received :: "(byte list \<times> bool) list \<Rightarrow> (int \<times> byte list) list \<Rightarrow> nat list \<Rightarrow> bool" where
  "received ms out ns \<longleftrightarrow> list_all2 (\<lambda>(len, d) m. m < length ms \<and> d = take (nat len) (fst (ms ! m))) out ns \<and> distinct ns \<and>
     (\<forall>x y. x < y \<and> y < length ns \<longrightarrow> snd (ms ! (ns ! x)) \<longrightarrow> ns ! x < ns ! y)"

lemma distinct_of_concat: "distinct (concat (map g xs)) \<Longrightarrow> \<forall>x\<in>set xs. g x \<noteq> [] \<Longrightarrow> distinct xs"
proof (induction xs)
  case (Cons x xs)
  then obtain y where "y \<in> set (g x)" by fastforce
  moreover have "set (g x) \<inter> (\<Union>z\<in>set xs. set (g z)) = {}" using Cons.prems(1) by simp
  ultimately show ?case using Cons by auto
qed simp

lemma given_received:
  assumes c: "cut_up ms st" and g: "given_out (sent_stream st) out ijs"
  shows "\<exists>ns. received ms out ns"
proof -
  obtain pss where st: "st = concat pss" and p: "cuts ms pss" using c by (auto simp: cut_up_def)
  let ?w = "sent_stream (concat pss)"
  have o: "list_all2 (\<lambda>(len, d) (i, j). message ?w i j \<and> d \<noteq> [] \<and> d = take (nat len) (payload ?w i j)) out ijs"
    and di: "distinct (concat (map (\<lambda>(i, j). [i..j]) ijs))"
    and ord: "\<And>x y. x < y \<Longrightarrow> y < length ijs \<Longrightarrow> in_order (snd (?w (snd (ijs ! x)))) \<Longrightarrow> snd (ijs ! x) < fst (ijs ! y)"
    using g by (auto simp: given_out_def st)
  define place where "place z m \<longleftrightarrow> m < length ms \<and> m < length pss \<and> fst z = int (offset pss m) \<and> snd z = int (offset pss m + length (pss ! m)) - 1 \<and>
      payload ?w (fst z) (snd z) = fst (ms ! m) \<and> (in_order (snd (?w (snd z))) \<longleftrightarrow> snd (ms ! m))" for z m
  have "\<exists>m. place z m" if "z \<in> set ijs" for z
  proof -
    obtain x where x: "x < length ijs" "z = ijs ! x" using \<open>z \<in> set ijs\<close> by (metis in_set_conv_nth)
    then have "message ?w (fst z) (snd z)" "payload ?w (fst z) (snd z) \<noteq> []"
      using list_all2_nthD2 [OF o x(1)] by (auto simp: case_prod_unfold)
    then show ?thesis using sent_message [OF p, of "fst z" "snd z"] unfolding place_def by metis
  qed
  then obtain f where f: "\<And>z. z \<in> set ijs \<Longrightarrow> place z (f z)" by metis
  have le: "fst z \<le> snd z" if "z \<in> set ijs" for z
    using f [OF that] cuts_at(4) [OF p, of "f z"] by (cases "pss ! f z") (simp_all add: place_def)
  have "distinct ijs" using di by (rule distinct_of_concat) (use le in \<open>simp add: case_prod_unfold not_less\<close>)
  moreover have "inj_on f (set ijs)" using f by (intro inj_onI) (auto simp: place_def prod_eq_iff)
  ultimately have dn: "distinct (map f ijs)" by (simp add: distinct_map)
  have "list_all2 (\<lambda>(len, d) m. m < length ms \<and> d = take (nat len) (fst (ms ! m))) out (map f ijs)"
  proof (rule list_all2_all_nthI)
    show "length out = length (map f ijs)" using list_all2_lengthD [OF o] by simp
    fix x assume x: "x < length out"
    then have "x < length ijs" using list_all2_lengthD [OF o] by simp
    then show "(\<lambda>(len, d) m. m < length ms \<and> d = take (nat len) (fst (ms ! m))) (out ! x) (map f ijs ! x)"
      using list_all2_nthD [OF o x] f [of "ijs ! x"] by (auto simp: place_def case_prod_unfold)
  qed
  moreover have "f (ijs ! x) < f (ijs ! y)" if "x < y" "y < length ijs" "snd (ms ! f (ijs ! x))" for x y
  proof (rule ccontr)
    assume n: "\<not> f (ijs ! x) < f (ijs ! y)"
    have px: "place (ijs ! x) (f (ijs ! x))" and py: "place (ijs ! y) (f (ijs ! y))" using f that by simp_all
    have "in_order (snd (?w (snd (ijs ! x))))" using px that(3) unfolding place_def by blast
    then have "snd (ijs ! x) < fst (ijs ! y)" by (rule ord [OF that(1,2)])
    moreover have "fst (ijs ! y) \<le> fst (ijs ! x)" using px py n offset_mono [of "f (ijs ! y)" "f (ijs ! x)" pss] by (simp add: place_def)
    ultimately show False using le [of "ijs ! x"] that by simp
  qed
  ultimately show ?thesis using dn by (intro exI [of _ "map f ijs"]) (simp add: received_def)
qed

section \<open>Two sockets\<close>

text \<open>One socket sends, the other receives. A data packet that arrives is one that was sent, in a free unit; it may come
  late, again or never. Control packets are not tied to what the other side sent. Without a time to live the sender never asks
  to drop a message.\<close>

inductive link_run :: "CUDT \<Rightarrow> CUDT \<Rightarrow> CUnitQueue \<Rightarrow> sender_event list \<Rightarrow> (int \<times> byte list) list \<Rightarrow> CUDT \<Rightarrow> CUDT \<Rightarrow> CUnitQueue \<Rightarrow> bool"
  for u v pool where
  link_start: "link_run u v pool [] [] u v pool"
| link_send: "link_run u v pool es out x y q \<Longrightarrow> sender_step x e x' \<Longrightarrow> link_run u v pool (es @ [e]) out x' y q"
| link_arrive: "link_run u v pool es out x y q \<Longrightarrow> CUDT_processData us tk ref y q = Some (r, y', q') \<Longrightarrow> is_unit q ref \<Longrightarrow>
    m_iFlag (unit_at q ref) = 0 \<Longrightarrow> Wire (m_iSeqNo (m_Packet (unit_at q ref))) bytes word \<in> set es \<Longrightarrow>
    carries (m_Packet (unit_at q ref)) (bytes, word) \<Longrightarrow> link_run u v pool es out x y' q'"
| link_own: "link_run u v pool es out x y q \<Longrightarrow> own_step y q ds y' q' \<Longrightarrow> link_run u v pool es (out @ ds) x y' q'"

lemma link_sender_run: "link_run u v pool es out x y q \<Longrightarrow> sender_run u es x"
  by (induction rule: link_run.induct) (auto intro: sender_run.intros)

text \<open>The receiver is within the stream: it has seen the first \<open>n\<close> packets at most.\<close>

definition in_stream :: "int32 \<Rightarrow> int \<Rightarrow> int \<Rightarrow> CUDT \<Rightarrow> bool" where
  "in_stream isn n a u \<longleftrightarrow> (\<exists>R. receives isn R u \<and> rs_Acked R = a \<and> rs_Next R \<le> n)"

lemma in_stream_own:
  assumes "in_stream isn n a u" "own_step u pool ds v pool'" "sizes_ok u"
  shows "in_stream isn n (a + seqoff (u_RcvLastAck u) (u_RcvLastAck v)) v"
proof -
  obtain R where R: "receives isn R u" "rs_Acked R = a" "rs_Next R \<le> n" using assms(1) by (auto simp: in_stream_def)
  from own_step_acks [OF assms(2,3) R(1)] show ?thesis
  proof (elim disjE exE)
    fix k assume k: "acks isn R k u v"
    then have "receives isn (R\<lparr>rs_Acked := k\<rparr>) v" by (simp add: acks_def)
    then show ?thesis using acked_position [OF R(1) k] R unfolding in_stream_def by (intro exI [of _ "R\<lparr>rs_Acked := k\<rparr>"]) simp
  next
    assume "receives isn R v"
    then show ?thesis using ack_unchanged [OF R(1)] R unfolding in_stream_def by auto
  qed
qed

lemma in_stream_position:
  assumes "in_stream isn n a u" "0 \<le> k" "k < n" "n < m_iSeqNoTH"
  shows "valid_seq (seq_at isn k)" "a + seqoff (u_RcvLastAck u) (seq_at isn k) = k"
proof -
  obtain R where R: "receives isn R u" "rs_Acked R = a" "rs_Next R \<le> n" using assms(1) by (auto simp: in_stream_def)
  then have r: "valid_seq isn" "u_RcvLastAck u = seq_at isn a" "0 \<le> a" "a \<le> n" by (auto simp: receives_def covered_to_def)
  then show "valid_seq (seq_at isn k)" by simp
  have "\<bar>k - a\<bar> < m_iSeqNoTH" using assms(2-4) r(3,4) by linarith
  then show "a + seqoff (u_RcvLastAck u) (seq_at isn k) = k" by (simp add: r(2) seq.off_window)
qed

lemma in_stream_data:
  assumes w: "in_stream isn n a u" and p: "CUDT_processData us tk ref u pool = Some (r, v, pool')"
    and k: "m_iSeqNo (m_Packet (unit_at pool ref)) = seq_at isn k" "0 \<le> k" "k < n" "n < m_iSeqNoTH"
  shows "in_stream isn n (a + seqoff (u_RcvLastAck u) (u_RcvLastAck v)) v"
proof -
  obtain R where R: "receives isn R u" "rs_Acked R = a" "rs_Next R \<le> n" using w by (auto simp: in_stream_def)
  note kp = in_stream_position [OF w k(2-4)]
  have "valid_seq (m_iSeqNo (m_Packet (unit_at pool ref)))" using kp(1) k(1) by simp
  from processData_outcome [OF R(1) p this] obtain R' where "R' = (if r = 0 then take_in k R else R)" "receives isn R' v"
    using kp(2) k(1) R(2) by (auto simp: position_of_def)
  moreover from this have "rs_Acked R' = rs_Acked R" "rs_Next R' \<le> n" using R(3) k(3) by (auto simp: take_in_def)
  ultimately show ?thesis using ack_unchanged [OF R(1)] R(2) unfolding in_stream_def by (intro exI [of _ R']) simp
qed

lemma link_delivers:
  assumes "link_run u v pool es out x y q" "fresh_receiver isn v" "sizes_ok v" "int (length st) < m_iSeqNoTH"
    "\<forall>s bytes word. Wire s bytes word \<in> set es \<longrightarrow> (\<exists>k<length st. s = seq_at isn (int k) \<and> st ! k = (bytes, word))"
  shows "\<exists>a. delivery_run (sent_stream st) v pool out a y q \<and> in_stream isn (int (length st)) a y \<and> sizes_ok y"
  using assms(1,5)
proof (induction rule: link_run.induct)
  case link_start
  have "in_stream isn (int (length st)) 0 v"
    using fresh_receives [OF assms(2)] unfolding in_stream_def by (intro exI [of _ rspec_start]) (simp add: rspec_start_def)
  then show ?case using dl_start assms(3) by blast
next
  case (link_send es out x y q e x')
  then show ?case by simp
next
  case (link_arrive es out x y q us tk ref r y' q' bytes word)
  let ?p = "m_Packet (unit_at q ref)"
  obtain a where a: "delivery_run (sent_stream st) v pool out a y q" "in_stream isn (int (length st)) a y" "sizes_ok y"
    using link_arrive.IH [OF link_arrive.prems] by blast
  obtain k where k: "k < length st" "m_iSeqNo ?p = seq_at isn (int k)" "st ! k = (bytes, word)"
    using link_arrive.prems link_arrive.hyps(5) by blast
  have p: "valid_seq (m_iSeqNo ?p)" "a + seqoff (u_RcvLastAck y) (m_iSeqNo ?p) = int k"
    using in_stream_position [OF a(2), of "int k"] k(1,2) assms(4) by simp_all
  have "genuine (sent_stream st) a y ?p"
    using p k link_arrive.hyps(6) by (simp add: genuine_def sent_stream_def)
  then have st: "delivery_step (sent_stream st) a y q [] y' q'" by (rule dl_data [OF link_arrive.hyps(2-4)])
  have "in_stream isn (int (length st)) (a + seqoff (u_RcvLastAck y) (u_RcvLastAck y')) y'"
    by (rule in_stream_data [OF a(2) link_arrive.hyps(2) k(2)]) (use k(1) assms(4) in simp_all)
  moreover have "sizes_ok y'" using wires_sizes [OF socket_run_wires [OF delivery_step_socket [OF st]]] a(3) by blast
  ultimately show ?case using dl_step [OF a(1) st] by auto
next
  case (link_own es out x y q ds y' q')
  obtain a where a: "delivery_run (sent_stream st) v pool out a y q" "in_stream isn (int (length st)) a y" "sizes_ok y"
    using link_own.IH [OF link_own.prems] by blast
  have "sizes_ok y'" using wires_sizes [OF socket_run_wires [OF own_step_socket [OF link_own.hyps(2)]]] a(3) by blast
  then show ?case using dl_step [OF a(1) dl_own [OF link_own.hyps(2)]] in_stream_own [OF a(2) link_own.hyps(2) a(3)] by blast
qed

text \<open>C1: what is received is what was sent. Two sockets are connected by a network that loses, repeats, delays and reorders
  packets of data. Each thing that \<open>recvmsg\<close> gives out is then a whole message that \<open>sendmsg\<close> accepted, its bytes
  unchanged and cut only to the room that the reader has; no message is given out twice; and once a message to be kept in
  order is out, no message comes out that was sent before it. Conditions: any control packets may come to the receiver but requests to
  drop, and to the sender those of a peer that follows the protocol (\<open>fair\<close>); messages are sent without a time to live
  (\<open>ttl < 0\<close>) and with memory at hand; less than $2^{30} - 1$ bytes are sent in all, so that no late packet is taken for a new
  one with the same number; the first sequence number is not 0 and the payload at least 48 bytes. With a time to live the
  statement fails: a dropped message makes the sender skip one number too many.\<close>

theorem received_is_sent:
  assumes "fresh_sender isn u" "fresh_receiver isn v" "48 \<le> u_PayloadSize v" "fits_int32 (u_PeerID v)"
    "link_run u v pool es out x y q" "int (length (concat (map fst (accepted es)))) < m_iSeqNoTH"
  shows "\<exists>ns. received (accepted es) out ns"
proof -
  obtain st where st: "numbering isn es st" using sender_run_numbers [OF assms(1) link_sender_run [OF assms(5)]] by blast
  then have c: "cut_up (accepted es) st" by (simp add: numbering_def)
  have len: "int (length st) < m_iSeqNoTH" using cut_up_length [OF c] assms(6) by linarith
  obtain a where a: "delivery_run (sent_stream st) v pool out a y q"
    using link_delivers [OF assms(5,2) _ len] assms(3,4) st by (auto simp: sizes_ok_def numbering_def)
  have "framed (sent_stream st)" using c sent_framed by (auto simp: cut_up_def)
  then have "still_delivers isn (sent_stream st) out a y q"
    using delivery_run_keeps [OF a fresh_delivers [OF assms(2)]] assms(3,4) by (simp add: sizes_ok_def)
  then show ?thesis using given_received [OF c] by (auto simp: still_delivers_def progress_def)
qed

text \<open>An instance: two messages of one byte are accepted and sent, both packets arrive, and the first message is read.\<close>

definition eager :: "CUDT \<Rightarrow> bool" where
  "eager u \<longleftrightarrow> (\<exists>c. u_CC u = Some (UdtCC c)) \<and> u_CongestionWindow u = 16 \<and> u_FlowWindowSize u = 25600"

lemma finish_packet_eager:
  assumes "finish_packet us tk n probe q u = Some (m, q', ts, v)" "eager u"
  shows "eager v"
  using assms by (auto simp: finish_packet_def schedule_next_def Let_def eager_def split: if_split_asm)

lemma pack_new_eager: "pack_new p u = (x, q, v) \<Longrightarrow> eager u \<Longrightarrow> eager v"
  by (auto simp: pack_new_def Let_def eager_def split: if_split_asm option.split_asm prod.split_asm)

lemma one_byte_message:
  assumes "concat (map fst ps) = [d]" "one_message False ps"
  obtains x where "ps = [([d], x)]" "boundary x = 3" "\<not> in_order x"
proof -
  have n: "\<forall>p\<in>set ps. fst p \<noteq> []" using assms(2) by (metis one_message_def in_set_conv_nth)
  obtain p ps' where p: "ps = p # ps'" using assms(2) by (cases ps) (auto simp: one_message_def)
  then have "fst p = [d]" "concat (map fst ps') = []" using assms(1) n by (cases "fst p"; auto simp: append_eq_Cons_conv)+
  moreover from this have "ps' = []" using n p by (cases ps') auto
  ultimately have ps: "ps = [([d], snd p)]" using p by (cases p) simp
  show thesis by (rule that [OF ps]) (use assms(2) in \<open>simp_all add: ps one_message_def\<close>)
qed

lemma accept_byte:
  assumes s: "sends 7 S u" and u: "eager u" "\<not> u_Broken u" "\<not> u_Closing u" "u_Connected u" "u_PayloadSize u = 1456" "u_SndBufSize u = 8192"
    and a: "sp_Acked S = 0" "length (sp_Stream S) < 100"
  obtains v x where "sender_step u (Accepted [d] False) v" "sends 7 (S\<lparr>sp_Stream := sp_Stream S @ [([d], x)]\<rparr>) v" "boundary x = 3" "\<not> in_order x"
    "eager v" "\<not> u_Broken v" "\<not> u_Closing v" "u_Connected v" "u_PayloadSize v = 1456" "u_SndBufSize v = 8192"
proof -
  obtain b us vs ws where b: "buffer_part S u b us vs ws" using s by (auto simp: sends_def)
  have "length (packets b (us @ vs)) = length (sp_Stream S)" using b a(1) by (simp add: buffer_part_def)
  then have c: "0 \<le> CSndBuffer_getCurrBufSize b" "CSndBuffer_getCurrBufSize b < 100"
    using b a(2) by (simp_all add: buffer_part_def ring_def packets_def CSndBuffer_getCurrBufSize_def)
  have ub: "u_SndBuffer u = Some b" using b by (simp add: buffer_part_def)
  obtain r where r: "CSndBuffer_addBuffer (\<lambda>_. undefined) (\<lambda>_. True) 5 [d] 1 (- 1) False b = Some r"
    using addBuffer_ring [of b us vs ws 1 "[d]" "\<lambda>_. undefined" 5 "- 1" False] b by (fastforce simp: buffer_part_def)
  obtain b' where b': "CSndBuffer_addBuffer (\<lambda>_. undefined) (\<lambda>_. True) 5 [d] 1 (- 1) False b = Some (Inr b')"
    by (rule add_sends [OF s _ _ _ ub r]) (use r in auto)
  have room: "mul_int 8192 1456 = Some 11927552" "\<not> 11927551 < CSndBuffer_getCurrBufSize b * 1456"
    "mul_int (8192 - CSndBuffer_getCurrBufSize b) 1456 = Some ((8192 - CSndBuffer_getCurrBufSize b) * 1456)"
    using c by (simp_all add: mul_int_def fits_int32_def)
  obtain v where v: "CUDT_sendmsg (\<lambda>_. undefined) (\<lambda>_. True) 5 5 [d] 1 (- 1) False u = Some (Inr 1, v)"
    "eager v" "\<not> u_Broken v" "\<not> u_Closing v" "u_Connected v" "u_PayloadSize v = 1456" "u_SndBufSize v = 8192"
  proof (cases "CSndBuffer_getCurrBufSize b = 0")
    case True
    then show thesis using u(1)
      by (intro that [of "emit (SndUList_update False) (u\<lparr>u_LastRspTime := 5, u_SndDurationCounter := 5, u_SndBuffer := Some b'\<rparr>)"])
        (simp_all add: CUDT_sendmsg_def b' ub u(2-) room eager_def emit_def)
  next
    case False
    then show thesis using u(1)
      by (intro that [of "emit (SndUList_update False) (u\<lparr>u_SndBuffer := Some b'\<rparr>)"])
        (simp_all add: CUDT_sendmsg_def b' ub u(2-) room eager_def emit_def)
  qed
  have st: "sender_step u (Accepted [d] False) v"
    using do_sendmsg [of "\<lambda>_. undefined" 5 5 "[d]" "- 1" False u "Inr 1" v] v(1) by (simp add: accept_event_def)
  obtain S' where "spec_step 7 S (Accepted [d] False) S'" "sends 7 S' v"
    using sendmsg_step [OF s, of "\<lambda>_. undefined" 5 5 "[d]" "- 1" False "Inr 1" v] v(1) by (auto simp: accept_event_def)
  moreover from this obtain ps where "S' = S\<lparr>sp_Stream := sp_Stream S @ ps\<rparr>" "concat (map fst ps) = [d]" "one_message False ps"
    by (auto elim: accept_stepE)
  ultimately show thesis using one_byte_message [of ps d] that [OF st _ _ _ v(2-7)] by metis
qed

inductive_cases wire_stepE: "spec_step isn S (Wire s bytes x) S'"

lemma wire_next:
  assumes s: "sends 7 S u" and e: "eager u" and n: "sp_Lost S = {}" "sp_Next S < int (length (sp_Stream S))" "sent_length u \<le> 16"
    "sp_Stream S ! nat (sp_Next S) = (bytes, x)"
  obtains v where "sender_step u (Wire (seq_at 7 (sp_Next S)) bytes x) v" "sends 7 (S\<lparr>sp_Next := sp_Next S + 1\<rparr>) v" "eager v"
proof -
  obtain c where c: "u_CC u = Some (UdtCC c)" using e by (auto simp: eager_def)
  have p: "length (m_nHeader CPacket_new) = 4" by (simp add: CPacket_new_def)
  have w: "send_window u = 16" using e by (simp add: eager_def send_window_def trunc_def)
  obtain k q ts v where v: "CUDT_packData 5 5 CPacket_new 5 u = Some (k, q, ts, v)" "k \<noteq> 0"
    using packData_returns [OF s p c, of 5 5 5] n(2,3) w by auto
  obtain S' where S': "spec_step 7 S (on_wire q) S'" "sends 7 S' v" using packData_step [OF s p v(1)] v(2) by auto
  from S'(1) n(1,4) have "S' = S\<lparr>sp_Next := sp_Next S + 1\<rparr>" "on_wire q = Wire (seq_at 7 (sp_Next S)) bytes x"
    by (auto simp: on_wire_def elim: wire_stepE)
  moreover have "eager v"
  proof (cases rule: packData_cases [OF s p, where us = 5 and tk = 5 and ts = 5])
    case fresh: (2 y p')
    obtain z q0 v0 where z: "pack_new p' y = (z, q0, v0)" by (metis prod_cases3)
    have "eager y" using e fresh(2,3,5) by (simp add: eager_def same_sender_def)
    then have "eager v0" by (rule pack_new_eager [OF z])
    then show ?thesis using v(1) z fresh(6) finish_packet_eager [of 5 5 _ _ q0 v0 k q ts v]
      by (auto simp: finish_def split: packed.split_asm)
  qed (use n(1) in simp)
  ultimately show thesis using that S'(2) do_packData [OF v(1) p] v(2) by simp
qed

lemma sent_length_small:
  assumes "sends 7 S u" "sp_Seen S = 0" "sp_Next S = 0 \<or> sp_Next S = 1"
  shows "sent_length u \<le> 16"
proof -
  have "u_SndLastAck u = 7" using assms(1,2) by (simp add: sends_def shift_def)
  moreover have "incseq (u_SndCurrSeqNo u) = 7 + sp_Next S" using curr_next [OF assms(1)] assms(3) by (auto simp: shift_def)
  ultimately show ?thesis using assms(3) by (auto simp: sent_length_def seqlen_def)
qed

theorem received_is_sent_witness:
  "\<forall>g. \<exists>pool es v y q ns. link_run (example_sender g) (example_reader g) pool es [(10, [1])] v y q \<and> received (accepted es) [(10, [1])] ns"
proof
  fix g
  let ?u = "example_sender g" and ?v = "example_reader g"
  have e: "eager ?u" "\<not> u_Broken ?u" "\<not> u_Closing ?u" "u_Connected ?u" "u_PayloadSize ?u = 1456" "u_SndBufSize ?u = 8192"
    by (simp_all add: eager_def example_sender_def CUDT_new_def closed_status_def Let_def)
  obtain u1 x where u1: "sender_step ?u (Accepted [1] False) u1" "sends 7 (spec_start\<lparr>sp_Stream := [([1], x)]\<rparr>) u1" "boundary x = 3" "\<not> in_order x"
    "eager u1" "\<not> u_Broken u1" "\<not> u_Closing u1" "u_Connected u1" "u_PayloadSize u1 = 1456" "u_SndBufSize u1 = 8192"
    by (rule accept_byte [OF fresh_sends [OF example_fresh] e, of 1]) (simp_all add: spec_start_def)
  let ?S = "spec_start\<lparr>sp_Stream := [([1], x)]\<rparr>"
  obtain u2 x' where u2: "sender_step u1 (Accepted [1] False) u2" "sends 7 (?S\<lparr>sp_Stream := sp_Stream ?S @ [([1], x')]\<rparr>) u2" "boundary x' = 3" "eager u2"
    by (rule accept_byte [OF u1(2,5-10), of 1]) (simp_all add: spec_start_def)
  let ?S = "?S\<lparr>sp_Stream := sp_Stream ?S @ [([1], x')]\<rparr>"
  have l: "sent_length u2 \<le> 16" by (rule sent_length_small [OF u2(2)]) (simp_all add: spec_start_def)
  obtain u3 where u3: "sender_step u2 (Wire (seq_at 7 (sp_Next ?S)) [1] x) u3" "sends 7 (?S\<lparr>sp_Next := sp_Next ?S + 1\<rparr>) u3" "eager u3"
    by (rule wire_next [OF u2(2,4) _ _ l]) (simp_all add: spec_start_def)
  let ?T = "?S\<lparr>sp_Next := sp_Next ?S + 1\<rparr>"
  have l: "sent_length u3 \<le> 16" by (rule sent_length_small [OF u3(2)]) (simp_all add: spec_start_def)
  obtain u4 where u4: "sender_step u3 (Wire (seq_at 7 (sp_Next ?T)) [1] x') u4"
    by (rule wire_next [OF u3(2,3) _ _ l]) (simp_all add: spec_start_def)
  let ?q = "\<lambda>f f'. example_units f f' x [1] x' [1]"
  let ?es = "[Accepted [1] False, Accepted [1] False, Wire 7 [1] x, Wire 8 [1] x']"
  have w: "seq_at 7 (sp_Next ?S) = 7" "seq_at 7 (sp_Next ?T) = 8" by (simp_all add: spec_start_def shift_def serial_consts)
  have 1: "link_run ?u ?v (?q 0 0) ?es [] u4 ?v (?q 0 0)"
    using link_send [OF link_send [OF link_send [OF link_send [OF link_start u1(1)] u2(1)] u3(1)] u4] by (simp only: w append.simps)
  obtain v1 v2 v3 where v: "CUDT_processData 5 5 (0, 0) ?v (?q 0 0) = Some (0, v1, ?q 1 0)"
      "CUDT_processData 5 5 (0, 1) v1 (?q 1 0) = Some (0, v2, ?q 1 1)" "CUDT_recvmsg 10 v2 (?q 1 1) = Some (Inr (1, [1]), v3, ?q 2 1)"
    by (rule two_arrive [OF u1(3,4) u2(3), of "[1]" g "[1]"]) (simp, rule that)
  have "link_run ?u ?v (?q 0 0) ?es [] u4 v1 (?q 1 0)"
    by (rule link_arrive [OF 1 v(1), of "[1]" x]) (simp_all add: example_units_at solo_packet_fields solo_carries)
  then have "link_run ?u ?v (?q 0 0) ?es [] u4 v2 (?q 1 1)"
    by (rule link_arrive [OF _ v(2), of _ _ _ _ _ _ "[1]" x']) (simp_all add: example_units_at solo_packet_fields solo_carries del: One_nat_def)
  from link_own [OF this own_read [OF v(3)]] have r: "link_run ?u ?v (?q 0 0) ?es [(10, [1])] u4 v3 (?q 2 1)" by simp
  have "48 \<le> u_PayloadSize ?v" "fits_int32 (u_PeerID ?v)" by (simp_all add: example_reader_def fits_int32_def)
  moreover have "int (length (concat (map fst (accepted ?es)))) < m_iSeqNoTH" by (simp add: serial_consts)
  ultimately obtain ns where "received (accepted ?es) [(10, [1])] ns"
    using received_is_sent [OF example_fresh example_reader_fresh _ _ r] by blast
  with r show "\<exists>pool es v y q ns. link_run ?u ?v pool es [(10, [1])] v y q \<and> received (accepted es) [(10, [1])] ns"
    by blast
qed

end
