(* ===== verification/ReadSpec.thy ===== *)
theory ReadSpec imports DeliverySpec begin

text \<open>
  Progress of the reader (\<open>readMsg\<close> of \<open>buffer.cpp\<close>, \<open>recvmsg\<close> of \<open>core.cpp\<close>): as long as the acknowledged part of the
  buffer holds a whole message that was not read, each \<open>recvmsg\<close> gives out a message of it, the first first.
\<close>

lemma scan_ready:
  assumes S: "stream_buffer w s a G D b pool" and fr: "framed w" and rd: "ready w s a b pool i j"
  obtains s' e b' pool' where "CRcvBuffer_scanMsg b pool = Some ((True, pos b' s' s', pos b' s' e, False), b', pool')" "s \<le> s'" "s' \<le> i"
    "stream_buffer w s' a G D b' pool'" "message w s' e" "\<forall>x\<in>{s'..e}. unread b' pool' s' x" "e < a"
proof -
  note d = stream_bufferD [OF S]
  have ij: "s \<le> i" "i \<le> j" "j < a" "ends w j" using rd by (auto simp: ready_def message_def)
  have "win (rb_Size b) s s" using d(5) by (simp add: win_def)
  then have ne: "\<not> (rb_StartPos b = rb_LastAckPos b \<and> rb_MaxPos b \<le> 0)" using pos_inj [OF _ d(7), of s] pos_start [OF d(1), of s] ij d(3) by auto
  have "ring_dist b (rb_StartPos b) (rb_LastAckPos b) < Suc (nat (rb_Size b))" using ring_dist_le [OF d(5)] by (simp add: less_SucI)
  from skip_bad_total [OF d(1) this, of pool] obtain b' pool' where k: "skip_bad (Suc (nat (rb_Size b))) b pool = Some (b', pool')" by blast
  obtain s' where s': "s \<le> s'" "stream_buffer w s' a G D b' pool'" "good_start w s' a b' pool'" "ready w s' a b' pool' i j"
    using skip_bad_stream [OF S k] rd by blast
  note d' = stream_bufferD [OF s'(2)]
  have si: "s' \<le> i" using s'(4) by (simp add: ready_def)
  obtain e where e: "e < a" "message w s' e" "\<forall>x\<in>{s'..e}. unread b' pool' s' x"
    using s'(3) si ij(2-4) unfolding good_start_def by fastforce
  have st: "rb_StartPos b' = pos b' s' s'" using pos_start [OF d'(1)] by simp
  have "win (rb_Size b') s' s'" using d'(5) by (simp add: win_def)
  then have pa: "(rb_StartPos b' = rb_LastAckPos b') = False" using pos_inj [OF _ d'(7), of s'] st d'(3) si ij by auto
  have n: "e - s' < int (nat (rb_MaxPos b' + CRcvBuffer_getRcvDataSize b' + 1))"
    using e(1) d'(2,6) by (simp add: getRcvDataSize_stream [OF s'(2)])
  have se: "s' \<le> e" using e(2) by (simp add: message_def)
  have f: "find_msg (nat (rb_MaxPos b' + CRcvBuffer_getRcvDataSize b' + 1)) b' pool' (- 1) (rb_StartPos b') False = (True, pos b' s' s', pos b' s' e, False)"
    unfolding st by (rule find_first [OF s'(2) fr e(2,3,1) order_refl se _ n]) simp
  have "CRcvBuffer_scanMsg b pool = Some ((True, pos b' s' s', pos b' s' e, False), b', pool')"
    unfolding CRcvBuffer_scanMsg_def if_not_P [OF ne] k option.map prod.case Let_def pa f by simp
  then show thesis using that s'(1,2) si e by blast
qed

lemma read_ready:
  assumes S: "stream_buffer w s a G D b pool" and fr: "framed w" and rd: "ready w s a b pool i j" and len: "0 \<le> len"
  shows "\<exists>d b' pool' i' j'. CRcvBuffer_readMsg len b pool = Some (int (length d), d, b', pool') \<and> s \<le> i' \<and> i' \<le> i \<and> message w i' j' \<and> j' < a \<and>
    d = take (nat len) (payload w i' j')"
proof -
  obtain t e b1 pool1 where sc: "CRcvBuffer_scanMsg b pool = Some ((True, pos b1 t t, pos b1 t e, False), b1, pool1)" "s \<le> t" "t \<le> i"
    "stream_buffer w t a G D b1 pool1" "message w t e" "\<forall>x\<in>{t..e}. unread b1 pool1 t x" "e < a"
    by (rule scan_ready [OF S fr rd])
  note d = stream_bufferD [OF sc(4)]
  have te: "t \<le> e" "e < t + rb_Size b1" using sc(5,7) d(7) by (auto simp: message_def win_def)
  note r = pos_range [OF d(5), of t]
  have "ring_dist b1 (pos b1 t t) ((pos b1 t e + 1) smod rb_Size b1) < Suc (nat (rb_Size b1))" using ring_dist_le [OF d(5)] by (simp add: less_SucI)
  then have "copy_msg (Suc (nat (rb_Size b1))) (pos b1 t t) (pos b1 t e) False len b1 pool1 \<noteq> None" using r d(1) by (intro copy_total) auto
  then obtain x rs b2 pool2 where c: "copy_msg (Suc (nat (rb_Size b1))) (pos b1 t t) (pos b1 t e) False len b1 pool1 = Some (x, rs, b2, pool2)"
    by auto
  have x: "x = take (nat len) (payload w t e)" "rs = len - int (length x)"
    using copy_msg_stream [OF c sc(4) order_refl _ te(2) sc(6) len] te(1) sc(7) by auto
  have "CRcvBuffer_readMsg len b pool = Some (int (length x), x, b2\<lparr>rb_StartPos := (pos b1 t e + 1) smod rb_Size b2\<rparr>, pool2)"
    using x(2) by (simp add: CRcvBuffer_readMsg_def sc(1) c del: copy_msg.simps)
  then show ?thesis using sc(2,3,5,7) x(1) by blast
qed

text \<open>C5: a message that is there is given out. When the acknowledged packets in the buffer of a connected socket contain a whole
  message that was not read, \<open>recvmsg\<close> with room for at least one byte returns data: a message of the stream that
  lies in the acknowledged part too and does not begin after that one.\<close>

theorem ready_message_read:
  assumes "u_RcvBuffer u = Some b" "stream_buffer w s a G D b pool" "framed w" "ready w s a b pool i j" "u_Connected u" "0 < len"
    "\<forall>k. s \<le> k \<and> k \<le> i \<longrightarrow> fst (w k) \<noteq> []"
  shows "\<exists>n d v pool' i' j'. CUDT_recvmsg len u pool = Some (Inr (n, d), v, pool') \<and> 0 < n \<and> s \<le> i' \<and> i' \<le> i \<and> message w i' j' \<and> j' < a \<and>
    d = take (nat len) (payload w i' j')"
proof -
  obtain d b' pool' i' j' where r: "CRcvBuffer_readMsg len b pool = Some (int (length d), d, b', pool')" "s \<le> i'" "i' \<le> i" "message w i' j'" "j' < a"
    "d = take (nat len) (payload w i' j')" using read_ready [OF assms(2-4), of len] assms(6) by auto
  have "i' \<le> j'" using r(4) by (simp add: message_def)
  then have "payload w i' j' \<noteq> []" using assms(7) r(2,3) by (simp add: payload_Cons)
  then have "d \<noteq> []" using r(6) assms(6) by simp
  then have "CUDT_recvmsg len u pool = Some (Inr (int (length d), d), u\<lparr>u_RcvBuffer := Some b'\<rparr>, pool')"
    using assms(1,5,6) r(1) by (simp add: CUDT_recvmsg_def)
  then show ?thesis using r(2-6) \<open>d \<noteq> []\<close> by (intro exI [of _ "int (length d)"] exI [of _ d]) auto
qed

text \<open>An instance: two packets have arrived, and the first is acknowledged.\<close>

theorem ready_message_read_witness:
  "\<forall>g. \<exists>b q n d v q'. u_RcvBuffer ((example_reader g)\<lparr>u_RcvBuffer := Some b\<rparr>) = Some b \<and>
     CUDT_recvmsg 10 ((example_reader g)\<lparr>u_RcvBuffer := Some b\<rparr>) q = Some (Inr (n, d), v, q') \<and> d = [1]"
proof
  fix g
  let ?q = "\<lambda>f f'. example_units f f' 0xC0000000 [1] 0xC0000000 [1]" and ?w = example_stream
  define b where "b = (CRcvBuffer_new 8)\<lparr>rb_Unit := [Some (0, 0), None, None, None, None, None, None, None]\<rparr>"
  have S0: "stream_buffer ?w 0 0 {} {} (CRcvBuffer_new 8) (?q 0 0)" by (rule new_stream) simp
  have a: "CRcvBuffer_addData (0, 0) 0 (CRcvBuffer_new 8) (?q 0 0) = (0, b, ?q 1 0)"
    by (simp add: CRcvBuffer_addData_def b_def CRcvBuffer_new_def example_units_def unit_at_def set_flag_def add_Count_def put_slot_def aget_def aset_def numeral_eq_Suc)
  have c: "carries (m_Packet (unit_at (?q 0 0) (0, 0))) (?w k)" for k using solo_carries by (simp add: example_units_at example_stream_def)
  have S1: "stream_buffer ?w 0 0 {0} {} b (?q 1 0)" and sz: "rb_Size b = 8"
    using addData_stream [OF S0 a _ _ _ _ c] by (simp_all add: CRcvBuffer_getAvailBufSize_def CRcvBuffer_getRcvDataSize_def CRcvBuffer_new_def example_units_at)
  let ?b = "CRcvBuffer_ackData 1 b" and ?u = "(example_reader g)\<lparr>u_RcvBuffer := Some (CRcvBuffer_ackData 1 b)\<rparr>"
  have S2: "stream_buffer ?w 0 1 {0} {} ?b (?q 1 0)" using ackData_stream [OF S1, of 1] sz by simp
  have "unread ?b (?q 1 0) 0 0"
    by (simp add: unread_def rb_at_def pos_def place_def CRcvBuffer_ackData_def b_def CRcvBuffer_new_def aget_def example_units_at del: One_nat_def)
  then have r: "ready ?w 0 1 ?b (?q 1 0) 0 0"
    by (simp add: ready_def message_def starts_def ends_def example_stream_def boundary_def)
  have u: "u_RcvBuffer ?u = Some ?b" "u_Connected ?u" by (simp_all add: example_reader_def)
  have ne: "\<forall>k. 0 \<le> k \<and> k \<le> 0 \<longrightarrow> fst (?w k) \<noteq> []" by (simp add: example_stream_def)
  obtain n d v q' i j where x: "CUDT_recvmsg 10 ?u (?q 1 0) = Some (Inr (n, d), v, q')" "0 \<le> i" "i \<le> 0" "message ?w i j" "j < 1" "d = take 10 (payload ?w i j)"
    using ready_message_read [OF u(1) S2 example_framed r u(2) _ ne, of 10] by auto
  then have "i = 0" "j = 0" by (auto simp: message_def)
  then have "d = [1]" using x(6) by (simp add: payload_def example_stream_def)
  then show "\<exists>b q n d v q'. u_RcvBuffer ((example_reader g)\<lparr>u_RcvBuffer := Some b\<rparr>) = Some b \<and>
     CUDT_recvmsg 10 ((example_reader g)\<lparr>u_RcvBuffer := Some b\<rparr>) q = Some (Inr (n, d), v, q') \<and> d = [1]"
    using x(1) u(1) by blast
qed

end
