(* ===== verification/ChannelSetup.thy ===== *)
theory ChannelSetup imports Errors Address begin

text \<open>
  The life of a UDP channel: constructors, \<open>open\<close>, \<open>setUDPSockOpt\<close>, \<open>close\<close> and the accessors of
  \<open>CChannel\<close> (\<open>channel.cpp\<close>), and the part of \<open>CUDTUnited::updateMux\<close> that makes one. The operating
  system answers the calls: an answer may depend on all calls made before, which are kept, with their
  answers, in a trace, oldest first. The code of the Linux build is modelled: \<open>build.rs\<close> defines
  neither \<open>BSD\<close> nor \<open>UNIX\<close>, so the sizes of the buffers are set as asked for and \<open>SO_RCVTIMEO\<close> is used.
\<close>

section \<open>The calls\<close>

datatype udp_option = V6ONLY int | RCVBUF int | SNDBUF int | RCVTIMEO int int

datatype syscall =
    Sys_socket int
  | Sys_setsockopt int udp_option
  | Sys_bind int sockaddr int
  | Sys_getaddrinfo int
  | Sys_freeaddrinfo
  | Sys_close int

type_synonym trace = "(syscall \<times> int) list"

text \<open>\<open>os_info\<close> is the first address \<open>getaddrinfo\<close> found, with its length.\<close>

record os =
  os_ret :: "trace \<Rightarrow> syscall \<Rightarrow> int"
  os_errno :: "trace \<Rightarrow> int"
  os_info :: "trace \<Rightarrow> sockaddr \<times> int"

definition sys :: "os \<Rightarrow> syscall \<Rightarrow> trace \<Rightarrow> int \<times> trace" where
  "sys os c tr = (let r = os_ret os tr c in (r, tr @ [(c, r)]))"

text \<open>\<open>throw CUDTException(1, minor, NET_ERROR)\<close>.\<close>

definition net_error :: "os \<Rightarrow> int \<Rightarrow> trace \<Rightarrow> CUDTException" where
  "net_error os minor tr = CUDTException_new (os_errno os tr) 1 minor (os_errno os tr)"

section \<open>The channel\<close>

record CChannel =
  ch_IPversion :: int
  ch_SockAddrSize :: int
  ch_Socket :: int
  ch_SndBufSize :: int
  ch_RcvBufSize :: int

definition sizeof_sockaddr_in :: int where "sizeof_sockaddr_in = 16"
definition sizeof_sockaddr_in6 :: int where "sizeof_sockaddr_in6 = 28"

definition CChannel_default :: CChannel where
  "CChannel_default = \<lparr>ch_IPversion = AF_INET, ch_SockAddrSize = sizeof_sockaddr_in, ch_Socket = 0,
     ch_SndBufSize = 65536, ch_RcvBufSize = 65536\<rparr>"

definition CChannel_new :: "int \<Rightarrow> CChannel" where
  "CChannel_new version = \<lparr>ch_IPversion = version,
     ch_SockAddrSize = (if AF_INET = version then sizeof_sockaddr_in else sizeof_sockaddr_in6), ch_Socket = 0,
     ch_SndBufSize = 65536, ch_RcvBufSize = 65536\<rparr>"

definition setSndBufSize :: "int \<Rightarrow> CChannel \<Rightarrow> CChannel" where
  "setSndBufSize n ch = ch\<lparr>ch_SndBufSize := n\<rparr>"

definition setRcvBufSize :: "int \<Rightarrow> CChannel \<Rightarrow> CChannel" where
  "setRcvBufSize n ch = ch\<lparr>ch_RcvBufSize := n\<rparr>"

text \<open>\<open>getsockopt\<close> and \<open>getsockname\<close> write their result only when they succeed; the answer is \<open>None\<close> when they
  fail. The address is left as the caller passed it then.\<close>

definition getSndBufSize :: "int option \<Rightarrow> CChannel \<Rightarrow> int \<times> CChannel" where
  "getSndBufSize answer ch =
    (let ch = (case answer of None \<Rightarrow> ch | Some n \<Rightarrow> ch\<lparr>ch_SndBufSize := n\<rparr>) in (ch_SndBufSize ch, ch))"

definition getRcvBufSize :: "int option \<Rightarrow> CChannel \<Rightarrow> int \<times> CChannel" where
  "getRcvBufSize answer ch =
    (let ch = (case answer of None \<Rightarrow> ch | Some n \<Rightarrow> ch\<lparr>ch_RcvBufSize := n\<rparr>) in (ch_RcvBufSize ch, ch))"

definition getSockAddr :: "sockaddr option \<Rightarrow> sockaddr \<Rightarrow> sockaddr" where
  "getSockAddr answer addr = (case answer of None \<Rightarrow> addr | Some a \<Rightarrow> a)"

definition getPeerAddr :: "sockaddr option \<Rightarrow> sockaddr \<Rightarrow> sockaddr" where
  "getPeerAddr answer addr = (case answer of None \<Rightarrow> addr | Some a \<Rightarrow> a)"

definition setUDPSockOpt :: "os \<Rightarrow> CChannel \<Rightarrow> trace \<Rightarrow> (CUDTException + unit) \<times> trace" where
  "setUDPSockOpt os ch tr =
    (let fd = ch_Socket ch;
         (r, tr) = sys os (Sys_setsockopt fd (RCVBUF (ch_RcvBufSize ch))) tr
     in if 0 \<noteq> r then (Inl (net_error os 3 tr), tr)
        else let (r, tr) = sys os (Sys_setsockopt fd (SNDBUF (ch_SndBufSize ch))) tr
        in if 0 \<noteq> r then (Inl (net_error os 3 tr), tr)
        else let (r, tr) = sys os (Sys_setsockopt fd (RCVTIMEO 0 100)) tr
        in if 0 \<noteq> r then (Inl (net_error os 3 tr), tr)
        else (Inr (), tr))"

text \<open>The three steps of \<open>open(const sockaddr*)\<close> before the options: \<open>IPV6_V6ONLY\<close>, and the binding of the socket
  to the address given or to the one \<open>getaddrinfo\<close> found.\<close>

definition set_v6only :: "os \<Rightarrow> CChannel \<Rightarrow> trace \<Rightarrow> (CUDTException + unit) \<times> trace" where
  "set_v6only os ch tr =
    (if ch_IPversion ch = AF_INET6 then
       let (r, tr) = sys os (Sys_setsockopt (ch_Socket ch) (V6ONLY 1)) tr
       in (if 0 \<noteq> r then Inl (net_error os 3 tr) else Inr (), tr)
     else (Inr (), tr))"

definition bind_given :: "os \<Rightarrow> CChannel \<Rightarrow> sockaddr \<Rightarrow> trace \<Rightarrow> (CUDTException + unit) \<times> trace" where
  "bind_given os ch a tr =
    (let (r, tr) = sys os (Sys_bind (ch_Socket ch) a (ch_SockAddrSize ch)) tr
     in (if 0 \<noteq> r then Inl (net_error os 3 tr) else Inr (), tr))"

definition bind_any :: "os \<Rightarrow> CChannel \<Rightarrow> trace \<Rightarrow> (CUDTException + unit) \<times> trace" where
  "bind_any os ch tr =
    (let (r, tr) = sys os (Sys_getaddrinfo (ch_IPversion ch)) tr
     in if 0 \<noteq> r then (Inl (net_error os 3 tr), tr)
        else let (ai_addr, ai_addrlen) = os_info os tr;
                 (r, tr) = sys os (Sys_bind (ch_Socket ch) ai_addr ai_addrlen) tr
        in if 0 \<noteq> r then (Inl (net_error os 3 tr), tr)
        else (Inr (), snd (sys os Sys_freeaddrinfo tr)))"

definition CChannel_open :: "os \<Rightarrow> sockaddr option \<Rightarrow> CChannel \<Rightarrow> trace \<Rightarrow> (CUDTException + unit) \<times> CChannel \<times> trace" where
  "CChannel_open os addr ch tr =
    (let (fd, tr) = sys os (Sys_socket (ch_IPversion ch)) tr; ch = ch\<lparr>ch_Socket := fd\<rparr>
     in if fd < 0 then (Inl (net_error os 0 tr), ch, tr)
        else case set_v6only os ch tr of
          (Inl e, tr) \<Rightarrow> (Inl e, ch, tr)
        | (Inr _, tr) \<Rightarrow>
            case (case addr of Some a \<Rightarrow> bind_given os ch a tr | None \<Rightarrow> bind_any os ch tr) of
              (Inl e, tr) \<Rightarrow> (Inl e, ch, tr)
            | (Inr _, tr) \<Rightarrow> (case setUDPSockOpt os ch tr of (r, tr) \<Rightarrow> (r, ch, tr)))"

definition CChannel_adopt :: "os \<Rightarrow> int \<Rightarrow> CChannel \<Rightarrow> trace \<Rightarrow> (CUDTException + unit) \<times> CChannel \<times> trace" where
  "CChannel_adopt os udpsock ch tr =
    (let ch = ch\<lparr>ch_Socket := udpsock\<rparr> in case setUDPSockOpt os ch tr of (r, tr) \<Rightarrow> (r, ch, tr))"

definition CChannel_close :: "os \<Rightarrow> CChannel \<Rightarrow> trace \<Rightarrow> trace" where
  "CChannel_close os ch tr = snd (sys os (Sys_close (ch_Socket ch)) tr)"

text \<open>What \<open>updateMux\<close> does for a new multiplexer; an error closes the channel and goes on to the caller.\<close>

definition make_channel :: "os \<Rightarrow> int \<Rightarrow> int \<Rightarrow> int \<Rightarrow> int option \<Rightarrow> sockaddr option \<Rightarrow> trace
    \<Rightarrow> (CUDTException + CChannel) \<times> trace" where
  "make_channel os version sndbuf rcvbuf udpsock addr tr =
    (let ch = setRcvBufSize rcvbuf (setSndBufSize sndbuf (CChannel_new version))
     in case (case udpsock of Some fd \<Rightarrow> CChannel_adopt os fd ch tr | None \<Rightarrow> CChannel_open os addr ch tr) of
          (Inl e, ch, tr) \<Rightarrow> (Inl e, CChannel_close os ch tr)
        | (Inr _, ch, tr) \<Rightarrow> (Inr ch, tr))"

section \<open>What the calls do to the operating system\<close>

text \<open>The UDP sockets of the process, as the calls of a trace leave them: \<open>socket\<close> makes one, \<open>setsockopt\<close> and
  \<open>bind\<close> change it when they succeed, \<open>close\<close> takes it away. \<open>infos\<close> counts the lists of \<open>getaddrinfo\<close> not given back.\<close>

record udp_socket =
  k_family :: int
  k_bound :: "sockaddr option"
  k_v6only :: bool
  k_rcvbuf :: "int option"
  k_sndbuf :: "int option"
  k_timeout :: "(int \<times> int) option"

definition udp_new :: "int \<Rightarrow> udp_socket" where
  "udp_new v = \<lparr>k_family = v, k_bound = None, k_v6only = False, k_rcvbuf = None, k_sndbuf = None, k_timeout = None\<rparr>"

fun set_option :: "udp_option \<Rightarrow> udp_socket \<Rightarrow> udp_socket" where
  "set_option (V6ONLY n) s = s\<lparr>k_v6only := n \<noteq> 0\<rparr>"
| "set_option (RCVBUF n) s = s\<lparr>k_rcvbuf := Some n\<rparr>"
| "set_option (SNDBUF n) s = s\<lparr>k_sndbuf := Some n\<rparr>"
| "set_option (RCVTIMEO sec usec) s = s\<lparr>k_timeout := Some (sec, usec)\<rparr>"

definition on_fd :: "int \<Rightarrow> (udp_socket \<Rightarrow> udp_socket) \<Rightarrow> (int \<rightharpoonup> udp_socket) \<Rightarrow> (int \<rightharpoonup> udp_socket)" where
  "on_fd fd f k = k(fd := map_option f (k fd))"

fun kernel_step :: "syscall \<times> int \<Rightarrow> (int \<rightharpoonup> udp_socket) \<Rightarrow> (int \<rightharpoonup> udp_socket)" where
  "kernel_step (Sys_socket v, r) k = (if r < 0 then k else k(r \<mapsto> udp_new v))"
| "kernel_step (Sys_setsockopt fd opt, r) k = (if r = 0 then on_fd fd (set_option opt) k else k)"
| "kernel_step (Sys_bind fd a len, r) k = (if r = 0 then on_fd fd (\<lambda>s. s\<lparr>k_bound := Some a\<rparr>) k else k)"
| "kernel_step (Sys_close fd, r) k = k(fd := None)"
| "kernel_step (Sys_getaddrinfo v, r) k = k"
| "kernel_step (Sys_freeaddrinfo, r) k = k"

definition kernel :: "trace \<Rightarrow> (int \<rightharpoonup> udp_socket)" where
  "kernel tr = fold kernel_step tr Map.empty"

fun info_step :: "syscall \<times> int \<Rightarrow> int \<Rightarrow> int" where
  "info_step (Sys_getaddrinfo v, r) n = (if r = 0 then n + 1 else n)"
| "info_step (Sys_freeaddrinfo, r) n = n - 1"
| "info_step (_, r) n = n"

definition infos :: "trace \<Rightarrow> int" where
  "infos tr = fold info_step tr 0"

lemma kernel_Nil [simp]: "kernel [] = Map.empty"
  by (simp add: kernel_def)

lemma kernel_append [simp]: "kernel (tr @ es) = fold kernel_step es (kernel tr)"
  by (simp add: kernel_def)

lemma infos_Nil [simp]: "infos [] = 0"
  by (simp add: infos_def)

lemma infos_append [simp]: "infos (tr @ es) = fold info_step es (infos tr)"
  by (simp add: infos_def)

lemma kernel_negative: "fd < 0 \<Longrightarrow> kernel tr fd = None"
proof (induction tr rule: rev_induct)
  case (snoc e tr)
  then show ?case by (cases "(e, kernel tr)" rule: kernel_step.cases) (auto simp: on_fd_def)
qed simp

lemma on_fd_known [simp]: "on_fd fd f (k(fd \<mapsto> s)) = k(fd \<mapsto> f s)"
  by (simp add: on_fd_def)

text \<open>Two traces differ at most in what became of one descriptor.\<close>

definition same_but :: "int \<Rightarrow> trace \<Rightarrow> trace \<Rightarrow> bool" where
  "same_but fd tr tr' \<longleftrightarrow> (kernel tr')(fd := None) = (kernel tr)(fd := None)"

lemma same_but_trans: "same_but fd a b \<Longrightarrow> same_but fd b c \<Longrightarrow> same_but fd a c"
  by (simp add: same_but_def)

lemma same_but_there: "same_but fd tr tr' \<Longrightarrow> kernel tr' = (kernel tr)(fd := kernel tr' fd)"
  by (simp add: same_but_def) (metis fun_upd_triv fun_upd_upd)

text \<open>The error of a call on the socket.\<close>

definition refused :: "CUDTException \<Rightarrow> bool" where
  "refused e \<longleftrightarrow> m_iMajor e = 1 \<and> m_iMinor e = 3"

lemma net_error_simps [simp]: "m_iMajor (net_error os n tr) = 1" "m_iMinor (net_error os n tr) = n"
  by (simp_all add: net_error_def CUDTException_new_def)

lemma refused_net_error [simp]: "refused (net_error os 3 tr)"
  by (simp add: refused_def)

definition configured :: "int \<Rightarrow> int \<Rightarrow> udp_socket \<Rightarrow> udp_socket" where
  "configured rcvbuf sndbuf s = s\<lparr>k_rcvbuf := Some rcvbuf, k_sndbuf := Some sndbuf, k_timeout := Some (0, 100)\<rparr>"

lemma setUDPSockOpt_outcome:
  assumes "kernel tr (ch_Socket ch) = Some s" "setUDPSockOpt os ch tr = (res, tr')"
  shows "same_but (ch_Socket ch) tr tr' \<and>
    (case res of Inl e \<Rightarrow> refused e
     | Inr _ \<Rightarrow> kernel tr' (ch_Socket ch) = Some (configured (ch_RcvBufSize ch) (ch_SndBufSize ch) s))"
  using assms
  by (auto simp: setUDPSockOpt_def sys_def Let_def same_but_def on_fd_def configured_def split: if_splits)

lemma set_v6only_outcome:
  assumes "kernel tr (ch_Socket ch) = Some s" "set_v6only os ch tr = (res, tr')"
  shows "same_but (ch_Socket ch) tr tr' \<and>
    (case res of Inl e \<Rightarrow> refused e
     | Inr _ \<Rightarrow> kernel tr' (ch_Socket ch) = Some (if ch_IPversion ch = AF_INET6 then s\<lparr>k_v6only := True\<rparr> else s))"
  using assms
  by (auto simp: set_v6only_def sys_def Let_def same_but_def on_fd_def split: if_splits)

lemma bind_given_outcome:
  assumes "kernel tr (ch_Socket ch) = Some s" "bind_given os ch a tr = (res, tr')"
  shows "same_but (ch_Socket ch) tr tr' \<and>
    (case res of Inl e \<Rightarrow> refused e
     | Inr _ \<Rightarrow> kernel tr' (ch_Socket ch) = Some (s\<lparr>k_bound := Some a\<rparr>))"
  using assms
  by (auto simp: bind_given_def sys_def Let_def same_but_def on_fd_def split: if_splits)

lemma bind_any_outcome:
  assumes "kernel tr (ch_Socket ch) = Some s" "bind_any os ch tr = (res, tr')"
  shows "same_but (ch_Socket ch) tr tr' \<and>
    (case res of Inl e \<Rightarrow> refused e
     | Inr _ \<Rightarrow> \<exists>a. kernel tr' (ch_Socket ch) = Some (s\<lparr>k_bound := Some a\<rparr>))"
  using assms
  by (auto simp: bind_any_def sys_def Let_def same_but_def on_fd_def split: if_splits prod.splits)

text \<open>What a channel that opens has: a socket of its family, bound to the address asked for or to some address,
  that takes no IPv4 packets when it is an IPv6 socket, with the buffer sizes of the channel and a time-out of 100
  microseconds.\<close>

definition ready_socket :: "int \<Rightarrow> sockaddr \<Rightarrow> int \<Rightarrow> int \<Rightarrow> udp_socket" where
  "ready_socket v a sndbuf rcvbuf = \<lparr>k_family = v, k_bound = Some a, k_v6only = (v = AF_INET6),
     k_rcvbuf = Some rcvbuf, k_sndbuf = Some sndbuf, k_timeout = Some (0, 100)\<rparr>"

lemma CChannel_open_outcome:
  assumes "CChannel_open os addr ch tr = (res, ch', tr')"
  defines "fd \<equiv> os_ret os tr (Sys_socket (ch_IPversion ch))"
  shows "ch' = ch\<lparr>ch_Socket := fd\<rparr> \<and> same_but fd tr tr' \<and>
    (case res of Inl e \<Rightarrow> m_iMajor e = 1 \<and> m_iMinor e = (if fd < 0 then 0 else 3)
     | Inr _ \<Rightarrow> 0 \<le> fd \<and> (\<exists>a. (addr = None \<or> addr = Some a) \<and>
         kernel tr' fd = Some (ready_socket (ch_IPversion ch) a (ch_SndBufSize ch) (ch_RcvBufSize ch))))"
proof (cases "fd < 0")
  case True
  then show ?thesis
    using assms(1) by (auto simp: CChannel_open_def sys_def Let_def fd_def same_but_def)
next
  case False
  define c where "c = ch\<lparr>ch_Socket := fd\<rparr>"
  define t0 where "t0 = tr @ [(Sys_socket (ch_IPversion ch), fd)]"
  have c: "ch_Socket c = fd" "ch_IPversion c = ch_IPversion ch" "ch_SndBufSize c = ch_SndBufSize ch"
    "ch_RcvBufSize c = ch_RcvBufSize ch"
    by (simp_all add: c_def)
  have k0: "kernel t0 (ch_Socket c) = Some (udp_new (ch_IPversion ch))" and s0: "same_but fd tr t0"
    using False by (auto simp: t0_def c same_but_def)
  obtain r1 t1 where v6: "set_v6only os c t0 = (r1, t1)" by fastforce
  note o1 = set_v6only_outcome [OF k0 v6, unfolded c]
  obtain r2 t2 where b: "(case addr of Some a \<Rightarrow> bind_given os c a t1 | None \<Rightarrow> bind_any os c t1) = (r2, t2)" by fastforce
  obtain r3 t3 where o: "setUDPSockOpt os c t2 = (r3, t3)" by fastforce
  have run: "CChannel_open os addr ch tr = (case r1 of Inl e \<Rightarrow> (Inl e, c, t1) | Inr _ \<Rightarrow>
      (case r2 of Inl e \<Rightarrow> (Inl e, c, t2) | Inr _ \<Rightarrow> (r3, c, t3)))"
    using False v6 b o
    unfolding CChannel_open_def sys_def Let_def fd_def [symmetric] prod.case t0_def [symmetric] c_def [symmetric]
    by (auto split: sum.splits)
  show ?thesis
  proof (cases r1)
    case (Inl e)
    then show ?thesis
      using run assms(1) o1 s0 False by (auto simp: refused_def c_def intro: same_but_trans)
  next
    case (Inr x)
    define s1 where "s1 = (udp_new (ch_IPversion ch))\<lparr>k_v6only := ch_IPversion ch = AF_INET6\<rparr>"
    have k1: "kernel t1 (ch_Socket c) = Some s1"
      using o1 Inr by (auto simp: s1_def c udp_new_def)
    have s1: "same_but fd tr t1"
      using same_but_trans [OF s0] o1 by blast
    have o2: "same_but fd t1 t2 \<and> (case r2 of Inl e \<Rightarrow> refused e
        | Inr _ \<Rightarrow> \<exists>a. (addr = None \<or> addr = Some a) \<and> kernel t2 fd = Some (s1\<lparr>k_bound := Some a\<rparr>))"
    proof (cases addr)
      case None
      then show ?thesis using bind_any_outcome [OF k1, of os r2 t2] b c by (auto split: sum.splits)
    next
      case (Some a)
      then show ?thesis using bind_given_outcome [OF k1, of os a r2 t2] b c by (auto split: sum.splits)
    qed
    then have s2: "same_but fd tr t2"
      using same_but_trans [OF s1] by blast
    show ?thesis
    proof (cases r2)
      case (Inl e)
      then show ?thesis
        using run \<open>r1 = Inr x\<close> assms(1) o2 s2 False by (auto simp: refused_def c_def)
    next
      case (Inr y)
      then obtain a where a: "addr = None \<or> addr = Some a" "kernel t2 fd = Some (s1\<lparr>k_bound := Some a\<rparr>)"
        using o2 by auto
      have o3: "same_but fd t2 t3 \<and> (case r3 of Inl e \<Rightarrow> refused e
          | Inr _ \<Rightarrow> kernel t3 fd = Some (configured (ch_RcvBufSize ch) (ch_SndBufSize ch) (s1\<lparr>k_bound := Some a\<rparr>)))"
        using setUDPSockOpt_outcome [of t2 c, unfolded c, OF a(2) o] .
      moreover have "configured (ch_RcvBufSize ch) (ch_SndBufSize ch) (s1\<lparr>k_bound := Some a\<rparr>) =
          ready_socket (ch_IPversion ch) a (ch_SndBufSize ch) (ch_RcvBufSize ch)"
        by (simp add: configured_def s1_def udp_new_def ready_socket_def)
      moreover have "res = r3" "ch' = c" "tr' = t3"
        using run \<open>r1 = Inr x\<close> Inr assms(1) by auto
      moreover have "same_but fd tr t3"
        using same_but_trans [OF s2] o3 by blast
      ultimately show ?thesis
        using a(1) False by (auto simp: c_def refused_def split: sum.splits)
    qed
  qed
qed

text \<open>C20: a channel for a new multiplexer is either made whole or not at all: on success the process has one UDP
  socket more, of the family of the channel, bound, with its buffers and its time-out set, and for IPv6 without
  IPv4; on failure the error is 1000 when there was no socket to have and 1003 when one was made and a later call
  refused, and every socket is as it was, so none is leaked.\<close>

theorem channel_made_or_undone:
  assumes run: "make_channel os v sndbuf rcvbuf None addr tr = (res, tr')"
    and fresh: "kernel tr (os_ret os tr (Sys_socket v)) = None"
  shows "case res of
      Inl e \<Rightarrow> kernel tr' = kernel tr \<and>
        getErrorCode e = (if os_ret os tr (Sys_socket v) < 0 then 1000 else 1003)
    | Inr ch \<Rightarrow> ch_Socket ch = os_ret os tr (Sys_socket v) \<and> 0 \<le> ch_Socket ch \<and>
        (\<exists>a. (addr = None \<or> addr = Some a) \<and> kernel tr' = (kernel tr)(ch_Socket ch \<mapsto> ready_socket v a sndbuf rcvbuf))"
proof -
  define fd where "fd = os_ret os tr (Sys_socket v)"
  define ch where "ch = setRcvBufSize rcvbuf (setSndBufSize sndbuf (CChannel_new v))"
  have ch: "ch_IPversion ch = v" "ch_SndBufSize ch = sndbuf" "ch_RcvBufSize ch = rcvbuf"
    by (simp_all add: ch_def setRcvBufSize_def setSndBufSize_def CChannel_new_def)
  obtain r c t where op: "CChannel_open os addr ch tr = (r, c, t)" by (metis prod_cases3)
  note out = CChannel_open_outcome [OF op, unfolded ch, folded fd_def]
  have res: "(res, tr') = (case r of Inl e \<Rightarrow> (Inl e, CChannel_close os c t) | Inr _ \<Rightarrow> (Inr c, t))"
    using run op by (simp add: make_channel_def ch_def [symmetric] split: sum.splits)
  have gone: "(kernel tr)(fd := None) = kernel tr"
    using fresh by (auto simp: fd_def)
  show ?thesis
  proof (cases r)
    case (Inl e)
    then show ?thesis
      using res out gone
      by (auto simp: CChannel_close_def sys_def Let_def same_but_def getErrorCode_def fd_def [symmetric])
  next
    case (Inr x)
    then obtain a where "addr = None \<or> addr = Some a" "kernel t fd = Some (ready_socket v a sndbuf rcvbuf)"
      using out by auto
    moreover have "kernel t = (kernel tr)(fd := kernel t fd)"
      using out same_but_there by blast
    ultimately show ?thesis
      using res out Inr by (auto simp: fd_def)
  qed
qed

text \<open>A system on which no address can be bound.\<close>

definition example_os :: os where
  "example_os = \<lparr>os_ret = (\<lambda>tr c. case c of Sys_socket v \<Rightarrow> 7 | Sys_bind fd a l \<Rightarrow> - 1 | _ \<Rightarrow> 0), os_errno = (\<lambda>tr. 98),
     os_info = (\<lambda>tr. (\<lparr>sin_port = 0, sin_addr = 0, s6_addr = replicate 16 0\<rparr>, 28))\<rparr>"

lemma example_os_run: "make_channel example_os AF_INET6 4096 8192 None None [] =
    (Inl (CUDTException_new 98 1 3 98), [(Sys_socket 10, 7), (Sys_setsockopt 7 (V6ONLY 1), 0), (Sys_getaddrinfo 10, 0),
      (Sys_bind 7 \<lparr>sin_port = 0, sin_addr = 0, s6_addr = replicate 16 0\<rparr> 28, - 1), (Sys_close 7, 0)])"
  by (simp add: make_channel_def CChannel_open_def set_v6only_def bind_any_def CChannel_close_def sys_def example_os_def
      setRcvBufSize_def setSndBufSize_def CChannel_new_def AF_INET_def AF_INET6_def net_error_def Let_def
      sizeof_sockaddr_in6_def)

theorem channel_made_or_undone_witness:
  "\<exists>e tr'. make_channel example_os AF_INET6 4096 8192 None None [] = (Inl e, tr') \<and> kernel tr' = Map.empty \<and>
    getErrorCode e = 1003"
proof -
  obtain e tr' where run: "make_channel example_os AF_INET6 4096 8192 None None [] = (Inl e, tr')"
    by (simp add: example_os_run)
  have "os_ret example_os [] (Sys_socket AF_INET6) = 7"
    by (simp add: example_os_def)
  with channel_made_or_undone [OF run] run show ?thesis by auto
qed

text \<open>A socket of the application's own is used as it is, with its options set; when that fails \<open>updateMux\<close>
  closes it, although the channel did not make it.\<close>

theorem adopted_socket_closed:
  assumes "make_channel os v sndbuf rcvbuf (Some fd) addr tr = (res, tr')" "kernel tr fd = Some s"
  shows "kernel tr' = (kernel tr)(fd := (case res of Inl e \<Rightarrow> None | Inr ch \<Rightarrow> Some (configured rcvbuf sndbuf s)))"
proof -
  define ch where "ch = (setRcvBufSize rcvbuf (setSndBufSize sndbuf (CChannel_new v)))\<lparr>ch_Socket := fd\<rparr>"
  have ch: "ch_Socket ch = fd" "ch_SndBufSize ch = sndbuf" "ch_RcvBufSize ch = rcvbuf"
    by (simp_all add: ch_def setRcvBufSize_def setSndBufSize_def CChannel_new_def)
  obtain r t where op: "setUDPSockOpt os ch tr = (r, t)" by fastforce
  note out = setUDPSockOpt_outcome [of tr ch, unfolded ch, OF assms(2) op]
  have "(res, tr') = (case r of Inl e \<Rightarrow> (Inl e, CChannel_close os ch t) | Inr _ \<Rightarrow> (Inr ch, t))"
    using assms(1) op
    by (simp add: make_channel_def CChannel_adopt_def Let_def ch_def [symmetric] split: sum.splits)
  then show ?thesis
    using out same_but_there [of fd tr t]
    by (cases r) (auto simp: CChannel_close_def sys_def Let_def same_but_def ch)
qed

text \<open>When the address \<open>getaddrinfo\<close> found cannot be bound, its list is not given back.\<close>

theorem addrinfo_leaked:
  "infos (snd (make_channel example_os AF_INET6 4096 8192 None None [])) = 1"
  by (simp add: example_os_run infos_def)

end
