(* ===== verification/CpuClock.thy ===== *)
theory CpuClock imports TimerEvent CongestionControl begin

text \<open>
  The clock of class \<open>CTimer\<close> (\<open>udtCommon.cpp\<close>): \<open>readCPUFrequency\<close>, which runs once before \<open>main\<close>, the counter
  \<open>rdtsc\<close> in its two modes, \<open>interrupt\<close>. The Linux build for \<open>AMD64\<close> is modelled. The text of
  \<open>/proc/cpuinfo\<close>, the registers of the processor and \<open>sscanf\<close> of a number are arguments; a \<open>float\<close> is a real
  number, which \<open>(uint64_t)mhz\<close> truncates.
\<close>

section \<open>Reading the file\<close>

definition newline :: char where "newline = CHR 0x0A"
definition nul :: char where "nul = CHR 0x00"

text \<open>The length of the first line, its newline included.\<close>

fun line_len :: "string \<Rightarrow> nat" where
  "line_len [] = 0"
| "line_len (c # s) = (if c = newline then 1 else Suc (line_len s))"

text \<open>\<open>fgets(str, 256, fd)\<close> reads at most 255 characters of a line, puts a zero after them and leaves the rest of
  the buffer as it was.\<close>

definition fgets_text :: "string \<Rightarrow> string" where
  "fgets_text s = take (min 255 (line_len s)) s"

definition fgets :: "string \<Rightarrow> string \<Rightarrow> string" where
  "fgets buf s = fgets_text s @ nul # drop (Suc (length (fgets_text s))) buf"

lemma line_len_pos: "s \<noteq> [] \<Longrightarrow> 0 < line_len s"
  by (cases s) auto

lemma fgets_text_nonempty: "s \<noteq> [] \<Longrightarrow> 0 < length (fgets_text s)"
  using line_len_pos [of s] by (simp add: fgets_text_def)

text \<open>The buffer when the loop stops at a line that begins with \<open>cpu MHz\<close>.\<close>

function find_mhz :: "string \<Rightarrow> string \<Rightarrow> string option" where
  "find_mhz buf s =
    (if s = [] then None
     else let buf = fgets buf s
          in if take 7 buf = ''cpu MHz'' then Some buf
             else find_mhz buf (drop (length (fgets_text s)) s))"
  by pat_completeness auto
termination
  by (relation "measure (length \<circ> snd)") (simp_all add: fgets_text_nonempty [simplified])

declare find_mhz.simps [simp del]

text \<open>\<open>while(str[i++] != ':');\<close> leaves the buffer when it holds no colon: \<open>None\<close>.\<close>

definition after_colon :: "string \<Rightarrow> string option" where
  "after_colon str = (case dropWhile (\<lambda>c. c \<noteq> CHR '':'') str of [] \<Rightarrow> None | _ # p \<Rightarrow> Some p)"

definition c_string :: "string \<Rightarrow> string" where
  "c_string p = takeWhile (\<lambda>c. c \<noteq> nul) p"

section \<open>The frequency\<close>

text \<open>The result of \<open>readCPUFrequency\<close> is \<open>s_ullCPUFrequency\<close> with \<open>m_bUseMicroSecond\<close>. \<open>scan\<close> is what \<open>sscanf\<close> reads from a string,
  if it reads a number; \<open>t1\<close> and \<open>t2\<close> are the counter before and after a sleep of a tenth of a second.\<close>

definition file_frequency :: "(string \<Rightarrow> real option) \<Rightarrow> string \<Rightarrow> uint64 option" where
  "file_frequency scan str =
     map_option (\<lambda>p. word_of_int (trunc (case scan (c_string p) of None \<Rightarrow> 0 | Some mhz \<Rightarrow> mhz))) (after_colon str)"

text \<open>The frequency of a reading: too slow a counter is not used.\<close>

definition ticks :: "uint64 \<Rightarrow> uint64 \<times> bool" where
  "ticks f = (if f < 10 then (1, True) else (f, False))"

definition readCPUFrequency :: "string option \<Rightarrow> (string \<Rightarrow> real option) \<Rightarrow> uint64 \<Rightarrow> uint64 \<Rightarrow> (uint64 \<times> bool) option" where
  "readCPUFrequency cpuinfo scan t1 t2 =
    (let str = Option.bind cpuinfo (find_mhz (replicate 256 nul));
         frequency = (case str of Some str \<Rightarrow> file_frequency scan str | None \<Rightarrow> Some ((t2 - t1) div 100000))
     in map_option ticks frequency)"

section \<open>The counter\<close>

definition rdtsc :: "bool \<Rightarrow> uint32 \<Rightarrow> uint32 \<Rightarrow> uint64 \<Rightarrow> uint64" where
  "rdtsc m_bUseMicroSecond hval lval time =
    (if m_bUseMicroSecond then time else push_bit 32 (ucast hval) OR ucast lval)"

text \<open>\<open>interrupt\<close> stores a reading as the time to sleep to; a thread in \<open>sleepto\<close> sees it in its next turn.\<close>

definition CTimer_interrupt :: "uint64 \<Rightarrow> uint64 \<Rightarrow> uint64 option \<times> uint64" where
  "CTimer_interrupt reading later = (Some reading, later)"

text \<open>A sleeper that is interrupted stops with its next reading, however long it was to sleep.\<close>

lemma interrupt_ends_sleep:
  assumes "t < sched" "reading \<le> later"
  shows "sleepto_loop sched t (CTimer_interrupt reading later # env) = Some later"
  using assms by (simp add: CTimer_interrupt_def sleepto_loop.simps [of sched t] sleepto_loop.simps [of reading later] leD)

section \<open>The clock is set up\<close>

text \<open>A file whose lines fit into the buffer is read line by line.\<close>

definition is_line :: "string \<Rightarrow> bool" where
  "is_line l \<longleftrightarrow> length l < 255 \<and> newline \<notin> set l"

definition file_of :: "string list \<Rightarrow> string" where
  "file_of ls = concat (map (\<lambda>l. l @ [newline]) ls)"

lemma line_len_line: "newline \<notin> set l \<Longrightarrow> line_len (l @ newline # s) = Suc (length l)"
  by (induction l) auto

lemma fgets_line: "is_line l \<Longrightarrow> fgets_text (l @ newline # s) = l @ [newline]"
  by (simp add: fgets_text_def line_len_line is_line_def)

lemma take_line: "take 7 (l @ newline # s) = ''cpu MHz'' \<longleftrightarrow> take 7 l = ''cpu MHz''"
proof (cases "length l < 7")
  case True
  then have "newline \<in> set (take 7 (l @ newline # s))"
    by (cases "7 - length l") simp_all
  moreover have "newline \<notin> set ''cpu MHz''"
    by (simp add: newline_def)
  ultimately have "take 7 (l @ newline # s) \<noteq> ''cpu MHz''"
    by metis
  moreover have "take 7 l \<noteq> ''cpu MHz''"
  proof
    assume "take 7 l = ''cpu MHz''"
    then have "length (take 7 l) = 7" by (simp only: list.size)
    with True show False by simp
  qed
  ultimately show ?thesis by simp
qed simp

lemma fgets_line_buffer: "is_line l \<Longrightarrow> \<exists>rest. fgets buf (l @ newline # s) = l @ newline # nul # rest"
  by (simp add: fgets_def fgets_line)

lemma find_mhz_lines:
  assumes "\<forall>l\<in>set ls. is_line l"
  shows "case List.find (\<lambda>l. take 7 l = ''cpu MHz'') ls of
      None \<Rightarrow> find_mhz buf (file_of ls) = None
    | Some l \<Rightarrow> \<exists>rest. find_mhz buf (file_of ls) = Some (l @ newline # nul # rest)"
  using assms
proof (induction ls arbitrary: buf)
  case Nil
  then show ?case by (simp add: find_mhz.simps file_of_def)
next
  case (Cons l ls)
  then have l: "is_line l" by simp
  have f: "file_of (l # ls) = l @ newline # file_of ls" by (simp add: file_of_def)
  obtain rest where b: "fgets buf (l @ newline # file_of ls) = l @ newline # nul # rest"
    using fgets_line_buffer [OF l] by blast
  have "find_mhz buf (file_of (l # ls)) = (if take 7 l = ''cpu MHz'' then Some (l @ newline # nul # rest)
      else find_mhz (l @ newline # nul # rest) (file_of ls))"
  proof -
    have "l @ newline # file_of ls \<noteq> []" "drop (length (l @ [newline])) (l @ newline # file_of ls) = file_of ls"
      by simp_all
    then show ?thesis
      unfolding f find_mhz.simps [of buf "l @ newline # file_of ls"] Let_def b take_line fgets_line [OF l]
      by (simp only: if_False)
  qed
  then show ?case
    using Cons.IH [of "l @ newline # nul # rest"] Cons.prems
    by (cases "take 7 l = ''cpu MHz''") (simp_all split: option.splits)
qed

text \<open>The number of a line is what follows its first colon.\<close>

definition value_of_line :: "string \<Rightarrow> string" where
  "value_of_line l = tl (dropWhile (\<lambda>c. c \<noteq> CHR '':'') l) @ [newline]"

lemma after_colon_line:
  assumes "CHR '':'' \<in> set l" "nul \<notin> set l"
  shows "\<exists>p. after_colon (l @ newline # nul # rest) = Some p \<and> c_string p = value_of_line l"
proof -
  obtain k v where l: "l = k @ CHR '':'' # v" "CHR '':'' \<notin> set k"
    using assms(1) by (meson split_list_first)
  have d: "dropWhile (\<lambda>c. c \<noteq> CHR '':'') (k @ CHR '':'' # w) = CHR '':'' # w" for w
    using l(2) by (induction k) auto
  have "takeWhile (\<lambda>c. c \<noteq> nul) (v @ newline # nul # rest) = v @ [newline]"
    using assms(2) l(1) by (subst takeWhile_append2) (auto simp: newline_def nul_def)
  then show ?thesis
    by (simp add: l(1) after_colon_def d c_string_def value_of_line_def)
qed

definition mhz_of :: "(string \<Rightarrow> real option) \<Rightarrow> string \<Rightarrow> uint64" where
  "mhz_of scan s = word_of_int (trunc (case scan s of None \<Rightarrow> 0 | Some x \<Rightarrow> x))"

text \<open>Whatever the file says, the frequency is set to at least one tick per microsecond, so dividing by it is
  defined; it is the number of the first line that begins with \<open>cpu MHz\<close> or else what a tenth of a second
  measures; the counter is given up for the microsecond clock just when that makes less than ten ticks.\<close>

theorem frequency_is_read:
  assumes "\<forall>l\<in>set ls. is_line l \<and> nul \<notin> set l"
    and "\<forall>l\<in>set ls. take 7 l = ''cpu MHz'' \<longrightarrow> CHR '':'' \<in> set l"
  shows "\<exists>f usec. readCPUFrequency (Some (file_of ls)) scan t1 t2 = Some (f, usec) \<and> 1 \<le> f \<and>
    usec = (f < 10) \<and> (f, usec) = ticks
      (case List.find (\<lambda>l. take 7 l = ''cpu MHz'') ls of
         Some l \<Rightarrow> mhz_of scan (value_of_line l)
       | None \<Rightarrow> (t2 - t1) div 100000)"
proof -
  define x where "x = (case List.find (\<lambda>l. take 7 l = ''cpu MHz'') ls of
      Some l \<Rightarrow> mhz_of scan (value_of_line l) | None \<Rightarrow> (t2 - t1) div 100000)"
  have "readCPUFrequency (Some (file_of ls)) scan t1 t2 = Some (ticks x)"
  proof (cases "List.find (\<lambda>l. take 7 l = ''cpu MHz'') ls")
    case None
    then show ?thesis
      using find_mhz_lines [of ls "replicate 256 nul"] assms(1)
      by (simp add: readCPUFrequency_def x_def ticks_def)
  next
    case (Some l)
    then have l: "l \<in> set ls" "take 7 l = ''cpu MHz''"
      by (auto simp: find_Some_iff)
    obtain rest where b: "find_mhz (replicate 256 nul) (file_of ls) = Some (l @ newline # nul # rest)"
      using find_mhz_lines [of ls "replicate 256 nul"] assms(1) Some by auto
    obtain p where "after_colon (l @ newline # nul # rest) = Some p" "c_string p = value_of_line l"
      using after_colon_line assms l by blast
    then show ?thesis
      using b Some by (simp add: readCPUFrequency_def file_frequency_def x_def ticks_def mhz_of_def)
  qed
  moreover have "\<exists>f usec. ticks x = (f, usec) \<and> 1 \<le> f \<and> usec = (f < 10)"
    by (auto simp: ticks_def not_less intro: order.trans [of _ 10])
  ultimately show ?thesis
    unfolding x_def by auto
qed

theorem frequency_is_read_witness:
  "\<exists>f usec. readCPUFrequency (Some (file_of [''processor: 0'', ''cpu MHz         : 2904.002''])) (\<lambda>s. Some 2904) 5 9
      = Some (f, usec) \<and> 1 \<le> f \<and> usec = (f < 10) \<and> f = 2904"
proof -
  let ?ls = "[''processor: 0'', ''cpu MHz         : 2904.002'']"
  have 1: "\<forall>l\<in>set ?ls. is_line l \<and> nul \<notin> set l" by (simp add: is_line_def newline_def nul_def)
  have 2: "\<forall>l\<in>set ?ls. take 7 l = ''cpu MHz'' \<longrightarrow> CHR '':'' \<in> set l" by simp
  have 3: "mhz_of (\<lambda>s. Some 2904) v = 2904" for v
    by (simp add: mhz_of_def trunc_def)
  have "ticks 2904 = (2904, False)" by (simp add: ticks_def)
  then show ?thesis
    using frequency_is_read [OF 1 2, of "\<lambda>s. Some 2904" 5 9] by (auto simp: 3)
qed

text \<open>Without the file the counter is measured.\<close>

lemma frequency_without_file: "readCPUFrequency None scan t1 t2 = Some (ticks ((t2 - t1) div 100000))"
  by (simp add: readCPUFrequency_def ticks_def)

text \<open>A \<open>cpu MHz\<close> line without a colon, which fills no more of the buffer than itself, makes the loop run out of
  the buffer.\<close>

theorem no_colon_runs_off: "readCPUFrequency (Some (file_of [''cpu MHz''])) scan t1 t2 = None"
proof -
  have "find_mhz (replicate 256 nul) (file_of [''cpu MHz'']) = Some (fgets (replicate 256 nul) (file_of [''cpu MHz'']))"
    by (subst find_mhz.simps) (simp add: file_of_def fgets_def fgets_text_def newline_def)
  moreover have "after_colon (fgets (replicate 256 nul) (file_of [''cpu MHz''])) = None"
    by (simp add: after_colon_def file_of_def fgets_def fgets_text_def newline_def nul_def dropWhile_eq_Nil_conv
        split: list.splits)
  ultimately show ?thesis
    by (simp add: readCPUFrequency_def file_frequency_def)
qed

end
