(* ===== verification/UdtApi.thy ===== *)
theory UdtApi imports ApiSpec ChannelSetup begin




definition no_data :: "int \<times> api \<Rightarrow> int \<times> byte list \<times> api" where
  "no_data r = (fst r, [], snd r)"



section \<open>The codes of the exceptions\<close>

text \<open>The codes the header names, without \<open>SUCCESS\<close> and \<open>EUNKNOWN\<close>.\<close>

definition documented :: "int \<Rightarrow> bool" where
  "documented c \<longleftrightarrow> 0 < c \<and> c \<in> snd ` set error_constants"

definition throws_documented :: "CUDTException + 'a \<Rightarrow> bool" where
  "throws_documented r \<longleftrightarrow> (case r of Inl e \<Rightarrow> documented (getErrorCode e) | Inr _ \<Rightarrow> True)"

lemma documented_codes [simp]:
  "documented 1000" "documented 1001" "documented 1002" "documented 1003" "documented 1004" "documented 2001" "documented 2002"
  "documented 3002" "documented 5000" "documented 5001" "documented 5002" "documented 5003" "documented 5004" "documented 5005"
  "documented 5006" "documented 5007" "documented 5008" "documented 5011" "documented 5012" "documented 6001" "documented 6002"
  by (simp_all add: documented_def error_constants_def)

lemma throws_simps [simp]:
  "throws_documented (Inr x)" "throws_documented (Inl e) \<longleftrightarrow> documented (getErrorCode e)"
  by (simp_all add: throws_documented_def)

lemma new_code [simp]: "getErrorCode (CUDTException_new errno major minor err) = major * 1000 + minor"
  by (simp add: getErrorCode_def CUDTException_new_def)



























section \<open>How errors are reported\<close>








lemma no_data_Some: "no_data x = (r, data, a') \<longleftrightarrow> x = (r, a') \<and> data = []"
  by (cases x) (auto simp: no_data_def)






















lemma stray_code_unnamed: "- 1000 \<notin> snd ` set error_constants"
  by (simp add: error_constants_def)


end
