(* ===== verification/Spec2Isabelle.thy ===== *)
theory Spec2Isabelle
  imports SndLossSpec RcvLossSpec Channel UnitQueue SndUList InfoCache RcvUList RcvTables SndBuffer RcvBuffer TimeWindow ConnSpec TimerEvent Workers UnitedSpec SenderSpec SndLossRef ApiSpec WireSpec ReceiverSpec LinkSpec ReadSpec
    ChannelSetup CpuClock UdtApi
begin

text \<open>
  This development models the transport library of the repository, UDT with the LEDBAT congestion control
  (\<open>src/udt-sys/udt\<close> and \<open>src/udt-sys/bridge/ledbat.cpp\<close>, C++), and proves what makes it correct.

  \<^bold>\<open>The program.\<close> An application calls the static functions of \<open>CUDT\<close> (\<open>api.cpp\<close>). They find its socket in the
  tables of \<open>CUDTUnited\<close>, which shares UDP ports among sockets through multiplexers and collects closed sockets
  in a thread of its own. A multiplexer has a channel, a sending queue (\<open>CSndUList\<close>, a heap of sockets by the
  time of their next packet) and a receiving queue (a pool of units, a list of receiving sockets, a hash table, a list
  of connecting sockets), each with a thread. A socket (\<open>CUDT\<close>, \<open>core.cpp\<close>) has a send buffer, a receive
  buffer, a loss list for each direction, an ACK window, timing windows and a congestion control. Messages go
  through \<open>sendmsg\<close> into the send buffer, \<open>packData\<close> takes packets out for the sending thread, \<open>processData\<close> and
  \<open>processCtrl\<close> take packets from the receiving thread, \<open>sendCtrl\<close> sends ACKs and loss reports, \<open>checkTimers\<close> acts on
  silence, \<open>recvmsg\<close> reads messages.

  \<^bold>\<open>How code is modelled.\<close> A class is a record, an enumeration a datatype, an operation a function on the
  record. Signed integers are \<open>int\<close> with the ranges stated where overflow matters, unsigned ones are words,
  \<open>double\<close> is \<open>real\<close>. An array is a list read with \<open>aget\<close> and written with \<open>aset\<close> (\<open>Memory\<close>), linked structures
  with aliasing are names and a store. A \<open>CUDTException\<close> is a value of a sum type; \<open>None\<close> is undefined behaviour (a product of
  options that \<open>int\<close> does not hold, \<open>mul_int\<close>, is one), the end of the program, or a loop that does not end. An exception of
  another kind that leaves a call's \<open>try\<close> block (\<open>bad_alloc\<close>, a thread that cannot be made) is an argument of the call
  (\<open>escape\<close>), with the state that the interrupted call leaves; the clauses that catch it are \<open>caught\<close>. What a socket asks of its surroundings (packets to send, entries in the queues, poll
  events) is the list of effects \<open>u_Out\<close>, which \<open>United\<close> carries out in order. The time, random numbers, the success of
  allocations, uninitialised memory and the system calls are arguments. Each operation is atomic, as the mutexes make it;
  interleavings are sequences of operations.

  \<^bold>\<open>Theories and what they show.\<close>
  \<^item> \<open>Prelude\<close>, \<open>Memory\<close>: lists indexed by \<open>int\<close>, bytes and words, shared lemmas.
  \<^item> \<open>SeqNo\<close> (\<open>udtCommon.h\<close>): sequence, ACK and message numbers. The locale \<open>serial_numbers\<close> states that in a window
    they behave like integers; it is interpreted for sequence and message numbers.
  \<^item> \<open>Packet\<close>, \<open>Channel\<close> (\<open>packet.cpp\<close>, \<open>channel.cpp\<close>): formats; round trips of handshakes, control packets and the channel.
    \<open>ChannelSetup\<close>: opening and configuring a UDP socket as calls of the operating system; a channel is made or undone.
  \<^item> \<open>SndLossList\<close>, \<open>LossNodes\<close>, \<open>SndLossProofs\<close>, \<open>SndLossInsert\<close>, \<open>SndLossRemove\<close>, \<open>SndLossSpec\<close> (\<open>list.cpp\<close>): the sender's
    loss list, proved to be a set of sequence numbers with insertion, removal and minimum. The locales \<open>loss_source\<close> and
    \<open>loss_set\<close> are what the connection relies on. \<open>SndLossRef\<close>: it answers every sequence of calls like a reference program on a plain list.
  \<^item> \<open>RcvLossList\<close>, \<open>RcvLossProofs\<close>, \<open>RcvLossSpec\<close> (\<open>list.cpp\<close>): the receiver's loss list, its nodes linked both ways, proved to be a
    set to which ranges are added at the end and from which single numbers are taken; the words of a loss report. The locale
    \<open>gap_set\<close> is what the connection relies on.
  \<^item> \<open>SndBuffer\<close>, \<open>RcvBuffer\<close> (\<open>buffer.cpp\<close>): blocks fill and acknowledged blocks are freed, reading a message always returns.
  \<^item> \<open>UnitQueue\<close>, \<open>SndUList\<close>, \<open>RcvUList\<close>, \<open>RcvTables\<close>, \<open>RcvQueue\<close> (\<open>queue.cpp\<close>): units given out are free, the
    schedule serves a queued socket and puts it back unless it has nothing to send, the earliest one where the heap order holds;
    lists and tables keep their order and contents, and connection requests are at least 250 ms apart.
  \<^item> \<open>Address\<close>, \<open>Errors\<close>, \<open>InfoCache\<close>, \<open>TimerEvent\<close> (\<open>udtCommon.cpp\<close>, \<open>cache.cpp\<close>, \<open>rsynch.h\<close>): addresses, error codes,
    the cache of path data, the event on which the threads wait. \<open>CpuClock\<close>: the processor's frequency and counter.
  \<^item> \<open>AckWindow\<close>, \<open>TimeWindow\<close> (\<open>window.cpp\<close>): refinements of lists of open ACKs and of intervals, bounds of the estimates.
  \<^item> \<open>CongestionControl\<close>, \<open>Ledbat\<close> (\<open>ccc.cpp\<close>, \<open>ledbat.cpp\<close>): rates and windows stay positive, the native one's for round-trip times
    and rates that are not negative.
  \<^item> \<open>ConnState\<close>, \<open>Connection\<close>, \<open>SendCtrl\<close>, \<open>DataTransfer\<close>, \<open>ProcessCtrl\<close>, \<open>Handshake\<close> (\<open>core.cpp\<close>): the socket. \<open>ConnSpec\<close>
    shows that a handshake makes both ends agree.
  \<^item> \<open>SenderState\<close>, \<open>SenderOps\<close>, \<open>SenderSpec\<close>: every run of a connected socket, with messages that do not expire and control
    packets that are fair, refines an abstract sender, so the packets on the wire are a numbering of the messages accepted;
    \<open>packData\<close> makes progress.
  \<^item> \<open>WireSpec\<close>: every packet that a socket hands to the sending queue is well formed, where a payload has room for a handshake.
  \<^item> \<open>ReceiverState\<close>, \<open>ReceiverOps\<close>, \<open>ReceiverSteps\<close>, \<open>ReceiverData\<close>, \<open>ReceiverDrop\<close>, \<open>ReceiverSpec\<close>: every run of a connected
    socket refines an abstract receiver, so each ACK covers only what has arrived or was dropped at the peer's request, and each
    loss report names only what is missing. It rests on the locales \<open>gap_set\<close> and \<open>serial_numbers\<close>.
  \<^item> \<open>Messages\<close>, \<open>StreamBuffer\<close>, \<open>DeliverySpec\<close>: a message is queued completely, cut into packets that carry its bytes, the
    marks of its first and last packet, its order and its number; the receive buffer is a window on the peer's
    stream of packets, so in every run what \<open>recvmsg\<close> gives out are whole messages of that stream, none twice and those to be
    kept in order so.
  \<^item> \<open>LinkSpec\<close>: sender and receiver with a network between them that loses, repeats and reorders packets: what is received
    is what was sent. \<open>ReadSpec\<close>: a message that has arrived and is acknowledged is given out.
  \<^item> \<open>United\<close> (\<open>api.cpp\<close>): sockets, multiplexers, connections, collection. \<open>UnitedFrame\<close>, \<open>UnitedMux\<close>, \<open>UnitedInv\<close>, \<open>UnitedSpec\<close>:
    in every reachable state a multiplexer lives as long as its sockets, closed sockets are removed, repeated
    requests are answered, which connection \<open>accept\<close> takes.
  \<^item> \<open>Api\<close> (\<open>api.cpp\<close>), \<open>Workers\<close> (\<open>queue.cpp\<close>): the application's calls with the error record; one turn of each thread.
    \<open>ApiSpec\<close>: what \<open>sendmsg\<close> and \<open>recvmsg\<close> do and report in every case, and what the application sees of a failure. \<open>UdtApi\<close>: the functions of namespace \<open>UDT\<close> as steps of the library, and the
    one way in which all of them report errors.

  \<^bold>\<open>Bounds and fuel.\<close> Loops over linked cells take a fuel of the size of the structure plus one; the theorems show that it
  is not used up. \<open>grow\<close>, \<open>fill_blocks\<close> and \<open>decode_loss\<close> have termination proofs, \<open>timer_check\<close> is a partial function. The
  loss lists are assumed smaller than a quarter of the sequence space, far above any window the options allow.
  The receiver is taken with a buffer no larger than its loss list and with drop requests inside the list's window (\<open>fair_drop\<close>).

  \<^bold>\<open>Not modelled.\<close> What the operating system does in a call (its answers are arguments), other systems than Linux on AMD64,
  destructors and memory release, the poll set of \<open>src/udt-sys/src/rpoll.rs\<close> (its calls are recorded), and
  the Rust crates of the workspace, which use the library.
\<close>

end
